(* ===== verification/Prelude.thy ===== *)
theory Prelude
  imports Main "HOL-Library.Word" "HOL-Library.Multiset"
begin

text \<open>
  What the components share: the reading of C integers that are stored into a narrower
  type, the collections of automation rules, and generic facts about lists.
\<close>

section \<open>C integers\<close>

text \<open>
  A C \<open>short\<close> is a 16-bit two's complement integer. Values of \<open>int\<close> variables are kept
  as \<^typ>\<open>int\<close>; where the code stores one into a \<open>short\<close> the conversion is written out.
\<close>

definition to_short :: "int \<Rightarrow> int" where
  "to_short i = (i + 32768) mod 65536 - 32768"

definition is_short :: "int \<Rightarrow> bool" where
  "is_short i \<longleftrightarrow> -32768 \<le> i \<and> i \<le> 32767"

lemma to_short_id [simp]: "is_short i \<Longrightarrow> to_short i = i"
  by (simp add: to_short_def is_short_def)

lemma is_short_to_short [simp]: "is_short (to_short i)"
  unfolding to_short_def is_short_def
  using pos_mod_bound [of 65536 "i + 32768"] pos_mod_sign [of 65536 "i + 32768"] by linarith

lemma to_short_cong: "to_short (i + 65536 * k) = to_short i"
proof -
  have "i + 65536 * k + 32768 = (i + 32768) + 65536 * k" by simp
  then show ?thesis unfolding to_short_def by (metis mod_mult_self2)
qed

section \<open>Automation\<close>

text \<open>
  \<open>alloc_simps\<close>: what the memory operations do when every allocation succeeds.
  \<open>scan_simps\<close>: membership of a pixel column in a scanline.
\<close>

named_theorems alloc_simps
named_theorems scan_simps

section \<open>Lists\<close>

lemma takeWhile_append_stop:
  "(\<And>x. x \<in> set xs \<Longrightarrow> P x) \<Longrightarrow> ys = [] \<or> \<not> P (hd ys) \<Longrightarrow> takeWhile P (xs @ ys) = xs"
  by (cases ys) (auto simp: takeWhile_append2)

lemma dropWhile_append_stop:
  "(\<And>x. x \<in> set xs \<Longrightarrow> P x) \<Longrightarrow> ys = [] \<or> \<not> P (hd ys) \<Longrightarrow> dropWhile P (xs @ ys) = ys"
  by (cases ys) (auto simp: dropWhile_append2)

lemma take_drop_append_exact [simp]:
  "take (length xs) (drop (length ws) (ws @ xs @ ys)) = xs"
  by simp

lemma length_dropWhile_less:
  "xs \<noteq> [] \<Longrightarrow> length (dropWhile P (tl xs)) < length xs"
  by (cases xs) (simp_all add: length_dropWhile_le less_Suc_eq_le)

section \<open>Words\<close>

unbundle bit_operations_syntax

lemma unat_of_nat32: "n < 4294967296 \<Longrightarrow> unat (of_nat n :: 32 word) = n"
  by (simp add: unat_of_nat)

lemma of_nat_mod32:
  assumes "n < 4294967296" "0 < m" "m < 4294967296"
  shows "(of_nat n :: 32 word) mod of_nat m = of_nat (n mod m)"
proof -
  have "n mod m < 4294967296" using assms(2,3) by (meson less_trans mod_less_divisor)
  then have "unat ((of_nat n :: 32 word) mod of_nat m) = unat (of_nat (n mod m) :: 32 word)"
    using assms by (simp add: unat_mod unat_of_nat32)
  then show ?thesis by (metis of_nat_unat ucast_id)
qed

lemma unat_byte_le: "unat (b :: 8 word) \<le> 255"
  using unsigned_less [of b, where ?'a = nat] by simp

lemma ucast_byte: "(ucast (b :: 8 word) :: 32 word) = of_nat (unat b)"
  by simp

text \<open>Four words without a common bit: the code assembles values with both operations.\<close>

lemma or4_add:
  assumes "a AND b = 0" "(a OR b) AND c = 0" "(a OR b OR c) AND d = (0 :: 32 word)"
  shows "a OR b OR c OR d = a + b + c + d"
  using assms by (simp add: disjunctive_add_eq_or or.assoc)

end
