(* ===== verification/RegionData.thy ===== *)
theory RegionData
  imports Prelude
begin

text \<open>
  The data model of \<open>region/x11region.h\<close> and the allocation, copy and validity routines of
  \<open>region/x11region.c\<close>. A \<open>RegionRec\<close> is an extents box and a pointer to a block of
  rectangles. The pointer is NULL (the region is its extents box), \<open>&miEmptyData\<close>,
  \<open>&miBrokenData\<close> or a heap block of \<open>size\<close> rectangles of which the first \<open>numRects\<close>
  are used; the model's list holds exactly those \<open>numRects\<close> boxes. Coordinates are
  \<open>short\<close> values kept as integers.

  Whether \<open>malloc\<close> or \<open>realloc\<close> succeeds is outside the program: every routine that
  allocates takes a parameter \<open>ok\<close>, and \<open>ok n\<close> says that a request for \<open>n\<close> rectangles
  succeeds.
\<close>

section \<open>Boxes and regions\<close>

record box =
  bx1 :: int
  by1 :: int
  bx2 :: int
  by2 :: int

datatype rdata = NoData | EmptyData | BrokenData | RegData (rsize: nat) (rrects: "box list")

record region =
  extents :: box
  rgdata :: rdata

type_synonym allocator = "nat \<Rightarrow> bool"

definition mkbox :: "int \<Rightarrow> int \<Rightarrow> int \<Rightarrow> int \<Rightarrow> box" where
  "mkbox x1 y1 x2 y2 = \<lparr>bx1 = x1, by1 = y1, bx2 = x2, by2 = y2\<rparr>"

lemma mkbox_sel [simp]:
  "bx1 (mkbox a b c d) = a" "by1 (mkbox a b c d) = b"
  "bx2 (mkbox a b c d) = c" "by2 (mkbox a b c d) = d"
  by (simp_all add: mkbox_def)

lemma mkbox_eq [simp]: "mkbox a b c d = mkbox a' b' c' d' \<longleftrightarrow> a = a' \<and> b = b' \<and> c = c' \<and> d = d'"
  by (simp add: mkbox_def)

lemma mkbox_collapse [simp]: "mkbox (bx1 b) (by1 b) (bx2 b) (by2 b) = b"
  by (simp add: mkbox_def)

lemma box_eqI: "bx1 a = bx1 b \<Longrightarrow> by1 a = by1 b \<Longrightarrow> bx2 a = bx2 b \<Longrightarrow> by2 a = by2 b \<Longrightarrow> a = (b::box)"
  by (metis mkbox_collapse)

lemma mkbox_upd [simp]: "(mkbox a b c d)\<lparr>by2 := e\<rparr> = mkbox a b c e"
  by (simp add: mkbox_def)

definition EXTENTCHECK :: "box \<Rightarrow> box \<Rightarrow> bool" where
  "EXTENTCHECK r1 r2 \<longleftrightarrow>
     \<not> (bx2 r1 \<le> bx1 r2 \<or> bx1 r1 \<ge> bx2 r2 \<or> by2 r1 \<le> by1 r2 \<or> by1 r1 \<ge> by2 r2)"

definition INBOX :: "box \<Rightarrow> int \<Rightarrow> int \<Rightarrow> bool" where
  "INBOX r x y \<longleftrightarrow> bx2 r > x \<and> bx1 r \<le> x \<and> by2 r > y \<and> by1 r \<le> y"

definition SUBSUMES :: "box \<Rightarrow> box \<Rightarrow> bool" where
  "SUBSUMES r1 r2 \<longleftrightarrow> bx1 r1 \<le> bx1 r2 \<and> bx2 r1 \<ge> bx2 r2 \<and> by1 r1 \<le> by1 r2 \<and> by2 r1 \<ge> by2 r2"

definition miEmptyBox :: box where
  "miEmptyBox = mkbox 0 0 0 0"

fun data_size :: "rdata \<Rightarrow> nat" where
  "data_size (RegData s rs) = s"
| "data_size _ = 0"

fun data_rects :: "rdata \<Rightarrow> box list" where
  "data_rects (RegData s rs) = rs"
| "data_rects _ = []"

definition REGION_NIL :: "region \<Rightarrow> bool" where
  "REGION_NIL r \<longleftrightarrow> rgdata r \<noteq> NoData \<and> data_rects (rgdata r) = []"

definition REGION_NAR :: "region \<Rightarrow> bool" where
  "REGION_NAR r \<longleftrightarrow> rgdata r = BrokenData"

definition REGION_RECTS :: "region \<Rightarrow> box list" where
  "REGION_RECTS r = (if rgdata r = NoData then [extents r] else data_rects (rgdata r))"

definition REGION_NUM_RECTS :: "region \<Rightarrow> nat" where
  "REGION_NUM_RECTS r = length (REGION_RECTS r)"

section \<open>Creation, destruction, copying\<close>

text \<open>
  A heap block is owned by the one region that points to it, so freeing it changes nothing
  that a region can still reach: \<open>xfreeData\<close> has no effect on the model.
\<close>

definition miRegionInit :: "allocator \<Rightarrow> box option \<Rightarrow> int \<Rightarrow> region" where
  "miRegionInit ok rect sz =
     (case rect of
        Some b \<Rightarrow> \<lparr>extents = b, rgdata = NoData\<rparr>
      | None \<Rightarrow>
          (if sz > 1 \<and> ok (nat sz)
           then \<lparr>extents = miEmptyBox, rgdata = RegData (nat sz) []\<rparr>
           else \<lparr>extents = miEmptyBox, rgdata = EmptyData\<rparr>))"

definition miBrokenRegion :: region where
  "miBrokenRegion = \<lparr>extents = miEmptyBox, rgdata = BrokenData\<rparr>"

definition miRegionCreate :: "allocator \<Rightarrow> bool \<Rightarrow> box option \<Rightarrow> int \<Rightarrow> region" where
  "miRegionCreate ok okHeader rect sz =
     (if \<not> okHeader then miBrokenRegion else
      case rect of
        Some b \<Rightarrow> \<lparr>extents = b, rgdata = NoData\<rparr>
      | None \<Rightarrow>
          (if sz > 1 \<and> ok (nat sz)
           then \<lparr>extents = miEmptyBox, rgdata = RegData (nat sz) []\<rparr>
           else \<lparr>extents = miEmptyBox, rgdata = EmptyData\<rparr>))"

definition miRegionBreak :: "region \<Rightarrow> bool \<times> region" where
  "miRegionBreak r = (False, r\<lparr>extents := miEmptyBox, rgdata := BrokenData\<rparr>)"

definition miRectAlloc :: "allocator \<Rightarrow> region \<Rightarrow> nat \<Rightarrow> bool \<times> region" where
  "miRectAlloc ok r n =
     (case rgdata r of
        NoData \<Rightarrow>
          (let n' = n + 1 in
           if \<not> ok n' then miRegionBreak r
           else (True, r\<lparr>rgdata := RegData n' [extents r]\<rparr>))
      | RegData s rs \<Rightarrow>
          (if s = 0 then
             (if \<not> ok n then miRegionBreak r else (True, r\<lparr>rgdata := RegData n []\<rparr>))
           else
             (let k = (if n = 1 then (if length rs > 500 then 250 else length rs) else n);
                  n' = k + length rs
              in if \<not> ok n' then miRegionBreak r
                 else (True, r\<lparr>rgdata := RegData n' rs\<rparr>)))
      | _ \<Rightarrow> (if \<not> ok n then miRegionBreak r else (True, r\<lparr>rgdata := RegData n []\<rparr>)))"

definition RECTALLOC :: "allocator \<Rightarrow> region \<Rightarrow> nat \<Rightarrow> bool \<times> region" where
  "RECTALLOC ok r n =
     (if rgdata r = NoData \<or> length (data_rects (rgdata r)) + n > data_size (rgdata r)
      then miRectAlloc ok r n else (True, r))"

definition add_boxes :: "region \<Rightarrow> box list \<Rightarrow> region" where
  "add_boxes r bs = r\<lparr>rgdata := RegData (data_size (rgdata r)) (data_rects (rgdata r) @ bs)\<rparr>"

definition NEWRECT :: "allocator \<Rightarrow> region \<Rightarrow> box \<Rightarrow> bool \<times> region" where
  "NEWRECT ok r b =
     (if rgdata r = NoData \<or> length (data_rects (rgdata r)) = data_size (rgdata r)
      then (case miRectAlloc ok r 1 of
              (False, r') \<Rightarrow> (False, r')
            | (True, r') \<Rightarrow> (True, add_boxes r' [b]))
      else (True, add_boxes r [b]))"

definition DOWNSIZE :: "allocator \<Rightarrow> region \<Rightarrow> region" where
  "DOWNSIZE ok r =
     (case rgdata r of
        RegData s rs \<Rightarrow>
          (if length rs < s div 2 \<and> s > 50 \<and> ok (length rs)
           then r\<lparr>rgdata := RegData (length rs) rs\<rparr> else r)
      | _ \<Rightarrow> r)"

text \<open>
  \<open>same\<close> is the test \<open>dst == src\<close> on the two pointers. \<open>put_rects\<close> overwrites the
  rectangles of a block in place; a static block, of size 0, can only be given none.
\<close>

fun put_rects :: "rdata \<Rightarrow> box list \<Rightarrow> rdata" where
  "put_rects (RegData s rs) rs' = RegData s rs'"
| "put_rects d rs' = d"

definition miRegionCopy :: "allocator \<Rightarrow> bool \<Rightarrow> region \<Rightarrow> region \<Rightarrow> bool \<times> region" where
  "miRegionCopy ok same dst src =
     (if same then (True, dst) else
      let dst = dst\<lparr>extents := extents src\<rparr> in
      if rgdata src = NoData \<or> data_size (rgdata src) = 0
      then (True, dst\<lparr>rgdata := rgdata src\<rparr>)
      else
        let n = length (data_rects (rgdata src)) in
        if rgdata dst = NoData \<or> data_size (rgdata dst) < n
        then (if \<not> ok n then miRegionBreak dst
              else (True, dst\<lparr>rgdata := RegData n (data_rects (rgdata src))\<rparr>))
        else (True, dst\<lparr>rgdata := put_rects (rgdata dst) (data_rects (rgdata src))\<rparr>))"

definition miRegionEmpty :: "region \<Rightarrow> region" where
  "miRegionEmpty r =
     r\<lparr>extents := (extents r)\<lparr>bx2 := bx1 (extents r), by2 := by1 (extents r)\<rparr>,
       rgdata := EmptyData\<rparr>"

definition miRegionReset :: "region \<Rightarrow> box \<Rightarrow> region" where
  "miRegionReset r b = r\<lparr>extents := b, rgdata := NoData\<rparr>"

definition miRegionNotEmpty :: "region \<Rightarrow> bool" where
  "miRegionNotEmpty r \<longleftrightarrow> \<not> REGION_NIL r"

definition miRegionBroken :: "region \<Rightarrow> bool" where
  "miRegionBroken r \<longleftrightarrow> REGION_NAR r"

definition miRegionExtents :: "region \<Rightarrow> box" where
  "miRegionExtents r = extents r"

section \<open>Comparison and the validity check\<close>

fun rects_equal :: "box list \<Rightarrow> box list \<Rightarrow> bool" where
  "rects_equal (a # as) (b # bs) =
     (if bx1 a \<noteq> bx1 b then False
      else if bx2 a \<noteq> bx2 b then False
      else if by1 a \<noteq> by1 b then False
      else if by2 a \<noteq> by2 b then False
      else rects_equal as bs)"
| "rects_equal _ _ = True"

definition miRegionsEqual :: "region \<Rightarrow> region \<Rightarrow> bool" where
  "miRegionsEqual reg1 reg2 =
     (if bx1 (extents reg1) \<noteq> bx1 (extents reg2) then False
      else if bx2 (extents reg1) \<noteq> bx2 (extents reg2) then False
      else if by1 (extents reg1) \<noteq> by1 (extents reg2) then False
      else if by2 (extents reg1) \<noteq> by2 (extents reg2) then False
      else if REGION_NUM_RECTS reg1 \<noteq> REGION_NUM_RECTS reg2 then False
      else rects_equal (REGION_RECTS reg1) (REGION_RECTS reg2))"

fun miValidRegion_loop :: "box \<Rightarrow> box \<Rightarrow> box list \<Rightarrow> box option" where
  "miValidRegion_loop bx pboxP [] = Some bx"
| "miValidRegion_loop bx pboxP (pboxN # rest) =
     (if bx1 pboxN \<ge> bx2 pboxN \<or> by1 pboxN \<ge> by2 pboxN then None
      else
        let bx = (if bx1 pboxN < bx1 bx then bx\<lparr>bx1 := bx1 pboxN\<rparr> else bx);
            bx = (if bx2 pboxN > bx2 bx then bx\<lparr>bx2 := bx2 pboxN\<rparr> else bx)
        in if by1 pboxN < by1 pboxP \<or>
              (by1 pboxN = by1 pboxP \<and> (bx1 pboxN < bx2 pboxP \<or> by2 pboxN \<noteq> by2 pboxP))
           then None
           else miValidRegion_loop bx pboxN rest)"

definition miValidRegion :: "region \<Rightarrow> bool" where
  "miValidRegion reg =
     (let e = extents reg; rs = REGION_RECTS reg in
      if bx1 e > bx2 e \<or> by1 e > by2 e then False
      else if rs = [] then
        bx1 e = bx2 e \<and> by1 e = by2 e \<and> (data_size (rgdata reg) \<noteq> 0 \<or> rgdata reg = EmptyData)
      else if length rs = 1 then rgdata reg = NoData
      else
        (case miValidRegion_loop ((hd rs)\<lparr>by2 := by2 (last rs)\<rparr>) (hd rs) (tl rs) of
           None \<Rightarrow> False
         | Some bx \<Rightarrow> bx1 bx = bx1 e \<and> bx2 bx = bx2 e \<and> by1 bx = by1 e \<and> by2 bx = by2 e))"

section \<open>What the memory operations do when allocation succeeds\<close>

definition alloc_ok :: "allocator \<Rightarrow> bool" where
  "alloc_ok ok \<longleftrightarrow> (\<forall>n. ok n)"

text \<open>A region under construction: its extents, and the boxes in its heap block.\<close>

definition holds :: "region \<Rightarrow> box \<Rightarrow> box list \<Rightarrow> bool" where
  "holds r e rs \<longleftrightarrow> extents r = e \<and> (\<exists>s. rgdata r = RegData s rs \<and> length rs \<le> s)"

lemma holds_rects: "holds r e rs \<Longrightarrow> data_rects (rgdata r) = rs"
  by (auto simp: holds_def)

lemma NEWRECT_holds [alloc_simps]:
  assumes "alloc_ok ok" "holds r e rs"
  shows "fst (NEWRECT ok r b) \<and> holds (snd (NEWRECT ok r b)) e (rs @ [b])"
  using assms
  by (cases rs) (auto simp: holds_def NEWRECT_def miRectAlloc_def alloc_ok_def add_boxes_def Let_def)

lemma NEWRECT_ok:
  assumes "alloc_ok ok" "holds r e rs"
  obtains r' where "NEWRECT ok r b = (True, r')" "holds r' e (rs @ [b])"
  using NEWRECT_holds [OF assms, of b] by (metis prod.collapse)

lemma RECTALLOC_add_holds [alloc_simps]:
  assumes "alloc_ok ok" "holds r e rs"
  shows "fst (RECTALLOC ok r (length bs)) \<and> holds (add_boxes (snd (RECTALLOC ok r (length bs))) bs) e (rs @ bs)"
  using assms
  by (auto simp: holds_def RECTALLOC_def miRectAlloc_def alloc_ok_def add_boxes_def Let_def)

end
