(* ===== verification/RegionBands.thy ===== *)
theory RegionBands
  imports RegionData
begin

text \<open>
  The representation the region code maintains, "y-x banded" rectangles, described on its
  own: lists of column intervals, bands of scanlines that share one interval list, and the
  canonical form (intervals of a band do not touch, bands are in order, and no two touching
  bands could be merged). The main result is that the canonical form is unique: two
  canonical lists of rectangles that contain the same pixels are equal.
\<close>

section \<open>Intervals of one scanline\<close>

type_synonym iv = "int \<times> int"

fun in_ivs :: "iv list \<Rightarrow> int \<Rightarrow> bool" where
  "in_ivs [] x = False"
| "in_ivs ((a, b) # r) x = (a \<le> x \<and> x < b \<or> in_ivs r x)"

text \<open>\<open>iv_from l vs\<close>: the intervals are non-empty, ascending and separated, and start after \<open>l\<close>.\<close>

fun iv_from :: "int \<Rightarrow> iv list \<Rightarrow> bool" where
  "iv_from l [] = True"
| "iv_from l ((a, b) # r) = (l < a \<and> a < b \<and> iv_from b r)"

fun iv_ok :: "iv list \<Rightarrow> bool" where
  "iv_ok [] = True"
| "iv_ok ((a, b) # r) = (a < b \<and> iv_from b r)"

lemma iv_from_mono: "iv_from l vs \<Longrightarrow> l' \<le> l \<Longrightarrow> iv_from l' vs"
  by (cases vs) auto

lemma iv_from_ok [intro]: "iv_from l vs \<Longrightarrow> iv_ok vs"
  by (cases vs) auto

lemma iv_ok_from: "iv_ok vs \<Longrightarrow> \<exists>l. iv_from l vs"
proof (cases vs)
  case (Cons p r)
  assume "iv_ok vs"
  with Cons show ?thesis by (cases p) (auto intro!: exI [of _ "fst p - 1"])
qed simp

lemma iv_from_above: "iv_from l vs \<Longrightarrow> in_ivs vs x \<Longrightarrow> l < x"
  by (induction l vs rule: iv_from.induct) auto

lemma in_ivs_append [simp]: "in_ivs (xs @ ys) x = (in_ivs xs x \<or> in_ivs ys x)"
  by (induction xs x rule: in_ivs.induct) auto

lemma iv_from_head:
  assumes "iv_from l ((a, b) # r)"
  shows "in_ivs ((a, b) # r) a" "x < a \<Longrightarrow> \<not> in_ivs ((a, b) # r) x" "\<not> in_ivs ((a, b) # r) b"
  using assms iv_from_above [of b r] by fastforce+

lemma iv_ok_nonempty: "iv_ok vs \<Longrightarrow> vs \<noteq> [] \<Longrightarrow> \<exists>x. in_ivs vs x"
  by (cases vs) (auto intro!: exI)

text \<open>An ascending separated interval list is determined by the set of its columns.\<close>

lemma iv_from_unique:
  "iv_from l vs \<Longrightarrow> iv_from l js \<Longrightarrow> (\<And>x. in_ivs vs x = in_ivs js x) \<Longrightarrow> vs = js"
proof (induction l vs arbitrary: js rule: iv_from.induct)
  case (1 l)
  then show ?case
    using iv_ok_nonempty [of js] by auto
next
  case (2 l a b r)
  have "in_ivs js a" using "2.prems"(3) [of a] iv_from_head(1) [OF "2.prems"(1)] by blast
  then obtain c d q where js: "js = (c, d) # q" by (cases js) auto
  note hi = iv_from_head [OF "2.prems"(1)] and hj = iv_from_head [OF "2.prems"(2) [unfolded js]]
  have "a = c"
    using hi(1) hi(2) [of c] hj(1) hj(2) [of a] "2.prems"(3) [unfolded js]
    by (metis not_less_iff_gr_or_eq)
  have "b = d"
  proof (rule ccontr)
    assume "b \<noteq> d"
    then consider "b < d" | "d < b" by linarith
    then show False
    proof cases
      case 1
      have "a < b" using "2.prems"(1) by simp
      with 1 have "in_ivs ((c, d) # q) b" using \<open>a = c\<close> by simp
      then show False using hi(3) "2.prems"(3) [of b] js by blast
    next
      case 2
      have "c < d" using "2.prems"(2) js by simp
      with 2 have "in_ivs ((a, b) # r) d" using \<open>a = c\<close> by simp
      then show False using hj(3) "2.prems"(3) [of d] js by blast
    qed
  qed
  have "in_ivs r x = in_ivs q x" for x
  proof (cases "x < b")
    case True
    then show ?thesis
      using iv_from_above [of b r x] iv_from_above [of d q x] "2.prems"(1,2) js \<open>b = d\<close> by auto
  next
    case False
    with "2.prems"(3) [of x] show ?thesis using js \<open>a = c\<close> \<open>b = d\<close> by auto
  qed
  with "2.IH" [of q] "2.prems"(1,2) js \<open>a = c\<close> \<open>b = d\<close> show ?case by simp
qed

lemma iv_ok_unique:
  assumes "iv_ok vs" "iv_ok js" "\<And>x. in_ivs vs x = in_ivs js x"
  shows "vs = js"
proof -
  obtain l where "iv_from l vs" using iv_ok_from [OF assms(1)] by blast
  moreover obtain l' where "iv_from l' js" using iv_ok_from [OF assms(2)] by blast
  ultimately have "iv_from (min l l') vs" "iv_from (min l l') js"
    by (auto intro: iv_from_mono)
  then show ?thesis using assms(3) by (rule iv_from_unique)
qed

section \<open>Bands\<close>

type_synonym band = "int \<times> int \<times> iv list"

fun in_bands :: "band list \<Rightarrow> int \<Rightarrow> int \<Rightarrow> bool" where
  "in_bands [] x y = False"
| "in_bands ((t, b, vs) # bs) x y = (t \<le> y \<and> y < b \<and> in_ivs vs x \<or> in_bands bs x y)"

text \<open>
  \<open>canon_from y p bs\<close>: the bands start at or below scanline \<open>y\<close>, are in order, each is
  non-empty and well formed, and none touches a band above it with the same intervals;
  \<open>p\<close> are the intervals of a band that ends at \<open>y\<close>.
\<close>

fun canon_from :: "int \<Rightarrow> iv list \<Rightarrow> band list \<Rightarrow> bool" where
  "canon_from y p [] = True"
| "canon_from y p ((t, b, vs) # bs) =
     (y \<le> t \<and> t < b \<and> vs \<noteq> [] \<and> iv_ok vs \<and> (t = y \<longrightarrow> vs \<noteq> p) \<and> canon_from b vs bs)"

fun canon :: "band list \<Rightarrow> bool" where
  "canon [] = True"
| "canon ((t, b, vs) # bs) = (t < b \<and> vs \<noteq> [] \<and> iv_ok vs \<and> canon_from b vs bs)"

lemma canon_from_canon: "canon_from y p bs \<Longrightarrow> canon bs"
  by (cases bs) auto

lemma canon_from_Nil: "canon bs \<Longrightarrow> (bs \<noteq> [] \<Longrightarrow> y \<le> fst (hd bs)) \<Longrightarrow> canon_from y [] bs"
  by (cases bs) auto

lemma canon_ex_from: "canon bs \<Longrightarrow> \<exists>y. canon_from y [] bs"
  by (cases bs) (auto intro: exI [of _ "fst (hd bs)"])

lemma canon_from_mono: "canon_from y p bs \<Longrightarrow> y' \<le> y \<Longrightarrow> canon_from y' [] bs"
  by (cases bs) auto

lemma in_bands_append [simp]: "in_bands (as @ bs) x y = (in_bands as x y \<or> in_bands bs x y)"
  by (induction as x y rule: in_bands.induct) auto

lemma canon_from_above: "canon_from y p bs \<Longrightarrow> in_bands bs x z \<Longrightarrow> y \<le> z"
  by (induction y p bs rule: canon_from.induct) fastforce+

text \<open>The scanlines of a canonical list determine it.\<close>

lemma canon_from_unique:
  "canon_from y p as \<Longrightarrow> canon_from y q bs \<Longrightarrow> p = q \<Longrightarrow>
     (\<And>x z. in_bands as x z = in_bands bs x z) \<Longrightarrow> as = bs"
proof (induction y p as arbitrary: bs q rule: canon_from.induct)
  case (1 y p)
  show ?case
  proof (cases bs)
    case (Cons w ws)
    obtain t b js where w: "w = (t, b, js)" by (cases w)
    with Cons "1.prems"(2) obtain x where "in_ivs js x" using iv_ok_nonempty [of js] by auto
    then have "in_bands bs x t" using Cons w "1.prems"(2) by auto
    then show ?thesis using "1.prems"(4) [of x t] by simp
  qed simp
next
  case (2 y p t b vs as)
  obtain x0 where x0: "in_ivs vs x0" using iv_ok_nonempty [of vs] "2.prems"(1) by auto
  then have "in_bands bs x0 t" using "2.prems"(1) "2.prems"(4) [of x0 t] by auto
  then obtain t' b' js ws where bs: "bs = (t', b', js) # ws" by (cases bs) auto
  obtain x1 where x1: "in_ivs js x1" using iv_ok_nonempty [of js] "2.prems"(2) bs by auto
  have above: "in_bands as x z \<Longrightarrow> b \<le> z" "in_bands ws x z \<Longrightarrow> b' \<le> z" for x z
    using canon_from_above "2.prems"(1,2) bs by fastforce+
  have ord: "t < b" "t' < b'" using "2.prems"(1,2) bs by auto
  have first: "z < t \<Longrightarrow> \<not> in_bands ((t, b, vs) # as) x z" "z < t' \<Longrightarrow> \<not> in_bands bs x z" for x z
    using above ord bs by force+
  have tt: "t = t'"
  proof -
    have "\<not> t < t'" using first(2) [of t x0] \<open>in_bands bs x0 t\<close> by blast
    moreover have "\<not> t' < t"
      using first(1) [of t' x1] "2.prems"(4) [of x1 t'] x1 ord bs by auto
    ultimately show ?thesis by simp
  qed
  have row: "in_ivs vs x = in_ivs js x" for x
  proof -
    have "in_bands ((t, b, vs) # as) x t = in_ivs vs x" using above(1) [of x t] ord by auto
    moreover have "in_bands bs x t = in_ivs js x" using above(2) [of x t] ord tt bs by auto
    ultimately show ?thesis using "2.prems"(4) [of x t] by metis
  qed
  then have eq: "vs = js" using iv_ok_unique "2.prems"(1,2) bs by auto
  have rowat: "(\<forall>x. in_bands cs x c = in_ivs ks x) \<Longrightarrow> canon_from c ks cs \<Longrightarrow> ks \<noteq> [] \<Longrightarrow> iv_ok ks \<Longrightarrow> False"
    for c ks cs
  proof -
    assume r: "\<forall>x. in_bands cs x c = in_ivs ks x" and c: "canon_from c ks cs" "ks \<noteq> []" "iv_ok ks"
    obtain u where "in_ivs ks u" using c iv_ok_nonempty by blast
    with r obtain t2 b2 ls ds where cs: "cs = (t2, b2, ls) # ds" by (cases cs) auto
    have abv: "in_bands ds x z \<Longrightarrow> b2 \<le> z" for x z using canon_from_above c(1) cs by fastforce
    have "c \<le> t2" "t2 < b2" using c(1) cs by auto
    moreover have "in_bands cs u c" using r \<open>in_ivs ks u\<close> by blast
    ultimately have "t2 = c" using cs abv [of u c] by auto
    then have "in_ivs ls x = in_ivs ks x" for x
      using r cs abv [of x c] \<open>t2 < b2\<close> by auto
    then have "ls = ks" using iv_ok_unique [of ls ks] c cs by auto
    then show False using c(1) cs \<open>t2 = c\<close> by simp
  qed
  have bb: "b = b'"
  proof (rule ccontr)
    assume "b \<noteq> b'"
    then consider "b < b'" | "b' < b" by linarith
    then show False
    proof cases
      case 1
      have "in_bands as x b = in_ivs vs x" for x
        using "2.prems"(4) [of x b] bs above(2) [of x b] 1 tt eq ord by auto
      then show False using rowat [of as b vs] "2.prems"(1) by auto
    next
      case 2
      have "in_bands ws x b' = in_ivs js x" for x
        using "2.prems"(4) [of x b'] bs above(1) [of x b'] 2 tt eq ord by auto
      then show False using rowat [of ws b' js] "2.prems"(2) bs by auto
    qed
  qed
  have rest: "in_bands as x z = in_bands ws x z" for x z
    using "2.prems"(4) [of x z] above [of x z] bs tt bb eq by (cases "z < b") auto
  have "as = ws" using "2.IH" [of vs ws] "2.prems"(1,2) bs bb eq rest by auto
  then show ?case using bs tt bb eq by simp
qed

theorem canon_unique:
  assumes "canon as" "canon bs" "\<And>x y. in_bands as x y = in_bands bs x y"
  shows "as = bs"
proof -
  obtain y y' where "canon_from y [] as" "canon_from y' [] bs"
    using assms(1,2) canon_ex_from by blast
  then have "canon_from (min y y') [] as" "canon_from (min y y') [] bs"
    by (auto intro: canon_from_mono)
  then show ?thesis using assms(3) by (blast intro: canon_from_unique)
qed

section \<open>Bands as rectangles\<close>

definition band_boxes :: "band \<Rightarrow> box list" where
  "band_boxes bd = (case bd of (t, b, vs) \<Rightarrow> map (\<lambda>(a, c). mkbox a t c b) vs)"

definition flat :: "band list \<Rightarrow> box list" where
  "flat bs = concat (map band_boxes bs)"

definition in_rects :: "box list \<Rightarrow> int \<Rightarrow> int \<Rightarrow> bool" where
  "in_rects rs x y = list_ex (\<lambda>b. INBOX b x y) rs"

lemma in_rects_simps [simp]:
  "in_rects [] x y = False"
  "in_rects (b # bs) x y = (INBOX b x y \<or> in_rects bs x y)"
  "in_rects (as @ bs) x y = (in_rects as x y \<or> in_rects bs x y)"
  by (auto simp: in_rects_def)

lemma in_rects_set: "in_rects rs x y \<longleftrightarrow> (\<exists>b\<in>set rs. INBOX b x y)"
  by (simp add: in_rects_def list_ex_iff)

lemma flat_simps [simp]:
  "flat [] = []" "flat (b # bs) = band_boxes b @ flat bs" "flat (as @ bs) = flat as @ flat bs"
  by (simp_all add: flat_def)

lemma band_boxes_length [simp]: "length (band_boxes (t, b, vs)) = length vs"
  by (simp add: band_boxes_def)

lemma band_boxes_Nil [simp]: "band_boxes (t, b, vs) = [] \<longleftrightarrow> vs = []"
  by (simp add: band_boxes_def)

lemma band_boxes_Cons [simp]: "band_boxes (t, b, (a, c) # vs) = mkbox a t c b # band_boxes (t, b, vs)"
  by (simp add: band_boxes_def)

lemma band_boxes_empty [simp]: "band_boxes (t, b, []) = []"
  by (simp add: band_boxes_def)

lemma in_rects_band [simp]: "in_rects (band_boxes (t, b, vs)) x y \<longleftrightarrow> t \<le> y \<and> y < b \<and> in_ivs vs x"
  by (induction vs x rule: in_ivs.induct) (auto simp: INBOX_def)

lemma in_rects_flat [simp]: "in_rects (flat bs) x y = in_bands bs x y"
  by (induction bs x y rule: in_bands.induct) auto

lemma band_boxes_set:
  "c \<in> set (band_boxes (t, b, vs)) \<Longrightarrow> by1 c = t \<and> by2 c = b"
  by (auto simp: band_boxes_def)

text \<open>
  \<open>FindBand\<close>: the macro's \<open>rBandEnd\<close> splits the remaining rectangles into the band that
  starts at the first rectangle and the rest.
\<close>

fun FindBand :: "box list \<Rightarrow> box list \<times> box list" where
  "FindBand [] = ([], [])"
| "FindBand (r # rs) =
     (r # takeWhile (\<lambda>b. by1 b = by1 r) rs, dropWhile (\<lambda>b. by1 b = by1 r) rs)"

lemma FindBand_append: "fst (FindBand rs) @ snd (FindBand rs) = rs"
  by (cases rs) auto

lemma FindBand_rest_less: "rs \<noteq> [] \<Longrightarrow> length (snd (FindBand rs)) < length rs"
  by (cases rs) (auto simp: length_dropWhile_le less_Suc_eq_le)

function bands_of :: "box list \<Rightarrow> band list" where
  "bands_of [] = []"
| "bands_of (r # rs) =
     (by1 r, by2 r, map (\<lambda>b. (bx1 b, bx2 b)) (fst (FindBand (r # rs)))) #
     bands_of (snd (FindBand (r # rs)))"
  by pat_completeness auto
termination
  by (relation "measure length") (auto simp: length_dropWhile_le less_Suc_eq_le)

definition wf_rects :: "box list \<Rightarrow> bool" where
  "wf_rects rs \<longleftrightarrow> canon (bands_of rs) \<and> flat (bands_of rs) = rs"

lemma band_boxes_ivs: "map (\<lambda>c. (bx1 c, bx2 c)) (band_boxes (t, b, vs)) = vs"
  by (induction vs) (auto simp: band_boxes_def)

lemma canon_from_flat_top: "canon_from y p bs \<Longrightarrow> c \<in> set (flat bs) \<Longrightarrow> y \<le> by1 c"
proof (induction y p bs rule: canon_from.induct)
  case (2 y p t b vs bs)
  then show ?case by (auto dest: band_boxes_set)
qed simp

lemma FindBand_flat:
  assumes "canon_from b vs bs" "vs \<noteq> []" "t < b"
  shows "FindBand (band_boxes (t, b, vs) @ flat bs) = (band_boxes (t, b, vs), flat bs)"
proof -
  obtain a c r where vs: "vs = (a, c) # r" using assms(2) by (cases vs) auto
  have stop: "flat bs = [] \<or> by1 (hd (flat bs)) \<noteq> t"
    using canon_from_flat_top [OF assms(1)] assms(3)
    by (metis hd_in_set not_less)
  have all: "\<And>d. d \<in> set (band_boxes (t, b, r)) \<Longrightarrow> by1 d = t"
    using band_boxes_set by blast
  show ?thesis
    using takeWhile_append_stop [OF all, where ys = "flat bs"]
      dropWhile_append_stop [OF all, where ys = "flat bs"] stop vs by simp
qed

lemma bands_of_flat_from: "canon_from y p bs \<Longrightarrow> bands_of (flat bs) = bs"
proof (induction y p bs rule: canon_from.induct)
  case (2 y p t b vs bs)
  obtain a c r where vs: "vs = (a, c) # r" using "2.prems" by (cases vs) auto
  have "FindBand (flat ((t, b, vs) # bs)) = (band_boxes (t, b, vs), flat bs)"
    using FindBand_flat "2.prems" by simp
  moreover have "flat ((t, b, vs) # bs) = mkbox a t c b # band_boxes (t, b, r) @ flat bs"
    using vs by simp
  ultimately have "bands_of (flat ((t, b, vs) # bs)) =
    (t, b, map (\<lambda>c. (bx1 c, bx2 c)) (band_boxes (t, b, vs))) # bands_of (flat bs)"
    by (metis bands_of.simps(2) fst_conv mkbox_sel(2,4) snd_conv)
  then show ?case using "2" band_boxes_ivs by simp
qed simp

lemma bands_of_flat: "canon bs \<Longrightarrow> bands_of (flat bs) = bs"
  using canon_ex_from bands_of_flat_from by blast

lemma wf_rects_flat [simp]: "canon bs \<Longrightarrow> wf_rects (flat bs)"
  by (simp add: wf_rects_def bands_of_flat)

lemma wf_rects_obtain:
  assumes "wf_rects rs"
  obtains bs where "canon bs" "rs = flat bs"
  using assms by (metis wf_rects_def)

lemma wf_rects_unique:
  assumes "wf_rects rs" "wf_rects ss" "\<And>x y. in_rects rs x y = in_rects ss x y"
  shows "rs = ss"
proof -
  obtain as bs where ab: "canon as" "rs = flat as" "canon bs" "ss = flat bs"
    using assms(1,2) wf_rects_obtain by metis
  then have "as = bs" using assms(3) by (intro canon_unique) auto
  then show ?thesis using ab by simp
qed

lemma wf_rects_Nil [simp]: "wf_rects []"
  by (simp add: wf_rects_def)

end
