(* ===== verification/RegionOp.thy ===== *)
theory RegionOp
  imports RegionBands
begin

text \<open>
  The generic region operator \<open>miRegionOp\<close> of \<open>region/x11region.c\<close> with its helpers
  (\<open>miCoalesce\<close>, \<open>miAppendNonO\<close>, the macros \<open>Coalesce\<close>, \<open>FindBand\<close> and
  \<open>AppendRegions\<close>) and \<open>miSetExtents\<close>. A pointer pair into a rectangle array
  (\<open>r1\<close>, \<open>r1End\<close>) is the list of the rectangles between the two.

  The pointers to whole regions are addresses into a store \<open>h\<close> of regions, because the
  callers pass the same region as source and destination (\<open>Region::add\<close> computes
  \<open>m_reg = m_reg + other\<close> in place). The rectangles of both sources are read at the
  start: the code keeps the old block alive until the end (\<open>oldData\<close>) or reads the
  extents box, which only the end of the function overwrites. A region with one rectangle
  is required to carry no heap block, as \<open>miValidRegion\<close> demands.
\<close>

section \<open>Merging the last two bands\<close>

definition set_rects :: "region \<Rightarrow> box list \<Rightarrow> region" where
  "set_rects r rs = r\<lparr>rgdata := RegData (data_size (rgdata r)) rs\<rparr>"

primrec same_places :: "nat \<Rightarrow> box list \<Rightarrow> nat \<Rightarrow> nat \<Rightarrow> bool" where
  "same_places 0 rs i j = True"
| "same_places (Suc n) rs i j =
     (if bx1 (rs ! i) \<noteq> bx1 (rs ! j) \<or> bx2 (rs ! i) \<noteq> bx2 (rs ! j) then False
      else same_places n rs (Suc i) (Suc j))"

primrec set_bottoms :: "nat \<Rightarrow> nat \<Rightarrow> int \<Rightarrow> box list \<Rightarrow> box list" where
  "set_bottoms 0 i y rs = rs"
| "set_bottoms (Suc n) i y rs = set_bottoms n (i - 1) y (rs[i - 1 := (rs ! (i - 1))\<lparr>by2 := y\<rparr>])"

definition miCoalesce :: "region \<Rightarrow> nat \<Rightarrow> nat \<Rightarrow> nat \<times> region" where
  "miCoalesce reg prevStart curStart =
     (let rs = data_rects (rgdata reg); n = curStart - prevStart in
      if n = 0 then (curStart, reg)
      else if by2 (rs ! prevStart) \<noteq> by1 (rs ! curStart) then (curStart, reg)
      else
        let y2 = by2 (rs ! curStart) in
        if \<not> same_places n rs prevStart curStart then (curStart, reg)
        else (prevStart, set_rects reg (set_bottoms n curStart y2 (take (length rs - n) rs))))"

definition Coalesce :: "region \<Rightarrow> nat \<Rightarrow> nat \<Rightarrow> nat \<times> region" where
  "Coalesce reg prevBand curBand =
     (if int curBand - int prevBand = int (length (data_rects (rgdata reg))) - int curBand
      then miCoalesce reg prevBand curBand else (curBand, reg))"

section \<open>Appending bands\<close>

definition miAppendNonO :: "allocator \<Rightarrow> region \<Rightarrow> box list \<Rightarrow> int \<Rightarrow> int \<Rightarrow> bool \<times> region" where
  "miAppendNonO ok reg r y1 y2 =
     (case RECTALLOC ok reg (length r) of
        (False, reg') \<Rightarrow> (False, reg')
      | (True, reg') \<Rightarrow> (True, add_boxes reg' (map (\<lambda>b. mkbox (bx1 b) y1 (bx2 b) y2) r)))"

definition AppendRegions :: "allocator \<Rightarrow> region \<Rightarrow> box list \<Rightarrow> bool \<times> region" where
  "AppendRegions ok reg r =
     (if r = [] then (True, reg)
      else case RECTALLOC ok reg (length r) of
             (False, reg') \<Rightarrow> (False, reg')
           | (True, reg') \<Rightarrow> (True, add_boxes reg' r))"

section \<open>The operator\<close>

text \<open>
  An \<open>OverlapProcPtr\<close>: the region being built, the two bands, their common top and bottom,
  and \<open>*pOverlap\<close>; it returns the return value, the region and the new \<open>*pOverlap\<close>.
\<close>

type_synonym overlap_proc =
  "allocator \<Rightarrow> region \<Rightarrow> box list \<Rightarrow> box list \<Rightarrow> int \<Rightarrow> int \<Rightarrow> bool \<Rightarrow> bool \<times> region \<times> bool"

record opstate =
  os_reg :: region
  os_overlap :: bool
  os_prev :: nat
  os_ybot :: int
  os_r1 :: "box list"
  os_r2 :: "box list"

definition append_band :: "allocator \<Rightarrow> box list \<Rightarrow> int \<Rightarrow> int \<Rightarrow> opstate \<Rightarrow> opstate" where
  "append_band ok band tp bt s =
     (let curBand = length (data_rects (rgdata (os_reg s)));
          reg = snd (miAppendNonO ok (os_reg s) band tp bt);
          (prev, reg) = Coalesce reg (os_prev s) curBand
      in s\<lparr>os_reg := reg, os_prev := prev\<rparr>)"

definition overlap_band ::
  "allocator \<Rightarrow> overlap_proc \<Rightarrow> box list \<Rightarrow> box list \<Rightarrow> int \<Rightarrow> int \<Rightarrow> opstate \<Rightarrow> opstate" where
  "overlap_band ok ovl band1 band2 tp bt s =
     (let curBand = length (data_rects (rgdata (os_reg s)));
          (_, reg, ov) = ovl ok (os_reg s) band1 band2 tp bt (os_overlap s);
          (prev, reg) = Coalesce reg (os_prev s) curBand
      in s\<lparr>os_reg := reg, os_overlap := ov, os_prev := prev\<rparr>)"

definition regop_above ::
  "allocator \<Rightarrow> bool \<Rightarrow> bool \<Rightarrow> box list \<Rightarrow> box list \<Rightarrow> opstate \<Rightarrow> opstate \<times> int" where
  "regop_above ok appendNon1 appendNon2 r1Band r2Band s =
     (let r1 = hd (os_r1 s); r2 = hd (os_r2 s); r1y1 = by1 r1; r2y1 = by1 r2 in
      if r1y1 < r2y1 then
        ((if appendNon1 then
            (let tp = max r1y1 (os_ybot s); bt = min (by2 r1) r2y1 in
             if tp \<noteq> bt then append_band ok r1Band tp bt s else s)
          else s), r2y1)
      else if r2y1 < r1y1 then
        ((if appendNon2 then
            (let tp = max r2y1 (os_ybot s); bt = min (by2 r2) r1y1 in
             if tp \<noteq> bt then append_band ok r2Band tp bt s else s)
          else s), r1y1)
      else (s, r1y1))"

definition regop_step ::
  "allocator \<Rightarrow> overlap_proc \<Rightarrow> bool \<Rightarrow> bool \<Rightarrow> opstate \<Rightarrow> opstate" where
  "regop_step ok ovl appendNon1 appendNon2 s =
     (let r1 = os_r1 s; r2 = os_r2 s;
          (r1Band, r1BandEnd) = FindBand r1;
          (r2Band, r2BandEnd) = FindBand r2;
          (s, ytop) = regop_above ok appendNon1 appendNon2 r1Band r2Band s;
          ybot = min (by2 (hd r1)) (by2 (hd r2));
          s = s\<lparr>os_ybot := ybot\<rparr>;
          s = (if ybot > ytop then overlap_band ok ovl r1Band r2Band ytop ybot s else s)
      in s\<lparr>os_r1 := (if by2 (hd r1) = ybot then r1BandEnd else r1),
           os_r2 := (if by2 (hd r2) = ybot then r2BandEnd else r2)\<rparr>)"

lemma regop_step_rests:
  "os_r1 (regop_step ok ovl a1 a2 s) =
     (if by2 (hd (os_r1 s)) \<le> by2 (hd (os_r2 s)) then snd (FindBand (os_r1 s)) else os_r1 s)"
  "os_r2 (regop_step ok ovl a1 a2 s) =
     (if by2 (hd (os_r2 s)) \<le> by2 (hd (os_r1 s)) then snd (FindBand (os_r2 s)) else os_r2 s)"
  by (auto simp: regop_step_def Let_def split: prod.split)

function regop_loop ::
  "allocator \<Rightarrow> overlap_proc \<Rightarrow> bool \<Rightarrow> bool \<Rightarrow> opstate \<Rightarrow> opstate" where
  "regop_loop ok ovl appendNon1 appendNon2 s =
     (if os_r1 s \<noteq> [] \<and> os_r2 s \<noteq> []
      then regop_loop ok ovl appendNon1 appendNon2 (regop_step ok ovl appendNon1 appendNon2 s)
      else s)"
  by pat_completeness auto
termination
proof (relation "measure (\<lambda>(ok, ovl, a1, a2, s). length (os_r1 s) + length (os_r2 s))", goal_cases)
  case (2 ok ovl a1 a2 s)
  then show ?case
    using FindBand_rest_less [of "os_r1 s"] FindBand_rest_less [of "os_r2 s"]
    by (auto simp: regop_step_rests)
qed simp

declare regop_loop.simps [simp del]

definition regop_rest :: "allocator \<Rightarrow> bool \<Rightarrow> bool \<Rightarrow> opstate \<Rightarrow> bool \<times> region" where
  "regop_rest ok appendNon1 appendNon2 s =
     (if os_r1 s \<noteq> [] \<and> appendNon1 then
        (let r1 = os_r1 s; (r1Band, r1BandEnd) = FindBand r1;
             s = append_band ok r1Band (max (by1 (hd r1)) (os_ybot s)) (by2 (hd r1)) s
         in AppendRegions ok (os_reg s) r1BandEnd)
      else if os_r2 s \<noteq> [] \<and> appendNon2 then
        (let r2 = os_r2 s; (r2Band, r2BandEnd) = FindBand r2;
             s = append_band ok r2Band (max (by1 (hd r2)) (os_ybot s)) (by2 (hd r2)) s
         in AppendRegions ok (os_reg s) r2BandEnd)
      else (True, os_reg s))"

definition regop_start :: "allocator \<Rightarrow> region \<Rightarrow> bool \<Rightarrow> nat \<Rightarrow> bool \<times> region" where
  "regop_start ok nr takesOldData newSize =
     (let nr = (if takesOldData then nr\<lparr>rgdata := EmptyData\<rparr> else nr);
          nr = (case rgdata nr of
                  NoData \<Rightarrow> nr\<lparr>rgdata := EmptyData\<rparr>
                | RegData s rs \<Rightarrow> (if s \<noteq> 0 then nr\<lparr>rgdata := RegData s []\<rparr> else nr)
                | _ \<Rightarrow> nr)
      in if newSize > data_size (rgdata nr) then miRectAlloc ok nr newSize else (True, nr))"

definition regop_finish :: "allocator \<Rightarrow> region \<Rightarrow> region" where
  "regop_finish ok nr =
     (let rs = data_rects (rgdata nr) in
      if rs = [] then nr\<lparr>rgdata := EmptyData\<rparr>
      else if length rs = 1 then nr\<lparr>extents := hd rs, rgdata := NoData\<rparr>
      else DOWNSIZE ok nr)"

definition miRegionOp ::
  "allocator \<Rightarrow> overlap_proc \<Rightarrow> bool \<Rightarrow> bool \<Rightarrow> 'a \<Rightarrow> 'a \<Rightarrow> 'a \<Rightarrow> ('a \<Rightarrow> region) \<Rightarrow> bool \<Rightarrow>
     bool \<times> ('a \<Rightarrow> region) \<times> bool" where
  "miRegionOp ok ovl appendNon1 appendNon2 newReg reg1 reg2 h ov =
     (if REGION_NAR (h reg1) \<or> REGION_NAR (h reg2)
      then (let (ret, nr) = miRegionBreak (h newReg) in (ret, h(newReg := nr), ov))
      else
        let r1 = REGION_RECTS (h reg1); r2 = REGION_RECTS (h reg2);
            newSize = length r1; numRects = length r2;
            takesOldData = (newReg = reg1 \<and> newSize > 1 \<or> newReg = reg2 \<and> numRects > 1);
            (ret, nr) = regop_start ok (h newReg) takesOldData (2 * max numRects newSize)
        in if \<not> ret then (False, h(newReg := nr), ov)
           else
             let s = regop_loop ok ovl appendNon1 appendNon2
                       \<lparr>os_reg = nr, os_overlap = ov, os_prev = 0,
                        os_ybot = min (by1 (hd r1)) (by1 (hd r2)), os_r1 = r1, os_r2 = r2\<rparr>;
                 (ret, nr) = regop_rest ok appendNon1 appendNon2 s
             in if \<not> ret then (False, h(newReg := nr), os_overlap s)
                else (True, h(newReg := regop_finish ok nr), os_overlap s))"

section \<open>Extents\<close>

fun setExtents_loop :: "box \<Rightarrow> box list \<Rightarrow> box" where
  "setExtents_loop e [] = e"
| "setExtents_loop e (pBox # rest) =
     (let e = (if bx1 pBox < bx1 e then e\<lparr>bx1 := bx1 pBox\<rparr> else e);
          e = (if bx2 pBox > bx2 e then e\<lparr>bx2 := bx2 pBox\<rparr> else e)
      in setExtents_loop e rest)"

text \<open>
  With an allocated but empty block the code reads a rectangle that is not there; \<open>hd []\<close>
  and \<open>last []\<close> are unspecified, so nothing can be proved of that case.
\<close>

definition miSetExtents :: "region \<Rightarrow> region" where
  "miSetExtents reg =
     (if rgdata reg = NoData then reg
      else if data_size (rgdata reg) = 0
      then reg\<lparr>extents := (extents reg)\<lparr>bx2 := bx1 (extents reg), by2 := by1 (extents reg)\<rparr>\<rparr>
      else
        let rs = data_rects (rgdata reg) in
        reg\<lparr>extents := setExtents_loop (mkbox (bx1 (hd rs)) (by1 (hd rs)) (bx2 (last rs)) (by2 (last rs))) rs\<rparr>)"

end
