(* ===== verification/RegionInv.thy ===== *)
theory RegionInv
  imports RegionOp
begin

text \<open>
  The invariant of a region between two operations: the shape of its data pointer, the
  canonical banding of its rectangles, and extents that are the tight bounding box. The
  second half proves that \<open>miSetExtents\<close> restores the extents of a banded region.
\<close>

section \<open>Tight bounding boxes\<close>

definition tight :: "box \<Rightarrow> (int \<Rightarrow> int \<Rightarrow> bool) \<Rightarrow> bool" where
  "tight e S \<longleftrightarrow>
     (\<forall>x y. S x y \<longrightarrow> INBOX e x y) \<and>
     (\<exists>y. S (bx1 e) y) \<and> (\<exists>y. S (bx2 e - 1) y) \<and> (\<exists>x. S x (by1 e)) \<and> (\<exists>x. S x (by2 e - 1))"

lemma tight_unique:
  assumes "tight e S" "tight e' S"
  shows "e = e'"
proof -
  note d = assms [unfolded tight_def INBOX_def]
  have "bx1 e = bx1 e'" "bx2 e = bx2 e'" "by1 e = by1 e'" "by2 e = by2 e'"
    using d by (force intro: antisym)+
  then show ?thesis by (intro box_eqI)
qed

lemma tight_cong: "tight e S \<Longrightarrow> (\<And>x y. S x y = T x y) \<Longrightarrow> tight e T"
  by (simp add: tight_def)

lemma tight_nonempty: "tight e S \<Longrightarrow> bx1 e < bx2 e \<and> by1 e < by2 e"
  unfolding tight_def INBOX_def by fastforce

lemma tight_box:
  assumes "bx1 b < bx2 b" "by1 b < by2 b"
  shows "tight b (INBOX b)"
  using assms by (auto simp: tight_def INBOX_def intro: exI [of _ "by1 b"] exI [of _ "bx1 b"])

lemma tight_union:
  assumes "tight e S" "tight e' T"
  shows "tight (mkbox (min (bx1 e) (bx1 e')) (min (by1 e) (by1 e'))
                      (max (bx2 e) (bx2 e')) (max (by2 e) (by2 e'))) (\<lambda>x y. S x y \<or> T x y)"
proof -
  have "S x y \<or> T x y \<Longrightarrow> INBOX (mkbox (min (bx1 e) (bx1 e')) (min (by1 e) (by1 e'))
                      (max (bx2 e) (bx2 e')) (max (by2 e) (by2 e'))) x y" for x y
    using assms unfolding tight_def INBOX_def by fastforce
  then show ?thesis
    using assms by (auto simp: tight_def min_def max_def)
qed

lemma tight_subsumes:
  assumes "tight e S" "tight e' T" "\<And>x y. T x y \<Longrightarrow> S x y"
  shows "SUBSUMES e e'"
  using assms unfolding tight_def INBOX_def SUBSUMES_def by fastforce

section \<open>The region invariant\<close>

definition degenerate :: "box \<Rightarrow> bool" where
  "degenerate b \<longleftrightarrow> bx1 b = bx2 b \<and> by1 b = by2 b"

definition region_shape :: "region \<Rightarrow> bool" where
  "region_shape r \<longleftrightarrow>
     (case rgdata r of
        NoData \<Rightarrow> True
      | EmptyData \<Rightarrow> True
      | BrokenData \<Rightarrow> False
      | RegData s rs \<Rightarrow> 2 \<le> length rs \<and> length rs \<le> s)"

definition pixels :: "region \<Rightarrow> int \<Rightarrow> int \<Rightarrow> bool" where
  "pixels r x y = in_rects (REGION_RECTS r) x y"

definition region_ok :: "region \<Rightarrow> bool" where
  "region_ok r \<longleftrightarrow>
     region_shape r \<and> wf_rects (REGION_RECTS r) \<and>
     (if REGION_RECTS r = [] then degenerate (extents r) else tight (extents r) (pixels r))"

lemma wf_rects_single [simp]: "wf_rects [b] \<longleftrightarrow> bx1 b < bx2 b \<and> by1 b < by2 b"
  by (auto simp: wf_rects_def)

lemma wf_rects_nonempty: "wf_rects rs \<Longrightarrow> rs \<noteq> [] \<Longrightarrow> \<exists>x y. in_rects rs x y"
proof -
  assume "wf_rects rs" "rs \<noteq> []"
  then obtain t b vs bs where "canon ((t, b, vs) # bs)" "rs = flat ((t, b, vs) # bs)"
    by (metis flat_simps(1) list.exhaust prod_cases3 wf_rects_obtain)
  then show ?thesis using iv_ok_nonempty [of vs] by auto
qed

lemma region_ok_NAR [simp]: "region_ok r \<Longrightarrow> \<not> REGION_NAR r"
  by (auto simp: region_ok_def region_shape_def REGION_NAR_def split: rdata.splits)

lemma REGION_NIL_iff: "REGION_NIL r \<longleftrightarrow> REGION_RECTS r = []"
  by (auto simp: REGION_NIL_def REGION_RECTS_def)

lemma region_ok_wf: "region_ok r \<Longrightarrow> wf_rects (REGION_RECTS r)"
  by (simp add: region_ok_def)

lemma region_ok_tight: "region_ok r \<Longrightarrow> REGION_RECTS r \<noteq> [] \<Longrightarrow> tight (extents r) (pixels r)"
  by (simp add: region_ok_def)

lemma region_ok_cases [consumes 1, case_names empty single many]:
  assumes "region_ok r"
  obtains (empty) "rgdata r = EmptyData" "REGION_RECTS r = []" "degenerate (extents r)"
    | (single) "rgdata r = NoData" "REGION_RECTS r = [extents r]"
    | (many) s rs where "rgdata r = RegData s rs" "REGION_RECTS r = rs" "2 \<le> length rs" "length rs \<le> s"
  using assms by (cases "rgdata r") (auto simp: region_ok_def region_shape_def REGION_RECTS_def)

lemma region_ok_extents:
  assumes "region_ok r"
  shows "bx1 (extents r) \<le> bx2 (extents r)" "by1 (extents r) \<le> by2 (extents r)"
proof (atomize (full), cases "REGION_RECTS r = []")
  case True
  then show "bx1 (extents r) \<le> bx2 (extents r) \<and> by1 (extents r) \<le> by2 (extents r)"
    using assms by (simp add: region_ok_def degenerate_def)
next
  case False
  then show "bx1 (extents r) \<le> bx2 (extents r) \<and> by1 (extents r) \<le> by2 (extents r)"
    using tight_nonempty [OF region_ok_tight [OF assms False]] by simp
qed

lemma pixels_empty: "REGION_RECTS r = [] \<Longrightarrow> \<not> pixels r x y"
  by (simp add: pixels_def)

lemma region_ok_empty_iff: "region_ok r \<Longrightarrow> REGION_RECTS r = [] \<longleftrightarrow> (\<forall>x y. \<not> pixels r x y)"
  using wf_rects_nonempty [OF region_ok_wf] by (auto simp: pixels_def)

lemma pixels_NoData: "rgdata r = NoData \<Longrightarrow> pixels r x y = INBOX (extents r) x y"
  by (simp add: pixels_def REGION_RECTS_def)

lemma pixels_extents: "region_ok r \<Longrightarrow> pixels r x y \<Longrightarrow> INBOX (extents r) x y"
  using region_ok_tight [of r] pixels_empty [of r] unfolding tight_def by blast

lemma region_ok_NoData: "rgdata r = NoData \<Longrightarrow>
    region_ok r \<longleftrightarrow> bx1 (extents r) < bx2 (extents r) \<and> by1 (extents r) < by2 (extents r)"
  using tight_cong [OF tight_box [of "extents r"], of "pixels r"] tight_nonempty [of "extents r" "pixels r"]
  by (auto simp: region_ok_def region_shape_def REGION_RECTS_def pixels_NoData)

lemma region_ok_EmptyData: "rgdata r = EmptyData \<Longrightarrow> region_ok r \<longleftrightarrow> degenerate (extents r)"
  by (auto simp: region_ok_def region_shape_def REGION_RECTS_def)

lemma EXTENTCHECK_pixels:
  "region_ok r1 \<Longrightarrow> region_ok r2 \<Longrightarrow> \<not> EXTENTCHECK (extents r1) (extents r2) \<Longrightarrow> \<not> (pixels r1 x y \<and> pixels r2 x y)"
  using pixels_extents [of r1 x y] pixels_extents [of r2 x y] by (auto simp: EXTENTCHECK_def INBOX_def)

lemma SUBSUMES_pixels:
  "region_ok r \<Longrightarrow> rgdata s = NoData \<Longrightarrow> SUBSUMES (extents s) (extents r) \<Longrightarrow> pixels r x y \<Longrightarrow> pixels s x y"
  using pixels_extents [of r x y] by (auto simp: pixels_NoData SUBSUMES_def INBOX_def)

section \<open>Recomputing the extents\<close>

lemma setExtents_loop_y: "by1 (setExtents_loop e rs) = by1 e" "by2 (setExtents_loop e rs) = by2 e"
  by (induction e rs rule: setExtents_loop.induct) (auto simp: Let_def)

lemma setExtents_loop_bounds:
  "bx1 (setExtents_loop e rs) \<le> bx1 e \<and> bx2 e \<le> bx2 (setExtents_loop e rs) \<and>
     (\<forall>b\<in>set rs. bx1 (setExtents_loop e rs) \<le> bx1 b \<and> bx2 b \<le> bx2 (setExtents_loop e rs))"
proof (induction e rs rule: setExtents_loop.induct)
  case (2 e b rs)
  show ?case using "2.IH" [OF refl refl] by (auto simp: Let_def split: if_splits)
qed simp

lemma setExtents_loop_attained:
  "bx1 (setExtents_loop e rs) \<in> insert (bx1 e) (bx1 ` set rs) \<and>
   bx2 (setExtents_loop e rs) \<in> insert (bx2 e) (bx2 ` set rs)"
proof (induction e rs rule: setExtents_loop.induct)
  case (2 e b rs)
  show ?case using "2.IH" [OF refl refl] by (auto simp: Let_def split: if_splits)
qed simp

lemma band_boxes_valid:
  "iv_from l vs \<Longrightarrow> c \<in> set (band_boxes (t, b, vs)) \<Longrightarrow> bx1 c < bx2 c"
  by (induction l vs rule: iv_from.induct) auto

lemma band_boxes_ok: "iv_ok vs \<Longrightarrow> c \<in> set (band_boxes (t, b, vs)) \<Longrightarrow> bx1 c < bx2 c"
  using band_boxes_valid iv_ok_from by blast

lemma canon_from_box:
  "canon_from y p bs \<Longrightarrow> c \<in> set (flat bs) \<Longrightarrow>
     y \<le> by1 c \<and> bx1 c < bx2 c \<and> by1 c < by2 c \<and> by2 c \<le> by2 (last (flat bs))"
proof (induction y p bs arbitrary: c rule: canon_from.induct)
  case (2 y p t b vs bs)
  have vs: "vs \<noteq> []" "iv_ok vs" "t < b" "canon_from b vs bs" "y \<le> t" using "2.prems"(1) by auto
  show ?case
  proof (cases "flat bs = []")
    case True
    then show ?thesis using "2.prems"(2) vs band_boxes_set [of _ t b vs] band_boxes_ok [OF vs(2)]
      by (auto simp: last_in_set)
  next
    case False
    have "by1 (last (flat bs)) < by2 (last (flat bs)) \<and> b \<le> by1 (last (flat bs))"
      using "2.IH" [OF vs(4), of "last (flat bs)"] False by simp
    then show ?thesis
      using "2.prems"(2) "2.IH" [OF vs(4), of c] vs False band_boxes_set [of c t b vs] band_boxes_ok [OF vs(2)]
      by auto
  qed
qed simp

lemma wf_rects_box:
  assumes "wf_rects rs" "c \<in> set rs"
  shows "bx1 c < bx2 c \<and> by1 c < by2 c \<and> by1 (hd rs) \<le> by1 c \<and> by2 c \<le> by2 (last rs)"
proof -
  obtain bs where bs: "canon bs" "rs = flat bs" using wf_rects_obtain assms(1) by metis
  then obtain t b vs ds where ds: "bs = (t, b, vs) # ds" using assms(2) by (cases bs) auto
  have c: "canon_from t [] bs" using bs(1) ds by simp
  have "by1 (hd rs) = t" using bs ds by (cases vs) auto
  then show ?thesis using canon_from_box [OF c] assms(2) bs(2) by auto
qed

lemma in_rects_corners:
  assumes "c \<in> set rs" "bx1 c < bx2 c" "by1 c < by2 c"
  shows "in_rects rs (bx1 c) (by1 c)" "in_rects rs (bx2 c - 1) (by2 c - 1)"
  using assms by (auto simp: in_rects_set INBOX_def intro!: bexI [of _ c])

theorem miSetExtents_tight:
  assumes "wf_rects rs" "rs \<noteq> []"
  shows "tight (setExtents_loop (mkbox (bx1 (hd rs)) (by1 (hd rs)) (bx2 (last rs)) (by2 (last rs))) rs) (in_rects rs)"
proof -
  let ?e = "setExtents_loop (mkbox (bx1 (hd rs)) (by1 (hd rs)) (bx2 (last rs)) (by2 (last rs))) rs"
  note box = wf_rects_box [OF assms(1)]
  have ends: "hd rs \<in> set rs" "last rs \<in> set rs" using assms(2) by auto
  have y: "by1 ?e = by1 (hd rs)" "by2 ?e = by2 (last rs)" by (simp_all add: setExtents_loop_y)
  have x: "b \<in> set rs \<Longrightarrow> bx1 ?e \<le> bx1 b \<and> bx2 b \<le> bx2 ?e" for b
    using setExtents_loop_bounds [of "mkbox (bx1 (hd rs)) (by1 (hd rs)) (bx2 (last rs)) (by2 (last rs))" rs] by blast
  have "in_rects rs c z \<Longrightarrow> INBOX ?e c z" for c z
    using x box y unfolding in_rects_set INBOX_def by fastforce
  moreover obtain l r where lr: "l \<in> set rs" "bx1 ?e = bx1 l" "r \<in> set rs" "bx2 ?e = bx2 r"
    using setExtents_loop_attained [of "mkbox (bx1 (hd rs)) (by1 (hd rs)) (bx2 (last rs)) (by2 (last rs))" rs] ends
    by auto
  ultimately show ?thesis
    unfolding tight_def using in_rects_corners box lr ends y by metis
qed

text \<open>
  \<open>miSetExtents\<close> turns the result of the operator, whose rectangles are canonical but whose
  extents are still those of the old destination, into a region that satisfies the invariant.
\<close>

lemma miSetExtents_ok:
  assumes shape: "region_shape r" and wf: "wf_rects (REGION_RECTS r)"
  shows "region_ok (miSetExtents r)" "REGION_RECTS (miSetExtents r) = REGION_RECTS r"
proof -
  have d: "rgdata (miSetExtents r) = rgdata r"
    by (simp add: miSetExtents_def Let_def)
  show r: "REGION_RECTS (miSetExtents r) = REGION_RECTS r"
    by (auto simp: miSetExtents_def REGION_RECTS_def Let_def)
  show "region_ok (miSetExtents r)"
  proof (cases "rgdata r")
    case NoData
    then show ?thesis using wf by (simp add: miSetExtents_def region_ok_NoData REGION_RECTS_def)
  next
    case EmptyData
    then show ?thesis by (simp add: miSetExtents_def region_ok_EmptyData degenerate_def)
  next
    case BrokenData
    then show ?thesis using shape by (simp add: region_shape_def)
  next
    case (RegData s rs)
    then have rs: "REGION_RECTS r = rs" "s \<noteq> 0" "wf_rects rs" "rs \<noteq> []"
      using shape wf by (auto simp: REGION_RECTS_def region_shape_def)
    have "tight (extents (miSetExtents r)) (in_rects rs)"
      using miSetExtents_tight [OF rs(3,4)] RegData rs(2) by (simp add: miSetExtents_def Let_def)
    moreover have "pixels (miSetExtents r) = in_rects rs"
      by (intro ext) (simp add: pixels_def r rs)
    ultimately show ?thesis
      using rs r shape d by (simp add: region_ok_def region_shape_def)
  qed
qed

end
