(* ===== verification/BandAlgebra.thy ===== *)
theory BandAlgebra
  imports RegionBands
begin

text \<open>
  The abstract specification of the region operator: the sweep over two canonical band
  lists, with bands emitted and merged on a list. Its locale \<open>band_op\<close> states what a
  per-band operation on interval lists must promise; inside it the sweep is proved to
  return the canonical bands of the pointwise combination of both regions.
\<close>

section \<open>Emitting a band\<close>

definition emit :: "band list \<Rightarrow> band \<Rightarrow> band list" where
  "emit out bd =
     (case bd of (t, b, vs) \<Rightarrow>
        if vs = [] then out
        else if out \<noteq> [] \<and> fst (snd (last out)) = t \<and> snd (snd (last out)) = vs
        then butlast out @ [(fst (last out), b, vs)]
        else out @ [(t, b, vs)])"

definition ends_by :: "band list \<Rightarrow> int \<Rightarrow> bool" where
  "ends_by out y \<longleftrightarrow> out = [] \<or> fst (snd (last out)) \<le> y"

lemma ends_by_mono: "ends_by out y \<Longrightarrow> y \<le> y' \<Longrightarrow> ends_by out y'"
  by (auto simp: ends_by_def)

lemma canon_from_append:
  "canon_from y p (as @ bs) \<longleftrightarrow>
     canon_from y p as \<and>
     (if as = [] then canon_from y p bs
      else canon_from (fst (snd (last as))) (snd (snd (last as))) bs)"
  by (induction y p as rule: canon_from.induct) auto

lemma canon_append:
  "canon (as @ bs) \<longleftrightarrow>
     canon as \<and>
     (if as = [] then canon bs
      else canon_from (fst (snd (last as))) (snd (snd (last as))) bs)"
  by (cases as rule: canon.cases) (auto simp: canon_from_append)

lemma canon_last:
  "canon out \<Longrightarrow> out \<noteq> [] \<Longrightarrow>
     fst (last out) < fst (snd (last out)) \<and> snd (snd (last out)) \<noteq> [] \<and> iv_ok (snd (snd (last out)))"
  by (induction out rule: rev_induct) (auto simp: canon_append split: if_splits)

lemma canon_in_bands_ends:
  "canon out \<Longrightarrow> ends_by out y \<Longrightarrow> in_bands out x z \<Longrightarrow> z < y"
proof (induction out arbitrary: y rule: rev_induct)
  case (snoc bd out)
  obtain t b vs where bd: "bd = (t, b, vs)" by (cases bd)
  have c: "canon out" "ends_by out t" "t < b" "b \<le> y"
    using snoc.prems bd by (auto simp: canon_append ends_by_def split: if_splits)
  show ?case using snoc.IH [OF c(1,2)] snoc.prems(3) bd c(3,4) by auto
qed simp

lemma emit_canon:
  assumes "canon out" "ends_by out t" "t < b" "iv_ok vs"
  shows "canon (emit out (t, b, vs))" "ends_by (emit out (t, b, vs)) b"
proof -
  show "canon (emit out (t, b, vs))"
  proof (cases "out = []")
    case False
    then obtain os t0 b0 is0 where out: "out = os @ [(t0, b0, is0)]"
      by (metis append_butlast_last_id prod_cases3)
    show ?thesis
      using assms out by (auto simp: emit_def canon_append ends_by_def)
  qed (use assms in \<open>auto simp: emit_def\<close>)
  show "ends_by (emit out (t, b, vs)) b"
    using assms by (auto simp: emit_def ends_by_def)
qed

lemma emit_in_bands:
  assumes "canon out" "ends_by out t" "t < b"
  shows "in_bands (emit out (t, b, vs)) x y \<longleftrightarrow> in_bands out x y \<or> t \<le> y \<and> y < b \<and> in_ivs vs x"
proof (cases "out = []")
  case False
  then obtain os t0 b0 is0 where out: "out = os @ [(t0, b0, is0)]"
    by (metis append_butlast_last_id prod_cases3)
  show ?thesis
    using assms canon_last [OF assms(1)] out by (auto simp: emit_def ends_by_def)
qed (auto simp: emit_def)

section \<open>The sweep\<close>

text \<open>The part of a band above the other region's band: emitted when the operation keeps it.\<close>

definition emit_above :: "bool \<Rightarrow> band list \<Rightarrow> int \<Rightarrow> band \<Rightarrow> int \<Rightarrow> band list" where
  "emit_above ap out yb bd t' =
     (case bd of (t, b, vs) \<Rightarrow>
        if ap \<and> max t yb \<noteq> min b t' then emit out (max t yb, min b t', vs) else out)"

record bstate =
  bs_out :: "band list"
  bs_ybot :: int
  bs_B1 :: "band list"
  bs_B2 :: "band list"

type_synonym ivop = "iv list \<Rightarrow> iv list \<Rightarrow> iv list"

definition band_step :: "ivop \<Rightarrow> bool \<Rightarrow> bool \<Rightarrow> bstate \<Rightarrow> bstate" where
  "band_step F ap1 ap2 s =
     (let (t1, b1, i1) = hd (bs_B1 s); (t2, b2, i2) = hd (bs_B2 s); yb = bs_ybot s;
          out = (if t1 < t2 then emit_above ap1 (bs_out s) yb (t1, b1, i1) t2
                 else if t2 < t1 then emit_above ap2 (bs_out s) yb (t2, b2, i2) t1
                 else bs_out s);
          tp = max t1 t2; yb' = min b1 b2
      in \<lparr>bs_out = (if tp < yb' then emit out (tp, yb', F i1 i2) else out), bs_ybot = yb',
          bs_B1 = (if b1 = yb' then tl (bs_B1 s) else bs_B1 s),
          bs_B2 = (if b2 = yb' then tl (bs_B2 s) else bs_B2 s)\<rparr>)"

definition band_rest :: "bool \<Rightarrow> bool \<Rightarrow> bstate \<Rightarrow> band list" where
  "band_rest ap1 ap2 s =
     (if bs_B1 s \<noteq> [] \<and> ap1 then
        (case hd (bs_B1 s) of (t, b, vs) \<Rightarrow> emit (bs_out s) (max t (bs_ybot s), b, vs) @ tl (bs_B1 s))
      else if bs_B2 s \<noteq> [] \<and> ap2 then
        (case hd (bs_B2 s) of (t, b, vs) \<Rightarrow> emit (bs_out s) (max t (bs_ybot s), b, vs) @ tl (bs_B2 s))
      else bs_out s)"

text \<open>
  The invariant of the sweep: what is emitted ends at \<open>ybot\<close>, no remaining band ends
  there, and at most one of the two current bands has been entered already.
\<close>

definition ends_after :: "band list \<Rightarrow> int \<Rightarrow> bool" where
  "ends_after B y \<longleftrightarrow> B = [] \<or> y < fst (snd (hd B))"

definition band_inv :: "bstate \<Rightarrow> bool" where
  "band_inv s \<longleftrightarrow>
     canon (bs_out s) \<and> ends_by (bs_out s) (bs_ybot s) \<and> canon (bs_B1 s) \<and> canon (bs_B2 s) \<and>
     ends_after (bs_B1 s) (bs_ybot s) \<and> ends_after (bs_B2 s) (bs_ybot s) \<and>
     (bs_B1 s = [] \<or> bs_B2 s = [] \<or> bs_ybot s \<le> fst (hd (bs_B1 s)) \<or> bs_ybot s \<le> fst (hd (bs_B2 s)))"

lemma canon_tl:
  assumes "canon ((t, b, vs) # B)"
  shows "canon B" "ends_after B b" "in_bands B x y \<Longrightarrow> b \<le> y" "B \<noteq> [] \<Longrightarrow> b \<le> fst (hd B)"
proof -
  have c: "canon_from b vs B" using assms by simp
  show "canon B" using c by (rule canon_from_canon)
  show "ends_after B b" using c by (cases B) (auto simp: ends_after_def)
  show "in_bands B x y \<Longrightarrow> b \<le> y" using canon_from_above [OF c] .
  show "B \<noteq> [] \<Longrightarrow> b \<le> fst (hd B)" using c by (cases B) auto
qed

text \<open>
  What the sweep combines at a point: the emitted bands, and below \<open>ybot\<close> the
  combination of the two remaining regions.
\<close>

definition band_sem :: "(bool \<Rightarrow> bool \<Rightarrow> bool) \<Rightarrow> bstate \<Rightarrow> int \<Rightarrow> int \<Rightarrow> bool" where
  "band_sem P s x y \<longleftrightarrow>
     in_bands (bs_out s) x y \<or> bs_ybot s \<le> y \<and> P (in_bands (bs_B1 s) x y) (in_bands (bs_B2 s) x y)"

lemma emit_above:
  assumes "canon out" "ends_by out yb" "t < b" "yb < b" "t < t'" "yb \<le> t'" "iv_ok vs"
  shows "canon (emit_above ap out yb (t, b, vs) t')"
    and "ends_by (emit_above ap out yb (t, b, vs) t') (max yb (min b t'))"
    and "in_bands (emit_above ap out yb (t, b, vs) t') x y \<longleftrightarrow>
           in_bands out x y \<or> ap \<and> yb \<le> y \<and> t \<le> y \<and> y < min b t' \<and> in_ivs vs x"
proof -
  define tp bt where "tp = max t yb" and "bt = min b t'"
  have le: "yb \<le> tp" "tp \<le> bt" using assms(3-6) by (auto simp: tp_def bt_def)
  have e: "ends_by out tp" "ends_by out (max yb bt)" using assms(2) le by (auto intro: ends_by_mono)
  have eq: "emit_above ap out yb (t, b, vs) t' = (if ap \<and> tp < bt then emit out (tp, bt, vs) else out)"
    using le by (auto simp: emit_above_def tp_def bt_def)
  have m: "tp < bt \<Longrightarrow> ends_by (emit out (tp, bt, vs)) (max yb bt)"
    using emit_canon(2) [OF assms(1) e(1) _ assms(7), of bt] by (auto intro: ends_by_mono)
  show "canon (emit_above ap out yb (t, b, vs) t')"
    using emit_canon(1) [OF assms(1) e(1) _ assms(7), of bt] assms(1) by (simp add: eq)
  show "ends_by (emit_above ap out yb (t, b, vs) t') (max yb (min b t'))"
    using m e by (simp add: eq flip: bt_def)
  show "in_bands (emit_above ap out yb (t, b, vs) t') x y \<longleftrightarrow>
           in_bands out x y \<or> ap \<and> yb \<le> y \<and> t \<le> y \<and> y < min b t' \<and> in_ivs vs x"
    using emit_in_bands [OF assms(1) e(1), of bt vs x y] by (auto simp: eq tp_def simp flip: bt_def)
qed

lemma band_step_eq:
  assumes "bs_B1 s = (t1, b1, i1) # R1" "bs_B2 s = (t2, b2, i2) # R2"
  shows "band_step F ap1 ap2 s =
    (let out = (if t1 < t2 then emit_above ap1 (bs_out s) (bs_ybot s) (t1, b1, i1) t2
                else if t2 < t1 then emit_above ap2 (bs_out s) (bs_ybot s) (t2, b2, i2) t1
                else bs_out s)
     in \<lparr>bs_out = (if max t1 t2 < min b1 b2 then emit out (max t1 t2, min b1 b2, F i1 i2) else out),
         bs_ybot = min b1 b2,
         bs_B1 = (if b1 = min b1 b2 then R1 else bs_B1 s),
         bs_B2 = (if b2 = min b1 b2 then R2 else bs_B2 s)\<rparr>)"
  by (simp only: band_step_def assms list.sel prod.case Let_def)

locale band_op =
  fixes F :: ivop and P :: "bool \<Rightarrow> bool \<Rightarrow> bool"
  assumes F_ok: "iv_ok vs \<Longrightarrow> iv_ok js \<Longrightarrow> vs \<noteq> [] \<Longrightarrow> js \<noteq> [] \<Longrightarrow> iv_ok (F vs js)"
    and F_in: "iv_ok vs \<Longrightarrow> iv_ok js \<Longrightarrow> vs \<noteq> [] \<Longrightarrow> js \<noteq> [] \<Longrightarrow>
                 in_ivs (F vs js) x = P (in_ivs vs x) (in_ivs js x)"
    and P_none: "\<not> P False False"
begin

lemma above_correct:
  assumes "canon out" "ends_by out yb" "t1 < b1" "t2 < b2" "yb < b1" "yb < b2" "yb \<le> t1 \<or> yb \<le> t2"
    "iv_ok i1" "iv_ok i2"
  defines "out' \<equiv> (if t1 < t2 then emit_above (P True False) out yb (t1, b1, i1) t2
                else if t2 < t1 then emit_above (P False True) out yb (t2, b2, i2) t1 else out)"
  shows "canon out'" "ends_by out' (max yb (min (max t1 t2) (min b1 b2)))"
    and "in_bands out' x y \<longleftrightarrow> in_bands out x y \<or>
      yb \<le> y \<and> y < max t1 t2 \<and> y < min b1 b2 \<and> P (t1 \<le> y \<and> in_ivs i1 x) (t2 \<le> y \<and> in_ivs i2 x)"
proof -
  note 1 = emit_above [where t = t1 and b = b1 and t' = t2 and vs = i1, OF assms(1,2,3,5) _ _ assms(8)]
  note 2 = emit_above [where t = t2 and b = b2 and t' = t1 and vs = i2, OF assms(1,2,4,6) _ _ assms(9)]
  consider (lt) "t1 < t2" "yb \<le> t2" | (gt) "t2 < t1" "yb \<le> t1" | (eq) "t1 = t2" "yb \<le> t1"
    using assms(7) by linarith
  note cases = this
  show "canon out'"
    by (rule cases) (use 1(1) 2(1) assms(1) in \<open>auto simp: out'_def\<close>)
  show "ends_by out' (max yb (min (max t1 t2) (min b1 b2)))"
  proof (rule cases)
    assume a: "t1 < t2" "yb \<le> t2"
    then have "min (max t1 t2) (min b1 b2) = min b1 t2" using assms(4) by (auto simp: min_def)
    then show ?thesis using 1(2) [OF a] a by (simp add: out'_def)
  next
    assume a: "t2 < t1" "yb \<le> t1"
    then have "min (max t1 t2) (min b1 b2) = min b2 t1" using assms(3) by (auto simp: min_def)
    then show ?thesis using 2(2) [OF a] a by (simp add: out'_def)
  qed (use assms(2) in \<open>auto simp: out'_def intro: ends_by_mono\<close>)
  show "in_bands out' x y \<longleftrightarrow> in_bands out x y \<or>
      yb \<le> y \<and> y < max t1 t2 \<and> y < min b1 b2 \<and> P (t1 \<le> y \<and> in_ivs i1 x) (t2 \<le> y \<and> in_ivs i2 x)"
    by (rule cases; cases "in_ivs i1 x"; cases "in_ivs i2 x"; cases "t1 \<le> y"; cases "t2 \<le> y")
      (use 1(3) 2(3) assms P_none in \<open>auto simp: out'_def\<close>)
qed

lemma step_correct:
  assumes inv: "band_inv s" and ne: "bs_B1 s \<noteq> []" "bs_B2 s \<noteq> []"
  defines "s' \<equiv> band_step F (P True False) (P False True) s"
  shows "band_inv s'" "band_sem P s' x y = band_sem P s x y"
proof -
  obtain t1 b1 i1 R1 where B1: "bs_B1 s = (t1, b1, i1) # R1" using ne(1) by (metis list.exhaust prod_cases3)
  obtain t2 b2 i2 R2 where B2: "bs_B2 s = (t2, b2, i2) # R2" using ne(2) by (metis list.exhaust prod_cases3)
  define yb out where "yb = bs_ybot s" and "out = bs_out s"
  have i: "canon out" "ends_by out yb" "canon ((t1, b1, i1) # R1)" "canon ((t2, b2, i2) # R2)"
     "yb < b1" "yb < b2" "yb \<le> t1 \<or> yb \<le> t2"
    using inv B1 B2 by (auto simp: band_inv_def ends_after_def yb_def out_def)
  have band: "t1 < b1" "i1 \<noteq> []" "iv_ok i1" "t2 < b2" "i2 \<noteq> []" "iv_ok i2" using i(3,4) by auto
  define tp yb' where "tp = max t1 t2" and "yb' = min b1 b2"
  define out1 where "out1 = (if t1 < t2 then emit_above (P True False) out yb (t1, b1, i1) t2
                else if t2 < t1 then emit_above (P False True) out yb (t2, b2, i2) t1 else out)"
  note above = above_correct [OF i(1,2) band(1,4) i(5-7) band(3,6), folded out1_def tp_def yb'_def]
  define out2 where "out2 = (if tp < yb' then emit out1 (tp, yb', F i1 i2) else out1)"
  have s': "s' = \<lparr>bs_out = out2, bs_ybot = yb', bs_B1 = (if b1 = yb' then R1 else bs_B1 s),
                 bs_B2 = (if b2 = yb' then R2 else bs_B2 s)\<rparr>"
    unfolding s'_def band_step_eq [OF B1 B2] out2_def out1_def tp_def yb'_def out_def yb_def Let_def
    by (rule refl)
  have yb: "yb < yb'" "yb \<le> tp" using i(5-7) by (auto simp: yb'_def tp_def)
  then have e1: "ends_by out1 yb'" "tp < yb' \<Longrightarrow> ends_by out1 tp"
    using above(2) by (auto intro: ends_by_mono)
  have out2: "canon out2" "ends_by out2 yb'"
    using emit_canon [OF above(1) e1(2) _ F_ok [OF band(3,6,2,5)]] above(1) e1(1) by (auto simp: out2_def)
  have sem: "in_bands out2 x y \<longleftrightarrow> in_bands out x y \<or>
      yb \<le> y \<and> y < yb' \<and> P (t1 \<le> y \<and> in_ivs i1 x) (t2 \<le> y \<and> in_ivs i2 x)"
  proof (cases "y < tp")
    case True
    then show ?thesis
      using emit_in_bands [OF above(1) e1(2), of yb' "F i1 i2" x y] above(3) [of x y] by (auto simp: out2_def)
  next
    case False
    then have "t1 \<le> y" "t2 \<le> y" "yb \<le> y" using yb by (auto simp: tp_def)
    then show ?thesis
      using False emit_in_bands [OF above(1) e1(2), of yb' "F i1 i2" x y] above(3) [of x y]
        F_in [OF band(3,6,2,5)] by (auto simp: out2_def)
  qed
  note t1 = canon_tl [OF i(3)] and t2 = canon_tl [OF i(4)]
  have ends: "b1 = yb' \<or> b2 = yb'" "yb' \<le> b1" "yb' \<le> b2" by (auto simp: yb'_def)
  show "band_inv s'"
    using out2 i t1 t2 ends B1 B2 by (auto simp: band_inv_def s' ends_after_def)
  show "band_sem P s' x y = band_sem P s x y"
  proof (cases "y < yb'")
    case True
    have "in_bands (bs_B1 s) x y = (t1 \<le> y \<and> in_ivs i1 x)" "in_bands (bs_B2 s) x y = (t2 \<le> y \<and> in_ivs i2 x)"
      using True ends t1(3) [of x y] t2(3) [of x y] B1 B2 by auto
    then show ?thesis using sem True by (auto simp: band_sem_def s' out_def yb_def)
  next
    case False
    have "in_bands (bs_B1 s') x y = in_bands (bs_B1 s) x y" "in_bands (bs_B2 s') x y = in_bands (bs_B2 s) x y"
      using False B1 B2 by (auto simp: s')
    then show ?thesis using sem False yb by (auto simp: band_sem_def s' out_def yb_def)
  qed
qed

lemma rest_correct:
  assumes inv: "band_inv s" and fin: "bs_B1 s = [] \<or> bs_B2 s = []"
  defines "out \<equiv> band_rest (P True False) (P False True) s"
  shows "canon out" "in_bands out x y = band_sem P s x y"
proof -
  have keep: "canon (emit (bs_out s) (max t (bs_ybot s), b, vs) @ R) \<and>
      (in_bands (emit (bs_out s) (max t (bs_ybot s), b, vs) @ R) x y \<longleftrightarrow>
         in_bands (bs_out s) x y \<or> bs_ybot s \<le> y \<and> in_bands ((t, b, vs) # R) x y)"
    if B: "B = (t, b, vs) # R" "canon B" "ends_after B (bs_ybot s)" for t b vs R B
  proof -
    have c: "canon (bs_out s)" "ends_by (bs_out s) (max t (bs_ybot s))" "max t (bs_ybot s) < b" "iv_ok vs" "vs \<noteq> []"
      using inv B by (auto simp: band_inv_def ends_after_def intro: ends_by_mono)
    have cR: "canon_from b vs R" using B by simp
    have "canon (emit (bs_out s) (max t (bs_ybot s), b, vs) @ R)"
      using emit_canon [OF c(1-4)] cR c(5) by (auto simp: canon_append emit_def)
    moreover have "in_bands R x y \<Longrightarrow> bs_ybot s \<le> y"
      using canon_from_above [OF cR, of x y] c(3) by linarith
    ultimately show ?thesis using emit_in_bands [OF c(1-3), of vs x y] by auto
  qed
  have "canon out \<and> in_bands out x y = band_sem P s x y"
  proof (cases "bs_B1 s")
    case Nil
    show ?thesis
    proof (cases "bs_B2 s")
      case Nil
      with \<open>bs_B1 s = []\<close> show ?thesis using inv P_none by (simp add: out_def band_rest_def band_inv_def band_sem_def)
    next
      case (Cons bd R)
      obtain t b vs where bd: "bd = (t, b, vs)" by (cases bd)
      show ?thesis using keep [OF Cons [unfolded bd]] inv P_none Cons bd \<open>bs_B1 s = []\<close>
        by (cases "in_bands (bs_B2 s) x y") (auto simp: out_def band_rest_def band_inv_def band_sem_def)
    qed
  next
    case (Cons bd R)
    obtain t b vs where bd: "bd = (t, b, vs)" by (cases bd)
    have "bs_B2 s = []" using fin Cons by simp
    then show ?thesis using keep [OF Cons [unfolded bd]] inv P_none Cons bd
      by (cases "in_bands (bs_B1 s) x y") (auto simp: out_def band_rest_def band_inv_def band_sem_def)
  qed
  then show "canon out" "in_bands out x y = band_sem P s x y" by auto
qed

end

end
