(* ===== verification/RegionOpCorrect.thy ===== *)
theory RegionOpCorrect
  imports RegionInv BandAlgebra
begin

text \<open>
  The refinement of the band sweep by \<open>miRegionOp\<close>: index arithmetic on one rectangle
  array (\<open>prevBand\<close>, \<open>curBand\<close>, in-place merging) implements the emission of bands on a
  list. The locale \<open>region_op\<close> is the contract between \<open>miRegionOp\<close> and the overlap
  procedures it calls; its theorem \<open>regop_correct\<close> is what union, intersection and
  subtraction inherit.
\<close>

section \<open>Coalescing\<close>

lemma same_places_iff:
  "same_places n rs i j \<longleftrightarrow>
     (\<forall>k<n. bx1 (rs ! (i + k)) = bx1 (rs ! (j + k)) \<and> bx2 (rs ! (i + k)) = bx2 (rs ! (j + k)))"
proof (induction n arbitrary: i j)
  case (Suc n)
  show ?case
    by (auto simp: Suc.IH less_Suc_eq_0_disj)
qed simp

lemma length_set_bottoms [simp]: "length (set_bottoms n i y rs) = length rs"
  by (induction n arbitrary: i rs) auto

lemma set_bottoms_nth:
  "n \<le> i \<Longrightarrow> i \<le> length rs \<Longrightarrow> k < length rs \<Longrightarrow>
     set_bottoms n i y rs ! k = (if i - n \<le> k \<and> k < i then (rs ! k)\<lparr>by2 := y\<rparr> else rs ! k)"
proof (induction n arbitrary: i rs)
  case (Suc n)
  then obtain i' where i: "i = Suc i'" by (cases i) auto
  show ?case
    using Suc.IH [of i' "rs[i' := (rs ! i')\<lparr>by2 := y\<rparr>]"] Suc.prems i
    by (cases "k = i'") auto
qed simp

lemma set_bottoms_tail:
  "set_bottoms (length xs) (length rs + length xs) y (rs @ xs) = rs @ map (\<lambda>b. b\<lparr>by2 := y\<rparr>) xs"
  by (rule nth_equalityI) (auto simp: set_bottoms_nth nth_append)

lemma map_bottoms_band [simp]:
  "map (\<lambda>b. b\<lparr>by2 := y\<rparr>) (band_boxes (t, b, vs)) = band_boxes (t, y, vs)"
  by (auto simp: band_boxes_def)

lemma band_boxes_nth:
  "k < length vs \<Longrightarrow> band_boxes (t, b, vs) ! k = mkbox (fst (vs ! k)) t (snd (vs ! k)) b"
  by (simp add: band_boxes_def split_beta)

lemma same_places_bands:
  assumes len: "length vs = length ws"
  shows "same_places (length ws) (R @ band_boxes (t, b, vs) @ band_boxes (t', b', ws))
           (length R) (length R + length vs) \<longleftrightarrow> vs = ws" (is "same_places _ ?rs _ _ \<longleftrightarrow> _")
proof -
  have "?rs ! (length R + k) = mkbox (fst (vs ! k)) t (snd (vs ! k)) b \<and>
        ?rs ! (length R + length vs + k) = mkbox (fst (ws ! k)) t' (snd (ws ! k)) b'"
    if "k < length ws" for k
    using that len by (simp add: nth_append band_boxes_nth)
  then have "same_places (length ws) ?rs (length R) (length R + length vs) \<longleftrightarrow>
      (\<forall>k<length ws. fst (vs ! k) = fst (ws ! k) \<and> snd (vs ! k) = snd (ws ! k))"
    by (auto simp: same_places_iff)
  also have "\<dots> \<longleftrightarrow> vs = ws"
    using len by (auto simp: list_eq_iff_nth_eq prod_eq_iff)
  finally show ?thesis .
qed

definition prev_ok :: "band list \<Rightarrow> int \<Rightarrow> nat \<Rightarrow> bool" where
  "prev_ok out y prev \<longleftrightarrow>
     (out \<noteq> [] \<and> prev = length (flat (butlast out))) \<or>
     (prev = length (flat out) \<and> (out = [] \<or> fst (snd (last out)) < y))"

lemma prev_ok_mono: "prev_ok out y prev \<Longrightarrow> y \<le> y' \<Longrightarrow> prev_ok out y' prev"
  by (auto simp: prev_ok_def)

lemma holds_set_rects: "holds r e rs \<Longrightarrow> length rs' \<le> length rs \<Longrightarrow> holds (set_rects r rs') e rs'"
  by (auto simp: holds_def set_rects_def)

lemma Coalesce_skip:
  assumes "holds r e (flat out @ band_boxes (t, b, vs))" "ends_by out t" "t < b" "vs = [] \<or> out = [] \<or>
     \<not> (fst (snd (last out)) = t \<and> snd (snd (last out)) = vs)"
  shows "prev_ok (emit out (t, b, vs)) b (length (flat out))"
    "holds r e (flat (emit out (t, b, vs)))"
  using assms by (auto simp: emit_def prev_ok_def ends_by_def)

lemma Coalesce_emit:
  assumes h: "holds r e (flat out @ band_boxes (t, b, vs))"
    and out: "canon out" "ends_by out t" "t < b" and prev: "prev_ok out t prev"
  obtains prev' r' where "Coalesce r prev (length (flat out)) = (prev', r')"
    "holds r' e (flat (emit out (t, b, vs)))" "prev_ok (emit out (t, b, vs)) b prev'"
proof -
  note rs = holds_rects [OF h]
  let ?cur = "length (flat out)"
  consider (skip) "Coalesce r prev ?cur = (?cur, r)" "vs = [] \<or> out = [] \<or>
     \<not> (fst (snd (last out)) = t \<and> snd (snd (last out)) = vs)"
    | (merge) os t0 where "out = os @ [(t0, t, vs)]" "prev = length (flat os)" "vs \<noteq> []"
  proof (cases "prev = ?cur")
    case True
    then have "out = [] \<or> fst (snd (last out)) < t"
      using prev canon_last [OF out(1)] by (cases out rule: rev_cases) (auto simp: prev_ok_def)
    then show ?thesis using True skip by (auto simp: Coalesce_def miCoalesce_def Let_def)
  next
    case False
    then obtain os t0 b0 ws where os: "out = os @ [(t0, b0, ws)]" "prev = length (flat os)"
      using prev by (cases out rule: rev_cases) (auto simp: prev_ok_def)
    have ws: "ws \<noteq> []" using canon_last [OF out(1)] os by simp
    show ?thesis
    proof (cases "length ws = length vs")
      case False
      then show ?thesis using os rs skip by (auto simp: Coalesce_def)
    next
      case True
      have vs: "vs \<noteq> []" using True ws by auto
      have hd: "data_rects (rgdata r) ! prev = mkbox (fst (ws ! 0)) t0 (snd (ws ! 0)) b0"
        "data_rects (rgdata r) ! ?cur = mkbox (fst (vs ! 0)) t (snd (vs ! 0)) b"
        using os rs ws vs by (simp_all add: nth_append band_boxes_nth)
      have sp: "same_places (length vs) (data_rects (rgdata r)) prev ?cur \<longleftrightarrow> ws = vs"
        using same_places_bands [OF True] os rs by simp
      have n: "?cur - prev = length vs" using os True by simp
      have "\<not> (b0 = t \<and> ws = vs) \<Longrightarrow> miCoalesce r prev ?cur = (?cur, r)"
        unfolding miCoalesce_def Let_def n hd sp by auto
      then show ?thesis
        using skip merge os ws by (cases "b0 = t \<and> ws = vs") (auto simp: Coalesce_def)
    qed
  qed
  then show thesis
  proof cases
    case skip
    then show ?thesis using that Coalesce_skip [OF h out(2,3)] by blast
  next
    case merge
    have rs': "data_rects (rgdata r) = flat os @ band_boxes (t0, t, vs) @ band_boxes (t, b, vs)"
      using rs merge by simp
    have "same_places (length vs) (data_rects (rgdata r)) prev ?cur"
      using same_places_bands [of vs vs] merge by (simp add: rs')
    moreover have "data_rects (rgdata r) ! prev = mkbox (fst (vs ! 0)) t0 (snd (vs ! 0)) t"
        "data_rects (rgdata r) ! ?cur = mkbox (fst (vs ! 0)) t (snd (vs ! 0)) b"
        using merge by (simp_all add: rs' nth_append band_boxes_nth)
    moreover have "set_bottoms (length vs) ?cur b (take (length (data_rects (rgdata r)) - length vs) (data_rects (rgdata r)))
      = flat os @ band_boxes (t0, b, vs)"
      using merge set_bottoms_tail [of "band_boxes (t0, t, vs)" "flat os" b] by (simp add: rs')
    ultimately have "Coalesce r prev ?cur = (prev, set_rects r (flat os @ band_boxes (t0, b, vs)))"
      using merge by (auto simp: Coalesce_def miCoalesce_def Let_def rs')
    moreover have "emit out (t, b, vs) = os @ [(t0, b, vs)]" using merge by (simp add: emit_def)
    moreover have "holds (set_rects r (flat os @ band_boxes (t0, b, vs))) e (flat os @ band_boxes (t0, b, vs))"
      using holds_set_rects [OF h] merge by simp
    ultimately show ?thesis using that merge by (simp add: prev_ok_def)
  qed
qed

section \<open>The contract of an overlap procedure\<close>

locale region_op = band_op F P
  for F :: ivop and P :: "bool \<Rightarrow> bool \<Rightarrow> bool" +
  fixes ovl :: overlap_proc
  assumes ovl_band:
    "alloc_ok ok \<Longrightarrow> holds reg e rs \<Longrightarrow> iv_ok vs \<Longrightarrow> iv_ok ws \<Longrightarrow> vs \<noteq> [] \<Longrightarrow> ws \<noteq> [] \<Longrightarrow>
       holds (fst (snd (ovl ok reg (band_boxes (t, b, vs)) (band_boxes (t', b', ws)) y1 y2 ov))) e
         (rs @ band_boxes (y1, y2, F vs ws))"

text \<open>The simulation between a state of the code and a state of the sweep.\<close>

definition op_sim :: "box \<Rightarrow> opstate \<Rightarrow> bstate \<Rightarrow> bool" where
  "op_sim e s bs \<longleftrightarrow>
     holds (os_reg s) e (flat (bs_out bs)) \<and> prev_ok (bs_out bs) (bs_ybot bs) (os_prev s) \<and>
     os_ybot s = bs_ybot bs \<and> os_r1 s = flat (bs_B1 bs) \<and> os_r2 s = flat (bs_B2 bs)"

lemma append_band_emit:
  assumes "alloc_ok ok" "holds (os_reg s) e (flat out)" "canon out" "ends_by out tp" "tp < bt"
    "prev_ok out tp (os_prev s)"
  obtains s' where "append_band ok (band_boxes (t, b, vs)) tp bt s = s'"
    "holds (os_reg s') e (flat (emit out (tp, bt, vs)))" "prev_ok (emit out (tp, bt, vs)) bt (os_prev s')"
    "os_ybot s' = os_ybot s" "os_r1 s' = os_r1 s" "os_r2 s' = os_r2 s" "os_overlap s' = os_overlap s"
proof -
  have mp: "map (\<lambda>d. mkbox (bx1 d) tp (bx2 d) bt) (band_boxes (t, b, vs)) = band_boxes (tp, bt, vs)"
    by (auto simp: band_boxes_def)
  define reg where "reg = snd (miAppendNonO ok (os_reg s) (band_boxes (t, b, vs)) tp bt)"
  have "holds reg e (flat out @ band_boxes (tp, bt, vs))"
    using RECTALLOC_add_holds [OF assms(1,2), of "band_boxes (tp, bt, vs)"]
    by (auto simp: reg_def miAppendNonO_def mp split: prod.splits bool.splits)
  from Coalesce_emit [OF this assms(3-6)] obtain prev' r' where
    "Coalesce reg (os_prev s) (length (flat out)) = (prev', r')"
    "holds r' e (flat (emit out (tp, bt, vs)))" "prev_ok (emit out (tp, bt, vs)) bt prev'" by metis
  then show thesis
    using that [of "s\<lparr>os_reg := r', os_prev := prev'\<rparr>"] holds_rects [OF assms(2)]
    by (simp add: append_band_def flip: reg_def)
qed

lemma append_above_sim:
  fixes ap :: bool and vs :: "iv list"
  assumes ok: "alloc_ok ok" and h: "holds (os_reg s) e (flat out)" and c: "canon out" "ends_by out yb"
    and p: "prev_ok out yb (os_prev s)" and lt: "t < b" "yb < b" "t < t'" "yb \<le> t'"
  defines "s' \<equiv> (if ap then (if max t yb \<noteq> min b t'
                  then append_band ok (band_boxes (t, b, vs)) (max t yb) (min b t') s else s) else s)"
  shows "holds (os_reg s') e (flat (emit_above ap out yb (t, b, vs) t'))"
    "prev_ok (emit_above ap out yb (t, b, vs) t') (max yb (min b t')) (os_prev s')"
    "os_r1 s' = os_r1 s" "os_r2 s' = os_r2 s"
proof -
  define tp bt where "tp = max t yb" and "bt = min b t'"
  have le: "yb \<le> tp" "tp \<le> bt" using lt by (auto simp: tp_def bt_def)
  have o: "ends_by out tp" "prev_ok out tp (os_prev s)" "prev_ok out (max yb bt) (os_prev s)"
    using c(2) p le by (auto intro: ends_by_mono prev_ok_mono)
  have eq: "emit_above ap out yb (t, b, vs) t' = (if ap \<and> tp < bt then emit out (tp, bt, vs) else out)"
    using le by (auto simp: emit_above_def tp_def bt_def)
  have s': "s' = (if ap \<and> tp < bt then append_band ok (band_boxes (t, b, vs)) tp bt s else s)"
    using le by (auto simp: s'_def tp_def bt_def)
  have "holds (os_reg s') e (flat (if ap \<and> tp < bt then emit out (tp, bt, vs) else out)) \<and>
    prev_ok (if ap \<and> tp < bt then emit out (tp, bt, vs) else out) (max yb bt) (os_prev s') \<and>
    os_r1 s' = os_r1 s \<and> os_r2 s' = os_r2 s"
  proof (cases "ap \<and> tp < bt")
    case True
    obtain s2 where "append_band ok (band_boxes (t, b, vs)) tp bt s = s2"
      "holds (os_reg s2) e (flat (emit out (tp, bt, vs)))" "prev_ok (emit out (tp, bt, vs)) bt (os_prev s2)"
      "os_r1 s2 = os_r1 s" "os_r2 s2 = os_r2 s"
      using append_band_emit [OF ok h c(1) o(1) _ o(2), of bt t b vs] True by metis
    then show ?thesis using True s' by (auto intro: prev_ok_mono)
  qed (use h o s' in auto)
  then show "holds (os_reg s') e (flat (emit_above ap out yb (t, b, vs) t'))"
    "prev_ok (emit_above ap out yb (t, b, vs) t') (max yb (min b t')) (os_prev s')"
    "os_r1 s' = os_r1 s" "os_r2 s' = os_r2 s"
    unfolding eq bt_def by auto
qed

lemma above_sim:
  fixes ap1 ap2 :: bool and i1 i2 :: "iv list"
  assumes "alloc_ok ok" "holds (os_reg s) e (flat out)" "canon out" "ends_by out yb"
    "prev_ok out yb (os_prev s)" "t1 < b1" "t2 < b2" "yb < b1" "yb < b2" "yb \<le> t1 \<or> yb \<le> t2"
    and hd: "by1 (hd (os_r1 s)) = t1" "by2 (hd (os_r1 s)) = b1" "by1 (hd (os_r2 s)) = t2" "by2 (hd (os_r2 s)) = b2"
      "os_ybot s = yb"
  defines "out' \<equiv> (if t1 < t2 then emit_above ap1 out yb (t1, b1, i1) t2
                else if t2 < t1 then emit_above ap2 out yb (t2, b2, i2) t1 else out)"
  shows "\<exists>s'. regop_above ok ap1 ap2 (band_boxes (t1, b1, i1)) (band_boxes (t2, b2, i2)) s = (s', max t1 t2) \<and>
    holds (os_reg s') e (flat out') \<and> prev_ok out' (max yb (min (max t1 t2) (min b1 b2))) (os_prev s') \<and>
    os_r1 s' = os_r1 s \<and> os_r2 s' = os_r2 s"
proof -
  consider (lt) "t1 < t2" "yb \<le> t2" | (gt) "t2 < t1" "yb \<le> t1" | (eq) "t1 = t2"
    using assms(10) by linarith
  then show ?thesis
  proof cases
    case lt
    then have m: "min (max t1 t2) (min b1 b2) = min b1 t2" "max t1 t2 = t2" using assms(7) by (auto simp: min_def)
    have "regop_above ok ap1 ap2 (band_boxes (t1, b1, i1)) (band_boxes (t2, b2, i2)) s =
      ((if ap1 then (if max t1 yb \<noteq> min b1 t2
          then append_band ok (band_boxes (t1, b1, i1)) (max t1 yb) (min b1 t2) s else s) else s), t2)"
      by (simp only: regop_above_def Let_def hd lt if_True)
    with append_above_sim [OF assms(1-6,8) lt, of ap1 i1] lt m show ?thesis
      by (simp add: out'_def)
  next
    case gt
    then have m: "min (max t1 t2) (min b1 b2) = min b2 t1" "max t1 t2 = t1" "\<not> t1 < t2" using assms(6) by (auto simp: min_def)
    have "regop_above ok ap1 ap2 (band_boxes (t1, b1, i1)) (band_boxes (t2, b2, i2)) s =
      ((if ap2 then (if max t2 yb \<noteq> min b2 t1
          then append_band ok (band_boxes (t2, b2, i2)) (max t2 yb) (min b2 t1) s else s) else s), t1)"
      by (simp only: regop_above_def Let_def hd gt m(3) if_True if_False)
    with append_above_sim [OF assms(1-5,7,9) gt, of ap2 i2] gt m show ?thesis
      by (simp add: out'_def)
  next
    case eq
    then show ?thesis
      using assms(2,5) prev_ok_mono [OF assms(5)] hd by (simp add: regop_above_def out'_def)
  qed
qed

context region_op
begin

lemma overlap_band_emit:
  assumes "alloc_ok ok" "holds (os_reg s) e (flat out)" "canon out" "ends_by out tp" "tp < bt"
    "prev_ok out tp (os_prev s)" "iv_ok vs" "iv_ok ws" "vs \<noteq> []" "ws \<noteq> []"
  obtains s' where "overlap_band ok ovl (band_boxes (t, b, vs)) (band_boxes (t', b', ws)) tp bt s = s'"
    "holds (os_reg s') e (flat (emit out (tp, bt, F vs ws)))"
    "prev_ok (emit out (tp, bt, F vs ws)) bt (os_prev s')"
    "os_ybot s' = os_ybot s" "os_r1 s' = os_r1 s" "os_r2 s' = os_r2 s"
proof -
  obtain ret reg ov where o: "ovl ok (os_reg s) (band_boxes (t, b, vs)) (band_boxes (t', b', ws)) tp bt (os_overlap s)
     = (ret, reg, ov)" by (metis prod_cases3)
  have "holds reg e (flat out @ band_boxes (tp, bt, F vs ws))"
    using ovl_band [OF assms(1,2,7-10), of t b t' b' tp bt "os_overlap s"] o by simp
  from Coalesce_emit [OF this assms(3-6)] obtain prev' r' where
    "Coalesce reg (os_prev s) (length (flat out)) = (prev', r')"
    "holds r' e (flat (emit out (tp, bt, F vs ws)))" "prev_ok (emit out (tp, bt, F vs ws)) bt prev'" by metis
  then show thesis
    using that [of "s\<lparr>os_reg := r', os_overlap := ov, os_prev := prev'\<rparr>"] holds_rects [OF assms(2)] o
    by (simp add: overlap_band_def)
qed

lemma step_sim:
  assumes "alloc_ok ok" and sim: "op_sim e s bs" and inv: "band_inv bs"
    and ne: "bs_B1 bs \<noteq> []" "bs_B2 bs \<noteq> []"
  shows "op_sim e (regop_step ok ovl (P True False) (P False True) s)
           (band_step F (P True False) (P False True) bs)"
proof -
  obtain t1 b1 i1 R1 where B1: "bs_B1 bs = (t1, b1, i1) # R1" using ne(1) by (metis list.exhaust prod_cases3)
  obtain t2 b2 i2 R2 where B2: "bs_B2 bs = (t2, b2, i2) # R2" using ne(2) by (metis list.exhaust prod_cases3)
  define yb out where "yb = bs_ybot bs" and "out = bs_out bs"
  have i: "canon out" "ends_by out yb" "canon ((t1, b1, i1) # R1)" "canon ((t2, b2, i2) # R2)"
     "yb < b1" "yb < b2" "yb \<le> t1 \<or> yb \<le> t2"
    using inv B1 B2 by (auto simp: band_inv_def ends_after_def yb_def out_def)
  have band: "t1 < b1" "i1 \<noteq> []" "iv_ok i1" "t2 < b2" "i2 \<noteq> []" "iv_ok i2" using i(3,4) by auto
  have s: "holds (os_reg s) e (flat out)" "prev_ok out yb (os_prev s)" "os_ybot s = yb"
    "os_r1 s = band_boxes (t1, b1, i1) @ flat R1" "os_r2 s = band_boxes (t2, b2, i2) @ flat R2"
    using sim B1 B2 by (auto simp: op_sim_def out_def yb_def)
  have fb: "FindBand (os_r1 s) = (band_boxes (t1, b1, i1), flat R1)"
    "FindBand (os_r2 s) = (band_boxes (t2, b2, i2), flat R2)"
    using FindBand_flat i(3,4) s by auto
  have hd: "by1 (hd (os_r1 s)) = t1" "by2 (hd (os_r1 s)) = b1" "by1 (hd (os_r2 s)) = t2" "by2 (hd (os_r2 s)) = b2"
    using s band by (cases i1; cases i2; auto)+
  define out1 where "out1 = (if t1 < t2 then emit_above (P True False) out yb (t1, b1, i1) t2
                else if t2 < t1 then emit_above (P False True) out yb (t2, b2, i2) t1 else out)"
  define tp yb' where "tp = max t1 t2" and "yb' = min b1 b2"
  have yb: "yb < yb'" "yb \<le> tp" using i(5-7) by (auto simp: yb'_def tp_def)
  note above = above_correct [OF i(1,2) band(1,4) i(5-7) band(3,6), folded out1_def tp_def yb'_def]
  obtain s1 where s1: "regop_above ok (P True False) (P False True) (band_boxes (t1, b1, i1)) (band_boxes (t2, b2, i2)) s = (s1, tp)"
    "holds (os_reg s1) e (flat out1)" "prev_ok out1 (max yb (min tp yb')) (os_prev s1)"
    "os_r1 s1 = os_r1 s" "os_r2 s1 = os_r2 s"
    using above_sim [OF assms(1) s(1) i(1,2) s(2) band(1,4) i(5-7) hd s(3),
        where ?ap1.0 = "P True False" and ?i1.0 = i1 and ?ap2.0 = "P False True" and ?i2.0 = i2,
        folded out1_def tp_def yb'_def] by blast
  define s2 where "s2 = s1\<lparr>os_ybot := yb'\<rparr>"
  define s3 where "s3 = (if tp < yb' then overlap_band ok ovl (band_boxes (t1, b1, i1)) (band_boxes (t2, b2, i2)) tp yb' s2 else s2)"
  have step: "regop_step ok ovl (P True False) (P False True) s =
     s3\<lparr>os_r1 := (if b1 = yb' then flat R1 else os_r1 s), os_r2 := (if b2 = yb' then flat R2 else os_r2 s)\<rparr>"
    by (simp only: regop_step_def Let_def fb hd s1(1) prod.case s3_def s2_def yb'_def)
  have s3: "holds (os_reg s3) e (flat (if tp < yb' then emit out1 (tp, yb', F i1 i2) else out1))"
      "prev_ok (if tp < yb' then emit out1 (tp, yb', F i1 i2) else out1) yb' (os_prev s3)" "os_ybot s3 = yb'"
  proof (atomize (full), cases "tp < yb'")
    case True
    then have "ends_by out1 tp" "prev_ok out1 tp (os_prev s2)"
      using above(2) s1(3) yb by (auto simp: s2_def intro: ends_by_mono prev_ok_mono)
    from overlap_band_emit [OF assms(1) _ above(1) this(1) True this(2) band(3,6,2,5), where e = e and t = t1 and b = b1 and t' = t2 and b' = b2] s1(2)
    show "holds (os_reg s3) e (flat (if tp < yb' then emit out1 (tp, yb', F i1 i2) else out1)) \<and>
      prev_ok (if tp < yb' then emit out1 (tp, yb', F i1 i2) else out1) yb' (os_prev s3) \<and> os_ybot s3 = yb'"
      using True by (auto simp: s3_def s2_def)
  next
    case False
    then show "holds (os_reg s3) e (flat (if tp < yb' then emit out1 (tp, yb', F i1 i2) else out1)) \<and>
      prev_ok (if tp < yb' then emit out1 (tp, yb', F i1 i2) else out1) yb' (os_prev s3) \<and> os_ybot s3 = yb'"
      using s1(2,3) yb by (auto simp: s3_def s2_def intro: prev_ok_mono)
  qed
  show ?thesis
    unfolding step band_step_eq [OF B1 B2] op_sim_def Let_def
      out1_def [symmetric] out_def [symmetric] yb_def [symmetric] tp_def [symmetric] yb'_def [symmetric]
    using s3 s B1 B2 by (cases "tp < yb'") (simp_all add: out1_def [symmetric])
qed

text \<open>The whole loop: it ends in a state the sweep can end in, with the same meaning.\<close>

lemma loop_sim:
  assumes "alloc_ok ok" "op_sim e s bs" "band_inv bs"
  shows "\<exists>bs'. op_sim e (regop_loop ok ovl (P True False) (P False True) s) bs' \<and> band_inv bs' \<and>
    (bs_B1 bs' = [] \<or> bs_B2 bs' = []) \<and> (\<forall>x y. band_sem P bs' x y = band_sem P bs x y)"
  using assms
proof (induction "length (os_r1 s) + length (os_r2 s)" arbitrary: s bs rule: less_induct)
  case less
  let ?step = "regop_step ok ovl (P True False) (P False True)"
  show ?case
  proof (cases "os_r1 s \<noteq> [] \<and> os_r2 s \<noteq> []")
    case True
    then have ne: "bs_B1 bs \<noteq> []" "bs_B2 bs \<noteq> []" using less.prems(2) by (auto simp: op_sim_def)
    let ?bs = "band_step F (P True False) (P False True) bs"
    have sim: "op_sim e (?step s) ?bs"
      using step_sim [OF less.prems ne] .
    have sem: "band_inv ?bs" "\<And>x y. band_sem P ?bs x y = band_sem P bs x y"
      using step_correct [OF less.prems(3) ne] by auto
    have "length (os_r1 (?step s)) + length (os_r2 (?step s)) < length (os_r1 s) + length (os_r2 s)"
      using FindBand_rest_less [of "os_r1 s"] FindBand_rest_less [of "os_r2 s"] True
      by (auto simp: regop_step_rests)
    from less.hyps [OF this less.prems(1) sim sem(1)] show ?thesis
      using True sem(2) by (simp add: regop_loop.simps [of _ _ _ _ s])
  next
    case False
    have "band_boxes bd \<noteq> []" if "canon (bd # B)" for bd B using that by (cases bd) auto
    then have "bs_B1 bs = [] \<or> bs_B2 bs = []"
      using False less.prems(2,3) by (cases "bs_B1 bs"; cases "bs_B2 bs") (auto simp: op_sim_def band_inv_def)
    moreover have "regop_loop ok ovl (P True False) (P False True) s = s"
      by (subst regop_loop.simps) (simp only: False if_False)
    ultimately show ?thesis using less.prems by auto
  qed
qed

end

text \<open>What is left of one region once the other is exhausted.\<close>

lemma keep_sim:
  assumes ok: "alloc_ok ok" and h: "holds (os_reg s) e (flat out)" "prev_ok out yb (os_prev s)" "os_ybot s = yb"
    and inv: "canon out" "ends_by out yb" "canon ((t, b, vs) # R)" "yb < b"
    and r: "FindBand r = (band_boxes (t, b, vs), flat R)" "by1 (hd r) = t" "by2 (hd r) = b"
  shows "\<exists>reg. (let (band, rest) = FindBand r;
              s' = append_band ok band (max (by1 (hd r)) (os_ybot s)) (by2 (hd r)) s
          in AppendRegions ok (os_reg s') rest) = (True, reg) \<and>
        holds reg e (flat (emit out (max t yb, b, vs) @ R))"
proof -
  have o: "ends_by out (max t yb)" "prev_ok out (max t yb) (os_prev s)" "max t yb < b"
    using inv h(2) by (auto intro: ends_by_mono prev_ok_mono)
  obtain s' where s': "append_band ok (band_boxes (t, b, vs)) (max t yb) b s = s'"
    "holds (os_reg s') e (flat (emit out (max t yb, b, vs)))"
    using append_band_emit [OF ok h(1) inv(1) o(1,3,2), of t b vs] by metis
  have "\<exists>reg. AppendRegions ok (os_reg s') (flat R) = (True, reg) \<and>
        holds reg e (flat (emit out (max t yb, b, vs)) @ flat R)"
    using s'(2) RECTALLOC_add_holds [OF ok s'(2), of "flat R"]
    by (auto simp: AppendRegions_def split: prod.splits bool.splits)
  then show ?thesis by (simp add: r h(3) s'(1))
qed

lemma rest_sim:
  assumes ok: "alloc_ok ok" and sim: "op_sim e s bs" and inv: "band_inv bs"
    and fin: "bs_B1 bs = [] \<or> bs_B2 bs = []"
  shows "\<exists>reg. regop_rest ok ap1 ap2 s = (True, reg) \<and> holds reg e (flat (band_rest ap1 ap2 bs))"
proof -
  have s: "holds (os_reg s) e (flat (bs_out bs))" "prev_ok (bs_out bs) (bs_ybot bs) (os_prev s)"
    "os_ybot s = bs_ybot bs" "os_r1 s = flat (bs_B1 bs)" "os_r2 s = flat (bs_B2 bs)"
    using sim by (auto simp: op_sim_def)
  have i: "canon (bs_out bs)" "ends_by (bs_out bs) (bs_ybot bs)" "canon (bs_B1 bs)" "canon (bs_B2 bs)"
    "ends_after (bs_B1 bs) (bs_ybot bs)" "ends_after (bs_B2 bs) (bs_ybot bs)"
    using inv by (auto simp: band_inv_def)
  have keep: "\<exists>reg. (let (band, rest) = FindBand r;
              s' = append_band ok band (max (by1 (hd r)) (os_ybot s)) (by2 (hd r)) s
          in AppendRegions ok (os_reg s') rest) = (True, reg) \<and>
        holds reg e (flat (emit (bs_out bs) (max t (bs_ybot bs), b, vs) @ R))"
    if B: "B = (t, b, vs) # R" "canon B" "ends_after B (bs_ybot bs)" "r = flat B" for t b vs R B r
  proof -
    have f: "FindBand r = (band_boxes (t, b, vs), flat R)" using B FindBand_flat by auto
    have h: "by1 (hd r) = t" "by2 (hd r) = b" using B by (cases vs; auto)+
    show ?thesis
      using keep_sim [OF ok s(1-3) i(1,2) B(2) [unfolded B(1)] _ f h] B(1,3) by (simp add: ends_after_def)
  qed
  have ne: "flat B \<noteq> []" if "B \<noteq> []" "canon B" for B
    using that by (cases B rule: canon.cases) auto
  consider (one) t b vs R where "ap1" "bs_B1 bs = (t, b, vs) # R"
    | (two) t b vs R where "\<not> (bs_B1 bs \<noteq> [] \<and> ap1)" "ap2" "bs_B2 bs = (t, b, vs) # R"
    | (none) "\<not> (bs_B1 bs \<noteq> [] \<and> ap1)" "\<not> (bs_B2 bs \<noteq> [] \<and> ap2)"
    by (metis list.exhaust prod_cases3)
  then show ?thesis
  proof cases
    case one
    then show ?thesis
      using keep [OF one(2) i(3,5) s(4)] ne [OF _ i(3)] s(4)
      by (auto simp: regop_rest_def band_rest_def Let_def)
  next
    case two
    have "\<not> (os_r1 s \<noteq> [] \<and> ap1)" using two(1) s(4) by auto
    with two show ?thesis
      using keep [OF two(3) i(4,6) s(5)] ne [OF _ i(4)] s(5)
      by (auto simp: regop_rest_def band_rest_def Let_def)
  next
    case none
    then have "regop_rest ok ap1 ap2 s = (True, os_reg s)" "band_rest ap1 ap2 bs = bs_out bs"
      using s by (auto simp: regop_rest_def band_rest_def)
    then show ?thesis using s(1) by simp
  qed
qed

text \<open>The destination before and after the sweep.\<close>

lemma regop_start_holds:
  assumes "alloc_ok ok" "0 < n"
  shows "\<exists>r. regop_start ok nr takes n = (True, r) \<and> holds r (extents nr) []"
  using assms
  by (cases "rgdata nr"; cases takes)
    (auto simp: regop_start_def Let_def holds_def miRectAlloc_def alloc_ok_def)

definition op_result :: "box \<Rightarrow> box list \<Rightarrow> region \<Rightarrow> bool" where
  "op_result e rs r \<longleftrightarrow>
     region_shape r \<and> REGION_RECTS r = rs \<and> (rs = [] \<longrightarrow> rgdata r = EmptyData) \<and>
     (rgdata r = NoData \<longleftrightarrow> length rs = 1) \<and> (length rs \<noteq> 1 \<longrightarrow> extents r = e)"

lemma regop_finish_result:
  assumes "alloc_ok ok" "holds r e rs"
  shows "op_result e rs (regop_finish ok r)"
proof -
  obtain s where r: "extents r = e" "rgdata r = RegData s rs" "length rs \<le> s"
    using assms(2) by (auto simp: holds_def)
  consider "rs = []" | b where "rs = [b]" | "length rs \<noteq> 1" "rs \<noteq> []"
    by (cases rs; cases "tl rs") auto
  then show ?thesis
  proof cases
    case 3
    then have "2 \<le> length rs" by (cases rs; cases "tl rs") auto
    with 3 show ?thesis using r
      by (auto simp: regop_finish_def DOWNSIZE_def op_result_def region_shape_def REGION_RECTS_def Let_def)
  qed (use r in \<open>auto simp: regop_finish_def op_result_def region_shape_def REGION_RECTS_def Let_def\<close>)
qed

context region_op
begin

text \<open>
  The operator's contract, inherited by union, intersection, subtraction and inversion: when
  allocation succeeds, the destination, which may be either source, ends with the canonical
  rectangles of the pointwise combination, and no other region changes.
\<close>

theorem regop_correct:
  assumes ok: "alloc_ok ok"
    and nar: "\<not> REGION_NAR (h reg1)" "\<not> REGION_NAR (h reg2)"
    and wf: "wf_rects (REGION_RECTS (h reg1))" "wf_rects (REGION_RECTS (h reg2))"
    and ne: "REGION_RECTS (h reg1) \<noteq> []" "REGION_RECTS (h reg2) \<noteq> []"
  obtains rs r ov' where
    "miRegionOp ok ovl (P True False) (P False True) newReg reg1 reg2 h ov = (True, h(newReg := r), ov')"
    "op_result (extents (h newReg)) rs r" "wf_rects rs"
    "\<And>x y. in_rects rs x y = P (pixels (h reg1) x y) (pixels (h reg2) x y)"
proof -
  let ?r1 = "REGION_RECTS (h reg1)" and ?r2 = "REGION_RECTS (h reg2)" and ?e = "extents (h newReg)"
  obtain B1 B2 where B: "canon B1" "?r1 = flat B1" "canon B2" "?r2 = flat B2"
    using wf wf_rects_obtain by metis
  obtain t1 b1 i1 R1 where B1: "B1 = (t1, b1, i1) # R1" using ne(1) B(2) by (cases B1) auto
  obtain t2 b2 i2 R2 where B2: "B2 = (t2, b2, i2) # R2" using ne(2) B(4) by (cases B2) auto
  have hd: "by1 (hd ?r1) = t1" "by1 (hd ?r2) = t2" using B B1 B2 by (cases i1; cases i2; auto)+
  define takes where "takes = (newReg = reg1 \<and> length ?r1 > 1 \<or> newReg = reg2 \<and> length ?r2 > 1)"
  obtain nr where nr: "regop_start ok (h newReg) takes (2 * max (length ?r2) (length ?r1)) = (True, nr)" "holds nr ?e []"
    using regop_start_holds [OF ok] ne by (metis less_max_iff_disj length_greater_0_conv nat_0_less_mult_iff zero_less_numeral)
  define s where "s = \<lparr>os_reg = nr, os_overlap = ov, os_prev = 0, os_ybot = min t1 t2, os_r1 = ?r1, os_r2 = ?r2\<rparr>"
  define bs where "bs = \<lparr>bs_out = [], bs_ybot = min t1 t2, bs_B1 = B1, bs_B2 = B2\<rparr>"
  have "op_sim ?e s bs" using nr(2) B by (simp add: op_sim_def s_def bs_def prev_ok_def)
  moreover have "band_inv bs" using B(1,3) B1 B2 by (auto simp: band_inv_def bs_def ends_by_def ends_after_def)
  ultimately obtain bs' where bs': "op_sim ?e (regop_loop ok ovl (P True False) (P False True) s) bs'" "band_inv bs'"
    "bs_B1 bs' = [] \<or> bs_B2 bs' = []" "\<And>x y. band_sem P bs' x y = band_sem P bs x y"
    using loop_sim [OF ok] by metis
  let ?s' = "regop_loop ok ovl (P True False) (P False True) s"
  let ?out = "band_rest (P True False) (P False True) bs'"
  obtain reg where reg: "regop_rest ok (P True False) (P False True) ?s' = (True, reg)" "holds reg ?e (flat ?out)"
    using rest_sim [OF ok bs'(1-3)] by metis
  have eq: "miRegionOp ok ovl (P True False) (P False True) newReg reg1 reg2 h ov =
      (True, h(newReg := regop_finish ok reg), os_overlap ?s')"
    unfolding miRegionOp_def Let_def takes_def [symmetric] hd nr(1) using nar reg(1)
    by (simp add: s_def [symmetric])
  have sem: "in_bands ?out x y = P (pixels (h reg1) x y) (pixels (h reg2) x y)" for x y
  proof -
    have "in_bands ?out x y = (min t1 t2 \<le> y \<and> P (in_bands B1 x y) (in_bands B2 x y))"
      using rest_correct(2) [OF bs'(2,3)] bs'(4) [of x y] by (simp add: band_sem_def bs_def)
    moreover have "in_bands B1 x y \<Longrightarrow> t1 \<le> y" "in_bands B2 x y \<Longrightarrow> t2 \<le> y"
      using B(1,3) B1 B2 canon_from_above [of b1 i1 R1 x y] canon_from_above [of b2 i2 R2 x y] by auto
    ultimately show ?thesis using P_none B(2,4)
      by (cases "in_bands B1 x y"; cases "in_bands B2 x y") (auto simp: pixels_def)
  qed
  show thesis
    using that [OF eq regop_finish_result [OF ok reg(2)]] rest_correct(1) [OF bs'(2,3)] sem by simp
qed

lemma regop_ok:
  assumes "alloc_ok ok" "region_ok (h reg1)" "region_ok (h reg2)"
    "REGION_RECTS (h reg1) \<noteq> []" "REGION_RECTS (h reg2) \<noteq> []"
    and ap: "ap1 = P True False" "ap2 = P False True"
  shows "\<exists>rs r ov'. miRegionOp ok ovl ap1 ap2 newReg reg1 reg2 h ov = (True, h(newReg := r), ov') \<and>
    op_result (extents (h newReg)) rs r \<and> wf_rects rs \<and>
    (\<forall>x y. in_rects rs x y = P (pixels (h reg1) x y) (pixels (h reg2) x y))"
proof -
  obtain rs r ov' where
    "miRegionOp ok ovl ap1 ap2 newReg reg1 reg2 h ov = (True, h(newReg := r), ov')"
    "op_result (extents (h newReg)) rs r" "wf_rects rs"
    "\<And>x y. in_rects rs x y = P (pixels (h reg1) x y) (pixels (h reg2) x y)"
    unfolding ap
    by (rule regop_correct [where h = h and ?reg1.0 = reg1 and ?reg2.0 = reg2 and newReg = newReg and ov = ov and ok = ok])
      (use assms in \<open>auto simp: region_ok_wf\<close>)
  then show ?thesis by blast
qed

end

lemma op_result_setExtents:
  assumes "op_result e rs r" "wf_rects rs"
  shows "region_ok (miSetExtents r)" "pixels (miSetExtents r) x y = in_rects rs x y"
  using assms miSetExtents_ok [of r] by (auto simp: op_result_def pixels_def)

end
