(* ===== verification/RegionCopy.thy ===== *)
theory RegionCopy
  imports RegionInv
begin

text \<open>
  What \<open>miRegionCopy\<close> and the small operations of \<open>region/x11region.c\<close> do to the region
  invariant.
\<close>

section \<open>Copying\<close>

text \<open>The call \<open>miRegionCopy(dst, src)\<close> on two addresses of the store.\<close>

definition copy_region :: "allocator \<Rightarrow> 'a \<Rightarrow> 'a \<Rightarrow> ('a \<Rightarrow> region) \<Rightarrow> bool \<times> ('a \<Rightarrow> region)" where
  "copy_region ok dst src h =
     (let (ret, r) = miRegionCopy ok (dst = src) (h dst) (h src) in (ret, h(dst := r)))"

lemma region_ok_transfer:
  assumes "region_ok r" "region_shape r'" "REGION_RECTS r' = REGION_RECTS r" "extents r' = extents r"
  shows "region_ok r'"
proof -
  have "pixels r' = pixels r" using assms(3) by (intro ext) (simp add: pixels_def)
  then show ?thesis using assms by (simp add: region_ok_def)
qed

lemma miRegionCopy_ok:
  assumes "alloc_ok ok" "region_ok src" "same \<Longrightarrow> dst = src"
  obtains r where "miRegionCopy ok same dst src = (True, r)" "region_ok r"
    "REGION_RECTS r = REGION_RECTS src" "extents r = extents src"
proof (cases same)
  case True
  then show ?thesis using that assms by (simp add: miRegionCopy_def)
next
  case False
  from assms(2) have "\<exists>r. miRegionCopy ok same dst src = (True, r) \<and> region_shape r \<and>
     REGION_RECTS r = REGION_RECTS src \<and> extents r = extents src"
  proof (cases rule: region_ok_cases)
    case (many s rs)
    then have "rs \<noteq> []" "s \<noteq> 0" by auto
    with many False assms(1) show ?thesis
      by (cases "rgdata dst")
        (auto simp: miRegionCopy_def Let_def alloc_ok_def region_shape_def REGION_RECTS_def)
  qed (use False in \<open>auto simp: miRegionCopy_def Let_def region_shape_def REGION_RECTS_def\<close>)
  then show ?thesis using that region_ok_transfer [OF assms(2)] by metis
qed

lemma copy_region_ok:
  assumes "alloc_ok ok" "region_ok (h src)"
  obtains r where "copy_region ok dst src h = (True, h(dst := r))" "region_ok r"
    "REGION_RECTS r = REGION_RECTS (h src)" "extents r = extents (h src)"
  using miRegionCopy_ok [OF assms(1,2), of "dst = src" "h dst"]
  by (metis (no_types, lifting) case_prod_conv copy_region_def)

lemma copy_region_pixels:
  assumes "alloc_ok ok" "region_ok (h src)"
  shows "\<exists>r. copy_region ok dst src h = (True, h(dst := r)) \<and> region_ok r \<and> pixels r = pixels (h src)"
proof -
  obtain r where r: "copy_region ok dst src h = (True, h(dst := r))" "region_ok r" "REGION_RECTS r = REGION_RECTS (h src)"
    using copy_region_ok [where h = h and src = src, OF assms] by metis
  then have "pixels r = pixels (h src)" by (intro ext) (simp add: pixels_def)
  with r show ?thesis by blast
qed

section \<open>Small operations\<close>

lemma miRegionEmpty_ok: "region_ok (miRegionEmpty r)" "REGION_RECTS (miRegionEmpty r) = []"
  by (simp_all add: miRegionEmpty_def region_ok_EmptyData degenerate_def REGION_RECTS_def)

lemma miRegionReset_ok:
  "region_ok (miRegionReset r b) \<longleftrightarrow> bx1 b < bx2 b \<and> by1 b < by2 b"
  "pixels (miRegionReset r b) x y = INBOX b x y"
  by (simp_all add: miRegionReset_def region_ok_NoData pixels_NoData)

text \<open>
  \<open>clear_data\<close> is the common \<open>xfreeData(destReg); destReg->extents.x2 = ...x1; ...y2 = ...y1\<close>
  with a new static data pointer.
\<close>

definition clear_data :: "rdata \<Rightarrow> region \<Rightarrow> region" where
  "clear_data d r =
     r\<lparr>extents := (extents r)\<lparr>bx2 := bx1 (extents r), by2 := by1 (extents r)\<rparr>, rgdata := d\<rparr>"

lemma clear_data_ok: "region_ok (clear_data EmptyData r)" "REGION_RECTS (clear_data EmptyData r) = []"
  by (simp_all add: clear_data_def region_ok_EmptyData degenerate_def REGION_RECTS_def)

end
