(* ===== verification/RegionIntersect.thy ===== *)
theory RegionIntersect
  imports RegionCopy RegionOpCorrect
begin

text \<open>
  Intersection: \<open>miIntersectO\<close> and \<open>miIntersect\<close> of \<open>region/x11region.c\<close>, the overlap
  procedure as an instance of the \<open>region_op\<close> contract, and correctness for every way the
  three region pointers may coincide.
\<close>

section \<open>The code\<close>

text \<open>
  The do loop on two non-empty bands; \<open>NEWRECT\<close> leaves the function when it cannot grow
  the block.
\<close>

function miIntersectO_loop ::
  "allocator \<Rightarrow> region \<Rightarrow> box list \<Rightarrow> box list \<Rightarrow> int \<Rightarrow> int \<Rightarrow> bool \<times> region" where
  "miIntersectO_loop ok reg (r1 # r1s) (r2 # r2s) y1 y2 =
     (let x1 = max (bx1 r1) (bx1 r2); x2 = min (bx2 r1) (bx2 r2) in
      case (if x1 < x2 then NEWRECT ok reg (mkbox x1 y1 x2 y2) else (True, reg)) of
        (False, reg) \<Rightarrow> (False, reg)
      | (True, reg) \<Rightarrow>
          miIntersectO_loop ok reg (if bx2 r1 = x2 then r1s else r1 # r1s)
            (if bx2 r2 = x2 then r2s else r2 # r2s) y1 y2)"
| "miIntersectO_loop ok reg [] r2 y1 y2 = (True, reg)"
| "miIntersectO_loop ok reg (r1 # r1s) [] y1 y2 = (True, reg)"
  by pat_completeness auto
termination
  by (relation "measure (\<lambda>(ok, reg, r1, r2, y1, y2). length r1 + length r2)") (auto simp: min_def)

definition miIntersectO :: overlap_proc where
  "miIntersectO ok reg r1 r2 y1 y2 ov =
     (let (ret, reg) = miIntersectO_loop ok reg r1 r2 y1 y2 in (ret, reg, ov))"

text \<open>
  The flag handed to \<open>miRegionOp\<close> is a local variable whose value is ignored.
\<close>

definition miIntersect ::
  "allocator \<Rightarrow> 'a \<Rightarrow> 'a \<Rightarrow> 'a \<Rightarrow> ('a \<Rightarrow> region) \<Rightarrow> bool \<times> ('a \<Rightarrow> region)" where
  "miIntersect ok destReg reg1 srcReg h =
     (if REGION_NIL (h reg1) \<or> REGION_NIL (h srcReg) \<or> \<not> EXTENTCHECK (extents (h reg1)) (extents (h srcReg))
      then
        (if REGION_NAR (h reg1) \<or> REGION_NAR (h srcReg)
         then (False, h(destReg := clear_data BrokenData (h destReg)))
         else (True, h(destReg := clear_data EmptyData (h destReg))))
      else if rgdata (h reg1) = NoData \<and> rgdata (h srcReg) = NoData
      then
        (let e1 = extents (h reg1); e2 = extents (h srcReg) in
         (True, h(destReg := (h destReg)\<lparr>extents := mkbox (max (bx1 e1) (bx1 e2)) (max (by1 e1) (by1 e2))
                                       (min (bx2 e1) (bx2 e2)) (min (by2 e1) (by2 e2)), rgdata := NoData\<rparr>)))
      else if rgdata (h srcReg) = NoData \<and> SUBSUMES (extents (h srcReg)) (extents (h reg1))
      then copy_region ok destReg reg1 h
      else if rgdata (h reg1) = NoData \<and> SUBSUMES (extents (h reg1)) (extents (h srcReg))
      then copy_region ok destReg srcReg h
      else if reg1 = srcReg
      then copy_region ok destReg reg1 h
      else
        (case miRegionOp ok miIntersectO False False destReg reg1 srcReg h False of
           (False, h, _) \<Rightarrow> (False, h)
         | (True, h, _) \<Rightarrow> (True, h(destReg := miSetExtents (h destReg)))))"

section \<open>Intersection of interval lists\<close>

function ivs_inter :: ivop where
  "ivs_inter ((a, b) # vs) ((c, d) # ws) =
     (let x1 = max a c; x2 = min b d;
          rest = ivs_inter (if b = x2 then vs else (a, b) # vs) (if d = x2 then ws else (c, d) # ws)
      in if x1 < x2 then (x1, x2) # rest else rest)"
| "ivs_inter [] ws = []"
| "ivs_inter (v # vs) [] = []"
  by pat_completeness auto
termination
  by (relation "measure (\<lambda>(vs, ws). length vs + length ws)") (auto simp: min_def)

lemma ivs_inter_Cons:
  "ivs_inter ((a, b) # vs) ((c, d) # ws) =
     (if max a c < min b d then [(max a c, min b d)] else []) @
     ivs_inter (if b = min b d then vs else (a, b) # vs) (if d = min b d then ws else (c, d) # ws)"
  by (simp add: Let_def)

declare ivs_inter.simps(1) [simp del]

lemma ivs_inter_in:
  "iv_ok vs \<Longrightarrow> iv_ok ws \<Longrightarrow> in_ivs (ivs_inter vs ws) x \<longleftrightarrow> in_ivs vs x \<and> in_ivs ws x"
proof (induction vs ws rule: ivs_inter.induct)
  case (1 a b vs c d ws)
  define V W where "V = (if b = min b d then vs else (a, b) # vs)"
    and "W = (if d = min b d then ws else (c, d) # ws)"
  have above: "in_ivs vs x \<Longrightarrow> b < x" "in_ivs ws x \<Longrightarrow> d < x"
    using iv_from_above "1.prems" by auto
  have ok: "iv_ok V" "iv_ok W" using "1.prems" by (auto simp: V_def W_def)
  have IH: "in_ivs (ivs_inter V W) x \<longleftrightarrow> in_ivs V x \<and> in_ivs W x"
    using "1.IH" [OF refl refl] ok by (simp only: V_def W_def)
  have V: "in_ivs V x \<longleftrightarrow> in_ivs vs x \<or> b \<noteq> min b d \<and> a \<le> x \<and> x < b"
    "in_ivs W x \<longleftrightarrow> in_ivs ws x \<or> d \<noteq> min b d \<and> c \<le> x \<and> x < d"
    by (auto simp: V_def W_def)
  have "in_ivs (ivs_inter ((a, b) # vs) ((c, d) # ws)) x \<longleftrightarrow>
      max a c \<le> x \<and> x < min b d \<or> in_ivs (ivs_inter V W) x"
    unfolding ivs_inter_Cons V_def [symmetric] W_def [symmetric] by auto
  then show ?case
    unfolding IH V using above by (auto simp: min_def)
qed auto

lemma ivs_inter_from:
  "iv_ok vs \<Longrightarrow> iv_ok ws \<Longrightarrow> iv_from l vs \<or> iv_from l ws \<Longrightarrow> iv_from l (ivs_inter vs ws)"
proof (induction vs ws arbitrary: l rule: ivs_inter.induct)
  case (1 a b vs c d ws)
  define V W where "V = (if b = min b d then vs else (a, b) # vs)"
    and "W = (if d = min b d then ws else (c, d) # ws)"
  have ok: "iv_ok V" "iv_ok W" "iv_from (min b d) V \<or> iv_from (min b d) W"
    using "1.prems"(1,2) by (auto simp: V_def W_def min_def)
  have IH: "iv_from m V \<or> iv_from m W \<Longrightarrow> iv_from m (ivs_inter V W)" for m
    using "1.IH" [OF refl refl] ok(1,2) by (simp only: V_def W_def)
  have l: "l < max a c" using "1.prems"(3) by auto
  have eq: "ivs_inter ((a, b) # vs) ((c, d) # ws) =
      (if max a c < min b d then [(max a c, min b d)] else []) @ ivs_inter V W"
    unfolding ivs_inter_Cons V_def W_def by (rule refl)
  have "iv_from (min b d) (ivs_inter V W)" using IH ok(3) by blast
  moreover have "iv_from l (ivs_inter V W)" if "\<not> max a c < min b d"
  proof -
    have "iv_from l V \<or> iv_from l W"
      using "1.prems" that by (auto simp: V_def W_def min_def max_def split: if_splits intro: iv_from_mono)
    then show ?thesis using IH by blast
  qed
  ultimately show ?case
    unfolding eq using l by auto
qed auto

lemma ivs_inter_ok: "iv_ok vs \<Longrightarrow> iv_ok ws \<Longrightarrow> iv_ok (ivs_inter vs ws)"
  using ivs_inter_from iv_ok_from by blast

section \<open>The overlap procedure\<close>

lemma miIntersectO_loop_band:
  assumes "alloc_ok ok"
  shows "holds reg e rs \<Longrightarrow>
    \<exists>reg'. miIntersectO_loop ok reg (band_boxes (t, b, vs)) (band_boxes (t', b', ws)) y1 y2 = (True, reg') \<and>
      holds reg' e (rs @ band_boxes (y1, y2, ivs_inter vs ws))"
proof (induction vs ws arbitrary: reg rs rule: ivs_inter.induct)
  case (1 a c vs a' c' ws)
  let ?x1 = "max a a'" and ?x2 = "min c c'"
  let ?V = "if c = ?x2 then vs else (a, c) # vs" and ?W = "if c' = ?x2 then ws else (a', c') # ws"
  define new where "new = (if ?x1 < ?x2 then [mkbox ?x1 y1 ?x2 y2] else [])"
  obtain reg1 where N: "(if ?x1 < ?x2 then NEWRECT ok reg (mkbox ?x1 y1 ?x2 y2) else (True, reg)) = (True, reg1)"
    "holds reg1 e (rs @ new)"
  proof (cases "?x1 < ?x2")
    case True
    obtain r' where "NEWRECT ok reg (mkbox ?x1 y1 ?x2 y2) = (True, r')" "holds r' e (rs @ [mkbox ?x1 y1 ?x2 y2])"
      using NEWRECT_ok [OF assms "1.prems"] .
    with True show thesis using that by (simp only: new_def if_True)
  next
    case False
    then show thesis using that [of reg] "1.prems" by (simp only: new_def if_False append_Nil2)
  qed
  have V: "band_boxes (t, b, ?V) = (if c = ?x2 then band_boxes (t, b, vs) else mkbox a t c b # band_boxes (t, b, vs))"
    "band_boxes (t', b', ?W) = (if c' = ?x2 then band_boxes (t', b', ws) else mkbox a' t' c' b' # band_boxes (t', b', ws))"
    by auto
  have "band_boxes (y1, y2, ivs_inter ((a, c) # vs) ((a', c') # ws)) = new @ band_boxes (y1, y2, ivs_inter ?V ?W)"
    by (simp add: ivs_inter_Cons new_def)
  moreover have "miIntersectO_loop ok reg (band_boxes (t, b, (a, c) # vs)) (band_boxes (t', b', (a', c') # ws)) y1 y2 =
      miIntersectO_loop ok reg1 (band_boxes (t, b, ?V)) (band_boxes (t', b', ?W)) y1 y2"
    using N(1) unfolding V by (simp only: band_boxes_Cons miIntersectO_loop.simps Let_def mkbox_sel prod.case bool.case)
  ultimately show ?case
    using "1.IH" [OF refl refl N(2)] by (simp only: append_assoc)
qed (auto simp: miIntersectO_loop.simps)

interpretation inter: region_op ivs_inter "\<lambda>a b. a \<and> b" miIntersectO
proof
  show "iv_ok vs \<Longrightarrow> iv_ok js \<Longrightarrow> vs \<noteq> [] \<Longrightarrow> js \<noteq> [] \<Longrightarrow> iv_ok (ivs_inter vs js)" for vs js
    by (rule ivs_inter_ok)
  show "iv_ok vs \<Longrightarrow> iv_ok js \<Longrightarrow> vs \<noteq> [] \<Longrightarrow> js \<noteq> [] \<Longrightarrow>
      in_ivs (ivs_inter vs js) x = (in_ivs vs x \<and> in_ivs js x)" for vs js x
    by (rule ivs_inter_in)
  show "holds (fst (snd (miIntersectO ok reg (band_boxes (t, b, vs)) (band_boxes (t', b', ws)) y1 y2 ov))) e
         (rs @ band_boxes (y1, y2, ivs_inter vs ws))"
    if "alloc_ok ok" "holds reg e rs" for ok reg e rs vs ws t b t' b' y1 y2 ov
    using miIntersectO_loop_band [OF that, of t b vs t' b' ws y1 y2] by (auto simp: miIntersectO_def)
qed simp

section \<open>Correctness of miIntersect\<close>

lemma INBOX_inter:
  "INBOX (mkbox (max (bx1 a) (bx1 b)) (max (by1 a) (by1 b)) (min (bx2 a) (bx2 b)) (min (by2 a) (by2 b))) x y
     \<longleftrightarrow> INBOX a x y \<and> INBOX b x y"
  by (auto simp: INBOX_def)

lemma miIntersect_ok:
  assumes ok: "alloc_ok ok" and r1: "region_ok (h reg1)" and r2: "region_ok (h srcReg)"
  obtains r where "miIntersect ok destReg reg1 srcReg h = (True, h(destReg := r))" "region_ok r"
    "\<And>x y. pixels r x y \<longleftrightarrow> pixels (h reg1) x y \<and> pixels (h srcReg) x y"
proof -
  let ?e1 = "extents (h reg1)" and ?e2 = "extents (h srcReg)"
  note nar = region_ok_NAR [OF r1] region_ok_NAR [OF r2] and finish = that
  consider (reject) "REGION_NIL (h reg1) \<or> REGION_NIL (h srcReg) \<or> \<not> EXTENTCHECK ?e1 ?e2"
    | (some) "REGION_RECTS (h reg1) \<noteq> []" "REGION_RECTS (h srcReg) \<noteq> []" "EXTENTCHECK ?e1 ?e2"
    by (auto simp: REGION_NIL_iff)
  then show thesis
  proof cases
    case reject
    then have "\<not> (pixels (h reg1) x y \<and> pixels (h srcReg) x y)" for x y
      using EXTENTCHECK_pixels [OF r1 r2] pixels_empty by (auto simp: REGION_NIL_iff)
    then show thesis
      using reject nar that [of "clear_data EmptyData (h destReg)"] clear_data_ok pixels_empty
      by (auto simp: miIntersect_def)
  next
    case some
    have eq: "miIntersect ok destReg reg1 srcReg h =
      (if rgdata (h reg1) = NoData \<and> rgdata (h srcReg) = NoData
      then
        (let e1 = extents (h reg1); e2 = extents (h srcReg) in
         (True, h(destReg := (h destReg)\<lparr>extents := mkbox (max (bx1 e1) (bx1 e2)) (max (by1 e1) (by1 e2))
                                       (min (bx2 e1) (bx2 e2)) (min (by2 e1) (by2 e2)), rgdata := NoData\<rparr>)))
      else if rgdata (h srcReg) = NoData \<and> SUBSUMES (extents (h srcReg)) (extents (h reg1))
      then copy_region ok destReg reg1 h
      else if rgdata (h reg1) = NoData \<and> SUBSUMES (extents (h reg1)) (extents (h srcReg))
      then copy_region ok destReg srcReg h
      else if reg1 = srcReg
      then copy_region ok destReg reg1 h
      else
        (case miRegionOp ok miIntersectO False False destReg reg1 srcReg h False of
           (False, h, _) \<Rightarrow> (False, h)
         | (True, h, _) \<Rightarrow> (True, h(destReg := miSetExtents (h destReg)))))"
      using some by (simp add: miIntersect_def REGION_NIL_iff)
    have copy: thesis if "miIntersect ok destReg reg1 srcReg h = copy_region ok destReg src h" "region_ok (h src)"
      "\<And>x y. pixels (h src) x y \<longleftrightarrow> pixels (h reg1) x y \<and> pixels (h srcReg) x y" for src
      using copy_region_pixels [where h = h and src = src, OF ok that(2)] finish that(1,3) by metis
    consider (both) "rgdata (h reg1) = NoData" "rgdata (h srcReg) = NoData"
      | (one) "\<not> (rgdata (h reg1) = NoData \<and> rgdata (h srcReg) = NoData)"
         "rgdata (h srcReg) = NoData \<and> SUBSUMES ?e2 ?e1 \<or> \<not> (rgdata (h reg1) = NoData \<and> SUBSUMES ?e1 ?e2) \<and> reg1 = srcReg"
      | (two) "\<not> (rgdata (h reg1) = NoData \<and> rgdata (h srcReg) = NoData)"
         "\<not> (rgdata (h srcReg) = NoData \<and> SUBSUMES ?e2 ?e1)" "rgdata (h reg1) = NoData" "SUBSUMES ?e1 ?e2"
      | (general) "\<not> (rgdata (h reg1) = NoData \<and> rgdata (h srcReg) = NoData)"
         "\<not> (rgdata (h srcReg) = NoData \<and> SUBSUMES ?e2 ?e1)" "\<not> (rgdata (h reg1) = NoData \<and> SUBSUMES ?e1 ?e2)"
         "reg1 \<noteq> srcReg"
      by metis
    then show thesis
    proof cases
      case both
      let ?r = "(h destReg)\<lparr>extents := mkbox (max (bx1 ?e1) (bx1 ?e2)) (max (by1 ?e1) (by1 ?e2))
                                       (min (bx2 ?e1) (bx2 ?e2)) (min (by2 ?e1) (by2 ?e2)), rgdata := NoData\<rparr>"
      have "region_ok ?r"
        using r1 r2 some(3) both by (auto simp: region_ok_NoData EXTENTCHECK_def)
      then show thesis
        using that [of ?r] both INBOX_inter by (simp add: eq Let_def pixels_NoData)
    next
      case one
      have "miIntersect ok destReg reg1 srcReg h = copy_region ok destReg reg1 h" using one unfolding eq by auto
      then show thesis using copy r1 one(2) SUBSUMES_pixels [OF r1, of "h srcReg"] by blast
    next
      case two
      have "miIntersect ok destReg reg1 srcReg h = copy_region ok destReg srcReg h" using two unfolding eq by auto
      then show thesis using copy r2 two(3,4) SUBSUMES_pixels [OF r2, of "h reg1"] by blast
    next
      case general
      obtain rs r ov' where op: "miRegionOp ok miIntersectO False False destReg reg1 srcReg h False = (True, h(destReg := r), ov')"
        "op_result (extents (h destReg)) rs r" "wf_rects rs"
        "\<And>x y. in_rects rs x y \<longleftrightarrow> pixels (h reg1) x y \<and> pixels (h srcReg) x y"
        using inter.regop_ok [where h = h and newReg = destReg and ov = False and ?ap1.0 = False and ?ap2.0 = False,
            OF ok r1 r2 some(1,2)] by auto
      have "miIntersect ok destReg reg1 srcReg h = (True, h(destReg := miSetExtents r))"
        unfolding eq by (simp only: general if_False op(1) prod.case bool.case fun_upd_same fun_upd_upd)
      then show thesis using that op_result_setExtents [OF op(2,3)] op(4) by simp
    qed
  qed
qed

end
