(* ===== verification/RegionUnion.thy ===== *)
theory RegionUnion
  imports RegionCopy RegionOpCorrect
begin

text \<open>
  Union: the macro \<open>MERGERECT\<close>, \<open>miUnionO\<close> and \<open>miUnion\<close> of \<open>region/x11region.c\<close>, the
  overlap procedure as an instance of the \<open>region_op\<close> contract, and correctness for every
  way the three region pointers may coincide.
\<close>

section \<open>The code\<close>

text \<open>
  The locals of \<open>miUnionO\<close>: the region (with \<open>pNextRect\<close>, its end), the current union
  \<open>x1\<close>, \<open>x2\<close>, and \<open>*pOverlap\<close>.
\<close>

record union_state =
  us_reg :: region
  us_x1 :: int
  us_x2 :: int
  us_overlap :: bool

definition MERGERECT :: "allocator \<Rightarrow> int \<Rightarrow> int \<Rightarrow> box \<Rightarrow> union_state \<Rightarrow> bool \<times> union_state" where
  "MERGERECT ok y1 y2 r s =
     (if bx1 r \<le> us_x2 s
      then
        let s = (if bx1 r < us_x2 s then s\<lparr>us_overlap := True\<rparr> else s);
            s = (if us_x2 s < bx2 r then s\<lparr>us_x2 := bx2 r\<rparr> else s)
        in (True, s)
      else
        case NEWRECT ok (us_reg s) (mkbox (us_x1 s) y1 (us_x2 s) y2) of
          (False, reg) \<Rightarrow> (False, s\<lparr>us_reg := reg\<rparr>)
        | (True, reg) \<Rightarrow> (True, s\<lparr>us_reg := reg, us_x1 := bx1 r, us_x2 := bx2 r\<rparr>))"

fun miUnionO_rest :: "allocator \<Rightarrow> int \<Rightarrow> int \<Rightarrow> box list \<Rightarrow> union_state \<Rightarrow> bool \<times> union_state" where
  "miUnionO_rest ok y1 y2 [] s = (True, s)"
| "miUnionO_rest ok y1 y2 (r # rs) s =
     (case MERGERECT ok y1 y2 r s of
        (False, s) \<Rightarrow> (False, s)
      | (True, s) \<Rightarrow> miUnionO_rest ok y1 y2 rs s)"

fun miUnionO_loop ::
  "allocator \<Rightarrow> int \<Rightarrow> int \<Rightarrow> box list \<Rightarrow> box list \<Rightarrow> union_state \<Rightarrow> bool \<times> union_state" where
  "miUnionO_loop ok y1 y2 (r1 # r1s) (r2 # r2s) s =
     (if bx1 r1 < bx1 r2
      then (case MERGERECT ok y1 y2 r1 s of
              (False, s) \<Rightarrow> (False, s)
            | (True, s) \<Rightarrow> miUnionO_loop ok y1 y2 r1s (r2 # r2s) s)
      else (case MERGERECT ok y1 y2 r2 s of
              (False, s) \<Rightarrow> (False, s)
            | (True, s) \<Rightarrow> miUnionO_loop ok y1 y2 (r1 # r1s) r2s s))"
| "miUnionO_loop ok y1 y2 (r1 # r1s) [] s = miUnionO_rest ok y1 y2 (r1 # r1s) s"
| "miUnionO_loop ok y1 y2 [] r2 s = miUnionO_rest ok y1 y2 r2 s"

definition miUnionO :: overlap_proc where
  "miUnionO ok reg r1 r2 y1 y2 ov =
     (let s = \<lparr>us_reg = reg, us_x1 = 0, us_x2 = 0, us_overlap = ov\<rparr>;
          (ret, s) =
            (if bx1 (hd r1) < bx1 (hd r2)
             then miUnionO_loop ok y1 y2 (tl r1) r2 (s\<lparr>us_x1 := bx1 (hd r1), us_x2 := bx2 (hd r1)\<rparr>)
             else miUnionO_loop ok y1 y2 r1 (tl r2) (s\<lparr>us_x1 := bx1 (hd r2), us_x2 := bx2 (hd r2)\<rparr>))
      in if \<not> ret then (False, us_reg s, us_overlap s)
         else
           case NEWRECT ok (us_reg s) (mkbox (us_x1 s) y1 (us_x2 s) y2) of
             (ret, reg) \<Rightarrow> (ret, reg, us_overlap s))"

definition hull :: "box \<Rightarrow> box \<Rightarrow> box" where
  "hull a b = mkbox (min (bx1 a) (bx1 b)) (min (by1 a) (by1 b)) (max (bx2 a) (bx2 b)) (max (by2 a) (by2 b))"

text \<open>
  The extents are computed after the operator returned, from regions one of which may be
  the destination it has overwritten.
\<close>

definition miUnion ::
  "allocator \<Rightarrow> 'a \<Rightarrow> 'a \<Rightarrow> 'a \<Rightarrow> ('a \<Rightarrow> region) \<Rightarrow> bool \<times> ('a \<Rightarrow> region)" where
  "miUnion ok destReg reg1 srcReg h =
     (if reg1 = srcReg then copy_region ok destReg reg1 h
      else if REGION_NIL (h reg1)
      then (if REGION_NAR (h reg1)
            then (let (ret, r) = miRegionBreak (h destReg) in (ret, h(destReg := r)))
            else if destReg \<noteq> srcReg then copy_region ok destReg srcReg h else (True, h))
      else if REGION_NIL (h srcReg)
      then (if REGION_NAR (h srcReg)
            then (let (ret, r) = miRegionBreak (h destReg) in (ret, h(destReg := r)))
            else if destReg \<noteq> reg1 then copy_region ok destReg reg1 h else (True, h))
      else if rgdata (h reg1) = NoData \<and> SUBSUMES (extents (h reg1)) (extents (h srcReg))
      then (if destReg \<noteq> reg1 then copy_region ok destReg reg1 h else (True, h))
      else if rgdata (h srcReg) = NoData \<and> SUBSUMES (extents (h srcReg)) (extents (h reg1))
      then (if destReg \<noteq> srcReg then copy_region ok destReg srcReg h else (True, h))
      else
        (case miRegionOp ok miUnionO True True destReg reg1 srcReg h False of
           (False, h, _) \<Rightarrow> (False, h)
         | (True, h, _) \<Rightarrow>
             (True, h(destReg := (h destReg)\<lparr>extents := hull (extents (h reg1)) (extents (h srcReg))\<rparr>))))"

section \<open>Union of interval lists\<close>

fun merge_ivs :: "iv list \<Rightarrow> iv list \<Rightarrow> iv list" where
  "merge_ivs ((a, b) # vs) ((c, d) # ws) =
     (if a < c then (a, b) # merge_ivs vs ((c, d) # ws) else (c, d) # merge_ivs ((a, b) # vs) ws)"
| "merge_ivs vs [] = vs"
| "merge_ivs [] ws = ws"

fun join_ivs :: "int \<Rightarrow> int \<Rightarrow> iv list \<Rightarrow> iv list" where
  "join_ivs x1 x2 [] = [(x1, x2)]"
| "join_ivs x1 x2 ((a, b) # r) =
     (if a \<le> x2 then join_ivs x1 (max x2 b) r else (x1, x2) # join_ivs a b r)"

definition ivs_union :: ivop where
  "ivs_union vs ws = (case merge_ivs vs ws of [] \<Rightarrow> [] | (a, b) # r \<Rightarrow> join_ivs a b r)"

text \<open>\<open>starts_from l vs\<close>: the starts ascend, from \<open>l\<close>, and no interval is empty.\<close>

fun starts_from :: "int \<Rightarrow> iv list \<Rightarrow> bool" where
  "starts_from l [] = True"
| "starts_from l ((a, b) # r) = (l \<le> a \<and> a < b \<and> starts_from a r)"

lemma starts_from_mono: "starts_from l vs \<Longrightarrow> l' \<le> l \<Longrightarrow> starts_from l' vs"
  by (cases vs) auto

lemma starts_from_in: "starts_from l vs \<Longrightarrow> in_ivs vs x \<Longrightarrow> l \<le> x"
  by (induction l vs rule: starts_from.induct) auto

lemma iv_from_starts: "iv_from l vs \<Longrightarrow> starts_from l vs"
  by (induction l vs rule: iv_from.induct) (auto intro: starts_from_mono)

lemma merge_ivs_in: "in_ivs (merge_ivs vs ws) x \<longleftrightarrow> in_ivs vs x \<or> in_ivs ws x"
  by (induction vs ws rule: merge_ivs.induct) auto

lemma merge_ivs_starts: "starts_from l vs \<Longrightarrow> starts_from l ws \<Longrightarrow> starts_from l (merge_ivs vs ws)"
  by (induction vs ws arbitrary: l rule: merge_ivs.induct) auto

lemma join_ivs_in:
  "starts_from x1 r \<Longrightarrow> x1 < x2 \<Longrightarrow> in_ivs (join_ivs x1 x2 r) x \<longleftrightarrow> x1 \<le> x \<and> x < x2 \<or> in_ivs r x"
proof (induction x1 x2 r rule: join_ivs.induct)
  case (2 x1 x2 a b r)
  have "starts_from x1 r" using "2.prems"(1) starts_from_mono by auto
  then show ?case using "2" by auto
qed simp

lemma join_ivs_from:
  "starts_from x1 r \<Longrightarrow> x1 < x2 \<Longrightarrow> l < x1 \<Longrightarrow> iv_from l (join_ivs x1 x2 r)"
proof (induction x1 x2 r arbitrary: l rule: join_ivs.induct)
  case (2 x1 x2 a b r)
  have "starts_from x1 r" using "2.prems"(1) starts_from_mono by auto
  then show ?case using "2" by auto
qed simp

lemma ivs_union_spec:
  assumes "iv_ok vs" "iv_ok ws"
  shows "iv_ok (ivs_union vs ws)" "in_ivs (ivs_union vs ws) x \<longleftrightarrow> in_ivs vs x \<or> in_ivs ws x"
proof -
  obtain l l' where "iv_from l vs" "iv_from l' ws" using assms iv_ok_from by metis
  then have s: "starts_from (min l l') (merge_ivs vs ws)"
    by (intro merge_ivs_starts) (auto intro: iv_from_starts starts_from_mono)
  have "starts_from a r \<Longrightarrow> a < b \<Longrightarrow> iv_ok (join_ivs a b r)" for a b r
    using join_ivs_from [of a r b "a - 1"] by auto
  with s show "iv_ok (ivs_union vs ws)"
    by (auto simp: ivs_union_def split: list.split)
  show "in_ivs (ivs_union vs ws) x \<longleftrightarrow> in_ivs vs x \<or> in_ivs ws x"
    unfolding merge_ivs_in [symmetric] using s
    by (auto simp: ivs_union_def join_ivs_in split: list.split)
qed

lemma ivs_union_first:
  "ivs_union ((a, b) # vs) ((c, d) # ws) =
     (if a < c then join_ivs a b (merge_ivs vs ((c, d) # ws)) else join_ivs c d (merge_ivs ((a, b) # vs) ws))"
  by (simp add: ivs_union_def)

section \<open>The overlap procedure\<close>

text \<open>What a state of the union of one band stands for: boxes written, and the current one.\<close>

definition us_done :: "box \<Rightarrow> int \<Rightarrow> int \<Rightarrow> union_state \<Rightarrow> box list \<Rightarrow> bool" where
  "us_done e y1 y2 s bs \<longleftrightarrow>
     (\<exists>rs. holds (us_reg s) e rs \<and> bs = rs @ [mkbox (us_x1 s) y1 (us_x2 s) y2])"

lemma MERGERECT_step:
  assumes "alloc_ok ok" "holds (us_reg s) e rs"
  obtains s' where "MERGERECT ok y1 y2 (mkbox a t b t') s = (True, s')"
    "if a \<le> us_x2 s then holds (us_reg s') e rs \<and> us_x1 s' = us_x1 s \<and> us_x2 s' = max (us_x2 s) b
     else holds (us_reg s') e (rs @ [mkbox (us_x1 s) y1 (us_x2 s) y2]) \<and> us_x1 s' = a \<and> us_x2 s' = b"
proof (cases "a \<le> us_x2 s")
  case True
  then show thesis using that assms(2) by (fastforce simp: MERGERECT_def Let_def max_def)
next
  case False
  obtain r' where "NEWRECT ok (us_reg s) (mkbox (us_x1 s) y1 (us_x2 s) y2) = (True, r')"
    "holds r' e (rs @ [mkbox (us_x1 s) y1 (us_x2 s) y2])"
    using NEWRECT_ok [OF assms] .
  then show thesis using that False by (fastforce simp: MERGERECT_def)
qed

text \<open>One merge is one step of \<open>join_ivs\<close>, whatever procedure \<open>f\<close> continues with.\<close>

lemma MERGERECT_join:
  assumes "alloc_ok ok" "holds (us_reg s) e rs"
    and "\<And>s rs. holds (us_reg s) e rs \<Longrightarrow> \<exists>s'. f s = (True, s') \<and>
           us_done e y1 y2 s' (rs @ band_boxes (y1, y2, join_ivs (us_x1 s) (us_x2 s) r))"
  shows "\<exists>s'. (case MERGERECT ok y1 y2 (mkbox a t b t') s of (False, s) \<Rightarrow> (False, s) | (True, s) \<Rightarrow> f s) = (True, s') \<and>
           us_done e y1 y2 s' (rs @ band_boxes (y1, y2, join_ivs (us_x1 s) (us_x2 s) ((a, b) # r)))"
proof -
  obtain s' where s': "MERGERECT ok y1 y2 (mkbox a t b t') s = (True, s')"
    "if a \<le> us_x2 s then holds (us_reg s') e rs \<and> us_x1 s' = us_x1 s \<and> us_x2 s' = max (us_x2 s) b
     else holds (us_reg s') e (rs @ [mkbox (us_x1 s) y1 (us_x2 s) y2]) \<and> us_x1 s' = a \<and> us_x2 s' = b"
    using MERGERECT_step [OF assms(1,2)] .
  then show ?thesis using assms(3) [of s'] by (cases "a \<le> us_x2 s") fastforce+
qed

lemma miUnionO_rest_join:
  assumes "alloc_ok ok"
  shows "holds (us_reg s) e rs \<Longrightarrow> \<exists>s'. miUnionO_rest ok y1 y2 (band_boxes (t, b, vs)) s = (True, s') \<and>
           us_done e y1 y2 s' (rs @ band_boxes (y1, y2, join_ivs (us_x1 s) (us_x2 s) vs))"
proof (induction vs arbitrary: s rs)
  case (Cons v vs)
  obtain a c where v: "v = (a, c)" by (cases v)
  show ?case
    using MERGERECT_join [OF assms Cons.prems Cons.IH, of a t c b] by (simp add: v)
qed (auto simp: us_done_def)

lemma miUnionO_loop_join:
  assumes "alloc_ok ok"
  shows "holds (us_reg s) e rs \<Longrightarrow>
    \<exists>s'. miUnionO_loop ok y1 y2 (band_boxes (t, b, vs)) (band_boxes (t', b', ws)) s = (True, s') \<and>
           us_done e y1 y2 s' (rs @ band_boxes (y1, y2, join_ivs (us_x1 s) (us_x2 s) (merge_ivs vs ws)))"
proof (induction vs ws arbitrary: s rs rule: merge_ivs.induct)
  case (1 a c vs a' c' ws)
  show ?case
  proof (cases "a < a'")
    case True
    have "miUnionO_loop ok y1 y2 (band_boxes (t, b, (a, c) # vs)) (band_boxes (t', b', (a', c') # ws)) s =
      (case MERGERECT ok y1 y2 (mkbox a t c b) s of (False, s) \<Rightarrow> (False, s)
       | (True, s) \<Rightarrow> miUnionO_loop ok y1 y2 (band_boxes (t, b, vs)) (band_boxes (t', b', (a', c') # ws)) s)"
      unfolding band_boxes_Cons by (simp only: miUnionO_loop.simps mkbox_sel True if_True)
    with MERGERECT_join [OF assms "1.prems" "1.IH"(1) [OF True], of a t c b] True
    show ?thesis by simp
  next
    case False
    have "miUnionO_loop ok y1 y2 (band_boxes (t, b, (a, c) # vs)) (band_boxes (t', b', (a', c') # ws)) s =
      (case MERGERECT ok y1 y2 (mkbox a' t' c' b') s of (False, s) \<Rightarrow> (False, s)
       | (True, s) \<Rightarrow> miUnionO_loop ok y1 y2 (band_boxes (t, b, (a, c) # vs)) (band_boxes (t', b', ws)) s)"
      unfolding band_boxes_Cons by (simp only: miUnionO_loop.simps mkbox_sel False if_False)
    with MERGERECT_join [OF assms "1.prems" "1.IH"(2) [OF False], of a' t' c' b'] False
    show ?thesis by simp
  qed
next
  case (2 vs)
  then show ?case using miUnionO_rest_join [OF assms 2, of y1 y2 t b vs]
    by (cases vs) auto
next
  case (3 w ws)
  then show ?case using miUnionO_rest_join [OF assms 3, of y1 y2 t' b' "w # ws"] by simp
qed

lemma miUnionO_band:
  assumes ok: "alloc_ok ok" and h: "holds reg e rs" and ne: "vs \<noteq> []" "ws \<noteq> []"
  shows "\<exists>reg' ov'. miUnionO ok reg (band_boxes (t, b, vs)) (band_boxes (t', b', ws)) y1 y2 ov = (True, reg', ov') \<and>
    holds reg' e (rs @ band_boxes (y1, y2, ivs_union vs ws))"
proof -
  obtain a c vs' a' c' ws' where vs: "vs = (a, c) # vs'" "ws = (a', c') # ws'"
    using ne by (metis list.exhaust prod.exhaust)
  have fin: "\<exists>reg' ov'. (case NEWRECT ok (us_reg s) (mkbox (us_x1 s) y1 (us_x2 s) y2) of
             (ret, reg) \<Rightarrow> (ret, reg, us_overlap s)) = (True, reg', ov') \<and> holds reg' e bs"
    if d: "us_done e y1 y2 s bs" for s bs
  proof -
    obtain rs' where rs': "holds (us_reg s) e rs'" "bs = rs' @ [mkbox (us_x1 s) y1 (us_x2 s) y2]"
      using d by (auto simp: us_done_def)
    obtain r' where "NEWRECT ok (us_reg s) (mkbox (us_x1 s) y1 (us_x2 s) y2) = (True, r')" "holds r' e bs"
      using NEWRECT_ok [OF ok rs'(1)] rs'(2) by metis
    then show ?thesis by simp
  qed
  show ?thesis
  proof (cases "a < a'")
    case True
    obtain s' where s': "miUnionO_loop ok y1 y2 (band_boxes (t, b, vs')) (band_boxes (t', b', ws))
        \<lparr>us_reg = reg, us_x1 = a, us_x2 = c, us_overlap = ov\<rparr> = (True, s')"
      "us_done e y1 y2 s' (rs @ band_boxes (y1, y2, join_ivs a c (merge_ivs vs' ws)))"
      using miUnionO_loop_join [OF ok, of "\<lparr>us_reg = reg, us_x1 = a, us_x2 = c, us_overlap = ov\<rparr>" e rs y1 y2 t b vs' t' b' ws] h
      by auto
    then show ?thesis using fin [OF s'(2)] True vs
      by (simp add: miUnionO_def ivs_union_first Let_def)
  next
    case False
    obtain s' where s': "miUnionO_loop ok y1 y2 (band_boxes (t, b, vs)) (band_boxes (t', b', ws'))
        \<lparr>us_reg = reg, us_x1 = a', us_x2 = c', us_overlap = ov\<rparr> = (True, s')"
      "us_done e y1 y2 s' (rs @ band_boxes (y1, y2, join_ivs a' c' (merge_ivs vs ws')))"
      using miUnionO_loop_join [OF ok, of "\<lparr>us_reg = reg, us_x1 = a', us_x2 = c', us_overlap = ov\<rparr>" e rs y1 y2 t b vs t' b' ws'] h
      by auto
    then show ?thesis using fin [OF s'(2)] False vs
      by (simp add: miUnionO_def ivs_union_first Let_def)
  qed
qed

interpretation union: region_op ivs_union "\<lambda>a b. a \<or> b" miUnionO
proof
  show "iv_ok vs \<Longrightarrow> iv_ok js \<Longrightarrow> vs \<noteq> [] \<Longrightarrow> js \<noteq> [] \<Longrightarrow> iv_ok (ivs_union vs js)" for vs js
    by (rule ivs_union_spec)
  show "iv_ok vs \<Longrightarrow> iv_ok js \<Longrightarrow> vs \<noteq> [] \<Longrightarrow> js \<noteq> [] \<Longrightarrow>
      in_ivs (ivs_union vs js) x = (in_ivs vs x \<or> in_ivs js x)" for vs js x
    by (rule ivs_union_spec)
  show "holds (fst (snd (miUnionO ok reg (band_boxes (t, b, vs)) (band_boxes (t', b', ws)) y1 y2 ov))) e
         (rs @ band_boxes (y1, y2, ivs_union vs ws))"
    if "alloc_ok ok" "holds reg e rs" "vs \<noteq> []" "ws \<noteq> []" for ok reg e rs vs ws t b t' b' y1 y2 ov
    using miUnionO_band [OF that, of t b t' b' y1 y2 ov] by auto
qed simp

section \<open>Correctness of miUnion\<close>

lemma tight_hull:
  assumes "tight a S" "tight b T" "\<And>x y. U x y \<longleftrightarrow> S x y \<or> T x y"
  shows "tight (hull a b) U"
  using tight_cong [OF tight_union [OF assms(1,2)]] assms(3) by (simp add: hull_def)

text \<open>
  After the operator, a source is as it was, or it is the destination with its old extents,
  or it is the destination and a single rectangle.
\<close>

lemma op_result_extents:
  assumes "op_result e rs r" "wf_rects rs" "rs \<noteq> []" "tight e S" "\<And>x y. S x y \<Longrightarrow> in_rects rs x y"
  shows "\<exists>S'. tight (extents r) S' \<and> (\<forall>x y. S x y \<longrightarrow> S' x y) \<and> (\<forall>x y. S' x y \<longrightarrow> in_rects rs x y)"
proof (cases "rgdata r = NoData")
  case True
  then have "rs = [extents r]" using assms(1) by (auto simp: op_result_def REGION_RECTS_def)
  then have "tight (extents r) (in_rects rs)"
    using assms(2) tight_cong [OF tight_box] by simp
  then show ?thesis using assms(5) by blast
next
  case False
  then have "extents r = e" using assms(1) by (auto simp: op_result_def)
  then show ?thesis using assms(4,5) by blast
qed

lemma union_result_ok:
  assumes op: "op_result e rs r" "wf_rects rs" "rs \<noteq> []" and t: "tight e' (in_rects rs)"
  shows "region_ok (r\<lparr>extents := e'\<rparr>)" "pixels (r\<lparr>extents := e'\<rparr>) = in_rects rs"
proof -
  have rects: "REGION_RECTS (r\<lparr>extents := e'\<rparr>) = rs"
  proof (cases "rgdata r = NoData")
    case True
    then have "rs = [extents r]" using op(1) by (auto simp: op_result_def REGION_RECTS_def)
    then have "extents r = e'"
      using op(2) tight_unique [OF _ t] tight_cong [OF tight_box [of "extents r"], of "in_rects rs"] by simp
    then show ?thesis using True op(1) by (auto simp: op_result_def REGION_RECTS_def)
  qed (use op in \<open>auto simp: op_result_def REGION_RECTS_def\<close>)
  then show p: "pixels (r\<lparr>extents := e'\<rparr>) = in_rects rs"
    by (intro ext) (simp add: pixels_def)
  show "region_ok (r\<lparr>extents := e'\<rparr>)"
    using op t rects p by (auto simp: region_ok_def op_result_def region_shape_def)
qed

lemma union_op_ok:
  assumes ok: "alloc_ok ok" and r1: "region_ok (h reg1)" and r2: "region_ok (h srcReg)"
    and ne: "REGION_RECTS (h reg1) \<noteq> []" "REGION_RECTS (h srcReg) \<noteq> []"
  shows "\<exists>r ov'. miRegionOp ok miUnionO True True destReg reg1 srcReg h ov = (True, h(destReg := r), ov') \<and>
    (let e' = hull (extents ((h(destReg := r)) reg1)) (extents ((h(destReg := r)) srcReg)) in
     region_ok (r\<lparr>extents := e'\<rparr>) \<and>
     (\<forall>x y. pixels (r\<lparr>extents := e'\<rparr>) x y \<longleftrightarrow> pixels (h reg1) x y \<or> pixels (h srcReg) x y))"
proof -
  obtain rs r ov' where op: "miRegionOp ok miUnionO True True destReg reg1 srcReg h ov = (True, h(destReg := r), ov')"
    "op_result (extents (h destReg)) rs r" "wf_rects rs"
    "\<And>x y. in_rects rs x y \<longleftrightarrow> pixels (h reg1) x y \<or> pixels (h srcReg) x y"
    using union.regop_ok [where h = h and newReg = destReg and ov = ov and ?ap1.0 = True and ?ap2.0 = True,
        OF ok r1 r2 ne] by auto
  have tt: "tight (extents (h reg1)) (pixels (h reg1))" "tight (extents (h srcReg)) (pixels (h srcReg))"
    using region_ok_tight r1 r2 ne by auto
  obtain x y where "pixels (h reg1) x y" using ne(1) region_ok_empty_iff [OF r1] by blast
  then have rs: "rs \<noteq> []" using op(4) [of x y] by auto
  have ext: "\<exists>S'. tight (extents ((h(destReg := r)) a)) S' \<and> (\<forall>x y. pixels (h a) x y \<longrightarrow> S' x y) \<and> (\<forall>x y. S' x y \<longrightarrow> in_rects rs x y)"
    if "tight (extents (h a)) (pixels (h a))" "a = reg1 \<or> a = srcReg" for a
    using op_result_extents [OF op(2,3) rs, of "pixels (h a)"] that op(4) by (cases "a = destReg") auto
  obtain S T where ST: "tight (extents ((h(destReg := r)) reg1)) S" "tight (extents ((h(destReg := r)) srcReg)) T"
    "\<And>x y. in_rects rs x y \<longleftrightarrow> S x y \<or> T x y"
    using ext [OF tt(1)] ext [OF tt(2)] op(4) by blast
  have "tight (hull (extents ((h(destReg := r)) reg1)) (extents ((h(destReg := r)) srcReg))) (in_rects rs)"
    using ST by (rule tight_hull)
  from union_result_ok [OF op(2,3) rs this] show ?thesis
    using op(1,4) by (auto simp: Let_def)
qed

lemma miUnion_ok:
  assumes ok: "alloc_ok ok" and r1: "region_ok (h reg1)" and r2: "region_ok (h srcReg)"
  shows "\<exists>r. miUnion ok destReg reg1 srcReg h = (True, h(destReg := r)) \<and> region_ok r \<and>
    (\<forall>x y. pixels r x y \<longleftrightarrow> pixels (h reg1) x y \<or> pixels (h srcReg) x y)" (is "\<exists>r. ?good r")
proof -
  let ?e1 = "extents (h reg1)" and ?e2 = "extents (h srcReg)"
  note nar = region_ok_NAR [OF r1] region_ok_NAR [OF r2]
  have keep: "\<exists>r. ?good r"
    if "miUnion ok destReg reg1 srcReg h = (if destReg \<noteq> src then copy_region ok destReg src h else (True, h)) \<or>
        miUnion ok destReg reg1 srcReg h = copy_region ok destReg src h" "region_ok (h src)"
      "\<And>x y. pixels (h src) x y \<longleftrightarrow> pixels (h reg1) x y \<or> pixels (h srcReg) x y" for src
    using copy_region_pixels [where h = h and src = src and dst = destReg, OF ok that(2)] that fun_upd_triv [of h src]
    by (cases "destReg = src") metis+
  consider (same) "reg1 = srcReg"
    | (nil1) "reg1 \<noteq> srcReg" "REGION_RECTS (h reg1) = []"
    | (nil2) "reg1 \<noteq> srcReg" "REGION_RECTS (h reg1) \<noteq> []" "REGION_RECTS (h srcReg) = []"
    | (sub1) "reg1 \<noteq> srcReg" "REGION_RECTS (h reg1) \<noteq> []" "REGION_RECTS (h srcReg) \<noteq> []"
       "rgdata (h reg1) = NoData" "SUBSUMES ?e1 ?e2"
    | (sub2) "reg1 \<noteq> srcReg" "REGION_RECTS (h reg1) \<noteq> []" "REGION_RECTS (h srcReg) \<noteq> []"
       "\<not> (rgdata (h reg1) = NoData \<and> SUBSUMES ?e1 ?e2)" "rgdata (h srcReg) = NoData" "SUBSUMES ?e2 ?e1"
    | (general) "reg1 \<noteq> srcReg" "REGION_RECTS (h reg1) \<noteq> []" "REGION_RECTS (h srcReg) \<noteq> []"
       "\<not> (rgdata (h reg1) = NoData \<and> SUBSUMES ?e1 ?e2)" "\<not> (rgdata (h srcReg) = NoData \<and> SUBSUMES ?e2 ?e1)"
    by metis
  then show ?thesis
  proof cases
    case same
    then show ?thesis using keep [of reg1] r1 by (simp add: miUnion_def)
  next
    case nil1
    then show ?thesis using keep [of srcReg] r2 nar pixels_empty by (simp add: miUnion_def REGION_NIL_iff)
  next
    case nil2
    then show ?thesis using keep [of reg1] r1 nar pixels_empty by (simp add: miUnion_def REGION_NIL_iff)
  next
    case sub1
    then have "miUnion ok destReg reg1 srcReg h = (if destReg \<noteq> reg1 then copy_region ok destReg reg1 h else (True, h))"
      unfolding miUnion_def REGION_NIL_iff by presburger
    then show ?thesis using keep [of reg1] r1 SUBSUMES_pixels [OF r2, of "h reg1"] sub1 by blast
  next
    case sub2
    then have "miUnion ok destReg reg1 srcReg h = (if destReg \<noteq> srcReg then copy_region ok destReg srcReg h else (True, h))"
      unfolding miUnion_def REGION_NIL_iff by presburger
    then show ?thesis using keep [of srcReg] r2 SUBSUMES_pixels [OF r1, of "h srcReg"] sub2 by blast
  next
    case general
    obtain r ov' where op: "miRegionOp ok miUnionO True True destReg reg1 srcReg h False = (True, h(destReg := r), ov')"
      and res: "let e' = hull (extents ((h(destReg := r)) reg1)) (extents ((h(destReg := r)) srcReg)) in
     region_ok (r\<lparr>extents := e'\<rparr>) \<and>
     (\<forall>x y. pixels (r\<lparr>extents := e'\<rparr>) x y \<longleftrightarrow> pixels (h reg1) x y \<or> pixels (h srcReg) x y)"
      using union_op_ok [where h = h and destReg = destReg and ov = False, OF ok r1 r2 general(2,3)] by metis
    define e' where "e' = hull (extents ((h(destReg := r)) reg1)) (extents ((h(destReg := r)) srcReg))"
    have "miUnion ok destReg reg1 srcReg h = (True, h(destReg := r\<lparr>extents := e'\<rparr>))"
      unfolding miUnion_def REGION_NIL_iff e'_def
      by (simp only: general if_False op prod.case bool.case fun_upd_same fun_upd_upd)
    then show ?thesis using res unfolding e'_def [symmetric] Let_def by auto
  qed
qed

end
