(* ===== verification/RegionSubtract.thy ===== *)
theory RegionSubtract
  imports RegionCopy RegionOpCorrect
begin

text \<open>
  Subtraction and inversion: \<open>miSubtractO\<close>, \<open>miSubtract\<close> and \<open>miInverse\<close> of
  \<open>region/x11region.c\<close>, the overlap procedure as an instance of the \<open>region_op\<close> contract,
  and correctness for every way the region pointers may coincide.
\<close>

section \<open>The code\<close>

text \<open>\<open>if (r1 != r1End) x1 = r1->x1;\<close> after \<open>r1++\<close>.\<close>

definition next_x1 :: "box list \<Rightarrow> int \<Rightarrow> int" where
  "next_x1 r1 x1 = (if r1 \<noteq> [] then bx1 (hd r1) else x1)"

fun miSubtractO_rest :: "allocator \<Rightarrow> region \<Rightarrow> int \<Rightarrow> box list \<Rightarrow> int \<Rightarrow> int \<Rightarrow> bool \<times> region" where
  "miSubtractO_rest ok reg x1 [] y1 y2 = (True, reg)"
| "miSubtractO_rest ok reg x1 (r1 # r1s) y1 y2 =
     (case NEWRECT ok reg (mkbox x1 y1 (bx2 r1) y2) of
        (False, reg) \<Rightarrow> (False, reg)
      | (True, reg) \<Rightarrow> miSubtractO_rest ok reg (next_x1 r1s x1) r1s y1 y2)"

function miSubtractO_loop ::
  "allocator \<Rightarrow> region \<Rightarrow> int \<Rightarrow> box list \<Rightarrow> box list \<Rightarrow> int \<Rightarrow> int \<Rightarrow> bool \<times> region" where
  "miSubtractO_loop ok reg x1 (r1 # r1s) (r2 # r2s) y1 y2 =
     (if bx2 r2 \<le> x1 then miSubtractO_loop ok reg x1 (r1 # r1s) r2s y1 y2
      else if bx1 r2 \<le> x1 then
        (let x1 = bx2 r2 in
         if x1 \<ge> bx2 r1 then miSubtractO_loop ok reg (next_x1 r1s x1) r1s (r2 # r2s) y1 y2
         else miSubtractO_loop ok reg x1 (r1 # r1s) r2s y1 y2)
      else if bx1 r2 < bx2 r1 then
        (case NEWRECT ok reg (mkbox x1 y1 (bx1 r2) y2) of
           (False, reg) \<Rightarrow> (False, reg)
         | (True, reg) \<Rightarrow>
             let x1 = bx2 r2 in
             if x1 \<ge> bx2 r1 then miSubtractO_loop ok reg (next_x1 r1s x1) r1s (r2 # r2s) y1 y2
             else miSubtractO_loop ok reg x1 (r1 # r1s) r2s y1 y2)
      else
        (case (if bx2 r1 > x1 then NEWRECT ok reg (mkbox x1 y1 (bx2 r1) y2) else (True, reg)) of
           (False, reg) \<Rightarrow> (False, reg)
         | (True, reg) \<Rightarrow> miSubtractO_loop ok reg (next_x1 r1s x1) r1s (r2 # r2s) y1 y2))"
| "miSubtractO_loop ok reg x1 [] r2 y1 y2 = miSubtractO_rest ok reg x1 [] y1 y2"
| "miSubtractO_loop ok reg x1 (r1 # r1s) [] y1 y2 = miSubtractO_rest ok reg x1 (r1 # r1s) y1 y2"
  by pat_completeness auto
termination
  by (relation "measure (\<lambda>(ok, reg, x1, r1, r2, y1, y2). length r1 + length r2)") auto

definition miSubtractO :: overlap_proc where
  "miSubtractO ok reg r1 r2 y1 y2 ov =
     (let (ret, reg) = miSubtractO_loop ok reg (bx1 (hd r1)) r1 r2 y1 y2 in (ret, reg, ov))"

definition miSubtract ::
  "allocator \<Rightarrow> 'a \<Rightarrow> 'a \<Rightarrow> 'a \<Rightarrow> ('a \<Rightarrow> region) \<Rightarrow> bool \<times> ('a \<Rightarrow> region)" where
  "miSubtract ok regD regM regS h =
     (if REGION_NIL (h regM) \<or> REGION_NIL (h regS) \<or> \<not> EXTENTCHECK (extents (h regM)) (extents (h regS))
      then
        (if REGION_NAR (h regS)
         then (let (ret, r) = miRegionBreak (h regD) in (ret, h(regD := r)))
         else copy_region ok regD regM h)
      else if regM = regS
      then (True, h(regD := clear_data EmptyData (h regD)))
      else
        (case miRegionOp ok miSubtractO True False regD regM regS h False of
           (False, h, _) \<Rightarrow> (False, h)
         | (True, h, _) \<Rightarrow> (True, h(regD := miSetExtents (h regD)))))"

text \<open>
  \<open>miInverse\<close> has a region on its stack, \<open>invReg\<close>: the store is extended by the address
  \<open>None\<close> for it.
\<close>

definition with_local :: "region \<Rightarrow> ('a \<Rightarrow> region) \<Rightarrow> 'a option \<Rightarrow> region" where
  "with_local l h a = (case a of None \<Rightarrow> l | Some a \<Rightarrow> h a)"

definition miInverse ::
  "allocator \<Rightarrow> 'a \<Rightarrow> 'a \<Rightarrow> box \<Rightarrow> ('a \<Rightarrow> region) \<Rightarrow> bool \<times> ('a \<Rightarrow> region)" where
  "miInverse ok destReg regToInvert invRect h =
     (if REGION_NIL (h regToInvert) \<or> \<not> EXTENTCHECK invRect (extents (h regToInvert))
      then
        (if REGION_NAR (h regToInvert)
         then (let (ret, r) = miRegionBreak (h destReg) in (ret, h(destReg := r)))
         else (True, h(destReg := (h destReg)\<lparr>extents := invRect, rgdata := NoData\<rparr>)))
      else
        let invReg = \<lparr>extents = invRect, rgdata = NoData\<rparr> in
        (case miRegionOp ok miSubtractO True False (Some destReg) None (Some regToInvert)
                (with_local invReg h) False of
           (False, h', _) \<Rightarrow> (False, h' \<circ> Some)
         | (True, h', _) \<Rightarrow> (True, (h' \<circ> Some)(destReg := miSetExtents (h' (Some destReg))))))"

section \<open>Difference of interval lists\<close>

definition next_start :: "iv list \<Rightarrow> int \<Rightarrow> int" where
  "next_start vs x1 = (if vs \<noteq> [] then fst (hd vs) else x1)"

fun diff_rest :: "int \<Rightarrow> iv list \<Rightarrow> iv list" where
  "diff_rest x1 [] = []"
| "diff_rest x1 ((a, b) # vs) = (x1, b) # diff_rest (next_start vs x1) vs"

function diff_from :: "int \<Rightarrow> iv list \<Rightarrow> iv list \<Rightarrow> iv list" where
  "diff_from x1 ((a, b) # vs) ((c, d) # ws) =
     (if d \<le> x1 then diff_from x1 ((a, b) # vs) ws
      else if c \<le> x1 then
        (if d \<ge> b then diff_from (next_start vs d) vs ((c, d) # ws) else diff_from d ((a, b) # vs) ws)
      else if c < b then
        (x1, c) # (if d \<ge> b then diff_from (next_start vs d) vs ((c, d) # ws) else diff_from d ((a, b) # vs) ws)
      else (if b > x1 then [(x1, b)] else []) @ diff_from (next_start vs x1) vs ((c, d) # ws))"
| "diff_from x1 [] ws = diff_rest x1 []"
| "diff_from x1 (v # vs) [] = diff_rest x1 (v # vs)"
  by pat_completeness auto
termination
  by (relation "measure (\<lambda>(x1, vs, ws). length vs + length ws)") auto

definition ivs_diff :: ivop where
  "ivs_diff vs ws = diff_from (fst (hd vs)) vs ws"

text \<open>\<open>fence x1 vs\<close>: the fence stands in the first interval of what is left of the minuend.\<close>

fun fence :: "int \<Rightarrow> iv list \<Rightarrow> bool" where
  "fence x1 [] = True"
| "fence x1 ((a, b) # vs) = (a \<le> x1 \<and> x1 < b \<and> iv_from b vs)"

lemma fence_next: "iv_from b vs \<Longrightarrow> fence (next_start vs x) vs"
  by (cases vs) (auto simp: next_start_def)

lemma next_start_in: "iv_from b vs \<Longrightarrow> in_ivs vs x \<Longrightarrow> next_start vs z \<le> x \<and> b < x"
  using iv_from_above [of b vs x] iv_from_above [of "snd (hd vs)" "tl vs" x]
  by (cases vs) (auto simp: next_start_def)

lemma next_start_gt: "iv_from b vs \<Longrightarrow> vs \<noteq> [] \<Longrightarrow> b < next_start vs x"
  by (cases vs) (auto simp: next_start_def)

lemma diff_rest_in: "fence x1 vs \<Longrightarrow> in_ivs (diff_rest x1 vs) x \<longleftrightarrow> x1 \<le> x \<and> in_ivs vs x"
proof (induction x1 vs rule: diff_rest.induct)
  case (2 x1 a b vs)
  have "in_ivs (diff_rest (next_start vs x1) vs) x \<longleftrightarrow> in_ivs vs x" "in_ivs vs x \<Longrightarrow> b < x"
    using "2.IH" "2.prems" fence_next [of b vs x1] next_start_in [of b vs x x1] by auto
  then show ?case using "2.prems" by auto
qed simp

lemma diff_rest_from: "fence x1 vs \<Longrightarrow> l < x1 \<Longrightarrow> iv_from l (diff_rest x1 vs)"
proof (induction x1 vs arbitrary: l rule: diff_rest.induct)
  case (2 x1 a b vs)
  then show ?case
    using fence_next [of b vs x1] next_start_gt [of b vs x1] by (cases vs) auto
qed simp

lemma diff_from_in:
  "fence x1 vs \<Longrightarrow> iv_ok ws \<Longrightarrow> in_ivs (diff_from x1 vs ws) x \<longleftrightarrow> x1 \<le> x \<and> in_ivs vs x \<and> \<not> in_ivs ws x"
proof (induction x1 vs ws rule: diff_from.induct)
  case (1 x1 a b vs c d ws)
  have p: "a \<le> x1" "x1 < b" "iv_from b vs" "c < d" "iv_from d ws" "iv_ok ws" "iv_ok ((c, d) # ws)"
    using "1.prems" by auto
  have w: "in_ivs ws x \<Longrightarrow> d < x" using iv_from_above [OF p(5)] by blast
  have v: "in_ivs vs x \<Longrightarrow> b < x \<and> next_start vs z \<le> x" for z using next_start_in [OF p(3)] by blast
  have fn: "fence (next_start vs z) vs" for z using fence_next [OF p(3)] .
  consider "d \<le> x1" | "\<not> d \<le> x1" "c \<le> x1" "d \<ge> b" | "\<not> d \<le> x1" "c \<le> x1" "\<not> d \<ge> b"
    | "\<not> d \<le> x1" "\<not> c \<le> x1" "c < b" "d \<ge> b" | "\<not> d \<le> x1" "\<not> c \<le> x1" "c < b" "\<not> d \<ge> b"
    | "\<not> d \<le> x1" "\<not> c \<le> x1" "\<not> c < b" by blast
  then show ?case
  proof cases
    case 1
    then show ?thesis using "1.IH"(1) "1.prems" p w by auto
  next
    case 2
    then show ?thesis using "1.IH"(2) [OF _ _ _ fn] p v [of d] w by auto
  next
    case 3
    then show ?thesis using "1.IH"(3) p v w by auto
  next
    case 4
    then show ?thesis using "1.IH"(4) [OF _ _ _ _ fn] p v [of d] w by auto
  next
    case 5
    then show ?thesis using "1.IH"(5) p v w by auto
  next
    case 6
    then show ?thesis using "1.IH"(6) [OF _ _ _ fn] p v [of x1] w by auto
  qed
qed (auto simp: diff_rest_in simp del: diff_rest.simps)

lemma diff_from_from:
  "fence x1 vs \<Longrightarrow> l < x1 \<Longrightarrow> iv_ok ws \<Longrightarrow> iv_from l (diff_from x1 vs ws)"
proof (induction x1 vs ws arbitrary: l rule: diff_from.induct)
  case (1 x1 a b vs c d ws)
  have p: "a \<le> x1" "x1 < b" "iv_from b vs" "c < d" "iv_ok ws" "iv_ok ((c, d) # ws)" "l < x1"
    using "1.prems" by auto
  have fn: "fence (next_start vs z) vs" for z using fence_next [OF p(3)] .
  have nx: "iv_from m (diff_from (next_start vs z) vs ((c, d) # ws))"
    if "m \<le> b" "\<And>m. m < next_start vs z \<Longrightarrow> iv_from m (diff_from (next_start vs z) vs ((c, d) # ws))" for m z
    using that next_start_gt [OF p(3), of z] by (cases vs) auto
  consider "d \<le> x1" | "\<not> d \<le> x1" "c \<le> x1" "d \<ge> b" | "\<not> d \<le> x1" "c \<le> x1" "\<not> d \<ge> b"
    | "\<not> d \<le> x1" "\<not> c \<le> x1" "c < b" "d \<ge> b" | "\<not> d \<le> x1" "\<not> c \<le> x1" "c < b" "\<not> d \<ge> b"
    | "\<not> d \<le> x1" "\<not> c \<le> x1" "\<not> c < b" by blast
  then show ?case
  proof cases
    case 1
    then show ?thesis using "1.IH"(1) "1.prems" p by auto
  next
    case 2
    then show ?thesis using nx [OF _ "1.IH"(2) [OF _ _ _ fn]] p by auto
  next
    case 3
    then show ?thesis using "1.IH"(3) [of l] p by auto
  next
    case 4
    then show ?thesis using nx [OF _ "1.IH"(4) [OF _ _ _ _ fn]] p by auto
  next
    case 5
    then show ?thesis using "1.IH"(5) [of c] p by auto
  next
    case 6
    then show ?thesis using nx [OF _ "1.IH"(6) [OF _ _ _ fn]] p by auto
  qed
qed (auto intro: diff_rest_from simp del: diff_rest.simps)

lemma ivs_diff_spec:
  assumes "iv_ok vs" "iv_ok ws" "vs \<noteq> []"
  shows "iv_ok (ivs_diff vs ws)" "in_ivs (ivs_diff vs ws) x \<longleftrightarrow> in_ivs vs x \<and> \<not> in_ivs ws x"
proof -
  obtain a b r where vs: "vs = (a, b) # r" using assms(3) by (cases vs) auto
  have f: "fence a vs" and starts: "in_ivs vs x \<Longrightarrow> a \<le> x"
    using assms(1) vs iv_from_above [of b r x] by auto
  show "iv_ok (ivs_diff vs ws)"
    using diff_from_from [OF f, of "a - 1" ws] assms(2) vs by (auto simp: ivs_diff_def)
  show "in_ivs (ivs_diff vs ws) x \<longleftrightarrow> in_ivs vs x \<and> \<not> in_ivs ws x"
    using diff_from_in [OF f assms(2), of x] starts vs by (auto simp: ivs_diff_def)
qed

section \<open>The overlap procedure\<close>

lemma next_x1_band [simp]: "next_x1 (band_boxes (t, b, vs)) x = next_start vs x"
  by (cases vs) (auto simp: next_x1_def next_start_def)

lemma miSubtractO_rest_diff:
  assumes "alloc_ok ok"
  shows "holds reg e rs \<Longrightarrow> \<exists>reg'. miSubtractO_rest ok reg x1 (band_boxes (t, b, vs)) y1 y2 = (True, reg') \<and>
    holds reg' e (rs @ band_boxes (y1, y2, diff_rest x1 vs))"
proof (induction x1 vs arbitrary: reg rs rule: diff_rest.induct)
  case (2 x1 a c vs)
  obtain r' where N: "NEWRECT ok reg (mkbox x1 y1 c y2) = (True, r')" "holds r' e (rs @ [mkbox x1 y1 c y2])"
    using NEWRECT_ok [OF assms "2.prems"] .
  show ?case using "2.IH" [OF N(2)] N(1) by simp
qed auto

lemma miSubtractO_loop_diff:
  assumes "alloc_ok ok"
  shows "holds reg e rs \<Longrightarrow>
    \<exists>reg'. miSubtractO_loop ok reg x1 (band_boxes (t, b, vs)) (band_boxes (t', b', ws)) y1 y2 = (True, reg') \<and>
      holds reg' e (rs @ band_boxes (y1, y2, diff_from x1 vs ws))"
proof (induction x1 vs ws arbitrary: reg rs rule: diff_from.induct)
  case (1 x1 a b1 vs c d ws)
  obtain r4 where N4: "NEWRECT ok reg (mkbox x1 y1 c y2) = (True, r4)" "holds r4 e (rs @ [mkbox x1 y1 c y2])"
    using NEWRECT_ok [OF assms "1.prems"] .
  obtain r6 where N6: "NEWRECT ok reg (mkbox x1 y1 b1 y2) = (True, r6)" "holds r6 e (rs @ [mkbox x1 y1 b1 y2])"
    using NEWRECT_ok [OF assms "1.prems"] .
  consider "d \<le> x1" | "\<not> d \<le> x1" "c \<le> x1" "d \<ge> b1" | "\<not> d \<le> x1" "c \<le> x1" "\<not> d \<ge> b1"
    | "\<not> d \<le> x1" "\<not> c \<le> x1" "c < b1" "d \<ge> b1" | "\<not> d \<le> x1" "\<not> c \<le> x1" "c < b1" "\<not> d \<ge> b1"
    | "\<not> d \<le> x1" "\<not> c \<le> x1" "\<not> c < b1" "b1 > x1" | "\<not> d \<le> x1" "\<not> c \<le> x1" "\<not> c < b1" "\<not> b1 > x1" by blast
  then show ?case
  proof cases
    case 1
    then show ?thesis using "1.IH"(1) [OF 1 "1.prems"] by simp
  next
    case 2
    then show ?thesis using "1.IH"(2) [OF 2 "1.prems"] by (simp add: Let_def)
  next
    case 3
    then show ?thesis using "1.IH"(3) [OF 3 "1.prems"] by (simp add: Let_def)
  next
    case 4
    then show ?thesis using "1.IH"(4) [OF 4 N4(2)] N4(1) by (simp add: Let_def)
  next
    case 5
    then show ?thesis using "1.IH"(5) [OF 5 N4(2)] N4(1) by (simp add: Let_def)
  next
    case 6
    then show ?thesis using "1.IH"(6) [OF 6(1-3) N6(2)] N6(1) by (simp add: Let_def)
  next
    case 7
    then show ?thesis using "1.IH"(6) [OF 7(1-3) "1.prems"] by (simp add: Let_def)
  qed
next
  case (2 x1 ws)
  then show ?case using miSubtractO_rest_diff [OF assms 2, of x1 t b "[]" y1 y2] by (cases ws) auto
next
  case (3 x1 v vs)
  then show ?case using miSubtractO_rest_diff [OF assms 3, of x1 t b "v # vs" y1 y2]
    by (cases v) (simp del: diff_rest.simps miSubtractO_rest.simps)
qed

interpretation diff: region_op ivs_diff "\<lambda>a b. a \<and> \<not> b" miSubtractO
proof
  show "iv_ok vs \<Longrightarrow> iv_ok js \<Longrightarrow> vs \<noteq> [] \<Longrightarrow> js \<noteq> [] \<Longrightarrow> iv_ok (ivs_diff vs js)" for vs js
    by (rule ivs_diff_spec)
  show "iv_ok vs \<Longrightarrow> iv_ok js \<Longrightarrow> vs \<noteq> [] \<Longrightarrow> js \<noteq> [] \<Longrightarrow>
      in_ivs (ivs_diff vs js) x = (in_ivs vs x \<and> \<not> in_ivs js x)" for vs js x
    by (rule ivs_diff_spec)
  show "holds (fst (snd (miSubtractO ok reg (band_boxes (t, b, vs)) (band_boxes (t', b', ws)) y1 y2 ov))) e
         (rs @ band_boxes (y1, y2, ivs_diff vs ws))"
    if "alloc_ok ok" "holds reg e rs" "vs \<noteq> []" for ok reg e rs vs ws t b t' b' y1 y2 ov
  proof -
    have "bx1 (hd (band_boxes (t, b, vs))) = fst (hd vs)" using that(3) by (cases vs) auto
    then show ?thesis
      using miSubtractO_loop_diff [OF that(1,2), of "fst (hd vs)" t b vs t' b' ws y1 y2]
      by (auto simp: miSubtractO_def ivs_diff_def)
  qed
qed simp

section \<open>Correctness of miSubtract and miInverse\<close>

lemma miSubtract_ok:
  assumes ok: "alloc_ok ok" and rM: "region_ok (h regM)" and rS: "region_ok (h regS)"
  shows "\<exists>r. miSubtract ok regD regM regS h = (True, h(regD := r)) \<and> region_ok r \<and>
    (\<forall>x y. pixels r x y \<longleftrightarrow> pixels (h regM) x y \<and> \<not> pixels (h regS) x y)"
proof -
  note nar = region_ok_NAR [OF rM] region_ok_NAR [OF rS]
  consider (reject) "REGION_NIL (h regM) \<or> REGION_NIL (h regS) \<or> \<not> EXTENTCHECK (extents (h regM)) (extents (h regS))"
    | (same) "\<not> (REGION_NIL (h regM) \<or> REGION_NIL (h regS) \<or> \<not> EXTENTCHECK (extents (h regM)) (extents (h regS)))"
        "regM = regS"
    | (general) "\<not> (REGION_NIL (h regM) \<or> REGION_NIL (h regS) \<or> \<not> EXTENTCHECK (extents (h regM)) (extents (h regS)))"
        "regM \<noteq> regS" by blast
  then show ?thesis
  proof cases
    case reject
    then have "\<not> (pixels (h regM) x y \<and> pixels (h regS) x y)" for x y
      using EXTENTCHECK_pixels [OF rM rS] pixels_empty by (auto simp: REGION_NIL_iff)
    then show ?thesis
      using reject nar copy_region_pixels [where h = h and src = regM and dst = regD, OF ok rM]
      by (auto simp: miSubtract_def)
  next
    case same
    then have "miSubtract ok regD regM regS h = (True, h(regD := clear_data EmptyData (h regD)))"
      by (simp add: miSubtract_def)
    then show ?thesis using same clear_data_ok pixels_empty by blast
  next
    case general
    then have ne: "REGION_RECTS (h regM) \<noteq> []" "REGION_RECTS (h regS) \<noteq> []" by (auto simp: REGION_NIL_iff)
    obtain rs r ov' where op: "miRegionOp ok miSubtractO True False regD regM regS h False = (True, h(regD := r), ov')"
      "op_result (extents (h regD)) rs r" "wf_rects rs"
      "\<And>x y. in_rects rs x y \<longleftrightarrow> pixels (h regM) x y \<and> \<not> pixels (h regS) x y"
      using diff.regop_ok [where h = h and newReg = regD and ov = False and ?ap1.0 = True and ?ap2.0 = False,
          OF ok rM rS ne] by auto
    have "miSubtract ok regD regM regS h = (True, h(regD := miSetExtents r))"
      using general by (simp add: miSubtract_def op(1))
    then show ?thesis using op_result_setExtents [OF op(2,3)] op(4) by blast
  qed
qed

lemma miInverse_ok:
  assumes ok: "alloc_ok ok" and r: "region_ok (h regToInvert)" and box: "bx1 invRect < bx2 invRect" "by1 invRect < by2 invRect"
  shows "\<exists>r. miInverse ok destReg regToInvert invRect h = (True, h(destReg := r)) \<and> region_ok r \<and>
    (\<forall>x y. pixels r x y \<longleftrightarrow> INBOX invRect x y \<and> \<not> pixels (h regToInvert) x y)"
proof (cases "REGION_NIL (h regToInvert) \<or> \<not> EXTENTCHECK invRect (extents (h regToInvert))")
  case True
  let ?r = "(h destReg)\<lparr>extents := invRect, rgdata := NoData\<rparr>" and ?inv = "\<lparr>extents = invRect, rgdata = NoData\<rparr>"
  have "region_ok ?inv" using box by (simp add: region_ok_NoData)
  then have "\<not> (INBOX invRect x y \<and> pixels (h regToInvert) x y)" for x y
    using True EXTENTCHECK_pixels [OF _ r, of ?inv x y] pixels_empty by (auto simp: REGION_NIL_iff pixels_NoData)
  then show ?thesis
    using True region_ok_NAR [OF r] box by (auto simp: miInverse_def region_ok_NoData pixels_NoData intro!: exI [of _ ?r])
next
  case False
  define invReg g where "invReg = \<lparr>extents = invRect, rgdata = NoData\<rparr>" and "g = with_local invReg h"
  have g: "g None = invReg" "g (Some a) = h a" for a by (simp_all add: g_def with_local_def)
  have i: "region_ok (g None)" "REGION_RECTS (g None) \<noteq> []" "pixels (g None) x y = INBOX invRect x y" for x y
    using box by (simp_all add: g invReg_def region_ok_NoData REGION_RECTS_def pixels_NoData)
  have ne: "region_ok (g (Some regToInvert))" "REGION_RECTS (g (Some regToInvert)) \<noteq> []"
    using False r by (simp_all add: g REGION_NIL_iff)
  obtain rs r' ov' where op: "miRegionOp ok miSubtractO True False (Some destReg) None (Some regToInvert) g False =
      (True, g(Some destReg := r'), ov')"
    "op_result (extents (g (Some destReg))) rs r'" "wf_rects rs"
    "\<And>x y. in_rects rs x y \<longleftrightarrow> pixels (g None) x y \<and> \<not> pixels (g (Some regToInvert)) x y"
    using diff.regop_ok [where h = g and newReg = "Some destReg" and ov = False and ?ap1.0 = True and ?ap2.0 = False,
        OF ok i(1) ne(1) i(2) ne(2)] by auto
  have "(g(Some destReg := r')) \<circ> Some = h(destReg := r')" by (auto simp: g)
  then have "miInverse ok destReg regToInvert invRect h = (True, h(destReg := miSetExtents r'))"
    using False op(1) by (simp add: miInverse_def Let_def g_def invReg_def)
  then show ?thesis using op_result_setExtents [OF op(2,3)] op(4) i(3) g by auto
qed

end
