(* ===== verification/RegionQuery.thy ===== *)
theory RegionQuery
  imports RegionInv
begin

text \<open>
  The queries of \<open>region/x11region.c\<close>: \<open>miPointInRegion\<close>, \<open>miRectIn\<close>,
  \<open>miFindMaxBand\<close>, and what \<open>miRegionsEqual\<close> and \<open>miValidRegion\<close> say of regions that
  satisfy the invariant.
\<close>

section \<open>Order of the rectangles\<close>

definition box_before :: "box \<Rightarrow> box \<Rightarrow> bool" where
  "box_before b c \<longleftrightarrow> by1 b = by1 c \<and> by2 b = by2 c \<and> bx2 b < bx1 c \<or> by2 b \<le> by1 c"

definition box_valid :: "box \<Rightarrow> bool" where
  "box_valid b \<longleftrightarrow> bx1 b < bx2 b \<and> by1 b < by2 b"

lemma band_boxes_left: "iv_from l vs \<Longrightarrow> c \<in> set (band_boxes (t, b, vs)) \<Longrightarrow> l < bx1 c"
  by (induction l vs rule: iv_from.induct) force+

lemma band_boxes_sorted: "iv_from l vs \<Longrightarrow> sorted_wrt box_before (band_boxes (t, b, vs))"
proof (induction l vs rule: iv_from.induct)
  case (2 l a c r)
  have "box_before (mkbox a t c b) d" if "d \<in> set (band_boxes (t, b, r))" for d
    using band_boxes_left [of c r d t b] band_boxes_set [OF that] that "2.prems" by (auto simp: box_before_def)
  with 2 show ?case by simp
qed simp

lemma canon_from_sorted: "canon_from y p bs \<Longrightarrow> sorted_wrt box_before (flat bs)"
proof (induction y p bs rule: canon_from.induct)
  case (2 y p t b vs bs)
  obtain l where "iv_from l vs" using iv_ok_from "2.prems" by auto
  moreover have "box_before c d" if "c \<in> set (band_boxes (t, b, vs))" "d \<in> set (flat bs)" for c d
    using band_boxes_set [OF that(1)] canon_from_flat_top [of b vs bs d] that(2) "2.prems"
    by (auto simp: box_before_def)
  ultimately show ?case using "2" by (auto simp: sorted_wrt_append band_boxes_sorted)
qed simp

lemma wf_rects_sorted: "wf_rects rs \<Longrightarrow> sorted_wrt box_before rs"
  by (metis canon_ex_from canon_from_sorted wf_rects_obtain)

lemma wf_rects_valid: "wf_rects rs \<Longrightarrow> list_all box_valid rs"
  using wf_rects_box by (auto simp: list_all_iff box_valid_def)

lemma not_in_later:
  assumes "sorted_wrt box_before (b # bs)" "y < by2 b" "x < bx2 b \<or> x = bx2 b"
  shows "\<not> in_rects bs x y"
  using assms by (auto simp: in_rects_set INBOX_def box_before_def)

section \<open>miPointInRegion\<close>

fun miPointInRegion_loop :: "int \<Rightarrow> int \<Rightarrow> box list \<Rightarrow> box option" where
  "miPointInRegion_loop x y [] = None"
| "miPointInRegion_loop x y (pbox # rest) =
     (if y \<ge> by2 pbox then miPointInRegion_loop x y rest
      else if y < by1 pbox \<or> x < bx1 pbox then None
      else if x \<ge> bx2 pbox then miPointInRegion_loop x y rest
      else Some pbox)"

text \<open>\<open>Some b\<close> is the return value \<open>TRUE\<close> with \<open>b\<close> stored through the pointer.\<close>

definition miPointInRegion :: "region \<Rightarrow> int \<Rightarrow> int \<Rightarrow> box option" where
  "miPointInRegion pReg x y =
     (let numRects = REGION_NUM_RECTS pReg in
      if numRects = 0 \<or> \<not> INBOX (extents pReg) x y then None
      else if numRects = 1 then Some (extents pReg)
      else miPointInRegion_loop x y (REGION_RECTS pReg))"

lemma miPointInRegion_loop_correct:
  "sorted_wrt box_before rs \<Longrightarrow> list_all box_valid rs \<Longrightarrow>
     (case miPointInRegion_loop x y rs of
        None \<Rightarrow> \<not> in_rects rs x y
      | Some b \<Rightarrow> b \<in> set rs \<and> INBOX b x y)"
proof (induction x y rs rule: miPointInRegion_loop.induct)
  case (2 x y b rest)
  consider "y \<ge> by2 b" | "y < by2 b" "y < by1 b \<or> x < bx1 b" | "y < by2 b" "by1 b \<le> y" "bx1 b \<le> x" by linarith
  then show ?case
  proof cases
    case 2
    then have "\<not> in_rects rest x y" "\<not> INBOX b x y"
      using "2.prems" by (auto simp: in_rects_set INBOX_def box_before_def box_valid_def)
    with 2 show ?thesis by auto
  qed (use "2" in \<open>auto simp: INBOX_def split: option.splits\<close>)
qed simp

lemma miPointInRegion_ok:
  assumes "region_ok r"
  shows "(case miPointInRegion r x y of
            None \<Rightarrow> \<not> pixels r x y
          | Some b \<Rightarrow> b \<in> set (REGION_RECTS r) \<and> INBOX b x y)"
  using assms
proof (cases rule: region_ok_cases)
  case (many s rs)
  then show ?thesis
    using miPointInRegion_loop_correct [OF wf_rects_sorted wf_rects_valid, OF region_ok_wf region_ok_wf, OF assms assms, of x y]
      pixels_extents [OF assms, of x y]
    by (auto simp: miPointInRegion_def REGION_NUM_RECTS_def pixels_def Let_def split: option.splits)
qed (auto simp: miPointInRegion_def REGION_NUM_RECTS_def pixels_def Let_def)

section \<open>miRectIn\<close>

datatype rect_in = rgnOUT | rgnIN | rgnPART

text \<open>
  The loop returns \<open>partIn\<close> and \<open>y\<close>, all that is read after it; \<open>x\<close> never differs from
  \<open>prect->x1\<close> but is kept as the variable it is.
\<close>

fun miRectIn_loop :: "box \<Rightarrow> int \<Rightarrow> int \<Rightarrow> bool \<Rightarrow> bool \<Rightarrow> box list \<Rightarrow> bool \<times> int" where
  "miRectIn_loop prect x y partIn partOut [] = (partIn, y)"
| "miRectIn_loop prect x y partIn partOut (pbox # rest) =
     (if by2 pbox \<le> y then miRectIn_loop prect x y partIn partOut rest
      else if by1 pbox > y \<and> (partIn \<or> by1 pbox \<ge> by2 prect) then (partIn, y)
      else
        let partOut = (if by1 pbox > y then True else partOut);
            y = (if by1 pbox > y then by1 pbox else y)
        in
        if bx2 pbox \<le> x then miRectIn_loop prect x y partIn partOut rest
        else if bx1 pbox > x \<and> partIn then (partIn, y)
        else
          let partOut = (if bx1 pbox > x then True else partOut);
              partIn = (if bx1 pbox < bx2 prect then True else partIn)
          in
          if bx1 pbox < bx2 prect \<and> partOut then (partIn, y)
          else if bx2 pbox \<ge> bx2 prect then
            (let y = by2 pbox in
             if y \<ge> by2 prect then (partIn, y)
             else miRectIn_loop prect (bx1 prect) y partIn partOut rest)
          else (partIn, y))"

definition miRectIn :: "region \<Rightarrow> box \<Rightarrow> rect_in" where
  "miRectIn region prect =
     (let numRects = REGION_NUM_RECTS region in
      if numRects = 0 \<or> \<not> EXTENTCHECK (extents region) prect then rgnOUT
      else if numRects = 1
      then (if SUBSUMES (extents region) prect then rgnIN else rgnPART)
      else
        case miRectIn_loop prect (bx1 prect) (by1 prect) False False (REGION_RECTS region) of
          (partIn, y) \<Rightarrow>
            (if partIn then (if y < by2 prect then rgnPART else rgnIN) else rgnOUT))"

text \<open>The specification: what part of the box the region covers.\<close>

definition rect_in_spec :: "(int \<Rightarrow> int \<Rightarrow> bool) \<Rightarrow> box \<Rightarrow> rect_in \<Rightarrow> bool" where
  "rect_in_spec S p v \<longleftrightarrow>
     (case v of
        rgnOUT \<Rightarrow> \<forall>x y. INBOX p x y \<longrightarrow> \<not> S x y
      | rgnIN \<Rightarrow> \<forall>x y. INBOX p x y \<longrightarrow> S x y
      | rgnPART \<Rightarrow> (\<exists>x y. INBOX p x y \<and> S x y) \<and> (\<exists>x y. INBOX p x y \<and> \<not> S x y))"

text \<open>
  Before each rectangle, the rows above \<open>y\<close> have been decided: they are all outside, all
  inside, or nothing is known because there are none.
\<close>

definition rows_done :: "(int \<Rightarrow> int \<Rightarrow> bool) \<Rightarrow> box \<Rightarrow> int \<Rightarrow> bool \<Rightarrow> bool \<Rightarrow> bool" where
  "rows_done S p y partIn partOut \<longleftrightarrow>
     by1 p \<le> y \<and> y < by2 p \<and> \<not> (partIn \<and> partOut) \<and> (\<not> partIn \<and> \<not> partOut \<longrightarrow> y = by1 p) \<and>
     (partIn \<longrightarrow> by1 p < y \<and> (\<forall>u v. INBOX p u v \<and> v < y \<longrightarrow> S u v)) \<and>
     (partOut \<longrightarrow> by1 p < y \<and> (\<forall>u v. INBOX p u v \<and> v < y \<longrightarrow> \<not> S u v))"

definition verdict :: "box \<Rightarrow> bool \<times> int \<Rightarrow> rect_in" where
  "verdict p r = (if fst r then (if snd r < by2 p then rgnPART else rgnIN) else rgnOUT)"

lemma rect_in_part:
  assumes "INBOX p u v" "S u v" "INBOX p u' v'" "\<not> S u' v'"
  shows "rect_in_spec S p rgnPART"
  using assms by (auto simp: rect_in_spec_def)

lemma rect_in_rows:
  assumes "rows_done S p y partIn partOut" "box_valid p"
  shows "partIn \<Longrightarrow> INBOX p (bx1 p) (by1 p) \<and> S (bx1 p) (by1 p)"
    "partOut \<Longrightarrow> INBOX p (bx1 p) (by1 p) \<and> \<not> S (bx1 p) (by1 p)" "INBOX p (bx1 p) y"
    "\<not> partIn \<Longrightarrow> INBOX p u v \<Longrightarrow> v < y \<Longrightarrow> \<not> S u v"
    "\<not> partOut \<Longrightarrow> INBOX p u v \<Longrightarrow> v < y \<Longrightarrow> S u v"
proof -
  have "INBOX p (bx1 p) (by1 p)" using assms(2) by (auto simp: INBOX_def box_valid_def)
  then show "partIn \<Longrightarrow> INBOX p (bx1 p) (by1 p) \<and> S (bx1 p) (by1 p)"
    "partOut \<Longrightarrow> INBOX p (bx1 p) (by1 p) \<and> \<not> S (bx1 p) (by1 p)"
    using assms(1) by (auto simp: rows_done_def)
  show "INBOX p (bx1 p) y" using assms by (auto simp: INBOX_def box_valid_def rows_done_def)
  have first: "INBOX p u v \<Longrightarrow> v < y \<Longrightarrow> y \<noteq> by1 p" by (auto simp: INBOX_def)
  show "\<not> partIn \<Longrightarrow> INBOX p u v \<Longrightarrow> v < y \<Longrightarrow> \<not> S u v"
    "\<not> partOut \<Longrightarrow> INBOX p u v \<Longrightarrow> v < y \<Longrightarrow> S u v"
    using assms(1) first unfolding rows_done_def by blast+
qed

text \<open>The part of the loop body after the rows above the rectangle have been passed.\<close>

lemma miRectIn_row:
  assumes srt: "sorted_wrt box_before (b # rest)" and val: "box_valid b" and p: "box_valid p"
    and rows: "rows_done S p y partIn partOut" and b: "by1 b \<le> y" "y < by2 b"
    and S: "\<And>u v. INBOX p u v \<Longrightarrow> y \<le> v \<Longrightarrow> S u v = in_rects (b # rest) u v"
    and IH: "\<And>y' partIn' partOut'. rows_done S p y' partIn' partOut' \<Longrightarrow>
      (\<And>u v. INBOX p u v \<Longrightarrow> y' \<le> v \<Longrightarrow> S u v = in_rects rest u v) \<Longrightarrow>
      rect_in_spec S p (verdict p (miRectIn_loop p (bx1 p) y' partIn' partOut' rest))"
  shows "rect_in_spec S p (verdict p (miRectIn_loop p (bx1 p) y partIn partOut (b # rest)))"
proof -
  note later = not_in_later [OF srt]
  note rd = rect_in_rows [OF rows p]
  have y: "by1 p \<le> y" "y < by2 p" using rows by (auto simp: rows_done_def)
  have Sy: "u < bx1 b \<or> bx2 b = u \<Longrightarrow> INBOX p u y \<Longrightarrow> \<not> S u y" for u
    using S [of u y] later [of y u] b(2) val by (auto simp: INBOX_def box_valid_def)
  have eq: "miRectIn_loop p (bx1 p) y partIn partOut (b # rest) =
    (if bx2 b \<le> bx1 p then miRectIn_loop p (bx1 p) y partIn partOut rest
     else if bx1 b > bx1 p \<and> partIn then (partIn, y)
     else if bx1 b < bx2 p \<and> (bx1 b > bx1 p \<or> partOut) then (True, y)
     else if bx2 b \<ge> bx2 p then
       (if by2 b \<ge> by2 p then (bx1 b < bx2 p \<or> partIn, by2 b)
        else miRectIn_loop p (bx1 p) (by2 b) (bx1 b < bx2 p \<or> partIn) (bx1 b > bx1 p \<or> partOut) rest)
     else (bx1 b < bx2 p \<or> partIn, y))"
    using b by (simp add: Let_def)
  consider (left) "bx2 b \<le> bx1 p" | (gap) "bx1 b > bx1 p" "bx1 p < bx2 b" "partIn \<or> bx1 b < bx2 p"
    | (right) "bx1 b \<ge> bx2 p" "bx1 p < bx2 b" "\<not> partIn"
    | (mixed) "bx1 b \<le> bx1 p" "bx1 p < bx2 b" "partOut"
    | (short) "bx1 b \<le> bx1 p" "bx1 p < bx2 b" "bx2 b < bx2 p" "\<not> partOut"
    | (full) "bx1 b \<le> bx1 p" "bx1 p < bx2 b" "bx2 p \<le> bx2 b" "\<not> partOut" by linarith
  then show ?thesis
  proof cases
    case left
    have "S u v = in_rects rest u v" if "INBOX p u v" "y \<le> v" for u v
      using S [OF that] that left by (auto simp: INBOX_def)
    then show ?thesis using IH [OF rows] left eq by simp
  next
    case gap
    have out: "\<not> S (bx1 p) y" using Sy gap(1) rd(3) by blast
    have "partIn \<or> INBOX p (bx1 b) y \<and> S (bx1 b) y"
      using gap S [of "bx1 b" y] y b val by (auto simp: INBOX_def box_valid_def)
    then have "rect_in_spec S p rgnPART"
      using rect_in_part rd(1,3) out by blast
    moreover have "miRectIn_loop p (bx1 p) y partIn partOut (b # rest) = (True, y)"
      using gap eq by auto
    ultimately show ?thesis using y by (simp add: verdict_def)
  next
    case right
    have S2: "\<not> S u v" if "INBOX p u v" "y \<le> v" "v < by2 b" for u v
      using S [OF that(1,2)] later [OF that(3), of u] that right val by (auto simp: INBOX_def box_valid_def)
    then have out: "\<not> S u v" if "INBOX p u v" "v < by2 b" for u v
      using that rd(4) [OF right(3) that(1)] by (cases "v < y") auto
    show ?thesis
    proof (cases "by2 b \<ge> by2 p")
      case True
      then have "miRectIn_loop p (bx1 p) y partIn partOut (b # rest) = (False, by2 b)"
        using right eq p val by (auto simp: box_valid_def)
      moreover have "rect_in_spec S p rgnOUT"
        using out True by (auto simp: rect_in_spec_def INBOX_def)
      ultimately show ?thesis by (simp add: verdict_def)
    next
      case False
      then have "miRectIn_loop p (bx1 p) y partIn partOut (b # rest) = miRectIn_loop p (bx1 p) (by2 b) False True rest"
        using right eq p val by (auto simp: box_valid_def)
      moreover have "rows_done S p (by2 b) False True"
        using out y b False by (auto simp: rows_done_def)
      moreover have "S u v = in_rects rest u v" if "INBOX p u v" "by2 b \<le> v" for u v
        using S [of u v] that b by (auto simp: INBOX_def)
      ultimately show ?thesis using IH by auto
    qed
  next
    case mixed
    have "INBOX p (bx1 p) y \<and> S (bx1 p) y" using mixed S [of "bx1 p" y] rd(3) b by (auto simp: INBOX_def)
    then have "rect_in_spec S p rgnPART" using rect_in_part rd(2) [OF mixed(3)] by blast
    moreover have "miRectIn_loop p (bx1 p) y partIn partOut (b # rest) = (True, y)"
      using mixed eq p by (auto simp: box_valid_def)
    ultimately show ?thesis using y by (simp add: verdict_def)
  next
    case short
    have "INBOX p (bx1 p) y \<and> S (bx1 p) y" using short S [of "bx1 p" y] rd(3) b by (auto simp: INBOX_def)
    moreover have o: "INBOX p (bx2 b) y" using short y by (auto simp: INBOX_def)
    ultimately have "rect_in_spec S p rgnPART" using rect_in_part Sy [OF _ o] by blast
    moreover have "miRectIn_loop p (bx1 p) y partIn partOut (b # rest) = (True, y)"
      using short eq p by (auto simp: box_valid_def)
    ultimately show ?thesis using y by (simp add: verdict_def)
  next
    case full
    have "S u v" if "INBOX p u v" "y \<le> v" "v < by2 b" for u v
      using S [OF that(1,2)] that full b by (auto simp: INBOX_def)
    then have ins: "S u v" if "INBOX p u v" "v < by2 b" for u v
      using that rd(5) [OF full(4) that(1)] by (cases "v < y") auto
    show ?thesis
    proof (cases "by2 b \<ge> by2 p")
      case True
      then have "miRectIn_loop p (bx1 p) y partIn partOut (b # rest) = (True, by2 b)"
        using full eq p by (auto simp: box_valid_def)
      moreover have "rect_in_spec S p rgnIN"
        using ins True by (auto simp: rect_in_spec_def INBOX_def)
      ultimately show ?thesis using True by (simp add: verdict_def)
    next
      case False
      then have "miRectIn_loop p (bx1 p) y partIn partOut (b # rest) = miRectIn_loop p (bx1 p) (by2 b) True False rest"
        using full eq p by (auto simp: box_valid_def)
      moreover have "rows_done S p (by2 b) True False"
        using ins y b False by (auto simp: rows_done_def)
      moreover have "S u v = in_rects rest u v" if "INBOX p u v" "by2 b \<le> v" for u v
        using S [of u v] that b by (auto simp: INBOX_def)
      ultimately show ?thesis using IH by auto
    qed
  qed
qed

lemma miRectIn_loop_correct:
  assumes "sorted_wrt box_before rs" "list_all box_valid rs" "box_valid p" "rows_done S p y partIn partOut"
    "\<And>u v. INBOX p u v \<Longrightarrow> y \<le> v \<Longrightarrow> S u v = in_rects rs u v"
  shows "rect_in_spec S p (verdict p (miRectIn_loop p (bx1 p) y partIn partOut rs))"
  using assms
proof (induction rs arbitrary: y partIn partOut)
  case Nil
  note rd = rect_in_rows [OF Nil(4,3)]
  have o: "\<not> S u v" if "INBOX p u v" "y \<le> v" for u v using Nil(5) [OF that] by simp
  moreover have "y < by2 p" using Nil(4) by (simp add: rows_done_def)
  moreover have "\<not> partIn \<Longrightarrow> INBOX p u v \<Longrightarrow> \<not> S u v" for u v
    using rd(4) o by (cases "v < y") auto
  ultimately show ?case
    using rd(1,3) rect_in_part [of p "bx1 p" "by1 p" S "bx1 p" y]
    by (cases partIn) (auto simp: verdict_def rect_in_spec_def)
next
  case (Cons b rest)
  note rd = rect_in_rows [OF Cons.prems(4,3)] and S = Cons.prems(5)
  have srt: "sorted_wrt box_before rest" "list_all box_valid rest" and val: "box_valid b" using Cons.prems by auto
  note IH = Cons.IH [OF srt Cons.prems(3)]
  have y: "by1 p \<le> y" "y < by2 p" using Cons.prems(4) by (auto simp: rows_done_def)
  have above: "\<not> in_rects (b # rest) u v" if "v < by1 b" for u v
    using that Cons.prems(1) val by (auto simp: in_rects_set INBOX_def box_before_def box_valid_def)
  consider (skip) "by2 b \<le> y" | (stop) "by2 b > y" "by1 b > y" "partIn \<or> by1 b \<ge> by2 p"
    | (down) "by1 b > y" "\<not> partIn" "by1 b < by2 p" | (row) "by1 b \<le> y" "y < by2 b" by linarith
  then show ?case
  proof cases
    case skip
    have "S u v = in_rects rest u v" if "INBOX p u v" "y \<le> v" for u v
      using S [OF that] that skip by (auto simp: INBOX_def)
    then show ?thesis using IH [OF Cons.prems(4)] skip by simp
  next
    case stop
    have out: "\<not> S u v" if "INBOX p u v" "y \<le> v" "v < by1 b" for u v
      using S [OF that(1,2)] above [OF that(3)] by simp
    have "miRectIn_loop p (bx1 p) y partIn partOut (b # rest) = (partIn, y)" using stop by simp
    moreover have "partIn \<Longrightarrow> rect_in_spec S p rgnPART"
      using rect_in_part [of p _ _ S "bx1 p" y] rd(1,3) out [OF rd(3)] stop by blast
    moreover have "\<not> partIn \<Longrightarrow> rect_in_spec S p rgnOUT"
      using rd(4) out stop by (fastforce simp: rect_in_spec_def INBOX_def not_le)
    ultimately show ?thesis using y by (cases partIn) (auto simp: verdict_def)
  next
    case down
    have out: "\<not> S u v" if "INBOX p u v" "v < by1 b" for u v
      using S [OF that(1)] above [OF that(2)] rd(4) [OF down(2) that(1)] by (cases "v < y") auto
    have rows: "rows_done S p (by1 b) partIn True"
      using out y down by (auto simp: rows_done_def)
    have "by1 b < by2 b" using val by (simp add: box_valid_def)
    then have "miRectIn_loop p (bx1 p) y partIn partOut (b # rest) =
        miRectIn_loop p (bx1 p) (by1 b) partIn True (b # rest)"
      using down by (simp add: Let_def)
    moreover have "rect_in_spec S p (verdict p (miRectIn_loop p (bx1 p) (by1 b) partIn True (b # rest)))"
    proof (rule miRectIn_row [OF Cons.prems(1) val Cons.prems(3) rows order.refl \<open>by1 b < by2 b\<close> _ IH])
      show "S u v = in_rects (b # rest) u v" if "INBOX p u v" "by1 b \<le> v" for u v
        using S [OF that(1)] that(2) down(1) by simp
    qed
    ultimately show ?thesis by simp
  next
    case row
    show ?thesis
      by (rule miRectIn_row [OF Cons.prems(1) val Cons.prems(3,4) row S IH])
  qed
qed

lemma miRectIn_ok:
  assumes ok: "region_ok r" and p: "box_valid p"
  shows "rect_in_spec (pixels r) p (miRectIn r p)"
proof (cases "REGION_RECTS r = [] \<or> \<not> EXTENTCHECK (extents r) p")
  case True
  let ?p = "\<lparr>extents = p, rgdata = NoData\<rparr>"
  have "region_ok ?p" using p by (simp add: region_ok_NoData box_valid_def)
  from EXTENTCHECK_pixels [OF ok this]
  have "\<not> (pixels r x y \<and> INBOX p x y)" for x y
    using True pixels_empty by (auto simp: pixels_NoData)
  then show ?thesis using True by (auto simp: miRectIn_def REGION_NUM_RECTS_def rect_in_spec_def)
next
  case False
  from ok show ?thesis
  proof (cases rule: region_ok_cases)
    case single
    then have px: "pixels r x y = INBOX (extents r) x y" for x y by (simp add: pixels_def)
    let ?e = "extents r"
    have c: "INBOX p (max (bx1 ?e) (bx1 p)) (max (by1 ?e) (by1 p)) \<and> INBOX ?e (max (bx1 ?e) (bx1 p)) (max (by1 ?e) (by1 p))"
      using False p region_ok_NoData [OF single(1)] ok by (auto simp: EXTENTCHECK_def INBOX_def box_valid_def)
    have "\<not> SUBSUMES ?e p \<Longrightarrow> \<exists>x y. INBOX p x y \<and> \<not> INBOX ?e x y"
      using p exI [of _ "bx1 p"] exI [of _ "by1 p"] exI [of _ "bx2 p - 1"] exI [of _ "by2 p - 1"]
      by (force simp: SUBSUMES_def INBOX_def box_valid_def not_le)
    moreover have "SUBSUMES ?e p \<Longrightarrow> INBOX p x y \<Longrightarrow> INBOX ?e x y" for x y
      by (auto simp: SUBSUMES_def INBOX_def)
    ultimately show ?thesis
      using False single c by (auto simp: miRectIn_def REGION_NUM_RECTS_def rect_in_spec_def px Let_def)
  next
    case (many s rs)
    have start: "rows_done (pixels r) p (by1 p) False False" using p by (auto simp: rows_done_def box_valid_def)
    have "rect_in_spec (pixels r) p (verdict p (miRectIn_loop p (bx1 p) (by1 p) False False (REGION_RECTS r)))"
      using miRectIn_loop_correct [OF wf_rects_sorted wf_rects_valid p start] region_ok_wf [OF ok]
      by (simp add: pixels_def)
    then show ?thesis
      using many False by (auto simp: miRectIn_def REGION_NUM_RECTS_def verdict_def Let_def split: prod.splits)
  qed (use False in simp)
qed

section \<open>miRegionsEqual and miValidRegion\<close>

lemma rects_equal_iff: "length as = length bs \<Longrightarrow> rects_equal as bs \<longleftrightarrow> as = bs"
  by (induction as bs rule: rects_equal.induct) (auto intro: box_eqI)

lemma miRegionsEqual_iff: "miRegionsEqual r1 r2 \<longleftrightarrow> extents r1 = extents r2 \<and> REGION_RECTS r1 = REGION_RECTS r2"
  using rects_equal_iff [of "REGION_RECTS r1" "REGION_RECTS r2"]
  by (auto simp: miRegionsEqual_def REGION_NUM_RECTS_def intro: box_eqI)

lemma region_ok_unique:
  assumes "region_ok r1" "region_ok r2" "\<And>x y. pixels r1 x y = pixels r2 x y"
  shows "REGION_RECTS r1 = REGION_RECTS r2"
  using wf_rects_unique [OF region_ok_wf region_ok_wf, OF assms(1,2)] assms(3) by (simp add: pixels_def)

lemma miRegionsEqual_ok:
  assumes "region_ok r1" "region_ok r2" "\<exists>x y. pixels r1 x y"
  shows "miRegionsEqual r1 r2 \<longleftrightarrow> (\<forall>x y. pixels r1 x y = pixels r2 x y)"
proof
  show "miRegionsEqual r1 r2 \<Longrightarrow> \<forall>x y. pixels r1 x y = pixels r2 x y"
    by (simp add: miRegionsEqual_iff pixels_def)
  assume eq: "\<forall>x y. pixels r1 x y = pixels r2 x y"
  then have r: "REGION_RECTS r1 = REGION_RECTS r2" using region_ok_unique assms(1,2) by blast
  moreover have "REGION_RECTS r1 \<noteq> []" using assms(3) pixels_empty by auto
  ultimately have "extents r1 = extents r2"
    using tight_unique tight_cong region_ok_tight assms(1,2) eq by metis
  then show "miRegionsEqual r1 r2" using r by (simp add: miRegionsEqual_iff)
qed

lemma miValidRegion_loop_ok:
  "sorted_wrt box_before (a # rs) \<Longrightarrow> list_all box_valid (a # rs) \<Longrightarrow>
     miValidRegion_loop bx a rs = Some (setExtents_loop bx rs)"
proof (induction rs arbitrary: a bx)
  case (Cons c rs)
  have "sorted_wrt box_before (c # rs)" "list_all box_valid (c # rs)" using Cons.prems by auto
  note IH = Cons.IH [OF this]
  have "box_before a c" "box_valid a" "box_valid c" using Cons.prems by auto
  then have c: "\<not> (bx1 c \<ge> bx2 c \<or> by1 c \<ge> by2 c)"
    "\<not> (by1 c < by1 a \<or> (by1 c = by1 a \<and> (bx1 c < bx2 a \<or> by2 c \<noteq> by2 a)))"
    unfolding box_before_def box_valid_def by linarith+
  show ?case by (simp only: miValidRegion_loop.simps setExtents_loop.simps Let_def c if_False IH)
qed simp

lemma setExtents_loop_first:
  "setExtents_loop e (b # rs) = setExtents_loop e rs" if "bx1 e \<le> bx1 b" "bx2 b \<le> bx2 e"
  using that by (simp add: Let_def)

lemma miValidRegion_ok:
  assumes "region_ok r"
  shows "miValidRegion r"
  using assms
proof (cases rule: region_ok_cases)
  case empty
  then show ?thesis by (simp add: miValidRegion_def Let_def degenerate_def)
next
  case single
  then have "bx1 (extents r) < bx2 (extents r)" "by1 (extents r) < by2 (extents r)"
    using assms region_ok_NoData by auto
  then show ?thesis using single by (simp add: miValidRegion_def Let_def)
next
  case (many s rs)
  note wf = region_ok_wf [OF assms, unfolded many(2)]
  obtain a as where rs: "rs = a # as" "as \<noteq> []" using many(3) by (cases rs; cases "tl rs") auto
  let ?e = "mkbox (bx1 a) (by1 a) (bx2 (last rs)) (by2 (last rs))"
  have ne: "REGION_RECTS r \<noteq> []" using many by auto
  have t: "tight (extents r) (in_rects rs)"
    using region_ok_tight [OF assms ne] many(2) by (simp add: pixels_def [abs_def])
  have e: "extents r = setExtents_loop ?e rs"
    using tight_unique [OF t] miSetExtents_tight [OF wf] rs by simp
  have "a\<lparr>by2 := by2 (last rs)\<rparr> = mkbox (bx1 a) (by1 a) (bx2 a) (by2 (last rs))" by (simp add: box_eqI)
  moreover have "setExtents_loop (mkbox (bx1 a) (by1 a) (bx2 a) (by2 (last rs))) as = extents r"
  proof -
    let ?s = "setExtents_loop (mkbox (bx1 a) (by1 a) (bx2 a) (by2 (last rs))) as"
    have "bx1 ?s = bx1 (extents r) \<and> bx2 ?s = bx2 (extents r)"
      using setExtents_loop_bounds [of "mkbox (bx1 a) (by1 a) (bx2 a) (by2 (last rs))" as]
        setExtents_loop_attained [of "mkbox (bx1 a) (by1 a) (bx2 a) (by2 (last rs))" as]
        setExtents_loop_bounds [of ?e rs] setExtents_loop_attained [of ?e rs] last_in_set [of rs]
      unfolding e by (auto simp: rs intro!: antisym)
    then show ?thesis unfolding e by (auto intro!: box_eqI simp: setExtents_loop_y)
  qed
  ultimately have "miValidRegion_loop (a\<lparr>by2 := by2 (last rs)\<rparr>) a as = Some (extents r)"
    using miValidRegion_loop_ok wf_rects_sorted [OF wf] wf_rects_valid [OF wf] rs by metis
  moreover have "bx1 (extents r) < bx2 (extents r)" "by1 (extents r) < by2 (extents r)" using tight_nonempty [OF t] by auto
  ultimately show ?thesis using many rs by (simp add: miValidRegion_def Let_def)
qed

section \<open>miFindMaxBand\<close>

function miFindMaxBand_loop :: "nat \<Rightarrow> box list \<Rightarrow> nat" where
  "miFindMaxBand_loop nMaxBand rs =
     (if rs = [] then nMaxBand
      else
        let nThisBand = length (fst (FindBand rs)) in
        miFindMaxBand_loop (if nThisBand > nMaxBand then nThisBand else nMaxBand) (snd (FindBand rs)))"
  by pat_completeness auto
termination
  by (relation "measure (\<lambda>(n, rs). length rs)") (auto simp: FindBand_rest_less)

definition miFindMaxBand :: "region \<Rightarrow> nat" where
  "miFindMaxBand prgn = miFindMaxBand_loop 0 (REGION_RECTS prgn)"

declare miFindMaxBand_loop.simps [simp del]

lemma miFindMaxBand_loop_bands:
  "miFindMaxBand_loop n rs = foldl max n (map (\<lambda>bd. length (snd (snd bd))) (bands_of rs))"
proof (induction n rs rule: miFindMaxBand_loop.induct)
  case (1 n rs)
  show ?case
    using "1.IH" by (cases rs) (auto simp: miFindMaxBand_loop.simps [of n] Let_def max_def)
qed

text \<open>The most rectangles a scanline of the region has, computed from its bands.\<close>

lemma miFindMaxBand_eq:
  "miFindMaxBand r = foldl max 0 (map (\<lambda>bd. length (snd (snd bd))) (bands_of (REGION_RECTS r)))"
  by (simp add: miFindMaxBand_def miFindMaxBand_loop_bands)

end
