(* ===== verification/RegionTranslate.thy ===== *)
theory RegionTranslate
  imports RegionInv
begin

text \<open>
  \<open>miTranslateRegion\<close> of \<open>region/x11region.c\<close>. The new coordinates are computed as
  \<open>int\<close> and stored as \<open>short\<close>; the range tests OR together the four distances to the
  limits and look at the sign of the result, as the code does.
\<close>

unbundle bit_operations_syntax

section \<open>The code\<close>

definition MAXSHORT :: int where "MAXSHORT = 32767"

definition MINSHORT :: int where "MINSHORT = - MAXSHORT"

definition all_inside :: "int \<Rightarrow> int \<Rightarrow> int \<Rightarrow> int \<Rightarrow> bool" where
  "all_inside x1 y1 x2 y2 \<longleftrightarrow>
     ((x1 - MINSHORT) OR (y1 - MINSHORT) OR (MAXSHORT - x2) OR (MAXSHORT - y2)) \<ge> 0"

definition all_outside :: "int \<Rightarrow> int \<Rightarrow> int \<Rightarrow> int \<Rightarrow> bool" where
  "all_outside x1 y1 x2 y2 \<longleftrightarrow>
     ((x2 - MINSHORT) OR (y2 - MINSHORT) OR (MAXSHORT - x1) OR (MAXSHORT - y1)) \<le> 0"

definition store_box :: "int \<Rightarrow> int \<Rightarrow> int \<Rightarrow> int \<Rightarrow> box" where
  "store_box x1 y1 x2 y2 = mkbox (to_short x1) (to_short y1) (to_short x2) (to_short y2)"

definition clip_box :: "int \<Rightarrow> int \<Rightarrow> int \<Rightarrow> int \<Rightarrow> box \<Rightarrow> box" where
  "clip_box x1 y1 x2 y2 b =
     (let b = (if x1 < MINSHORT then b\<lparr>bx1 := MINSHORT\<rparr>
               else if x2 > MAXSHORT then b\<lparr>bx2 := MAXSHORT\<rparr> else b)
      in if y1 < MINSHORT then b\<lparr>by1 := MINSHORT\<rparr>
         else if y2 > MAXSHORT then b\<lparr>by2 := MAXSHORT\<rparr> else b)"

fun translate_loop :: "int \<Rightarrow> int \<Rightarrow> box list \<Rightarrow> box list" where
  "translate_loop x y [] = []"
| "translate_loop x y (pbox # rest) =
     (let x1 = bx1 pbox + x; y1 = by1 pbox + y; x2 = bx2 pbox + x; y2 = by2 pbox + y in
      if all_outside x1 y1 x2 y2 then translate_loop x y rest
      else clip_box x1 y1 x2 y2 (store_box x1 y1 x2 y2) # translate_loop x y rest)"

definition miTranslateRegion :: "region \<Rightarrow> int \<Rightarrow> int \<Rightarrow> region" where
  "miTranslateRegion pReg x y =
     (let e = extents pReg;
          x1 = bx1 e + x; y1 = by1 e + y; x2 = bx2 e + x; y2 = by2 e + y;
          pReg = pReg\<lparr>extents := store_box x1 y1 x2 y2\<rparr>;
          rs = data_rects (rgdata pReg)
      in
      if all_inside x1 y1 x2 y2 then
        (if rs \<noteq> []
         then set_rects pReg
                (map (\<lambda>b. store_box (bx1 b + x) (by1 b + y) (bx2 b + x) (by2 b + y)) rs)
         else pReg)
      else if all_outside x1 y1 x2 y2 then
        pReg\<lparr>extents := (extents pReg)\<lparr>bx2 := bx1 (extents pReg), by2 := by1 (extents pReg)\<rparr>,
             rgdata := EmptyData\<rparr>
      else
        let pReg = pReg\<lparr>extents := clip_box x1 y1 x2 y2 (extents pReg)\<rparr> in
        if rs \<noteq> [] then
          (let out = translate_loop x y rs; pReg = set_rects pReg out in
           if length out \<noteq> length rs then
             (if length out = 1
              then pReg\<lparr>extents := hd out, rgdata := NoData\<rparr>
              else miSetExtents pReg)
           else pReg)
        else pReg)"

section \<open>The sign tests\<close>

lemma or_nonneg_iff [simp]: "(a::int) OR b \<ge> 0 \<longleftrightarrow> a \<ge> 0 \<and> b \<ge> 0"
  by (rule or_nonnegative_int_iff)

lemma all_inside_iff:
  "all_inside x1 y1 x2 y2 \<longleftrightarrow> MINSHORT \<le> x1 \<and> MINSHORT \<le> y1 \<and> x2 \<le> MAXSHORT \<and> y2 \<le> MAXSHORT"
  by (auto simp: all_inside_def)

lemma or_nonpos_iff: "(a::int) OR b \<le> 0 \<longleftrightarrow> a < 0 \<or> b < 0 \<or> a = 0 \<and> b = 0"
  using or_nonneg_iff [of a b] or_eq_0_iff [of a b] by linarith

text \<open>
  The test for \<open>outside\<close> misses a box that touches the limit: a zero distance does not make
  the OR zero.
\<close>

lemma all_outside_iff:
  assumes "x1 \<le> x2" "y1 \<le> y2"
  shows "all_outside x1 y1 x2 y2 \<longleftrightarrow> x2 < MINSHORT \<or> y2 < MINSHORT \<or> MAXSHORT < x1 \<or> MAXSHORT < y1"
  using assms
  by (auto simp: all_outside_def or_nonpos_iff or_eq_0_iff MINSHORT_def MAXSHORT_def)

section \<open>Moving canonical rectangles\<close>

definition shift_box :: "int \<Rightarrow> int \<Rightarrow> box \<Rightarrow> box" where
  "shift_box dx dy b = mkbox (bx1 b + dx) (by1 b + dy) (bx2 b + dx) (by2 b + dy)"

definition shift_ivs :: "int \<Rightarrow> iv list \<Rightarrow> iv list" where
  "shift_ivs dx vs = map (\<lambda>(a, b). (a + dx, b + dx)) vs"

definition shift_band :: "int \<Rightarrow> int \<Rightarrow> band \<Rightarrow> band" where
  "shift_band dx dy bd = (case bd of (t, b, vs) \<Rightarrow> (t + dy, b + dy, shift_ivs dx vs))"

lemma shift_ivs_simps [simp]:
  "shift_ivs dx [] = []" "shift_ivs dx ((a, b) # vs) = (a + dx, b + dx) # shift_ivs dx vs"
  "shift_ivs dx vs = [] \<longleftrightarrow> vs = []"
  by (simp_all add: shift_ivs_def)

lemma shift_ivs_inj [simp]: "shift_ivs dx vs = shift_ivs dx ws \<longleftrightarrow> vs = ws"
proof -
  have "inj (\<lambda>(a, b). (a + dx, b + dx) :: int \<times> int)" by (auto simp: inj_def)
  then show ?thesis by (simp add: shift_ivs_def inj_map_eq_map)
qed

lemma shift_iv_from [simp]: "iv_from (l + dx) (shift_ivs dx vs) \<longleftrightarrow> iv_from l vs"
  by (induction l vs rule: iv_from.induct) auto

lemma shift_iv_ok [simp]: "iv_ok (shift_ivs dx vs) \<longleftrightarrow> iv_ok vs"
  by (cases vs rule: iv_ok.cases) auto

lemma shift_canon_from:
  "canon_from (y + dy) (shift_ivs dx p) (map (shift_band dx dy) bs) \<longleftrightarrow> canon_from y p bs"
  by (induction y p bs rule: canon_from.induct) (auto simp: shift_band_def)

lemma shift_canon: "canon (map (shift_band dx dy) bs) \<longleftrightarrow> canon bs"
  using shift_canon_from [of _ dy dx] by (cases bs rule: canon.cases) (auto simp: shift_band_def)

lemma shift_flat: "flat (map (shift_band dx dy) bs) = map (shift_box dx dy) (flat bs)"
proof (induction bs)
  case (Cons bd bs)
  obtain t b vs where bd: "bd = (t, b, vs)" by (cases bd)
  have "band_boxes (shift_band dx dy (t, b, vs)) = map (shift_box dx dy) (band_boxes (t, b, vs))"
    by (auto simp: shift_band_def band_boxes_def shift_ivs_def shift_box_def)
  with Cons bd show ?case by simp
qed simp

lemma shift_wf: "wf_rects rs \<Longrightarrow> wf_rects (map (shift_box dx dy) rs)"
  by (metis shift_canon shift_flat wf_rects_flat wf_rects_obtain)

lemma shift_in: "INBOX (shift_box dx dy b) x y \<longleftrightarrow> INBOX b (x - dx) (y - dy)"
  by (auto simp: INBOX_def shift_box_def)

lemma shift_in_rects: "in_rects (map (shift_box dx dy) rs) x y \<longleftrightarrow> in_rects rs (x - dx) (y - dy)"
  by (simp add: in_rects_set shift_in)

lemma shift_tight: "tight e S \<Longrightarrow> tight (shift_box dx dy e) (\<lambda>x y. S (x - dx) (y - dy))"
  unfolding tight_def shift_in
  by (auto simp: shift_box_def algebra_simps)
    (metis add.commute add_diff_cancel diff_add_eq diff_diff_eq2)+

text \<open>Every rectangle lies within the extents.\<close>

lemma region_ok_within:
  assumes "region_ok r" "b \<in> set (REGION_RECTS r)"
  shows "SUBSUMES (extents r) b" "bx1 b < bx2 b" "by1 b < by2 b"
proof -
  note v = wf_rects_box [OF region_ok_wf [OF assms(1)] assms(2)]
  then show "bx1 b < bx2 b" "by1 b < by2 b" by auto
  have "INBOX (extents r) (bx1 b) (by1 b)" "INBOX (extents r) (bx2 b - 1) (by2 b - 1)"
    using in_rects_corners [OF assms(2)] v pixels_extents [OF assms(1)] by (auto simp: pixels_def)
  then show "SUBSUMES (extents r) b" by (auto simp: INBOX_def SUBSUMES_def)
qed

section \<open>Translation within the coordinate range\<close>

lemma to_short_range: "MINSHORT \<le> v \<Longrightarrow> v \<le> MAXSHORT \<Longrightarrow> to_short v = v"
  by (simp add: MINSHORT_def MAXSHORT_def is_short_def)

lemma store_box_shift:
  assumes "SUBSUMES e b" "bx1 b \<le> bx2 b" "by1 b \<le> by2 b"
    "all_inside (bx1 e + dx) (by1 e + dy) (bx2 e + dx) (by2 e + dy)"
  shows "store_box (bx1 b + dx) (by1 b + dy) (bx2 b + dx) (by2 b + dy) = shift_box dx dy b"
  using assms by (simp add: store_box_def shift_box_def all_inside_iff SUBSUMES_def to_short_range)

lemma miTranslateRegion_inside:
  assumes ok: "region_ok r"
    and ins: "all_inside (bx1 (extents r) + dx) (by1 (extents r) + dy) (bx2 (extents r) + dx) (by2 (extents r) + dy)"
  shows "region_ok (miTranslateRegion r dx dy) \<and>
    REGION_RECTS (miTranslateRegion r dx dy) = map (shift_box dx dy) (REGION_RECTS r) \<and>
    extents (miTranslateRegion r dx dy) = shift_box dx dy (extents r)"
proof -
  let ?t = "miTranslateRegion r dx dy" and ?e = "extents r"
  have e: "store_box (bx1 ?e + dx) (by1 ?e + dy) (bx2 ?e + dx) (by2 ?e + dy) = shift_box dx dy ?e"
    using store_box_shift [OF _ region_ok_extents [OF ok] ins] by (simp add: SUBSUMES_def)
  have b: "store_box (bx1 b + dx) (by1 b + dy) (bx2 b + dx) (by2 b + dy) = shift_box dx dy b"
    if "b \<in> set (REGION_RECTS r)" for b
    using store_box_shift [OF _ _ _ ins] region_ok_within [OF ok that] by simp
  have exts: "extents ?t = shift_box dx dy ?e"
    using ins by (simp add: miTranslateRegion_def Let_def e set_rects_def)
  have rects: "region_shape ?t \<and> REGION_RECTS ?t = map (shift_box dx dy) (REGION_RECTS r)"
    using ok
  proof (cases rule: region_ok_cases)
    case (many s rs)
    have "map (\<lambda>b. store_box (bx1 b + dx) (by1 b + dy) (bx2 b + dx) (by2 b + dy)) rs = map (shift_box dx dy) rs"
      using b many(2) by simp
    then have "rgdata ?t = RegData s (map (shift_box dx dy) rs)"
      using ins many by (auto simp: miTranslateRegion_def Let_def set_rects_def)
    with many show ?thesis by (simp add: region_shape_def REGION_RECTS_def)
  qed (use ins e in \<open>auto simp: miTranslateRegion_def Let_def region_shape_def REGION_RECTS_def\<close>)
  have px: "pixels ?t = (\<lambda>x y. pixels r (x - dx) (y - dy))"
    by (intro ext) (simp add: pixels_def rects shift_in_rects)
  have "region_ok ?t"
    using ok shift_tight [of ?e "pixels r" dx dy] shift_wf [OF region_ok_wf [OF ok]]
    by (auto simp: region_ok_def rects exts px degenerate_def shift_box_def)
  with rects exts show ?thesis by blast
qed

section \<open>Clipping at the coordinate range\<close>

text \<open>The pixels a region can hold after a translation: those of the box from \<open>MINSHORT\<close> to \<open>MAXSHORT\<close>.\<close>

definition range_box :: box where
  "range_box = mkbox MINSHORT MINSHORT MAXSHORT MAXSHORT"

definition short_box :: "box \<Rightarrow> bool" where
  "short_box b \<longleftrightarrow> is_short (bx1 b) \<and> is_short (by1 b) \<and> is_short (bx2 b) \<and> is_short (by2 b)"

lemma clip_box_sel:
  "bx1 (clip_box x1 y1 x2 y2 b) = (if x1 < MINSHORT then MINSHORT else bx1 b)"
  "bx2 (clip_box x1 y1 x2 y2 b) = (if x1 < MINSHORT then bx2 b else if x2 > MAXSHORT then MAXSHORT else bx2 b)"
  "by1 (clip_box x1 y1 x2 y2 b) = (if y1 < MINSHORT then MINSHORT else by1 b)"
  "by2 (clip_box x1 y1 x2 y2 b) = (if y1 < MINSHORT then by2 b else if y2 > MAXSHORT then MAXSHORT else by2 b)"
  by (simp_all add: clip_box_def Let_def)

lemma clip_box_in:
  assumes "short_box b" "bx1 b \<le> bx2 b" "by1 b \<le> by2 b"
    "\<not> all_outside (bx1 b + dx) (by1 b + dy) (bx2 b + dx) (by2 b + dy)"
  shows "INBOX (clip_box (bx1 b + dx) (by1 b + dy) (bx2 b + dx) (by2 b + dy)
           (store_box (bx1 b + dx) (by1 b + dy) (bx2 b + dx) (by2 b + dy))) x y \<longleftrightarrow>
         INBOX b (x - dx) (y - dy) \<and> INBOX range_box x y"
proof -
  have o: "MINSHORT \<le> bx2 b + dx" "MINSHORT \<le> by2 b + dy" "bx1 b + dx \<le> MAXSHORT" "by1 b + dy \<le> MAXSHORT"
    using assms(4) all_outside_iff [of "bx1 b + dx" "bx2 b + dx" "by1 b + dy" "by2 b + dy"] assms(2,3) by auto
  have w: "bx2 b \<le> bx1 b + 65535" "by2 b \<le> by1 b + 65535"
    using assms(1) by (auto simp: short_box_def is_short_def)
  have clip: "(if v < MINSHORT then MINSHORT else to_short v) = max MINSHORT v"
    "(if v < MINSHORT then to_short w else if w > MAXSHORT then MAXSHORT else to_short w) = min MAXSHORT w"
    if "v \<le> w" "MINSHORT \<le> w" "v \<le> MAXSHORT" "w \<le> v + 65535" for v w
    using that to_short_range [of v] to_short_range [of w] by (auto simp: max_def min_def MINSHORT_def MAXSHORT_def)
  have "clip_box (bx1 b + dx) (by1 b + dy) (bx2 b + dx) (by2 b + dy)
           (store_box (bx1 b + dx) (by1 b + dy) (bx2 b + dx) (by2 b + dy)) =
        mkbox (max MINSHORT (bx1 b + dx)) (max MINSHORT (by1 b + dy))
              (min MAXSHORT (bx2 b + dx)) (min MAXSHORT (by2 b + dy))"
    using clip [of "bx1 b + dx" "bx2 b + dx"] clip [of "by1 b + dy" "by2 b + dy"] o w assms(2,3)
    by (intro box_eqI) (simp_all only: clip_box_sel store_box_def mkbox_sel)
  then show ?thesis by (auto simp: INBOX_def range_box_def)
qed

lemma all_outside_none:
  assumes "bx1 b \<le> bx2 b" "by1 b \<le> by2 b" "all_outside (bx1 b + dx) (by1 b + dy) (bx2 b + dx) (by2 b + dy)"
  shows "\<not> (INBOX b (x - dx) (y - dy) \<and> INBOX range_box x y)"
  using assms all_outside_iff [of "bx1 b + dx" "bx2 b + dx" "by1 b + dy" "by2 b + dy"]
  by (auto simp: INBOX_def range_box_def)

lemma translate_loop_in:
  assumes "\<And>b. b \<in> set rs \<Longrightarrow> short_box b \<and> bx1 b \<le> bx2 b \<and> by1 b \<le> by2 b"
  shows "in_rects (translate_loop dx dy rs) x y \<longleftrightarrow> in_rects rs (x - dx) (y - dy) \<and> INBOX range_box x y"
  using assms
proof (induction rs)
  case (Cons b rs)
  show ?case
    using Cons clip_box_in [of b dx dy x y] all_outside_none [of b dx dy x y]
    by (auto simp: Let_def)
qed simp

lemma SUBSUMES_short: "SUBSUMES e b \<Longrightarrow> short_box e \<Longrightarrow> bx1 b < bx2 b \<Longrightarrow> by1 b < by2 b \<Longrightarrow> short_box b"
  by (auto simp: SUBSUMES_def short_box_def is_short_def)

text \<open>
  Whatever the displacement, the rectangles of the result contain exactly the moved pixels
  that are in range.
\<close>

lemma miTranslateRegion_pixels:
  assumes ok: "region_ok r" and short: "short_box (extents r)"
  shows "pixels (miTranslateRegion r dx dy) x y \<longleftrightarrow> pixels r (x - dx) (y - dy) \<and> INBOX range_box x y"
proof -
  let ?t = "miTranslateRegion r dx dy" and ?e = "extents r"
  let ?x1 = "bx1 ?e + dx" and ?y1 = "by1 ?e + dy" and ?x2 = "bx2 ?e + dx" and ?y2 = "by2 ?e + dy"
  note e = region_ok_extents [OF ok]
  consider (ins) "all_inside ?x1 ?y1 ?x2 ?y2"
    | (out) "\<not> all_inside ?x1 ?y1 ?x2 ?y2" "all_outside ?x1 ?y1 ?x2 ?y2"
    | (clip) "\<not> all_inside ?x1 ?y1 ?x2 ?y2" "\<not> all_outside ?x1 ?y1 ?x2 ?y2" by blast
  then show ?thesis
  proof cases
    case ins
    have "INBOX range_box x y" if "pixels r (x - dx) (y - dy)"
      using pixels_extents [OF ok that] ins by (auto simp: INBOX_def range_box_def all_inside_iff)
    then show ?thesis
      using miTranslateRegion_inside [OF ok ins] by (auto simp: pixels_def shift_in_rects)
  next
    case out
    then have "REGION_RECTS ?t = []" by (simp add: miTranslateRegion_def Let_def REGION_RECTS_def)
    then show ?thesis
      using all_outside_none [OF e out(2), of x y] pixels_extents [OF ok] by (auto simp: pixels_def)
  next
    case clip
    show ?thesis using ok
    proof (cases rule: region_ok_cases)
      case single
      then show ?thesis
        using clip_box_in [OF short e clip(2), of x y] clip
        by (simp add: miTranslateRegion_def Let_def pixels_def REGION_RECTS_def)
    next
      case (many s rs)
      have "short_box b \<and> bx1 b \<le> bx2 b \<and> by1 b \<le> by2 b" if "b \<in> set rs" for b
        using region_ok_within [OF ok, of b] SUBSUMES_short [OF _ short, of b] that many(2) by simp
      then have "in_rects (translate_loop dx dy rs) x y \<longleftrightarrow> in_rects rs (x - dx) (y - dy) \<and> INBOX range_box x y"
        by (rule translate_loop_in)
      moreover have "REGION_RECTS ?t = translate_loop dx dy rs"
        using clip many
        by (cases "translate_loop dx dy rs")
          (auto simp: miTranslateRegion_def Let_def REGION_RECTS_def set_rects_def miSetExtents_def)
      ultimately show ?thesis by (simp add: pixels_def many(2))
    qed (use clip in \<open>simp add: miTranslateRegion_def Let_def pixels_def REGION_RECTS_def\<close>)
  qed
qed

end
