(* ===== verification/RegionSamples.thy ===== *)
theory RegionSamples
  imports RegionQuery RegionTranslate
begin

text \<open>
  Concrete regions on which the properties are applied: a single rectangle, an L-shaped
  region with a heap block, and an empty one.
\<close>

definition sample_box :: region where
  "sample_box = \<lparr>extents = mkbox 3 3 20 8, rgdata = NoData\<rparr>"

definition sample_L :: region where
  "sample_L = \<lparr>extents = mkbox 0 0 10 10, rgdata = RegData 4 [mkbox 0 0 5 5, mkbox 0 5 10 10]\<rparr>"

definition sample_empty :: region where
  "sample_empty = \<lparr>extents = mkbox 7 7 7 7, rgdata = EmptyData\<rparr>"

lemma sample_box_ok: "region_ok sample_box"
  by (simp add: sample_box_def region_ok_NoData)

lemma sample_empty_ok: "region_ok sample_empty"
  by (simp add: sample_empty_def region_ok_EmptyData degenerate_def)

lemma sample_L_ok: "region_ok sample_L"
proof -
  have "tight (mkbox 0 0 10 10) (pixels sample_L)"
    by (auto simp: tight_def pixels_def sample_L_def REGION_RECTS_def INBOX_def intro: exI [of _ 0] exI [of _ 9])
  then show ?thesis
    by (simp add: region_ok_def sample_L_def region_shape_def REGION_RECTS_def wf_rects_def)
qed

text \<open>A store with the three regions at addresses 0, 1 and 2.\<close>

definition sample_store :: "nat \<Rightarrow> region" where
  "sample_store a = (if a = 0 then sample_L else if a = 1 then sample_box else sample_empty)"

lemma sample_store_ok: "region_ok (sample_store a)"
  by (simp add: sample_store_def sample_L_ok sample_box_ok sample_empty_ok)

definition always :: allocator where
  "always n = True"

lemma always_ok: "alloc_ok always"
  by (simp add: alloc_ok_def always_def)

end
