(* ===== verification/RegionSort.thy ===== *)
theory RegionSort
  imports RegionData "HOL-Library.Product_Lexorder"
begin

text \<open>
  The quicksort of \<open>region/x11region.c\<close>: \<open>QuickSortRects\<close> sorts the rectangles of a
  region by top and left edge, \<open>QuickSortSpans\<close> sorts scanlines by their row. Both share one
  partition loop, here with the comparison as a parameter; an array segment that starts at
  the pointer passed is a list.
\<close>

section \<open>The partition loop\<close>

definition exchange :: "'a list \<Rightarrow> nat \<Rightarrow> nat \<Rightarrow> 'a list" where
  "exchange a i j = a[i := a ! j, j := a ! i]"

text \<open>
  \<open>do { r++; i++; } while (i != n && *r < p)\<close>, entered with \<open>i < n\<close>; and
  \<open>do { r--; j--; } while (p < *r)\<close>, which the pivot at index 0 stops.
\<close>

function scan_up :: "('a \<Rightarrow> 'a \<Rightarrow> bool) \<Rightarrow> 'a \<Rightarrow> 'a list \<Rightarrow> nat \<Rightarrow> nat" where
  "scan_up lt p a i = (if i + 1 < length a \<and> lt (a ! (i + 1)) p then scan_up lt p a (i + 1) else i + 1)"
  by pat_completeness auto
termination
  by (relation "measure (\<lambda>(lt, p, a, i). length a - i)") auto

declare scan_up.simps [simp del]

fun scan_down :: "('a \<Rightarrow> 'a \<Rightarrow> bool) \<Rightarrow> 'a \<Rightarrow> 'a list \<Rightarrow> nat \<Rightarrow> nat" where
  "scan_down lt p a 0 = 0"
| "scan_down lt p a (Suc j) = (if lt p (a ! j) then scan_down lt p a j else j)"

lemma scan_down_less: "0 < j \<Longrightarrow> scan_down lt p a j < j"
proof (induction j)
  case (Suc j)
  then show ?case by (cases j) (auto intro: less_SucI)
qed simp

function part_loop :: "('a \<Rightarrow> 'a \<Rightarrow> bool) \<Rightarrow> 'a \<Rightarrow> 'a list \<Rightarrow> nat \<Rightarrow> nat \<Rightarrow> 'a list \<times> nat" where
  "part_loop lt p a i j =
     (let i = scan_up lt p a i; j = scan_down lt p a j in
      if i < j then part_loop lt p (exchange a i j) i j else (a, j))"
  by pat_completeness auto
termination
proof (relation "measure (\<lambda>(lt, p, a, i, j). j)", goal_cases)
  case (2 lt p a i j i' j')
  then have "0 < j" by (cases j) auto
  then show ?case using 2 scan_down_less [of j lt p a] by simp
qed simp

declare part_loop.simps [simp del]

text \<open>The pivot, already at index 0, is moved back to the middle at the end.\<close>

definition partition_at :: "('a \<Rightarrow> 'a \<Rightarrow> bool) \<Rightarrow> 'a list \<Rightarrow> 'a list \<times> nat" where
  "partition_at lt a = (case part_loop lt (a ! 0) a 0 (length a) of (a, j) \<Rightarrow> (exchange a 0 j, j))"

lemma length_exchange [simp]: "length (exchange a i j) = length a"
  by (simp add: exchange_def)

lemma part_loop_step:
  "i' = scan_up lt p a i \<Longrightarrow> j' = scan_down lt p a j \<Longrightarrow>
     part_loop lt p a i j = (if i' < j' then part_loop lt p (exchange a i' j') i' j' else (a, j'))"
  by (subst part_loop.simps) (simp only: Let_def)

lemma part_loop_shape:
  "length (fst (part_loop lt p a i j)) = length a \<and> snd (part_loop lt p a i j) \<le> j - 1"
proof (induction j arbitrary: a i rule: less_induct)
  case (less j)
  define i' j' where "i' = scan_up lt p a i" and "j' = scan_down lt p a j"
  have d: "j' \<le> j - 1" using scan_down_less [of j lt p a] by (cases j) (auto simp: j'_def)
  note step = part_loop_step [OF i'_def j'_def]
  show ?case
  proof (cases "i' < j'")
    case True
    then have "j' < j" using d by simp
    from less.IH [OF this, of "exchange a i' j'" i'] show ?thesis
      using True d by (auto simp: step)
  next
    case False
    then show ?thesis using d by (simp add: step)
  qed
qed

lemma partition_at_shape:
  assumes "partition_at lt a = (b, j)"
  shows "length b = length a" "j \<le> length a - 1"
  using part_loop_shape [of lt "a ! 0" a 0 "length a"] assms
  by (auto simp: partition_at_def split: prod.splits)

section \<open>QuickSortRects\<close>

definition rect_less :: "box \<Rightarrow> box \<Rightarrow> bool" where
  "rect_less a b \<longleftrightarrow> by1 a < by1 b \<or> (by1 a = by1 b \<and> bx1 a < bx1 b)"

function QuickSortRects :: "box list \<Rightarrow> box list" where
  "QuickSortRects rects =
     (let n = length rects in
      if n = 2 then
        (if by1 (rects ! 0) > by1 (rects ! 1) \<or>
            (by1 (rects ! 0) = by1 (rects ! 1) \<and> bx1 (rects ! 0) > bx1 (rects ! 1))
         then exchange rects 0 1 else rects)
      else
        let (a, j) = partition_at rect_less (exchange rects 0 (n div 2));
            right = (if n - j - 1 > 1 then QuickSortRects (drop (j + 1) a) else drop (j + 1) a);
            left = (if j > 1 then QuickSortRects (take j a) else take j a)
        in left @ [a ! j] @ right)"
  by pat_completeness auto
termination
proof (relation "measure length", goal_cases)
  case (2 rects n a b j)
  then have "length b = length rects" "j \<le> length rects - 1"
    using partition_at_shape [of rect_less "exchange rects 0 (n div 2)" b j] by simp_all
  then show ?case using 2(1,5) by auto
next
  case (3 rects n a b j)
  then have "length b = length rects" "j \<le> length rects - 1"
    using partition_at_shape [of rect_less "exchange rects 0 (n div 2)" b j] by simp_all
  then show ?case using 3(6) by auto
qed simp

declare QuickSortRects.simps [simp del]

section \<open>Correctness of the partition\<close>

text \<open>The comparison of a sort: it compares keys of a linear order.\<close>

locale keyed_order =
  fixes lt :: "'a \<Rightarrow> 'a \<Rightarrow> bool" and key :: "'a \<Rightarrow> 'k::linorder"
  assumes lt_key: "lt a b \<longleftrightarrow> key a < key b"
begin

lemma scan_up_spec:
  assumes "i < length a"
  shows "i < scan_up lt p a i \<and> scan_up lt p a i \<le> length a \<and>
    (\<forall>k. i < k \<and> k < scan_up lt p a i \<longrightarrow> key (a ! k) \<le> key p) \<and>
    (scan_up lt p a i < length a \<longrightarrow> key p \<le> key (a ! scan_up lt p a i))"
  using assms
proof (induction "length a - i" arbitrary: i rule: less_induct)
  case less
  show ?case
  proof (cases "i + 1 < length a \<and> lt (a ! (i + 1)) p")
    case True
    have s: "scan_up lt p a i = scan_up lt p a (i + 1)" using True by (subst scan_up.simps) simp
    have "key (a ! (i + 1)) \<le> key p" using True by (auto simp: lt_key)
    moreover have IH: "i + 1 < scan_up lt p a i \<and> scan_up lt p a i \<le> length a \<and>
        (\<forall>k. i + 1 < k \<and> k < scan_up lt p a i \<longrightarrow> key (a ! k) \<le> key p) \<and>
        (scan_up lt p a i < length a \<longrightarrow> key p \<le> key (a ! scan_up lt p a i))"
    proof -
      have "length a - (i + 1) < length a - i" "i + 1 < length a" using True by auto
      then show ?thesis unfolding s by (rule less.hyps)
    qed
    moreover have "key (a ! k) \<le> key p" if "i < k" "k < scan_up lt p a i" for k
      using calculation that by (cases "k = i + 1") auto
    ultimately show ?thesis by auto
  next
    case False
    then have s: "scan_up lt p a i = i + 1" by (subst scan_up.simps) (rule if_not_P)
    show ?thesis using False less.prems unfolding s by (auto simp: lt_key not_less)
  qed
qed

lemma scan_down_spec:
  assumes "0 < j" "key (a ! 0) \<le> key p"
  shows "scan_down lt p a j < j \<and> (\<forall>k. scan_down lt p a j < k \<and> k < j \<longrightarrow> key p \<le> key (a ! k)) \<and>
    key (a ! scan_down lt p a j) \<le> key p"
  using assms(1)
proof (induction j)
  case (Suc j)
  show ?case
  proof (cases "lt p (a ! j)")
    case True
    then have "0 < j" using assms(2) by (cases j) (auto simp: lt_key)
    with Suc.IH True show ?thesis
      by (auto simp: lt_key less_Suc_eq intro: less_imp_le)
  qed (auto simp: lt_key)
qed simp

definition split_at :: "'a list \<Rightarrow> 'k \<Rightarrow> nat \<Rightarrow> bool" where
  "split_at b q m \<longleftrightarrow> m < length b \<and> (\<forall>k\<le>m. key (b ! k) \<le> q) \<and> (\<forall>k. m < k \<and> k < length b \<longrightarrow> q \<le> key (b ! k))"

lemma part_loop_spec:
  assumes "key (a ! 0) \<le> key p" "i < j" "j \<le> length a" "\<forall>k\<le>i. key (a ! k) \<le> key p"
    "\<forall>k. j \<le> k \<and> k < length a \<longrightarrow> key p \<le> key (a ! k)" "part_loop lt p a i j = (b, m)"
  shows "mset b = mset a \<and> b ! 0 = a ! 0 \<and> split_at b (key p) m"
  using assms
proof (induction j arbitrary: a i rule: less_induct)
  case (less j)
  define i' j' where "i' = scan_up lt p a i" and "j' = scan_down lt p a j"
  have ia: "i < length a" using less.prems by simp
  have up: "i < i'" "i' \<le> length a" "\<And>k. i < k \<Longrightarrow> k < i' \<Longrightarrow> key (a ! k) \<le> key p" "i' < length a \<Longrightarrow> key p \<le> key (a ! i')"
    using scan_up_spec [OF ia, of p] by (auto simp: i'_def)
  have down: "j' < j" "\<And>k. j' < k \<Longrightarrow> k < j \<Longrightarrow> key p \<le> key (a ! k)" "key (a ! j') \<le> key p"
    using scan_down_spec [of j a p] less.prems by (auto simp: j'_def)
  note step = part_loop_step [OF i'_def j'_def]
  have low: "key (a ! k) \<le> key p" if "k < i'" for k
    using that up(3) less.prems(4) by (cases "k \<le> i") auto
  have high: "key p \<le> key (a ! k)" if "j' < k" "k < length a" for k
    using that down(2) less.prems(5) by (cases "k < j") auto
  show ?case
  proof (cases "i' < j'")
    case True
    let ?a = "exchange a i' j'"
    have l: "i' < length a" "j' < length a" using True down(1) less.prems(3) by auto
    have nth: "?a ! k = (if k = i' then a ! j' else if k = j' then a ! i' else a ! k)" if "k < length a" for k
      using l that True by (auto simp: exchange_def nth_list_update)
    have ms: "mset ?a = mset a" using l by (simp add: exchange_def mset_swap)
    have h0: "?a ! 0 = a ! 0" using nth [of 0] l up(1) True by (metis gr_implies_not0 neq0_conv less_trans)
    have 1: "\<forall>k\<le>i'. key (?a ! k) \<le> key p"
    proof (intro allI impI)
      fix k assume "k \<le> i'"
      then show "key (?a ! k) \<le> key p" using nth [of k] low [of k] l(1) down(3) True by (cases "k = i'") auto
    qed
    have 2: "\<forall>k. j' \<le> k \<and> k < length ?a \<longrightarrow> key p \<le> key (?a ! k)"
    proof (intro allI impI)
      fix k assume "j' \<le> k \<and> k < length ?a"
      then show "key p \<le> key (?a ! k)" using nth [of k] high [of k] up(4) [OF l(1)] True by (cases "k = j'") auto
    qed
    have "part_loop lt p ?a i' j' = (b, m)" using less.prems(6) True by (simp add: step)
    from less.IH [OF down(1) _ True _ 1 2 this] h0 l ms less.prems(1) show ?thesis by simp
  next
    case False
    then have "b = a" "m = j'" using less.prems(6) by (simp_all add: step)
    moreover have "key (a ! k) \<le> key p" if "k \<le> j'" for k
      using that low [of k] down(3) False by (cases "k = j'") auto
    ultimately show ?thesis using high down(1) less.prems(3) by (auto simp: split_at_def)
  qed
qed

lemma partition_spec:
  assumes "a \<noteq> []" "partition_at lt a = (b, j)"
  shows "mset b = mset a \<and> split_at b (key (b ! j)) j"
proof -
  obtain c where c: "part_loop lt (a ! 0) a 0 (length a) = (c, j)" "b = exchange c 0 j"
    using assms(2) by (auto simp: partition_at_def split: prod.splits)
  have sp: "mset c = mset a" "c ! 0 = a ! 0" "split_at c (key (a ! 0)) j"
    using part_loop_spec [OF _ _ _ _ _ c(1)] assms(1) by (metis bot_nat_0.extremum_unique leD length_greater_0_conv order_refl)+
  have l: "j < length c" "0 < length c" using sp(3) by (auto simp: split_at_def)
  have nth: "b ! k = (if k = 0 then c ! j else if k = j then c ! 0 else c ! k)" if "k < length c" for k
    using l that by (auto simp: c(2) exchange_def nth_list_update)
  have bj: "b ! j = a ! 0" using nth [OF l(1)] sp(2) by auto
  have "mset b = mset c" using l by (simp add: c(2) exchange_def mset_swap)
  moreover have "split_at b (key (a ! 0)) j"
    using sp(3) nth l sp(2) by (auto simp: split_at_def c(2))
  ultimately show ?thesis using sp bj by simp
qed

lemma sorted_around:
  assumes "split_at b (key (b ! j)) j" "mset l = mset (take j b)" "mset r = mset (drop (j + 1) b)"
    "sorted (map key l)" "sorted (map key r)"
  shows "sorted (map key (l @ [b ! j] @ r)) \<and> mset (l @ [b ! j] @ r) = mset b"
proof -
  have j: "j < length b" using assms(1) by (simp add: split_at_def)
  have "x \<in> set l \<Longrightarrow> key x \<le> key (b ! j)" for x
    using assms(1) mset_eq_setD [OF assms(2)] by (auto simp: split_at_def in_set_conv_nth)
  moreover have "key (b ! j) \<le> key x" if "x \<in> set r" for x
  proof -
    have "x \<in> set (drop (j + 1) b)" using that mset_eq_setD [OF assms(3)] by simp
    then obtain k where "k < length b - (j + 1)" "x = b ! (j + 1 + k)" by (auto simp: in_set_conv_nth)
    then show ?thesis using assms(1) by (auto simp: split_at_def)
  qed
  ultimately have "sorted (map key (l @ [b ! j] @ r))"
    using assms(4,5) by (auto simp: sorted_append intro: order_trans)
  moreover have "mset b = mset (take j b @ [b ! j] @ drop (j + 1) b)"
    using j by (simp add: id_take_nth_drop [symmetric])
  ultimately show ?thesis using assms(2,3) by simp
qed

text \<open>One round of a quicksort \<open>f\<close> that sorts shorter lists.\<close>

lemma quick_step:
  assumes "a \<noteq> []" "partition_at lt a = (b, j)"
    and f: "\<And>xs. xs \<noteq> [] \<Longrightarrow> length xs < length a \<Longrightarrow> sorted (map key (f xs)) \<and> mset (f xs) = mset xs"
  defines "r \<equiv> (if length a - j - 1 > 1 then f (drop (j + 1) b) else drop (j + 1) b)"
  defines "l \<equiv> (if j > 1 then f (take j b) else take j b)"
  shows "sorted (map key (l @ [b ! j] @ r)) \<and> mset (l @ [b ! j] @ r) = mset a"
proof -
  note sp = partition_spec [OF assms(1,2)]
  have j: "j < length b" "length b = length a"
    using sp mset_eq_length by (auto simp: split_at_def)
  have short: "length xs \<le> 1 \<Longrightarrow> sorted (map key xs)" for xs by (cases xs; cases "tl xs") auto
  have "b \<noteq> []" using j by auto
  then have lr: "sorted (map key l) \<and> mset l = mset (take j b)" "sorted (map key r) \<and> mset r = mset (drop (j + 1) b)"
    using f [of "take j b"] f [of "drop (j + 1) b"] j
      short [of "take j b"] short [of "drop (j + 1) b"] by (auto simp: l_def r_def)
  show ?thesis using sorted_around [of b j l r] sp lr by simp
qed

end

definition rect_key :: "box \<Rightarrow> int \<times> int" where
  "rect_key b = (by1 b, bx1 b)"

interpretation rects: keyed_order rect_less rect_key
  by unfold_locales (auto simp: rect_less_def rect_key_def less_prod_def)

lemma QuickSortRects_sorts:
  "rs \<noteq> [] \<Longrightarrow> sorted (map rect_key (QuickSortRects rs)) \<and> mset (QuickSortRects rs) = mset rs"
proof (induction rs rule: length_induct)
  case (1 rs)
  show ?case
  proof (cases "length rs = 2")
    case True
    then obtain a b where "rs = [a, b]" by (auto simp: length_Suc_conv eval_nat_numeral)
    then show ?thesis
      by (subst (1 2) QuickSortRects.simps) (auto simp: exchange_def rect_key_def less_eq_prod_def)
  next
    case False
    let ?e = "exchange rs 0 (length rs div 2)"
    obtain b j where p: "partition_at rect_less ?e = (b, j)" by fastforce
    have ms: "mset ?e = mset rs"
      using "1.prems" by (auto simp: exchange_def intro!: mset_swap)
    have e: "?e \<noteq> []" "length ?e = length rs" using "1.prems" by (metis length_0_conv length_exchange, simp)
    have "sorted (map rect_key (QuickSortRects xs)) \<and> mset (QuickSortRects xs) = mset xs"
      if "xs \<noteq> []" "length xs < length ?e" for xs using "1.IH" that e(2) by auto
    from rects.quick_step [OF e(1) p this] show ?thesis
      using False p ms e(2) by (subst (1 2) QuickSortRects.simps) (simp add: Let_def)
  qed
qed

end
