(* ===== verification/RegionAppend.thy ===== *)
theory RegionAppend
  imports RegionOpCorrect
begin

text \<open>
  \<open>miRegionAppend\<close> and \<open>miRegionDataCopy\<close> of \<open>region/x11region.c\<close>: collecting rectangles
  in a block that need not be banded. A region whose extents are empty (\<open>x1 \<ge> x2\<close>) while
  it has rectangles is marked as not yet validated.
\<close>

section \<open>The code\<close>

text \<open>\<open>first\<close> comes after \<open>last\<close>, with a gap, in the order of the bands.\<close>

definition comes_after :: "box \<Rightarrow> box \<Rightarrow> bool" where
  "comes_after first l \<longleftrightarrow>
     by1 first > by2 l \<or> (by1 first = by1 l \<and> by2 first = by2 l \<and> bx1 first > bx2 l)"

definition widen :: "box \<Rightarrow> box \<Rightarrow> box" where
  "widen d r =
     (let d = (if bx1 r < bx1 d then d\<lparr>bx1 := bx1 r\<rparr> else d)
      in if bx2 r > bx2 d then d\<lparr>bx2 := bx2 r\<rparr> else d)"

definition miRegionAppend :: "allocator \<Rightarrow> region \<Rightarrow> region \<Rightarrow> bool \<times> region" where
  "miRegionAppend ok dstrgn rgn =
     (if REGION_NAR rgn then miRegionBreak dstrgn
      else if rgdata rgn = NoData \<and> rgdata dstrgn = EmptyData
      then (True, dstrgn\<lparr>extents := extents rgn, rgdata := NoData\<rparr>)
      else
        let numRects = REGION_NUM_RECTS rgn in
        if numRects = 0 then (True, dstrgn)
        else
          let dnumRects = REGION_NUM_RECTS dstrgn;
              size = (if dnumRects = 0 \<and> numRects < 200 then 200 else numRects)
          in case RECTALLOC ok dstrgn size of
               (False, dstrgn) \<Rightarrow> (False, dstrgn)
             | (True, dstrgn) \<Rightarrow>
                 let oldBox = REGION_RECTS rgn;
                     drects = data_rects (rgdata dstrgn);
                     e = extents dstrgn;
                     (e, prepend) =
                       (if dnumRects = 0 then (extents rgn, False)
                        else if bx2 e > bx1 e then
                          (if comes_after (hd oldBox) (last drects)
                           then ((widen e (extents rgn))\<lparr>by2 := by2 (extents rgn)\<rparr>, False)
                           else if comes_after (hd drects) (last oldBox)
                           then ((widen e (extents rgn))\<lparr>by1 := by1 (extents rgn)\<rparr>, True)
                           else (e\<lparr>bx2 := bx1 e\<rparr>, False))
                        else (e, False));
                     newBoxes = (if prepend then oldBox @ drects else drects @ oldBox)
                 in (True, dstrgn\<lparr>extents := e, rgdata := RegData (data_size (rgdata dstrgn)) newBoxes\<rparr>))"

text \<open>
  \<open>miRegionDataCopy\<close> makes room in \<open>dst\<close>; it copies no rectangle. \<open>junk n\<close> is what a
  fresh block of \<open>n\<close> rectangles holds. The last two assignments also store the recorded
  size of the source's block, although the block has room for \<open>numRects\<close> rectangles only.
\<close>

definition miRegionDataCopy :: "allocator \<Rightarrow> (nat \<Rightarrow> box list) \<Rightarrow> bool \<Rightarrow> region \<Rightarrow> region \<Rightarrow> bool \<times> region" where
  "miRegionDataCopy ok junk same dst src =
     (if rgdata dst \<noteq> NoData then (True, dst)
      else if same then (True, dst)
      else if rgdata src = NoData \<or> data_size (rgdata src) = 0 then (True, dst\<lparr>rgdata := NoData\<rparr>)
      else
        let n = length (data_rects (rgdata src)) in
        if \<not> ok n then miRegionBreak dst
        else (True, dst\<lparr>rgdata := RegData (data_size (rgdata src)) (junk n)\<rparr>))"

section \<open>The rectangles are those of both\<close>

lemma RECTALLOC_rects:
  assumes "alloc_ok ok" "0 < k" "\<forall>s rs. rgdata dst = RegData s rs \<longrightarrow> length rs \<le> s"
  shows "\<exists>d s. RECTALLOC ok dst k = (True, d) \<and> rgdata d = RegData s (REGION_RECTS dst) \<and> extents d = extents dst \<and>
    length (REGION_RECTS dst) + k \<le> s"
proof (cases "rgdata dst")
  case (RegData s rs)
  then have "length rs \<le> s" using assms(3) by simp
  then show ?thesis
    using assms(1,2) RegData
    by (cases "s = 0"; cases "s < length rs + k") (auto simp: RECTALLOC_def miRectAlloc_def Let_def alloc_ok_def REGION_RECTS_def)
qed (use assms(1,2) in \<open>auto simp: RECTALLOC_def miRectAlloc_def Let_def alloc_ok_def REGION_RECTS_def\<close>)

lemma miRegionAppend_rects:
  assumes "alloc_ok ok" "\<not> REGION_NAR rgn" "\<forall>s rs. rgdata dst = RegData s rs \<longrightarrow> length rs \<le> s"
  shows "\<exists>r. miRegionAppend ok dst rgn = (True, r) \<and>
    mset (REGION_RECTS r) = mset (REGION_RECTS dst) + mset (REGION_RECTS rgn)"
proof -
  let ?n = "REGION_NUM_RECTS rgn"
  let ?k = "if REGION_NUM_RECTS dst = 0 \<and> ?n < 200 then 200 else ?n"
  consider (nothing) "?n = 0" | (single) "rgdata rgn = NoData" "rgdata dst = EmptyData"
    | (general) "?n \<noteq> 0" "\<not> (rgdata rgn = NoData \<and> rgdata dst = EmptyData)" by blast
  then show ?thesis
  proof cases
    case general
    obtain d s where d: "RECTALLOC ok dst ?k = (True, d)" "rgdata d = RegData s (REGION_RECTS dst)" "extents d = extents dst"
    proof -
      have "0 < ?k" using general(1) by simp
      from RECTALLOC_rects [OF assms(1) this assms(3)] show ?thesis using that by blast
    qed
    then show ?thesis
      using assms(2) general by (auto simp: miRegionAppend_def Let_def REGION_RECTS_def split: prod.split)
  qed (use assms(2) in \<open>auto simp: miRegionAppend_def Let_def REGION_RECTS_def REGION_NUM_RECTS_def\<close>)
qed

section \<open>Bands that follow each other with a gap\<close>

lemma wf_rects_gap:
  assumes "wf_rects as" "wf_rects bs" "as \<noteq> []" "bs \<noteq> []" "by2 (last as) < by1 (hd bs)"
  shows "wf_rects (as @ bs)"
proof -
  obtain A B where AB: "canon A" "as = flat A" "canon B" "bs = flat B" using assms(1,2) wf_rects_obtain by metis
  have "A \<noteq> []" "B \<noteq> []" using AB assms(3,4) by auto
  then obtain A' t b vs where A: "A = A' @ [(t, b, vs)]" by (metis rev_exhaust prod_cases3)
  obtain t' b' ws B' where B: "B = (t', b', ws) # B'" using \<open>B \<noteq> []\<close> by (metis list.exhaust prod_cases3)
  have ne: "vs \<noteq> []" "ws \<noteq> []" using canon_last [OF AB(1)] A AB(3) B by auto
  have "by2 (last as) = b" "by1 (hd bs) = t'"
    using ne AB A B by (cases vs rule: rev_cases, auto simp: band_boxes_def) (cases ws, auto)
  then have "b < t'" using assms(5) by simp
  then have "canon (A @ B)" using AB(1,3) by (auto simp: A B canon_append)
  then show ?thesis using wf_rects_flat [of "A @ B"] AB by simp
qed

lemma region_ok_y:
  assumes "region_ok r" "REGION_RECTS r \<noteq> []"
  shows "by1 (extents r) = by1 (hd (REGION_RECTS r))" "by2 (extents r) = by2 (last (REGION_RECTS r))"
proof -
  let ?rs = "REGION_RECTS r"
  have "tight (extents r) (in_rects ?rs)"
    using tight_cong [OF region_ok_tight [OF assms]] by (simp add: pixels_def)
  then have "extents r = setExtents_loop (mkbox (bx1 (hd ?rs)) (by1 (hd ?rs)) (bx2 (last ?rs)) (by2 (last ?rs))) ?rs"
    using miSetExtents_tight [OF region_ok_wf [OF assms(1)] assms(2)] tight_unique by blast
  then show "by1 (extents r) = by1 (hd ?rs)" "by2 (extents r) = by2 (last ?rs)"
    by (metis setExtents_loop_y(1) mkbox_sel(2)) (metis \<open>extents r = _\<close> setExtents_loop_y(2) mkbox_sel(4))
qed

lemma widen_eq: "widen d r = d\<lparr>bx1 := min (bx1 d) (bx1 r), bx2 := max (bx2 d) (bx2 r)\<rparr>"
  by (cases d) (simp add: widen_def Let_def min_def max_def)

lemma stacked_ok:
  assumes a: "region_ok a" "REGION_RECTS a \<noteq> []" and b: "region_ok b" "REGION_RECTS b \<noteq> []"
    and gap: "by2 (extents a) < by1 (extents b)"
    and r: "extents r = mkbox (min (bx1 (extents a)) (bx1 (extents b))) (by1 (extents a))
      (max (bx2 (extents a)) (bx2 (extents b))) (by2 (extents b))"
      "rgdata r = RegData s (REGION_RECTS a @ REGION_RECTS b)" "length (REGION_RECTS a) + length (REGION_RECTS b) \<le> s"
  shows "region_ok r"
proof -
  have wf: "wf_rects (REGION_RECTS a @ REGION_RECTS b)"
    using wf_rects_gap [OF region_ok_wf [OF a(1)] region_ok_wf [OF b(1)] a(2) b(2)] gap
      region_ok_y(2) [OF a] region_ok_y(1) [OF b] by simp
  note t = region_ok_tight [OF a] region_ok_tight [OF b]
  have "by1 (extents a) < by2 (extents a)" "by1 (extents b) < by2 (extents b)"
    using tight_nonempty t by blast+
  then have "min (by1 (extents a)) (by1 (extents b)) = by1 (extents a)" "max (by2 (extents a)) (by2 (extents b)) = by2 (extents b)"
    using gap by simp_all
  with tight_union [OF t] have "tight (extents r) (\<lambda>x y. pixels a x y \<or> pixels b x y)"
    by (simp add: r(1))
  moreover have "pixels r x y \<longleftrightarrow> pixels a x y \<or> pixels b x y" for x y
    using r(2) by (simp add: pixels_def REGION_RECTS_def [of r])
  ultimately have "tight (extents r) (pixels r)" using tight_cong by (metis (no_types, lifting))
  moreover have "2 \<le> length (REGION_RECTS a @ REGION_RECTS b)"
    using a(2) b(2) by (cases "REGION_RECTS a"; cases "REGION_RECTS b") auto
  ultimately show ?thesis
    using wf r a(2) by (simp add: region_ok_def region_shape_def REGION_RECTS_def [of r])
qed

lemma region_ok_block: "region_ok r \<Longrightarrow> rgdata r = RegData s rs \<Longrightarrow> length rs \<le> s"
  by (simp add: region_ok_def region_shape_def)

lemma miRegionAppend_gap:
  assumes ok: "alloc_ok ok" and d: "region_ok dst" "REGION_RECTS dst \<noteq> []" and g: "region_ok rgn" "REGION_RECTS rgn \<noteq> []"
    and gap: "by2 (extents dst) < by1 (extents rgn) \<or> by2 (extents rgn) < by1 (extents dst)"
  shows "\<exists>r. miRegionAppend ok dst rgn = (True, r) \<and> region_ok r \<and>
    REGION_RECTS r = (if by2 (extents dst) < by1 (extents rgn) then REGION_RECTS dst @ REGION_RECTS rgn
      else REGION_RECTS rgn @ REGION_RECTS dst)"
proof -
  let ?e = "extents dst" and ?f = "extents rgn" and ?D = "REGION_RECTS dst" and ?G = "REGION_RECTS rgn"
  have v: "bx1 ?e < bx2 ?e" "by1 ?e < by2 ?e" "by1 ?f < by2 ?f"
    using tight_nonempty region_ok_tight d g by blast+
  note y = region_ok_y [OF d] region_ok_y [OF g]
  have ne: "rgdata dst \<noteq> EmptyData" using d(2) by (auto simp: REGION_RECTS_def)
  obtain c s where c: "RECTALLOC ok dst (length ?G) = (True, c)" "rgdata c = RegData s ?D" "extents c = ?e" "length ?D + length ?G \<le> s"
    using RECTALLOC_rects [OF ok, of "length ?G" dst] region_ok_block [OF d(1)] g(2) by auto
  have app: "miRegionAppend ok dst rgn = (True, r)"
    if "r = c\<lparr>extents := e', rgdata := RegData s rs\<rparr>"
      "(e', rs) = (if comes_after (hd ?G) (last ?D) then ((widen ?e ?f)\<lparr>by2 := by2 ?f\<rparr>, ?D @ ?G)
        else if comes_after (hd ?D) (last ?G) then ((widen ?e ?f)\<lparr>by1 := by1 ?f\<rparr>, ?G @ ?D)
        else (?e\<lparr>bx2 := bx1 ?e\<rparr>, ?D @ ?G))" for r e' rs
    using that c d(2) g(2) v(1) ne region_ok_NAR [OF g(1)]
    by (auto simp: miRegionAppend_def Let_def REGION_NUM_RECTS_def)
  have box: "by1 (last ?D) < by2 (last ?D)" "by1 (hd ?D) < by2 (hd ?D)" "by1 (last ?G) < by2 (last ?G)"
      "by1 (hd ?D) \<le> by1 (last ?D)" "by1 (hd ?G) \<le> by1 (last ?G)" "by2 (hd ?D) \<le> by2 (last ?D)" "by2 (hd ?G) \<le> by2 (last ?G)"
    using wf_rects_box [OF region_ok_wf [OF d(1)]] wf_rects_box [OF region_ok_wf [OF g(1)]] d(2) g(2) by (metis hd_in_set last_in_set)+
  show ?thesis
  proof (cases "by2 ?e < by1 ?f")
    case True
    let ?r = "c\<lparr>extents := (widen ?e ?f)\<lparr>by2 := by2 ?f\<rparr>, rgdata := RegData s (?D @ ?G)\<rparr>"
    have "comes_after (hd ?G) (last ?D)" using True y by (simp add: comes_after_def)
    then have "miRegionAppend ok dst rgn = (True, ?r)" by (intro app [OF refl]) simp
    moreover have "region_ok ?r"
      by (rule stacked_ok [OF d g True, of _ s]) (use c in \<open>simp_all add: widen_eq mkbox_def\<close>)
    ultimately show ?thesis using True by (simp add: REGION_RECTS_def [of ?r])
  next
    case False
    then have gt: "by2 ?f < by1 ?e" using gap by blast
    let ?r = "c\<lparr>extents := (widen ?e ?f)\<lparr>by1 := by1 ?f\<rparr>, rgdata := RegData s (?G @ ?D)\<rparr>"
    have "\<not> comes_after (hd ?G) (last ?D)" "comes_after (hd ?D) (last ?G)" using gt y box by (auto simp: comes_after_def)
    then have "miRegionAppend ok dst rgn = (True, ?r)" by (intro app [OF refl]) simp
    moreover have "region_ok ?r"
      by (rule stacked_ok [OF g d gt, of _ s]) (use c in \<open>simp_all add: widen_eq mkbox_def min.commute max.commute add.commute\<close>)
    ultimately show ?thesis using False by (simp add: REGION_RECTS_def [of ?r])
  qed
qed

end
