(* ===== verification/RegionValidate.thy ===== *)
theory RegionValidate
  imports RegionUnion RegionSort RegionAppend
begin

text \<open>
  \<open>miRegionValidate\<close> of \<open>region/x11region.c\<close>: a list of rectangles in any order is sorted, scattered into as few banded regions as possible, and
  these are merged pairwise with the union operator. The result is a well-formed region with
  exactly the pixels of the rectangles.

  \<open>ok\<close> says whether an allocation of rectangles succeeds, \<open>okRI\<close> the same for the array of
  region descriptors. The first descriptor owns the block that is being read; what is written
  there lies behind the rectangle being read, so the rectangles still to come are a list.
\<close>

section \<open>The code\<close>

record region_info =
  ri_reg :: region
  prevBand :: nat
  curBand :: nat

datatype place_result = NextRegion | Bail | NextRect region_info bool

text \<open>One region is tried: the rectangle is merged, appended, put into a new band, or refused.\<close>

definition last_x2 :: "region \<Rightarrow> int \<Rightarrow> region" where
  "last_x2 reg x =
     (let rs = data_rects (rgdata reg)
      in set_rects reg (butlast rs @ [(last rs)\<lparr>bx2 := x\<rparr>]))"

definition push_rect :: "allocator \<Rightarrow> region_info \<Rightarrow> box \<Rightarrow> bool \<Rightarrow> place_result" where
  "push_rect ok rit b overlap =
     (case RECTALLOC ok (ri_reg rit) 1 of
        (False, _) \<Rightarrow> Bail
      | (True, reg) \<Rightarrow> NextRect (rit\<lparr>ri_reg := add_boxes reg [b]\<rparr>) overlap)"

definition place_rect :: "allocator \<Rightarrow> region_info \<Rightarrow> box \<Rightarrow> bool \<Rightarrow> place_result" where
  "place_rect ok rit b overlap =
     (let reg = ri_reg rit; riBox = last (data_rects (rgdata reg)) in
      if by1 b = by1 riBox \<and> by2 b = by2 riBox then
        (if bx1 b \<le> bx2 riBox then
           NextRect (rit\<lparr>ri_reg := (if bx2 b > bx2 riBox then last_x2 reg (bx2 b) else reg)\<rparr>)
             (if bx1 b < bx2 riBox then True else overlap)
         else push_rect ok rit b overlap)
      else if by1 b \<ge> by2 riBox then
        (let e = extents reg;
             e = (if bx2 e < bx2 riBox then e\<lparr>bx2 := bx2 riBox\<rparr> else e);
             e = (if bx1 e > bx1 b then e\<lparr>bx1 := bx1 b\<rparr> else e);
             (prev, reg) = Coalesce (reg\<lparr>extents := e\<rparr>) (prevBand rit) (curBand rit)
         in push_rect ok (rit\<lparr>ri_reg := reg, prevBand := prev, curBand := length (data_rects (rgdata reg))\<rparr>) b overlap)
      else NextRegion)"

text \<open>The search for a region; \<open>None\<close> is the jump to \<open>bail\<close>.\<close>

fun find_region :: "allocator \<Rightarrow> region_info list \<Rightarrow> box \<Rightarrow> bool \<Rightarrow> (region_info list \<times> bool \<times> bool) option" where
  "find_region ok [] b overlap = Some ([], overlap, False)"
| "find_region ok (rit # ris) b overlap =
     (case place_rect ok rit b overlap of
        Bail \<Rightarrow> None
      | NextRect rit' overlap' \<Rightarrow> Some (rit' # ris, overlap', True)
      | NextRegion \<Rightarrow>
          (case find_region ok ris b overlap of
             None \<Rightarrow> None
           | Some (ris', overlap', found) \<Rightarrow> Some (rit # ris', overlap', found)))"

text \<open>
  The scatter loop, \<open>None\<close> again for the jump to \<open>bail\<close>; the number of rectangles left after this one is the code's \<open>i\<close>.
\<close>

fun scatter :: "allocator \<Rightarrow> allocator \<Rightarrow> box list \<Rightarrow> region_info list \<Rightarrow> nat \<Rightarrow> bool \<Rightarrow> region_info list option \<times> bool" where
  "scatter ok okRI [] ris sizeRI overlap = (Some ris, overlap)"
| "scatter ok okRI (b # bs) ris sizeRI overlap =
     (case find_region ok ris b overlap of
        None \<Rightarrow> (None, overlap)
      | Some (ris', overlap', True) \<Rightarrow> scatter ok okRI bs ris' sizeRI overlap'
      | Some (_, _, False) \<Rightarrow>
          (let full = (sizeRI = length ris); sizeRI' = (if full then 2 * sizeRI else sizeRI) in
           if full \<and> \<not> okRI sizeRI' then (None, overlap)
           else
             let numRI = length ris + 1 in
             (case miRectAlloc ok \<lparr>extents = b, rgdata = NoData\<rparr> ((length bs + 1 + numRI) div numRI) of
                (False, _) \<Rightarrow> (None, overlap)
              | (True, reg) \<Rightarrow>
                  scatter ok okRI bs (ris @ [\<lparr>ri_reg = reg, prevBand = 0, curBand = 0\<rparr>]) sizeRI' overlap)))"

text \<open>The final pass over a region.\<close>

definition finish_info :: "region_info \<Rightarrow> region" where
  "finish_info rit =
     (let reg = ri_reg rit; riBox = last (data_rects (rgdata reg));
          e = (extents reg)\<lparr>by2 := by2 riBox\<rparr>;
          e = (if bx2 e < bx2 riBox then e\<lparr>bx2 := bx2 riBox\<rparr> else e);
          (_, reg) = Coalesce (reg\<lparr>extents := e\<rparr>) (prevBand rit) (curBand rit)
      in if length (data_rects (rgdata reg)) = 1 then reg\<lparr>rgdata := NoData\<rparr> else reg)"

text \<open>
  The merge: \<open>h j\<close> is \<open>ri[j].reg\<close>. The state of a pass is the array, \<open>ret\<close> and
  \<open>*pOverlap\<close>.
\<close>

definition extend_hull :: "box \<Rightarrow> box \<Rightarrow> box" where
  "extend_hull e f =
     (let e = (if bx1 f < bx1 e then e\<lparr>bx1 := bx1 f\<rparr> else e);
          e = (if by1 f < by1 e then e\<lparr>by1 := by1 f\<rparr> else e);
          e = (if bx2 f > bx2 e then e\<lparr>bx2 := bx2 f\<rparr> else e)
      in if by2 f > by2 e then e\<lparr>by2 := by2 f\<rparr> else e)"

type_synonym merge_state = "(nat \<Rightarrow> region) \<times> bool \<times> bool"

definition merge_pair :: "allocator \<Rightarrow> nat \<Rightarrow> merge_state \<Rightarrow> nat \<Rightarrow> merge_state" where
  "merge_pair ok half s j =
     (case s of (h, ret, overlap) \<Rightarrow>
        (case miRegionOp ok miUnionO True True j j (j + half) h overlap of
           (done, h, overlap) \<Rightarrow>
             (h(j := (h j)\<lparr>extents := extend_hull (extents (h j)) (extents (h (j + half)))\<rparr>),
              (if \<not> done then False else ret), overlap)))"

function merge_all :: "allocator \<Rightarrow> nat \<Rightarrow> merge_state \<Rightarrow> merge_state" where
  "merge_all ok numRI s =
     (if numRI > 1 then
        (let half = numRI div 2; o1 = numRI mod 2
         in merge_all ok (numRI - half) (foldl (merge_pair ok half) s [o1..<half + o1]))
      else s)"
  by pat_completeness auto
termination
  by (relation "measure (\<lambda>(ok, numRI, s). numRI)") auto

declare merge_all.simps [simp del]

text \<open>The result: the return value, the region, and \<open>*pOverlap\<close>.\<close>

definition miRegionValidate :: "allocator \<Rightarrow> allocator \<Rightarrow> region \<Rightarrow> bool \<times> region \<times> bool" where
  "miRegionValidate ok okRI badreg =
     (if rgdata badreg = NoData then (True, badreg, False)
      else
        let rects = data_rects (rgdata badreg); numRects = length rects in
        if numRects = 0 then (if REGION_NAR badreg then (False, badreg, False) else (True, badreg, False))
        else if bx1 (extents badreg) < bx2 (extents badreg) then
          (if numRects = 1 then (True, badreg\<lparr>rgdata := NoData\<rparr>, False) else (True, DOWNSIZE ok badreg, False))
        else
          let rects = QuickSortRects rects in
          if \<not> okRI 4 then (case miRegionBreak badreg of (ret, r) \<Rightarrow> (ret, r, False))
          else
            let ri0 = \<lparr>ri_reg = badreg\<lparr>extents := hd rects, rgdata := RegData (data_size (rgdata badreg)) [hd rects]\<rparr>,
                       prevBand = 0, curBand = 0\<rparr>
            in (case scatter ok okRI (tl rects) [ri0] 4 False of
                  (None, overlap) \<Rightarrow> (case miRegionBreak badreg of (ret, r) \<Rightarrow> (ret, r, overlap))
                | (Some ris, overlap) \<Rightarrow>
                    (case merge_all ok (length ris) (\<lambda>j. finish_info (ris ! j), True, overlap) of
                       (h, ret, overlap) \<Rightarrow> (ret, h 0, overlap))))"

section \<open>Intervals of the band under construction\<close>

lemma iv_from_snoc_widen:
  "iv_from l (vs @ [(a, c)]) \<Longrightarrow> c \<le> d \<Longrightarrow> iv_from l (vs @ [(a, d)])"
  by (induction l vs rule: iv_from.induct) auto

lemma iv_from_snoc_new:
  "iv_from l (vs @ [(a, c)]) \<Longrightarrow> c < x1 \<Longrightarrow> x1 < x2 \<Longrightarrow> iv_from l (vs @ [(a, c), (x1, x2)])"
  by (induction l vs rule: iv_from.induct) auto

lemma iv_from_snoc_less: "iv_from l (vs @ [(a, c)]) \<Longrightarrow> a < c"
  by (induction l vs rule: iv_from.induct) auto

lemma iv_snoc:
  assumes "iv_ok (vs @ [(a, c)])"
  shows "c \<le> d \<Longrightarrow> iv_ok (vs @ [(a, d)])" "c < x1 \<Longrightarrow> x1 < x2 \<Longrightarrow> iv_ok (vs @ [(a, c), (x1, x2)])" "a < c"
  using iv_ok_from [OF assms] iv_from_ok iv_from_snoc_widen iv_from_snoc_new iv_from_snoc_less by blast+

section \<open>A region under construction\<close>

text \<open>
  \<open>building rit out t b vs\<close>: the block holds the finished bands \<open>out\<close> and the current band;
  the extents become tight once the bottom and the right edge of the last rectangle are taken
  into account.
\<close>

definition pending :: "box \<Rightarrow> box \<Rightarrow> box" where
  "pending e riBox = mkbox (bx1 e) (by1 e) (max (bx2 e) (bx2 riBox)) (by2 riBox)"

definition info_rects :: "region_info \<Rightarrow> box list" where
  "info_rects rit = data_rects (rgdata (ri_reg rit))"

definition building :: "region_info \<Rightarrow> band list \<Rightarrow> int \<Rightarrow> int \<Rightarrow> iv list \<Rightarrow> bool" where
  "building rit out t b vs \<longleftrightarrow>
     canon out \<and> ends_by out t \<and> t < b \<and> vs \<noteq> [] \<and> iv_ok vs \<and> prev_ok out t (prevBand rit) \<and>
     curBand rit = length (flat out) \<and>
     holds (ri_reg rit) (extents (ri_reg rit)) (flat out @ band_boxes (t, b, vs)) \<and>
     tight (pending (extents (ri_reg rit)) (last (info_rects rit))) (in_rects (info_rects rit))"

definition info_ok :: "region_info \<Rightarrow> bool" where
  "info_ok rit \<longleftrightarrow> (\<exists>out t b vs. building rit out t b vs)"

lemma building_rects: "building rit out t b vs \<Longrightarrow> info_rects rit = flat out @ band_boxes (t, b, vs)"
  by (auto simp: building_def info_rects_def dest: holds_rects)

lemma push_rect_holds:
  assumes "alloc_ok ok" "holds (ri_reg rit) e rs"
  obtains rit' where "push_rect ok rit b overlap = NextRect rit' overlap" "holds (ri_reg rit') e (rs @ [b])"
    "prevBand rit' = prevBand rit" "curBand rit' = curBand rit" "info_rects rit' = rs @ [b]"
proof -
  obtain reg where r: "RECTALLOC ok (ri_reg rit) 1 = (True, reg)" "holds (add_boxes reg [b]) e (rs @ [b])"
    using RECTALLOC_add_holds [OF assms, of "[b]"] by (metis One_nat_def length_Cons list.size(3) prod.collapse)
  then show thesis
    using that [of "rit\<lparr>ri_reg := add_boxes reg [b]\<rparr>"] holds_rects [OF r(2)]
    by (simp add: push_rect_def info_rects_def)
qed

lemma band_snoc: "band_boxes (t, b, vs @ ws) = band_boxes (t, b, vs) @ band_boxes (t, b, ws)"
  by (simp add: band_boxes_def)

text \<open>Hull of the extents and one more rectangle.\<close>

lemma tight_add:
  assumes "tight e (in_rects rs)" "bx1 c < bx2 c" "by1 c < by2 c"
    "\<And>x y. in_rects rs' x y \<longleftrightarrow> in_rects rs x y \<or> INBOX c x y"
    "e' = mkbox (min (bx1 e) (bx1 c)) (min (by1 e) (by1 c)) (max (bx2 e) (bx2 c)) (max (by2 e) (by2 c))"
  shows "tight e' (in_rects rs')"
  using tight_cong [OF tight_union [OF assms(1) tight_box [OF assms(2,3)]]] assms(4,5) by metis

definition placed :: "region_info \<Rightarrow> region_info \<Rightarrow> box \<Rightarrow> bool" where
  "placed rit rit' c \<longleftrightarrow> info_ok rit' \<and> rect_key (last (info_rects rit')) \<le> rect_key c \<and>
     (\<forall>x y. in_rects (info_rects rit') x y \<longleftrightarrow> in_rects (info_rects rit) x y \<or> INBOX c x y)"

lemma pending_sel [simp]:
  "bx1 (pending e r) = bx1 e" "by1 (pending e r) = by1 e" "bx2 (pending e r) = max (bx2 e) (bx2 r)" "by2 (pending e r) = by2 r"
  by (simp_all add: pending_def)

lemma building_last:
  assumes "building rit out t b vs"
  obtains ws a d where "vs = ws @ [(a, d)]" "last (info_rects rit) = mkbox a t d b" "a < d"
    "info_rects rit = flat out @ band_boxes (t, b, ws) @ [mkbox a t d b]" "iv_ok (ws @ [(a, d)])"
proof -
  have vs: "vs \<noteq> []" "iv_ok vs" using assms by (auto simp: building_def)
  then obtain ws a d where w: "vs = ws @ [(a, d)]" by (metis rev_exhaust prod.exhaust)
  then have "info_rects rit = flat out @ band_boxes (t, b, ws) @ [mkbox a t d b]"
    using building_rects [OF assms] by (simp add: band_snoc)
  then show thesis using that w vs iv_snoc(3) by simp
qed

lemma pending_bounds:
  assumes "building rit out t b vs"
  defines "e \<equiv> pending (extents (ri_reg rit)) (last (info_rects rit))"
  shows "bx1 e \<le> bx1 (last (info_rects rit))" "by1 e \<le> t" "t < b"
proof -
  obtain ws a d where l: "last (info_rects rit) = mkbox a t d b" "a < d"
    "info_rects rit = flat out @ band_boxes (t, b, ws) @ [mkbox a t d b]"
    using building_last [OF assms(1)] by metis
  have t: "t < b" "tight e (in_rects (info_rects rit))" using assms(1) by (auto simp: building_def e_def)
  have "INBOX (mkbox a t d b) a t" using l(2) t(1) by (simp add: INBOX_def)
  then have "INBOX e a t" using t(2) l(3) by (auto simp: tight_def)
  then show "bx1 e \<le> bx1 (last (info_rects rit))" "by1 e \<le> t" "t < b"
    using l t by (auto simp: INBOX_def)
qed

text \<open>The band grows: the last rectangle is widened, or a new one is appended.\<close>

lemma place_widen:
  assumes b: "building rit out t b vs" and c: "bx1 c < bx2 c" "by1 c = t" "by2 c = b"
    "bx1 (last (info_rects rit)) \<le> bx1 c" "bx1 c \<le> bx2 (last (info_rects rit))"
  shows "\<exists>rit' ov'. place_rect ok rit c ov = NextRect rit' ov' \<and> placed rit rit' c"
proof -
  obtain ws a d where l: "vs = ws @ [(a, d)]" "last (info_rects rit) = mkbox a t d b" "a < d"
    "info_rects rit = flat out @ band_boxes (t, b, ws) @ [mkbox a t d b]" "iv_ok (ws @ [(a, d)])"
    using building_last [OF b] by metis
  let ?e = "extents (ri_reg rit)" and ?d = "max d (bx2 c)"
  let ?reg = "if bx2 c > d then last_x2 (ri_reg rit) (bx2 c) else ri_reg rit"
  let ?rit = "rit\<lparr>ri_reg := ?reg\<rparr>"
  have rs: "data_rects (rgdata (ri_reg rit)) = flat out @ band_boxes (t, b, ws) @ [mkbox a t d b]"
    using l(4) by (simp add: info_rects_def)
  have h: "holds (ri_reg rit) ?e (flat out @ band_boxes (t, b, ws) @ [mkbox a t d b])"
    using b l by (simp add: building_def band_snoc)
  have upd: "mkbox a t d b\<lparr>bx2 := bx2 c\<rparr> = mkbox a t (bx2 c) b" by (simp add: mkbox_def)
  have h': "holds ?reg ?e (flat out @ band_boxes (t, b, ws) @ [mkbox a t ?d b])"
  proof (cases "bx2 c > d")
    case True
    then show ?thesis
      using holds_set_rects [OF h, of "flat out @ band_boxes (t, b, ws) @ [mkbox a t (bx2 c) b]"]
      by (simp add: last_x2_def Let_def rs upd butlast_append max_def)
  qed (use h in \<open>simp add: max_def\<close>)
  have rs': "info_rects ?rit = flat out @ band_boxes (t, b, ws) @ [mkbox a t ?d b]" and ext: "extents ?reg = ?e"
    using holds_rects [OF h'] h' by (simp_all add: info_rects_def holds_def)
  have in': "in_rects (info_rects ?rit) x y \<longleftrightarrow> in_rects (info_rects rit) x y \<or> INBOX c x y" for x y
    using c l(2) unfolding rs' l(4) by (auto simp: INBOX_def)
  have "tight (pending ?e (last (info_rects ?rit))) (in_rects (info_rects ?rit))"
  proof (rule tight_add [OF _ c(1) _ in'])
    show "tight (pending ?e (last (info_rects rit))) (in_rects (info_rects rit))" using b by (simp add: building_def)
    show "pending ?e (last (info_rects ?rit)) =
      mkbox (min (bx1 (pending ?e (last (info_rects rit)))) (bx1 c)) (min (by1 (pending ?e (last (info_rects rit)))) (by1 c))
        (max (bx2 (pending ?e (last (info_rects rit)))) (bx2 c)) (max (by2 (pending ?e (last (info_rects rit)))) (by2 c))"
      using pending_bounds [OF b] c l(2) rs' by (auto simp: pending_def)
  qed (use c b in \<open>auto simp: building_def\<close>)
  then have "building ?rit out t b (ws @ [(a, ?d)])"
    using b iv_snoc(1) [OF l(5), of ?d] h' rs' ext by (auto simp: building_def band_snoc)
  moreover have "place_rect ok rit c ov = NextRect ?rit (if bx1 c < d then True else ov)"
    using c l(2) by (simp add: place_rect_def Let_def info_rects_def [symmetric])
  moreover have "rect_key (last (info_rects ?rit)) \<le> rect_key c"
    using c l(2) rs' by (simp add: rect_key_def less_eq_prod_def)
  ultimately show ?thesis using in' unfolding placed_def info_ok_def by blast
qed

lemma place_append:
  assumes ok: "alloc_ok ok" and b: "building rit out t b vs" and c: "bx1 c < bx2 c" "by1 c = t" "by2 c = b"
    "bx2 (last (info_rects rit)) < bx1 c"
  shows "\<exists>rit' ov'. place_rect ok rit c ov = NextRect rit' ov' \<and> placed rit rit' c"
proof -
  obtain ws a d where l: "vs = ws @ [(a, d)]" "last (info_rects rit) = mkbox a t d b" "a < d"
    "info_rects rit = flat out @ band_boxes (t, b, ws) @ [mkbox a t d b]" "iv_ok (ws @ [(a, d)])"
    using building_last [OF b] by metis
  let ?e = "extents (ri_reg rit)"
  have "holds (ri_reg rit) ?e (flat out @ band_boxes (t, b, vs))" using b by (simp add: building_def)
  from push_rect_holds [OF ok this, of c ov] obtain rit' where r: "push_rect ok rit c ov = NextRect rit' ov"
    "holds (ri_reg rit') ?e (info_rects rit @ [c])" "info_rects rit' = info_rects rit @ [c]"
    "prevBand rit' = prevBand rit" "curBand rit' = curBand rit"
    using building_rects [OF b] by metis
  have ce: "c = mkbox (bx1 c) t (bx2 c) b" using c by (intro box_eqI) simp_all
  have rs': "info_rects rit' = flat out @ band_boxes (t, b, vs @ [(bx1 c, bx2 c)])"
    using r(3) ce building_rects [OF b] by (simp add: band_snoc)
  have in': "in_rects (info_rects rit') x y \<longleftrightarrow> in_rects (info_rects rit) x y \<or> INBOX c x y" for x y
    using r(3) by simp
  have ext: "extents (ri_reg rit') = ?e" using r(2) by (simp add: holds_def)
  have "tight (pending ?e (last (info_rects rit'))) (in_rects (info_rects rit'))"
  proof (rule tight_add [OF _ c(1) _ in'])
    show "tight (pending ?e (last (info_rects rit))) (in_rects (info_rects rit))" using b by (simp add: building_def)
    show "pending ?e (last (info_rects rit')) =
      mkbox (min (bx1 (pending ?e (last (info_rects rit)))) (bx1 c)) (min (by1 (pending ?e (last (info_rects rit)))) (by1 c))
        (max (bx2 (pending ?e (last (info_rects rit)))) (bx2 c)) (max (by2 (pending ?e (last (info_rects rit)))) (by2 c))"
      using pending_bounds [OF b] c l(2,3) r(3) by (auto simp: pending_def)
  qed (use c b in \<open>auto simp: building_def\<close>)
  moreover have "iv_ok (vs @ [(bx1 c, bx2 c)])" using iv_snoc(2) [OF l(5), of "bx1 c" "bx2 c"] c l by simp
  moreover have "holds (ri_reg rit') ?e (flat out @ band_boxes (t, b, vs @ [(bx1 c, bx2 c)]))"
    using r(2,3) rs' by simp
  ultimately have "building rit' out t b (vs @ [(bx1 c, bx2 c)])"
    using b r(4,5) ext by (auto simp: building_def)
  moreover have "place_rect ok rit c ov = NextRect rit' ov"
    using c l(2) r(1) by (simp add: place_rect_def Let_def info_rects_def [symmetric])
  ultimately show ?thesis using in' r(3) unfolding placed_def info_ok_def by auto
qed

text \<open>The rectangle starts a new band.\<close>

lemma coalesce_pending:
  assumes b: "building rit out t b vs"
  obtains prev reg where "Coalesce ((ri_reg rit)\<lparr>extents := e\<rparr>) (prevBand rit) (curBand rit) = (prev, reg)"
    "holds reg e (flat (emit out (t, b, vs)))" "prev_ok (emit out (t, b, vs)) b prev"
    "\<And>x y. in_rects (flat (emit out (t, b, vs))) x y \<longleftrightarrow> in_rects (info_rects rit) x y"
    "canon (emit out (t, b, vs))" "ends_by (emit out (t, b, vs)) b"
proof -
  have bb: "canon out" "ends_by out t" "t < b" "iv_ok vs" "prev_ok out t (prevBand rit)" "curBand rit = length (flat out)"
    "holds (ri_reg rit) (extents (ri_reg rit)) (flat out @ band_boxes (t, b, vs))"
    using b by (auto simp: building_def)
  have "holds ((ri_reg rit)\<lparr>extents := e\<rparr>) e (flat out @ band_boxes (t, b, vs))"
    using bb(7) by (simp add: holds_def)
  from Coalesce_emit [OF this bb(1-3,5)] obtain prev reg where
    "Coalesce ((ri_reg rit)\<lparr>extents := e\<rparr>) (prevBand rit) (length (flat out)) = (prev, reg)"
    "holds reg e (flat (emit out (t, b, vs)))" "prev_ok (emit out (t, b, vs)) b prev" by metis
  then show thesis
    using that bb(6) emit_in_bands [OF bb(1-3)] emit_canon [OF bb(1-4)] building_rects [OF b] by simp
qed

lemma place_band:
  assumes ok: "alloc_ok ok" and b: "building rit out t b vs" and c: "bx1 c < bx2 c" "by1 c < by2 c" "b \<le> by1 c"
  shows "\<exists>rit' ov'. place_rect ok rit c ov = NextRect rit' ov' \<and> placed rit rit' c"
proof -
  let ?e = "extents (ri_reg rit)" and ?l = "last (info_rects rit)"
  have l: "by1 ?l = t" "by2 ?l = b" "t < b" using building_last [OF b] pending_bounds(3) [OF b] by (metis mkbox_sel(2,4))+
  define e1 where "e1 = ?e\<lparr>bx1 := min (bx1 ?e) (bx1 c), bx2 := max (bx2 ?e) (bx2 ?l)\<rparr>"
  obtain prev reg where co: "Coalesce ((ri_reg rit)\<lparr>extents := e1\<rparr>) (prevBand rit) (curBand rit) = (prev, reg)"
    "holds reg e1 (flat (emit out (t, b, vs)))" "prev_ok (emit out (t, b, vs)) b prev"
    "\<And>x y. in_rects (flat (emit out (t, b, vs))) x y \<longleftrightarrow> in_rects (info_rects rit) x y"
    "canon (emit out (t, b, vs))" "ends_by (emit out (t, b, vs)) b"
    using coalesce_pending [OF b, of e1] by metis
  let ?out = "emit out (t, b, vs)"
  let ?mid = "rit\<lparr>ri_reg := reg, prevBand := prev, curBand := length (data_rects (rgdata reg))\<rparr>"
  have "holds (ri_reg ?mid) e1 (flat ?out)" using co(2) by simp
  from push_rect_holds [OF ok this, of c ov] obtain rit' where r: "push_rect ok ?mid c ov = NextRect rit' ov"
    "holds (ri_reg rit') e1 (flat ?out @ [c])" "prevBand rit' = prev" "curBand rit' = length (flat ?out)" "info_rects rit' = flat ?out @ [c]"
    using holds_rects [OF co(2)] by (metis region_info.select_convs(2,3) region_info.surjective region_info.update_convs(1-3))
  have ce: "[c] = band_boxes (by1 c, by2 c, [(bx1 c, bx2 c)])" by simp
  have in': "in_rects (info_rects rit') x y \<longleftrightarrow> in_rects (info_rects rit) x y \<or> INBOX c x y" for x y
    using r(5) co(4) by simp
  have ext: "extents (ri_reg rit') = e1" using r(2) by (simp add: holds_def)
  have "tight (pending e1 (last (info_rects rit'))) (in_rects (info_rects rit'))"
  proof (rule tight_add [OF _ c(1,2) in'])
    show "tight (pending ?e ?l) (in_rects (info_rects rit))" using b by (simp add: building_def)
    show "pending e1 (last (info_rects rit')) =
      mkbox (min (bx1 (pending ?e ?l)) (bx1 c)) (min (by1 (pending ?e ?l)) (by1 c))
        (max (bx2 (pending ?e ?l)) (bx2 c)) (max (by2 (pending ?e ?l)) (by2 c))"
      using pending_bounds [OF b] c l r(5) by (auto simp: pending_def e1_def)
  qed
  moreover have "ends_by ?out (by1 c)" "prev_ok ?out (by1 c) prev"
    using ends_by_mono [OF co(6) c(3)] prev_ok_mono [OF co(3) c(3)] .
  ultimately have "building rit' ?out (by1 c) (by2 c) [(bx1 c, bx2 c)]"
    unfolding building_def ext using co(5) c(1,2) r(2-5) by simp
  moreover have "place_rect ok rit c ov = NextRect rit' ov"
  proof -
    have "\<not> (by1 c = t \<and> by2 c = b)" using c l by auto
    moreover have "(let e = ?e; e = (if bx2 e < bx2 ?l then e\<lparr>bx2 := bx2 ?l\<rparr> else e);
        e = (if bx1 e > bx1 c then e\<lparr>bx1 := bx1 c\<rparr> else e) in e) = e1"
      by (cases ?e) (simp add: e1_def Let_def min_def max_def)
    ultimately show ?thesis
      using co(1) r(1) c(3) l by (auto simp: place_rect_def Let_def info_rects_def [symmetric])
  qed
  ultimately show ?thesis using in' r(5) unfolding placed_def info_ok_def by auto
qed

text \<open>One region, whatever it holds: the rectangle goes in, or the region is left alone.\<close>

lemma place_rect_ok:
  assumes "alloc_ok ok" "info_ok rit" "rect_key (last (info_rects rit)) \<le> rect_key c" "bx1 c < bx2 c" "by1 c < by2 c"
  shows "place_rect ok rit c ov = NextRegion \<or> (\<exists>rit' ov'. place_rect ok rit c ov = NextRect rit' ov' \<and> placed rit rit' c)"
proof -
  obtain out t b vs where b: "building rit out t b vs" using assms(2) by (auto simp: info_ok_def)
  let ?l = "last (info_rects rit)"
  have l: "by1 ?l = t" "by2 ?l = b" using building_last [OF b] by (metis mkbox_sel(2,4))+
  consider (same) "by1 c = t" "by2 c = b" | (below) "b \<le> by1 c" | (refuse) "\<not> (by1 c = t \<and> by2 c = b)" "\<not> b \<le> by1 c" by blast
  then show ?thesis
  proof cases
    case same
    then have "bx1 ?l \<le> bx1 c" using assms(3) l by (simp add: rect_key_def less_eq_prod_def)
    then show ?thesis
      using place_widen [OF b assms(4) same, of ok ov] place_append [OF assms(1) b assms(4) same, of ov]
      by (cases "bx1 c \<le> bx2 ?l") auto
  next
    case below
    then show ?thesis using place_band [OF assms(1) b assms(4,5)] by blast
  next
    case refuse
    then show ?thesis using l by (auto simp: place_rect_def Let_def info_rects_def)
  qed
qed

section \<open>Scattering\<close>

definition infos_ok :: "region_info list \<Rightarrow> box \<Rightarrow> bool" where
  "infos_ok ris c \<longleftrightarrow> (\<forall>rit \<in> set ris. info_ok rit \<and> rect_key (last (info_rects rit)) \<le> rect_key c)"

definition in_infos :: "region_info list \<Rightarrow> int \<Rightarrow> int \<Rightarrow> bool" where
  "in_infos ris x y \<longleftrightarrow> (\<exists>rit \<in> set ris. in_rects (info_rects rit) x y)"

lemma in_infos_simps [simp]:
  "in_infos [] x y = False" "in_infos (r # rs) x y \<longleftrightarrow> in_rects (info_rects r) x y \<or> in_infos rs x y"
  "in_infos (rs @ ss) x y \<longleftrightarrow> in_infos rs x y \<or> in_infos ss x y"
  by (auto simp: in_infos_def)

lemma find_region_ok:
  assumes "alloc_ok ok" "infos_ok ris c" "bx1 c < bx2 c" "by1 c < by2 c"
  shows "\<exists>ris' ov' found. find_region ok ris c ov = Some (ris', ov', found) \<and>
    (found \<longrightarrow> infos_ok ris' c \<and> length ris' = length ris \<and> (\<forall>x y. in_infos ris' x y \<longleftrightarrow> in_infos ris x y \<or> INBOX c x y))"
  using assms(2)
proof (induction ris)
  case (Cons rit ris)
  obtain ris' ov' found where IH: "find_region ok ris c ov = Some (ris', ov', found)"
    "found \<longrightarrow> infos_ok ris' c \<and> length ris' = length ris \<and> (\<forall>x y. in_infos ris' x y \<longleftrightarrow> in_infos ris x y \<or> INBOX c x y)"
    using Cons by (auto simp: infos_ok_def)
  have r: "info_ok rit" "rect_key (last (info_rects rit)) \<le> rect_key c" using Cons.prems by (auto simp: infos_ok_def)
  from place_rect_ok [OF assms(1) r assms(3,4), of ov] show ?case
  proof (elim disjE exE conjE)
    assume "place_rect ok rit c ov = NextRegion"
    then show ?thesis using IH r by (auto simp: infos_ok_def)
  next
    fix rit' ov'' assume p: "place_rect ok rit c ov = NextRect rit' ov''" "placed rit rit' c"
    then show ?thesis using Cons.prems by (auto simp: placed_def infos_ok_def)
  qed
qed (auto intro: exI [of _ False])

lemma new_region_ok:
  assumes "alloc_ok ok" "bx1 c < bx2 c" "by1 c < by2 c"
  obtains reg where "miRectAlloc ok \<lparr>extents = c, rgdata = NoData\<rparr> n = (True, reg)"
    "info_ok \<lparr>ri_reg = reg, prevBand = 0, curBand = 0\<rparr>" "info_rects \<lparr>ri_reg = reg, prevBand = 0, curBand = 0\<rparr> = [c]"
proof -
  let ?reg = "\<lparr>extents = c, rgdata = RegData (n + 1) [c]\<rparr>"
  have e: "pending c c = c" by (simp add: pending_def)
  have "building \<lparr>ri_reg = ?reg, prevBand = 0, curBand = 0\<rparr> [] (by1 c) (by2 c) [(bx1 c, bx2 c)]"
    using assms(2,3) tight_cong [OF tight_box [OF assms(2,3)]]
    by (simp add: building_def info_rects_def holds_def ends_by_def prev_ok_def e)
  moreover have "miRectAlloc ok \<lparr>extents = c, rgdata = NoData\<rparr> n = (True, ?reg)"
    using assms(1) by (simp add: miRectAlloc_def Let_def alloc_ok_def)
  ultimately show thesis using that [of ?reg] by (auto simp: info_ok_def info_rects_def)
qed

lemma infos_ok_mono: "infos_ok ris c \<Longrightarrow> rect_key c \<le> rect_key d \<Longrightarrow> infos_ok ris d"
  by (auto simp: infos_ok_def intro: order_trans)

lemma scatter_ok:
  assumes "alloc_ok ok" "alloc_ok okRI"
  shows "ris \<noteq> [] \<Longrightarrow> sorted (map rect_key (c # bs)) \<Longrightarrow> infos_ok ris c \<Longrightarrow>
      \<forall>b \<in> set bs. bx1 b < bx2 b \<and> by1 b < by2 b \<Longrightarrow>
    \<exists>ris' ov'. scatter ok okRI bs ris sz ov = (Some ris', ov') \<and> ris' \<noteq> [] \<and> (\<forall>rit \<in> set ris'. info_ok rit) \<and>
      (\<forall>x y. in_infos ris' x y \<longleftrightarrow> in_infos ris x y \<or> in_rects bs x y)"
proof (induction bs arbitrary: c ris sz ov)
  case (Cons b bs)
  have b: "bx1 b < bx2 b" "by1 b < by2 b" and k: "rect_key c \<le> rect_key b" using Cons.prems by auto
  note inf = infos_ok_mono [OF Cons.prems(3) k]
  obtain ris' ov' found where f: "find_region ok ris b ov = Some (ris', ov', found)"
    "found \<longrightarrow> infos_ok ris' b \<and> length ris' = length ris \<and> (\<forall>x y. in_infos ris' x y \<longleftrightarrow> in_infos ris x y \<or> INBOX b x y)"
    using find_region_ok [OF assms(1) inf b] by metis
  have srt: "sorted (map rect_key (b # bs))" and vb: "\<forall>b \<in> set bs. bx1 b < bx2 b \<and> by1 b < by2 b" using Cons.prems by auto
  show ?case
  proof (cases found)
    case True
    then have "ris' \<noteq> []" using f(2) Cons.prems(1) by auto
    from Cons.IH [OF this srt _ vb, of sz ov'] f True obtain ris2 ov2 where
      "scatter ok okRI bs ris' sz ov' = (Some ris2, ov2) \<and> ris2 \<noteq> [] \<and> (\<forall>rit \<in> set ris2. info_ok rit) \<and>
       (\<forall>x y. in_infos ris2 x y \<longleftrightarrow> in_infos ris' x y \<or> in_rects bs x y)" by metis
    then show ?thesis using f True by auto
  next
    case False
    define n where "n = Suc (Suc (length bs + length ris)) div Suc (length ris)"
    define sz' where "sz' = (if sz = length ris then 2 * sz else sz)"
    obtain reg where reg: "miRectAlloc ok \<lparr>extents = b, rgdata = NoData\<rparr> n = (True, reg)"
      "info_ok \<lparr>ri_reg = reg, prevBand = 0, curBand = 0\<rparr>" "info_rects \<lparr>ri_reg = reg, prevBand = 0, curBand = 0\<rparr> = [b]"
      using new_region_ok [OF assms(1) b] by metis
    let ?ris = "ris @ [\<lparr>ri_reg = reg, prevBand = 0, curBand = 0\<rparr>]"
    have s: "scatter ok okRI (b # bs) ris sz ov = scatter ok okRI bs ?ris sz' ov"
      using f(1) False assms(2) reg(1) by (simp add: Let_def n_def [symmetric] sz'_def alloc_ok_def)
    have "infos_ok ?ris b" using inf reg by (simp add: infos_ok_def)
    from Cons.IH [OF _ srt this vb, of sz' ov] show ?thesis
      unfolding s using reg(3) by auto
  qed
qed (auto simp: infos_ok_def)

section \<open>The final pass\<close>

lemma finish_info_ok:
  assumes "info_ok rit"
  shows "region_ok (finish_info rit)" "pixels (finish_info rit) x y \<longleftrightarrow> in_rects (info_rects rit) x y"
    "REGION_RECTS (finish_info rit) \<noteq> []"
proof -
  obtain out t b vs where B: "building rit out t b vs" using assms by (auto simp: info_ok_def)
  let ?e = "extents (ri_reg rit)" and ?l = "last (info_rects rit)"
  obtain prev reg where co: "Coalesce ((ri_reg rit)\<lparr>extents := pending ?e ?l\<rparr>) (prevBand rit) (curBand rit) = (prev, reg)"
    "holds reg (pending ?e ?l) (flat (emit out (t, b, vs)))"
    "\<And>x y. in_rects (flat (emit out (t, b, vs))) x y \<longleftrightarrow> in_rects (info_rects rit) x y"
    "canon (emit out (t, b, vs))"
    using coalesce_pending [OF B, of "pending ?e ?l"] by metis
  let ?rs = "flat (emit out (t, b, vs))"
  have tt: "tight (pending ?e ?l) (in_rects ?rs)"
    using B tight_cong [of "pending ?e ?l" "in_rects (info_rects rit)" "in_rects ?rs"] co(3) by (simp add: building_def)
  have wf: "wf_rects ?rs" using co(4) by (rule wf_rects_flat)
  obtain u v where "in_rects ?rs u v" using tt unfolding tight_def by blast
  then have ne: "?rs \<noteq> []" by (metis in_rects_simps(1))
  obtain s where s: "rgdata reg = RegData s ?rs" "length ?rs \<le> s" "extents reg = pending ?e ?l" using co(2) by (auto simp: holds_def)
  have pe: "(if bx2 (?e\<lparr>by2 := by2 ?l\<rparr>) < bx2 ?l then ?e\<lparr>by2 := by2 ?l, bx2 := bx2 ?l\<rparr> else ?e\<lparr>by2 := by2 ?l\<rparr>) = pending ?e ?l"
    by (cases ?e) (simp add: pending_def mkbox_def Let_def max_def)
  have fin: "finish_info rit = (if length ?rs = 1 then reg\<lparr>rgdata := NoData\<rparr> else reg)"
    unfolding finish_info_def Let_def info_rects_def [symmetric] pe co(1) prod.case s(1) by simp
  have "region_ok (finish_info rit) \<and> REGION_RECTS (finish_info rit) = ?rs"
  proof (cases "length ?rs = 1")
    case True
    then obtain d where d: "?rs = [d]" by (auto simp: length_Suc_conv)
    then have "d = extents reg"
      using tight_unique [OF _ tt] tight_cong [OF tight_box [of d], of "in_rects ?rs"] wf s(3) by simp
    then show ?thesis using d fin wf by (simp add: region_ok_NoData REGION_RECTS_def)
  next
    case False
    then have "2 \<le> length ?rs" using ne by (cases ?rs; cases "tl ?rs") auto
    moreover have r: "REGION_RECTS reg = ?rs" using s by (simp add: REGION_RECTS_def)
    moreover have "pixels reg = in_rects ?rs" by (intro ext) (simp add: pixels_def r)
    ultimately show ?thesis using False fin s wf tt ne by (simp add: region_ok_def region_shape_def)
  qed
  then show "region_ok (finish_info rit)" "pixels (finish_info rit) x y \<longleftrightarrow> in_rects (info_rects rit) x y"
    "REGION_RECTS (finish_info rit) \<noteq> []"
    using co(3) ne by (auto simp: pixels_def)
qed

section \<open>Merging\<close>

lemma extend_hull_eq: "extend_hull e f = hull e f"
  by (cases e) (simp add: extend_hull_def hull_def mkbox_def Let_def min_def max_def)

text \<open>What an array of regions stands for: \<open>n\<close> regions, all well formed and not empty.\<close>

definition all_ok :: "nat \<Rightarrow> (nat \<Rightarrow> region) \<Rightarrow> bool" where
  "all_ok n h \<longleftrightarrow> (\<forall>j<n. region_ok (h j) \<and> REGION_RECTS (h j) \<noteq> [])"

lemma nonempty_pixels: "region_ok r \<Longrightarrow> REGION_RECTS r \<noteq> [] \<longleftrightarrow> (\<exists>x y. pixels r x y)"
  using region_ok_empty_iff by auto

lemma merge_pair_ok:
  assumes "alloc_ok ok" "0 < half" "region_ok (h j)" "REGION_RECTS (h j) \<noteq> []" "region_ok (h (j + half))" "REGION_RECTS (h (j + half)) \<noteq> []"
  shows "\<exists>r ov'. merge_pair ok half (h, ret, ov) j = (h(j := r), ret, ov') \<and> region_ok r \<and> REGION_RECTS r \<noteq> [] \<and>
    (\<forall>x y. pixels r x y \<longleftrightarrow> pixels (h j) x y \<or> pixels (h (j + half)) x y)"
proof -
  obtain r ov' where op: "miRegionOp ok miUnionO True True j j (j + half) h ov = (True, h(j := r), ov')"
    and res: "let e' = hull (extents ((h(j := r)) j)) (extents ((h(j := r)) (j + half))) in
     region_ok (r\<lparr>extents := e'\<rparr>) \<and>
     (\<forall>x y. pixels (r\<lparr>extents := e'\<rparr>) x y \<longleftrightarrow> pixels (h j) x y \<or> pixels (h (j + half)) x y)"
    using union_op_ok [where h = h and destReg = j and ?reg1.0 = j and srcReg = "j + half" and ov = ov, OF assms(1,3,5,4,6)] by metis
  let ?r = "r\<lparr>extents := hull (extents r) (extents (h (j + half)))\<rparr>"
  have "merge_pair ok half (h, ret, ov) j = (h(j := ?r), ret, ov')"
    using op assms(2) by (simp add: merge_pair_def extend_hull_eq)
  moreover have r: "region_ok ?r" "pixels ?r x y \<longleftrightarrow> pixels (h j) x y \<or> pixels (h (j + half)) x y" for x y
    using res assms(2) by (auto simp: Let_def)
  moreover have "REGION_RECTS ?r \<noteq> []"
    using r nonempty_pixels [OF r(1)] nonempty_pixels [OF assms(3)] assms(4) by blast
  ultimately show ?thesis by blast
qed

lemma merge_pass_ok:
  assumes "alloc_ok ok" "0 < half" "m \<le> half" "all_ok (o1 + 2 * half) h"
  shows "\<exists>h' ov'. foldl (merge_pair ok half) (h, ret, ov) [o1..<o1 + m] = (h', ret, ov') \<and>
    all_ok (o1 + 2 * half) h' \<and> (\<forall>j. \<not> (o1 \<le> j \<and> j < o1 + m) \<longrightarrow> h' j = h j) \<and>
    (\<forall>j x y. o1 \<le> j \<and> j < o1 + m \<longrightarrow> (pixels (h' j) x y \<longleftrightarrow> pixels (h j) x y \<or> pixels (h (j + half)) x y))"
  using assms(3)
proof (induction m)
  case 0
  then show ?case using assms(4) by auto
next
  case (Suc m)
  then obtain h' ov' where IH: "foldl (merge_pair ok half) (h, ret, ov) [o1..<o1 + m] = (h', ret, ov')"
    "all_ok (o1 + 2 * half) h'" "\<forall>j. \<not> (o1 \<le> j \<and> j < o1 + m) \<longrightarrow> h' j = h j"
    "\<forall>j x y. o1 \<le> j \<and> j < o1 + m \<longrightarrow> (pixels (h' j) x y \<longleftrightarrow> pixels (h j) x y \<or> pixels (h (j + half)) x y)"
    by auto
  let ?j = "o1 + m"
  have j: "region_ok (h' ?j)" "REGION_RECTS (h' ?j) \<noteq> []" "region_ok (h' (?j + half))" "REGION_RECTS (h' (?j + half)) \<noteq> []"
    using IH(2) Suc.prems by (auto simp: all_ok_def)
  obtain r ov2 where r: "merge_pair ok half (h', ret, ov') ?j = (h'(?j := r), ret, ov2)" "region_ok r" "REGION_RECTS r \<noteq> []"
    "\<And>x y. pixels r x y \<longleftrightarrow> pixels (h' ?j) x y \<or> pixels (h' (?j + half)) x y"
    using merge_pair_ok [where h = h' and j = ?j and ret = ret and ov = ov', OF assms(1,2) j] by metis
  have eq: "h' ?j = h ?j" "h' (?j + half) = h (?j + half)" using IH(3) Suc.prems by auto
  have f: "foldl (merge_pair ok half) (h, ret, ov) [o1..<o1 + Suc m] = (h'(?j := r), ret, ov2)"
    using IH(1) r(1) by simp
  show ?case
    unfolding f using IH(2-4) r(2-4) eq by (auto simp: all_ok_def less_Suc_eq)
qed

lemma merge_all_ok:
  assumes "alloc_ok ok"
  shows "0 < n \<Longrightarrow> all_ok n h \<Longrightarrow> \<exists>h' ov'. merge_all ok n (h, True, ov) = (h', True, ov') \<and> region_ok (h' 0) \<and>
    (\<forall>x y. pixels (h' 0) x y \<longleftrightarrow> (\<exists>j<n. pixels (h j) x y))"
proof (induction n arbitrary: h ov rule: less_induct)
  case (less n)
  show ?case
  proof (cases "n > 1")
    case True
    let ?half = "n div 2" and ?o = "n mod 2"
    have n: "?o + 2 * ?half = n" "0 < ?half" "?o \<le> 1" "n - ?half < n" "0 < n - ?half" "n - ?half = ?o + ?half"
      using True by (auto, presburger)
    obtain h' ov' where p: "foldl (merge_pair ok ?half) (h, True, ov) [?o..<?o + ?half] = (h', True, ov')"
      "all_ok n h'" "\<forall>j. \<not> (?o \<le> j \<and> j < ?o + ?half) \<longrightarrow> h' j = h j"
      "\<And>j x y. ?o \<le> j \<and> j < ?o + ?half \<Longrightarrow> pixels (h' j) x y \<longleftrightarrow> pixels (h j) x y \<or> pixels (h (j + ?half)) x y"
      using merge_pass_ok [OF assms n(2) order_refl, of ?o h True ov] less.prems(2) n(1) by auto
    have "all_ok (n - ?half) h'" using p(2) by (auto simp: all_ok_def)
    from less.IH [OF n(4,5) this, of ov'] obtain h2 ov2 where q:
      "merge_all ok (n - ?half) (h', True, ov') = (h2, True, ov2)" "region_ok (h2 0)"
      "\<And>x y. pixels (h2 0) x y \<longleftrightarrow> (\<exists>j<n - ?half. pixels (h' j) x y)" by blast
    have m: "merge_all ok n (h, True, ov) = (h2, True, ov2)"
      using True p(1) q(1) by (subst merge_all.simps) (simp add: Let_def add.commute)
    have "(\<exists>j<n - ?half. pixels (h' j) x y) \<longleftrightarrow> (\<exists>j<n. pixels (h j) x y)" for x y
    proof
      assume "\<exists>j<n - ?half. pixels (h' j) x y"
      then obtain j where j: "j < ?o + ?half" "pixels (h' j) x y" using n(6) by auto
      then show "\<exists>j<n. pixels (h j) x y"
      proof -
        have lt: "j < n" "j + ?half < n" using j(1) n(1) by linarith+
        have "pixels (h j) x y \<or> pixels (h (j + ?half)) x y"
          using p(3) p(4) [of j x y] j by (cases "?o \<le> j") auto
        then show ?thesis using lt by blast
      qed
    next
      assume "\<exists>j<n. pixels (h j) x y"
      then obtain j where j: "j < n" "pixels (h j) x y" by auto
      consider "j < ?o" | "?o \<le> j" "j < ?o + ?half" | "?o + ?half \<le> j" by linarith
      then show "\<exists>j<n - ?half. pixels (h' j) x y"
      proof cases
        case 3
        then have "?o \<le> j - ?half" "j - ?half < ?o + ?half" "j - ?half + ?half = j" using j(1) n(1) by linarith+
        then show ?thesis using p(4) [of "j - ?half" x y] j(2) n(6) by auto
      next
        case 1
        then have "h' j = h j" "j < n - ?half" using p(3) n(6) by auto
        then show ?thesis using j(2) by auto
      qed (use p(4) [of j x y] j n(6) in auto)
    qed
    then show ?thesis using m q by auto
  next
    case False
    then have "n = 1" using less.prems(1) by simp
    then show ?thesis using less.prems(2) by (subst merge_all.simps) (simp add: all_ok_def)
  qed
qed

section \<open>miRegionValidate\<close>

text \<open>A block of rectangles not yet validated: every rectangle is proper, the extents are empty.\<close>

definition unvalidated :: "region \<Rightarrow> bool" where
  "unvalidated r \<longleftrightarrow> bx2 (extents r) \<le> bx1 (extents r) \<and>
     (\<exists>s rs. rgdata r = RegData s rs \<and> rs \<noteq> [] \<and> length rs \<le> s \<and> (\<forall>b \<in> set rs. bx1 b < bx2 b \<and> by1 b < by2 b))"

lemma first_region_ok:
  assumes "bx1 c < bx2 c" "by1 c < by2 c" "0 < s"
  shows "info_ok \<lparr>ri_reg = r\<lparr>extents := c, rgdata := RegData s [c]\<rparr>, prevBand = 0, curBand = 0\<rparr>"
proof -
  have e: "pending c c = c" by (simp add: pending_def)
  have "building \<lparr>ri_reg = r\<lparr>extents := c, rgdata := RegData s [c]\<rparr>, prevBand = 0, curBand = 0\<rparr> [] (by1 c) (by2 c) [(bx1 c, bx2 c)]"
    using assms tight_cong [OF tight_box [OF assms(1,2)]]
    by (simp add: building_def info_rects_def holds_def ends_by_def prev_ok_def e)
  then show ?thesis by (auto simp: info_ok_def)
qed

lemma in_rects_mset: "mset as = mset bs \<Longrightarrow> in_rects as x y = in_rects bs x y"
  by (metis in_rects_set set_mset_mset)

lemma miRegionValidate_ok:
  assumes "alloc_ok ok" "alloc_ok okRI" "unvalidated badreg"
  shows "\<exists>r ov. miRegionValidate ok okRI badreg = (True, r, ov) \<and> region_ok r \<and>
    (\<forall>x y. pixels r x y \<longleftrightarrow> pixels badreg x y)"
proof -
  obtain s rs where d: "rgdata badreg = RegData s rs" "rs \<noteq> []" "length rs \<le> s" "\<forall>b \<in> set rs. bx1 b < bx2 b \<and> by1 b < by2 b"
    "\<not> bx1 (extents badreg) < bx2 (extents badreg)"
    using assms(3) by (auto simp: unvalidated_def)
  let ?qs = "QuickSortRects rs"
  have q: "sorted (map rect_key ?qs)" "mset ?qs = mset rs" using QuickSortRects_sorts [OF d(2)] by auto
  then have "?qs \<noteq> []" using d(2) by auto
  then obtain c bs where cb: "?qs = c # bs" by (cases ?qs) auto
  have v: "\<forall>b \<in> set (c # bs). bx1 b < bx2 b \<and> by1 b < by2 b"
    using d(4) mset_eq_setD [OF q(2)] cb by simp
  let ?ri = "\<lparr>ri_reg = badreg\<lparr>extents := c, rgdata := RegData s [c]\<rparr>, prevBand = 0, curBand = 0\<rparr>"
  have "0 < s" using d(2,3) by (cases rs) auto
  then have ri: "info_ok ?ri" using first_region_ok v by simp
  have rc: "info_rects ?ri = [c]" by (simp add: info_rects_def)
  have "infos_ok [?ri] c" using ri rc by (simp add: infos_ok_def)
  from scatter_ok [OF assms(1,2) _ q(1) [unfolded cb] this, of 4 False] v obtain ris ov where
    sc: "scatter ok okRI bs [?ri] 4 False = (Some ris, ov)" "ris \<noteq> []" "\<forall>rit \<in> set ris. info_ok rit"
      "\<And>x y. in_infos ris x y \<longleftrightarrow> in_infos [?ri] x y \<or> in_rects bs x y" by auto
  have f: "region_ok (finish_info (ris ! j)) \<and> REGION_RECTS (finish_info (ris ! j)) \<noteq> [] \<and>
      (\<forall>x y. pixels (finish_info (ris ! j)) x y \<longleftrightarrow> in_rects (info_rects (ris ! j)) x y)" if "j < length ris" for j
    using finish_info_ok [of "ris ! j"] sc(3) that by auto
  then have "all_ok (length ris) (\<lambda>j. finish_info (ris ! j))" by (simp add: all_ok_def)
  moreover have "0 < length ris" using sc(2) by simp
  ultimately obtain h ov2 where m: "merge_all ok (length ris) (\<lambda>j. finish_info (ris ! j), True, ov) = (h, True, ov2)"
    "region_ok (h 0)" "\<And>x y. pixels (h 0) x y \<longleftrightarrow> (\<exists>j<length ris. pixels (finish_info (ris ! j)) x y)"
    using merge_all_ok [OF assms(1), of "length ris" "\<lambda>j. finish_info (ris ! j)" ov] by blast
  have "pixels (h 0) x y \<longleftrightarrow> pixels badreg x y" for x y
  proof -
    have "pixels (h 0) x y \<longleftrightarrow> in_infos ris x y"
    proof -
      have "(\<exists>j<length ris. pixels (finish_info (ris ! j)) x y) \<longleftrightarrow> (\<exists>j<length ris. in_rects (info_rects (ris ! j)) x y)"
        using f by blast
      also have "\<dots> \<longleftrightarrow> in_infos ris x y" by (force simp: in_infos_def in_set_conv_nth)
      finally show ?thesis using m(3) [of x y] by blast
    qed
    also have "\<dots> \<longleftrightarrow> in_rects ?qs x y" using sc(4) [of x y] rc cb by simp
    also have "\<dots> \<longleftrightarrow> pixels badreg x y" using in_rects_mset [OF q(2)] d(1) by (simp add: pixels_def REGION_RECTS_def)
    finally show ?thesis .
  qed
  moreover have "miRegionValidate ok okRI badreg = (True, h 0, ov2)"
  proof -
    have "okRI 4" "length rs \<noteq> 0" using assms(2) d(2) by (simp_all add: alloc_ok_def)
    then show ?thesis
      unfolding miRegionValidate_def Let_def d(1) data_rects.simps data_size.simps cb list.sel sc(1)
      by (simp only: d(5) m(1) rdata.distinct if_False not_not simp_thms prod.case option.case if_True)
  qed
  ultimately show ?thesis using m(2) by blast
qed

end
