(* ===== verification/RegionMake.thy ===== *)
theory RegionMake
  imports RegionValidate RegionTranslate
begin

text \<open>
  \<open>miRectsToRegion\<close> of \<open>region/x11region.c\<close>: a region from a list of X rectangles, which
  are clamped to the range of \<open>short\<close>; empty ones are dropped.
\<close>

section \<open>The code\<close>

text \<open>An \<open>xRectangle\<close>: two \<open>short\<close> coordinates, two \<open>unsigned short\<close> sizes.\<close>

record xRectangle =
  rx :: int
  ry :: int
  rwidth :: int
  rheight :: int

definition CT_YXBANDED :: int where "CT_YXBANDED = 18"

definition rect_box :: "xRectangle \<Rightarrow> box" where
  "rect_box p =
     (let x1 = rx p; y1 = ry p;
          x2 = (if x1 + rwidth p > MAXSHORT then MAXSHORT else x1 + rwidth p);
          y2 = (if y1 + rheight p > MAXSHORT then MAXSHORT else y1 + rheight p)
      in mkbox x1 y1 x2 y2)"

fun collect_boxes :: "xRectangle list \<Rightarrow> box list" where
  "collect_boxes [] = []"
| "collect_boxes (p # ps) =
     (let b = rect_box p in
      if bx1 b \<noteq> bx2 b \<and> by1 b \<noteq> by2 b then b # collect_boxes ps else collect_boxes ps)"

definition miRectsToRegion :: "allocator \<Rightarrow> bool \<Rightarrow> allocator \<Rightarrow> xRectangle list \<Rightarrow> int \<Rightarrow> region" where
  "miRectsToRegion ok okHeader okRI prect ctype =
     (let pRgn = miRegionCreate ok okHeader None 0; nrects = length prect in
      if REGION_NAR pRgn then pRgn
      else if nrects = 0 then pRgn
      else if nrects = 1 then
        (let b = rect_box (hd prect) in
         if bx1 b \<noteq> bx2 b \<and> by1 b \<noteq> by2 b then pRgn\<lparr>extents := b, rgdata := NoData\<rparr> else pRgn)
      else if \<not> ok nrects then snd (miRegionBreak pRgn)
      else
        let boxes = collect_boxes prect in
        if boxes \<noteq> [] then
          (let pRgn = pRgn\<lparr>rgdata := RegData nrects boxes\<rparr> in
           if ctype \<noteq> CT_YXBANDED then
             (case miRegionValidate ok okRI (pRgn\<lparr>extents := (extents pRgn)\<lparr>bx1 := 0, bx2 := 0\<rparr>\<rparr>) of
                (_, r, _) \<Rightarrow> r)
           else miSetExtents pRgn)
        else pRgn)"

section \<open>The boxes of the rectangles\<close>

definition xrect_ok :: "xRectangle \<Rightarrow> bool" where
  "xrect_ok p \<longleftrightarrow> rx p \<le> MAXSHORT \<and> ry p \<le> MAXSHORT \<and> 0 \<le> rwidth p \<and> 0 \<le> rheight p"

lemma rect_box_proper:
  "xrect_ok p \<Longrightarrow> bx1 (rect_box p) \<le> bx2 (rect_box p) \<and> by1 (rect_box p) \<le> by2 (rect_box p)"
  by (auto simp: xrect_ok_def rect_box_def Let_def)

lemma collect_boxes_proper:
  assumes "\<forall>p \<in> set ps. xrect_ok p"
  shows "\<forall>b \<in> set (collect_boxes ps). bx1 b < bx2 b \<and> by1 b < by2 b" "length (collect_boxes ps) \<le> length ps"
    "in_rects (collect_boxes ps) x y \<longleftrightarrow> (\<exists>p \<in> set ps. INBOX (rect_box p) x y)"
proof -
  have "bx1 (rect_box p) < bx2 (rect_box p) \<and> by1 (rect_box p) < by2 (rect_box p)"
    if "p \<in> set ps" "bx1 (rect_box p) \<noteq> bx2 (rect_box p)" "by1 (rect_box p) \<noteq> by2 (rect_box p)" for p
    using assms rect_box_proper [of p] that by fastforce
  then show "\<forall>b \<in> set (collect_boxes ps). bx1 b < bx2 b \<and> by1 b < by2 b"
    by (induction ps) (auto simp: Let_def)
  show "length (collect_boxes ps) \<le> length ps" by (induction ps) (auto simp: Let_def)
  show "in_rects (collect_boxes ps) x y \<longleftrightarrow> (\<exists>p \<in> set ps. INBOX (rect_box p) x y)"
    by (induction ps) (auto simp: Let_def INBOX_def)
qed

section \<open>Correctness\<close>

lemma created_empty: "region_ok (miRegionCreate ok True None 0)" "REGION_RECTS (miRegionCreate ok True None 0) = []"
  by (simp_all add: miRegionCreate_def region_ok_EmptyData degenerate_def REGION_RECTS_def miEmptyBox_def)

lemma miRectsToRegion_ok:
  assumes "alloc_ok ok" "alloc_ok okRI" "\<forall>p \<in> set ps. xrect_ok p" "ctype \<noteq> CT_YXBANDED"
  shows "region_ok (miRectsToRegion ok True okRI ps ctype) \<and>
    (\<forall>x y. pixels (miRectsToRegion ok True okRI ps ctype) x y \<longleftrightarrow> (\<exists>p \<in> set ps. INBOX (rect_box p) x y))"
proof -
  let ?c = "miRegionCreate ok True None 0"
  note boxes = collect_boxes_proper [OF assms(3)]
  have nar: "\<not> REGION_NAR ?c" by (rule region_ok_NAR [OF created_empty(1)])
  have none: "region_ok ?c \<and> (\<forall>x y. pixels ?c x y \<longleftrightarrow> in_rects (collect_boxes ps) x y)" if "collect_boxes ps = []"
    using created_empty [of ok] that by (simp add: pixels_def)
  consider (none) "ps = []" | (one) p where "ps = [p]" | (many) "length ps \<noteq> 0" "length ps \<noteq> 1"
    by (cases ps; cases "tl ps") auto
  then have "region_ok (miRectsToRegion ok True okRI ps ctype) \<and>
    (\<forall>x y. pixels (miRectsToRegion ok True okRI ps ctype) x y \<longleftrightarrow> in_rects (collect_boxes ps) x y)"
  proof cases
    case none
    then show ?thesis using none nar \<open>collect_boxes ps = [] \<Longrightarrow> _\<close> by (simp add: miRectsToRegion_def Let_def)
  next
    case one
    show ?thesis
    proof (cases "collect_boxes ps = []")
      case True
      then have "miRectsToRegion ok True okRI ps ctype = ?c"
        using one nar by (auto simp: miRectsToRegion_def Let_def)
      then show ?thesis using none [OF True] by simp
    next
      case False
      then have e: "collect_boxes ps = [rect_box p]" "miRectsToRegion ok True okRI ps ctype = ?c\<lparr>extents := rect_box p, rgdata := NoData\<rparr>"
        using one nar by (auto simp: miRectsToRegion_def Let_def split: if_splits)
      then show ?thesis using boxes(1) by (simp add: region_ok_NoData pixels_NoData)
    qed
  next
    case many
    show ?thesis
    proof (cases "collect_boxes ps = []")
      case True
      then have "miRectsToRegion ok True okRI ps ctype = ?c"
        using many nar assms(1) by (auto simp: miRectsToRegion_def Let_def alloc_ok_def)
      then show ?thesis using none [OF True] by simp
    next
      case False
      let ?bad = "?c\<lparr>rgdata := RegData (length ps) (collect_boxes ps), extents := (extents ?c)\<lparr>bx1 := 0, bx2 := 0\<rparr>\<rparr>"
      have "unvalidated ?bad" using False boxes(1,2) by (simp add: unvalidated_def)
      from miRegionValidate_ok [OF assms(1,2) this] obtain r ov where
        "miRegionValidate ok okRI ?bad = (True, r, ov)" "region_ok r" "\<forall>x y. pixels r x y \<longleftrightarrow> pixels ?bad x y" by blast
      moreover have "pixels ?bad x y \<longleftrightarrow> in_rects (collect_boxes ps) x y" for x y
        by (simp add: pixels_def REGION_RECTS_def)
      moreover have "miRectsToRegion ok True okRI ps ctype = (case miRegionValidate ok okRI ?bad of (_, r, _) \<Rightarrow> r)"
        using False many nar assms(1,4) by (simp add: miRectsToRegion_def Let_def alloc_ok_def)
      ultimately show ?thesis by simp
    qed
  qed
  then show ?thesis using boxes(3) by simp
qed

text \<open>Rectangles that are banded already are taken as they are.\<close>

lemma miRectsToRegion_banded:
  assumes "alloc_ok ok" "wf_rects (collect_boxes ps)" "2 \<le> length (collect_boxes ps)"
  shows "region_ok (miRectsToRegion ok True okRI ps CT_YXBANDED) \<and>
    REGION_RECTS (miRectsToRegion ok True okRI ps CT_YXBANDED) = collect_boxes ps"
proof -
  let ?c = "miRegionCreate ok True None 0"
  let ?r = "?c\<lparr>rgdata := RegData (length ps) (collect_boxes ps)\<rparr>"
  have len: "length (collect_boxes qs) \<le> length qs" for qs by (induction qs) (auto simp: Let_def)
  have "collect_boxes ps \<noteq> []" "2 \<le> length ps" using assms(3) len [of ps] by auto
  moreover have "\<not> REGION_NAR ?c" by (rule region_ok_NAR [OF created_empty(1)])
  ultimately have "miRectsToRegion ok True okRI ps CT_YXBANDED = miSetExtents ?r"
    using assms(1) by (auto simp: miRectsToRegion_def Let_def alloc_ok_def)
  moreover have "region_shape ?r" "REGION_RECTS ?r = collect_boxes ps"
    using assms(3) len [of ps] by (simp_all add: region_shape_def REGION_RECTS_def)
  ultimately show ?thesis using miSetExtents_ok [of ?r] assms(2) by simp
qed

end
