(* ===== verification/RegionSpans.thy ===== *)
theory RegionSpans
  imports RegionSort RegionQuery
begin

text \<open>
  \<open>QuickSortSpans\<close> and \<open>miClipSpans\<close> of \<open>region/x11region.c\<close>: a list of scanlines is
  clipped to a region. The arrays of points and of widths are always moved together; the
  model has one list of spans.
\<close>

section \<open>The code\<close>

record span =
  sx :: int
  sy :: int
  sw :: int

definition span_less :: "span \<Rightarrow> span \<Rightarrow> bool" where
  "span_less a b \<longleftrightarrow> sy a < sy b"

text \<open>
  One round of the insertion sort for fewer than nine spans: \<open>yprev\<close> is the row of the
  span before.
\<close>

definition insert_span :: "span list \<Rightarrow> nat \<Rightarrow> span list" where
  "insert_span spans i =
     (let y = sy (spans ! i); yprev = sy (spans ! (i - 1)) in
      if yprev > y then
        (let j = length (takeWhile (\<lambda>s. y \<ge> sy s) spans)
         in take j spans @ [spans ! i] @ drop j (take i spans) @ drop (i + 1) spans)
      else spans)"

text \<open>The median of three goes to index 0.\<close>

definition median_first :: "span list \<Rightarrow> span list" where
  "median_first spans =
     (let n = length spans; m = n div 2;
          spans = (if sy (spans ! m) > sy (spans ! 0) then exchange spans m 0 else spans);
          spans = (if sy (spans ! m) > sy (spans ! (n - 1)) then exchange spans m (n - 1) else spans)
      in if sy (spans ! m) > sy (spans ! 0) then exchange spans m 0 else spans)"

lemma length_median_first [simp]: "length (median_first spans) = length spans"
  by (simp add: median_first_def Let_def)

function QuickSortSpans :: "span list \<Rightarrow> span list" where
  "QuickSortSpans spans =
     (let n = length spans in
      if n < 9 then foldl insert_span spans [1..<n]
      else
        let (a, j) = partition_at span_less (median_first spans);
            right = (if n - j - 1 > 1 then QuickSortSpans (drop (j + 1) a) else drop (j + 1) a);
            left = (if j > 1 then QuickSortSpans (take j a) else take j a)
        in left @ [a ! j] @ right)"
  by pat_completeness auto
termination
proof (relation "measure length", goal_cases)
  case (2 spans n a b j)
  then have "length b = length spans" "j \<le> length spans - 1"
    using partition_at_shape [of span_less "median_first spans" b j] by simp_all
  then show ?case using 2(1,5) by auto
next
  case (3 spans n a b j)
  then have "length b = length spans" "j \<le> length spans - 1"
    using partition_at_shape [of span_less "median_first spans" b j] by simp_all
  then show ?case using 3(6) by auto
qed simp

declare QuickSortSpans.simps [simp del]

text \<open>The part of a span inside a box of the band.\<close>

definition clip_to :: "box \<Rightarrow> span \<Rightarrow> span list" where
  "clip_to pbox s =
     (let x1 = sx s; x2 = x1 + sw s;
          newx1 = (if x1 < bx1 pbox then bx1 pbox else x1);
          newx2 = (if x2 > bx2 pbox then bx2 pbox else x2)
      in if newx1 < newx2 then [\<lparr>sx = newx1, sy = sy s, sw = newx2 - newx1\<rparr>] else [])"

text \<open>The loop for a region that is one rectangle.\<close>

fun clip_single :: "box \<Rightarrow> span list \<Rightarrow> span list" where
  "clip_single e [] = []"
| "clip_single e (s # ss) =
     (if by1 e \<le> sy s \<and> sy s < by2 e then clip_to e s @ clip_single e ss else clip_single e ss)"

text \<open>
  The loop over bands: \<open>band\<close> is \<open>pboxBandStart\<close> to \<open>pboxBandEnd\<close>, \<open>rest\<close> the boxes
  behind it. \<open>NextBand\<close> skips the spans above the new band.
\<close>

function clip_bands :: "box list \<Rightarrow> box list \<Rightarrow> span list \<Rightarrow> span list" where
  "clip_bands band rest [] = []"
| "clip_bands band rest (s # ss) =
     (if sy s < by2 (hd band) then concat (map (\<lambda>pbox. clip_to pbox s) band) @ clip_bands band rest ss
      else if rest = [] then []
      else
        let (band', rest') = FindBand rest
        in clip_bands band' rest' (dropWhile (\<lambda>s. sy s < by1 (hd rest)) (s # ss)))"
  by pat_completeness auto
termination
proof (relation "measure (\<lambda>(band, rest, ss). length rest + length ss)", goal_cases)
  case (3 band rest s ss p band' rest')
  then have "length rest' < length rest" using FindBand_rest_less [of rest] by (metis snd_conv)
  then show ?case using length_dropWhile_le [of "\<lambda>s. sy s < by1 (hd rest)" "s # ss"] by simp
qed auto

definition miClipSpans :: "region \<Rightarrow> span list \<Rightarrow> bool \<Rightarrow> span list" where
  "miClipSpans prgnDst spans fSorted =
     (if rgdata prgnDst = NoData then clip_single (extents prgnDst) spans
      else
        let rs = data_rects (rgdata prgnDst) in
        if rs = [] then []
        else
          let spans = (if \<not> fSorted \<and> length spans > 1 then QuickSortSpans spans else spans);
              (band, rest) = FindBand rs
          in clip_bands band rest (dropWhile (\<lambda>s. sy s < by1 (hd rs)) spans))"

section \<open>The sort\<close>

interpretation spans: keyed_order span_less sy
  by unfold_locales (simp add: span_less_def)

lemma sorted_take_less:
  "sorted (map f (take i xs)) \<Longrightarrow> j < i \<Longrightarrow> i \<le> length xs \<Longrightarrow> k \<le> j \<Longrightarrow> f (xs ! k) \<le> f (xs ! j)"
  using sorted_nth_mono [of "map f (take i xs)" k j] by simp

lemma insert_span_ok:
  assumes "sorted (map sy (take i spans))" "0 < i" "i < length spans"
  shows "sorted (map sy (take (i + 1) (insert_span spans i))) \<and> mset (insert_span spans i) = mset spans"
proof (cases "sy (spans ! (i - 1)) > sy (spans ! i)")
  case True
  let ?P = "\<lambda>s. sy (spans ! i) \<ge> sy s"
  define j where "j = length (takeWhile ?P spans)"
  have ji: "j < i"
  proof (rule ccontr)
    assume "\<not> j < i"
    then have "i - 1 < j" using assms(2) by simp
    then have "?P (spans ! (i - 1))" unfolding j_def by (metis nth_mem set_takeWhileD takeWhile_nth)
    then show False using True by simp
  qed
  define A B C where "A = take j spans" and "B = drop j (take i spans)" and "C = drop (i + 1) spans"
  have ins: "insert_span spans i = A @ [spans ! i] @ B @ C"
    using True by (simp add: insert_span_def Let_def A_def B_def C_def j_def)
  have ti: "take i spans = A @ B" using append_take_drop_id [of j "take i spans"] ji by (simp add: A_def B_def)
  have sp: "spans = A @ B @ [spans ! i] @ C"
    using id_take_nth_drop [OF assms(3)] ti by (simp add: C_def)
  have low: "\<forall>s \<in> set A. sy s \<le> sy (spans ! i)"
    unfolding A_def j_def takeWhile_eq_take [symmetric] by (auto dest: set_takeWhileD)
  have "B \<noteq> []" using ji assms(3) by (simp add: B_def)
  then obtain b B' where b: "B = b # B'" by (cases B) auto
  have "b = spans ! j" using b ji assms(3) by (metis B_def hd_drop_conv_nth length_take list.sel(1) min.absorb4 nth_take)
  then have "sy (spans ! i) < sy b"
    using nth_length_takeWhile [of ?P spans] ji assms(3) by (simp add: j_def)
  then have high: "\<forall>s \<in> set B. sy (spans ! i) \<le> sy s"
    using assms(1) unfolding ti b by (auto simp: sorted_append)
  have "take (i + 1) (A @ [spans ! i] @ B @ C) = A @ [spans ! i] @ B"
    using ji assms(3) by (simp add: A_def B_def Suc_diff_le)
  moreover have "sorted (map sy (A @ [spans ! i] @ B))"
    using assms(1) low high unfolding ti by (auto simp: sorted_append)
  moreover have "mset (A @ [spans ! i] @ B @ C) = mset spans" by (subst sp) simp
  ultimately show ?thesis unfolding ins by simp
next
  case False
  have "sorted (map sy (take i spans @ [spans ! i]))"
  proof -
    have "\<forall>s \<in> set (take i spans). sy s \<le> sy (spans ! (i - 1))"
      using sorted_take_less [OF assms(1), of "i - 1"] assms(2,3) by (auto simp: in_set_conv_nth)
    then show ?thesis using assms(1) False by (fastforce simp: sorted_append)
  qed
  then show ?thesis using False assms(3) by (simp add: insert_span_def Let_def take_Suc_conv_app_nth)
qed

lemma insertion_sorts:
  assumes "n \<le> length spans" "0 < n"
  shows "sorted (map sy (take n (foldl insert_span spans [1..<n]))) \<and> mset (foldl insert_span spans [1..<n]) = mset spans"
  using assms(2,1)
proof (induction n rule: nat_induct_non_zero)
  case 1
  then show ?case by (cases spans) auto
next
  case (Suc n)
  let ?f = "foldl insert_span spans [1..<n]"
  have IH: "sorted (map sy (take n ?f))" "mset ?f = mset spans" using Suc by auto
  have "n < length ?f" using Suc.prems mset_eq_length [OF IH(2)] by simp
  from insert_span_ok [OF IH(1) Suc.hyps this] IH(2) Suc.hyps show ?case by simp
qed

lemma mset_median_first: "spans \<noteq> [] \<Longrightarrow> mset (median_first spans) = mset spans"
proof -
  have ex: "i < length a \<Longrightarrow> j < length a \<Longrightarrow> mset (exchange a i j) = mset a" for i j and a :: "span list"
    by (simp add: exchange_def mset_swap)
  assume "spans \<noteq> []"
  then show ?thesis by (simp add: median_first_def Let_def ex)
qed

lemma QuickSortSpans_sorts:
  "ss \<noteq> [] \<Longrightarrow> sorted (map sy (QuickSortSpans ss)) \<and> mset (QuickSortSpans ss) = mset ss"
proof (induction ss rule: length_induct)
  case (1 ss)
  show ?case
  proof (cases "length ss < 9")
    case True
    have "length (foldl insert_span ss [1..<length ss]) = length ss"
      using insertion_sorts [of "length ss" ss] "1.prems" by (metis length_greater_0_conv mset_eq_length order_refl)
    then show ?thesis
      using True insertion_sorts [of "length ss" ss] "1.prems" by (subst (1 2) QuickSortSpans.simps) (simp add: Let_def)
  next
    case False
    obtain b j where p: "partition_at span_less (median_first ss) = (b, j)" by fastforce
    have e: "median_first ss \<noteq> []" "length (median_first ss) = length ss"
      using "1.prems" by (metis length_0_conv length_median_first, simp)
    have "sorted (map sy (QuickSortSpans xs)) \<and> mset (QuickSortSpans xs) = mset xs"
      if "xs \<noteq> []" "length xs < length (median_first ss)" for xs using "1.IH" that e(2) by auto
    from spans.quick_step [OF e(1) p this] show ?thesis
      using False p mset_median_first [OF "1.prems"] e(2) by (subst (1 2) QuickSortSpans.simps) (simp add: Let_def)
  qed
qed

section \<open>The clipped spans\<close>

definition covers :: "span list \<Rightarrow> int \<Rightarrow> int \<Rightarrow> bool" where
  "covers ss x y \<longleftrightarrow> (\<exists>s \<in> set ss. sy s = y \<and> sx s \<le> x \<and> x < sx s + sw s)"

lemma covers_simps [simp]:
  "covers [] x y = False" "covers (s # ss) x y \<longleftrightarrow> sy s = y \<and> sx s \<le> x \<and> x < sx s + sw s \<or> covers ss x y"
  "covers (as @ bs) x y \<longleftrightarrow> covers as x y \<or> covers bs x y"
  by (auto simp: covers_def)

lemma covers_mset: "mset as = mset bs \<Longrightarrow> covers as x y = covers bs x y"
  by (metis covers_def set_mset_mset)

lemma clip_to_covers:
  "covers (clip_to b s) x y \<longleftrightarrow> covers [s] x y \<and> bx1 b \<le> x \<and> x < bx2 b"
  by (auto simp: clip_to_def Let_def)

lemma clip_to_length: "length (clip_to b s) \<le> 1"
  by (simp add: clip_to_def Let_def)

lemma clip_single_covers: "covers (clip_single e ss) x y \<longleftrightarrow> covers ss x y \<and> INBOX e x y"
  by (induction ss) (auto simp: clip_to_covers INBOX_def)

lemma clip_band_covers:
  "covers (concat (map (\<lambda>b. clip_to b s) (band_boxes (t, b, vs)))) x y \<longleftrightarrow> covers [s] x y \<and> in_ivs vs x"
  by (induction vs x rule: in_ivs.induct) (auto simp: clip_to_covers)

lemma covers_dropWhile:
  "sorted (map sy ss) \<Longrightarrow> covers (dropWhile (\<lambda>s. sy s < t) ss) x y \<longleftrightarrow> covers ss x y \<and> t \<le> y"
proof (induction ss)
  case (Cons s ss)
  then show ?case by (cases "sy s < t") (fastforce simp: covers_def)+
qed simp

lemma sorted_dropWhile_key: "sorted (map f ss) \<Longrightarrow> sorted (map f (dropWhile P ss))"
  by (metis dropWhile_eq_drop drop_map sorted_wrt_drop)

lemma dropWhile_from: "sorted (map sy ss) \<Longrightarrow> s \<in> set (dropWhile (\<lambda>s. sy s < t) ss) \<Longrightarrow> t \<le> sy s"
proof (induction ss)
  case (Cons r ss)
  then show ?case by (cases "sy r < t") auto
qed simp

lemma clip_bands_covers:
  assumes "canon ((t, b, vs) # bs)" "sorted (map sy ss)" "\<forall>s \<in> set ss. t \<le> sy s"
  shows "covers (clip_bands (band_boxes (t, b, vs)) (flat bs) ss) x y \<longleftrightarrow> covers ss x y \<and> in_bands ((t, b, vs) # bs) x y"
  using assms
proof (induction "length bs + length ss" arbitrary: t b vs bs ss rule: less_induct)
  case less
  have c: "t < b" "vs \<noteq> []" "canon_from b vs bs" using less.prems(1) by auto
  have hd: "by2 (hd (band_boxes (t, b, vs))) = b" using c(2) by (cases vs) auto
  have below: "in_bands bs x z \<Longrightarrow> b \<le> z" for z using canon_from_above [OF c(3)] by blast
  show ?case
  proof (cases ss)
    case (Cons s ss')
    show ?thesis
    proof (cases "sy s < b")
      case True
      have "covers (clip_bands (band_boxes (t, b, vs)) (flat bs) ss') x y \<longleftrightarrow> covers ss' x y \<and> in_bands ((t, b, vs) # bs) x y"
        using less.hyps [of bs ss' t b vs] less.prems Cons by simp
      then show ?thesis
        using True hd Cons less.prems(3) below [of "sy s"] by (auto simp: clip_band_covers)
    next
      case False
      have after: "covers ss x y \<Longrightarrow> b \<le> y" using False less.prems(2) Cons by (auto simp: covers_def)
      show ?thesis
      proof (cases bs)
        case Nil
        then show ?thesis using False hd Cons after by auto
      next
        case (Cons bd bs')
        obtain t' b' vs' where bd: "bd = (t', b', vs')" by (cases bd)
        have c': "canon ((t', b', vs') # bs')" "vs' \<noteq> []" "canon_from b' vs' bs'" "t' < b'"
          using c(3) Cons bd by auto
        let ?ss = "dropWhile (\<lambda>s. sy s < t') ss"
        have top: "by1 (hd (flat bs)) = t'" "flat bs \<noteq> []" using c'(2) Cons bd by (cases vs'; auto)+
        have fb: "FindBand (flat bs) = (band_boxes (t', b', vs'), flat bs')"
          using FindBand_flat [OF c'(3,2,4)] Cons bd by simp
        have "length bs' + length ?ss < length bs + length ss"
          using Cons length_dropWhile_le [of "\<lambda>s. sy s < t'" ss] by simp
        from less.hyps [OF this c'(1) sorted_dropWhile_key [OF less.prems(2)]] dropWhile_from [OF less.prems(2)]
        have IH: "covers (clip_bands (band_boxes (t', b', vs')) (flat bs') ?ss) x y \<longleftrightarrow> covers ?ss x y \<and> in_bands bs x y"
          using Cons bd by blast
        have "clip_bands (band_boxes (t, b, vs)) (flat bs) ss = clip_bands (band_boxes (t', b', vs')) (flat bs') ?ss"
          using False hd \<open>ss = s # ss'\<close> fb top by (simp add: Let_def)
        moreover have "in_bands bs x y \<Longrightarrow> t' \<le> y"
          using canon_from_above [of t' "[]" bs x y] c' Cons bd by (auto dest: canon_from_above)
        ultimately show ?thesis
          using IH covers_dropWhile [OF less.prems(2), of t' x y] after by auto
      qed
    qed
  qed simp
qed

text \<open>Whatever the order of the spans, the clipped spans cover exactly what lies in the region.\<close>

lemma miClipSpans_ok:
  assumes "region_ok r" "fSorted \<Longrightarrow> sorted (map sy ss)"
  shows "covers (miClipSpans r ss fSorted) x y \<longleftrightarrow> covers ss x y \<and> pixels r x y"
  using assms(1)
proof (cases rule: region_ok_cases)
  case empty
  then show ?thesis by (simp add: miClipSpans_def pixels_def)
next
  case single
  then show ?thesis by (simp add: miClipSpans_def clip_single_covers pixels_NoData)
next
  case (many s rs)
  define qs where "qs = (if \<not> fSorted \<and> length ss > 1 then QuickSortSpans ss else ss)"
  have "ss \<noteq> [] \<Longrightarrow> length ss > 1 \<or> (\<exists>s. ss = [s])" by (cases ss; cases "tl ss") auto
  then have q: "sorted (map sy qs)" "mset qs = mset ss"
    using assms(2) QuickSortSpans_sorts [of ss] by (cases "ss = []"; auto simp: qs_def)+
  obtain t b vs bs where bs: "canon ((t, b, vs) # bs)" "rs = flat ((t, b, vs) # bs)"
    using wf_rects_obtain [OF region_ok_wf [OF assms(1)]] many(2,3)
    by (metis flat_simps(1) list.exhaust list.size(3) not_numeral_le_zero prod_cases3)
  have vs: "vs \<noteq> []" "t < b" "canon_from b vs bs" using bs(1) by auto
  have top: "by1 (hd rs) = t" "rs \<noteq> []" using vs(1) bs(2) by (cases vs; auto)+
  let ?ss = "dropWhile (\<lambda>s. sy s < t) qs"
  have "miClipSpans r ss fSorted = clip_bands (band_boxes (t, b, vs)) (flat bs) ?ss"
    using many(1) top bs(2) FindBand_flat [OF vs(3,1,2)] vs(1) by (simp add: miClipSpans_def Let_def qs_def)
  moreover have "covers (clip_bands (band_boxes (t, b, vs)) (flat bs) ?ss) x y \<longleftrightarrow> covers ?ss x y \<and> in_bands ((t, b, vs) # bs) x y"
    using clip_bands_covers [OF bs(1) sorted_dropWhile_key [OF q(1)]] dropWhile_from [OF q(1)] by blast
  moreover have "in_bands ((t, b, vs) # bs) x y \<Longrightarrow> t \<le> y"
    using canon_from_above [of t "[]" "(t, b, vs) # bs" x y] bs(1) by auto
  moreover have "pixels r x y \<longleftrightarrow> in_bands ((t, b, vs) # bs) x y"
    using many(2) bs(2) by (metis in_rects_flat pixels_def)
  ultimately show ?thesis
    using covers_dropWhile [OF q(1), of t x y] covers_mset [OF q(2)] by auto
qed

section \<open>The room the caller must provide\<close>

lemma foldl_max: "foldl max (m :: nat) xs = max m (foldl max 0 xs)"
proof (induction xs arbitrary: m)
  case (Cons x xs)
  show ?case using Cons [of "max m x"] Cons [of x] by simp
qed simp

lemma max_band_step:
  assumes "rs \<noteq> []"
  shows "length (fst (FindBand rs)) \<le> miFindMaxBand_loop 0 rs" "miFindMaxBand_loop 0 (snd (FindBand rs)) \<le> miFindMaxBand_loop 0 rs"
proof -
  let ?n = "length (fst (FindBand rs))" and ?r = "snd (FindBand rs)"
  have "miFindMaxBand_loop ?n ?r = max ?n (miFindMaxBand_loop 0 ?r)"
    unfolding miFindMaxBand_loop_bands by (rule foldl_max)
  moreover have "miFindMaxBand_loop 0 rs = miFindMaxBand_loop ?n ?r"
    using assms by (subst miFindMaxBand_loop.simps) (simp add: Let_def)
  ultimately have "miFindMaxBand_loop 0 rs = max ?n (miFindMaxBand_loop 0 ?r)" by simp
  then show "length (fst (FindBand rs)) \<le> miFindMaxBand_loop 0 rs" "miFindMaxBand_loop 0 (snd (FindBand rs)) \<le> miFindMaxBand_loop 0 rs"
    by simp_all
qed

lemma clip_row_length: "length (concat (map (\<lambda>b. clip_to b s) bs)) \<le> length bs"
proof (induction bs)
  case (Cons b bs)
  then show ?case using clip_to_length [of b s] by simp
qed simp

lemma clip_bands_length:
  "length band \<le> m \<Longrightarrow> miFindMaxBand_loop 0 rest \<le> m \<Longrightarrow> length (clip_bands band rest ss) \<le> m * length ss"
proof (induction band rest ss rule: clip_bands.induct)
  case (2 band rest s ss)
  show ?case
  proof (cases "sy s < by2 (hd band)")
    case True
    have "length (concat (map (\<lambda>b. clip_to b s) band)) \<le> m" using clip_row_length "2.prems"(1) order_trans by blast
    moreover have "length (clip_bands band rest ss) \<le> m * length ss" using "2.IH"(1) [OF True] "2.prems" by blast
    ultimately show ?thesis using True by simp
  next
    case False
    show ?thesis
    proof (cases "rest = []")
      case rest: False
      let ?ss = "dropWhile (\<lambda>s. sy s < by1 (hd rest)) (s # ss)"
      have "length (clip_bands (fst (FindBand rest)) (snd (FindBand rest)) ?ss) \<le> m * length ?ss"
        using "2.IH"(2) [OF False rest refl prod.collapse] max_band_step [OF rest] "2.prems"(2) by simp
      also have "\<dots> \<le> m * length (s # ss)" by (intro mult_le_mono2 length_dropWhile_le)
      finally show ?thesis
        using False rest by (simp add: Let_def split_beta del: dropWhile.simps)
    qed (use False in simp)
  qed
qed simp

lemma QuickSortSpans_length: "ss \<noteq> [] \<Longrightarrow> length (QuickSortSpans ss) = length ss"
  using QuickSortSpans_sorts mset_eq_length by blast

lemma miClipSpans_length: "length (miClipSpans r ss fSorted) \<le> miFindMaxBand r * length ss"
proof (cases "rgdata r = NoData")
  case True
  have "length (clip_single e ss) \<le> length ss" for e
  proof (induction ss)
    case (Cons s ss)
    then show ?case using clip_to_length [of e s] by simp
  qed simp
  moreover have "miFindMaxBand r = 1"
    using True by (simp add: miFindMaxBand_def REGION_RECTS_def miFindMaxBand_loop.simps Let_def)
  ultimately show ?thesis using True by (simp add: miClipSpans_def)
next
  case False
  let ?rs = "data_rects (rgdata r)"
  have mb: "miFindMaxBand r = miFindMaxBand_loop 0 ?rs" using False by (simp add: miFindMaxBand_def REGION_RECTS_def)
  show ?thesis
  proof (cases "?rs = []")
    case ne: False
    define qs where "qs = (if \<not> fSorted \<and> length ss > 1 then QuickSortSpans ss else ss)"
    have "length qs = length ss" using QuickSortSpans_length [of ss] by (cases "ss = []") (auto simp: qs_def)
    then have dw: "length (dropWhile (\<lambda>s. sy s < by1 (hd ?rs)) qs) \<le> length ss"
      using length_dropWhile_le by metis
    have "miClipSpans r ss fSorted = clip_bands (fst (FindBand ?rs)) (snd (FindBand ?rs)) (dropWhile (\<lambda>s. sy s < by1 (hd ?rs)) qs)"
      using False ne by (simp add: miClipSpans_def Let_def qs_def split_beta)
    also have "length \<dots> \<le> miFindMaxBand r * length (dropWhile (\<lambda>s. sy s < by1 (hd ?rs)) qs)"
      using clip_bands_length max_band_step [OF ne] mb by simp
    also have "\<dots> \<le> miFindMaxBand r * length ss" using dw by simp
    finally show ?thesis .
  qed (use False in \<open>simp add: miClipSpans_def\<close>)
qed

end
