(* ===== verification/Rects.thy ===== *)
theory Rects
  imports Prelude
begin

text \<open>
  The plain geometry of \<open>region/Rect.h\<close>, \<open>region/Point.h\<close> and \<open>region/Dimension.h\<close>: records
  of C \<open>int\<close> coordinates (kept as integers: the code does no wrap-around arithmetic on
  them), with the member functions as functions that return the updated record.
\<close>

section \<open>Rect\<close>

record rect =
  rleft :: int
  rtop :: int
  rright :: int
  rbottom :: int

definition setRect :: "int \<Rightarrow> int \<Rightarrow> int \<Rightarrow> int \<Rightarrow> rect" where
  "setRect lt tp rt bm = \<lparr>rleft = lt, rtop = tp, rright = rt, rbottom = bm\<rparr>"

definition isValid :: "rect \<Rightarrow> bool" where
  "isValid r = (if rright r < rleft r \<or> rbottom r < rtop r then False else True)"

definition isPointInRect :: "rect \<Rightarrow> int \<Rightarrow> int \<Rightarrow> bool" where
  "isPointInRect r pointX pointY =
     (if pointX < rleft r \<or> pointX \<ge> rright r then False
      else if pointY < rtop r \<or> pointY \<ge> rbottom r then False
      else True)"

definition isFullyContainRect :: "rect \<Rightarrow> rect \<Rightarrow> bool" where
  "isFullyContainRect r inner =
     (if rleft inner < rleft r \<or> rtop inner < rtop r \<or> rright inner > rright r \<or> rbottom inner > rbottom r
      then False else True)"

definition move :: "int \<Rightarrow> int \<Rightarrow> rect \<Rightarrow> rect" where
  "move offsetX offsetY r =
     r\<lparr>rleft := rleft r + offsetX, rright := rright r + offsetX,
       rtop := rtop r + offsetY, rbottom := rbottom r + offsetY\<rparr>"

definition setLocation :: "int \<Rightarrow> int \<Rightarrow> rect \<Rightarrow> rect" where
  "setLocation destX destY r =
     (let offsetX = destX - rleft r; offsetY = destY - rtop r in
      r\<lparr>rleft := destX, rright := rright r + offsetX, rtop := destY, rbottom := rbottom r + offsetY\<rparr>)"

definition rect_isEqualTo :: "rect \<Rightarrow> rect \<Rightarrow> bool" where
  "rect_isEqualTo r other \<longleftrightarrow>
     rleft other = rleft r \<and> rtop other = rtop r \<and> rright other = rright r \<and> rbottom other = rbottom r"

definition getWidth :: "rect \<Rightarrow> int" where "getWidth r = rright r - rleft r"

definition getHeight :: "rect \<Rightarrow> int" where "getHeight r = rbottom r - rtop r"

definition setWidth :: "int \<Rightarrow> rect \<Rightarrow> rect" where "setWidth value r = r\<lparr>rright := rleft r + value\<rparr>"

definition setHeight :: "int \<Rightarrow> rect \<Rightarrow> rect" where "setHeight value r = r\<lparr>rbottom := rtop r + value\<rparr>"

definition rect_isEmpty :: "rect \<Rightarrow> bool" where
  "rect_isEmpty r \<longleftrightarrow> getWidth r \<le> 0 \<or> getHeight r \<le> 0"

definition area :: "rect \<Rightarrow> int" where
  "area r = (if rect_isEmpty r then 0 else getWidth r * getHeight r)"

definition rect_clear :: rect where
  "rect_clear = setRect 0 0 0 0"

definition intersection :: "rect \<Rightarrow> rect \<Rightarrow> rect" where
  "intersection r other =
     (let result = setRect (if rleft r > rleft other then rleft r else rleft other)
                     (if rtop r > rtop other then rtop r else rtop other)
                     (if rright r < rright other then rright r else rright other)
                     (if rbottom r < rbottom other then rbottom r else rbottom other)
      in if \<not> isValid result then rect_clear else result)"

section \<open>Point and Dimension\<close>

record point =
  px :: int
  py :: int

definition point_clear :: point where "point_clear = \<lparr>px = 0, py = 0\<rparr>"

definition point_move :: "int \<Rightarrow> int \<Rightarrow> point \<Rightarrow> point" where
  "point_move deltaX deltaY p = \<lparr>px = px p + deltaX, py = py p + deltaY\<rparr>"

record dimension =
  width :: int
  height :: int

definition getRect :: "dimension \<Rightarrow> rect" where
  "getRect d = setRect 0 0 (width d) (height d)"

definition setDim :: "rect \<Rightarrow> dimension" where
  "setDim r = \<lparr>width = getWidth r, height = getHeight r\<rparr>"

definition cmpDim :: "dimension \<Rightarrow> dimension \<Rightarrow> bool" where
  "cmpDim d dim \<longleftrightarrow> width dim = width d \<and> height dim = height d"

definition dim_isEmpty :: "dimension \<Rightarrow> bool" where
  "dim_isEmpty d \<longleftrightarrow> width d \<le> 0 \<or> height d \<le> 0"

definition dim_area :: "dimension \<Rightarrow> int" where
  "dim_area d = (if dim_isEmpty d then 0 else width d * height d)"

section \<open>The pixels of a rectangle\<close>

lemma setRect_sel [simp]:
  "rleft (setRect a b c d) = a" "rtop (setRect a b c d) = b"
  "rright (setRect a b c d) = c" "rbottom (setRect a b c d) = d"
  by (simp_all add: setRect_def)

lemma in_rect: "isPointInRect r x y \<longleftrightarrow> rleft r \<le> x \<and> x < rright r \<and> rtop r \<le> y \<and> y < rbottom r"
  by (auto simp: isPointInRect_def)

lemma rect_isEmpty_iff: "rect_isEmpty r \<longleftrightarrow> rright r \<le> rleft r \<or> rbottom r \<le> rtop r"
  by (auto simp: rect_isEmpty_def getWidth_def getHeight_def)

lemma rect_isEmpty_pixels: "rect_isEmpty r \<longleftrightarrow> (\<forall>x y. \<not> isPointInRect r x y)"
proof
  assume "\<forall>x y. \<not> isPointInRect r x y"
  then have "\<not> isPointInRect r (rleft r) (rtop r)" by blast
  then show "rect_isEmpty r" by (auto simp: in_rect rect_isEmpty_iff)
qed (auto simp: in_rect rect_isEmpty_iff)

lemma intersection_pixels: "isPointInRect (intersection r s) x y \<longleftrightarrow> isPointInRect r x y \<and> isPointInRect s x y"
  by (auto simp: in_rect intersection_def Let_def isValid_def rect_clear_def)

lemma intersection_nonempty:
  assumes "\<not> rect_isEmpty (intersection r s)"
  shows "rleft (intersection r s) = max (rleft r) (rleft s)" "rtop (intersection r s) = max (rtop r) (rtop s)"
    "rright (intersection r s) = min (rright r) (rright s)" "rbottom (intersection r s) = min (rbottom r) (rbottom s)"
  using assms by (auto simp: intersection_def Let_def isValid_def rect_clear_def rect_isEmpty_iff split: if_splits)

lemma intersection_cases:
  obtains (void) "intersection r s = rect_clear"
  | (valid) "rleft (intersection r s) = max (rleft r) (rleft s)" "rtop (intersection r s) = max (rtop r) (rtop s)"
    "rright (intersection r s) = min (rright r) (rright s)" "rbottom (intersection r s) = min (rbottom r) (rbottom s)"
    "max (rleft r) (rleft s) \<le> min (rright r) (rright s)" "max (rtop r) (rtop s) \<le> min (rbottom r) (rbottom s)"
  by (cases "isValid (intersection r s)") (auto simp: intersection_def Let_def isValid_def split: if_splits)

lemma move_sel [simp]:
  "rleft (move dx dy r) = rleft r + dx" "rright (move dx dy r) = rright r + dx"
  "rtop (move dx dy r) = rtop r + dy" "rbottom (move dx dy r) = rbottom r + dy"
  by (simp_all add: move_def)

lemma setLocation_move: "setLocation x y r = move (x - rleft r) (y - rtop r) r"
  by (simp add: setLocation_def move_def Let_def)

lemma move_pixels: "isPointInRect (move dx dy r) x y \<longleftrightarrow> isPointInRect r (x - dx) (y - dy)"
  by (auto simp: in_rect)

lemma rect_eqI:
  "rleft a = rleft b \<Longrightarrow> rtop a = rtop b \<Longrightarrow> rright a = rright b \<Longrightarrow> rbottom a = rbottom b \<Longrightarrow> a = (b :: rect)"
  by simp

lemma rect_isEqualTo_iff [simp]: "rect_isEqualTo r s \<longleftrightarrow> r = s"
  by (auto simp: rect_isEqualTo_def)

end
