(* ===== verification/RegionClass.thy ===== *)
theory RegionClass
  imports Rects RegionUnion RegionIntersect RegionSubtract RegionQuery RegionTranslate
begin

text \<open>
  The C++ class of \<open>region/Region.cpp\<close>: an object is one \<open>RegionRec\<close>, its methods call the
  routines of \<open>region/x11region.c\<close> with the object as destination and ignore their result.
  A method that needs a second object gets both in a store with the addresses \<open>True\<close>
  (\<open>this\<close>) and \<open>False\<close> (the other). The allocator is the parameter of those routines.

  The locale \<open>pixel_region\<close> is the contract the users of the class rely on: sets of pixels
  with union, difference and intersection. The class is interpreted in it.
\<close>

section \<open>The code\<close>

definition objects :: "region \<Rightarrow> region \<Rightarrow> bool \<Rightarrow> region" where
  "objects this other a = (if a then this else other)"

text \<open>\<open>box.x1 = rect->left;\<close> and so on: an \<open>int\<close> is stored into a \<open>short\<close>.\<close>

definition box_of_rect :: "rect \<Rightarrow> box" where
  "box_of_rect rect =
     mkbox (to_short (rleft rect)) (to_short (rtop rect)) (to_short (rright rect)) (to_short (rbottom rect))"

definition rect_of_box :: "box \<Rightarrow> rect" where
  "rect_of_box b = setRect (bx1 b) (by1 b) (bx2 b) (by2 b)"

definition Region_new :: "allocator \<Rightarrow> region" where
  "Region_new ok = miRegionInit ok None 0"

definition Region_rect :: "allocator \<Rightarrow> rect \<Rightarrow> region" where
  "Region_rect ok rect =
     (if \<not> rect_isEmpty rect then miRegionInit ok (Some (box_of_rect rect)) 0 else miRegionInit ok None 0)"

definition Region_clear :: "region \<Rightarrow> region" where
  "Region_clear this = miRegionEmpty this"

definition Region_set :: "allocator \<Rightarrow> region \<Rightarrow> region \<Rightarrow> region" where
  "Region_set ok this src = snd (copy_region ok True False (objects this src)) True"

definition Region_copy :: "allocator \<Rightarrow> region \<Rightarrow> region" where
  "Region_copy ok src = Region_set ok (miRegionInit ok None 0) src"

definition Region_add :: "allocator \<Rightarrow> region \<Rightarrow> region \<Rightarrow> region" where
  "Region_add ok this other = snd (miUnion ok True True False (objects this other)) True"

definition Region_subtract :: "allocator \<Rightarrow> region \<Rightarrow> region \<Rightarrow> region" where
  "Region_subtract ok this other = snd (miSubtract ok True True False (objects this other)) True"

definition Region_intersect :: "allocator \<Rightarrow> region \<Rightarrow> region \<Rightarrow> region" where
  "Region_intersect ok this other = snd (miIntersect ok True True False (objects this other)) True"

text \<open>
  \<open>addRect\<close> casts the \<open>const\<close> of its argument away and clamps the right edge in the
  caller's object: the second component is that object after the call.
\<close>

definition Region_addRect :: "allocator \<Rightarrow> region \<Rightarrow> rect \<Rightarrow> region \<times> rect" where
  "Region_addRect ok this rect =
     (if \<not> rect_isEmpty rect then
        let tmp = (if rright rect > 32767 then rect\<lparr>rright := 32767\<rparr> else rect)
        in (Region_add ok this (Region_rect ok tmp), tmp)
      else (this, rect))"

definition Region_translate :: "region \<Rightarrow> int \<Rightarrow> int \<Rightarrow> region" where
  "Region_translate this dx dy = miTranslateRegion this dx dy"

definition Region_crop :: "allocator \<Rightarrow> region \<Rightarrow> rect \<Rightarrow> region" where
  "Region_crop ok this rect = Region_intersect ok this (Region_rect ok rect)"

definition Region_isEmpty :: "region \<Rightarrow> bool" where
  "Region_isEmpty this \<longleftrightarrow> \<not> miRegionNotEmpty this"

definition Region_isPointInside :: "region \<Rightarrow> int \<Rightarrow> int \<Rightarrow> bool" where
  "Region_isPointInside this x y \<longleftrightarrow> miPointInRegion this x y \<noteq> None"

definition Region_equals :: "region \<Rightarrow> region \<Rightarrow> bool" where
  "Region_equals this other =
     (if Region_isEmpty this \<and> Region_isEmpty other then True else miRegionsEqual this other)"

definition Region_getRectVector :: "region \<Rightarrow> rect list" where
  "Region_getRectVector this = map rect_of_box (REGION_RECTS this)"

definition Region_getCount :: "region \<Rightarrow> nat" where
  "Region_getCount this = REGION_NUM_RECTS this"

definition Region_getBounds :: "region \<Rightarrow> rect" where
  "Region_getBounds this = rect_of_box (extents this)"

section \<open>The contract\<close>

text \<open>The rectangles that fit in the coordinates of a region.\<close>

definition short_rect :: "rect \<Rightarrow> bool" where
  "short_rect r \<longleftrightarrow> is_short (rleft r) \<and> is_short (rtop r) \<and> is_short (rright r) \<and> is_short (rbottom r)"

locale pixel_region =
  fixes good :: "'a \<Rightarrow> bool" and inv :: "'r \<Rightarrow> bool" and pix :: "'r \<Rightarrow> int \<Rightarrow> int \<Rightarrow> bool"
    and of_rect :: "'a \<Rightarrow> rect \<Rightarrow> 'r" and is_empty :: "'r \<Rightarrow> bool"
    and add :: "'a \<Rightarrow> 'r \<Rightarrow> 'r \<Rightarrow> 'r" and sub :: "'a \<Rightarrow> 'r \<Rightarrow> 'r \<Rightarrow> 'r" and meet :: "'a \<Rightarrow> 'r \<Rightarrow> 'r \<Rightarrow> 'r"
  assumes of_rect: "short_rect b \<Longrightarrow> inv (of_rect g b) \<and> pix (of_rect g b) = isPointInRect b"
    and is_empty: "inv r \<Longrightarrow> is_empty r \<longleftrightarrow> (\<forall>x y. \<not> pix r x y)"
    and add: "good g \<Longrightarrow> inv r \<Longrightarrow> inv s \<Longrightarrow>
      inv (add g r s) \<and> pix (add g r s) = (\<lambda>x y. pix r x y \<or> pix s x y)"
    and sub: "good g \<Longrightarrow> inv r \<Longrightarrow> inv s \<Longrightarrow>
      inv (sub g r s) \<and> pix (sub g r s) = (\<lambda>x y. pix r x y \<and> \<not> pix s x y)"
    and meet: "good g \<Longrightarrow> inv r \<Longrightarrow> inv s \<Longrightarrow>
      inv (meet g r s) \<and> pix (meet g r s) = (\<lambda>x y. pix r x y \<and> pix s x y)"
begin

lemmas laws = of_rect add sub meet

lemma crop:
  assumes "good g" "inv r" "short_rect b"
  shows "inv (meet g r (of_rect g b)) \<and> pix (meet g r (of_rect g b)) = (\<lambda>x y. pix r x y \<and> isPointInRect b x y)"
  using meet [OF assms(1,2), of "of_rect g b"] of_rect [OF assms(3), of g] by simp

lemma add_rect:
  assumes "good g" "inv r" "short_rect b"
  shows "inv (add g r (of_rect g b)) \<and> pix (add g r (of_rect g b)) = (\<lambda>x y. pix r x y \<or> isPointInRect b x y)"
  using add [OF assms(1,2), of "of_rect g b"] of_rect [OF assms(3), of g] by simp

lemma rect_minus_rect:
  assumes "good g" "short_rect a" "short_rect b"
  shows "inv (sub g (of_rect g a) (of_rect g b)) \<and>
    pix (sub g (of_rect g a) (of_rect g b)) = (\<lambda>x y. isPointInRect a x y \<and> \<not> isPointInRect b x y)"
  using sub [OF assms(1), of "of_rect g a" "of_rect g b"] of_rect [OF assms(2), of g] of_rect [OF assms(3), of g]
  by simp

lemma sub_empty_iff:
  assumes "good g" "inv r" "inv s"
  shows "is_empty (sub g r s) \<longleftrightarrow> (\<forall>x y. pix r x y \<longrightarrow> pix s x y)"
  using is_empty [of "sub g r s"] sub [OF assms] by auto

lemma meet_empty_iff:
  assumes "good g" "inv r" "inv s"
  shows "is_empty (meet g r s) \<longleftrightarrow> (\<forall>x y. pix r x y \<longrightarrow> \<not> pix s x y)"
  using is_empty [of "meet g r s"] meet [OF assms] by auto

end

section \<open>The class keeps the contract\<close>

lemma Region_new_ok [simp]: "region_ok (Region_new ok)" "pixels (Region_new ok) x y = False"
  "REGION_RECTS (Region_new ok) = []"
  by (simp_all add: Region_new_def miRegionInit_def region_ok_EmptyData degenerate_def miEmptyBox_def pixels_empty
      REGION_RECTS_def)

lemma Region_clear_ok [simp]: "region_ok (Region_clear r)" "pixels (Region_clear r) x y = False"
  by (simp_all add: Region_clear_def miRegionEmpty_def region_ok_EmptyData degenerate_def pixels_empty REGION_RECTS_def)

lemma box_of_rect_short [simp]:
  "short_rect r \<Longrightarrow> box_of_rect r = mkbox (rleft r) (rtop r) (rright r) (rbottom r)"
  by (simp add: short_rect_def box_of_rect_def)

lemma Region_rect_NoData:
  "short_rect r \<Longrightarrow> \<not> rect_isEmpty r \<Longrightarrow>
     Region_rect ok r = \<lparr>extents = mkbox (rleft r) (rtop r) (rright r) (rbottom r), rgdata = NoData\<rparr>"
  by (simp add: Region_rect_def miRegionInit_def)

lemma Region_rect_ok:
  assumes "short_rect r"
  shows "region_ok (Region_rect ok r) \<and> pixels (Region_rect ok r) = isPointInRect r"
proof (cases "rect_isEmpty r")
  case True
  then have "Region_rect ok r = Region_new ok" by (simp add: Region_rect_def Region_new_def)
  with True show ?thesis by (auto intro!: ext simp: rect_isEmpty_pixels)
next
  case False
  then show ?thesis
    using Region_rect_NoData [OF assms, of ok]
    by (auto intro!: ext simp: rect_isEmpty_iff region_ok_NoData pixels_NoData INBOX_def in_rect)
qed

lemma Region_isEmpty_ok: "region_ok r \<Longrightarrow> Region_isEmpty r \<longleftrightarrow> (\<forall>x y. \<not> pixels r x y)"
  by (simp add: Region_isEmpty_def miRegionNotEmpty_def REGION_NIL_iff region_ok_empty_iff)

lemma Region_set_ok:
  assumes "alloc_ok ok" "region_ok src"
  shows "region_ok (Region_set ok this src) \<and> REGION_RECTS (Region_set ok this src) = REGION_RECTS src \<and>
    extents (Region_set ok this src) = extents src"
proof -
  from assms(2) have "region_ok (objects this src False)" by (simp add: objects_def)
  from copy_region_ok [where h = "objects this src" and src = False and dst = True, OF assms(1) this] show ?thesis
    by (metis Region_set_def fun_upd_same objects_def snd_conv)
qed

lemma Region_set_pixels: "alloc_ok ok \<Longrightarrow> region_ok src \<Longrightarrow> pixels (Region_set ok this src) = pixels src"
  using Region_set_ok [of ok src this] by (intro ext) (simp add: pixels_def)

lemma Region_copy_ok:
  "alloc_ok ok \<Longrightarrow> region_ok src \<Longrightarrow> region_ok (Region_copy ok src) \<and> pixels (Region_copy ok src) = pixels src"
  by (simp add: Region_copy_def Region_set_ok Region_set_pixels)

lemma Region_add_ok:
  assumes "alloc_ok ok" "region_ok r" "region_ok s"
  shows "region_ok (Region_add ok r s) \<and> pixels (Region_add ok r s) = (\<lambda>x y. pixels r x y \<or> pixels s x y)"
  using miUnion_ok [of ok "objects r s" True False True] assms
  by (auto simp: Region_add_def objects_def intro!: ext)

lemma Region_subtract_ok:
  assumes "alloc_ok ok" "region_ok r" "region_ok s"
  shows "region_ok (Region_subtract ok r s) \<and>
    pixels (Region_subtract ok r s) = (\<lambda>x y. pixels r x y \<and> \<not> pixels s x y)"
  using miSubtract_ok [of ok "objects r s" True False True] assms
  by (auto simp: Region_subtract_def objects_def intro!: ext)

lemma Region_intersect_ok:
  assumes "alloc_ok ok" "region_ok r" "region_ok s"
  shows "region_ok (Region_intersect ok r s) \<and>
    pixels (Region_intersect ok r s) = (\<lambda>x y. pixels r x y \<and> pixels s x y)"
proof -
  obtain t where "miIntersect ok True True False (objects r s) = (True, (objects r s)(True := t))" "region_ok t"
      "\<And>x y. pixels t x y \<longleftrightarrow> pixels r x y \<and> pixels s x y"
    using miIntersect_ok [of ok "objects r s" True False True] assms by (metis objects_def)
  then show ?thesis by (auto simp: Region_intersect_def intro!: ext)
qed

interpretation rgn: pixel_region alloc_ok region_ok pixels Region_rect Region_isEmpty
    Region_add Region_subtract Region_intersect
  by unfold_locales (simp_all add: Region_rect_ok Region_isEmpty_ok Region_add_ok Region_subtract_ok Region_intersect_ok)

lemma Region_crop_ok:
  "alloc_ok ok \<Longrightarrow> region_ok r \<Longrightarrow> short_rect b \<Longrightarrow> region_ok (Region_crop ok r b) \<and>
     pixels (Region_crop ok r b) = (\<lambda>x y. pixels r x y \<and> isPointInRect b x y)"
  unfolding Region_crop_def by (rule rgn.crop)

lemma Region_addRect_ok:
  assumes "alloc_ok ok" "region_ok r" "short_rect b"
  shows "snd (Region_addRect ok r b) = b \<and> region_ok (fst (Region_addRect ok r b)) \<and>
    pixels (fst (Region_addRect ok r b)) = (\<lambda>x y. pixels r x y \<or> isPointInRect b x y)"
proof (cases "rect_isEmpty b")
  case True
  then show ?thesis using assms(2) by (auto simp: Region_addRect_def rect_isEmpty_pixels)
next
  case False
  have "\<not> rright b > 32767" using assms(3) by (simp add: short_rect_def is_short_def)
  with False show ?thesis using rgn.add_rect [OF assms] by (simp add: Region_addRect_def)
qed

text \<open>An empty region stays well formed wherever it is moved.\<close>

lemma Region_translate_empty:
  assumes "region_ok r" "REGION_RECTS r = []"
  shows "region_ok (Region_translate r dx dy)"
proof -
  have d: "rgdata r = EmptyData" "degenerate (extents r)"
    using assms by (auto elim: region_ok_cases simp: region_ok_NoData)
  let ?x = "bx1 (extents r) + dx" and ?y = "by1 (extents r) + dy"
  have "all_inside ?x ?y ?x ?y \<or> all_outside ?x ?y ?x ?y"
    by (auto simp: all_inside_iff all_outside_iff)
  with d show ?thesis
    by (auto simp: Region_translate_def miTranslateRegion_def Let_def degenerate_def region_ok_EmptyData store_box_def)
qed

lemma Region_translate_ok:
  assumes ok: "region_ok r"
    and range: "\<And>x y. pixels r x y \<Longrightarrow> INBOX range_box (x + dx) (y + dy)"
  shows "region_ok (Region_translate r dx dy) \<and> pixels (Region_translate r dx dy) = (\<lambda>x y. pixels r (x - dx) (y - dy))"
proof (cases "REGION_RECTS r = []")
  case True
  then have "rgdata r = EmptyData" using ok by (auto elim: region_ok_cases)
  then have "REGION_RECTS (Region_translate r dx dy) = []"
    by (auto simp: Region_translate_def miTranslateRegion_def Let_def REGION_RECTS_def)
  with True show ?thesis using Region_translate_empty [OF ok True] by (auto simp: pixels_empty intro!: ext)
next
  case False
  then have t: "tight (extents r) (pixels r)" by (rule region_ok_tight [OF ok])
  then obtain y1 y2 x1 x2 where p: "pixels r (bx1 (extents r)) y1" "pixels r (bx2 (extents r) - 1) y2"
      "pixels r x1 (by1 (extents r))" "pixels r x2 (by2 (extents r) - 1)" unfolding tight_def by blast
  have ins: "all_inside (bx1 (extents r) + dx) (by1 (extents r) + dy) (bx2 (extents r) + dx) (by2 (extents r) + dy)"
    using p [THEN range] by (auto simp: all_inside_iff INBOX_def range_box_def)
  from miTranslateRegion_inside [OF ok this] show ?thesis
    by (auto simp: Region_translate_def pixels_def shift_in_rects intro!: ext)
qed

text \<open>The rectangles of a region cover its pixels; a region of one rectangle is that rectangle.\<close>

lemma Region_getRectVector_ok:
  "pixels r x y \<longleftrightarrow> (\<exists>b \<in> set (Region_getRectVector r). isPointInRect b x y)"
  by (auto simp: pixels_def Region_getRectVector_def in_rects_set rect_of_box_def in_rect INBOX_def)

lemma Region_isPointInside_ok: "region_ok r \<Longrightarrow> Region_isPointInside r x y = pixels r x y"
  using miPointInRegion_ok [of r x y]
  by (auto simp: Region_isPointInside_def pixels_def in_rects_set split: option.splits)

lemma Region_equals_ok:
  "region_ok r \<Longrightarrow> region_ok s \<Longrightarrow> Region_equals r s \<longleftrightarrow> (\<forall>x y. pixels r x y = pixels s x y)"
  using miRegionsEqual_ok [of r s] region_ok_empty_iff [of r] region_ok_empty_iff [of s] miRegionsEqual_iff [of r s]
  by (auto simp: Region_equals_def Region_isEmpty_def miRegionNotEmpty_def REGION_NIL_iff)

end
