(* ===== verification/UpdateKeeper.thy ===== *)
theory UpdateKeeper
  imports RegionClass
begin

text \<open>
  The bookkeeping of screen changes: \<open>desktop/UpdateContainer.cpp\<close> and
  \<open>desktop/UpdateKeeper.cpp\<close>. Every method runs under the (recursive) locks of the object, so
  a method is one step. The allocator is that of the regions.
\<close>

section \<open>The code\<close>

record update_container =
  copiedRegion :: region
  changedRegion :: region
  videoRegion :: region
  screenSizeChanged :: bool
  cursorPosChanged :: bool
  cursorShapeChanged :: bool
  copySrc :: point
  cursorPos :: point

definition UpdateContainer_clear :: "update_container \<Rightarrow> update_container" where
  "UpdateContainer_clear uc =
     uc\<lparr>copiedRegion := Region_clear (copiedRegion uc),
        changedRegion := Region_clear (changedRegion uc),
        videoRegion := Region_clear (videoRegion uc),
        screenSizeChanged := False, cursorPosChanged := False, cursorShapeChanged := False,
        copySrc := point_clear\<rparr>"

definition UpdateContainer_new :: "allocator \<Rightarrow> update_container" where
  "UpdateContainer_new ok =
     UpdateContainer_clear
       \<lparr>copiedRegion = Region_new ok, changedRegion = Region_new ok, videoRegion = Region_new ok,
        screenSizeChanged = False, cursorPosChanged = False, cursorShapeChanged = False,
        copySrc = point_clear, cursorPos = point_clear\<rparr>"

definition UpdateContainer_assign :: "allocator \<Rightarrow> update_container \<Rightarrow> update_container \<Rightarrow> update_container" where
  "UpdateContainer_assign ok this src =
     this\<lparr>copiedRegion := Region_set ok (copiedRegion this) (copiedRegion src),
          changedRegion := Region_set ok (changedRegion this) (changedRegion src),
          videoRegion := Region_set ok (videoRegion this) (videoRegion src),
          screenSizeChanged := screenSizeChanged src,
          cursorPosChanged := cursorPosChanged src,
          cursorShapeChanged := cursorShapeChanged src,
          copySrc := copySrc src,
          cursorPos := cursorPos src\<rparr>"

definition UpdateContainer_isEmpty :: "update_container \<Rightarrow> bool" where
  "UpdateContainer_isEmpty uc \<longleftrightarrow>
     Region_isEmpty (copiedRegion uc) \<and> Region_isEmpty (changedRegion uc) \<and> Region_isEmpty (videoRegion uc) \<and>
     \<not> screenSizeChanged uc \<and> \<not> cursorPosChanged uc \<and> \<not> cursorShapeChanged uc"

record keeper =
  borderRect :: rect
  excludedRegion :: region
  updates :: update_container

definition UpdateKeeper_new :: "allocator \<Rightarrow> rect \<Rightarrow> keeper" where
  "UpdateKeeper_new ok border =
     \<lparr>borderRect = border, excludedRegion = Region_new ok, updates = UpdateContainer_new ok\<rparr>"

definition set_changed :: "region \<Rightarrow> keeper \<Rightarrow> keeper" where
  "set_changed r k = k\<lparr>updates := (updates k)\<lparr>changedRegion := r\<rparr>\<rparr>"

definition set_copied :: "region \<Rightarrow> keeper \<Rightarrow> keeper" where
  "set_copied r k = k\<lparr>updates := (updates k)\<lparr>copiedRegion := r\<rparr>\<rparr>"

definition addChangedRegion :: "allocator \<Rightarrow> region \<Rightarrow> keeper \<Rightarrow> keeper" where
  "addChangedRegion ok r k =
     (let k = set_changed (Region_add ok (changedRegion (updates k)) r) k
      in set_changed (Region_crop ok (changedRegion (updates k)) (borderRect k)) k)"

definition addChangedRect :: "allocator \<Rightarrow> rect \<Rightarrow> keeper \<Rightarrow> keeper" where
  "addChangedRect ok changedRect k = addChangedRegion ok (Region_rect ok changedRect) k"

definition dazzleChangedReg :: "allocator \<Rightarrow> keeper \<Rightarrow> keeper" where
  "dazzleChangedReg ok k = addChangedRect ok (borderRect k) k"

text \<open>\<open>a.left += b.left - c.left\<close> and so on for the four edges.\<close>

definition correct_edges :: "rect \<Rightarrow> rect \<Rightarrow> rect \<Rightarrow> rect" where
  "correct_edges a b c =
     setRect (rleft a + (rleft b - rleft c)) (rtop a + (rtop b - rtop c))
       (rright a + (rright b - rright c)) (rbottom a + (rbottom b - rbottom c))"

text \<open>The two rectangles of a copy, destination and source, clipped to the border.\<close>

definition clip_copy :: "rect \<Rightarrow> rect \<Rightarrow> point \<Rightarrow> rect \<times> rect" where
  "clip_copy border copyRect src =
     (let srcCopyRect = setLocation (px src) (py src) copyRect;
          dstCopyRect = intersection copyRect border;
          srcCopyRect = correct_edges srcCopyRect dstCopyRect copyRect;
          dummySrcCopyRect = srcCopyRect;
          srcCopyRect = intersection srcCopyRect border;
          dstCopyRect = correct_edges dstCopyRect srcCopyRect dummySrcCopyRect
      in (dstCopyRect, srcCopyRect))"

definition addCopyRect :: "allocator \<Rightarrow> rect \<Rightarrow> point \<Rightarrow> keeper \<Rightarrow> keeper" where
  "addCopyRect ok copyRect src k =
     (if rect_isEmpty copyRect then k else
      let (dstCopyRect, srcCopyRect) = clip_copy (borderRect k) copyRect src in
      if rect_isEmpty dstCopyRect then k else
      let k = k\<lparr>updates := (updates k)\<lparr>copySrc := \<lparr>px = rleft srcCopyRect, py = rtop srcCopyRect\<rparr>\<rparr>\<rparr>;
          diff = Region_subtract ok (Region_rect ok copyRect) (Region_rect ok dstCopyRect);
          k = addChangedRegion ok diff k
      in
      if \<not> Region_isEmpty (copiedRegion (updates k)) then
        (let k = set_changed (Region_add ok (changedRegion (updates k)) (copiedRegion (updates k))) k;
             k = set_copied (Region_clear (copiedRegion (updates k))) k
         in addChangedRect ok copyRect k)
      else
        (let k = set_copied (Region_clear (copiedRegion (updates k))) k;
             (copied, dstCopyRect) = Region_addRect ok (copiedRegion (updates k)) dstCopyRect;
             k = set_copied copied k;
             k = set_changed (Region_subtract ok (changedRegion (updates k)) (copiedRegion (updates k))) k;
             addon = Region_rect ok srcCopyRect;
             addon = Region_intersect ok addon (changedRegion (updates k));
             addon = Region_translate addon (rleft dstCopyRect - px (copySrc (updates k)))
                       (rtop dstCopyRect - py (copySrc (updates k)));
             k = set_changed (Region_add ok (changedRegion (updates k)) addon) k;
             k = set_changed (Region_crop ok (changedRegion (updates k)) (borderRect k)) k
         in set_copied (Region_crop ok (copiedRegion (updates k)) (borderRect k)) k))"

definition setBorderRect :: "rect \<Rightarrow> keeper \<Rightarrow> keeper" where
  "setBorderRect border k = k\<lparr>borderRect := border\<rparr>"

definition setScreenSizeChanged :: "keeper \<Rightarrow> keeper" where
  "setScreenSizeChanged k = k\<lparr>updates := (updates k)\<lparr>screenSizeChanged := True\<rparr>\<rparr>"

definition setCursorPosChanged :: "point \<Rightarrow> keeper \<Rightarrow> keeper" where
  "setCursorPosChanged curPos k = k\<lparr>updates := (updates k)\<lparr>cursorPosChanged := True, cursorPos := curPos\<rparr>\<rparr>"

definition setCursorPos :: "point \<Rightarrow> keeper \<Rightarrow> keeper" where
  "setCursorPos curPos k = k\<lparr>updates := (updates k)\<lparr>cursorPos := curPos\<rparr>\<rparr>"

definition setCursorShapeChanged :: "keeper \<Rightarrow> keeper" where
  "setCursorShapeChanged k = k\<lparr>updates := (updates k)\<lparr>cursorShapeChanged := True\<rparr>\<rparr>"

definition addUpdateContainer :: "allocator \<Rightarrow> update_container \<Rightarrow> keeper \<Rightarrow> keeper" where
  "addUpdateContainer ok uc k =
     (let rects = Region_getRectVector (copiedRegion uc);
          k = (if length rects > 0 then addCopyRect ok (hd rects) (copySrc uc) k else k);
          k = addChangedRegion ok (changedRegion uc) k;
          k = k\<lparr>updates := (updates k)\<lparr>videoRegion := Region_add ok (videoRegion (updates k)) (videoRegion uc)\<rparr>\<rparr>;
          k = (if screenSizeChanged uc then setScreenSizeChanged k else k);
          k = setCursorPos (cursorPos uc) k;
          k = (if cursorPosChanged uc then setCursorPosChanged (cursorPos uc) k else k)
      in if cursorShapeChanged uc then setCursorShapeChanged k else k)"

definition getUpdateContainer :: "allocator \<Rightarrow> update_container \<Rightarrow> keeper \<Rightarrow> update_container" where
  "getUpdateContainer ok updCont k = UpdateContainer_assign ok updCont (updates k)"

definition checkForUpdates :: "allocator \<Rightarrow> region \<Rightarrow> keeper \<Rightarrow> bool" where
  "checkForUpdates ok r k =
     (let uc = getUpdateContainer ok (UpdateContainer_new ok) k;
          resultRegion = Region_copy ok (changedRegion uc);
          resultRegion = Region_add ok resultRegion (copiedRegion uc);
          resultRegion = Region_intersect ok resultRegion r
      in cursorPosChanged uc \<or> cursorShapeChanged uc \<or> screenSizeChanged uc \<or> \<not> Region_isEmpty resultRegion)"

text \<open>The container of the caller is overwritten; the result is it and the keeper.\<close>

definition extract_updates :: "allocator \<Rightarrow> update_container \<Rightarrow> keeper \<Rightarrow> update_container \<times> keeper" where
  "extract_updates ok uc k =
     (let k = set_changed (Region_crop ok (changedRegion (updates k)) (borderRect k)) k;
          k = set_copied (Region_crop ok (copiedRegion (updates k)) (borderRect k)) k;
          uc = UpdateContainer_assign ok uc (updates k);
          k = k\<lparr>updates := UpdateContainer_clear (updates k)\<rparr>;
          uc = uc\<lparr>changedRegion := Region_subtract ok (changedRegion uc) (excludedRegion k)\<rparr>;
          uc = uc\<lparr>copiedRegion := Region_subtract ok (copiedRegion uc) (excludedRegion k)\<rparr>
      in (uc, k))"

definition setExcludedRegion :: "allocator \<Rightarrow> region option \<Rightarrow> keeper \<Rightarrow> keeper" where
  "setExcludedRegion ok r k =
     (case r of
        None \<Rightarrow> k\<lparr>excludedRegion := Region_clear (excludedRegion k)\<rparr>
      | Some e \<Rightarrow> k\<lparr>excludedRegion := Region_set ok (excludedRegion k) e\<rparr>)"

end
