(* ===== verification/UpdateTracking.thy ===== *)
theory UpdateTracking
  imports UpdateKeeper
begin

text \<open>
  What the update keeper promises. A client holds the picture \<open>F\<close>, the screen shows \<open>S\<close>.
  The keeper is sound for them when every pixel inside the border that it does not list as
  changed can be had from the client's own picture: at its place, or, for a pixel of the
  copied region, at the place in the source of the copy. The operations of the keeper keep
  this while the screen changes, and handing out the updates makes the client's picture the
  screen.
\<close>

section \<open>Invariant and contract\<close>

text \<open>The border leaves room for the clipping of \<open>miTranslateRegion\<close>.\<close>

definition border_ok :: "rect \<Rightarrow> bool" where
  "border_ok b \<longleftrightarrow> MINSHORT \<le> rleft b \<and> MINSHORT \<le> rtop b \<and> rright b \<le> MAXSHORT \<and> rbottom b \<le> MAXSHORT \<and>
     MINSHORT \<le> rright b \<and> MINSHORT \<le> rbottom b \<and> rleft b \<le> MAXSHORT \<and> rtop b \<le> MAXSHORT"

definition container_ok :: "update_container \<Rightarrow> bool" where
  "container_ok uc \<longleftrightarrow> region_ok (copiedRegion uc) \<and> region_ok (changedRegion uc) \<and> region_ok (videoRegion uc)"

definition keeper_ok :: "keeper \<Rightarrow> bool" where
  "keeper_ok k \<longleftrightarrow> border_ok (borderRect k) \<and> region_ok (excludedRegion k) \<and> container_ok (updates k)"

type_synonym 'p picture = "int \<Rightarrow> int \<Rightarrow> 'p"

text \<open>The client's picture after it has executed the copy of a container.\<close>

definition copied_picture :: "update_container \<Rightarrow> 'p picture \<Rightarrow> 'p picture" where
  "copied_picture uc F x y =
     (if pixels (copiedRegion uc) x y
      then F (x - rleft (Region_getBounds (copiedRegion uc)) + px (copySrc uc))
             (y - rtop (Region_getBounds (copiedRegion uc)) + py (copySrc uc))
      else F x y)"

text \<open>The picture after copy and changed pixels: the changed pixels come from the screen.\<close>

definition updated_picture :: "update_container \<Rightarrow> 'p picture \<Rightarrow> 'p picture \<Rightarrow> 'p picture" where
  "updated_picture uc S F x y = (if pixels (changedRegion uc) x y then S x y else copied_picture uc F x y)"

definition tracks :: "keeper \<Rightarrow> 'p picture \<Rightarrow> 'p picture \<Rightarrow> bool" where
  "tracks k F S \<longleftrightarrow>
     (\<forall>x y. isPointInRect (borderRect k) x y \<longrightarrow> updated_picture (updates k) S F x y = S x y)"

named_theorems keeper_simps

lemma set_changed_sel [simp, keeper_simps]:
  "borderRect (set_changed r k) = borderRect k" "excludedRegion (set_changed r k) = excludedRegion k"
  "copiedRegion (updates (set_changed r k)) = copiedRegion (updates k)"
  "changedRegion (updates (set_changed r k)) = r"
  "videoRegion (updates (set_changed r k)) = videoRegion (updates k)"
  "copySrc (updates (set_changed r k)) = copySrc (updates k)"
  by (simp_all add: set_changed_def)

lemma set_copied_sel [simp, keeper_simps]:
  "borderRect (set_copied r k) = borderRect k" "excludedRegion (set_copied r k) = excludedRegion k"
  "copiedRegion (updates (set_copied r k)) = r"
  "changedRegion (updates (set_copied r k)) = changedRegion (updates k)"
  "videoRegion (updates (set_copied r k)) = videoRegion (updates k)"
  "copySrc (updates (set_copied r k)) = copySrc (updates k)"
  by (simp_all add: set_copied_def)

lemma keeper_okD:
  "keeper_ok k \<Longrightarrow> region_ok (copiedRegion (updates k))" "keeper_ok k \<Longrightarrow> region_ok (changedRegion (updates k))"
  "keeper_ok k \<Longrightarrow> region_ok (videoRegion (updates k))" "keeper_ok k \<Longrightarrow> region_ok (excludedRegion k)"
  "keeper_ok k \<Longrightarrow> border_ok (borderRect k)"
  by (simp_all add: keeper_ok_def container_ok_def)

lemma keeper_ok_set [simp]:
  "region_ok r \<Longrightarrow> keeper_ok k \<Longrightarrow> keeper_ok (set_changed r k)"
  "region_ok r \<Longrightarrow> keeper_ok k \<Longrightarrow> keeper_ok (set_copied r k)"
  by (simp_all add: keeper_ok_def container_ok_def)

lemma border_short: "border_ok b \<Longrightarrow> short_rect b"
  by (simp add: border_ok_def short_rect_def is_short_def MINSHORT_def MAXSHORT_def)

lemma border_range: "border_ok b \<Longrightarrow> isPointInRect b x y \<Longrightarrow> INBOX range_box x y"
  by (auto simp: border_ok_def in_rect INBOX_def range_box_def)

section \<open>Changes\<close>

lemma addChangedRegion_ok:
  assumes "alloc_ok ok" "keeper_ok k" "region_ok r"
  shows "keeper_ok (addChangedRegion ok r k)"
    and "pixels (changedRegion (updates (addChangedRegion ok r k))) =
      (\<lambda>x y. (pixels (changedRegion (updates k)) x y \<or> pixels r x y) \<and> isPointInRect (borderRect k) x y)"
proof -
  note a = Region_add_ok [OF assms(1) keeper_okD(2) [OF assms(2)] assms(3)]
  note c = Region_crop_ok [OF assms(1) conjunct1 [OF a] border_short [OF keeper_okD(5) [OF assms(2)]]]
  show "keeper_ok (addChangedRegion ok r k)"
    using a c assms(2) by (simp add: addChangedRegion_def Let_def)
  show "pixels (changedRegion (updates (addChangedRegion ok r k))) =
      (\<lambda>x y. (pixels (changedRegion (updates k)) x y \<or> pixels r x y) \<and> isPointInRect (borderRect k) x y)"
    using a c by (simp add: addChangedRegion_def Let_def)
qed

lemma addChangedRegion_sel [simp]:
  "borderRect (addChangedRegion ok r k) = borderRect k" "excludedRegion (addChangedRegion ok r k) = excludedRegion k"
  "copiedRegion (updates (addChangedRegion ok r k)) = copiedRegion (updates k)"
  "videoRegion (updates (addChangedRegion ok r k)) = videoRegion (updates k)"
  "copySrc (updates (addChangedRegion ok r k)) = copySrc (updates k)"
  by (simp_all add: addChangedRegion_def Let_def)

lemma addChangedRect_sel [simp]:
  "borderRect (addChangedRect ok b k) = borderRect k" "excludedRegion (addChangedRect ok b k) = excludedRegion k"
  "copiedRegion (updates (addChangedRect ok b k)) = copiedRegion (updates k)"
  "copySrc (updates (addChangedRect ok b k)) = copySrc (updates k)"
  by (simp_all add: addChangedRect_def)

lemma addChangedRect_ok:
  assumes "alloc_ok ok" "keeper_ok k" "short_rect b"
  shows "keeper_ok (addChangedRect ok b k)"
    and "pixels (changedRegion (updates (addChangedRect ok b k))) =
      (\<lambda>x y. (pixels (changedRegion (updates k)) x y \<or> isPointInRect b x y) \<and> isPointInRect (borderRect k) x y)"
  using addChangedRegion_ok [OF assms(1,2), of "Region_rect ok b"] Region_rect_ok [OF assms(3), of ok]
  by (simp_all add: addChangedRect_def)

lemma tracks_iff:
  "tracks k F S \<longleftrightarrow> (\<forall>x y. isPointInRect (borderRect k) x y \<longrightarrow> \<not> pixels (changedRegion (updates k)) x y \<longrightarrow>
     copied_picture (updates k) F x y = S x y)"
  by (auto simp: tracks_def updated_picture_def)

lemma copied_picture_cong:
  "copiedRegion u = copiedRegion v \<Longrightarrow> copySrc u = copySrc v \<Longrightarrow> copied_picture u F = copied_picture v F"
  by (intro ext) (simp add: copied_picture_def)

text \<open>The screen changes only at pixels of the region that is reported.\<close>

lemma addChangedRegion_tracks:
  assumes "alloc_ok ok" "keeper_ok k" "region_ok r" "tracks k F S"
    and "\<And>x y. isPointInRect (borderRect k) x y \<Longrightarrow> \<not> pixels r x y \<Longrightarrow> S' x y = S x y"
  shows "tracks (addChangedRegion ok r k) F S'"
proof -
  have "copied_picture (updates (addChangedRegion ok r k)) F = copied_picture (updates k) F"
    by (rule copied_picture_cong) simp_all
  then show ?thesis
    using assms(4,5) by (auto simp: tracks_iff addChangedRegion_ok(2) [OF assms(1-3)])
qed

lemma dazzle_ok:
  assumes "alloc_ok ok" "keeper_ok k"
  shows "keeper_ok (dazzleChangedReg ok k)" "tracks (dazzleChangedReg ok k) F S"
    "borderRect (dazzleChangedReg ok k) = borderRect k"
  using addChangedRect_ok [OF assms border_short [OF keeper_okD(5) [OF assms(2)]]]
  by (simp_all add: dazzleChangedReg_def tracks_def updated_picture_def)

section \<open>Copies\<close>

text \<open>
  The clipped rectangles: destination and source stay the same distance apart, the
  destination lies in the original rectangle, both lie in the border, and nothing that could
  be copied is lost, unless nothing is left at all.
\<close>

lemma clip_copy_ok:
  assumes c: "clip_copy b copyRect src = (dst, srcR)" and ne: "\<not> rect_isEmpty dst"
  shows "rleft dst - rleft srcR = rleft copyRect - px src" "rtop dst - rtop srcR = rtop copyRect - py src"
    "isPointInRect srcR x y \<longleftrightarrow> isPointInRect dst (x + (rleft copyRect - px src)) (y + (rtop copyRect - py src))"
    "isPointInRect dst x y \<longleftrightarrow> isPointInRect copyRect x y \<and> isPointInRect b x y \<and>
       isPointInRect b (x - (rleft copyRect - px src)) (y - (rtop copyRect - py src))"
proof -
  define d1 where "d1 = intersection copyRect b"
  define s1 where "s1 = correct_edges (setLocation (px src) (py src) copyRect) d1 copyRect"
  define s2 where "s2 = intersection s1 b"
  have r: "dst = correct_edges d1 s2 s1" "srcR = s2"
    using c unfolding s2_def s1_def d1_def by (auto simp: clip_copy_def Let_def)
  note s1 = s1_def [unfolded correct_edges_def setLocation_move]
  have d1: "rleft d1 = max (rleft copyRect) (rleft b) \<and> rtop d1 = max (rtop copyRect) (rtop b) \<and>
      rright d1 = min (rright copyRect) (rright b) \<and> rbottom d1 = min (rbottom copyRect) (rbottom b)"
  proof (cases rule: intersection_cases [of copyRect b])
    case void
    then have "d1 = rect_clear" by (simp add: d1_def)
    with ne r s1 show ?thesis
      by (cases rule: intersection_cases [of s1 b])
        (auto simp: s2_def correct_edges_def rect_isEmpty_iff rect_clear_def)
  qed (simp add: d1_def)
  have s2: "rleft s2 = max (rleft s1) (rleft b) \<and> rtop s2 = max (rtop s1) (rtop b) \<and>
      rright s2 = min (rright s1) (rright b) \<and> rbottom s2 = min (rbottom s1) (rbottom b)"
  proof (cases rule: intersection_cases [of s1 b])
    case void
    then have "s2 = rect_clear" by (simp add: s2_def)
    with ne r s1 show ?thesis
      by (auto simp: correct_edges_def rect_isEmpty_iff rect_clear_def)
  qed (simp add: s2_def)
  show "rleft dst - rleft srcR = rleft copyRect - px src" "rtop dst - rtop srcR = rtop copyRect - py src"
    using r s1 by (simp_all add: correct_edges_def)
  show "isPointInRect srcR x y \<longleftrightarrow> isPointInRect dst (x + (rleft copyRect - px src)) (y + (rtop copyRect - py src))"
    using r s1 by (auto simp: correct_edges_def in_rect)
  let ?dx = "rleft copyRect - px src" and ?dy = "rtop copyRect - py src"
  have max_shift: "max m n + k = max (m + k) (n + k)" and min_shift: "min m n + k = min (m + k) (n + k)" for m n k :: int
    by (simp_all add: max_def min_def)
  have "rleft dst = rleft s2 + ?dx" "rtop dst = rtop s2 + ?dy" "rright dst = rright s2 + ?dx" "rbottom dst = rbottom s2 + ?dy"
    using r s1 by (simp_all add: correct_edges_def)
  moreover have "rleft s1 + ?dx = rleft d1" "rtop s1 + ?dy = rtop d1" "rright s1 + ?dx = rright d1" "rbottom s1 + ?dy = rbottom d1"
    using s1 by simp_all
  ultimately have "rleft dst = max (rleft d1) (rleft b + ?dx)" "rtop dst = max (rtop d1) (rtop b + ?dy)"
      "rright dst = min (rright d1) (rright b + ?dx)" "rbottom dst = min (rbottom d1) (rbottom b + ?dy)"
    using s2 by (simp_all only: max_shift min_shift)
  then have e: "rleft dst \<le> x \<longleftrightarrow> rleft d1 \<le> x \<and> rleft b \<le> x - ?dx" "rtop dst \<le> y \<longleftrightarrow> rtop d1 \<le> y \<and> rtop b \<le> y - ?dy"
      "x < rright dst \<longleftrightarrow> x < rright d1 \<and> x - ?dx < rright b" "y < rbottom dst \<longleftrightarrow> y < rbottom d1 \<and> y - ?dy < rbottom b"
    by linarith+
  have "isPointInRect d1 x y \<longleftrightarrow> isPointInRect copyRect x y \<and> isPointInRect b x y"
    unfolding d1_def by (rule intersection_pixels)
  with e show "isPointInRect dst x y \<longleftrightarrow> isPointInRect copyRect x y \<and> isPointInRect b x y \<and>
       isPointInRect b (x - ?dx) (y - ?dy)"
    unfolding in_rect by blast
qed

lemma inside_border_short:
  assumes "border_ok b" "\<not> rect_isEmpty d" "\<And>x y. isPointInRect d x y \<Longrightarrow> isPointInRect b x y"
  shows "short_rect d"
proof -
  have "isPointInRect d (rleft d) (rtop d)" "isPointInRect d (rright d - 1) (rbottom d - 1)"
    using assms(2) by (auto simp: in_rect rect_isEmpty_iff)
  from this [THEN assms(3)] assms(1) show ?thesis
    by (simp add: in_rect border_ok_def short_rect_def is_short_def MINSHORT_def MAXSHORT_def)
qed

lemma getBounds_rect:
  assumes "region_ok r" "pixels r = isPointInRect b" "\<not> rect_isEmpty b"
  shows "Region_getBounds r = b"
proof -
  have "REGION_RECTS r \<noteq> []"
    using assms pixels_empty [of r] by (auto simp: rect_isEmpty_pixels)
  then have "tight (extents r) (isPointInRect b)"
    using region_ok_tight [OF assms(1)] assms(2) by simp
  moreover have "tight (mkbox (rleft b) (rtop b) (rright b) (rbottom b)) (isPointInRect b)"
    using assms(3) by (intro tight_cong [OF tight_box]) (auto simp: rect_isEmpty_iff INBOX_def in_rect)
  ultimately have "extents r = mkbox (rleft b) (rtop b) (rright b) (rbottom b)" by (rule tight_unique)
  then show ?thesis by (simp add: Region_getBounds_def rect_of_box_def)
qed

text \<open>A keeper with its copy source, ready for the two continuations of \<open>addCopyRect\<close>.\<close>

definition copy_started :: "allocator \<Rightarrow> rect \<Rightarrow> rect \<Rightarrow> rect \<Rightarrow> keeper \<Rightarrow> keeper" where
  "copy_started ok copyRect dst srcR k =
     addChangedRegion ok (Region_subtract ok (Region_rect ok copyRect) (Region_rect ok dst))
       (k\<lparr>updates := (updates k)\<lparr>copySrc := \<lparr>px = rleft srcR, py = rtop srcR\<rparr>\<rparr>\<rparr>)"

lemma copy_started_sel [simp]:
  "borderRect (copy_started ok c d s k) = borderRect k"
  "copiedRegion (updates (copy_started ok c d s k)) = copiedRegion (updates k)"
  "copySrc (updates (copy_started ok c d s k)) = \<lparr>px = rleft s, py = rtop s\<rparr>"
  by (simp_all add: copy_started_def)

lemma copy_started_ok:
  assumes "alloc_ok ok" "keeper_ok k" "short_rect copyRect" "short_rect dst"
  shows "keeper_ok (copy_started ok copyRect dst srcR k)"
    and "pixels (changedRegion (updates (copy_started ok copyRect dst srcR k))) =
      (\<lambda>x y. (pixels (changedRegion (updates k)) x y \<or> isPointInRect copyRect x y \<and> \<not> isPointInRect dst x y) \<and>
        isPointInRect (borderRect k) x y)"
proof -
  have k: "keeper_ok (k\<lparr>updates := (updates k)\<lparr>copySrc := \<lparr>px = rleft srcR, py = rtop srcR\<rparr>\<rparr>\<rparr>)"
    using assms(2) by (simp add: keeper_ok_def container_ok_def)
  note d = rgn.rect_minus_rect [OF assms(1,3,4)]
  note a = addChangedRegion_ok [OF assms(1) k conjunct1 [OF d]]
  show "keeper_ok (copy_started ok copyRect dst srcR k)" unfolding copy_started_def by (rule a(1))
  show "pixels (changedRegion (updates (copy_started ok copyRect dst srcR k))) =
      (\<lambda>x y. (pixels (changedRegion (updates k)) x y \<or> isPointInRect copyRect x y \<and> \<not> isPointInRect dst x y) \<and>
        isPointInRect (borderRect k) x y)"
    unfolding copy_started_def a(2) using d by simp
qed

text \<open>An earlier copy is still there: both end up among the changed pixels.\<close>

lemma addCopyRect_again:
  assumes ok: "alloc_ok ok" and k: "keeper_ok k" and short: "short_rect copyRect" and ne: "\<not> rect_isEmpty copyRect"
    and c: "clip_copy (borderRect k) copyRect src = (dst, srcR)" and dst: "\<not> rect_isEmpty dst"
    and again: "\<not> Region_isEmpty (copiedRegion (updates k))"
  defines "k' \<equiv> addCopyRect ok copyRect src k"
  shows "keeper_ok k'" "borderRect k' = borderRect k" "pixels (copiedRegion (updates k')) = (\<lambda>x y. False)"
    "pixels (changedRegion (updates k')) =
      (\<lambda>x y. (pixels (changedRegion (updates k)) x y \<or> isPointInRect copyRect x y \<or> pixels (copiedRegion (updates k)) x y) \<and>
        isPointInRect (borderRect k) x y)"
proof -
  note b = keeper_okD(5) [OF k]
  have "short_rect dst" using inside_border_short [OF b dst] clip_copy_ok(4) [OF c dst] by blast
  note s = copy_started_ok [OF ok k short this, of srcR]
  note a = Region_add_ok [OF ok keeper_okD(2) [OF s(1)] keeper_okD(1) [OF k]]
  let ?r = "Region_add ok (changedRegion (updates (copy_started ok copyRect dst srcR k))) (copiedRegion (updates k))"
  let ?m = "set_copied (Region_clear (copiedRegion (updates k))) (set_changed ?r (copy_started ok copyRect dst srcR k))"
  have e: "k' = addChangedRect ok copyRect ?m"
    using ne dst again c by (simp add: k'_def addCopyRect_def Let_def copy_started_def)
  have m: "keeper_ok ?m" using a s by simp
  note l = addChangedRect_ok [OF ok m short, folded e]
  show "keeper_ok k'" by (rule l(1))
  show "borderRect k' = borderRect k" by (simp add: e)
  show "pixels (copiedRegion (updates k')) = (\<lambda>x y. False)" by (intro ext) (simp add: e)
  show "pixels (changedRegion (updates k')) =
      (\<lambda>x y. (pixels (changedRegion (updates k)) x y \<or> isPointInRect copyRect x y \<or> pixels (copiedRegion (updates k)) x y) \<and>
        isPointInRect (borderRect k) x y)"
    unfolding l(2) using a s(2) by (auto intro!: ext)
qed

text \<open>The first copy since the last extraction.\<close>

lemma addCopyRect_fresh:
  assumes ok: "alloc_ok ok" and k: "keeper_ok k" and short: "short_rect copyRect" and ne: "\<not> rect_isEmpty copyRect"
    and c: "clip_copy (borderRect k) copyRect src = (dst, srcR)" and dst: "\<not> rect_isEmpty dst"
    and first: "Region_isEmpty (copiedRegion (updates k))"
  defines "k' \<equiv> addCopyRect ok copyRect src k"
    and "base \<equiv> \<lambda>x y. (pixels (changedRegion (updates k)) x y \<or> isPointInRect copyRect x y) \<and>
          isPointInRect (borderRect k) x y \<and> \<not> isPointInRect dst x y"
  shows "keeper_ok k'" "borderRect k' = borderRect k" "copySrc (updates k') = \<lparr>px = rleft srcR, py = rtop srcR\<rparr>"
    "pixels (copiedRegion (updates k')) = isPointInRect dst"
    "pixels (changedRegion (updates k')) =
      (\<lambda>x y. base x y \<or> isPointInRect dst x y \<and> base (x - (rleft copyRect - px src)) (y - (rtop copyRect - py src)))"
proof -
  let ?dx = "rleft copyRect - px src" and ?dy = "rtop copyRect - py src"
  note b = keeper_okD(5) [OF k] and cc = clip_copy_ok [OF c dst]
  have sd: "short_rect dst" using inside_border_short [OF b dst] cc(4) by blast
  have srcne: "\<not> rect_isEmpty srcR"
  proof -
    obtain x y where "isPointInRect dst x y" using dst rect_isEmpty_pixels by blast
    then have "isPointInRect srcR (x - ?dx) (y - ?dy)" using cc(3) by simp
    then show ?thesis using rect_isEmpty_pixels by blast
  qed
  have srcb: "isPointInRect srcR x y \<Longrightarrow> isPointInRect (borderRect k) x y" for x y
    using cc(3) [of x y] cc(4) [of "x + ?dx" "y + ?dy"] by simp
  have ss: "short_rect srcR" by (rule inside_border_short [OF b srcne srcb])
  define s where "s = copy_started ok copyRect dst srcR k"
  note s = copy_started_ok [OF ok k short sd, of srcR, folded s_def]
  define cp where "cp = fst (Region_addRect ok (Region_clear (copiedRegion (updates k))) dst)"
  note a = Region_addRect_ok [OF ok Region_clear_ok(1) sd, of "copiedRegion (updates k)"]
  have cp: "Region_addRect ok (Region_clear (copiedRegion (updates k))) dst = (cp, dst)" "region_ok cp"
      "pixels cp = isPointInRect dst"
    using a by (auto simp: cp_def prod_eq_iff intro!: ext)
  define ch where "ch = Region_subtract ok (changedRegion (updates s)) cp"
  have ch: "region_ok ch" "pixels ch = base"
    using Region_subtract_ok [OF ok keeper_okD(2) [OF s(1)] cp(2)] s(2) cp(3)
    by (auto simp: ch_def base_def intro!: ext)
  define ad where "ad = Region_intersect ok (Region_rect ok srcR) ch"
  have ad: "region_ok ad" "pixels ad = (\<lambda>x y. isPointInRect srcR x y \<and> base x y)"
    using Region_intersect_ok [OF ok _ ch(1), of "Region_rect ok srcR"] Region_rect_ok [OF ss, of ok] ch(2)
    by (auto simp: ad_def intro!: ext)
  define mv where "mv = Region_translate ad ?dx ?dy"
  have "INBOX range_box (x + ?dx) (y + ?dy)" if "pixels ad x y" for x y
    using that ad(2) cc(3) [of x y] cc(4) [of "x + ?dx" "y + ?dy"] border_range [OF b] by auto
  from Region_translate_ok [OF ad(1) this]
  have mv: "region_ok mv" "pixels mv = (\<lambda>x y. isPointInRect dst x y \<and> base (x - ?dx) (y - ?dy))"
    using ad(2) cc(3) by (auto simp: mv_def intro!: ext)
  note un = Region_add_ok [OF ok ch(1) mv(1)]
  note cr = Region_crop_ok [OF ok conjunct1 [OF un] border_short [OF b]]
  note cx = Region_crop_ok [OF ok cp(2) border_short [OF b]]
  have dxy: "rleft dst - rleft srcR = ?dx" "rtop dst - rtop srcR = ?dy" using cc(1,2) by simp_all
  have e: "k' = set_copied (Region_crop ok cp (borderRect k))
     (set_changed (Region_crop ok (Region_add ok ch mv) (borderRect k))
       (set_changed (Region_add ok ch mv) (set_changed ch (set_copied cp
         (set_copied (Region_clear (copiedRegion (updates k))) s)))))"
    using ne dst first c dxy
    by (simp add: k'_def addCopyRect_def Let_def copy_started_def [symmetric] s_def [symmetric] cp(1) ch_def ad_def mv_def)
  show "keeper_ok k'" using e s(1) cp(2) ch(1) un cr cx by simp
  show "borderRect k' = borderRect k" "copySrc (updates k') = \<lparr>px = rleft srcR, py = rtop srcR\<rparr>"
    by (simp_all add: e s_def)
  show "pixels (copiedRegion (updates k')) = isPointInRect dst"
    using e cx cp(3) cc(4) by (auto intro!: ext)
  show "pixels (changedRegion (updates k')) = (\<lambda>x y. base x y \<or> isPointInRect dst x y \<and> base (x - ?dx) (y - ?dy))"
    using e cr un ch(2) mv(2) cc(4) by (auto simp: base_def intro!: ext)
qed

text \<open>
  The screen executes the copy: the pixels of the rectangle take the old value of their source.
  \<open>kept\<close>: no changed pixel is overwritten by the copy and at the same time copied elsewhere;
  \<open>some\<close>: the source of a visible pixel is visible, unless the rectangle is invisible.
\<close>

definition copy_distance :: "rect \<Rightarrow> point \<Rightarrow> int \<times> int" where
  "copy_distance copyRect src = (rleft copyRect - px src, rtop copyRect - py src)"

definition executes_copy :: "rect \<Rightarrow> rect \<Rightarrow> point \<Rightarrow> 'p picture \<Rightarrow> 'p picture \<Rightarrow> bool" where
  "executes_copy b copyRect src S S' \<longleftrightarrow>
     (case copy_distance copyRect src of (dx, dy) \<Rightarrow>
       (\<forall>x y. isPointInRect b x y \<longrightarrow> \<not> isPointInRect copyRect x y \<longrightarrow> S' x y = S x y) \<and>
       (\<forall>x y. isPointInRect b x y \<longrightarrow> isPointInRect copyRect x y \<longrightarrow> isPointInRect b (x - dx) (y - dy) \<longrightarrow>
          S' x y = S (x - dx) (y - dy)))"

definition copy_visible :: "rect \<Rightarrow> rect \<Rightarrow> point \<Rightarrow> bool" where
  "copy_visible b copyRect src \<longleftrightarrow>
     (case copy_distance copyRect src of (dx, dy) \<Rightarrow>
       (\<forall>x y. isPointInRect copyRect x y \<longrightarrow> \<not> isPointInRect b x y) \<or>
       (\<exists>x y. isPointInRect copyRect x y \<and> isPointInRect b x y \<and> isPointInRect b (x - dx) (y - dy)))"

definition damage_kept :: "keeper \<Rightarrow> rect \<Rightarrow> point \<Rightarrow> bool" where
  "damage_kept k copyRect src \<longleftrightarrow>
     (case copy_distance copyRect src of (dx, dy) \<Rightarrow>
       Region_isEmpty (copiedRegion (updates k)) \<longrightarrow>
       (\<forall>x y. pixels (changedRegion (updates k)) x y \<longrightarrow> isPointInRect copyRect x y \<longrightarrow>
          \<not> isPointInRect copyRect (x + dx) (y + dy)))"

lemma clip_copy_empty:
  assumes "clip_copy b copyRect src = (dst, srcR)" "rect_isEmpty dst" "copy_visible b copyRect src"
  shows "\<not> (isPointInRect copyRect x y \<and> isPointInRect b x y)"
proof
  assume "isPointInRect copyRect x y \<and> isPointInRect b x y"
  then obtain u v where p: "isPointInRect copyRect u v" "isPointInRect b u v"
      "isPointInRect b (u - (rleft copyRect - px src)) (v - (rtop copyRect - py src))"
    using assms(3) by (auto simp: copy_visible_def copy_distance_def)
  define s1 where "s1 = correct_edges (setLocation (px src) (py src) copyRect) (intersection copyRect b) copyRect"
  have r: "dst = correct_edges (intersection copyRect b) (intersection s1 b) s1"
    using assms(1) unfolding s1_def by (auto simp: clip_copy_def Let_def)
  have in1: "isPointInRect (intersection copyRect b) u v" using p by (simp add: intersection_pixels)
  then have "isPointInRect s1 (u - (rleft copyRect - px src)) (v - (rtop copyRect - py src))"
    by (auto simp: s1_def correct_edges_def setLocation_move in_rect)
  then have "isPointInRect (intersection s1 b) (u - (rleft copyRect - px src)) (v - (rtop copyRect - py src))"
    using p by (simp add: intersection_pixels)
  then have "isPointInRect dst u v"
    using in1 by (auto simp: r s1_def correct_edges_def setLocation_move in_rect)
  then show False using assms(2) rect_isEmpty_pixels by blast
qed

lemma addCopyRect_tracks:
  assumes ok: "alloc_ok ok" and k: "keeper_ok k" and short: "short_rect copyRect"
    and t: "tracks k F S" and ex: "executes_copy (borderRect k) copyRect src S S'"
    and vis: "copy_visible (borderRect k) copyRect src" and kept: "damage_kept k copyRect src"
  shows "keeper_ok (addCopyRect ok copyRect src k) \<and> tracks (addCopyRect ok copyRect src k) F S'"
proof -
  let ?dx = "rleft copyRect - px src" and ?dy = "rtop copyRect - py src" and ?b = "borderRect k"
  obtain dst srcR where c: "clip_copy ?b copyRect src = (dst, srcR)" by fastforce
  note out = ex [unfolded executes_copy_def copy_distance_def, simplified, THEN conjunct1, rule_format]
    and into = ex [unfolded executes_copy_def copy_distance_def, simplified, THEN conjunct2, rule_format]
  consider (none) "rect_isEmpty copyRect" | (gone) "\<not> rect_isEmpty copyRect" "rect_isEmpty dst"
    | (again) "\<not> rect_isEmpty copyRect" "\<not> rect_isEmpty dst" "\<not> Region_isEmpty (copiedRegion (updates k))"
    | (fresh) "\<not> rect_isEmpty copyRect" "\<not> rect_isEmpty dst" "Region_isEmpty (copiedRegion (updates k))"
    by blast
  then show ?thesis
  proof cases
    case none
    then have "S' x y = S x y" if "isPointInRect ?b x y" for x y
      using out that rect_isEmpty_pixels by blast
    with none t k show ?thesis by (simp add: addCopyRect_def tracks_iff)
  next
    case gone
    then have "S' x y = S x y" if "isPointInRect ?b x y" for x y
      using out that clip_copy_empty [OF c gone(2) vis] by blast
    with gone t k c show ?thesis by (simp add: addCopyRect_def tracks_iff)
  next
    case again
    note a = addCopyRect_again [OF ok k short again(1) c again(2,3)]
    show ?thesis
    proof (rule conjI [OF a(1)], unfold tracks_iff a(2), intro allI impI)
      fix x y assume b: "isPointInRect ?b x y"
        and nc: "\<not> pixels (changedRegion (updates (addCopyRect ok copyRect src k))) x y"
      have "\<not> isPointInRect copyRect x y" "\<not> pixels (changedRegion (updates k)) x y" "\<not> pixels (copiedRegion (updates k)) x y"
        using b nc unfolding a(4) by blast+
      moreover from this t b have "copied_picture (updates k) F x y = S x y" unfolding tracks_iff by blast
      ultimately show "copied_picture (updates (addCopyRect ok copyRect src k)) F x y = S' x y"
        using out [OF b] by (simp add: copied_picture_def a(3))
    qed
  next
    case fresh
    note f = addCopyRect_fresh [OF ok k short fresh(1) c fresh(2,3)]
    note cc = clip_copy_ok [OF c fresh(2)]
    have bounds: "Region_getBounds (copiedRegion (updates (addCopyRect ok copyRect src k))) = dst"
      by (rule getBounds_rect [OF keeper_okD(1) [OF f(1)] f(4) fresh(2)])
    have same: "copied_picture (updates k) F = F"
      using fresh(3) keeper_okD(1) [OF k] by (intro ext) (simp add: copied_picture_def Region_isEmpty_ok)
    show ?thesis
    proof (rule conjI [OF f(1)], unfold tracks_iff f(2), intro allI impI)
      fix x y assume b: "isPointInRect ?b x y"
        and nc: "\<not> pixels (changedRegion (updates (addCopyRect ok copyRect src k))) x y"
      show "copied_picture (updates (addCopyRect ok copyRect src k)) F x y = S' x y"
      proof (cases "isPointInRect dst x y")
        case True
        have p: "isPointInRect copyRect x y" "isPointInRect ?b (x - ?dx) (y - ?dy)" using cc(4) True by blast+
        have "\<not> isPointInRect copyRect (x - ?dx) (y - ?dy)" if "pixels (changedRegion (updates k)) (x - ?dx) (y - ?dy)"
          using kept [unfolded damage_kept_def copy_distance_def, simplified, rule_format, OF fresh(3) that] p(1) by auto
        then have "\<not> pixels (changedRegion (updates k)) (x - ?dx) (y - ?dy)"
          using nc True p(2) cc(4) [of "x - ?dx" "y - ?dy"] unfolding f(5) by blast
        then have "F (x - ?dx) (y - ?dy) = S (x - ?dx) (y - ?dy)"
          using t p(2) same unfolding tracks_iff by simp
        also have "\<dots> = S' x y" using into [OF b p] by simp
        moreover have "x - rleft dst + rleft srcR = x - ?dx" "y - rtop dst + rtop srcR = y - ?dy"
          using cc(1,2) by linarith+
        moreover have "copied_picture (updates (addCopyRect ok copyRect src k)) F x y =
            F (x - rleft dst + rleft srcR) (y - rtop dst + rtop srcR)"
          using True by (simp add: copied_picture_def f(3,4) bounds)
        ultimately show ?thesis by (simp only:)
      next
        case False
        then have "\<not> isPointInRect copyRect x y" "\<not> pixels (changedRegion (updates k)) x y"
          using nc b unfolding f(5) by blast+
        then show ?thesis
          using False t b same out unfolding tracks_iff by (simp add: copied_picture_def f(4))
      qed
    qed
  qed
qed

section \<open>Handing out the updates\<close>

lemma getBounds_cong:
  assumes "region_ok r" "region_ok s" "pixels r = pixels s" "pixels r x y"
  shows "Region_getBounds r = Region_getBounds s"
proof -
  have "REGION_RECTS r \<noteq> []" "REGION_RECTS s \<noteq> []" using assms(3,4) pixels_empty by metis+
  then have "tight (extents r) (pixels r)" "tight (extents s) (pixels r)"
    using region_ok_tight assms(1-3) by metis+
  then have "extents r = extents s" by (rule tight_unique)
  then show ?thesis by (simp add: Region_getBounds_def)
qed

lemma copied_picture_pixels:
  assumes "region_ok (copiedRegion u)" "region_ok (copiedRegion v)"
    "pixels (copiedRegion u) = pixels (copiedRegion v)" "copySrc u = copySrc v"
  shows "copied_picture u F = copied_picture v F"
proof (intro ext)
  fix x y
  show "copied_picture u F x y = copied_picture v F x y"
    using getBounds_cong [OF assms(1-3), of x y] assms(3,4)
    by (cases "pixels (copiedRegion u) x y") (simp_all add: copied_picture_def)
qed

lemma assign_ok:
  assumes "alloc_ok ok" "container_ok src"
  shows "container_ok (UpdateContainer_assign ok this src)"
    "pixels (changedRegion (UpdateContainer_assign ok this src)) = pixels (changedRegion src)"
    "pixels (copiedRegion (UpdateContainer_assign ok this src)) = pixels (copiedRegion src)"
    "pixels (videoRegion (UpdateContainer_assign ok this src)) = pixels (videoRegion src)"
  using assms Region_set_ok [OF assms(1)] Region_set_pixels [OF assms(1)]
  by (simp_all add: UpdateContainer_assign_def container_ok_def)

lemma container_new_ok [simp]:
  "container_ok (UpdateContainer_new ok)" "container_ok (UpdateContainer_clear uc)"
  by (simp_all add: UpdateContainer_new_def UpdateContainer_clear_def container_ok_def)

lemma container_clear_pixels [simp]:
  "pixels (changedRegion (UpdateContainer_clear uc)) x y = False"
  "pixels (copiedRegion (UpdateContainer_clear uc)) x y = False"
  "pixels (videoRegion (UpdateContainer_clear uc)) x y = False"
  by (simp_all add: UpdateContainer_clear_def)

lemma extract_ok:
  assumes ok: "alloc_ok ok" and k: "keeper_ok k" and e: "extract_updates ok uc k = (uc', k')"
  shows "container_ok uc'" "keeper_ok k'" "borderRect k' = borderRect k" "excludedRegion k' = excludedRegion k"
    "pixels (changedRegion uc') = (\<lambda>x y. (pixels (changedRegion (updates k)) x y \<and> isPointInRect (borderRect k) x y) \<and>
       \<not> pixels (excludedRegion k) x y)"
    "pixels (copiedRegion uc') = (\<lambda>x y. (pixels (copiedRegion (updates k)) x y \<and> isPointInRect (borderRect k) x y) \<and>
       \<not> pixels (excludedRegion k) x y)"
    "copySrc uc' = copySrc (updates k)"
    "pixels (changedRegion (updates k')) = (\<lambda>x y. False)" "pixels (copiedRegion (updates k')) = (\<lambda>x y. False)"
proof -
  note short = border_short [OF keeper_okD(5) [OF k]]
  note ch = Region_crop_ok [OF ok keeper_okD(2) [OF k] short] and cp = Region_crop_ok [OF ok keeper_okD(1) [OF k] short]
  define m where "m = set_copied (Region_crop ok (copiedRegion (updates k)) (borderRect k))
    (set_changed (Region_crop ok (changedRegion (updates k)) (borderRect k)) k)"
  have m: "keeper_ok m" using k ch cp by (simp add: m_def)
  have "container_ok (updates m)" using m by (simp add: keeper_ok_def)
  note a = assign_ok [OF ok this, of uc]
  have e': "k' = m\<lparr>updates := UpdateContainer_clear (updates m)\<rparr>"
    "uc' = (UpdateContainer_assign ok uc (updates m))
       \<lparr>changedRegion := Region_subtract ok (changedRegion (UpdateContainer_assign ok uc (updates m))) (excludedRegion k),
        copiedRegion := Region_subtract ok (copiedRegion (UpdateContainer_assign ok uc (updates m))) (excludedRegion k)\<rparr>"
    using e by (auto simp: extract_updates_def Let_def m_def)
  note x = keeper_okD(4) [OF k]
  have r: "region_ok (changedRegion (UpdateContainer_assign ok uc (updates m)))"
    "region_ok (copiedRegion (UpdateContainer_assign ok uc (updates m)))"
    "region_ok (videoRegion (UpdateContainer_assign ok uc (updates m)))"
    using a(1) by (simp_all add: container_ok_def)
  note s1 = Region_subtract_ok [OF ok r(1) x] and s2 = Region_subtract_ok [OF ok r(2) x]
  show "container_ok uc'" using s1 s2 r(3) by (simp add: e' container_ok_def)
  show "keeper_ok k'" using m by (simp add: e' keeper_ok_def)
  show "borderRect k' = borderRect k" "excludedRegion k' = excludedRegion k" by (simp_all add: e' m_def)
  show "copySrc uc' = copySrc (updates k)" by (simp add: e' m_def UpdateContainer_assign_def)
  show "pixels (changedRegion uc') = (\<lambda>x y. (pixels (changedRegion (updates k)) x y \<and> isPointInRect (borderRect k) x y) \<and>
       \<not> pixels (excludedRegion k) x y)"
    using s1 a(2) ch by (simp add: e' m_def)
  show "pixels (copiedRegion uc') = (\<lambda>x y. (pixels (copiedRegion (updates k)) x y \<and> isPointInRect (borderRect k) x y) \<and>
       \<not> pixels (excludedRegion k) x y)"
    using s2 a(3) cp by (simp add: e' m_def)
  show "pixels (changedRegion (updates k')) = (\<lambda>x y. False)" "pixels (copiedRegion (updates k')) = (\<lambda>x y. False)"
    by (auto simp: e' intro!: ext)
qed

end
