(* ===== verification/UpdateSession.thy ===== *)
theory UpdateSession
  imports UpdateTracking
begin

text \<open>
  Sessions: the sequences of steps of one update keeper, its screen and its client. The
  relation \<open>session ok k F S\<close> says that such a sequence can lead to the keeper \<open>k\<close> with the
  picture \<open>F\<close> at the client and \<open>S\<close> on the screen.
\<close>

section \<open>The steps\<close>

text \<open>
  A container that another keeper handed out is taken over right when its copied region is
  at most one rectangle, to which the conditions of a copy apply.
\<close>

definition one_copy :: "update_container \<Rightarrow> bool" where
  "one_copy uc \<longleftrightarrow> length (REGION_RECTS (copiedRegion uc)) \<le> 1"

definition copy_fits :: "keeper \<Rightarrow> update_container \<Rightarrow> bool" where
  "copy_fits k uc \<longleftrightarrow> Region_isEmpty (copiedRegion uc) \<or>
     short_rect (Region_getBounds (copiedRegion uc)) \<and>
     copy_visible (borderRect k) (Region_getBounds (copiedRegion uc)) (copySrc uc) \<and>
     damage_kept k (Region_getBounds (copiedRegion uc)) (copySrc uc)"

inductive session :: "allocator \<Rightarrow> keeper \<Rightarrow> 'p picture \<Rightarrow> 'p picture \<Rightarrow> bool" for ok where
  start: "border_ok b \<Longrightarrow> session ok (addChangedRect ok b (UpdateKeeper_new ok b)) F S"
| draw: "session ok k F S \<Longrightarrow> region_ok r \<Longrightarrow>
    (\<And>x y. isPointInRect (borderRect k) x y \<Longrightarrow> \<not> pixels r x y \<Longrightarrow> S' x y = S x y) \<Longrightarrow>
    session ok (addChangedRegion ok r k) F S'"
| copy: "session ok k F S \<Longrightarrow> short_rect copyRect \<Longrightarrow> executes_copy (borderRect k) copyRect src S S' \<Longrightarrow>
    copy_visible (borderRect k) copyRect src \<Longrightarrow> damage_kept k copyRect src \<Longrightarrow>
    session ok (addCopyRect ok copyRect src k) F S'"
| resize: "session ok k F S \<Longrightarrow> border_ok b \<Longrightarrow> session ok (dazzleChangedReg ok (setBorderRect b k)) F' S'"
| merge: "session ok k F S \<Longrightarrow> container_ok uc \<Longrightarrow> one_copy uc \<Longrightarrow> copy_fits k uc \<Longrightarrow>
    session ok (addUpdateContainer ok uc k) F (updated_picture uc S' S)"
| include_all: "session ok k F S \<Longrightarrow> session ok (setExcludedRegion ok None k) F S"
| cursor_moved: "session ok k F S \<Longrightarrow> session ok (setCursorPosChanged p k) F S"
| cursor_set: "session ok k F S \<Longrightarrow> session ok (setCursorPos p k) F S"
| cursor_shape: "session ok k F S \<Longrightarrow> session ok (setCursorShapeChanged k) F S"
| screen_size: "session ok k F S \<Longrightarrow> session ok (setScreenSizeChanged k) F S"
| deliver: "session ok k F S \<Longrightarrow> extract_updates ok uc k = (uc', k') \<Longrightarrow>
    session ok k' (updated_picture uc' S F) S"

section \<open>The invariant of a session\<close>

text \<open>The copied region lies inside the border, or the whole border is listed as changed.\<close>

definition copy_inside :: "keeper \<Rightarrow> bool" where
  "copy_inside k \<longleftrightarrow>
     (\<forall>x y. pixels (copiedRegion (updates k)) x y \<longrightarrow> isPointInRect (borderRect k) x y) \<or>
     (\<forall>x y. isPointInRect (borderRect k) x y \<longrightarrow> pixels (changedRegion (updates k)) x y)"

definition in_step :: "keeper \<Rightarrow> 'p picture \<Rightarrow> 'p picture \<Rightarrow> bool" where
  "in_step k F S \<longleftrightarrow> keeper_ok k \<and> tracks k F S \<and> (\<forall>x y. \<not> pixels (excludedRegion k) x y) \<and> copy_inside k"

lemma addCopyRect_sel [simp]:
  "borderRect (addCopyRect ok c src k) = borderRect k" "excludedRegion (addCopyRect ok c src k) = excludedRegion k"
  by (auto simp: addCopyRect_def Let_def split: prod.splits)

lemma in_step_flags [simp]:
  "in_step (setCursorPosChanged p k) F S = in_step k F S" "in_step (setCursorPos p k) F S = in_step k F S"
  "in_step (setCursorShapeChanged k) F S = in_step k F S" "in_step (setScreenSizeChanged k) F S = in_step k F S"
  by (simp_all add: in_step_def keeper_ok_def container_ok_def tracks_iff copied_picture_def copy_inside_def
      setCursorPosChanged_def setCursorPos_def setCursorShapeChanged_def setScreenSizeChanged_def)

lemma in_step_include_all:
  "in_step k F S \<Longrightarrow> in_step (setExcludedRegion ok None k) F S"
  by (simp add: in_step_def keeper_ok_def container_ok_def tracks_iff copied_picture_def copy_inside_def setExcludedRegion_def)

lemma in_step_video:
  "region_ok v \<Longrightarrow> in_step k F S \<Longrightarrow> in_step (k\<lparr>updates := (updates k)\<lparr>videoRegion := v\<rparr>\<rparr>) F S"
proof -
  have c: "copied_picture (u\<lparr>videoRegion := v\<rparr>) F = copied_picture u F" for u by (rule copied_picture_cong) simp_all
  show "region_ok v \<Longrightarrow> in_step k F S \<Longrightarrow> in_step (k\<lparr>updates := (updates k)\<lparr>videoRegion := v\<rparr>\<rparr>) F S"
    by (simp add: in_step_def keeper_ok_def container_ok_def tracks_iff c copy_inside_def)
qed

lemma in_step_start:
  assumes "alloc_ok ok" "border_ok b"
  shows "in_step (addChangedRect ok b (UpdateKeeper_new ok b)) F S"
proof -
  have k: "keeper_ok (UpdateKeeper_new ok b)" using assms by (simp add: keeper_ok_def UpdateKeeper_new_def)
  note a = addChangedRect_ok [OF assms(1) k border_short [OF assms(2)]]
  have "borderRect (UpdateKeeper_new ok b) = b" "\<not> pixels (excludedRegion (UpdateKeeper_new ok b)) x y" for x y
    by (simp_all add: UpdateKeeper_new_def)
  then show ?thesis using a by (simp add: in_step_def tracks_iff copy_inside_def)
qed

lemma in_step_draw:
  assumes "alloc_ok ok" "in_step k F S" "region_ok r"
    "\<And>x y. isPointInRect (borderRect k) x y \<Longrightarrow> \<not> pixels r x y \<Longrightarrow> S' x y = S x y"
  shows "in_step (addChangedRegion ok r k) F S'"
proof -
  have k: "keeper_ok k" "tracks k F S" using assms(2) by (simp_all add: in_step_def)
  show ?thesis
    using addChangedRegion_ok [OF assms(1) k(1) assms(3)] addChangedRegion_tracks [OF assms(1) k(1) assms(3) k(2) assms(4)]
      assms(2)
    by (auto simp: in_step_def copy_inside_def)
qed

lemma addCopyRect_inside:
  assumes ok: "alloc_ok ok" and k: "keeper_ok k" and short: "short_rect copyRect" and i: "copy_inside k"
  shows "copy_inside (addCopyRect ok copyRect src k)"
proof -
  obtain dst srcR where c: "clip_copy (borderRect k) copyRect src = (dst, srcR)" by fastforce
  consider (same) "addCopyRect ok copyRect src k = k"
    | (again) "\<not> rect_isEmpty copyRect" "\<not> rect_isEmpty dst" "\<not> Region_isEmpty (copiedRegion (updates k))"
    | (fresh) "\<not> rect_isEmpty copyRect" "\<not> rect_isEmpty dst" "Region_isEmpty (copiedRegion (updates k))"
    using c by (fastforce simp: addCopyRect_def)
  then show ?thesis
  proof cases
    case again
    from addCopyRect_again [OF ok k short again(1) c again(2,3)] show ?thesis by (simp add: copy_inside_def)
  next
    case fresh
    from addCopyRect_fresh [OF ok k short fresh(1) c fresh(2,3)] clip_copy_ok(4) [OF c fresh(2)]
    show ?thesis by (simp add: copy_inside_def)
  qed (simp add: i)
qed

lemma in_step_copy:
  assumes "alloc_ok ok" "in_step k F S" "short_rect copyRect" "executes_copy (borderRect k) copyRect src S S'"
    "copy_visible (borderRect k) copyRect src" "damage_kept k copyRect src"
  shows "in_step (addCopyRect ok copyRect src k) F S'"
proof -
  have k: "keeper_ok k" "tracks k F S" "copy_inside k" using assms(2) by (simp_all add: in_step_def)
  show ?thesis
    using addCopyRect_tracks [OF assms(1) k(1) assms(3) k(2) assms(4-6)] addCopyRect_inside [OF assms(1) k(1) assms(3) k(3)]
      assms(2)
    by (simp add: in_step_def)
qed

lemma in_step_resize:
  assumes "alloc_ok ok" "in_step k F S" "border_ok b"
  shows "in_step (dazzleChangedReg ok (setBorderRect b k)) F' S'"
proof -
  let ?k = "setBorderRect b k"
  have k: "keeper_ok ?k" using assms(2,3) by (simp add: in_step_def keeper_ok_def setBorderRect_def)
  note a = addChangedRect_ok [OF assms(1) k border_short [OF keeper_okD(5) [OF k]], folded dazzleChangedReg_def]
  show ?thesis
    using dazzle_ok [OF assms(1) k] a assms(2) unfolding in_step_def copy_inside_def
    by (simp add: dazzleChangedReg_def setBorderRect_def)
qed

text \<open>Handing out the updates of a session brings the client up to date.\<close>

lemma in_step_deliver:
  assumes ok: "alloc_ok ok" and s: "in_step k F S" and e: "extract_updates ok uc k = (uc', k')"
  shows "in_step k' (updated_picture uc' S F) S"
    and "isPointInRect (borderRect k) x y \<Longrightarrow> updated_picture uc' S F x y = S x y"
proof -
  have k: "keeper_ok k" and t: "tracks k F S" and ex: "\<And>x y. \<not> pixels (excludedRegion k) x y" and i: "copy_inside k"
    using s by (auto simp: in_step_def)
  note x = extract_ok [OF ok k e]
  show up: "updated_picture uc' S F x y = S x y" if b: "isPointInRect (borderRect k) x y" for x y
  proof (cases "pixels (changedRegion (updates k)) x y")
    case True
    with b ex x(5) show ?thesis by (simp add: updated_picture_def)
  next
    case False
    with i b have "pixels (copiedRegion uc') = pixels (copiedRegion (updates k))"
      using ex x(6) unfolding copy_inside_def by (auto intro!: ext)
    then have "copied_picture uc' F = copied_picture (updates k) F"
      using x(1,7) keeper_okD(1) [OF k] by (intro copied_picture_pixels) (simp_all add: container_ok_def)
    with False b ex x(5) t show ?thesis by (simp add: updated_picture_def tracks_iff)
  qed
  have "tracks k' (updated_picture uc' S F) S"
    using up x(3,9) by (simp add: tracks_iff copied_picture_def)
  then show "in_step k' (updated_picture uc' S F) S"
    using x(2,4,9) ex by (simp add: in_step_def copy_inside_def)
qed

section \<open>Handing updates from keeper to keeper\<close>

lemma addUpdateContainer_border: "borderRect (addUpdateContainer ok uc k) = borderRect k"
  by (simp add: addUpdateContainer_def Let_def setScreenSizeChanged_def setCursorPos_def setCursorPosChanged_def
      setCursorShapeChanged_def)

lemma single_rect_pixels:
  assumes "region_ok r" "length (REGION_RECTS r) \<le> 1" "REGION_RECTS r \<noteq> []"
  shows "Region_getRectVector r = [Region_getBounds r]" "pixels r = isPointInRect (Region_getBounds r)"
proof -
  have d: "rgdata r = NoData" using assms by (auto elim!: region_ok_cases)
  then show "Region_getRectVector r = [Region_getBounds r]"
    by (simp add: Region_getRectVector_def Region_getBounds_def REGION_RECTS_def)
  show "pixels r = isPointInRect (Region_getBounds r)"
    using d by (auto simp: pixels_NoData INBOX_def in_rect Region_getBounds_def rect_of_box_def intro!: ext)
qed

lemma addUpdateContainer_in_step:
  assumes ok: "alloc_ok ok" and s: "in_step k F S" and uc: "container_ok uc" "one_copy uc" "copy_fits k uc"
  shows "in_step (addUpdateContainer ok uc k) F (updated_picture uc S' S)"
proof -
  let ?cp = "copiedRegion uc" and ?mid = "copied_picture uc S"
  have r: "region_ok ?cp" "region_ok (changedRegion uc)" "region_ok (videoRegion uc)"
    using uc(1) by (simp_all add: container_ok_def)
  define k1 where "k1 = (if length (Region_getRectVector ?cp) > 0 then addCopyRect ok (hd (Region_getRectVector ?cp)) (copySrc uc) k else k)"
  have k1: "in_step k1 F ?mid"
  proof (cases "REGION_RECTS ?cp = []")
    case True
    then have "?mid = S" by (intro ext) (simp add: copied_picture_def pixels_empty)
    with True s show ?thesis by (simp add: k1_def Region_getRectVector_def)
  next
    case False
    note one = single_rect_pixels [OF r(1) uc(2) [unfolded one_copy_def] False]
    have "\<not> Region_isEmpty ?cp" using False by (simp add: Region_isEmpty_def miRegionNotEmpty_def REGION_NIL_iff)
    then have f: "short_rect (Region_getBounds ?cp)" "copy_visible (borderRect k) (Region_getBounds ?cp) (copySrc uc)"
        "damage_kept k (Region_getBounds ?cp) (copySrc uc)" using uc(3) by (simp_all add: copy_fits_def)
    have "executes_copy (borderRect k) (Region_getBounds ?cp) (copySrc uc) S ?mid"
      using one(2) by (simp add: executes_copy_def copy_distance_def copied_picture_def algebra_simps)
    from in_step_copy [OF ok s f(1) this f(2,3)] one(1) show ?thesis by (simp add: k1_def)
  qed
  have k2: "in_step (addChangedRegion ok (changedRegion uc) k1) F (updated_picture uc S' S)"
    by (rule in_step_draw [OF ok k1 r(2)]) (simp add: updated_picture_def)
  define k3 where "k3 = (addChangedRegion ok (changedRegion uc) k1)
     \<lparr>updates := (updates (addChangedRegion ok (changedRegion uc) k1))
       \<lparr>videoRegion := Region_add ok (videoRegion (updates (addChangedRegion ok (changedRegion uc) k1))) (videoRegion uc)\<rparr>\<rparr>"
  have "keeper_ok (addChangedRegion ok (changedRegion uc) k1)" using k2 by (simp add: in_step_def)
  from Region_add_ok [OF ok keeper_okD(3) [OF this] r(3)]
  have k3: "in_step k3 F (updated_picture uc S' S)"
    using k2 unfolding k3_def by (intro in_step_video) simp_all
  have "addUpdateContainer ok uc k =
    (let k = (if screenSizeChanged uc then setScreenSizeChanged k3 else k3); k = setCursorPos (cursorPos uc) k;
         k = (if cursorPosChanged uc then setCursorPosChanged (cursorPos uc) k else k)
     in if cursorShapeChanged uc then setCursorShapeChanged k else k)"
    unfolding addUpdateContainer_def Let_def k3_def k1_def ..
  then show ?thesis using k3 by (simp add: Let_def)
qed

section \<open>Every session keeps the invariant\<close>

lemma session_in_step:
  assumes "session ok k F S" "alloc_ok ok"
  shows "in_step k F S"
  using assms
proof (induction rule: session.induct)
  case (draw k F S r S')
  then show ?case by (intro in_step_draw) auto
next
  case (copy k F S copyRect src S')
  then show ?case by (intro in_step_copy) auto
next
  case (merge k F S uc S')
  then show ?case by (intro addUpdateContainer_in_step)
next
  case (deliver k F S uc uc' k')
  then show ?case using in_step_deliver(1) by blast
qed (simp_all add: in_step_start in_step_resize in_step_include_all)

section \<open>Asking for updates\<close>

lemma checkForUpdates_ok:
  assumes ok: "alloc_ok ok" and k: "keeper_ok k" and r: "region_ok r"
  shows "checkForUpdates ok r k \<longleftrightarrow>
    cursorPosChanged (updates k) \<or> cursorShapeChanged (updates k) \<or> screenSizeChanged (updates k) \<or>
    (\<exists>x y. pixels r x y \<and> (pixels (changedRegion (updates k)) x y \<or> pixels (copiedRegion (updates k)) x y))"
proof -
  define uc where "uc = getUpdateContainer ok (UpdateContainer_new ok) k"
  have "container_ok (updates k)" using k by (simp add: keeper_ok_def)
  note a = assign_ok [OF ok this, of "UpdateContainer_new ok", folded getUpdateContainer_def, folded uc_def]
  have c: "region_ok (changedRegion uc)" "region_ok (copiedRegion uc)" using a(1) by (simp_all add: container_ok_def)
  note cp = Region_copy_ok [OF ok c(1)]
  note ad = Region_add_ok [OF ok conjunct1 [OF cp] c(2)]
  have "Region_isEmpty (Region_intersect ok (Region_add ok (Region_copy ok (changedRegion uc)) (copiedRegion uc)) r) \<longleftrightarrow>
     (\<forall>x y. pixels (changedRegion (updates k)) x y \<or> pixels (copiedRegion (updates k)) x y \<longrightarrow> \<not> pixels r x y)"
    using rgn.meet_empty_iff [OF ok conjunct1 [OF ad] r] ad cp a(2,3) by simp
  moreover have "cursorPosChanged uc = cursorPosChanged (updates k)" "cursorShapeChanged uc = cursorShapeChanged (updates k)"
     "screenSizeChanged uc = screenSizeChanged (updates k)"
    by (simp_all add: uc_def getUpdateContainer_def UpdateContainer_assign_def)
  ultimately show ?thesis by (auto simp: checkForUpdates_def Let_def uc_def [symmetric])
qed

text \<open>A pixel that is out of date is noticed by whoever asks for its region.\<close>

lemma stale_noticed:
  assumes "alloc_ok ok" "in_step k F S" "region_ok r"
    and "pixels r x y" "isPointInRect (borderRect k) x y" "F x y \<noteq> S x y"
  shows "checkForUpdates ok r k"
proof -
  have k: "keeper_ok k" "tracks k F S" using assms(2) by (simp_all add: in_step_def)
  then have "pixels (changedRegion (updates k)) x y \<or> pixels (copiedRegion (updates k)) x y"
    using assms(5,6) unfolding tracks_iff copied_picture_def by metis
  with assms(4) show ?thesis using checkForUpdates_ok [OF assms(1) k(1) assms(3)] by blast
qed

text \<open>A keeper upstream hands its updates on to one downstream, whose screen is the picture upstream.\<close>

lemma handed_on:
  assumes ok: "alloc_ok ok" and up: "session ok k1 F1 S" and down: "session ok k2 F2 F1"
    and e: "extract_updates ok uc k1 = (uc1, k1')" and fit: "one_copy uc1" "copy_fits k2 uc1"
    and e2: "extract_updates ok vc (addUpdateContainer ok uc1 k2) = (uc2, k2')"
    and b: "isPointInRect (borderRect k1) x y" "isPointInRect (borderRect k2) x y"
  shows "updated_picture uc2 (updated_picture uc1 S F1) F2 x y = S x y"
proof -
  note s1 = session_in_step [OF up ok] and s2 = session_in_step [OF down ok]
  have "keeper_ok k1" using s1 by (simp add: in_step_def)
  from addUpdateContainer_in_step [OF ok s2 extract_ok(1) [OF ok this e] fit, of S]
  have "in_step (addUpdateContainer ok uc1 k2) F2 (updated_picture uc1 S F1)" .
  from in_step_deliver(2) [OF ok this e2, of x y] in_step_deliver(2) [OF ok s1 e b(1)] b(2)
  show ?thesis by (simp add: addUpdateContainer_border)
qed

section \<open>What gets lost\<close>

lemma new_keeper:
  assumes "border_ok b"
  shows "keeper_ok (UpdateKeeper_new ok b)" "borderRect (UpdateKeeper_new ok b) = b"
    "pixels (changedRegion (updates (UpdateKeeper_new ok b))) x y = False"
    "pixels (copiedRegion (updates (UpdateKeeper_new ok b))) x y = False"
    "Region_isEmpty (copiedRegion (updates (UpdateKeeper_new ok b)))"
proof -
  have "Region_isEmpty (Region_clear r)" for r
    by (simp add: Region_isEmpty_def miRegionNotEmpty_def REGION_NIL_def Region_clear_def miRegionEmpty_def)
  then show "Region_isEmpty (copiedRegion (updates (UpdateKeeper_new ok b)))"
    by (simp add: UpdateKeeper_new_def UpdateContainer_new_def UpdateContainer_clear_def)
qed (use assms in \<open>simp_all add: keeper_ok_def UpdateKeeper_new_def UpdateContainer_new_def\<close>)

end
