(* ===== verification/UpdateSamples.thy ===== *)
theory UpdateSamples
  imports UpdateSession RegionSamples
begin

text \<open>Concrete keepers on which the properties are applied.\<close>

definition sample_border :: rect where "sample_border = setRect 0 0 10 10"

definition sample_keeper :: keeper where
  "sample_keeper = addChangedRect always sample_border (UpdateKeeper_new always sample_border)"

lemma sample_border_ok: "border_ok sample_border"
  by (simp add: sample_border_def border_ok_def MINSHORT_def MAXSHORT_def)

lemma sample_keeper_border: "borderRect sample_keeper = sample_border"
  by (simp add: sample_keeper_def UpdateKeeper_new_def)

lemma sample_session: "session always sample_keeper F S"
  unfolding sample_keeper_def by (rule session.start [OF sample_border_ok])

definition sample_container :: "update_container" where
  "sample_container = fst (extract_updates always (UpdateContainer_new always) sample_keeper)"

lemma sample_extract: "extract_updates always (UpdateContainer_new always) sample_keeper =
    (sample_container, snd (extract_updates always (UpdateContainer_new always) sample_keeper))"
  by (simp add: sample_container_def)

lemma sample_container_copy: "one_copy sample_container" "copy_fits k sample_container"
proof -
  have "keeper_ok sample_keeper"
    using session_in_step [OF sample_session [of "\<lambda>x y. ()" "\<lambda>x y. ()"] always_ok] by (simp add: in_step_def)
  note e = extract_ok [OF always_ok this sample_extract]
  have "pixels (copiedRegion (updates sample_keeper)) x y = False" for x y
    by (simp add: sample_keeper_def UpdateKeeper_new_def UpdateContainer_new_def)
  then have p: "\<not> pixels (copiedRegion sample_container) x y" for x y unfolding e(6) by simp
  have r: "region_ok (copiedRegion sample_container)" using e(1) by (simp add: container_ok_def)
  show "one_copy sample_container"
    using region_ok_empty_iff [OF r] p by (simp add: one_copy_def)
  show "copy_fits k sample_container"
    using Region_isEmpty_ok [OF r] p by (simp add: copy_fits_def)
qed

end
