(* ===== verification/FrameBuffers.thy ===== *)
theory FrameBuffers
  imports Rects
begin

text \<open>
  The frame buffer of \<open>rfb/FrameBuffer.cpp\<close> and the pixel format of \<open>rfb/PixelFormat.cpp\<close>.
  The pixels are a block of bytes; pointers into it are integer offsets, and an access
  outside the block, or a \<open>memcpy\<close> of overlapping ranges, is undefined behaviour of C and
  gives \<open>None\<close>. A machine word is copied to memory in little endian order, that of the
  processors the program is built for.
\<close>

section \<open>Memory\<close>

type_synonym bytes = "8 word list"

definition in_block :: "int \<Rightarrow> int \<Rightarrow> bytes \<Rightarrow> bool" where
  "in_block off len b \<longleftrightarrow> 0 \<le> off \<and> 0 \<le> len \<and> off + len \<le> int (length b)"

definition load :: "int \<Rightarrow> int \<Rightarrow> bytes \<Rightarrow> bytes option" where
  "load off len b = (if in_block off len b then Some (take (nat len) (drop (nat off) b)) else None)"

definition store :: "int \<Rightarrow> bytes \<Rightarrow> bytes \<Rightarrow> bytes option" where
  "store off bs b =
     (if in_block off (int (length bs)) b
      then Some (take (nat off) b @ bs @ drop (nat off + length bs) b) else None)"

definition le_bytes :: "32 word \<Rightarrow> bytes" where
  "le_bytes w = map (\<lambda>i. ucast (drop_bit (8 * i) w)) [0..<4]"

text \<open>\<open>memmove\<close> and \<open>memcpy\<close> inside one block.\<close>

definition memmove :: "int \<Rightarrow> int \<Rightarrow> int \<Rightarrow> bytes \<Rightarrow> bytes option" where
  "memmove pdst psrc len b = (case load psrc len b of None \<Rightarrow> None | Some bs \<Rightarrow> store pdst bs b)"

definition memcpy :: "int \<Rightarrow> int \<Rightarrow> int \<Rightarrow> bytes \<Rightarrow> bytes option" where
  "memcpy pdst psrc len b =
     (if pdst < psrc + len \<and> psrc < pdst + len then None else memmove pdst psrc len b)"

section \<open>Properties of a frame buffer\<close>

record pixel_format =
  bitsPerPixel :: nat
  colorDepth :: nat
  redMax :: nat
  greenMax :: nat
  blueMax :: nat
  redShift :: nat
  greenShift :: nat
  blueShift :: nat
  bigEndian :: bool

definition pf_isEqualTo :: "pixel_format \<Rightarrow> pixel_format \<Rightarrow> bool" where
  "pf_isEqualTo this pf \<longleftrightarrow>
     bitsPerPixel this = bitsPerPixel pf \<and> colorDepth this = colorDepth pf \<and>
     redMax this = redMax pf \<and> greenMax this = greenMax pf \<and> blueMax this = blueMax pf \<and>
     redShift this = redShift pf \<and> greenShift this = greenShift pf \<and> blueShift this = blueShift pf \<and>
     bigEndian this = bigEndian pf"

record frame_buffer =
  dim :: dimension
  fmt :: pixel_format
  buffer :: bytes
  displayCount :: int

definition fb_isEqualTo :: "frame_buffer \<Rightarrow> frame_buffer \<Rightarrow> bool" where
  "fb_isEqualTo this fb \<longleftrightarrow> cmpDim (dim this) (dim fb) \<and> pf_isEqualTo (fmt this) (fmt fb)"

definition getBytesPerPixel :: "frame_buffer \<Rightarrow> int" where
  "getBytesPerPixel fb = int (bitsPerPixel (fmt fb) div 8 mod 256)"

definition getBytesPerRow :: "frame_buffer \<Rightarrow> int" where
  "getBytesPerRow fb = width (dim fb) * int (bitsPerPixel (fmt fb)) div 8"

definition getBufferSize :: "frame_buffer \<Rightarrow> int" where
  "getBufferSize fb = dim_area (dim fb) * int (bitsPerPixel (fmt fb)) div 8"

definition getBufferPtr :: "frame_buffer \<Rightarrow> int \<Rightarrow> int \<Rightarrow> int" where
  "getBufferPtr fb x y = (y * width (dim fb) + x) * getBytesPerPixel fb"

text \<open>
  \<open>resizeBuffer\<close> replaces the block by a new one whose bytes are not initialised:
  \<open>junk n\<close> are the bytes found in it. A failing \<open>new\<close> throws.
\<close>

definition resizeBuffer :: "(nat \<Rightarrow> bytes) \<Rightarrow> frame_buffer \<Rightarrow> frame_buffer" where
  "resizeBuffer junk fb = fb\<lparr>buffer := junk (nat (getBufferSize fb))\<rparr>"

definition setProperties :: "(nat \<Rightarrow> bytes) \<Rightarrow> dimension \<Rightarrow> pixel_format \<Rightarrow> frame_buffer \<Rightarrow> frame_buffer" where
  "setProperties junk newDim pixelFormat fb = resizeBuffer junk (fb\<lparr>fmt := pixelFormat, dim := newDim\<rparr>)"

definition assignProperties :: "(nat \<Rightarrow> bytes) \<Rightarrow> frame_buffer \<Rightarrow> frame_buffer \<Rightarrow> frame_buffer" where
  "assignProperties junk fb src = resizeBuffer junk (setProperties junk (dim src) (fmt src) fb)"

definition setPropertiesByRect :: "(nat \<Rightarrow> bytes) \<Rightarrow> rect \<Rightarrow> pixel_format \<Rightarrow> frame_buffer \<Rightarrow> frame_buffer" where
  "setPropertiesByRect junk dimByRect pixelFormat fb = resizeBuffer junk (fb\<lparr>fmt := pixelFormat, dim := setDim dimByRect\<rparr>)"

definition setPixelFormat :: "(nat \<Rightarrow> bytes) \<Rightarrow> pixel_format \<Rightarrow> frame_buffer \<Rightarrow> frame_buffer" where
  "setPixelFormat junk pixelFormat fb = resizeBuffer junk (fb\<lparr>fmt := pixelFormat\<rparr>)"

definition setDimension :: "(nat \<Rightarrow> bytes) \<Rightarrow> dimension \<Rightarrow> frame_buffer \<Rightarrow> frame_buffer" where
  "setDimension junk newDim fb = resizeBuffer junk (fb\<lparr>dim := newDim\<rparr>)"

definition setDimensionByRect :: "(nat \<Rightarrow> bytes) \<Rightarrow> rect \<Rightarrow> frame_buffer \<Rightarrow> frame_buffer" where
  "setDimensionByRect junk r fb = setDimension junk (setDim r) fb"

text \<open>The setters that leave the block as it is, whatever size it should have now.\<close>

definition setEmptyDimension :: "rect \<Rightarrow> frame_buffer \<Rightarrow> frame_buffer" where
  "setEmptyDimension dimByRect fb = fb\<lparr>dim := setDim dimByRect\<rparr>"

definition setEmptyPixelFmt :: "pixel_format \<Rightarrow> frame_buffer \<Rightarrow> frame_buffer" where
  "setEmptyPixelFmt pf fb = fb\<lparr>fmt := pf\<rparr>"

definition setPropertiesWithoutResize :: "dimension \<Rightarrow> pixel_format \<Rightarrow> frame_buffer \<Rightarrow> frame_buffer" where
  "setPropertiesWithoutResize newDim pf fb = fb\<lparr>dim := newDim, fmt := pf\<rparr>"

definition setBuffer :: "bytes \<Rightarrow> frame_buffer \<Rightarrow> frame_buffer" where
  "setBuffer newBuffer fb = fb\<lparr>buffer := newBuffer\<rparr>"

definition setDisplayCount :: "int \<Rightarrow> frame_buffer \<Rightarrow> frame_buffer" where
  "setDisplayCount dispCount fb = fb\<lparr>displayCount := dispCount\<rparr>"

definition getBitsPerPixel :: "frame_buffer \<Rightarrow> int" where
  "getBitsPerPixel fb = int (bitsPerPixel (fmt fb) mod 256)"

section \<open>Filling and copying\<close>

text \<open>The loop over a line: \<open>n\<close> pixels from the pointer.\<close>

primrec put_pixels :: "nat \<Rightarrow> int \<Rightarrow> bytes \<Rightarrow> int \<Rightarrow> bytes \<Rightarrow> bytes option" where
  "put_pixels 0 pixelSize color pixPtr b = Some b"
| "put_pixels (Suc n) pixelSize color pixPtr b =
     (case store pixPtr color b of None \<Rightarrow> None
      | Some b \<Rightarrow> put_pixels n pixelSize color (pixPtr + pixelSize) b)"

text \<open>The loop that copies a line to \<open>n\<close> lines below it, or \<open>n\<close> rows inside one block.\<close>

primrec copy_line :: "nat \<Rightarrow> int \<Rightarrow> int \<Rightarrow> int \<Rightarrow> int \<Rightarrow> bytes \<Rightarrow> bytes option" where
  "copy_line 0 stride len dstLinePtr srcLinePtr b = Some b"
| "copy_line (Suc n) stride len dstLinePtr srcLinePtr b =
     (case memcpy dstLinePtr srcLinePtr len b of None \<Rightarrow> None
      | Some b \<Rightarrow> copy_line n stride len (dstLinePtr + stride) srcLinePtr b)"

text \<open>
  The whole block in one colour. With pixels of less than a byte the pointer would never move:
  the loop does not end.
\<close>

definition setColor :: "8 word \<Rightarrow> 8 word \<Rightarrow> 8 word \<Rightarrow> frame_buffer \<Rightarrow> frame_buffer option" where
  "setColor red green blue fb =
     (let pixelSize = bitsPerPixel (fmt fb) div 8;
          redPix = push_bit (redShift (fmt fb)) (word_of_nat (unat red * redMax (fmt fb) div 255));
          greenPix = push_bit (greenShift (fmt fb)) (word_of_nat (unat green * greenMax (fmt fb) div 255));
          bluePix = push_bit (blueShift (fmt fb)) (word_of_nat (unat blue * blueMax (fmt fb) div 255));
          color = or (or redPix greenPix) bluePix :: 32 word
      in if pixelSize = 0 then None
         else map_option (\<lambda>b. fb\<lparr>buffer := b\<rparr>)
           (put_pixels (nat (getBufferSize fb) div pixelSize) (int pixelSize) (take pixelSize (le_bytes color)) 0 (buffer fb)))"

definition fillRect :: "rect \<Rightarrow> 32 word \<Rightarrow> frame_buffer \<Rightarrow> frame_buffer option" where
  "fillRect dstRect color fb =
     (let clip = intersection (getRect (dim fb)) dstRect;
          pixelSize = getBytesPerPixel fb;
          sizeLineFb = getBytesPerRow fb;
          sizeLineRect = getWidth clip * pixelSize;
          srcLinePtr = getBufferPtr fb (rleft clip) (rtop clip)
      in case put_pixels (nat (rright clip - rleft clip)) pixelSize (take (nat pixelSize) (le_bytes color)) srcLinePtr (buffer fb) of
           None \<Rightarrow> None
         | Some b \<Rightarrow>
             (case copy_line (nat (rbottom clip - (rtop clip + 1))) sizeLineFb sizeLineRect (srcLinePtr + sizeLineFb) srcLinePtr b of
                None \<Rightarrow> None
              | Some b \<Rightarrow> Some (fb\<lparr>buffer := b\<rparr>)))"

text \<open>\<open>clipRect\<close> returns the clipped destination and source.\<close>

definition clipRect :: "frame_buffer \<Rightarrow> rect \<Rightarrow> frame_buffer \<Rightarrow> int \<Rightarrow> int \<Rightarrow> rect \<times> rect" where
  "clipRect fb dstRect srcFb srcX srcY =
     (let dstBufferRect = getRect (dim fb); srcBufferRect = getRect (dim srcFb);
          srcRect = setRect srcX srcY (srcX + getWidth dstRect) (srcY + getHeight dstRect);
          dstRectFB = intersection dstBufferRect dstRect;
          srcRectFB = intersection srcBufferRect srcRect;
          dstCommonArea = move (- rleft dstRect) (- rtop dstRect) dstRectFB;
          srcCommonArea = move (- rleft srcRect) (- rtop srcRect) srcRectFB;
          commonRect = intersection dstCommonArea srcCommonArea
      in (move (rleft dstRect) (rtop dstRect) commonRect, move (rleft srcRect) (rtop srcRect) commonRect))"

text \<open>Rows from one block to another, and rows inside one block.\<close>

primrec copy_rows :: "nat \<Rightarrow> int \<Rightarrow> int \<Rightarrow> int \<Rightarrow> int \<Rightarrow> int \<Rightarrow> bytes \<Rightarrow> bytes \<Rightarrow> bytes option" where
  "copy_rows 0 len dstStride srcStride pdst psrc src dst = Some dst"
| "copy_rows (Suc n) len dstStride srcStride pdst psrc src dst =
     (case load psrc len src of None \<Rightarrow> None
      | Some bs \<Rightarrow>
          (case store pdst bs dst of None \<Rightarrow> None
           | Some dst \<Rightarrow> copy_rows n len dstStride srcStride (pdst + dstStride) (psrc + srcStride) src dst))"

primrec move_rows ::
  "nat \<Rightarrow> (int \<Rightarrow> int \<Rightarrow> int \<Rightarrow> bytes \<Rightarrow> bytes option) \<Rightarrow> int \<Rightarrow> int \<Rightarrow> int \<Rightarrow> int \<Rightarrow> bytes \<Rightarrow> bytes option" where
  "move_rows 0 copy len stride pdst psrc b = Some b"
| "move_rows (Suc n) copy len stride pdst psrc b =
     (case copy pdst psrc len b of None \<Rightarrow> None
      | Some b \<Rightarrow> move_rows n copy len stride (pdst + stride) (psrc + stride) b)"

text \<open>The result of \<open>copyFrom\<close> is the return value and the buffer.\<close>

definition copyFrom :: "rect \<Rightarrow> frame_buffer \<Rightarrow> int \<Rightarrow> int \<Rightarrow> frame_buffer \<Rightarrow> (bool \<times> frame_buffer) option" where
  "copyFrom dstRect srcFb srcX srcY fb =
     (if \<not> pf_isEqualTo (fmt fb) (fmt srcFb) then Some (False, fb) else
      let (dstClipped, srcClipped) = clipRect fb dstRect srcFb srcX srcY in
      if area dstClipped \<le> 0 \<or> area srcClipped \<le> 0 then Some (True, fb) else
      let pixelSize = int (bitsPerPixel (fmt fb) div 8);
          dstStrideBytes = width (dim fb) * pixelSize;
          srcStrideBytes = width (dim srcFb) * pixelSize;
          resultHeight = getHeight dstClipped;
          resultWidthBytes = getWidth dstClipped * pixelSize;
          pdst = rtop dstClipped * dstStrideBytes + pixelSize * rleft dstClipped;
          psrc = rtop srcClipped * srcStrideBytes + pixelSize * rleft srcClipped
      in case copy_rows (nat resultHeight) resultWidthBytes dstStrideBytes srcStrideBytes pdst psrc
                (buffer srcFb) (buffer fb) of
           None \<Rightarrow> None
         | Some b \<Rightarrow> Some (True, fb\<lparr>buffer := b\<rparr>))"

definition copyFromAll :: "frame_buffer \<Rightarrow> int \<Rightarrow> int \<Rightarrow> frame_buffer \<Rightarrow> (bool \<times> frame_buffer) option" where
  "copyFromAll srcFb srcX srcY fb = copyFrom (getRect (dim fb)) srcFb srcX srcY fb"

definition clone :: "(nat \<Rightarrow> bytes) \<Rightarrow> frame_buffer \<Rightarrow> frame_buffer \<Rightarrow> frame_buffer option" where
  "clone junk src fb =
     (let fb = assignProperties junk fb src; fbRect = getRect (dim fb) in
      map_option snd (copyFrom fbRect src (rleft fbRect) (rtop fbRect) fb))"

definition move_fb :: "rect \<Rightarrow> int \<Rightarrow> int \<Rightarrow> frame_buffer \<Rightarrow> frame_buffer option" where
  "move_fb dstRect srcX srcY fb =
     (let (dstClipped, srcClipped) = clipRect fb dstRect fb srcX srcY in
      if area dstClipped \<le> 0 \<or> area srcClipped \<le> 0 then Some fb else
      let pixelSize = int (bitsPerPixel (fmt fb) div 8);
          strideBytes = width (dim fb) * pixelSize;
          resultHeight = getHeight dstClipped;
          resultWidthBytes = getWidth dstClipped * pixelSize
      in case (if srcY > rtop dstRect then
                 move_rows (nat resultHeight) memcpy resultWidthBytes strideBytes
                   (rtop dstClipped * strideBytes + pixelSize * rleft dstClipped)
                   (rtop srcClipped * strideBytes + pixelSize * rleft srcClipped) (buffer fb)
               else
                 move_rows (nat resultHeight) memmove resultWidthBytes (- strideBytes)
                   ((rbottom dstClipped - 1) * strideBytes + pixelSize * rleft dstClipped)
                   ((rbottom srcClipped - 1) * strideBytes + pixelSize * rleft srcClipped) (buffer fb)) of
           None \<Rightarrow> None
         | Some b \<Rightarrow> Some (fb\<lparr>buffer := b\<rparr>))"

section \<open>Comparison\<close>

primrec cmp_rows :: "nat \<Rightarrow> int \<Rightarrow> int \<Rightarrow> int \<Rightarrow> int \<Rightarrow> int \<Rightarrow> bytes \<Rightarrow> bytes \<Rightarrow> bool option" where
  "cmp_rows 0 len dstStride srcStride pdst psrc src dst = Some True"
| "cmp_rows (Suc n) len dstStride srcStride pdst psrc src dst =
     (case (load pdst len dst, load psrc len src) of
        (Some a, Some b) \<Rightarrow>
          if a \<noteq> b then Some False
          else cmp_rows n len dstStride srcStride (pdst + dstStride) (psrc + srcStride) src dst
      | _ \<Rightarrow> None)"

definition cmpFrom :: "rect \<Rightarrow> frame_buffer \<Rightarrow> int \<Rightarrow> int \<Rightarrow> frame_buffer \<Rightarrow> bool option" where
  "cmpFrom dstRect srcFb srcX srcY fb =
     (if \<not> pf_isEqualTo (fmt fb) (fmt srcFb) then Some False else
      let (dstClipped, srcClipped) = clipRect fb dstRect srcFb srcX srcY in
      if area dstClipped \<le> 0 \<or> area srcClipped \<le> 0 then Some True else
      let pixelSize = int (bitsPerPixel (fmt fb) div 8);
          dstStrideBytes = width (dim fb) * pixelSize;
          srcStrideBytes = width (dim srcFb) * pixelSize
      in cmp_rows (nat (getHeight dstClipped)) (getWidth dstClipped * pixelSize) dstStrideBytes srcStrideBytes
           (rtop dstClipped * dstStrideBytes + pixelSize * rleft dstClipped)
           (rtop srcClipped * srcStrideBytes + pixelSize * rleft srcClipped) (buffer srcFb) (buffer fb))"

section \<open>Overlay with a mask\<close>

text \<open>One pixel of the loop nest; pixels are \<open>pixelSize\<close> bytes.\<close>

definition overlay_pixel ::
  "int \<Rightarrow> rect \<Rightarrow> rect \<Rightarrow> int \<Rightarrow> int \<Rightarrow> int \<Rightarrow> int \<Rightarrow> int \<Rightarrow> bytes \<Rightarrow> bytes \<Rightarrow> int \<Rightarrow> int \<Rightarrow> bytes \<Rightarrow> bytes option" where
  "overlay_pixel pixelSize dstClipped srcClipped srcX srcY srcWidth dstWidth bytesPerRow srcPixels andMask iRow iCol b =
     (case load (iRow * bytesPerRow + iCol div 8) 1 andMask of
        None \<Rightarrow> None
      | Some curByte \<Rightarrow>
          if bit (hd curByte) (nat (7 - iCol mod 8)) then
            let iDstRow = rtop dstClipped + iRow - srcY - rtop srcClipped;
                iDstCol = rleft dstClipped + iCol - srcX - rleft srcClipped
            in (case load ((iRow * srcWidth + iCol) * pixelSize) pixelSize srcPixels of
                  None \<Rightarrow> None
                | Some pixel \<Rightarrow> store ((iDstRow * dstWidth + iDstCol) * pixelSize) pixel b)
          else Some b)"

fun overlay_loop :: "(int \<Rightarrow> int \<Rightarrow> bytes \<Rightarrow> bytes option) \<Rightarrow> (int \<times> int) list \<Rightarrow> bytes \<Rightarrow> bytes option" where
  "overlay_loop pixel [] b = Some b"
| "overlay_loop pixel ((iRow, iCol) # rest) b =
     (case pixel iRow iCol b of None \<Rightarrow> None | Some b \<Rightarrow> overlay_loop pixel rest b)"

definition overlayT :: "rect \<Rightarrow> frame_buffer \<Rightarrow> int \<Rightarrow> int \<Rightarrow> bytes \<Rightarrow> int \<Rightarrow> frame_buffer \<Rightarrow> (bool \<times> frame_buffer) option" where
  "overlayT dstRect srcFb srcX srcY andMask pixelSize fb =
     (let (dstClipped, srcClipped) = clipRect fb dstRect srcFb srcX srcY in
      if area dstClipped \<le> 0 \<or> area srcClipped \<le> 0 then Some (True, fb) else
      let srcWidth = width (dim srcFb); dstWidth = width (dim fb);
          bytesPerRow = (srcWidth + 7) div 8;
          places = [(iRow, iCol). iRow \<leftarrow> [rtop srcClipped..rbottom srcClipped - 1],
                                  iCol \<leftarrow> [rleft srcClipped..rright srcClipped - 1]]
      in case overlay_loop (overlay_pixel pixelSize dstClipped srcClipped srcX srcY srcWidth dstWidth bytesPerRow
                 (buffer srcFb) andMask) places (buffer fb) of
           None \<Rightarrow> None
         | Some b \<Rightarrow> Some (True, fb\<lparr>buffer := b\<rparr>))"

definition overlay :: "rect \<Rightarrow> frame_buffer \<Rightarrow> int \<Rightarrow> int \<Rightarrow> bytes \<Rightarrow> frame_buffer \<Rightarrow> (bool \<times> frame_buffer) option" where
  "overlay dstRect srcFb srcX srcY andMask fb =
     (if \<not> pf_isEqualTo (fmt fb) (fmt srcFb) then Some (False, fb)
      else if bitsPerPixel (fmt fb) = 32 then overlayT dstRect srcFb srcX srcY andMask 4 fb
      else if bitsPerPixel (fmt fb) = 16 then overlayT dstRect srcFb srcX srcY andMask 2 fb
      else if bitsPerPixel (fmt fb) = 8 then overlayT dstRect srcFb srcX srcY andMask 1 fb
      else Some (False, fb))"

end
