(* ===== verification/BufferRows.thy ===== *)
theory BufferRows
  imports FrameBuffers
begin

text \<open>
  What the memory operations and row loops of \<open>FrameBuffers\<close> do, byte by byte: \<open>peek b i\<close>
  is the byte at offset \<open>i\<close>. The lemmas about loops are by induction on the number of rows;
  the addresses of a frame buffer's rows are treated at the end.
\<close>

definition peek :: "bytes \<Rightarrow> int \<Rightarrow> 8 word" where
  "peek b i = b ! nat i"

definition apart :: "int \<Rightarrow> int \<Rightarrow> int \<Rightarrow> bool" where
  "apart len p q \<longleftrightarrow> p + len \<le> q \<or> q + len \<le> p"

lemma apart_commute: "apart len p q = apart len q p"
  by (auto simp: apart_def)

section \<open>Single accesses\<close>

lemma load_ok:
  assumes "in_block off len b"
  obtains bs where "load off len b = Some bs" "int (length bs) = len" "\<And>i. 0 \<le> i \<Longrightarrow> i < len \<Longrightarrow> peek bs i = peek b (off + i)"
proof (rule that)
  show "load off len b = Some (take (nat len) (drop (nat off) b))" using assms by (simp add: load_def)
  show l: "int (length (take (nat len) (drop (nat off) b))) = len"
    using assms by (auto simp: in_block_def)
  show "peek (take (nat len) (drop (nat off) b)) i = peek b (off + i)" if "0 \<le> i" "i < len" for i
  proof -
    have "nat off + nat i \<le> length b" using assms that unfolding in_block_def by linarith
    then show ?thesis using assms that by (simp add: peek_def in_block_def nat_add_distrib)
  qed
qed

lemma load_some: "load off len b = Some bs \<Longrightarrow> in_block off len b"
  by (simp add: load_def split: if_splits)

lemma nth_patch:
  assumes "m + length bs \<le> length b" "n < length b"
  shows "(take m b @ bs @ drop (m + length bs) b) ! n = (if m \<le> n \<and> n < m + length bs then bs ! (n - m) else b ! n)"
proof -
  consider "n < m" | "m \<le> n" "n < m + length bs" | k where "n = m + length bs + k"
    using le_Suc_ex not_less by blast
  then show ?thesis using assms by cases (simp_all add: nth_append less_diff_conv2)
qed

lemma store_ok:
  assumes "in_block off (int (length bs)) b"
  obtains b' where "store off bs b = Some b'" "length b' = length b"
    "\<And>i. 0 \<le> i \<Longrightarrow> i < int (length b) \<Longrightarrow>
       peek b' i = (if off \<le> i \<and> i < off + int (length bs) then peek bs (i - off) else peek b i)"
proof (rule that)
  let ?b = "take (nat off) b @ bs @ drop (nat off + length bs) b"
  have r: "0 \<le> off" "off + int (length bs) \<le> int (length b)" using assms by (simp_all add: in_block_def)
  show "store off bs b = Some ?b" using assms by (simp add: store_def)
  show "length ?b = length b" using r by simp
  show "peek ?b i = (if off \<le> i \<and> i < off + int (length bs) then peek bs (i - off) else peek b i)"
    if "0 \<le> i" "i < int (length b)" for i
  proof -
    note i = that
    obtain n m where nm: "i = int n" "off = int m" using i(1) r(1) zero_le_imp_eq_int by blast
    have m: "m + length bs \<le> length b" "n < length b" using r(2) i(2) unfolding nm by linarith+
    have "peek ?b i = (take m b @ bs @ drop (m + length bs) b) ! n" by (simp add: peek_def nm)
    also have "\<dots> = (if m \<le> n \<and> n < m + length bs then bs ! (n - m) else b ! n)" by (rule nth_patch [OF m])
    also have "\<dots> = (if off \<le> i \<and> i < off + int (length bs) then peek bs (i - off) else peek b i)"
    proof -
      have "nat (int n - int m) = n - m" by simp
      moreover have "(off \<le> i \<and> i < off + int (length bs)) = (m \<le> n \<and> n < m + length bs)" by (auto simp: nm)
      ultimately show ?thesis unfolding nm peek_def by simp
    qed
    finally show ?thesis .
  qed
qed

lemma memmove_ok:
  assumes "in_block pdst len b" "in_block psrc len b"
  obtains b' where "memmove pdst psrc len b = Some b'" "length b' = length b"
    "\<And>i. 0 \<le> i \<Longrightarrow> i < int (length b) \<Longrightarrow>
       peek b' i = (if pdst \<le> i \<and> i < pdst + len then peek b (i - pdst + psrc) else peek b i)"
proof -
  obtain bs where bs: "load psrc len b = Some bs" "int (length bs) = len"
      "\<And>i. 0 \<le> i \<Longrightarrow> i < len \<Longrightarrow> peek bs i = peek b (psrc + i)" by (rule load_ok [OF assms(2)]) blast
  obtain b' where b': "store pdst bs b = Some b'" "length b' = length b"
      "\<And>i. 0 \<le> i \<Longrightarrow> i < int (length b) \<Longrightarrow>
        peek b' i = (if pdst \<le> i \<and> i < pdst + int (length bs) then peek bs (i - pdst) else peek b i)"
    by (rule store_ok [of pdst bs b]) (use assms(1) bs(2) in auto)
  show thesis
  proof (rule that)
    show "memmove pdst psrc len b = Some b'" using bs(1) b'(1) by (simp add: memmove_def)
    show "peek b' i = (if pdst \<le> i \<and> i < pdst + len then peek b (i - pdst + psrc) else peek b i)"
      if "0 \<le> i" "i < int (length b)" for i
      using b'(3) [OF that] bs(2) bs(3) [of "i - pdst"] by (simp add: algebra_simps)
  qed (rule b'(2))
qed

lemma memcpy_apart: "0 \<le> len \<Longrightarrow> apart len pdst psrc \<Longrightarrow> memcpy pdst psrc len b = memmove pdst psrc len b"
  by (auto simp: memcpy_def apart_def)

section \<open>Rows inside one block\<close>

lemma in_block_length: "length b = length b' \<Longrightarrow> in_block off len b = in_block off len b'"
  by (simp add: in_block_def)

definition row_hit :: "nat \<Rightarrow> int \<Rightarrow> int \<Rightarrow> int \<Rightarrow> int \<Rightarrow> bool" where
  "row_hit n len stride p i \<longleftrightarrow> (\<exists>j<n. p + int j * stride \<le> i \<and> i < p + int j * stride + len)"

lemma row_step: "p + int (Suc j) * stride = (p + stride) + int j * stride"
  by (simp add: algebra_simps)

lemma row_hit_Suc:
  "row_hit (Suc n) len stride p i \<longleftrightarrow> p \<le> i \<and> i < p + len \<or> row_hit n len stride (p + stride) i"
proof -
  show ?thesis unfolding row_hit_def Ex_less_Suc2 row_step by simp
qed

lemma row_hit_0 [simp]: "\<not> row_hit 0 len stride p i"
  by (simp add: row_hit_def)

lemma move_rows_ok:
  assumes "0 \<le> len"
    and "\<And>j. j < n \<Longrightarrow> in_block (pdst + int j * stride) len b \<and> in_block (psrc + int j * stride) len b"
    and "\<And>j b. j < n \<Longrightarrow> copy (pdst + int j * stride) (psrc + int j * stride) len b =
       memmove (pdst + int j * stride) (psrc + int j * stride) len b"
    and "\<And>i j. i < j \<Longrightarrow> j < n \<Longrightarrow> apart len (pdst + int i * stride) (psrc + int j * stride)"
    and "\<And>i j. i < j \<Longrightarrow> j < n \<Longrightarrow> apart len (pdst + int i * stride) (pdst + int j * stride)"
  shows "\<exists>b'. move_rows n copy len stride pdst psrc b = Some b' \<and> length b' = length b \<and>
    (\<forall>i. 0 \<le> i \<longrightarrow> i < int (length b) \<longrightarrow>
       peek b' i = (if row_hit n len stride pdst i then peek b (i - pdst + psrc) else peek b i))"
  using assms(2-5)
proof (induction n arbitrary: pdst psrc b)
  case (Suc n)
  have r0: "in_block pdst len b" "in_block psrc len b" using Suc.prems(1) [of 0] by simp_all
  obtain b1 where b1: "memmove pdst psrc len b = Some b1" "length b1 = length b"
      "\<And>i. 0 \<le> i \<Longrightarrow> i < int (length b) \<Longrightarrow>
        peek b1 i = (if pdst \<le> i \<and> i < pdst + len then peek b (i - pdst + psrc) else peek b i)"
    by (rule memmove_ok [OF r0]) blast
  have c: "copy pdst psrc len b = Some b1"
    using Suc.prems(2) [of 0 b] b1(1) by simp
  have "\<exists>b'. move_rows n copy len stride (pdst + stride) (psrc + stride) b1 = Some b' \<and> length b' = length b1 \<and>
    (\<forall>i. 0 \<le> i \<longrightarrow> i < int (length b1) \<longrightarrow>
       peek b' i = (if row_hit n len stride (pdst + stride) i then peek b1 (i - (pdst + stride) + (psrc + stride)) else peek b1 i))"
  proof (rule Suc.IH)
    show "in_block ((pdst + stride) + int j * stride) len b1 \<and> in_block ((psrc + stride) + int j * stride) len b1" if "j < n" for j
      using Suc.prems(1) [of "Suc j", unfolded row_step] that in_block_length [OF b1(2)] by simp
    show "copy ((pdst + stride) + int j * stride) ((psrc + stride) + int j * stride) len b' =
        memmove ((pdst + stride) + int j * stride) ((psrc + stride) + int j * stride) len b'" if "j < n" for j b'
      using Suc.prems(2) [of "Suc j", unfolded row_step] that by simp
    show "apart len ((pdst + stride) + int i * stride) ((psrc + stride) + int j * stride)" if "i < j" "j < n" for i j
      using Suc.prems(3) [of "Suc i" "Suc j", unfolded row_step] that by simp
    show "apart len ((pdst + stride) + int i * stride) ((pdst + stride) + int j * stride)" if "i < j" "j < n" for i j
      using Suc.prems(4) [of "Suc i" "Suc j", unfolded row_step] that by simp
  qed
  then obtain b' where b': "move_rows n copy len stride (pdst + stride) (psrc + stride) b1 = Some b'" "length b' = length b1"
      "\<And>i. 0 \<le> i \<Longrightarrow> i < int (length b) \<Longrightarrow>
        peek b' i = (if row_hit n len stride (pdst + stride) i then peek b1 (i - (pdst + stride) + (psrc + stride)) else peek b1 i)"
    using b1(2) by auto
  have shift: "i - (pdst + stride) + (psrc + stride) = i - pdst + psrc" for i by simp
  have "peek b' i = (if row_hit (Suc n) len stride pdst i then peek b (i - pdst + psrc) else peek b i)"
    if i: "0 \<le> i" "i < int (length b)" for i
  proof (cases "row_hit n len stride (pdst + stride) i")
    case True
    then obtain j where j: "j < n" "(pdst + stride) + int j * stride \<le> i" "i < (pdst + stride) + int j * stride + len"
      unfolding row_hit_def by blast
    define k where "k = i - pdst + psrc"
    have "apart len pdst ((psrc + stride) + int j * stride)" "apart len pdst ((pdst + stride) + int j * stride)"
      using Suc.prems(3) [of 0 "Suc j", unfolded row_step] Suc.prems(4) [of 0 "Suc j", unfolded row_step] j(1) by simp_all
    moreover have "in_block ((psrc + stride) + int j * stride) len b"
      using Suc.prems(1) [of "Suc j", unfolded row_step] j(1) by simp
    ultimately have "\<not> (pdst \<le> k \<and> k < pdst + len)" "0 \<le> k" "k < int (length b)"
      using j(2,3) unfolding apart_def in_block_def k_def by linarith+
    then have "peek b1 k = peek b k" using b1(3) [of k] by meson
    then show ?thesis using b'(3) [OF i] True unfolding shift k_def [symmetric] by (simp add: row_hit_Suc)
  next
    case False
    then show ?thesis using b'(3) [OF i] b1(3) [OF i] by (simp add: row_hit_Suc)
  qed
  then show ?case using c b'(1,2) b1(2) by simp
qed simp

section \<open>Rows between two blocks\<close>

lemma copy_rows_ok:
  assumes "0 \<le> len" "len \<le> dstStride"
    and "\<And>j. j < n \<Longrightarrow> in_block (pdst + int j * dstStride) len dst \<and> in_block (psrc + int j * srcStride) len src"
  shows "\<exists>b'. copy_rows n len dstStride srcStride pdst psrc src dst = Some b' \<and> length b' = length dst \<and>
    (\<forall>j<n. \<forall>c. 0 \<le> c \<longrightarrow> c < len \<longrightarrow> peek b' (pdst + int j * dstStride + c) = peek src (psrc + int j * srcStride + c)) \<and>
    (\<forall>i. 0 \<le> i \<longrightarrow> i < int (length dst) \<longrightarrow> \<not> row_hit n len dstStride pdst i \<longrightarrow> peek b' i = peek dst i)"
  using assms(3)
proof (induction n arbitrary: pdst psrc dst)
  case (Suc n)
  have r0: "in_block pdst len dst" "in_block psrc len src" using Suc.prems [of 0] by simp_all
  obtain bs where bs: "load psrc len src = Some bs" "int (length bs) = len"
      "\<And>i. 0 \<le> i \<Longrightarrow> i < len \<Longrightarrow> peek bs i = peek src (psrc + i)" by (rule load_ok [OF r0(2)]) blast
  obtain b1 where b1: "store pdst bs dst = Some b1" "length b1 = length dst"
      "\<And>i. 0 \<le> i \<Longrightarrow> i < int (length dst) \<Longrightarrow>
        peek b1 i = (if pdst \<le> i \<and> i < pdst + len then peek bs (i - pdst) else peek dst i)"
    by (rule store_ok [of pdst bs dst]) (use r0(1) bs(2) in auto)
  have "in_block ((pdst + dstStride) + int j * dstStride) len b1 \<and> in_block ((psrc + srcStride) + int j * srcStride) len src"
    if "j < n" for j
    using Suc.prems [of "Suc j", unfolded row_step] that in_block_length [OF b1(2)] by simp
  from Suc.IH [OF this] obtain b' where b':
      "copy_rows n len dstStride srcStride (pdst + dstStride) (psrc + srcStride) src b1 = Some b'" "length b' = length b1"
      "\<And>j c. j < n \<Longrightarrow> 0 \<le> c \<Longrightarrow> c < len \<Longrightarrow>
        peek b' ((pdst + dstStride) + int j * dstStride + c) = peek src ((psrc + srcStride) + int j * srcStride + c)"
      "\<And>i. 0 \<le> i \<Longrightarrow> i < int (length b1) \<Longrightarrow> \<not> row_hit n len dstStride (pdst + dstStride) i \<Longrightarrow> peek b' i = peek b1 i"
    by blast
  have first: "peek b' (pdst + c) = peek src (psrc + c)" if c: "0 \<le> c" "c < len" for c
  proof -
    have "0 \<le> dstStride * int j" for j using assms by simp
    then have "\<not> row_hit n len dstStride (pdst + dstStride) (pdst + c)"
      using c assms(2) unfolding row_hit_def by (smt (verit) mult.commute)
    then show ?thesis
      using b'(4) [of "pdst + c"] b1(2) b1(3) [of "pdst + c"] bs(3) [OF c] c r0(1) by (simp add: in_block_def)
  qed
  have rows: "peek b' (pdst + int j * dstStride + c) = peek src (psrc + int j * srcStride + c)"
    if "j < Suc n" "0 \<le> c" "c < len" for j c
  proof (cases j)
    case 0
    then show ?thesis using first that by simp
  next
    case (Suc i)
    then show ?thesis using b'(3) [of i c] that unfolding Suc row_step by simp
  qed
  have "peek b' i = peek dst i" if "0 \<le> i" "i < int (length dst)" "\<not> row_hit (Suc n) len dstStride pdst i" for i
    using b'(4) [of i] b1(2) b1(3) [of i] that by (auto simp: row_hit_Suc)
  then show ?case using bs(1) b1(1,2) b'(1,2) rows by simp
qed simp

lemma cmp_rows_ok:
  assumes "\<And>j. j < n \<Longrightarrow> in_block (pdst + int j * dstStride) len dst \<and> in_block (psrc + int j * srcStride) len src"
  shows "cmp_rows n len dstStride srcStride pdst psrc src dst =
    Some (\<forall>j<n. \<forall>c. 0 \<le> c \<longrightarrow> c < len \<longrightarrow> peek dst (pdst + int j * dstStride + c) = peek src (psrc + int j * srcStride + c))"
  using assms
proof (induction n arbitrary: pdst psrc)
  case (Suc n)
  have r0: "in_block pdst len dst" "in_block psrc len src" using Suc.prems [of 0] by simp_all
  obtain as where as: "load pdst len dst = Some as" "int (length as) = len"
      "\<And>i. 0 \<le> i \<Longrightarrow> i < len \<Longrightarrow> peek as i = peek dst (pdst + i)" by (rule load_ok [OF r0(1)]) blast
  obtain bs where bs: "load psrc len src = Some bs" "int (length bs) = len"
      "\<And>i. 0 \<le> i \<Longrightarrow> i < len \<Longrightarrow> peek bs i = peek src (psrc + i)" by (rule load_ok [OF r0(2)]) blast
  have len: "length as = length bs" using as(2) bs(2) by linarith
  have "as = bs \<longleftrightarrow> (\<forall>k < length bs. peek as (int k) = peek bs (int k))"
    using len by (simp add: list_eq_iff_nth_eq peek_def)
  also have "\<dots> \<longleftrightarrow> (\<forall>c. 0 \<le> c \<longrightarrow> c < len \<longrightarrow> peek as c = peek bs c)"
    using bs(2) by (metis nonneg_int_cases of_nat_0_le_iff of_nat_less_iff)
  finally have eq: "as = bs \<longleftrightarrow> (\<forall>c. 0 \<le> c \<longrightarrow> c < len \<longrightarrow> peek dst (pdst + c) = peek src (psrc + c))"
    using as(3) bs(3) by simp
  have all: "(\<forall>j<Suc n. P j) \<longleftrightarrow> P 0 \<and> (\<forall>j<n. P (Suc j))" for P :: "nat \<Rightarrow> bool"
    using less_Suc_eq_0_disj by auto
  have prem: "in_block ((pdst + dstStride) + int j * dstStride) len dst \<and> in_block ((psrc + srcStride) + int j * srcStride) len src"
    if "j < n" for j using Suc.prems [of "Suc j", unfolded row_step] that by simp
  have "cmp_rows n len dstStride srcStride (pdst + dstStride) (psrc + srcStride) src dst =
    Some (\<forall>j<n. \<forall>c. 0 \<le> c \<longrightarrow> c < len \<longrightarrow>
      peek dst ((pdst + dstStride) + int j * dstStride + c) = peek src ((psrc + srcStride) + int j * srcStride + c))"
  proof (rule Suc.IH)
    show "in_block ((pdst + dstStride) + int j * dstStride) len dst \<and> in_block ((psrc + srcStride) + int j * srcStride) len src"
      if "j < n" for j using Suc.prems [of "Suc j", unfolded row_step] that by simp
  qed
  then show ?case using as(1) bs(1) eq unfolding all row_step by simp
qed simp

end
