(* ===== verification/BufferPixels.thy ===== *)
theory BufferPixels
  imports BufferRows
begin

text \<open>
  The pixels of a frame buffer, and what moving, copying, comparing and filling rectangles
  does to them. A buffer of \<open>h\<close> rows of \<open>S\<close> bytes has the byte of column \<open>c\<close> in row \<open>y\<close> at
  \<open>y * S + c\<close>.
\<close>

section \<open>Row addresses\<close>

lemma row_below:
  assumes "y < y'" "0 \<le> (S :: int)"
  shows "y * S + S \<le> y' * S"
proof -
  have "(y + 1) * S \<le> y' * S" using assms by (intro mult_right_mono) simp_all
  then show ?thesis by (simp add: algebra_simps)
qed

lemma row_member:
  assumes "0 \<le> c0" "c0 + len \<le> S" "0 \<le> c" "c < (S :: int)"
  shows "(y * S + c0 \<le> y' * S + c \<and> y' * S + c < y * S + c0 + len) \<longleftrightarrow> y = y' \<and> c0 \<le> c \<and> c < c0 + len"
proof (cases y y' rule: linorder_cases)
  case less
  with row_below [OF less, of S] assms show ?thesis by linarith
next
  case greater
  with row_below [OF greater, of S] assms show ?thesis by linarith
qed auto

lemma rows_apart:
  assumes "y \<noteq> y'" "0 \<le> c0" "c0 + len \<le> S" "0 \<le> c1" "c1 + len \<le> S" "0 \<le> len"
  shows "apart len (y * S + c0) (y' * S + c1)"
proof (cases "y < y'")
  case True
  with row_below [OF True, of S] assms show ?thesis unfolding apart_def by linarith
next
  case False
  then have "y' < y" using assms(1) by simp
  with row_below [OF this, of S] assms show ?thesis unfolding apart_def by linarith
qed

lemma row_in_block:
  assumes "0 \<le> y" "y < h" "0 \<le> c0" "c0 + len \<le> S" "0 \<le> len" "int (length b) = h * S"
  shows "in_block (y * S + c0) len b"
proof -
  have "0 \<le> y * S" "y * S + S \<le> h * S" using assms row_below [OF assms(2), of S] by simp_all
  then show ?thesis using assms by (simp add: in_block_def)
qed

lemma row_hit_up:
  assumes "0 \<le> c0" "c0 + len \<le> S" "0 \<le> c" "c < S" "t \<le> b"
  shows "row_hit (nat (b - t)) len S (t * S + c0) (y * S + c) \<longleftrightarrow> t \<le> y \<and> y < b \<and> c0 \<le> c \<and> c < c0 + len"
proof -
  have "row_hit (nat (b - t)) len S (t * S + c0) (y * S + c) \<longleftrightarrow> (\<exists>j < nat (b - t). t + int j = y \<and> c0 \<le> c \<and> c < c0 + len)"
  proof -
    have "t * S + c0 + int j * S = (t + int j) * S + c0" for j by (simp add: algebra_simps)
    then show ?thesis unfolding row_hit_def by (simp only: row_member [OF assms(1-4)])
  qed
  also have "\<dots> \<longleftrightarrow> t \<le> y \<and> y < b \<and> c0 \<le> c \<and> c < c0 + len"
    using assms(5) by (auto intro: exI [of _ "nat (y - t)"])
  finally show ?thesis .
qed

lemma row_hit_down:
  assumes "0 \<le> c0" "c0 + len \<le> S" "0 \<le> c" "c < S" "t \<le> b"
  shows "row_hit (nat (b - t)) len (- S) ((b - 1) * S + c0) (y * S + c) \<longleftrightarrow> t \<le> y \<and> y < b \<and> c0 \<le> c \<and> c < c0 + len"
proof -
  have "(b - 1) * S + c0 + int j * - S = (b - 1 - int j) * S + c0" for j by (simp add: algebra_simps)
  then have "row_hit (nat (b - t)) len (- S) ((b - 1) * S + c0) (y * S + c) \<longleftrightarrow>
      (\<exists>j < nat (b - t). b - 1 - int j = y \<and> c0 \<le> c \<and> c < c0 + len)"
    unfolding row_hit_def by (simp only: row_member [OF assms(1-4)])
  also have "\<dots> \<longleftrightarrow> t \<le> y \<and> y < b \<and> c0 \<le> c \<and> c < c0 + len"
    using assms(5) by (auto intro: exI [of _ "nat (b - 1 - y)"])
  finally show ?thesis .
qed

section \<open>Pixels\<close>

definition pixel_size :: "frame_buffer \<Rightarrow> int" where
  "pixel_size fb = int (bitsPerPixel (fmt fb) div 8)"

definition stride :: "frame_buffer \<Rightarrow> int" where
  "stride fb = width (dim fb) * pixel_size fb"

definition fb_ok :: "frame_buffer \<Rightarrow> bool" where
  "fb_ok fb \<longleftrightarrow> 0 \<le> width (dim fb) \<and> 0 \<le> height (dim fb) \<and> bitsPerPixel (fmt fb) \<in> {8, 16, 32} \<and>
     int (length (buffer fb)) = height (dim fb) * stride fb"

definition inside :: "frame_buffer \<Rightarrow> int \<Rightarrow> int \<Rightarrow> bool" where
  "inside fb x y \<longleftrightarrow> 0 \<le> x \<and> x < width (dim fb) \<and> 0 \<le> y \<and> y < height (dim fb)"

definition pixel :: "frame_buffer \<Rightarrow> int \<Rightarrow> int \<Rightarrow> bytes" where
  "pixel fb x y = map (\<lambda>k. peek (buffer fb) (y * stride fb + (x * pixel_size fb + int k))) [0..<nat (pixel_size fb)]"

lemma fb_ok_size: "fb_ok fb \<Longrightarrow> pixel_size fb = 1 \<or> pixel_size fb = 2 \<or> pixel_size fb = 4"
  by (auto simp: fb_ok_def pixel_size_def)

lemma fb_ok_size_pos: "fb_ok fb \<Longrightarrow> 0 < pixel_size fb"
  using fb_ok_size by fastforce

lemma getBytesPerPixel_ok: "fb_ok fb \<Longrightarrow> getBytesPerPixel fb = pixel_size fb"
  by (auto simp: fb_ok_def pixel_size_def getBytesPerPixel_def)

lemma getBytesPerRow_ok: "fb_ok fb \<Longrightarrow> getBytesPerRow fb = stride fb"
  by (auto simp: fb_ok_def pixel_size_def getBytesPerRow_def stride_def)

lemma getBufferSize_ok: "fb_ok fb \<Longrightarrow> getBufferSize fb = int (length (buffer fb))"
  by (auto simp: fb_ok_def pixel_size_def getBufferSize_def stride_def dim_area_def dim_isEmpty_def)

lemma fb_ok_buffer: "fb_ok fb \<Longrightarrow> length b = length (buffer fb) \<Longrightarrow> fb_ok (fb\<lparr>buffer := b\<rparr>)"
  by (simp add: fb_ok_def stride_def pixel_size_def)

lemma buffer_sel [simp]:
  "pixel_size (fb\<lparr>buffer := b\<rparr>) = pixel_size fb" "stride (fb\<lparr>buffer := b\<rparr>) = stride fb"
  "inside (fb\<lparr>buffer := b\<rparr>) x y = inside fb x y"
  by (simp_all add: stride_def pixel_size_def inside_def)

text \<open>The columns of a row that belong to the pixels from \<open>l\<close> to \<open>r\<close>.\<close>

lemma pixel_columns:
  assumes "fb_ok fb" "0 \<le> k" "k < pixel_size fb"
  shows "l * pixel_size fb \<le> x * pixel_size fb + k \<longleftrightarrow> l \<le> x"
    "x * pixel_size fb + k < r * pixel_size fb \<longleftrightarrow> x < r"
  using fb_ok_size [OF assms(1)] assms(2,3) by auto

lemma column_range:
  assumes "fb_ok fb" "0 \<le> l" "r \<le> width (dim fb)" "l \<le> r"
  shows "0 \<le> l * pixel_size fb" "l * pixel_size fb + (r - l) * pixel_size fb \<le> stride fb" "0 \<le> (r - l) * pixel_size fb"
    "l * pixel_size fb + (r - l) * pixel_size fb = r * pixel_size fb"
  using assms fb_ok_size_pos [OF assms(1)] by (simp_all add: stride_def left_diff_distrib)

lemma pixel_column_range:
  assumes "fb_ok fb" "inside fb x y" "0 \<le> k" "k < pixel_size fb"
  shows "0 \<le> x * pixel_size fb + k" "x * pixel_size fb + k < stride fb"
  using pixel_columns(1) [OF assms(1,3,4), of 0 x] pixel_columns(2) [OF assms(1,3,4), of x "width (dim fb)"]
    assms(2) by (simp_all add: inside_def stride_def)

lemma pixel_eqI:
  assumes "pixel_size fb = pixel_size fb'"
    "\<And>k. 0 \<le> k \<Longrightarrow> k < pixel_size fb \<Longrightarrow> peek (buffer fb) (y * stride fb + (x * pixel_size fb + k)) =
       peek (buffer fb') (y' * stride fb' + (x' * pixel_size fb' + k))"
  shows "pixel fb x y = pixel fb' x' y'"
  unfolding pixel_def assms(1) [symmetric] using assms(2) by (intro map_cong refl) (simp add: assms(1))

lemma pixel_eqD:
  assumes "pixel fb x y = pixel fb' x' y'" "pixel_size fb = pixel_size fb'" "0 \<le> k" "k < pixel_size fb"
  shows "peek (buffer fb) (y * stride fb + (x * pixel_size fb + k)) = peek (buffer fb') (y' * stride fb' + (x' * pixel_size fb' + k))"
proof -
  have "nat k \<in> set [0..<nat (pixel_size fb)]" using assms(3,4) by (simp add: nat_less_iff)
  from map_eq_conv [THEN iffD1, OF assms(1) [unfolded pixel_def, folded assms(2)], rule_format, OF this]
  show ?thesis using assms(2,3) by simp
qed

section \<open>Clipping\<close>

lemma rect_area: "area r \<le> 0 \<longleftrightarrow> rect_isEmpty r"
  by (auto simp: area_def rect_isEmpty_def mult_le_0_iff)

lemma rect_isEmpty_move [simp]: "rect_isEmpty (move dx dy r) = rect_isEmpty r"
  by (simp add: rect_isEmpty_iff)

lemma in_getRect [simp]: "isPointInRect (getRect (dim fb)) x y = inside fb x y"
  by (auto simp: getRect_def in_rect inside_def)

lemma clipRect_ok:
  assumes "clipRect fb d src sx sy = (dc, sc)"
  shows "sc = move (sx - rleft d) (sy - rtop d) dc"
    and "isPointInRect dc x y \<longleftrightarrow> isPointInRect d x y \<and> inside fb x y \<and> inside src (x + (sx - rleft d)) (y + (sy - rtop d))"
proof -
  define sr where "sr = setRect sx sy (sx + getWidth d) (sy + getHeight d)"
  define cr where "cr = intersection (move (- rleft d) (- rtop d) (intersection (getRect (dim fb)) d))
     (move (- sx) (- sy) (intersection (getRect (dim src)) sr))"
  have e: "dc = move (rleft d) (rtop d) cr" "sc = move sx sy cr"
    using assms unfolding clipRect_def Let_def sr_def cr_def by auto
  show "sc = move (sx - rleft d) (sy - rtop d) dc" unfolding e by (simp add: move_def)
  have "isPointInRect sr (x - rleft d + sx) (y - rtop d + sy) = isPointInRect d x y"
    by (auto simp: sr_def in_rect getWidth_def getHeight_def)
  then show "isPointInRect dc x y \<longleftrightarrow> isPointInRect d x y \<and> inside fb x y \<and> inside src (x + (sx - rleft d)) (y + (sy - rtop d))"
    by (auto simp: e(1) cr_def move_pixels intersection_pixels algebra_simps)
qed

lemma clipRect_range:
  assumes "clipRect fb d src sx sy = (dc, sc)" "\<not> rect_isEmpty dc"
  shows "0 \<le> rleft dc" "rleft dc < rright dc" "rright dc \<le> width (dim fb)"
    "0 \<le> rtop dc" "rtop dc < rbottom dc" "rbottom dc \<le> height (dim fb)"
    "0 \<le> rleft sc" "rright sc \<le> width (dim src)" "0 \<le> rtop sc" "rbottom sc \<le> height (dim src)"
proof -
  have "isPointInRect dc (rleft dc) (rtop dc)" "isPointInRect dc (rright dc - 1) (rbottom dc - 1)"
    using assms(2) by (auto simp: in_rect rect_isEmpty_iff)
  then have "inside fb (rleft dc) (rtop dc)" "inside fb (rright dc - 1) (rbottom dc - 1)"
    "inside src (rleft sc) (rtop sc)" "inside src (rright sc - 1) (rbottom sc - 1)"
    unfolding clipRect_ok [OF assms(1)] by (simp_all add: algebra_simps)
  then show "0 \<le> rleft dc" "rleft dc < rright dc" "rright dc \<le> width (dim fb)"
    "0 \<le> rtop dc" "rtop dc < rbottom dc" "rbottom dc \<le> height (dim fb)"
    "0 \<le> rleft sc" "rright sc \<le> width (dim src)" "0 \<le> rtop sc" "rbottom sc \<le> height (dim src)"
    using assms(2) by (auto simp: inside_def rect_isEmpty_iff)
qed

end
