(* ===== verification/BufferOps.thy ===== *)
theory BufferOps
  imports BufferPixels
begin

text \<open>
  The operations of a frame buffer on its pixels. Each lemma says that the operation returns,
  which includes that every memory access it makes lies in its block, and what the pixels
  are afterwards.
\<close>

section \<open>From rows of bytes to pixels\<close>

lemma pixel_moved:
  assumes ok: "fb_ok fb" and i: "inside fb x y" and ps: "pixel_size g = pixel_size fb"
    and p: "\<And>c. l * pixel_size fb \<le> c \<Longrightarrow> c < r * pixel_size fb \<Longrightarrow> 0 \<le> c \<Longrightarrow> c < stride fb \<Longrightarrow>
      peek b (y * stride fb + c) = peek (buffer g) (y' * stride g + (c + d * pixel_size fb))"
    and x: "l \<le> x" "x < r"
  shows "pixel (fb\<lparr>buffer := b\<rparr>) x y = pixel g (x + d) y'"
proof (rule pixel_eqI)
  fix k assume k: "0 \<le> k" "k < pixel_size (fb\<lparr>buffer := b\<rparr>)"
  then have k': "k < pixel_size fb" by simp
  have e: "(x + d) * pixel_size fb + k = (x * pixel_size fb + k) + d * pixel_size fb" by (simp add: algebra_simps)
  show "peek (buffer (fb\<lparr>buffer := b\<rparr>)) (y * stride (fb\<lparr>buffer := b\<rparr>) + (x * pixel_size (fb\<lparr>buffer := b\<rparr>) + k)) =
     peek (buffer g) (y' * stride g + ((x + d) * pixel_size g + k))"
    using p [OF _ _ pixel_column_range [OF ok i k(1) k']] pixel_columns [OF ok k(1) k'] x unfolding ps e by simp
qed (simp add: ps)

text \<open>
  A block of rows \<open>dc\<close> was replaced by the rows of \<open>g\<close> that lie \<open>ex\<close> pixels to the right and
  \<open>ey\<close> rows further down.
\<close>

lemma pixels_of_rows:
  assumes ok: "fb_ok fb" and ps: "pixel_size g = pixel_size fb" and i: "inside fb x y"
    and p: "\<And>c. 0 \<le> c \<Longrightarrow> c < stride fb \<Longrightarrow> peek b (y * stride fb + c) =
       (if rtop dc \<le> y \<and> y < rbottom dc \<and> rleft dc * pixel_size fb \<le> c \<and> c < rright dc * pixel_size fb
        then peek (buffer g) ((y + ey) * stride g + (c + ex * pixel_size fb)) else peek (buffer fb) (y * stride fb + c))"
  shows "pixel (fb\<lparr>buffer := b\<rparr>) x y = (if isPointInRect dc x y then pixel g (x + ex) (y + ey) else pixel fb x y)"
proof (cases "isPointInRect dc x y")
  case True
  then have "rtop dc \<le> y" "y < rbottom dc" "rleft dc \<le> x" "x < rright dc" by (simp_all add: in_rect)
  then have "pixel (fb\<lparr>buffer := b\<rparr>) x y = pixel g (x + ex) (y + ey)"
    using p by (intro pixel_moved [OF ok i ps, of "rleft dc" "rright dc"]) simp_all
  then show ?thesis using True by simp
next
  case False
  then have o: "\<not> (rtop dc \<le> y \<and> y < rbottom dc \<and> rleft dc \<le> x \<and> x < rright dc)" unfolding in_rect by blast
  have "pixel (fb\<lparr>buffer := b\<rparr>) x y = pixel fb (x + 0) y"
  proof (rule pixel_moved [OF ok i refl, of x "x + 1"])
    fix c assume c: "x * pixel_size fb \<le> c" "c < (x + 1) * pixel_size fb" "0 \<le> c" "c < stride fb"
    then obtain k where k: "c = x * pixel_size fb + k" "0 \<le> k" "k < pixel_size fb"
      by (intro that [of "c - x * pixel_size fb"]) (simp_all add: algebra_simps)
    show "peek b (y * stride fb + c) = peek (buffer fb) (y * stride fb + (c + 0 * pixel_size fb))"
      using p [OF c(3,4)] pixel_columns [OF ok k(2,3)] o unfolding k(1) by auto
  qed simp_all
  then show ?thesis using False by simp
qed

section \<open>Moving\<close>

lemma move_rows_forward:
  assumes size: "int (length b) = h * S" and cd: "0 \<le> c0" "c0 + len \<le> S" and cs: "0 \<le> c1" "c1 + len \<le> S"
    and len: "0 \<le> len" and r: "0 \<le> t" "t < u" "u \<le> h" "0 < ey" "u + ey \<le> h"
  shows "\<exists>b'. move_rows (nat (u - t)) memcpy len S (t * S + c0) ((t + ey) * S + c1) b = Some b' \<and> length b' = length b \<and>
    (\<forall>y k. 0 \<le> y \<longrightarrow> y < h \<longrightarrow> 0 \<le> k \<longrightarrow> k < S \<longrightarrow> peek b' (y * S + k) =
       (if t \<le> y \<and> y < u \<and> c0 \<le> k \<and> k < c0 + len then peek b ((y + ey) * S + (k + (c1 - c0))) else peek b (y * S + k)))"
proof -
  have step: "t * S + q + int j * S = (t + int j) * S + q" for t q j by (simp add: algebra_simps)
  have far: "apart len ((t + int i) * S + c0) ((t + ey + int j) * S + c1)" if "i \<le> j" for i j
    by (rule rows_apart [OF _ cd cs len]) (use that r in simp)
  have "\<exists>b'. move_rows (nat (u - t)) memcpy len S (t * S + c0) ((t + ey) * S + c1) b = Some b' \<and> length b' = length b \<and>
    (\<forall>i. 0 \<le> i \<longrightarrow> i < int (length b) \<longrightarrow> peek b' i = (if row_hit (nat (u - t)) len S (t * S + c0) i
        then peek b (i - (t * S + c0) + ((t + ey) * S + c1)) else peek b i))"
  proof (rule move_rows_ok [OF len], unfold step)
    show "memcpy ((t + int j) * S + c0) ((t + ey + int j) * S + c1) len b =
        memmove ((t + int j) * S + c0) ((t + ey + int j) * S + c1) len b" if "j < nat (u - t)" for j b
      by (rule memcpy_apart [OF len far]) simp
    show "apart len ((t + int i) * S + c0) ((t + ey + int j) * S + c1)" if "i < j" "j < nat (u - t)" for i j
      by (rule far) (use that in simp)
    show "apart len ((t + int i) * S + c0) ((t + int j) * S + c0)" if "i < j" "j < nat (u - t)" for i j
      by (rule rows_apart [OF _ cd cd len]) (use that in simp)
    show "in_block ((t + int j) * S + c0) len b \<and> in_block ((t + ey + int j) * S + c1) len b" if "j < nat (u - t)" for j
      by (intro conjI row_in_block [OF _ _ cd len size] row_in_block [OF _ _ cs len size]) (use that r in auto)
  qed
  moreover have "0 \<le> y * S + k \<and> y * S + k < int (length b)" if "0 \<le> y" "y < h" "0 \<le> k" "k < S" for y k
    using row_in_block [OF that(1-3) _ _ size, of 1] that(4) by (simp add: in_block_def)
  moreover have "y * S + k - (t * S + c0) + ((t + ey) * S + c1) = (y + ey) * S + (k + (c1 - c0))" for y k
    by (simp add: algebra_simps)
  ultimately show ?thesis using row_hit_up [OF cd _ _ less_imp_le [OF r(2)]] by (metis (no_types, lifting))
qed

lemma move_rows_backward:
  assumes size: "int (length b) = h * S" and cd: "0 \<le> c0" "c0 + len \<le> S" and cs: "0 \<le> c1" "c1 + len \<le> S"
    and len: "0 \<le> len" and r: "0 \<le> t" "t < u" "u \<le> h" "ey \<le> 0" "0 \<le> t + ey"
  shows "\<exists>b'. move_rows (nat (u - t)) memmove len (- S) ((u - 1) * S + c0) ((u + ey - 1) * S + c1) b = Some b' \<and>
    length b' = length b \<and>
    (\<forall>y k. 0 \<le> y \<longrightarrow> y < h \<longrightarrow> 0 \<le> k \<longrightarrow> k < S \<longrightarrow> peek b' (y * S + k) =
       (if t \<le> y \<and> y < u \<and> c0 \<le> k \<and> k < c0 + len then peek b ((y + ey) * S + (k + (c1 - c0))) else peek b (y * S + k)))"
proof -
  have step: "(u - 1) * S + q + int j * - S = (u - 1 - int j) * S + q" for u q j by (simp add: algebra_simps)
  have "\<exists>b'. move_rows (nat (u - t)) memmove len (- S) ((u - 1) * S + c0) ((u + ey - 1) * S + c1) b = Some b' \<and>
    length b' = length b \<and>
    (\<forall>i. 0 \<le> i \<longrightarrow> i < int (length b) \<longrightarrow> peek b' i = (if row_hit (nat (u - t)) len (- S) ((u - 1) * S + c0) i
        then peek b (i - ((u - 1) * S + c0) + ((u + ey - 1) * S + c1)) else peek b i))"
  proof (rule move_rows_ok [OF len], unfold step)
    show "apart len ((u - 1 - int i) * S + c0) ((u + ey - 1 - int j) * S + c1)" if "i < j" "j < nat (u - t)" for i j
      by (rule rows_apart [OF _ cd cs len]) (use that r in simp)
    show "apart len ((u - 1 - int i) * S + c0) ((u - 1 - int j) * S + c0)" if "i < j" "j < nat (u - t)" for i j
      by (rule rows_apart [OF _ cd cd len]) (use that in simp)
    show "in_block ((u - 1 - int j) * S + c0) len b \<and> in_block ((u + ey - 1 - int j) * S + c1) len b"
      if "j < nat (u - t)" for j
      by (intro conjI row_in_block [OF _ _ cd len size] row_in_block [OF _ _ cs len size]) (use that r in auto)
  qed simp
  moreover have "0 \<le> y * S + k \<and> y * S + k < int (length b)" if "0 \<le> y" "y < h" "0 \<le> k" "k < S" for y k
    using row_in_block [OF that(1-3) _ _ size, of 1] that(4) by (simp add: in_block_def)
  moreover have "y * S + k - ((u - 1) * S + c0) + ((u + ey - 1) * S + c1) = (y + ey) * S + (k + (c1 - c0))" for y k
    by (simp add: algebra_simps)
  ultimately show ?thesis using row_hit_down [OF cd _ _ less_imp_le [OF r(2)]] by (metis (no_types, lifting))
qed

lemma move_fb_ok:
  assumes ok: "fb_ok fb"
  shows "\<exists>b. move_fb d sx sy fb = Some (fb\<lparr>buffer := b\<rparr>) \<and> length b = length (buffer fb) \<and>
    (\<forall>x y. inside fb x y \<longrightarrow> pixel (fb\<lparr>buffer := b\<rparr>) x y =
       (if isPointInRect d x y \<and> inside fb (x + (sx - rleft d)) (y + (sy - rtop d))
        then pixel fb (x + (sx - rleft d)) (y + (sy - rtop d)) else pixel fb x y))"
proof -
  obtain dc sc where c: "clipRect fb d fb sx sy = (dc, sc)" by fastforce
  define P S ex ey where "P = pixel_size fb" and "S = stride fb" and "ex = sx - rleft d" and "ey = sy - rtop d"
  note cc = clipRect_ok [OF c, folded ex_def ey_def]
  have hit: "isPointInRect d x y \<and> inside fb (x + ex) (y + ey) \<longleftrightarrow> isPointInRect dc x y" if "inside fb x y" for x y
    using cc(2) that by blast
  show ?thesis
  proof (cases "rect_isEmpty dc")
    case True
    then have "rect_isEmpty sc" unfolding cc(1) by simp
    moreover have "\<not> isPointInRect dc x y" for x y using True rect_isEmpty_pixels by blast
    ultimately show ?thesis using True c hit
      by (intro exI [of _ "buffer fb"]) (auto simp: move_fb_def rect_area ex_def ey_def)
  next
    case False
    define len where "len = (rright dc - rleft dc) * P"
    note r = clipRect_range [OF c False] and sc = cc(1)
    have sne: "\<not> rect_isEmpty sc" using False cc(1) by simp
    note dl = column_range [OF ok r(1,3) less_imp_le [OF r(2)], folded P_def S_def, folded len_def]
    have sl: "0 \<le> rleft sc * P" "rleft sc * P + len \<le> S"
      using column_range [OF ok r(7,8), folded P_def S_def] r(2) by (simp_all add: sc len_def)
    have diff: "rleft sc * P - rleft dc * P = ex * P" by (simp add: sc algebra_simps)
    have size: "int (length (buffer fb)) = height (dim fb) * S" using ok by (simp add: fb_ok_def S_def)
    have sr: "0 \<le> rtop dc + ey" "rbottom dc + ey \<le> height (dim fb)" "rtop sc = rtop dc + ey" "rbottom sc = rbottom dc + ey"
      using r(9,10) by (simp_all add: sc)
    have m: "move_fb d sx sy fb = map_option (\<lambda>b. fb\<lparr>buffer := b\<rparr>)
        (if ey > 0 then move_rows (nat (rbottom dc - rtop dc)) memcpy len S (rtop dc * S + rleft dc * P) ((rtop dc + ey) * S + rleft sc * P) (buffer fb)
         else move_rows (nat (rbottom dc - rtop dc)) memmove len (- S) ((rbottom dc - 1) * S + rleft dc * P) ((rbottom dc + ey - 1) * S + rleft sc * P) (buffer fb))"
      using False c sne sr(3,4)
      by (simp add: move_fb_def rect_area Let_def getHeight_def getWidth_def len_def P_def S_def pixel_size_def stride_def
          ey_def mult.commute option.case_eq_if map_option_case)
    have "\<exists>b. move_fb d sx sy fb = Some (fb\<lparr>buffer := b\<rparr>) \<and> length b = length (buffer fb) \<and>
      (\<forall>y k. 0 \<le> y \<longrightarrow> y < height (dim fb) \<longrightarrow> 0 \<le> k \<longrightarrow> k < S \<longrightarrow> peek b (y * S + k) =
       (if rtop dc \<le> y \<and> y < rbottom dc \<and> rleft dc * P \<le> k \<and> k < rleft dc * P + len
        then peek (buffer fb) ((y + ey) * S + (k + ex * P)) else peek (buffer fb) (y * S + k)))"
      using move_rows_forward [OF size dl(1,2) sl dl(3) r(4,5,6) _ sr(2)]
        move_rows_backward [OF size dl(1,2) sl dl(3) r(4,5,6) _ sr(1)]
      unfolding m diff by (cases "ey > 0") auto
    then obtain b where b: "move_fb d sx sy fb = Some (fb\<lparr>buffer := b\<rparr>)" "length b = length (buffer fb)"
        "\<And>y k. 0 \<le> y \<Longrightarrow> y < height (dim fb) \<Longrightarrow> 0 \<le> k \<Longrightarrow> k < S \<Longrightarrow> peek b (y * S + k) =
         (if rtop dc \<le> y \<and> y < rbottom dc \<and> rleft dc * P \<le> k \<and> k < rright dc * P
          then peek (buffer fb) ((y + ey) * S + (k + ex * P)) else peek (buffer fb) (y * S + k))"
      using dl(4) by auto
    have "pixel (fb\<lparr>buffer := b\<rparr>) x y = (if isPointInRect dc x y then pixel fb (x + ex) (y + ey) else pixel fb x y)"
      if i: "inside fb x y" for x y
      by (rule pixels_of_rows [OF ok refl i])
        (use b(3) i in \<open>simp add: inside_def P_def [symmetric] S_def [symmetric]\<close>)
    then show ?thesis using b(1,2) hit unfolding ex_def [symmetric] ey_def [symmetric] by auto
  qed
qed

section \<open>Copying from another buffer\<close>

lemma copy_rows_block:
  assumes size: "int (length b) = h * S" "int (length src) = h' * S'"
    and cd: "0 \<le> c0" "c0 + len \<le> S" and cs: "0 \<le> c1" "c1 + len \<le> S'"
    and len: "0 \<le> len" and r: "0 \<le> t" "t \<le> u" "u \<le> h" "0 \<le> t + ey" "u + ey \<le> h'"
  shows "\<exists>b'. copy_rows (nat (u - t)) len S S' (t * S + c0) ((t + ey) * S' + c1) src b = Some b' \<and> length b' = length b \<and>
    (\<forall>y k. 0 \<le> y \<longrightarrow> y < h \<longrightarrow> 0 \<le> k \<longrightarrow> k < S \<longrightarrow> peek b' (y * S + k) =
       (if t \<le> y \<and> y < u \<and> c0 \<le> k \<and> k < c0 + len then peek src ((y + ey) * S' + (k + (c1 - c0))) else peek b (y * S + k)))"
proof -
  have step: "t * S + q + int j * S = (t + int j) * S + q" for t q j and S :: int by (simp add: algebra_simps)
  have "len \<le> S" using cd by simp
  from copy_rows_ok [OF len this, of "nat (u - t)" "t * S + c0" b "(t + ey) * S' + c1" S' src, unfolded step]
  obtain b' where b': "copy_rows (nat (u - t)) len S S' (t * S + c0) ((t + ey) * S' + c1) src b = Some b'" "length b' = length b"
      "\<And>j c. j < nat (u - t) \<Longrightarrow> 0 \<le> c \<Longrightarrow> c < len \<Longrightarrow>
        peek b' ((t + int j) * S + c0 + c) = peek src ((t + ey + int j) * S' + c1 + c)"
      "\<And>i. 0 \<le> i \<Longrightarrow> i < int (length b) \<Longrightarrow> \<not> row_hit (nat (u - t)) len S (t * S + c0) i \<Longrightarrow> peek b' i = peek b i"
    using row_in_block [OF _ _ cd len size(1)] row_in_block [OF _ _ cs len size(2)] r by fastforce
  have "peek b' (y * S + k) =
      (if t \<le> y \<and> y < u \<and> c0 \<le> k \<and> k < c0 + len then peek src ((y + ey) * S' + (k + (c1 - c0))) else peek b (y * S + k))"
    if y: "0 \<le> y" "y < h" and k: "0 \<le> k" "k < S" for y k
  proof (cases "t \<le> y \<and> y < u \<and> c0 \<le> k \<and> k < c0 + len")
    case True
    then have "t + int (nat (y - t)) = y" "t + ey + int (nat (y - t)) = y + ey" by simp_all
    then show ?thesis using b'(3) [of "nat (y - t)" "k - c0"] True by (simp add: algebra_simps)
  next
    case False
    have "0 \<le> y * S + k" "y * S + k < int (length b)"
      using row_in_block [OF y k(1) _ _ size(1), of 1] k by (simp_all add: in_block_def)
    moreover have "\<not> row_hit (nat (u - t)) len S (t * S + c0) (y * S + k)"
      using False unfolding row_hit_up [OF cd k r(2)] .
    ultimately show ?thesis unfolding if_not_P [OF False] by (rule b'(4))
  qed
  then show ?thesis using b'(1,2) by blast
qed

lemma pf_isEqualTo_iff [simp]: "pf_isEqualTo p q \<longleftrightarrow> p = q"
  by (auto simp: pf_isEqualTo_def)

text \<open>The clipped rectangles of \<open>copyFrom\<close> and \<open>cmpFrom\<close>, as rows and columns of bytes.\<close>

lemma clipped_rows:
  assumes ok: "fb_ok fb" "fb_ok src" "fmt fb = fmt src" and c: "clipRect fb d src sx sy = (dc, sc)" and ne: "\<not> rect_isEmpty dc"
  defines "P \<equiv> pixel_size fb"
  defines "len \<equiv> (rright dc - rleft dc) * P"
  shows "0 \<le> rleft dc * P" "rleft dc * P + len \<le> stride fb" "0 \<le> rleft sc * P" "rleft sc * P + len \<le> stride src"
    "0 \<le> len" "0 \<le> rtop dc" "rtop dc \<le> rbottom dc" "rbottom dc \<le> height (dim fb)"
    "0 \<le> rtop dc + (sy - rtop d)" "rbottom dc + (sy - rtop d) \<le> height (dim src)"
    "rleft dc * P + len = rright dc * P" "rleft sc * P - rleft dc * P = (sx - rleft d) * P"
    "rtop sc = rtop dc + (sy - rtop d)"
proof -
  note r = clipRect_range [OF c ne] and sc = clipRect_ok(1) [OF c]
  have P: "P = pixel_size src" using ok(3) by (simp add: P_def pixel_size_def)
  show "0 \<le> rleft dc * P" "rleft dc * P + len \<le> stride fb" "0 \<le> len" "rleft dc * P + len = rright dc * P"
    using column_range [OF ok(1) r(1,3)] r(2) by (simp_all add: len_def P_def)
  show "0 \<le> rleft sc * P" "rleft sc * P + len \<le> stride src"
    using column_range [OF ok(2) r(7,8)] r(2) by (simp_all add: len_def P sc)
  show "0 \<le> rtop dc" "rtop dc \<le> rbottom dc" "rbottom dc \<le> height (dim fb)"
    "0 \<le> rtop dc + (sy - rtop d)" "rbottom dc + (sy - rtop d) \<le> height (dim src)"
    "rtop sc = rtop dc + (sy - rtop d)" using r by (simp_all add: sc)
  show "rleft sc * P - rleft dc * P = (sx - rleft d) * P" by (simp add: sc algebra_simps)
qed

lemma copyFrom_ok:
  assumes ok: "fb_ok fb" "fb_ok src" "fmt fb = fmt src"
  shows "\<exists>b. copyFrom d src sx sy fb = Some (True, fb\<lparr>buffer := b\<rparr>) \<and> length b = length (buffer fb) \<and>
    (\<forall>x y. inside fb x y \<longrightarrow> pixel (fb\<lparr>buffer := b\<rparr>) x y =
       (if isPointInRect d x y \<and> inside src (x + (sx - rleft d)) (y + (sy - rtop d))
        then pixel src (x + (sx - rleft d)) (y + (sy - rtop d)) else pixel fb x y))"
proof -
  obtain dc sc where c: "clipRect fb d src sx sy = (dc, sc)" by fastforce
  define P ex ey where "P = pixel_size fb" and "ex = sx - rleft d" and "ey = sy - rtop d"
  note cc = clipRect_ok [OF c, folded ex_def ey_def]
  have hit: "isPointInRect d x y \<and> inside src (x + ex) (y + ey) \<longleftrightarrow> isPointInRect dc x y" if "inside fb x y" for x y
    using cc(2) that by blast
  show ?thesis
  proof (cases "rect_isEmpty dc")
    case True
    then have "rect_isEmpty sc" unfolding cc(1) by simp
    moreover have "\<not> isPointInRect dc x y" for x y using True rect_isEmpty_pixels by blast
    ultimately show ?thesis using True c hit ok(3)
      by (intro exI [of _ "buffer fb"]) (auto simp: copyFrom_def rect_area ex_def ey_def)
  next
    case False
    have sne: "\<not> rect_isEmpty sc" using False cc(1) by simp
    note r = clipped_rows [OF ok c False, folded P_def ex_def ey_def]
    have size: "int (length (buffer fb)) = height (dim fb) * stride fb" "int (length (buffer src)) = height (dim src) * stride src"
      using ok(1,2) by (simp_all add: fb_ok_def)
    have m: "copyFrom d src sx sy fb = map_option (\<lambda>b. (True, fb\<lparr>buffer := b\<rparr>))
       (copy_rows (nat (rbottom dc - rtop dc)) ((rright dc - rleft dc) * P) (stride fb) (stride src)
          (rtop dc * stride fb + rleft dc * P) ((rtop dc + ey) * stride src + rleft sc * P) (buffer src) (buffer fb))"
      using False c sne ok(3) r(13)
      by (simp add: copyFrom_def rect_area Let_def getHeight_def getWidth_def P_def pixel_size_def stride_def mult.commute
          option.case_eq_if map_option_case)
    obtain b where b: "copyFrom d src sx sy fb = Some (True, fb\<lparr>buffer := b\<rparr>)" "length b = length (buffer fb)"
        "\<And>y k. 0 \<le> y \<Longrightarrow> y < height (dim fb) \<Longrightarrow> 0 \<le> k \<Longrightarrow> k < stride fb \<Longrightarrow> peek b (y * stride fb + k) =
         (if rtop dc \<le> y \<and> y < rbottom dc \<and> rleft dc * P \<le> k \<and> k < rright dc * P
          then peek (buffer src) ((y + ey) * stride src + (k + ex * P)) else peek (buffer fb) (y * stride fb + k))"
      using copy_rows_block [OF size r(1-10)] unfolding m r(11,12) by auto
    have ps: "pixel_size src = pixel_size fb" using ok(3) by (simp add: pixel_size_def)
    have "pixel (fb\<lparr>buffer := b\<rparr>) x y = (if isPointInRect dc x y then pixel src (x + ex) (y + ey) else pixel fb x y)"
      if i: "inside fb x y" for x y
      by (rule pixels_of_rows [OF ok(1) ps i]) (use b(3) i in \<open>simp add: inside_def P_def [symmetric]\<close>)
    then show ?thesis using b(1,2) hit unfolding ex_def [symmetric] ey_def [symmetric] by auto
  qed
qed

section \<open>Comparing\<close>

lemma pixel_eq_columns:
  assumes ok: "fb_ok fb" and ps: "pixel_size g = pixel_size fb" and l: "0 \<le> l" "r \<le> width (dim fb)"
  shows "(\<forall>x. l \<le> x \<longrightarrow> x < r \<longrightarrow> pixel fb x y = pixel g (x + d) y') \<longleftrightarrow>
    (\<forall>c. l * pixel_size fb \<le> c \<longrightarrow> c < r * pixel_size fb \<longrightarrow>
       peek (buffer fb) (y * stride fb + c) = peek (buffer g) (y' * stride g + (c + d * pixel_size fb)))"
    (is "?pixels = ?bytes")
proof
  let ?P = "pixel_size fb"
  have e: "(x + d) * ?P + k = (x * ?P + k) + d * ?P" for x k by (simp add: algebra_simps)
  show ?bytes if ?pixels
  proof (intro allI impI)
    fix c assume c: "l * ?P \<le> c" "c < r * ?P"
    define x k where "x = c div ?P" and "k = c mod ?P"
    have k: "0 \<le> k" "k < ?P" "c = x * ?P + k"
      using fb_ok_size_pos [OF ok] by (simp_all add: x_def k_def)
    with c have "l \<le> x" "x < r" using pixel_columns [OF ok k(1,2)] by simp_all
    with that have "pixel fb x y = pixel g (x + d) y'" by blast
    from pixel_eqD [OF this ps [symmetric] k(1,2)]
    show "peek (buffer fb) (y * stride fb + c) = peek (buffer g) (y' * stride g + (c + d * ?P))"
      unfolding k(3) ps e .
  qed
  show ?pixels if ?bytes
  proof (intro allI impI)
    fix x assume x: "l \<le> x" "x < r"
    show "pixel fb x y = pixel g (x + d) y'"
    proof (rule pixel_eqI)
      fix k assume k: "0 \<le> k" "k < ?P"
      have "l * ?P \<le> x * ?P + k" "x * ?P + k < r * ?P" using pixel_columns [OF ok k] x by simp_all
      then show "peek (buffer fb) (y * stride fb + (x * ?P + k)) = peek (buffer g) (y' * stride g + ((x + d) * pixel_size g + k))"
        using that unfolding ps e by blast
    qed (simp add: ps)
  qed
qed

lemma cmp_rows_block:
  assumes size: "int (length b) = h * S" "int (length src) = h' * S'"
    and cd: "0 \<le> c0" "c0 + len \<le> S" and cs: "0 \<le> c1" "c1 + len \<le> S'"
    and len: "0 \<le> len" and r: "0 \<le> t" "t \<le> u" "u \<le> h" "0 \<le> t + ey" "u + ey \<le> h'"
  shows "cmp_rows (nat (u - t)) len S S' (t * S + c0) ((t + ey) * S' + c1) src b =
    Some (\<forall>y. t \<le> y \<longrightarrow> y < u \<longrightarrow> (\<forall>k. c0 \<le> k \<longrightarrow> k < c0 + len \<longrightarrow>
      peek b (y * S + k) = peek src ((y + ey) * S' + (k + (c1 - c0)))))"
proof -
  have step: "t * S + q + int j * S = (t + int j) * S + q" for t q j and S :: int by (simp add: algebra_simps)
  have "cmp_rows (nat (u - t)) len S S' (t * S + c0) ((t + ey) * S' + c1) src b =
    Some (\<forall>j < nat (u - t). \<forall>c. 0 \<le> c \<longrightarrow> c < len \<longrightarrow>
      peek b ((t + int j) * S + c0 + c) = peek src ((t + ey + int j) * S' + c1 + c))"
    by (subst cmp_rows_ok, unfold step, intro conjI row_in_block [OF _ _ cd len size(1)] row_in_block [OF _ _ cs len size(2)])
      (use r in auto)
  also have "(\<forall>j < nat (u - t). \<forall>c. 0 \<le> c \<longrightarrow> c < len \<longrightarrow>
      peek b ((t + int j) * S + c0 + c) = peek src ((t + ey + int j) * S' + c1 + c)) \<longleftrightarrow>
    (\<forall>y. t \<le> y \<longrightarrow> y < u \<longrightarrow> (\<forall>k. c0 \<le> k \<longrightarrow> k < c0 + len \<longrightarrow>
      peek b (y * S + k) = peek src ((y + ey) * S' + (k + (c1 - c0)))))" (is "?L = ?R")
  proof
    assume L: ?L
    show ?R
    proof (intro allI impI)
      fix y k assume y: "t \<le> y" "y < u" and k: "c0 \<le> k" "k < c0 + len"
      have e: "nat (y - t) < nat (u - t)" "t + int (nat (y - t)) = y" "t + ey + int (nat (y - t)) = y + ey" using y by simp_all
      show "peek b (y * S + k) = peek src ((y + ey) * S' + (k + (c1 - c0)))"
        using L [rule_format, OF e(1), of "k - c0"] k unfolding e(2,3) by (simp add: algebra_simps)
    qed
  next
    assume R: ?R
    show ?L
    proof (intro allI impI)
      fix j c assume j: "j < nat (u - t)" and c: "0 \<le> c" "c < len"
      show "peek b ((t + int j) * S + c0 + c) = peek src ((t + ey + int j) * S' + c1 + c)"
        using R [rule_format, of "t + int j" "c0 + c"] j c by (simp add: algebra_simps)
    qed
  qed
  finally show ?thesis .
qed

lemma cmpFrom_ok:
  assumes ok: "fb_ok fb" "fb_ok src" "fmt fb = fmt src"
  shows "cmpFrom d src sx sy fb = Some (\<forall>x y. isPointInRect d x y \<longrightarrow> inside fb x y \<longrightarrow>
     inside src (x + (sx - rleft d)) (y + (sy - rtop d)) \<longrightarrow>
     pixel fb x y = pixel src (x + (sx - rleft d)) (y + (sy - rtop d)))"
proof -
  obtain dc sc where c: "clipRect fb d src sx sy = (dc, sc)" by fastforce
  define P ex ey where "P = pixel_size fb" and "ex = sx - rleft d" and "ey = sy - rtop d"
  note cc = clipRect_ok [OF c, folded ex_def ey_def]
  have hit: "(\<forall>x y. isPointInRect d x y \<longrightarrow> inside fb x y \<longrightarrow> inside src (x + ex) (y + ey) \<longrightarrow> pixel fb x y = pixel src (x + ex) (y + ey)) \<longleftrightarrow>
      (\<forall>x y. isPointInRect dc x y \<longrightarrow> pixel fb x y = pixel src (x + ex) (y + ey))"
    using cc(2) by blast
  have "cmpFrom d src sx sy fb = Some (\<forall>x y. isPointInRect dc x y \<longrightarrow> pixel fb x y = pixel src (x + ex) (y + ey))"
  proof (cases "rect_isEmpty dc")
    case True
    then have "rect_isEmpty sc" unfolding cc(1) by simp
    moreover have "\<not> isPointInRect dc x y" for x y using True rect_isEmpty_pixels by blast
    ultimately show ?thesis using True c ok(3) by (simp add: cmpFrom_def rect_area)
  next
    case False
    have sne: "\<not> rect_isEmpty sc" using False cc(1) by simp
    note r = clipped_rows [OF ok c False, folded P_def ex_def ey_def]
    have size: "int (length (buffer fb)) = height (dim fb) * stride fb" "int (length (buffer src)) = height (dim src) * stride src"
      using ok(1,2) by (simp_all add: fb_ok_def)
    have m: "cmpFrom d src sx sy fb = cmp_rows (nat (rbottom dc - rtop dc)) ((rright dc - rleft dc) * P) (stride fb) (stride src)
          (rtop dc * stride fb + rleft dc * P) ((rtop dc + ey) * stride src + rleft sc * P) (buffer src) (buffer fb)"
      using False c sne ok(3) r(13)
      by (simp add: cmpFrom_def rect_area Let_def getHeight_def getWidth_def P_def pixel_size_def stride_def mult.commute)
    have ps: "pixel_size src = pixel_size fb" using ok(3) by (simp add: pixel_size_def)
    have "cmpFrom d src sx sy fb = Some (\<forall>y. rtop dc \<le> y \<longrightarrow> y < rbottom dc \<longrightarrow>
        (\<forall>x. rleft dc \<le> x \<longrightarrow> x < rright dc \<longrightarrow> pixel fb x y = pixel src (x + ex) (y + ey)))"
      unfolding pixel_eq_columns [OF ok(1) ps clipRect_range(1,3) [OF c False]] m P_def [symmetric]
      using cmp_rows_block [OF size r(1-10)] unfolding r(11,12) .
    also have "(\<forall>y. rtop dc \<le> y \<longrightarrow> y < rbottom dc \<longrightarrow>
        (\<forall>x. rleft dc \<le> x \<longrightarrow> x < rright dc \<longrightarrow> pixel fb x y = pixel src (x + ex) (y + ey))) \<longleftrightarrow>
      (\<forall>x y. isPointInRect dc x y \<longrightarrow> pixel fb x y = pixel src (x + ex) (y + ey))"
      unfolding in_rect by blast
    finally show ?thesis .
  qed
  then show ?thesis using hit by (simp add: ex_def ey_def)
qed

end
