(* ===== verification/BufferFill.thy ===== *)
theory BufferFill
  imports BufferOps
begin

text \<open>
  Filling a rectangle: \<open>fillRect\<close> writes the pixels of the first line one by one and copies
  that line to the others. It does not test whether the clipped rectangle has a line at all.
\<close>

section \<open>The two loops as copies of rows\<close>

lemma load_whole: "int (length b) = n \<Longrightarrow> load 0 n b = Some b"
  by (auto simp: load_def in_block_def)

lemma put_pixels_rows:
  "int (length color) = ps \<Longrightarrow> put_pixels n ps color p b = copy_rows n ps ps 0 p 0 color b"
  by (induction n arbitrary: p b) (auto simp: load_whole split: option.splits)

lemma load_cong:
  assumes "length b = length b'" "\<And>i. off \<le> i \<Longrightarrow> i < off + len \<Longrightarrow> peek b i = peek b' i"
  shows "load off len b = load off len b'"
proof (cases "in_block off len b")
  case True
  then have r: "0 \<le> off" "0 \<le> len" "off + len \<le> int (length b)" by (simp_all add: in_block_def)
  have "take (nat len) (drop (nat off) b) = take (nat len) (drop (nat off) b')"
  proof (rule nth_equalityI)
    fix i assume "i < length (take (nat len) (drop (nat off) b))"
    then have i: "i < nat len" "nat off + i < length b" by (auto simp: less_diff_conv2)
    then have "off \<le> off + int i" "off + int i < off + len" by simp_all
    from assms(2) [OF this] r(1) have "b ! (nat off + i) = b' ! (nat off + i)"
      by (simp add: peek_def nat_add_distrib)
    then show "take (nat len) (drop (nat off) b) ! i = take (nat len) (drop (nat off) b') ! i" using i assms(1) by simp
  qed (simp add: assms(1))
  then show ?thesis using True in_block_length [OF assms(1)] by (simp add: load_def)
next
  case False
  then show ?thesis using in_block_length [OF assms(1)] by (simp add: load_def)
qed

lemma copy_line_rows:
  assumes "0 \<le> len" "load s len b = Some row" "\<And>j. j < n \<Longrightarrow> in_block (d + int j * st) len b"
    "\<And>j. j < n \<Longrightarrow> apart len (d + int j * st) s"
  shows "copy_line n st len d s b = copy_rows n len st 0 d 0 row b"
  using assms(2-4)
proof (induction n arbitrary: d b)
  case (Suc n)
  have "in_block d len b" "apart len d s" using Suc.prems(2,3) [of 0] by simp_all
  have row: "int (length row) = len"
    by (rule load_ok [OF load_some [OF Suc.prems(1)]]) (use Suc.prems(1) in simp)
  obtain b1 where b1: "store d row b = Some b1" "length b1 = length b"
      "\<And>i. 0 \<le> i \<Longrightarrow> i < int (length b) \<Longrightarrow>
        peek b1 i = (if d \<le> i \<and> i < d + int (length row) then peek row (i - d) else peek b i)"
    by (rule store_ok [of d row b]) (use \<open>in_block d len b\<close> row in auto)
  have mc: "memcpy d s len b = Some b1"
    using Suc.prems(1) b1(1) \<open>apart len d s\<close> assms(1) by (simp add: memcpy_apart memmove_def)
  have s: "in_block s len b" by (rule load_some [OF Suc.prems(1)])
  have "load s len b1 = load s len b"
  proof (rule load_cong [OF b1(2)])
    fix i assume i: "s \<le> i" "i < s + len"
    then have "0 \<le> i" "i < int (length b)" "\<not> (d \<le> i \<and> i < d + int (length row))"
      using s \<open>apart len d s\<close> row by (auto simp: in_block_def apart_def)
    then show "peek b1 i = peek b i" using b1(3) by metis
  qed
  then have "copy_line n st len (d + st) s b1 = copy_rows n len st 0 (d + st) 0 row b1"
    using Suc.prems(1) Suc.prems(2,3) [of "Suc j" for j, unfolded row_step] in_block_length [OF b1(2)]
    by (intro Suc.IH) auto
  then show ?case using mc b1(1) load_whole [OF row] by simp
qed simp

section \<open>The pixels\<close>

lemma first_line:
  assumes P: "0 < P" and color: "int (length color) = P" and S: "S = w * P" and size: "int (length b) = h * S"
    and r: "0 \<le> t" "t < h" "0 \<le> l" "l \<le> u" "u \<le> w"
  shows "\<exists>b'. put_pixels (nat (u - l)) P color (t * S + l * P) b = Some b' \<and> length b' = length b \<and>
    (\<forall>x k. l \<le> x \<longrightarrow> x < u \<longrightarrow> 0 \<le> k \<longrightarrow> k < P \<longrightarrow> peek b' (t * S + (x * P + k)) = peek color k) \<and>
    (\<forall>y c. 0 \<le> y \<longrightarrow> y < h \<longrightarrow> 0 \<le> c \<longrightarrow> c < S \<longrightarrow> \<not> (y = t \<and> l * P \<le> c \<and> c < u * P) \<longrightarrow>
       peek b' (y * S + c) = peek b (y * S + c))"
proof -
  have col: "t * S + l * P + int j * P = t * S + (l + int j) * P" for j by (simp add: algebra_simps)
  have in_row: "0 \<le> (l + int j) * P" "(l + int j) * P + P \<le> S" if "j < nat (u - l)" for j
  proof -
    have "(l + int j + 1) * P \<le> w * P" using that r P by (intro mult_right_mono) auto
    then show "(l + int j) * P + P \<le> S" by (simp add: S algebra_simps)
  qed (use r P in simp)
  from copy_rows_ok [OF less_imp_le [OF P] order_refl, of "nat (u - l)" "t * S + l * P" b 0 0 color, unfolded col]
  obtain b' where b': "copy_rows (nat (u - l)) P P 0 (t * S + l * P) 0 color b = Some b'" "length b' = length b"
      "\<And>j c. j < nat (u - l) \<Longrightarrow> 0 \<le> c \<Longrightarrow> c < P \<Longrightarrow> peek b' (t * S + (l + int j) * P + c) = peek color c"
      "\<And>i. 0 \<le> i \<Longrightarrow> i < int (length b) \<Longrightarrow> \<not> row_hit (nat (u - l)) P P (t * S + l * P) i \<Longrightarrow> peek b' i = peek b i"
    using row_in_block [OF r(1,2) in_row _ size] P color by (auto simp: in_block_def)
  have "peek b' (t * S + (x * P + k)) = peek color k" if "l \<le> x" "x < u" "0 \<le> k" "k < P" for x k
    using b'(3) [of "nat (x - l)" k] that by (simp add: add.assoc)
  moreover have "peek b' (y * S + c) = peek b (y * S + c)"
    if y: "0 \<le> y" "y < h" and c: "0 \<le> c" "c < S" and out: "\<not> (y = t \<and> l * P \<le> c \<and> c < u * P)" for y c
  proof (rule b'(4))
    show "0 \<le> y * S + c" "y * S + c < int (length b)"
      using row_in_block [OF y c(1) _ _ size, of 1] c by (simp_all add: in_block_def)
    show "\<not> row_hit (nat (u - l)) P P (t * S + l * P) (y * S + c)"
    proof
      assume "row_hit (nat (u - l)) P P (t * S + l * P) (y * S + c)"
      then obtain j where j: "j < nat (u - l)" "t * S + (l + int j) * P \<le> y * S + c" "y * S + c < t * S + (l + int j) * P + P"
        unfolding row_hit_def col by blast
      then have e: "t = y" "(l + int j) * P \<le> c" "c < (l + int j) * P + P"
        using row_member [OF in_row [OF j(1)] c, of t y] by blast+
      have "l * P \<le> (l + int j) * P" "(l + int j + 1) * P \<le> u * P" using j(1) P by (auto intro: mult_right_mono)
      moreover have "(l + int j + 1) * P = (l + int j) * P + P" by (simp add: algebra_simps)
      ultimately show False using e out by linarith
    qed
  qed
  ultimately show ?thesis using b'(1,2) by (auto simp: put_pixels_rows [OF color])
qed

lemma other_lines:
  assumes size: "int (length b) = h * S" and cd: "0 \<le> c0" "c0 + len \<le> S" and len: "0 \<le> len" and r: "0 \<le> t" "t < u" "u \<le> h"
  shows "\<exists>b'. copy_line (nat (u - (t + 1))) S len (t * S + c0 + S) (t * S + c0) b = Some b' \<and> length b' = length b \<and>
    (\<forall>y c. 0 \<le> y \<longrightarrow> y < h \<longrightarrow> 0 \<le> c \<longrightarrow> c < S \<longrightarrow> peek b' (y * S + c) =
      (if t < y \<and> y < u \<and> c0 \<le> c \<and> c < c0 + len then peek b (t * S + c) else peek b (y * S + c)))"
proof -
  have start: "t * S + c0 + S = (t + 1) * S + c0" by (simp add: algebra_simps)
  have step: "t * S + q + int j * S = (t + int j) * S + q" for t q j by (simp add: algebra_simps)
  have "in_block (t * S + c0) len b" by (rule row_in_block [OF r(1) _ cd len size]) (use r in simp)
  then obtain row where row: "load (t * S + c0) len b = Some row" "int (length row) = len"
      "\<And>i. 0 \<le> i \<Longrightarrow> i < len \<Longrightarrow> peek row i = peek b (t * S + c0 + i)" by (rule load_ok) blast
  have blk: "in_block ((t + 1 + int j) * S + c0) len b" if "j < nat (u - (t + 1))" for j
    by (rule row_in_block [OF _ _ cd len size]) (use that r in auto)
  have cl: "copy_line (nat (u - (t + 1))) S len ((t + 1) * S + c0) (t * S + c0) b =
      copy_rows (nat (u - (t + 1))) len S 0 ((t + 1) * S + c0) 0 row b"
    by (rule copy_line_rows [OF len row(1)], unfold step) (auto intro!: rows_apart [OF _ cd cd len] blk)
  have "len \<le> S" using cd by simp
  from copy_rows_ok [OF len this, of "nat (u - (t + 1))" "(t + 1) * S + c0" b 0 0 row, unfolded step]
  obtain b' where b': "copy_rows (nat (u - (t + 1))) len S 0 ((t + 1) * S + c0) 0 row b = Some b'" "length b' = length b"
      "\<And>j c. j < nat (u - (t + 1)) \<Longrightarrow> 0 \<le> c \<Longrightarrow> c < len \<Longrightarrow> peek b' ((t + 1 + int j) * S + c0 + c) = peek row c"
      "\<And>i. 0 \<le> i \<Longrightarrow> i < int (length b) \<Longrightarrow> \<not> row_hit (nat (u - (t + 1))) len S ((t + 1) * S + c0) i \<Longrightarrow> peek b' i = peek b i"
    using blk row(2) len by (auto simp: in_block_def)
  have "peek b' (y * S + c) = (if t < y \<and> y < u \<and> c0 \<le> c \<and> c < c0 + len then peek b (t * S + c) else peek b (y * S + c))"
    if y: "0 \<le> y" "y < h" and c: "0 \<le> c" "c < S" for y c
  proof (cases "t < y \<and> y < u \<and> c0 \<le> c \<and> c < c0 + len")
    case True
    then have "t + 1 + int (nat (y - (t + 1))) = y" by simp
    then show ?thesis using b'(3) [of "nat (y - (t + 1))" "c - c0"] row(3) [of "c - c0"] True by (simp add: algebra_simps)
  next
    case False
    have "0 \<le> y * S + c" "y * S + c < int (length b)"
      using row_in_block [OF y c(1) _ _ size, of 1] c by (simp_all add: in_block_def)
    moreover have "\<not> row_hit (nat (u - (t + 1))) len S ((t + 1) * S + c0) (y * S + c)"
      using False row_hit_up [OF cd c, of "t + 1" u y] r(2) by auto
    ultimately show ?thesis unfolding if_not_P [OF False] by (rule b'(4))
  qed
  then show ?thesis using b'(1,2) cl unfolding start by auto
qed

definition color_bytes :: "frame_buffer \<Rightarrow> 32 word \<Rightarrow> bytes" where
  "color_bytes fb color = take (nat (pixel_size fb)) (le_bytes color)"

lemma length_color_bytes: "fb_ok fb \<Longrightarrow> int (length (color_bytes fb color)) = pixel_size fb"
  using fb_ok_size by (fastforce simp: color_bytes_def le_bytes_def)

lemma clip_range:
  assumes "c = intersection (getRect (dim fb)) d" "\<not> rect_isEmpty c"
  shows "0 \<le> rleft c" "rleft c < rright c" "rright c \<le> width (dim fb)" "0 \<le> rtop c" "rtop c < rbottom c" "rbottom c \<le> height (dim fb)"
    "\<And>x y. isPointInRect c x y \<longleftrightarrow> inside fb x y \<and> isPointInRect d x y"
proof -
  show p: "isPointInRect c x y \<longleftrightarrow> inside fb x y \<and> isPointInRect d x y" for x y
    by (simp add: assms(1) intersection_pixels)
  have "isPointInRect c (rleft c) (rtop c)" "isPointInRect c (rright c - 1) (rbottom c - 1)"
    using assms(2) by (auto simp: in_rect rect_isEmpty_iff)
  then have "inside fb (rleft c) (rtop c)" "inside fb (rright c - 1) (rbottom c - 1)" by (simp_all add: p)
  then show "0 \<le> rleft c" "rleft c < rright c" "rright c \<le> width (dim fb)" "0 \<le> rtop c" "rtop c < rbottom c" "rbottom c \<le> height (dim fb)"
    using assms(2) by (auto simp: inside_def rect_isEmpty_iff)
qed

lemma getBufferPtr_ok: "fb_ok fb \<Longrightarrow> getBufferPtr fb x y = y * stride fb + x * pixel_size fb"
  by (simp add: getBufferPtr_def getBytesPerPixel_ok stride_def algebra_simps)

lemma fillRect_loops:
  assumes "fb_ok fb" "c = intersection (getRect (dim fb)) d"
  shows "fillRect d color fb =
    (case put_pixels (nat (rright c - rleft c)) (pixel_size fb) (color_bytes fb color)
            (rtop c * stride fb + rleft c * pixel_size fb) (buffer fb) of
       None \<Rightarrow> None
     | Some b \<Rightarrow> map_option (\<lambda>b. fb\<lparr>buffer := b\<rparr>)
         (copy_line (nat (rbottom c - (rtop c + 1))) (stride fb) ((rright c - rleft c) * pixel_size fb)
            (rtop c * stride fb + rleft c * pixel_size fb + stride fb) (rtop c * stride fb + rleft c * pixel_size fb) b))"
  using assms
  by (simp add: fillRect_def Let_def getBytesPerPixel_ok getBytesPerRow_ok getBufferPtr_ok color_bytes_def getWidth_def
      split: option.splits)

lemma fillRect_ok:
  assumes ok: "fb_ok fb" and ne: "\<not> rect_isEmpty (intersection (getRect (dim fb)) d)"
  shows "\<exists>b. fillRect d color fb = Some (fb\<lparr>buffer := b\<rparr>) \<and> length b = length (buffer fb) \<and>
    (\<forall>x y. inside fb x y \<longrightarrow> pixel (fb\<lparr>buffer := b\<rparr>) x y = (if isPointInRect d x y then color_bytes fb color else pixel fb x y))"
proof -
  define c P S where "c = intersection (getRect (dim fb)) d" and "P = pixel_size fb" and "S = stride fb"
  note r = clip_range [OF c_def ne [folded c_def]]
  have size: "int (length (buffer fb)) = height (dim fb) * S" and S: "S = width (dim fb) * P" and P: "0 < P"
    using ok fb_ok_size_pos [OF ok] by (simp_all add: fb_ok_def S_def P_def stride_def)
  note cr = column_range [OF ok r(1,3) less_imp_le [OF r(2)], folded P_def S_def]
  obtain b1 where b1: "put_pixels (nat (rright c - rleft c)) P (color_bytes fb color) (rtop c * S + rleft c * P) (buffer fb) = Some b1"
      "length b1 = length (buffer fb)"
      "\<And>x k. rleft c \<le> x \<Longrightarrow> x < rright c \<Longrightarrow> 0 \<le> k \<Longrightarrow> k < P \<Longrightarrow> peek b1 (rtop c * S + (x * P + k)) = peek (color_bytes fb color) k"
      "\<And>y k. 0 \<le> y \<Longrightarrow> y < height (dim fb) \<Longrightarrow> 0 \<le> k \<Longrightarrow> k < S \<Longrightarrow>
         \<not> (y = rtop c \<and> rleft c * P \<le> k \<and> k < rright c * P) \<Longrightarrow> peek b1 (y * S + k) = peek (buffer fb) (y * S + k)"
    using first_line [OF P length_color_bytes [OF ok, folded P_def] S size, of "rtop c" "rleft c" "rright c" color] r by auto
  have size1: "int (length b1) = height (dim fb) * S" using b1(2) size by simp
  obtain b2 where b2: "copy_line (nat (rbottom c - (rtop c + 1))) S ((rright c - rleft c) * P) (rtop c * S + rleft c * P + S)
        (rtop c * S + rleft c * P) b1 = Some b2" "length b2 = length b1"
      "\<And>y k. 0 \<le> y \<Longrightarrow> y < height (dim fb) \<Longrightarrow> 0 \<le> k \<Longrightarrow> k < S \<Longrightarrow> peek b2 (y * S + k) =
        (if rtop c < y \<and> y < rbottom c \<and> rleft c * P \<le> k \<and> k < rright c * P then peek b1 (rtop c * S + k) else peek b1 (y * S + k))"
    using other_lines [OF size1 cr(1-3) r(4-6)] unfolding cr(4) by blast
  have "pixel (fb\<lparr>buffer := b2\<rparr>) x y = (if isPointInRect c x y then color_bytes fb color else pixel fb x y)"
    if i: "inside fb x y" for x y
  proof -
    have y: "0 \<le> y" "y < height (dim fb)" using i by (simp_all add: inside_def)
    have b: "peek b2 (y * S + (x * P + k)) = (if isPointInRect c x y then peek (color_bytes fb color) k else peek (buffer fb) (y * S + (x * P + k)))"
      if k: "0 \<le> k" "k < P" for k
      using b2(3) [OF y pixel_column_range [OF ok i, folded P_def S_def, OF k]]
        b1(4) [OF y pixel_column_range [OF ok i, folded P_def S_def, OF k]] b1(3) [of x k] r(4,5)
        pixel_columns [OF ok, folded P_def, OF k] k unfolding in_rect by auto
    show ?thesis
    proof (cases "isPointInRect c x y")
      case True
      have "map (\<lambda>k. peek b2 (y * S + (x * P + int k))) [0..<nat P] = map (\<lambda>k. peek (color_bytes fb color) (int k)) [0..<nat P]"
        using b True by (intro map_cong refl) simp
      also have "\<dots> = color_bytes fb color"
        using length_color_bytes [OF ok, of color] by (intro nth_equalityI) (simp_all add: peek_def P_def)
      finally show ?thesis using True by (simp add: pixel_def P_def S_def)
    next
      case False
      then show ?thesis using b by (simp add: pixel_def P_def [symmetric] S_def [symmetric])
    qed
  qed
  then show ?thesis
    using b1(1,2) b2(1,2) r(7) unfolding fillRect_loops [OF ok c_def] P_def [symmetric] S_def [symmetric] by auto
qed

text \<open>
  A rectangle that begins just below the buffer clips to one without height that passes for
  valid: its first line is written behind the block.
\<close>

lemma fillRect_below:
  assumes ok: "fb_ok fb" and d: "rtop d = height (dim fb)" "height (dim fb) \<le> rbottom d"
    and x: "max 0 (rleft d) < min (width (dim fb)) (rright d)"
  shows "fillRect d color fb = None"
proof -
  define c where "c = intersection (getRect (dim fb)) d"
  have h: "0 \<le> height (dim fb)" using ok by (simp add: fb_ok_def)
  have c: "rleft c = max 0 (rleft d)" "rright c = min (width (dim fb)) (rright d)" "rtop c = height (dim fb)"
    using d x h by (auto simp: c_def intersection_def Let_def isValid_def getRect_def)
  obtain n where n: "nat (rright c - rleft c) = Suc n" using x c by (metis diff_gt_0_iff_gt gr0_conv_Suc zero_less_nat_eq)
  have "0 \<le> rleft c * pixel_size fb" using fb_ok_size_pos [OF ok] c(1) by simp
  then have "\<not> in_block (rtop c * stride fb + rleft c * pixel_size fb) (int (length (color_bytes fb color))) (buffer fb)"
    using length_color_bytes [OF ok, of color] fb_ok_size_pos [OF ok] ok by (simp add: in_block_def c(3) fb_ok_def)
  then show ?thesis unfolding fillRect_loops [OF ok c_def] n by (simp add: store_def)
qed

text \<open>\<open>setColor\<close> fills the whole frame; the pixel has each component scaled to its maximum.\<close>

definition scaled_color :: "pixel_format \<Rightarrow> 8 word \<Rightarrow> 8 word \<Rightarrow> 8 word \<Rightarrow> 32 word" where
  "scaled_color pf red green blue =
     or (or (push_bit (redShift pf) (word_of_nat (unat red * redMax pf div 255)))
            (push_bit (greenShift pf) (word_of_nat (unat green * greenMax pf div 255))))
        (push_bit (blueShift pf) (word_of_nat (unat blue * blueMax pf div 255)))"

lemma setColor_ok:
  assumes ok: "fb_ok fb"
  shows "\<exists>b. setColor red green blue fb = Some (fb\<lparr>buffer := b\<rparr>) \<and> length b = length (buffer fb) \<and>
    (\<forall>x y. inside fb x y \<longrightarrow> pixel (fb\<lparr>buffer := b\<rparr>) x y = color_bytes fb (scaled_color (fmt fb) red green blue))"
proof -
  define c n w P where "c = color_bytes fb (scaled_color (fmt fb) red green blue)" and "n = nat (getBufferSize fb) div nat (pixel_size fb)"
    and "w = width (dim fb)" and "P = pixel_size fb"
  have P: "0 < P" "int (length c) = P"
    using fb_ok_size_pos [OF ok] length_color_bytes [OF ok] by (simp_all add: P_def c_def)
  have size: "int (length (buffer fb)) = height (dim fb) * (w * P)" and h: "0 \<le> height (dim fb)" "0 \<le> w"
    using ok by (simp_all add: fb_ok_def stride_def w_def P_def)
  have n: "n = nat (height (dim fb) * w)"
  proof -
    have "getBufferSize fb = (height (dim fb) * w) * P" using getBufferSize_ok [OF ok] size by simp
    then have "nat (getBufferSize fb) = nat (height (dim fb) * w) * nat P" using h P(1) by (simp add: nat_mult_distrib)
    then show ?thesis using P(1) by (simp add: n_def P_def)
  qed
  have call: "setColor red green blue fb = map_option (\<lambda>b. fb\<lparr>buffer := b\<rparr>) (put_pixels n P c 0 (buffer fb))"
    using P(1) by (simp add: setColor_def Let_def c_def color_bytes_def scaled_color_def n_def P_def pixel_size_def)
  have one: "int (length (buffer fb)) = 1 * ((height (dim fb) * w) * P)" using size by simp
  have w0: "0 \<le> height (dim fb) * w" using h by simp
  obtain b where b: "put_pixels n P c 0 (buffer fb) = Some b" "length b = length (buffer fb)"
      "\<And>x k. 0 \<le> x \<Longrightarrow> x < height (dim fb) * w \<Longrightarrow> 0 \<le> k \<Longrightarrow> k < P \<Longrightarrow> peek b (x * P + k) = peek c k"
    using first_line [OF P refl one order_refl _ order_refl w0 order_refl] n by auto
  have "pixel (fb\<lparr>buffer := b\<rparr>) x y = c" if i: "inside fb x y" for x y
  proof (rule nth_equalityI)
    show "length (pixel (fb\<lparr>buffer := b\<rparr>) x y) = length c" using P by (simp add: pixel_def P_def)
    fix k assume "k < length (pixel (fb\<lparr>buffer := b\<rparr>) x y)"
    then have k: "k < nat P" by (simp add: pixel_def P_def)
    have "(y + 1) * w \<le> height (dim fb) * w" by (rule mult_right_mono) (use i h in \<open>simp_all add: inside_def\<close>)
    moreover have "0 \<le> y * w" "0 \<le> x" "x < w" using i h by (simp_all add: inside_def w_def)
    ultimately have "0 \<le> y * w + x" "y * w + x < height (dim fb) * w" by (simp_all add: distrib_right)
    then have "peek b ((y * w + x) * P + int k) = peek c (int k)" using b(3) [of "y * w + x" "int k"] k by simp
    then show "pixel (fb\<lparr>buffer := b\<rparr>) x y ! k = c ! k"
      using k by (simp add: pixel_def P_def [symmetric] stride_def w_def [symmetric] peek_def [of c] algebra_simps)
  qed
  with call b(1,2) show ?thesis by (auto simp: c_def)
qed

end
