(* ===== verification/UpdateFilter.thy ===== *)
theory UpdateFilter
  imports UpdateKeeper BufferOps
begin

text \<open>
  \<open>desktop/UpdateFilter.cpp\<close>: of the pixels reported as changed, keep those that differ
  between the frame buffer of the server (\<open>old\<close>) and the buffer of the screen driver
  (\<open>new\<close>). The pointers \<open>o_ptr\<close> and \<open>n_ptr\<close> always have the same offset into the two
  blocks; a read outside a block is \<open>None\<close>.
\<close>

section \<open>Comparisons\<close>

definition BLOCK_SIZE :: int where "BLOCK_SIZE = 32"

text \<open>\<open>memcmp(o_ptr, n_ptr, len) != 0\<close>\<close>

definition differ :: "frame_buffer \<Rightarrow> frame_buffer \<Rightarrow> int \<Rightarrow> int \<Rightarrow> bool option" where
  "differ old new off len =
     (case (load off len (buffer old), load off len (buffer new)) of
        (Some a, Some b) \<Rightarrow> Some (a \<noteq> b)
      | _ \<Rightarrow> None)"

definition byte_at :: "frame_buffer \<Rightarrow> int \<Rightarrow> 8 word option" where
  "byte_at fb off = (if in_block off 1 (buffer fb) then Some (peek (buffer fb) off) else None)"

section \<open>One rectangle with changes: trimming it\<close>

text \<open>The last line that differs, from below; \<open>tp + 1\<close> when there is none below \<open>tp\<close>.\<close>

function trim_bottom :: "frame_buffer \<Rightarrow> frame_buffer \<Rightarrow> int \<Rightarrow> int \<Rightarrow> int \<Rightarrow> int \<Rightarrow> int option" where
  "trim_bottom old new len tp y off =
     (if y > tp then
        (case differ old new off len of
           None \<Rightarrow> None
         | Some d \<Rightarrow> if d then Some (y + 1) else trim_bottom old new len tp (y - 1) (off - getBytesPerRow old))
      else Some (tp + 1))"
  by pat_completeness auto
termination
  by (relation "measure (\<lambda>(old, new, len, tp, y, off). nat (y - tp))") auto

declare trim_bottom.simps [simp del]

text \<open>The inner loops over the bytes of a line, from the left and from the right.\<close>

function left_scan :: "frame_buffer \<Rightarrow> frame_buffer \<Rightarrow> int \<Rightarrow> int \<Rightarrow> int \<Rightarrow> int \<Rightarrow> int option" where
  "left_scan old new off bytes_in_row i left_delta =
     (if i < bytes_in_row - 1 then
        (case (byte_at new (off + i), byte_at old (off + i)) of
           (Some a, Some b) \<Rightarrow>
             if a \<noteq> b then Some (if i < left_delta then i else left_delta)
             else left_scan old new off bytes_in_row (i + 1) left_delta
         | _ \<Rightarrow> None)
      else Some left_delta)"
  by pat_completeness auto
termination
  by (relation "measure (\<lambda>(old, new, off, bytes_in_row, i, left_delta). nat (bytes_in_row - 1 - i))") auto

declare left_scan.simps [simp del]

function right_scan :: "frame_buffer \<Rightarrow> frame_buffer \<Rightarrow> int \<Rightarrow> int \<Rightarrow> int \<Rightarrow> int option" where
  "right_scan old new off i right_delta =
     (if i > 0 then
        (case (byte_at new (off + i), byte_at old (off + i)) of
           (Some a, Some b) \<Rightarrow>
             if a \<noteq> b then Some (if i > right_delta then i else right_delta)
             else right_scan old new off (i - 1) right_delta
         | _ \<Rightarrow> None)
      else Some right_delta)"
  by pat_completeness auto
termination
  by (relation "measure (\<lambda>(old, new, off, i, right_delta). nat i)") auto

declare right_scan.simps [simp del]

function trim_sides :: "frame_buffer \<Rightarrow> frame_buffer \<Rightarrow> int \<Rightarrow> int \<Rightarrow> int \<Rightarrow> int \<Rightarrow> int \<Rightarrow> int \<Rightarrow> (int \<times> int) option" where
  "trim_sides old new bytes_in_row bottom y off left_delta right_delta =
     (if y < bottom then
        (case left_scan old new off bytes_in_row 0 left_delta of
           None \<Rightarrow> None
         | Some left_delta \<Rightarrow>
             (case right_scan old new off (bytes_in_row - 1) right_delta of
                None \<Rightarrow> None
              | Some right_delta \<Rightarrow>
                  trim_sides old new bytes_in_row bottom (y + 1) (off + getBytesPerRow old) left_delta right_delta))
      else Some (left_delta, right_delta))"
  by pat_completeness auto
termination
  by (relation "measure (\<lambda>(old, new, bytes_in_row, bottom, y, off, left_delta, right_delta). nat (bottom - y))") auto

declare trim_sides.simps [simp del]

definition updateChangedSubRect :: "allocator \<Rightarrow> frame_buffer \<Rightarrow> frame_buffer \<Rightarrow> rect \<Rightarrow> region \<Rightarrow> region option" where
  "updateChangedSubRect ok old new rect rgn =
     (let bytesPerPixel = getBytesPerPixel old;
          bytes_in_row = (rright rect - rleft rect) * bytesPerPixel;
          bytesPerRow = getBytesPerRow old
      in case trim_bottom old new bytes_in_row (rtop rect) (rbottom rect - 1)
                ((rbottom rect - 1) * bytesPerRow + rleft rect * bytesPerPixel) of
           None \<Rightarrow> None
         | Some bottom \<Rightarrow>
             (case trim_sides old new bytes_in_row bottom (rtop rect) (rtop rect * bytesPerRow + rleft rect * bytesPerPixel)
                     (bytes_in_row - 1) 0 of
                None \<Rightarrow> None
              | Some (left_delta, right_delta) \<Rightarrow>
                  Some (fst (Region_addRect ok rgn
                    (setRect (rleft rect + left_delta div bytesPerPixel) (rtop rect)
                       (rleft rect + right_delta div bytesPerPixel + 1) bottom)))))"

section \<open>A bigger rectangle: blocks\<close>

text \<open>The first line of a block that differs, \<open>blockbottom\<close> when there is none.\<close>

function block_scan :: "frame_buffer \<Rightarrow> frame_buffer \<Rightarrow> int \<Rightarrow> int \<Rightarrow> int \<Rightarrow> int \<Rightarrow> int option" where
  "block_scan old new len blockbottom ay off =
     (if ay < blockbottom then
        (case differ new old off len of
           None \<Rightarrow> None
         | Some d \<Rightarrow> if d then Some ay else block_scan old new len blockbottom (ay + 1) (off + getBytesPerRow old))
      else Some ay)"
  by pat_completeness auto
termination
  by (relation "measure (\<lambda>(old, new, len, blockbottom, ay, off). nat (blockbottom - ay))") auto

declare block_scan.simps [simp del]

text \<open>The way across a row of blocks: \<open>left\<close> (\<open>-1\<close>: none) and \<open>tp\<close> are those of \<open>new_rect\<close>.\<close>

function block_cols ::
  "allocator \<Rightarrow> frame_buffer \<Rightarrow> frame_buffer \<Rightarrow> rect \<Rightarrow> int \<Rightarrow> int \<Rightarrow> int \<Rightarrow> int \<Rightarrow> int \<Rightarrow> int \<Rightarrow> region \<Rightarrow> (int \<times> int \<times> region) option" where
  "block_cols ok old new rect y blockbottom x off left tp rgn =
     (if x < rright rect then
        (let blockright = min (x + BLOCK_SIZE) (rright rect);
             bytesPerBlockRow = (blockright - x) * getBytesPerPixel old
         in case block_scan old new bytesPerBlockRow blockbottom y off of
              None \<Rightarrow> None
            | Some ay \<Rightarrow>
                if ay < blockbottom then
                  (let tp = (if left = - 1 then ay else if ay < tp then ay else tp);
                       left = (if left = - 1 then x else left)
                   in block_cols ok old new rect y blockbottom (x + BLOCK_SIZE) (off + bytesPerBlockRow) left tp rgn)
                else if left \<noteq> - 1 then
                  (case updateChangedSubRect ok old new (setRect left tp x blockbottom) rgn of
                     None \<Rightarrow> None
                   | Some rgn \<Rightarrow>
                       block_cols ok old new rect y blockbottom (x + BLOCK_SIZE) (off + bytesPerBlockRow) (- 1) tp rgn)
                else block_cols ok old new rect y blockbottom (x + BLOCK_SIZE) (off + bytesPerBlockRow) left tp rgn)
      else Some (left, tp, rgn))"
  by pat_completeness auto
termination
  by (relation "measure (\<lambda>(ok, old, new, rect, y, blockbottom, x, off, left, tp, rgn). nat (rright rect - x))")
    (auto simp: BLOCK_SIZE_def)

declare block_cols.simps [simp del]

function block_bands :: "allocator \<Rightarrow> frame_buffer \<Rightarrow> frame_buffer \<Rightarrow> rect \<Rightarrow> int \<Rightarrow> int \<Rightarrow> int \<Rightarrow> region \<Rightarrow> region option" where
  "block_bands ok old new rect y off tp rgn =
     (if y < rbottom rect then
        (let blockbottom = min (y + BLOCK_SIZE) (rbottom rect) in
         case block_cols ok old new rect y blockbottom (rleft rect) off (- 1) tp rgn of
           None \<Rightarrow> None
         | Some (left, tp, rgn) \<Rightarrow>
             (case (if left \<noteq> - 1 then updateChangedSubRect ok old new (setRect left tp (rright rect) blockbottom) rgn
                    else Some rgn) of
                None \<Rightarrow> None
              | Some rgn \<Rightarrow>
                  block_bands ok old new rect (y + BLOCK_SIZE) (off + getBytesPerRow old * BLOCK_SIZE) tp rgn))
      else Some rgn)"
  by pat_completeness auto
termination
  by (relation "measure (\<lambda>(ok, old, new, rect, y, off, tp, rgn). nat (rbottom rect - y))") (auto simp: BLOCK_SIZE_def)

declare block_bands.simps [simp del]

definition updateChangedRect :: "allocator \<Rightarrow> frame_buffer \<Rightarrow> frame_buffer \<Rightarrow> rect \<Rightarrow> region \<Rightarrow> region option" where
  "updateChangedRect ok old new rect rgn =
     (if rright rect - rleft rect \<le> BLOCK_SIZE \<and> rbottom rect - rtop rect \<le> BLOCK_SIZE
      then updateChangedSubRect ok old new rect rgn
      else block_bands ok old new rect (rtop rect) (rtop rect * getBytesPerRow old + rleft rect * getBytesPerPixel old) 0 rgn)"

section \<open>Any rectangle\<close>

function small_scan :: "allocator \<Rightarrow> frame_buffer \<Rightarrow> frame_buffer \<Rightarrow> rect \<Rightarrow> int \<Rightarrow> int \<Rightarrow> int \<Rightarrow> region \<Rightarrow> region option" where
  "small_scan ok old new rect len y off rgn =
     (if y < rbottom rect then
        (case differ old new off len of
           None \<Rightarrow> None
         | Some d \<Rightarrow>
             if d then updateChangedSubRect ok old new (rect\<lparr>rtop := y\<rparr>) rgn
             else small_scan ok old new rect len (y + 1) (off + getBytesPerRow old) rgn)
      else Some rgn)"
  by pat_completeness auto
termination
  by (relation "measure (\<lambda>(ok, old, new, rect, len, y, off, rgn). nat (rbottom rect - y))") auto

declare small_scan.simps [simp del]

text \<open>
  The scan of a bigger rectangle: \<open>tp\<close> is \<open>new_rect.top\<close>, \<open>-1\<close> outside a changed stripe.
  After a line that differs, \<open>BLOCK_SIZE / 2 - 1\<close> lines are skipped.
\<close>

function big_scan :: "allocator \<Rightarrow> frame_buffer \<Rightarrow> frame_buffer \<Rightarrow> rect \<Rightarrow> int \<Rightarrow> int \<Rightarrow> int \<Rightarrow> int \<Rightarrow> region \<Rightarrow> (int \<times> region) option" where
  "big_scan ok old new rect len y off tp rgn =
     (if y < rbottom rect then
        (case differ old new off len of
           None \<Rightarrow> None
         | Some d \<Rightarrow>
             if d then
               (let n = BLOCK_SIZE div 2 - 1 in
                big_scan ok old new rect len (y + n + 1) (off + n * getBytesPerRow old + getBytesPerRow old)
                  (if tp = - 1 then y else tp) rgn)
             else if tp \<noteq> - 1 then
               (case updateChangedRect ok old new (rect\<lparr>rtop := tp, rbottom := y\<rparr>) rgn of
                  None \<Rightarrow> None
                | Some rgn \<Rightarrow> big_scan ok old new rect len (y + 1) (off + getBytesPerRow old) (- 1) rgn)
             else big_scan ok old new rect len (y + 1) (off + getBytesPerRow old) tp rgn)
      else Some (tp, rgn))"
  by pat_completeness auto
termination
  by (relation "measure (\<lambda>(ok, old, new, rect, len, y, off, tp, rgn). nat (rbottom rect - y))") (auto simp: BLOCK_SIZE_def)

declare big_scan.simps [simp del]

definition getChangedRegion :: "allocator \<Rightarrow> frame_buffer \<Rightarrow> frame_buffer \<Rightarrow> rect \<Rightarrow> region \<Rightarrow> region option" where
  "getChangedRegion ok old new rect rgn =
     (let bytesPerPixel = getBytesPerPixel old;
          bytes_per_scanline = (rright rect - rleft rect) * bytesPerPixel;
          offset = rtop rect * getBytesPerRow old + rleft rect * bytesPerPixel
      in if rright rect - rleft rect \<le> BLOCK_SIZE \<and> rbottom rect - rtop rect \<le> BLOCK_SIZE
         then small_scan ok old new rect bytes_per_scanline (rtop rect) offset rgn
         else
           (case big_scan ok old new rect bytes_per_scanline (rtop rect) offset (- 1) rgn of
              None \<Rightarrow> None
            | Some (tp, rgn) \<Rightarrow>
                if tp \<noteq> - 1 then updateChangedRect ok old new (rect\<lparr>rtop := tp, rbottom := rbottom rect\<rparr>) rgn
                else Some rgn))"

section \<open>The filter\<close>

fun move_all :: "rect list \<Rightarrow> point \<Rightarrow> frame_buffer \<Rightarrow> frame_buffer option" where
  "move_all [] src fb = Some fb"
| "move_all (r # rs) src fb =
     (case move_fb r (px src) (py src) fb of None \<Rightarrow> None | Some fb \<Rightarrow> move_all rs src fb)"

fun changed_all :: "allocator \<Rightarrow> frame_buffer \<Rightarrow> frame_buffer \<Rightarrow> rect list \<Rightarrow> region \<Rightarrow> region option" where
  "changed_all ok old new [] rgn = Some rgn"
| "changed_all ok old new (r # rs) rgn =
     (case getChangedRegion ok old new r rgn of None \<Rightarrow> None | Some rgn \<Rightarrow> changed_all ok old new rs rgn)"

fun copy_all :: "rect list \<Rightarrow> frame_buffer \<Rightarrow> frame_buffer \<Rightarrow> frame_buffer option" where
  "copy_all [] new fb = Some fb"
| "copy_all (r # rs) new fb =
     (case copyFrom r new (rleft r) (rtop r) fb of None \<Rightarrow> None | Some (_, fb) \<Rightarrow> copy_all rs new fb)"

text \<open>
  The state is the container, the frame buffer and the buffer of the screen driver.
  \<open>grab\<close> stands for the screen driver, which copies the screen at a region into its buffer
  or throws (\<open>None\<close>). The outer \<open>None\<close> is an access outside a block.
\<close>

definition filter_updates ::
  "allocator \<Rightarrow> (region \<Rightarrow> frame_buffer \<Rightarrow> frame_buffer option) \<Rightarrow> update_container \<Rightarrow> frame_buffer \<Rightarrow> frame_buffer \<Rightarrow>
   (update_container \<times> frame_buffer \<times> frame_buffer) option" where
  "filter_updates ok grab uc fb screen =
     (if \<not> fb_isEqualTo screen fb then Some (uc, fb, screen) else
      let toCheck = Region_copy ok (changedRegion uc);
          toCheck = Region_add ok toCheck (copiedRegion uc);
          toCheck = Region_add ok toCheck (videoRegion uc)
      in case move_all (Region_getRectVector (copiedRegion uc)) (copySrc uc) fb of
           None \<Rightarrow> None
         | Some fb \<Rightarrow>
             (case grab toCheck screen of
                None \<Rightarrow> Some (uc, fb, screen)
              | Some screen \<Rightarrow>
                  (case changed_all ok fb screen (Region_getRectVector toCheck) (Region_clear (changedRegion uc)) of
                     None \<Rightarrow> None
                   | Some changed \<Rightarrow>
                       (case copy_all (Region_getRectVector changed) screen fb of
                          None \<Rightarrow> None
                        | Some fb \<Rightarrow> Some (uc\<lparr>changedRegion := changed\<rparr>, fb, screen)))))"

end
