(* ===== verification/FilterRows.thy ===== *)
theory FilterRows
  imports UpdateFilter
begin

text \<open>
  The loops of the update filter on one rectangle, in terms of pixels: what
  \<open>updateChangedSubRect\<close> adds to a region covers every pixel of its rectangle that differs
  between the two buffers and stays inside the rectangle.
\<close>

section \<open>Two buffers of the same shape\<close>

definition same_shape :: "frame_buffer \<Rightarrow> frame_buffer \<Rightarrow> bool" where
  "same_shape old new \<longleftrightarrow> fb_ok old \<and> fb_ok new \<and> dim old = dim new \<and> fmt old = fmt new"

definition changed :: "frame_buffer \<Rightarrow> frame_buffer \<Rightarrow> int \<Rightarrow> int \<Rightarrow> bool" where
  "changed old new x y \<longleftrightarrow> pixel old x y \<noteq> pixel new x y"

definition rect_inside :: "frame_buffer \<Rightarrow> rect \<Rightarrow> bool" where
  "rect_inside fb r \<longleftrightarrow> 0 \<le> rleft r \<and> rleft r < rright r \<and> rright r \<le> width (dim fb) \<and>
     0 \<le> rtop r \<and> rtop r < rbottom r \<and> rbottom r \<le> height (dim fb)"

text \<open>\<open>finds old new A rgn rgn'\<close>: the changed pixels of the area \<open>A\<close> were added, and nothing outside it.\<close>

definition finds :: "frame_buffer \<Rightarrow> frame_buffer \<Rightarrow> (int \<Rightarrow> int \<Rightarrow> bool) \<Rightarrow> region \<Rightarrow> region \<Rightarrow> bool" where
  "finds old new A rgn rgn' \<longleftrightarrow> region_ok rgn' \<and>
     (\<forall>x y. pixels rgn x y \<or> A x y \<and> changed old new x y \<longrightarrow> pixels rgn' x y) \<and>
     (\<forall>x y. pixels rgn' x y \<longrightarrow> pixels rgn x y \<or> A x y)"

lemma finds_refl: "region_ok rgn \<Longrightarrow> (\<And>x y. A x y \<Longrightarrow> \<not> changed old new x y) \<Longrightarrow> finds old new A rgn rgn"
  by (auto simp: finds_def)

lemma finds_trans:
  assumes "finds old new A rgn1 rgn2" "finds old new B rgn2 rgn3"
    "\<And>x y. C x y \<Longrightarrow> changed old new x y \<Longrightarrow> A x y \<or> B x y" "\<And>x y. A x y \<or> B x y \<Longrightarrow> C x y"
  shows "finds old new C rgn1 rgn3"
  using assms unfolding finds_def by metis

lemma finds_mono:
  assumes "finds old new A rgn rgn'" "\<And>x y. C x y \<Longrightarrow> changed old new x y \<Longrightarrow> A x y" "\<And>x y. A x y \<Longrightarrow> C x y"
  shows "finds old new C rgn rgn'"
  using assms unfolding finds_def by metis

lemma finds_ok: "finds old new A rgn rgn' \<Longrightarrow> region_ok rgn'"
  by (simp add: finds_def)

lemma same_shapeD:
  assumes "same_shape old new"
  shows "fb_ok old" "fb_ok new" "pixel_size new = pixel_size old" "stride new = stride old"
    "int (length (buffer old)) = height (dim old) * stride old" "int (length (buffer new)) = height (dim old) * stride old"
    "getBytesPerRow old = stride old" "getBytesPerPixel old = pixel_size old"
  using assms by (auto simp: same_shape_def pixel_size_def stride_def fb_ok_def getBytesPerRow_ok getBytesPerPixel_ok)

lemma same_shape_sym: "same_shape old new \<Longrightarrow> same_shape new old"
  by (simp add: same_shape_def)

section \<open>Lines\<close>

definition line_differs :: "frame_buffer \<Rightarrow> frame_buffer \<Rightarrow> int \<Rightarrow> int \<Rightarrow> int \<Rightarrow> bool" where
  "line_differs old new l r y \<longleftrightarrow> (\<exists>x. l \<le> x \<and> x < r \<and> changed old new x y)"

lemma differ_cmp_rows: "differ old new off len = map_option Not (cmp_rows 1 len ds ss off off (buffer new) (buffer old))"
  by (auto simp: differ_def split: option.splits)

lemma differ_ok:
  assumes s: "same_shape old new" and x: "0 \<le> l" "l \<le> r" "r \<le> width (dim old)" and y: "0 \<le> y" "y < height (dim old)"
  shows "differ old new (y * stride old + l * pixel_size old) ((r - l) * pixel_size old) = Some (line_differs old new l r y)"
proof -
  note d = same_shapeD [OF s]
  note c = column_range [OF d(1) x(1,3,2)]
  have one: "nat (y + 1 - y) = 1" by simp
  have "cmp_rows 1 ((r - l) * pixel_size old) (stride old) (stride old) (y * stride old + l * pixel_size old)
      (y * stride old + l * pixel_size old) (buffer new) (buffer old) =
    Some (\<forall>k. l * pixel_size old \<le> k \<longrightarrow> k < r * pixel_size old \<longrightarrow>
      peek (buffer old) (y * stride old + k) = peek (buffer new) (y * stride old + k))"
    using cmp_rows_block [OF d(5,6) c(1,2) c(1,2,3) y(1), of "y + 1" 0, unfolded one c(4)] y by auto
  also have "(\<forall>k. l * pixel_size old \<le> k \<longrightarrow> k < r * pixel_size old \<longrightarrow>
      peek (buffer old) (y * stride old + k) = peek (buffer new) (y * stride old + k)) \<longleftrightarrow> \<not> line_differs old new l r y"
    using pixel_eq_columns [OF d(1,3) x(1,3), of y 0 y] unfolding line_differs_def changed_def by (auto simp: d(4))
  finally show ?thesis by (simp add: differ_cmp_rows [of old new _ _ "stride old" "stride old"])
qed

lemma line_differs_sym: "line_differs new old l r y = line_differs old new l r y"
  by (auto simp: line_differs_def changed_def)

lemma differ_sym_ok:
  assumes s: "same_shape old new" and x: "0 \<le> l" "l \<le> r" "r \<le> width (dim old)" and y: "0 \<le> y" "y < height (dim old)"
  shows "differ new old (y * stride old + l * pixel_size old) ((r - l) * pixel_size old) = Some (line_differs old new l r y)"
proof -
  have "dim new = dim old" using s by (simp add: same_shape_def)
  then show ?thesis
    using differ_ok [OF same_shape_sym [OF s] x(1,2), of y] x(3) y same_shapeD(3,4) [OF s] line_differs_sym by simp
qed

text \<open>The next line down or up.\<close>

lemma line_up: "y * S + p + S = (y + 1) * S + (p :: int)" and line_down: "y * S + p - S = (y - 1) * S + (p :: int)"
  by (simp_all add: algebra_simps)

lemma trim_bottom_ok:
  assumes s: "same_shape old new" and x: "0 \<le> l" "l \<le> r" "r \<le> width (dim old)"
    and y: "0 \<le> tp" "tp \<le> y" "y < height (dim old)"
  shows "\<exists>b. trim_bottom old new ((r - l) * pixel_size old) tp y (y * stride old + l * pixel_size old) = Some b \<and>
    tp < b \<and> b \<le> y + 1 \<and> (\<forall>v. b \<le> v \<longrightarrow> v \<le> y \<longrightarrow> \<not> line_differs old new l r v)"
  using y
proof (induction "nat (y - tp)" arbitrary: y)
  case 0
  then show ?case by (subst trim_bottom.simps) auto
next
  case (Suc n)
  have y: "tp < y" "0 \<le> y" using Suc.hyps(2) Suc.prems by linarith+
  note d = differ_ok [OF s x y(2) Suc.prems(3)]
  note row = same_shapeD(7) [OF s]
  show ?case
  proof (cases "line_differs old new l r y")
    case True
    then show ?thesis using y d by (subst trim_bottom.simps) auto
  next
    case False
    have "\<exists>b. trim_bottom old new ((r - l) * pixel_size old) tp (y - 1) ((y - 1) * stride old + l * pixel_size old) = Some b \<and>
      tp < b \<and> b \<le> y - 1 + 1 \<and> (\<forall>v. b \<le> v \<longrightarrow> v \<le> y - 1 \<longrightarrow> \<not> line_differs old new l r v)"
      by (rule Suc.hyps(1)) (use Suc.hyps(2) Suc.prems y in auto)
    then obtain b where b: "trim_bottom old new ((r - l) * pixel_size old) tp (y - 1) ((y - 1) * stride old + l * pixel_size old) = Some b"
        "tp < b" "b \<le> y" "\<And>v. b \<le> v \<Longrightarrow> v \<le> y - 1 \<Longrightarrow> \<not> line_differs old new l r v" by auto
    have "trim_bottom old new ((r - l) * pixel_size old) tp y (y * stride old + l * pixel_size old) = Some b"
      using y(1) d False b(1) by (subst trim_bottom.simps) (simp add: row line_down)
    moreover have "\<not> line_differs old new l r v" if "b \<le> v" "v \<le> y" for v
      using b(4) [of v] that False by (cases "v = y") auto
    ultimately show ?thesis using b(2,3) by auto
  qed
qed

lemma block_scan_ok:
  assumes s: "same_shape old new" and x: "0 \<le> l" "l \<le> r" "r \<le> width (dim old)"
    and y: "0 \<le> y" "y \<le> bb" "bb \<le> height (dim old)"
  shows "\<exists>a. block_scan old new ((r - l) * pixel_size old) bb y (y * stride old + l * pixel_size old) = Some a \<and>
    y \<le> a \<and> a \<le> bb \<and> (\<forall>v. y \<le> v \<longrightarrow> v < a \<longrightarrow> \<not> line_differs old new l r v)"
  using y
proof (induction "nat (bb - y)" arbitrary: y)
  case 0
  then show ?case by (subst block_scan.simps) auto
next
  case (Suc n)
  have y: "y < bb" "y < height (dim old)" using Suc.hyps(2) Suc.prems by linarith+
  note d = differ_sym_ok [OF s x Suc.prems(1) y(2)]
  show ?case
  proof (cases "line_differs old new l r y")
    case True
    then show ?thesis using y d by (subst block_scan.simps) auto
  next
    case False
    have "\<exists>a. block_scan old new ((r - l) * pixel_size old) bb (y + 1) ((y + 1) * stride old + l * pixel_size old) = Some a \<and>
      y + 1 \<le> a \<and> a \<le> bb \<and> (\<forall>v. y + 1 \<le> v \<longrightarrow> v < a \<longrightarrow> \<not> line_differs old new l r v)"
      by (rule Suc.hyps(1)) (use Suc.hyps(2) Suc.prems y in auto)
    then obtain a where a: "block_scan old new ((r - l) * pixel_size old) bb (y + 1) ((y + 1) * stride old + l * pixel_size old) = Some a"
        "y + 1 \<le> a" "a \<le> bb" "\<And>v. y + 1 \<le> v \<Longrightarrow> v < a \<Longrightarrow> \<not> line_differs old new l r v" by auto
    have "block_scan old new ((r - l) * pixel_size old) bb y (y * stride old + l * pixel_size old) = Some a"
      using y(1) d False a(1) by (subst block_scan.simps) (simp add: same_shapeD(7) [OF s] line_up)
    moreover have "\<not> line_differs old new l r v" if "y \<le> v" "v < a" for v
      using a(4) [of v] that False by (cases "v = y") auto
    ultimately show ?thesis using a(2,3) by auto
  qed
qed

section \<open>Bytes of a line\<close>

lemma left_scan_ok:
  assumes "\<And>j. i \<le> j \<Longrightarrow> j < n \<Longrightarrow> in_block (off + j) 1 (buffer old) \<and> in_block (off + j) 1 (buffer new)"
    and "0 \<le> i" "0 \<le> d"
  shows "\<exists>L. left_scan old new off n i d = Some L \<and> 0 \<le> L \<and> L \<le> d \<and>
    (\<forall>j. i \<le> j \<longrightarrow> j < n - 1 \<longrightarrow> peek (buffer old) (off + j) \<noteq> peek (buffer new) (off + j) \<longrightarrow> L \<le> j)"
  using assms
proof (induction "nat (n - 1 - i)" arbitrary: i)
  case 0
  then show ?case by (subst left_scan.simps) auto
next
  case (Suc k)
  have i: "i < n - 1" using Suc.hyps(2) by linarith
  then have b: "byte_at new (off + i) = Some (peek (buffer new) (off + i))" "byte_at old (off + i) = Some (peek (buffer old) (off + i))"
    using Suc.prems(1) [of i] by (simp_all add: byte_at_def)
  show ?case
  proof (cases "peek (buffer new) (off + i) = peek (buffer old) (off + i)")
    case True
    have "\<exists>L. left_scan old new off n (i + 1) d = Some L \<and> 0 \<le> L \<and> L \<le> d \<and>
      (\<forall>j. i + 1 \<le> j \<longrightarrow> j < n - 1 \<longrightarrow> peek (buffer old) (off + j) \<noteq> peek (buffer new) (off + j) \<longrightarrow> L \<le> j)"
      by (rule Suc.hyps(1)) (use Suc.hyps(2) Suc.prems in auto)
    then obtain L where L: "left_scan old new off n (i + 1) d = Some L" "0 \<le> L" "L \<le> d"
        "\<And>j. i + 1 \<le> j \<Longrightarrow> j < n - 1 \<Longrightarrow> peek (buffer old) (off + j) \<noteq> peek (buffer new) (off + j) \<Longrightarrow> L \<le> j" by auto
    have "left_scan old new off n i d = Some L" using L(1) True i b by (subst left_scan.simps) simp
    moreover have "L \<le> j" if "i \<le> j" "j < n - 1" "peek (buffer old) (off + j) \<noteq> peek (buffer new) (off + j)" for j
      using L(4) [of j] that True by (cases "j = i") auto
    ultimately show ?thesis using L(2,3) by auto
  next
    case False
    then have "left_scan old new off n i d = Some (if i < d then i else d)" using i b by (subst left_scan.simps) simp
    then show ?thesis using Suc.prems(2,3) by auto
  qed
qed

lemma right_scan_ok:
  assumes "\<And>j. 0 < j \<Longrightarrow> j \<le> i \<Longrightarrow> in_block (off + j) 1 (buffer old) \<and> in_block (off + j) 1 (buffer new)"
  shows "\<exists>R. right_scan old new off i d = Some R \<and> d \<le> R \<and> (R = d \<or> R \<le> i) \<and>
    (\<forall>j. 0 < j \<longrightarrow> j \<le> i \<longrightarrow> peek (buffer old) (off + j) \<noteq> peek (buffer new) (off + j) \<longrightarrow> j \<le> R)"
  using assms
proof (induction "nat i" arbitrary: i)
  case 0
  then show ?case by (subst right_scan.simps) auto
next
  case (Suc k)
  have i: "0 < i" using Suc.hyps(2) by linarith
  then have b: "byte_at new (off + i) = Some (peek (buffer new) (off + i))" "byte_at old (off + i) = Some (peek (buffer old) (off + i))"
    using Suc.prems [of i] by (simp_all add: byte_at_def)
  show ?case
  proof (cases "peek (buffer new) (off + i) = peek (buffer old) (off + i)")
    case True
    have "\<exists>R. right_scan old new off (i - 1) d = Some R \<and> d \<le> R \<and> (R = d \<or> R \<le> i - 1) \<and>
      (\<forall>j. 0 < j \<longrightarrow> j \<le> i - 1 \<longrightarrow> peek (buffer old) (off + j) \<noteq> peek (buffer new) (off + j) \<longrightarrow> j \<le> R)"
      by (rule Suc.hyps(1)) (use Suc.hyps(2) Suc.prems in auto)
    then obtain R where R: "right_scan old new off (i - 1) d = Some R" "d \<le> R" "R = d \<or> R \<le> i - 1"
        "\<And>j. 0 < j \<Longrightarrow> j \<le> i - 1 \<Longrightarrow> peek (buffer old) (off + j) \<noteq> peek (buffer new) (off + j) \<Longrightarrow> j \<le> R" by auto
    have "right_scan old new off i d = Some R" using R(1) True i b by (subst right_scan.simps) simp
    moreover have "j \<le> R" if "0 < j" "j \<le> i" "peek (buffer old) (off + j) \<noteq> peek (buffer new) (off + j)" for j
      using R(4) [of j] that True by (cases "j = i") auto
    ultimately show ?thesis using R(2,3) by auto
  next
    case False
    then have "right_scan old new off i d = Some (if i > d then i else d)" using i b by (subst right_scan.simps) simp
    then show ?thesis by auto
  qed
qed

end
