(* ===== verification/FilterRects.thy ===== *)
theory FilterRects
  imports FilterRows
begin

text \<open>From lines to rectangles: the trimming of one rectangle, the blocks of a bigger one.\<close>

section \<open>Trimming\<close>

text \<open>
  Byte \<open>j\<close> of the part of line \<open>y\<close> from column \<open>l\<close> to \<open>r\<close> belongs to the pixel \<open>j div P\<close>
  places to the right of \<open>l\<close>.
\<close>

definition byte_differs :: "frame_buffer \<Rightarrow> frame_buffer \<Rightarrow> int \<Rightarrow> int \<Rightarrow> int \<Rightarrow> bool" where
  "byte_differs old new l y j \<longleftrightarrow>
     peek (buffer old) (y * stride old + l * pixel_size old + j) \<noteq> peek (buffer new) (y * stride old + l * pixel_size old + j)"

lemma changed_byte:
  assumes s: "same_shape old new" and c: "changed old new x y"
  obtains k where "0 \<le> k" "k < pixel_size old" "byte_differs old new l y ((x - l) * pixel_size old + k)"
proof -
  note d = same_shapeD [OF s]
  have "\<exists>k. 0 \<le> k \<and> k < pixel_size old \<and>
      peek (buffer old) (y * stride old + (x * pixel_size old + k)) \<noteq> peek (buffer new) (y * stride new + (x * pixel_size new + k))"
    using c pixel_eqI [of old new y x y x] d(3) unfolding changed_def by metis
  then obtain k where k: "0 \<le> k" "k < pixel_size old"
      "peek (buffer old) (y * stride old + (x * pixel_size old + k)) \<noteq> peek (buffer new) (y * stride old + (x * pixel_size old + k))"
    unfolding d(3,4) by blast
  have e: "y * stride old + l * pixel_size old + ((x - l) * pixel_size old + k) = y * stride old + (x * pixel_size old + k)"
    by (simp add: algebra_simps)
  show thesis by (rule that [OF k(1,2)]) (simp only: byte_differs_def e k(3) not_False_eq_True)
qed

lemma trim_sides_ok:
  assumes s: "same_shape old new" and x: "0 \<le> l" "l < r" "r \<le> width (dim old)"
    and y: "0 \<le> y" "y \<le> bottom" "bottom \<le> height (dim old)"
    and n: "n = (r - l) * pixel_size old" and ld: "0 \<le> ld" "ld \<le> n - 1" and rd: "0 \<le> rd" "rd \<le> n - 1"
  shows "\<exists>L R. trim_sides old new n bottom y (y * stride old + l * pixel_size old) ld rd = Some (L, R) \<and>
    0 \<le> L \<and> L \<le> ld \<and> rd \<le> R \<and> R \<le> n - 1 \<and>
    (\<forall>v j. y \<le> v \<longrightarrow> v < bottom \<longrightarrow> 0 \<le> j \<longrightarrow> j < n \<longrightarrow> byte_differs old new l v j \<longrightarrow> L \<le> j \<and> j \<le> R)"
  using y ld rd
proof (induction "nat (bottom - y)" arbitrary: y ld rd)
  case 0
  then show ?case by (subst trim_sides.simps) auto
next
  case (Suc k)
  note d = same_shapeD [OF s]
  define off where "off = y * stride old + l * pixel_size old"
  have y: "y < bottom" "y < height (dim old)" using Suc.hyps(2) Suc.prems by linarith+
  have in_row: "in_block (off + j) 1 (buffer old) \<and> in_block (off + j) 1 (buffer new)" if "0 \<le> j" "j < n" for j
  proof -
    have "0 \<le> l * pixel_size old + j" "l * pixel_size old + j + 1 \<le> stride old"
      using column_range [OF d(1) x(1,3) less_imp_le [OF x(2)]] that n by linarith+
    from row_in_block [OF Suc.prems(1) y(2) this _ d(5)] row_in_block [OF Suc.prems(1) y(2) this _ d(6)]
    show ?thesis by (simp add: off_def add.assoc)
  qed
  obtain L where L: "left_scan old new off n 0 ld = Some L" "0 \<le> L" "L \<le> ld"
      "\<And>j. 0 \<le> j \<Longrightarrow> j < n - 1 \<Longrightarrow> peek (buffer old) (off + j) \<noteq> peek (buffer new) (off + j) \<Longrightarrow> L \<le> j"
    using left_scan_ok [of 0 n off old new ld] in_row Suc.prems(4) by auto
  obtain R where R: "right_scan old new off (n - 1) rd = Some R" "rd \<le> R" "R \<le> n - 1"
      "\<And>j. 0 < j \<Longrightarrow> j \<le> n - 1 \<Longrightarrow> peek (buffer old) (off + j) \<noteq> peek (buffer new) (off + j) \<Longrightarrow> j \<le> R"
    using right_scan_ok [of "n - 1" off old new rd] in_row Suc.prems(7) by fastforce
  have "\<exists>L' R'. trim_sides old new n bottom (y + 1) ((y + 1) * stride old + l * pixel_size old) L R = Some (L', R') \<and>
    0 \<le> L' \<and> L' \<le> L \<and> R \<le> R' \<and> R' \<le> n - 1 \<and>
    (\<forall>v j. y + 1 \<le> v \<longrightarrow> v < bottom \<longrightarrow> 0 \<le> j \<longrightarrow> j < n \<longrightarrow> byte_differs old new l v j \<longrightarrow> L' \<le> j \<and> j \<le> R')"
    by (rule Suc.hyps(1)) (use Suc.hyps(2) Suc.prems y L R in auto)
  then obtain L' R' where t: "trim_sides old new n bottom (y + 1) ((y + 1) * stride old + l * pixel_size old) L R = Some (L', R')"
      "0 \<le> L'" "L' \<le> L" "R \<le> R'" "R' \<le> n - 1"
      "\<And>v j. y + 1 \<le> v \<Longrightarrow> v < bottom \<Longrightarrow> 0 \<le> j \<Longrightarrow> j < n \<Longrightarrow> byte_differs old new l v j \<Longrightarrow> L' \<le> j \<and> j \<le> R'"
    by auto
  have "trim_sides old new n bottom y off ld rd = Some (L', R')"
    using y(1) L(1) R(1) t(1) by (subst trim_sides.simps) (simp add: d(7) off_def line_up)
  moreover have "L' \<le> j \<and> j \<le> R'" if "y \<le> v" "v < bottom" "0 \<le> j" "j < n" "byte_differs old new l v j" for v j
  proof (cases "v = y")
    case True
    then have "peek (buffer old) (off + j) \<noteq> peek (buffer new) (off + j)" using that(5) by (simp add: byte_differs_def off_def)
    then have "L \<le> j" "j \<le> R" using L(3) R(2) L(4) [of j] R(4) [of j] that Suc.prems(5,6) by linarith+
    then show ?thesis using t(3,4) by linarith
  qed (use t(6) [of v j] that in simp)
  ultimately show ?case unfolding off_def using t(2-5) L(3) R(2) by fastforce
qed

definition screen_ok :: "frame_buffer \<Rightarrow> bool" where
  "screen_ok fb \<longleftrightarrow> width (dim fb) \<le> 32767 \<and> height (dim fb) \<le> 32767"

lemma updateChangedSubRect_ok:
  assumes ok: "alloc_ok ok" and s: "same_shape old new" and sc: "screen_ok old" and r: "rect_inside old rect" and rgn: "region_ok rgn"
  shows "\<exists>rgn'. updateChangedSubRect ok old new rect rgn = Some rgn' \<and> finds old new (isPointInRect rect) rgn rgn'"
proof -
  note d = same_shapeD [OF s]
  define l u t b P n where "l = rleft rect" and "u = rright rect" and "t = rtop rect" and "b = rbottom rect"
    and "P = pixel_size old" and "n = (u - l) * P"
  note v = l_def u_def t_def b_def
  have r: "0 \<le> l" "l < u" "u \<le> width (dim old)" "0 \<le> t" "t < b" "b \<le> height (dim old)" using r by (simp_all add: rect_inside_def v)
  have P: "0 < P" using fb_ok_size_pos [OF d(1)] by (simp add: P_def)
  have n: "P \<le> n" using mult_right_mono [of 1 "u - l" P] r P by (simp add: n_def)
  obtain e where e: "trim_bottom old new n t (b - 1) ((b - 1) * stride old + l * P) = Some e" "t < e" "e \<le> b"
      "\<And>v. e \<le> v \<Longrightarrow> v \<le> b - 1 \<Longrightarrow> \<not> line_differs old new l u v"
    using trim_bottom_ok [OF s r(1) _ r(3,4), of "b - 1"] r unfolding n_def P_def by auto
  have "0 \<le> n - 1" using n P by simp
  then obtain L R where LR: "trim_sides old new n e t (t * stride old + l * P) (n - 1) 0 = Some (L, R)"
      "0 \<le> L" "L \<le> n - 1" "0 \<le> R" "R \<le> n - 1"
      "\<And>v j. t \<le> v \<Longrightarrow> v < e \<Longrightarrow> 0 \<le> j \<Longrightarrow> j < n \<Longrightarrow> byte_differs old new l v j \<Longrightarrow> L \<le> j \<and> j \<le> R"
    using trim_sides_ok [OF s r(1-4), of e n "n - 1" 0] e r unfolding n_def P_def by fastforce
  define f where "f = setRect (l + L div P) t (l + R div P + 1) e"
  have lt: "j div P < u - l" if "j \<le> n - 1" for j
  proof (rule ccontr)
    assume "\<not> j div P < u - l"
    then have "n \<le> j div P * P" unfolding n_def using P by (intro mult_right_mono) simp_all
    also have "\<dots> \<le> j" using P by (simp add: minus_mod_eq_div_mult [symmetric])
    finally show False using that by simp
  qed
  have "0 \<le> L div P" "0 \<le> R div P" using LR P by (simp_all add: pos_imp_zdiv_nonneg_iff)
  then have fr: "l \<le> rleft f" "rleft f < u" "rright f \<le> u" "l < rright f" "rtop f = t" "rbottom f = e"
    using lt [OF LR(3)] lt [OF LR(5)] by (simp_all add: f_def)
  have short: "short_rect f" using fr r e(2,3) sc by (simp add: short_rect_def is_short_def screen_ok_def)
  have "updateChangedSubRect ok old new rect rgn = Some (fst (Region_addRect ok rgn f))"
    using e(1) LR(1) by (simp add: updateChangedSubRect_def Let_def d(7,8) v n_def P_def f_def)
  moreover have "finds old new (isPointInRect rect) rgn (fst (Region_addRect ok rgn f))"
  proof -
    have "isPointInRect f x y" if c: "changed old new x y" and i: "isPointInRect rect x y" for x y
    proof -
      have xy: "l \<le> x" "x < u" "t \<le> y" "y < b" using i by (simp_all add: in_rect v)
      have ye: "y < e"
      proof (rule ccontr)
        assume "\<not> y < e"
        then have "\<not> line_differs old new l u y" using e(4) xy by simp
        then show False using c xy by (auto simp: line_differs_def)
      qed
      obtain k where k: "0 \<le> k" "k < P" "byte_differs old new l y ((x - l) * P + k)"
        using changed_byte [OF s c, of l] unfolding P_def by metis
      have m: "((x - l) * P + k) div P = x - l" using k P by simp
      have "(x - l + 1) * P \<le> n" unfolding n_def using xy P by (intro mult_right_mono) simp_all
      then have "(x - l) * P + k < n" using k by (simp add: algebra_simps)
      moreover have "0 \<le> (x - l) * P + k" using xy k P by simp
      ultimately have "L \<le> (x - l) * P + k" "(x - l) * P + k \<le> R" using LR(6) [OF xy(3) ye _ _ k(3)] by blast+
      then have "L div P \<le> ((x - l) * P + k) div P" "((x - l) * P + k) div P \<le> R div P" using zdiv_mono1 [OF _ P] by blast+
      then have "L div P \<le> x - l" "x - l \<le> R div P" unfolding m by blast+
      then show ?thesis using xy(3) ye by (simp add: in_rect f_def)
    qed
    moreover have "isPointInRect rect x y" if "isPointInRect f x y" for x y
      using that fr e(3) by (auto simp: in_rect v)
    ultimately show ?thesis
      using Region_addRect_ok [OF ok rgn short] unfolding finds_def by auto
  qed
  ultimately show ?thesis by blast
qed

end
