(* ===== verification/FilterBlocks.thy ===== *)
theory FilterBlocks
  imports FilterRects
begin

text \<open>The loops over blocks and stripes, up to \<open>getChangedRegion\<close>.\<close>

section \<open>Blocks\<close>

definition clean :: "frame_buffer \<Rightarrow> frame_buffer \<Rightarrow> int \<Rightarrow> int \<Rightarrow> int \<Rightarrow> int \<Rightarrow> bool" where
  "clean old new l t r b \<longleftrightarrow> (\<forall>x y. l \<le> x \<longrightarrow> x < r \<longrightarrow> t \<le> y \<longrightarrow> y < b \<longrightarrow> \<not> changed old new x y)"

lemma clean_lines: "(\<And>v. t \<le> v \<Longrightarrow> v < b \<Longrightarrow> \<not> line_differs old new l r v) \<Longrightarrow> clean old new l t r b"
  by (auto simp: clean_def line_differs_def)

text \<open>The area from column \<open>l\<close> to \<open>r\<close> of the rows from \<open>t\<close> to \<open>b\<close>.\<close>

definition block :: "int \<Rightarrow> int \<Rightarrow> int \<Rightarrow> int \<Rightarrow> int \<Rightarrow> int \<Rightarrow> bool" where
  "block l t r b x y \<longleftrightarrow> l \<le> x \<and> x < r \<and> t \<le> y \<and> y < b"

lemma in_rect_block: "isPointInRect r = block (rleft r) (rtop r) (rright r) (rbottom r)"
  by (auto simp: block_def in_rect intro!: ext)

lemma finds_empty: "region_ok rgn \<Longrightarrow> r \<le> l \<Longrightarrow> finds old new (block l t r b) rgn rgn"
  by (rule finds_refl) (auto simp: block_def)

text \<open>
  The invariant of the way across a row of blocks: a pending stripe starts at \<open>left\<close>, and
  its rows above \<open>tp\<close> have no changes.
\<close>

definition pending_ok :: "frame_buffer \<Rightarrow> frame_buffer \<Rightarrow> rect \<Rightarrow> int \<Rightarrow> int \<Rightarrow> int \<Rightarrow> int \<Rightarrow> int \<Rightarrow> bool" where
  "pending_ok old new rect y bb x left tp \<longleftrightarrow>
     left = - 1 \<or> rleft rect \<le> left \<and> left < x \<and> y \<le> tp \<and> tp < bb \<and> clean old new left y x tp"

lemma flush_ok:
  assumes ok: "alloc_ok ok" and s: "same_shape old new" and sc: "screen_ok old" and r: "rect_inside old rect" and rgn: "region_ok rgn"
    and y: "rtop rect \<le> y" "bb \<le> rbottom rect" and x: "x \<le> rright rect"
    and p: "pending_ok old new rect y bb x left tp" "left \<noteq> - 1"
  shows "\<exists>rgn'. updateChangedSubRect ok old new (setRect left tp x bb) rgn = Some rgn' \<and>
    finds old new (block left y x bb) rgn rgn'"
proof -
  have i: "rect_inside old (setRect left tp x bb)" using r y x p by (auto simp: rect_inside_def pending_ok_def)
  from updateChangedSubRect_ok [OF ok s sc i rgn]
  obtain rgn' where u: "updateChangedSubRect ok old new (setRect left tp x bb) rgn = Some rgn'"
      "finds old new (block left tp x bb) rgn rgn'" by (auto simp: in_rect_block)
  have "finds old new (block left y x bb) rgn rgn'"
  proof (rule finds_mono [OF u(2)])
    fix v w assume "block left y x bb v w" "changed old new v w"
    moreover have "clean old new left y x tp" using p by (simp add: pending_ok_def)
    ultimately show "block left tp x bb v w" unfolding block_def clean_def by (meson not_le)
  next
    fix v w assume "block left tp x bb v w"
    then show "block left y x bb v w" using p by (simp add: block_def pending_ok_def)
  qed
  with u(1) show ?thesis by blast
qed

lemma block_cols_ok:
  assumes ok: "alloc_ok ok" and s: "same_shape old new" and sc: "screen_ok old" and r: "rect_inside old rect"
    and y: "rtop rect \<le> y" "y < bb" "bb \<le> rbottom rect"
  shows "rleft rect \<le> x \<Longrightarrow> (x < rright rect \<Longrightarrow> off = y * stride old + x * pixel_size old) \<Longrightarrow> region_ok rgn \<Longrightarrow>
    pending_ok old new rect y bb (min x (rright rect)) left tp \<Longrightarrow>
    \<exists>left' tp' rgn'. block_cols ok old new rect y bb x off left tp rgn = Some (left', tp', rgn') \<and>
      pending_ok old new rect y bb (rright rect) left' tp' \<and>
      (left' = - 1 \<or> (if left = - 1 then min x (rright rect) else left) \<le> left') \<and>
      finds old new (block (if left = - 1 then min x (rright rect) else left) y
        (if left' = - 1 then rright rect else left') bb) rgn rgn'"
proof (induction "nat (rright rect - x)" arbitrary: x off left tp rgn rule: less_induct)
  case less
  note d = same_shapeD [OF s]
  have r': "0 \<le> rleft rect" "rright rect \<le> width (dim old)" "0 \<le> rtop rect" "rbottom rect \<le> height (dim old)"
    using r by (simp_all add: rect_inside_def)
  show ?case
  proof (cases "x < rright rect")
    case False
    then have "block_cols ok old new rect y bb x off left tp rgn = Some (left, tp, rgn)" by (subst block_cols.simps) simp
    moreover have "pending_ok old new rect y bb (rright rect) left tp" using less.prems(4) False by simp
    moreover have "finds old new (block (if left = - 1 then min x (rright rect) else left) y
        (if left = - 1 then rright rect else left) bb) rgn rgn"
      using finds_empty [OF less.prems(3)] False by simp
    ultimately show ?thesis using False by auto
  next
    case True
    define e where "e = min (x + BLOCK_SIZE) (rright rect)"
    have e: "x < e" "e \<le> rright rect" "min (x + BLOCK_SIZE) (rright rect) = e" using True by (auto simp: e_def BLOCK_SIZE_def)
    have off: "off = y * stride old + x * pixel_size old" by (rule less.prems(2) [OF True])
    have off': "off + (e - x) * pixel_size old = y * stride old + e * pixel_size old"
      unfolding off by (simp add: algebra_simps)
    have next_off: "x + BLOCK_SIZE < rright rect \<Longrightarrow> off + (e - x) * pixel_size old = y * stride old + (x + BLOCK_SIZE) * pixel_size old"
      unfolding off' by (simp add: e_def)
    have smaller: "nat (rright rect - (x + BLOCK_SIZE)) < nat (rright rect - x)" "rleft rect \<le> x + BLOCK_SIZE"
      using True less.prems(1) by (simp_all add: BLOCK_SIZE_def)
    have minx: "min x (rright rect) = x" using True by simp
    note pend = less.prems(4) [unfolded minx]
    obtain a where a: "block_scan old new ((e - x) * pixel_size old) bb y off = Some a" "y \<le> a" "a \<le> bb"
        "\<And>v. y \<le> v \<Longrightarrow> v < a \<Longrightarrow> \<not> line_differs old new x e v"
      using block_scan_ok [OF s, of x e y bb] less.prems(1) e r' y unfolding off by auto
    have cl: "clean old new x y e a" by (rule clean_lines [OF a(4)])
    note step = block_cols.simps [of ok old new rect y bb x off left tp rgn]
    show ?thesis
    proof (cases "a < bb")
      case hit: True
      define tp1 left1 where "tp1 = (if left = - 1 then a else if a < tp then a else tp)" and "left1 = (if left = - 1 then x else left)"
      have "left1 \<noteq> - 1" using less.prems(1) r'(1) by (auto simp: left1_def)
      have "pending_ok old new rect y bb e left1 tp1"
        using pend cl a(2) hit less.prems(1) e(1) by (auto simp: pending_ok_def left1_def tp1_def clean_def)
      then have p1: "pending_ok old new rect y bb (min (x + BLOCK_SIZE) (rright rect)) left1 tp1" by (simp add: e(3))
      have eq: "block_cols ok old new rect y bb x off left tp rgn =
          block_cols ok old new rect y bb (x + BLOCK_SIZE) (off + (e - x) * pixel_size old) left1 tp1 rgn"
        unfolding step using True hit a(1) by (simp add: e_def [symmetric] d(8) left1_def tp1_def Let_def)
      from less.hyps [OF smaller next_off less.prems(3) p1] \<open>left1 \<noteq> - 1\<close> show ?thesis
        unfolding eq minx left1_def by simp
    next
      case miss: False
      then have ab: "a = bb" using a(3) by simp
      show ?thesis
      proof (cases "left = - 1")
        case none: True
        have p1: "pending_ok old new rect y bb (min (x + BLOCK_SIZE) (rright rect)) left tp" by (simp add: none pending_ok_def)
        have eq: "block_cols ok old new rect y bb x off left tp rgn =
            block_cols ok old new rect y bb (x + BLOCK_SIZE) (off + (e - x) * pixel_size old) left tp rgn"
          unfolding step using True miss a(1) none by (simp add: e_def [symmetric] d(8) Let_def)
        from less.hyps [OF smaller next_off less.prems(3) p1]
        obtain left' tp' rgn' where h: "block_cols ok old new rect y bb (x + BLOCK_SIZE) (off + (e - x) * pixel_size old) left tp rgn = Some (left', tp', rgn')"
            "pending_ok old new rect y bb (rright rect) left' tp'" "left' = - 1 \<or> e \<le> left'"
            "finds old new (block e y (if left' = - 1 then rright rect else left') bb) rgn rgn'"
          unfolding e(3) none by auto
        have "finds old new (block x y (if left' = - 1 then rright rect else left') bb) rgn rgn'"
          by (rule finds_mono [OF h(4)]) (use cl ab e(1) in \<open>auto simp: block_def clean_def not_le\<close>)
        moreover have "left' = - 1 \<or> x \<le> left'" using h(3) e(1) by auto
        ultimately show ?thesis unfolding minx
          by (intro exI [of _ left'] exI [of _ tp'] exI [of _ rgn']) (use h(1,2) none eq in auto)
      next
        case some: False
        obtain r1 where f: "updateChangedSubRect ok old new (setRect left tp x bb) rgn = Some r1"
            "finds old new (block left y x bb) rgn r1"
          using flush_ok [OF ok s sc r less.prems(3) y(1,3) less_imp_le [OF True] pend some] by blast
        have p1: "pending_ok old new rect y bb (min (x + BLOCK_SIZE) (rright rect)) (- 1) tp" by (simp add: pending_ok_def)
        have eq: "block_cols ok old new rect y bb x off left tp rgn =
            block_cols ok old new rect y bb (x + BLOCK_SIZE) (off + (e - x) * pixel_size old) (- 1) tp r1"
          unfolding step using True miss a(1) some f(1) by (simp add: e_def [symmetric] d(8) Let_def)
        from less.hyps [OF smaller next_off finds_ok [OF f(2)] p1]
        obtain left' tp' rgn' where h: "block_cols ok old new rect y bb (x + BLOCK_SIZE) (off + (e - x) * pixel_size old) (- 1) tp r1 = Some (left', tp', rgn')"
            "pending_ok old new rect y bb (rright rect) left' tp'" "left' = - 1 \<or> e \<le> left'"
            "finds old new (block e y (if left' = - 1 then rright rect else left') bb) r1 rgn'"
          unfolding e(3) by auto
        have l: "left < x" using pend some by (simp add: pending_ok_def)
        have xR: "x \<le> (if left' = - 1 then rright rect else left')" using h(3) e(1,2) by auto
        have "finds old new (block left y (if left' = - 1 then rright rect else left') bb) rgn rgn'"
        proof (rule finds_trans [OF f(2) h(4)])
          fix u v assume "block left y (if left' = - 1 then rright rect else left') bb u v" "changed old new u v"
          then show "block left y x bb u v \<or> block e y (if left' = - 1 then rright rect else left') bb u v"
            using cl ab unfolding block_def clean_def by (meson not_le)
        next
          fix u v assume "block left y x bb u v \<or> block e y (if left' = - 1 then rright rect else left') bb u v"
          then show "block left y (if left' = - 1 then rright rect else left') bb u v"
            using xR l e(1) unfolding block_def by linarith
        qed
        then show ?thesis
          by (intro exI [of _ left'] exI [of _ tp'] exI [of _ rgn']) (use h(1,2,3) some l e(1) eq in auto)
      qed
    qed
  qed
qed

lemma pending_start: "pending_ok old new rect y bb x (- 1) tp"
  by (simp add: pending_ok_def)

lemma block_bands_ok:
  assumes ok: "alloc_ok ok" and s: "same_shape old new" and sc: "screen_ok old" and r: "rect_inside old rect"
  shows "rtop rect \<le> y \<Longrightarrow> (y < rbottom rect \<Longrightarrow> off = y * stride old + rleft rect * pixel_size old) \<Longrightarrow> region_ok rgn \<Longrightarrow>
    \<exists>rgn'. block_bands ok old new rect y off tp rgn = Some rgn' \<and>
      finds old new (block (rleft rect) y (rright rect) (rbottom rect)) rgn rgn'"
proof (induction "nat (rbottom rect - y)" arbitrary: y off tp rgn rule: less_induct)
  case less
  note d = same_shapeD [OF s]
  show ?case
  proof (cases "y < rbottom rect")
    case False
    then have "block_bands ok old new rect y off tp rgn = Some rgn" by (subst block_bands.simps) simp
    with False less.prems(3) show ?thesis by (auto intro!: finds_refl simp: block_def)
  next
    case True
    define bb where "bb = min (y + BLOCK_SIZE) (rbottom rect)"
    have bb: "y < bb" "bb \<le> rbottom rect" using True by (auto simp: bb_def BLOCK_SIZE_def)
    have l: "rleft rect < rright rect" "0 \<le> rleft rect" using r by (simp_all add: rect_inside_def)
    obtain left tp' r1 where c: "block_cols ok old new rect y bb (rleft rect) off (- 1) tp rgn = Some (left, tp', r1)"
        "pending_ok old new rect y bb (rright rect) left tp'"
        "left = - 1 \<or> rleft rect \<le> left"
        "finds old new (block (rleft rect) y (if left = - 1 then rright rect else left) bb) rgn r1"
      using block_cols_ok [OF ok s sc r less.prems(1) bb order_refl less.prems(2) [OF True] less.prems(3) pending_start [of _ _ _ _ _ _ tp]]
        l by (auto simp: min_def)
    obtain r2 where f: "(if left \<noteq> - 1 then updateChangedSubRect ok old new (setRect left tp' (rright rect) bb) r1 else Some r1) = Some r2"
        "finds old new (block (rleft rect) y (rright rect) bb) rgn r2"
    proof (cases "left = - 1")
      case False
      then obtain r2 where u: "updateChangedSubRect ok old new (setRect left tp' (rright rect) bb) r1 = Some r2"
          "finds old new (block left y (rright rect) bb) r1 r2"
        using flush_ok [OF ok s sc r finds_ok [OF c(4)] less.prems(1) bb(2) order_refl c(2)] by blast
      have "finds old new (block (rleft rect) y (rright rect) bb) rgn r2"
        by (rule finds_trans [OF c(4) u(2)]) (use False c(2,3) in \<open>auto simp: block_def pending_ok_def\<close>)
      with u(1) False that show thesis by simp
    qed (use c that in simp)
    have smaller: "nat (rbottom rect - (y + BLOCK_SIZE)) < nat (rbottom rect - y)" "rtop rect \<le> y + BLOCK_SIZE"
      using True less.prems(1) by (simp_all add: BLOCK_SIZE_def)
    have off: "off + stride old * BLOCK_SIZE = (y + BLOCK_SIZE) * stride old + rleft rect * pixel_size old"
      using less.prems(2) [OF True] by (simp add: algebra_simps)
    from less.hyps [OF smaller off finds_ok [OF f(2)]]
    obtain rgn' where g: "block_bands ok old new rect (y + BLOCK_SIZE) (off + stride old * BLOCK_SIZE) tp' r2 = Some rgn'"
        "finds old new (block (rleft rect) (y + BLOCK_SIZE) (rright rect) (rbottom rect)) r2 rgn'" by blast
    have "block_bands ok old new rect y off tp rgn = Some rgn'"
      using True c(1) f(1) g(1) by (subst block_bands.simps) (simp add: bb_def [symmetric] d(7) Let_def)
    moreover have "finds old new (block (rleft rect) y (rright rect) (rbottom rect)) rgn rgn'"
      by (rule finds_trans [OF f(2) g(2)]) (use bb in \<open>auto simp: block_def bb_def min_def BLOCK_SIZE_def\<close>)
    ultimately show ?thesis by blast
  qed
qed

lemma updateChangedRect_ok:
  assumes "alloc_ok ok" "same_shape old new" "screen_ok old" "rect_inside old rect" "region_ok rgn"
  shows "\<exists>rgn'. updateChangedRect ok old new rect rgn = Some rgn' \<and> finds old new (isPointInRect rect) rgn rgn'"
  using updateChangedSubRect_ok [OF assms]
    block_bands_ok [OF assms(1-4) order_refl _ assms(5), of "rtop rect * stride old + rleft rect * pixel_size old" 0]
    same_shapeD(7,8) [OF assms(2)]
  unfolding updateChangedRect_def in_rect_block by simp

section \<open>Scanning a rectangle\<close>

lemma small_scan_ok:
  assumes ok: "alloc_ok ok" and s: "same_shape old new" and sc: "screen_ok old" and r: "rect_inside old rect" and rgn: "region_ok rgn"
    and n: "n = (rright rect - rleft rect) * pixel_size old"
  shows "rtop rect \<le> y \<Longrightarrow> \<exists>rgn'. small_scan ok old new rect n y (y * stride old + rleft rect * pixel_size old) rgn = Some rgn' \<and>
      finds old new (block (rleft rect) y (rright rect) (rbottom rect)) rgn rgn'"
proof (induction "nat (rbottom rect - y)" arbitrary: y rule: less_induct)
  case less
  note d = same_shapeD [OF s]
  let ?off = "y * stride old + rleft rect * pixel_size old"
  show ?case
  proof (cases "y < rbottom rect")
    case False
    then have "small_scan ok old new rect n y ?off rgn = Some rgn" by (subst small_scan.simps) simp
    with False rgn show ?thesis by (auto intro!: finds_refl simp: block_def)
  next
    case True
    have r': "0 \<le> rleft rect" "rleft rect \<le> rright rect" "rright rect \<le> width (dim old)" "0 \<le> y" "y < height (dim old)"
      using r True less.prems by (simp_all add: rect_inside_def)
    note df = differ_ok [OF s r', folded n]
    show ?thesis
    proof (cases "line_differs old new (rleft rect) (rright rect) y")
      case hit: True
      have i: "rect_inside old (rect\<lparr>rtop := y\<rparr>)" using r True less.prems by (simp add: rect_inside_def)
      from updateChangedSubRect_ok [OF ok s sc i rgn] show ?thesis
        using True hit df by (subst small_scan.simps) (simp add: in_rect_block)
    next
      case miss: False
      have smaller: "nat (rbottom rect - (y + 1)) < nat (rbottom rect - y)" "rtop rect \<le> y + 1" using True less.prems by simp_all
      from less.hyps [OF this] obtain rgn' where h:
          "small_scan ok old new rect n (y + 1) ((y + 1) * stride old + rleft rect * pixel_size old) rgn = Some rgn'"
          "finds old new (block (rleft rect) (y + 1) (rright rect) (rbottom rect)) rgn rgn'" by blast
      have "small_scan ok old new rect n y ?off rgn = Some rgn'"
        using True miss df h(1) by (subst small_scan.simps) (simp add: d(7) line_up)
      moreover have "finds old new (block (rleft rect) y (rright rect) (rbottom rect)) rgn rgn'"
      proof (rule finds_mono [OF h(2)])
        fix u v assume b: "block (rleft rect) y (rright rect) (rbottom rect) u v" and c: "changed old new u v"
        then have "v \<noteq> y" using miss by (auto simp: line_differs_def block_def)
        with b show "block (rleft rect) (y + 1) (rright rect) (rbottom rect) u v" by (auto simp: block_def)
      qed (auto simp: block_def)
      ultimately show ?thesis by blast
    qed
  qed
qed

lemma big_scan_ok:
  assumes ok: "alloc_ok ok" and s: "same_shape old new" and sc: "screen_ok old" and r: "rect_inside old rect"
    and n: "n = (rright rect - rleft rect) * pixel_size old"
  shows "rtop rect \<le> y \<Longrightarrow> tp = - 1 \<or> rtop rect \<le> tp \<and> tp < y \<and> tp < rbottom rect \<Longrightarrow> region_ok rgn \<Longrightarrow>
    \<exists>tp' rgn'. big_scan ok old new rect n y (y * stride old + rleft rect * pixel_size old) tp rgn = Some (tp', rgn') \<and>
      (tp' = - 1 \<or> (if tp = - 1 then y else tp) \<le> tp' \<and> tp' < rbottom rect) \<and>
      finds old new (block (rleft rect) (if tp = - 1 then y else tp) (rright rect) (if tp' = - 1 then rbottom rect else tp')) rgn rgn'"
proof (induction "nat (rbottom rect - y)" arbitrary: y tp rgn rule: less_induct)
  case less
  note d = same_shapeD [OF s]
  let ?off = "\<lambda>y. y * stride old + rleft rect * pixel_size old"
  let ?L = "rleft rect" and ?R = "rright rect"
  define S where "S = (if tp = - 1 then y else tp)"
  have r0: "0 \<le> rtop rect" using r by (simp add: rect_inside_def)
  note step = big_scan.simps [of ok old new rect n y "?off y" tp rgn]
  show ?case
  proof (cases "y < rbottom rect")
    case False
    then have "big_scan ok old new rect n y (?off y) tp rgn = Some (tp, rgn)" unfolding step by simp
    moreover have "finds old new (block ?L S ?R (if tp = - 1 then rbottom rect else tp)) rgn rgn"
      using False less.prems(2,3) by (auto intro!: finds_refl simp: block_def S_def)
    ultimately show ?thesis using less.prems(2) by (auto simp: S_def)
  next
    case True
    have r': "0 \<le> ?L" "?L \<le> ?R" "?R \<le> width (dim old)" "0 \<le> y" "y < height (dim old)"
      using r True less.prems(1) by (simp_all add: rect_inside_def)
    note df = differ_ok [OF s r', folded n]
    show ?thesis
    proof (cases "line_differs old new ?L ?R y")
      case hit: True
      have smaller: "nat (rbottom rect - (y + 16)) < nat (rbottom rect - y)" "rtop rect \<le> y + 16"
        using True less.prems(1) by simp_all
      have tp1: "S = - 1 \<or> rtop rect \<le> S \<and> S < y + 16 \<and> S < rbottom rect" "S \<noteq> - 1"
        using True less.prems(1,2) r0 by (auto simp: S_def)
      have skip: "BLOCK_SIZE div 2 - 1 = 15" "y + 15 + 1 = y + 16" "?off y + 15 * stride old + stride old = ?off (y + 16)"
        by (simp_all add: BLOCK_SIZE_def algebra_simps)
      have "big_scan ok old new rect n y (?off y) tp rgn = big_scan ok old new rect n (y + 16) (?off (y + 16)) S rgn"
        unfolding step S_def by (simp only: True hit df if_True option.case Let_def d(7) skip)
      with less.hyps [OF smaller tp1(1) less.prems(3)] tp1(2) show ?thesis unfolding S_def [symmetric] by simp
    next
      case miss: False
      have smaller: "nat (rbottom rect - (y + 1)) < nat (rbottom rect - y)" "rtop rect \<le> y + 1"
        using True less.prems(1) by simp_all
      have same: "v \<noteq> y" if "block ?L t ?R b u v" "changed old new u v" for t b u v
        using that miss by (auto simp: line_differs_def block_def)
      obtain r1 where f: "(if tp \<noteq> - 1 then updateChangedRect ok old new (rect\<lparr>rtop := tp, rbottom := y\<rparr>) rgn else Some rgn) = Some r1"
          "finds old new (block ?L S ?R y) rgn r1"
      proof (cases "tp = - 1")
        case False
        then have i: "rect_inside old (rect\<lparr>rtop := tp, rbottom := y\<rparr>)" using r True less.prems(2) by (auto simp: rect_inside_def)
        from updateChangedRect_ok [OF ok s sc i less.prems(3)] False that show thesis by (auto simp: in_rect_block S_def)
      qed (rule that [of rgn], auto simp: S_def block_def less.prems(3) intro!: finds_refl)
      from less.hyps [OF smaller _ finds_ok [OF f(2)], of "- 1"]
      obtain tp' rgn' where h: "big_scan ok old new rect n (y + 1) (?off (y + 1)) (- 1) r1 = Some (tp', rgn')"
          "tp' = - 1 \<or> y + 1 \<le> tp' \<and> tp' < rbottom rect"
          "finds old new (block ?L (y + 1) ?R (if tp' = - 1 then rbottom rect else tp')) r1 rgn'" by auto
      have "big_scan ok old new rect n y (?off y) tp rgn = Some (tp', rgn')"
        unfolding step using True miss df f(1) h(1) by (simp add: d(7) line_up split: if_splits)
      moreover have "finds old new (block ?L S ?R (if tp' = - 1 then rbottom rect else tp')) rgn rgn'"
      proof (rule finds_trans [OF f(2) h(3)])
        fix u v assume b: "block ?L S ?R (if tp' = - 1 then rbottom rect else tp') u v" and c: "changed old new u v"
        show "block ?L S ?R y u v \<or> block ?L (y + 1) ?R (if tp' = - 1 then rbottom rect else tp') u v"
          using same [OF b c] b unfolding block_def by linarith
      next
        fix u v assume "block ?L S ?R y u v \<or> block ?L (y + 1) ?R (if tp' = - 1 then rbottom rect else tp') u v"
        moreover have "S \<le> y" using less.prems(2) by (auto simp: S_def)
        moreover have "y \<le> (if tp' = - 1 then rbottom rect else tp')" using h(2) True by auto
        ultimately show "block ?L S ?R (if tp' = - 1 then rbottom rect else tp') u v" unfolding block_def by linarith
      qed
      moreover have "tp' = - 1 \<or> S \<le> tp' \<and> tp' < rbottom rect" using h(2) less.prems(2) by (auto simp: S_def)
      ultimately show ?thesis unfolding S_def [symmetric] by blast
    qed
  qed
qed

lemma getChangedRegion_ok:
  assumes ok: "alloc_ok ok" and s: "same_shape old new" and sc: "screen_ok old" and r: "rect_inside old rect" and rgn: "region_ok rgn"
  shows "\<exists>rgn'. getChangedRegion ok old new rect rgn = Some rgn' \<and> finds old new (isPointInRect rect) rgn rgn'"
proof -
  note d = same_shapeD(7,8) [OF s]
  let ?n = "(rright rect - rleft rect) * pixel_size old" and ?off = "rtop rect * stride old + rleft rect * pixel_size old"
  have r0: "0 \<le> rtop rect" "rtop rect < rbottom rect" using r by (simp_all add: rect_inside_def)
  obtain r1 where small: "small_scan ok old new rect ?n (rtop rect) ?off rgn = Some r1" "finds old new (isPointInRect rect) rgn r1"
    using small_scan_ok [OF ok s sc r rgn refl order_refl] by (auto simp: in_rect_block)
  obtain tp r2 where big: "big_scan ok old new rect ?n (rtop rect) ?off (- 1) rgn = Some (tp, r2)"
      "tp = - 1 \<or> rtop rect \<le> tp \<and> tp < rbottom rect"
      "finds old new (block (rleft rect) (rtop rect) (rright rect) (if tp = - 1 then rbottom rect else tp)) rgn r2"
    using big_scan_ok [OF ok s sc r refl order_refl _ rgn, of "- 1"] by auto
  obtain r3 where rest: "(if tp \<noteq> - 1 then updateChangedRect ok old new (rect\<lparr>rtop := tp, rbottom := rbottom rect\<rparr>) r2 else Some r2) = Some r3"
      "finds old new (isPointInRect rect) rgn r3"
  proof (cases "tp = - 1")
    case True
    with big(3) that show thesis by (simp add: in_rect_block)
  next
    case False
    then have i: "rect_inside old (rect\<lparr>rtop := tp, rbottom := rbottom rect\<rparr>)" using r big(2) by (auto simp: rect_inside_def)
    from updateChangedRect_ok [OF ok s sc i finds_ok [OF big(3)]] obtain r3 where
      u: "updateChangedRect ok old new (rect\<lparr>rtop := tp, rbottom := rbottom rect\<rparr>) r2 = Some r3"
        "finds old new (block (rleft rect) tp (rright rect) (rbottom rect)) r2 r3" by (auto simp: in_rect_block)
    have "finds old new (isPointInRect rect) rgn r3"
      by (rule finds_trans [OF big(3) u(2)]) (use False big(2) in \<open>auto simp: in_rect_block block_def\<close>)
    with u(1) False that show thesis by simp
  qed
  show ?thesis using small big(1) rest by (auto simp: getChangedRegion_def d Let_def)
qed

end
