(* ===== verification/FilterCorrect.thy ===== *)
theory FilterCorrect
  imports FilterBlocks UpdateSession
begin

text \<open>
  \<open>UpdateFilter::filter\<close> as a whole: the container that comes out, applied to the old frame
  buffer, gives the new one.
\<close>

section \<open>The rectangles of a region inside the frame\<close>

definition region_in :: "frame_buffer \<Rightarrow> region \<Rightarrow> bool" where
  "region_in fb r \<longleftrightarrow> region_ok r \<and> (\<forall>x y. pixels r x y \<longrightarrow> inside fb x y)"

definition rect_pixels :: "rect list \<Rightarrow> int \<Rightarrow> int \<Rightarrow> bool" where
  "rect_pixels rs x y \<longleftrightarrow> (\<exists>r \<in> set rs. isPointInRect r x y)"

lemma rect_pixels_simps [simp]:
  "rect_pixels [] x y = False" "rect_pixels (r # rs) x y \<longleftrightarrow> isPointInRect r x y \<or> rect_pixels rs x y"
  by (simp_all add: rect_pixels_def)

lemma rect_pixels_region: "rect_pixels (Region_getRectVector r) x y = pixels r x y"
  by (simp add: rect_pixels_def Region_getRectVector_ok)

lemma region_rects_in:
  assumes r: "region_in fb rgn" and b: "b \<in> set (Region_getRectVector rgn)"
  shows "rect_inside fb b"
proof -
  have "wf_rects (REGION_RECTS rgn)" using r by (simp add: region_in_def region_ok_wf)
  then have ne: "rleft b < rright b" "rtop b < rbottom b"
    using b wf_rects_valid by (auto simp: Region_getRectVector_def rect_of_box_def list_all_iff box_valid_def)
  have "pixels rgn x y" if "isPointInRect b x y" for x y using that b by (auto simp: Region_getRectVector_ok)
  then have "inside fb (rleft b) (rtop b)" "inside fb (rright b - 1) (rbottom b - 1)"
    using r ne by (auto simp: region_in_def in_rect)
  then show ?thesis using ne by (simp add: inside_def rect_inside_def)
qed

section \<open>The loops of the filter\<close>

lemma changed_all_ok:
  assumes ok: "alloc_ok ok" and s: "same_shape old new" and sc: "screen_ok old"
  shows "(\<And>r. r \<in> set rs \<Longrightarrow> rect_inside old r) \<Longrightarrow> region_ok rgn \<Longrightarrow>
    \<exists>rgn'. changed_all ok old new rs rgn = Some rgn' \<and> finds old new (rect_pixels rs) rgn rgn'"
proof (induction rs arbitrary: rgn)
  case (Cons r rs)
  obtain r1 where g: "getChangedRegion ok old new r rgn = Some r1" "finds old new (isPointInRect r) rgn r1"
    using getChangedRegion_ok [OF ok s sc Cons.prems(1) Cons.prems(2)] by auto
  obtain rgn' where h: "changed_all ok old new rs r1 = Some rgn'" "finds old new (rect_pixels rs) r1 rgn'"
    using Cons.IH [OF Cons.prems(1) finds_ok [OF g(2)]] by auto
  have "finds old new (rect_pixels (r # rs)) rgn rgn'" by (rule finds_trans [OF g(2) h(2)]) auto
  with g(1) h(1) show ?case by (simp del: rect_pixels_simps)
qed (auto intro: finds_refl)

lemma copy_all_ok:
  assumes new: "fb_ok new"
  shows "fb_ok fb \<Longrightarrow> dim fb = dim new \<Longrightarrow> fmt fb = fmt new \<Longrightarrow>
    \<exists>fb'. copy_all rs new fb = Some fb' \<and> same_shape fb' new \<and>
      (\<forall>x y. inside new x y \<longrightarrow> pixel fb' x y = (if rect_pixels rs x y then pixel new x y else pixel fb x y))"
proof (induction rs arbitrary: fb)
  case Nil
  then show ?case using new by (simp add: same_shape_def)
next
  case (Cons r rs)
  obtain b where b: "copyFrom r new (rleft r) (rtop r) fb = Some (True, fb\<lparr>buffer := b\<rparr>)" "length b = length (buffer fb)"
      "\<forall>x y. inside fb x y \<longrightarrow> pixel (fb\<lparr>buffer := b\<rparr>) x y =
        (if isPointInRect r x y \<and> inside new x y then pixel new x y else pixel fb x y)"
    using copyFrom_ok [OF Cons.prems(1) new Cons.prems(3), of r "rleft r" "rtop r"] by auto
  have i: "inside fb x y = inside new x y" for x y using Cons.prems(2) by (simp add: inside_def)
  obtain fb' where h: "copy_all rs new (fb\<lparr>buffer := b\<rparr>) = Some fb'" "same_shape fb' new"
      "\<forall>x y. inside new x y \<longrightarrow> pixel fb' x y = (if rect_pixels rs x y then pixel new x y else pixel (fb\<lparr>buffer := b\<rparr>) x y)"
    using Cons.IH [of "fb\<lparr>buffer := b\<rparr>"] Cons.prems fb_ok_buffer [OF Cons.prems(1) b(2)] by auto
  have "pixel fb' x y = (if rect_pixels (r # rs) x y then pixel new x y else pixel fb x y)" if "inside new x y" for x y
    using that h(3) b(3) i by auto
  with b(1) h(1,2) show ?case by auto
qed

lemma move_all_ok:
  "fb_ok fb \<Longrightarrow> \<exists>fb'. move_all rs src fb = Some fb' \<and> fb_ok fb' \<and> dim fb' = dim fb \<and> fmt fb' = fmt fb \<and>
     (\<forall>x y. inside fb x y \<and> \<not> rect_pixels rs x y \<longrightarrow> pixel fb' x y = pixel fb x y)"
proof (induction rs arbitrary: fb)
  case (Cons r rs)
  obtain b where b: "move_fb r (px src) (py src) fb = Some (fb\<lparr>buffer := b\<rparr>)" "length b = length (buffer fb)"
      "\<forall>x y. inside fb x y \<longrightarrow> pixel (fb\<lparr>buffer := b\<rparr>) x y =
         (if isPointInRect r x y \<and> inside fb (x + (px src - rleft r)) (y + (py src - rtop r))
          then pixel fb (x + (px src - rleft r)) (y + (py src - rtop r)) else pixel fb x y)"
    using move_fb_ok [OF Cons.prems] by blast
  obtain fb' where h: "move_all rs src (fb\<lparr>buffer := b\<rparr>) = Some fb'" "fb_ok fb'" "dim fb' = dim fb" "fmt fb' = fmt fb"
      "\<forall>x y. inside fb x y \<and> \<not> rect_pixels rs x y \<longrightarrow> pixel fb' x y = pixel (fb\<lparr>buffer := b\<rparr>) x y"
    using Cons.IH [OF fb_ok_buffer [OF Cons.prems b(2)]] by (auto simp: inside_def)
  with b show ?case by auto
qed simp

section \<open>The filter\<close>

text \<open>The pixels that the filter compares.\<close>

definition to_check :: "update_container \<Rightarrow> int \<Rightarrow> int \<Rightarrow> bool" where
  "to_check uc x y \<longleftrightarrow> pixels (changedRegion uc) x y \<or> pixels (copiedRegion uc) x y \<or> pixels (videoRegion uc) x y"

definition container_in :: "frame_buffer \<Rightarrow> update_container \<Rightarrow> bool" where
  "container_in fb uc \<longleftrightarrow> region_in fb (changedRegion uc) \<and> region_in fb (copiedRegion uc) \<and> region_in fb (videoRegion uc)"

text \<open>
  The screen driver does its work: it copies the screen \<open>S\<close> at a region into its buffer, the
  shape of which it does not change.
\<close>

definition grabs :: "(region \<Rightarrow> frame_buffer \<Rightarrow> frame_buffer option) \<Rightarrow> frame_buffer \<Rightarrow> (int \<Rightarrow> int \<Rightarrow> bytes) \<Rightarrow> bool" where
  "grabs grab screen S \<longleftrightarrow>
     (\<forall>rgn. \<exists>screen'. grab rgn screen = Some screen' \<and> fb_ok screen' \<and> dim screen' = dim screen \<and> fmt screen' = fmt screen \<and>
        (\<forall>x y. inside screen x y \<and> pixels rgn x y \<longrightarrow> pixel screen' x y = S x y))"

lemma same_shape_equal: "same_shape screen fb \<Longrightarrow> fb_isEqualTo screen fb"
  by (simp add: same_shape_def fb_isEqualTo_def cmpDim_def)

lemma toCheck_ok:
  assumes ok: "alloc_ok ok" and uc: "container_in fb uc"
  defines "toCheck \<equiv> Region_add ok (Region_add ok (Region_copy ok (changedRegion uc)) (copiedRegion uc)) (videoRegion uc)"
  shows "region_in fb toCheck" "pixels toCheck x y = to_check uc x y"
proof -
  have r: "region_ok (changedRegion uc)" "region_ok (copiedRegion uc)" "region_ok (videoRegion uc)"
    using uc by (simp_all add: container_in_def region_in_def)
  note c = Region_copy_ok [OF ok r(1)]
  note a = Region_add_ok [OF ok conjunct1 [OF c] r(2)]
  note v = Region_add_ok [OF ok conjunct1 [OF a] r(3)]
  have p: "pixels toCheck x y = to_check uc x y" for x y
    using c a v by (auto simp: toCheck_def to_check_def)
  then show "pixels toCheck x y = to_check uc x y" .
  show "region_in fb toCheck"
    using v uc unfolding region_in_def p by (auto simp: toCheck_def to_check_def container_in_def region_in_def)
qed

lemma filter_ok:
  assumes ok: "alloc_ok ok" and s: "same_shape screen fb" and sc: "screen_ok fb" and uc: "container_in fb uc"
    and g: "grabs grab screen S" and mv: "move_all (Region_getRectVector (copiedRegion uc)) (copySrc uc) fb = Some moved"
  obtains rgn fb' screen' where
    "filter_updates ok grab uc fb screen = Some (uc\<lparr>changedRegion := rgn\<rparr>, fb', screen')"
    "region_in fb rgn" "same_shape fb' screen'" "dim fb' = dim fb"
    "\<And>x y. inside fb x y \<Longrightarrow> pixel fb' x y = (if to_check uc x y then S x y else pixel fb x y)"
    "\<And>x y. pixels rgn x y \<Longrightarrow> to_check uc x y"
    "\<And>x y. inside fb x y \<Longrightarrow> to_check uc x y \<Longrightarrow> \<not> pixels rgn x y \<Longrightarrow> pixel moved x y = S x y"
proof -
  note sh = s [unfolded same_shape_def]
  define toCheck where "toCheck = Region_add ok (Region_add ok (Region_copy ok (changedRegion uc)) (copiedRegion uc)) (videoRegion uc)"
  have tc: "region_in fb toCheck" "\<And>x y. pixels toCheck x y = to_check uc x y"
    using toCheck_ok [OF ok uc] by (simp_all add: toCheck_def)
  have m: "fb_ok moved" "dim moved = dim fb" "fmt moved = fmt fb"
      "\<And>x y. inside fb x y \<Longrightarrow> \<not> pixels (copiedRegion uc) x y \<Longrightarrow> pixel moved x y = pixel fb x y"
    using move_all_ok [of fb "Region_getRectVector (copiedRegion uc)" "copySrc uc"] sh mv by (auto simp: rect_pixels_region)
  obtain screen' where g': "grab toCheck screen = Some screen'" "fb_ok screen'" "dim screen' = dim fb" "fmt screen' = fmt fb"
      "\<And>x y. inside fb x y \<Longrightarrow> to_check uc x y \<Longrightarrow> pixel screen' x y = S x y"
    using g [unfolded grabs_def, rule_format, of toCheck] sh by (auto simp: tc(2) inside_def)
  have s': "same_shape moved screen'" using m(1-3) g'(2-4) by (simp add: same_shape_def)
  have in_eq: "inside fb x y = inside moved x y" "inside screen' x y = inside fb x y" for x y
    using m(2) g'(3) by (simp_all add: inside_def)
  have "rect_inside moved r" if "r \<in> set (Region_getRectVector toCheck)" for r
    using region_rects_in [OF tc(1) that] m(2) by (simp add: rect_inside_def)
  then obtain rgn where c: "changed_all ok moved screen' (Region_getRectVector toCheck) (Region_clear (changedRegion uc)) = Some rgn"
      "finds moved screen' (\<lambda>x y. to_check uc x y) (Region_clear (changedRegion uc)) rgn"
    using changed_all_ok [OF ok s', of "Region_getRectVector toCheck" "Region_clear (changedRegion uc)"] sc m(2)
    by (auto simp: screen_ok_def rect_pixels_region tc(2) rect_pixels_region [abs_def] intro!: that)
  have rgn: "pixels rgn x y \<Longrightarrow> to_check uc x y" "to_check uc x y \<Longrightarrow> changed moved screen' x y \<Longrightarrow> pixels rgn x y" for x y
    using c(2) unfolding finds_def by auto
  obtain fb' where f: "copy_all (Region_getRectVector rgn) screen' moved = Some fb'" "same_shape fb' screen'"
      "\<And>x y. inside fb x y \<Longrightarrow> pixel fb' x y = (if pixels rgn x y then pixel screen' x y else pixel moved x y)"
    using copy_all_ok [OF g'(2) m(1), of "Region_getRectVector rgn"] m(2,3) g'(3,4) in_eq(2) by (auto simp: rect_pixels_region)
  show thesis
  proof (rule that)
    show "filter_updates ok grab uc fb screen = Some (uc\<lparr>changedRegion := rgn\<rparr>, fb', screen')"
      using mv g'(1) c(1) f(1)
      by (simp add: filter_updates_def same_shape_equal [OF s] Let_def toCheck_def)
    show "region_in fb rgn"
      using finds_ok [OF c(2)] rgn(1) tc by (auto simp: region_in_def)
    show "same_shape fb' screen'" by (rule f(2))
    show "dim fb' = dim fb" using f(2) g'(3) by (simp add: same_shape_def)
    fix x y
    show "pixels rgn x y \<Longrightarrow> to_check uc x y" by (rule rgn(1))
    assume i: "inside fb x y"
    have same: "pixel moved x y = S x y" if "to_check uc x y" "\<not> pixels rgn x y"
      using rgn(2) [OF that(1)] that(2) g'(5) [OF i that(1)] by (auto simp: changed_def)
    then show "to_check uc x y \<Longrightarrow> \<not> pixels rgn x y \<Longrightarrow> pixel moved x y = S x y" .
    show "pixel fb' x y = (if to_check uc x y then S x y else pixel fb x y)"
    proof (cases "to_check uc x y")
      case True
      with same g'(5) [OF i True] f(3) [OF i] show ?thesis by simp
    next
      case False
      then have "\<not> pixels (copiedRegion uc) x y" by (simp add: to_check_def)
      with False rgn(1) [of x y] m(4) [OF i] f(3) [OF i] show ?thesis by auto
    qed
  qed
qed

section \<open>The client's picture\<close>

text \<open>At most one copied rectangle, copied from inside the frame.\<close>

definition copy_in :: "frame_buffer \<Rightarrow> update_container \<Rightarrow> bool" where
  "copy_in fb uc \<longleftrightarrow> one_copy uc \<and>
     (\<forall>x y. pixels (copiedRegion uc) x y \<longrightarrow>
        inside fb (x - rleft (Region_getBounds (copiedRegion uc)) + px (copySrc uc))
          (y - rtop (Region_getBounds (copiedRegion uc)) + py (copySrc uc)))"

lemma moved_picture:
  assumes fb: "fb_ok fb" and r: "region_ok (copiedRegion uc)" and c: "copy_in fb uc"
  obtains moved where "move_all (Region_getRectVector (copiedRegion uc)) (copySrc uc) fb = Some moved"
    "\<And>x y. inside fb x y \<Longrightarrow> pixel moved x y = copied_picture uc (pixel fb) x y"
proof (cases "REGION_RECTS (copiedRegion uc) = []")
  case True
  then show thesis
    by (intro that [of fb]) (simp_all add: Region_getRectVector_def copied_picture_def pixels_empty)
next
  case False
  let ?b = "Region_getBounds (copiedRegion uc)"
  have one: "Region_getRectVector (copiedRegion uc) = [?b]" "pixels (copiedRegion uc) = isPointInRect ?b"
    using single_rect_pixels [OF r _ False] c by (simp_all add: copy_in_def one_copy_def)
  obtain b where b: "move_fb ?b (px (copySrc uc)) (py (copySrc uc)) fb = Some (fb\<lparr>buffer := b\<rparr>)"
      "\<forall>x y. inside fb x y \<longrightarrow> pixel (fb\<lparr>buffer := b\<rparr>) x y =
         (if isPointInRect ?b x y \<and> inside fb (x + (px (copySrc uc) - rleft ?b)) (y + (py (copySrc uc) - rtop ?b))
          then pixel fb (x + (px (copySrc uc) - rleft ?b)) (y + (py (copySrc uc) - rtop ?b)) else pixel fb x y)"
    using move_fb_ok [OF fb] by blast
  have d: "x - l + p = x + (p - l)" for x l p :: int by simp
  show thesis
    by (rule that [of "fb\<lparr>buffer := b\<rparr>"])
      (use b(1) b(2) [rule_format] c in \<open>auto simp: one(1) copied_picture_def copy_in_def d one(2)\<close>)
qed

lemma filter_picture:
  assumes ok: "alloc_ok ok" and s: "same_shape screen fb" and sc: "screen_ok fb" and uc: "container_in fb uc"
    and g: "grabs grab screen S" and c: "copy_in fb uc"
  shows "\<exists>uc' fb' screen'. filter_updates ok grab uc fb screen = Some (uc', fb', screen') \<and>
    container_in fb uc' \<and> same_shape fb' screen' \<and> dim fb' = dim fb \<and>
    (\<forall>x y. pixels (changedRegion uc') x y \<longrightarrow> to_check uc x y) \<and>
    (\<forall>x y. inside fb x y \<longrightarrow>
       pixel fb' x y = (if to_check uc x y then S x y else pixel fb x y) \<and>
       updated_picture uc' S (pixel fb) x y = pixel fb' x y)"
proof -
  have cp: "region_ok (copiedRegion uc)" using uc by (simp add: container_in_def region_in_def)
  have "fb_ok fb" using s by (simp add: same_shape_def)
  from moved_picture [OF this cp c] obtain moved where
      m: "move_all (Region_getRectVector (copiedRegion uc)) (copySrc uc) fb = Some moved"
        "\<And>x y. inside fb x y \<Longrightarrow> pixel moved x y = copied_picture uc (pixel fb) x y" by blast
  from filter_ok [OF ok s sc uc g m(1)] obtain rgn fb' screen' where
    f: "filter_updates ok grab uc fb screen = Some (uc\<lparr>changedRegion := rgn\<rparr>, fb', screen')"
    "region_in fb rgn" "same_shape fb' screen'" "dim fb' = dim fb"
    "\<And>x y. inside fb x y \<Longrightarrow> pixel fb' x y = (if to_check uc x y then S x y else pixel fb x y)"
    "\<And>x y. pixels rgn x y \<Longrightarrow> to_check uc x y"
    "\<And>x y. inside fb x y \<Longrightarrow> to_check uc x y \<Longrightarrow> \<not> pixels rgn x y \<Longrightarrow> pixel moved x y = S x y" by blast
  have u: "updated_picture (uc\<lparr>changedRegion := rgn\<rparr>) S (pixel fb) x y = pixel fb' x y" if i: "inside fb x y" for x y
    using f(5) [OF i] f(6) [of x y] f(7) [OF i] m(2) [OF i]
    by (auto simp: updated_picture_def copied_picture_def to_check_def split: if_splits)
  show ?thesis
    by (intro exI conjI allI impI) (rule f(1) | rule f(3) | rule f(4) | use f uc u in \<open>auto simp: container_in_def\<close>)+
qed

lemma filter_delivers:
  assumes ok: "alloc_ok ok" and s: "same_shape screen fb" and sc: "screen_ok fb" and uc: "container_in fb uc" and c: "copy_in fb uc"
    and g: "grabs grab screen S" and up: "\<And>x y. inside fb x y \<Longrightarrow> updated_picture uc S (pixel fb) x y = S x y"
  shows "\<exists>uc' fb' screen'. filter_updates ok grab uc fb screen = Some (uc', fb', screen') \<and>
    container_in fb uc' \<and> same_shape fb' screen' \<and>
    (\<forall>x y. pixels (changedRegion uc') x y \<longrightarrow> to_check uc x y) \<and>
    (\<forall>x y. inside fb x y \<longrightarrow> pixel fb' x y = S x y \<and> updated_picture uc' S (pixel fb) x y = S x y)"
proof -
  from filter_picture [OF ok s sc uc g c] obtain uc' fb' screen' where
    f: "filter_updates ok grab uc fb screen = Some (uc', fb', screen')" "container_in fb uc'" "same_shape fb' screen'"
    "\<forall>x y. pixels (changedRegion uc') x y \<longrightarrow> to_check uc x y"
    "\<And>x y. inside fb x y \<Longrightarrow> pixel fb' x y = (if to_check uc x y then S x y else pixel fb x y)"
    "\<And>x y. inside fb x y \<Longrightarrow> updated_picture uc' S (pixel fb) x y = pixel fb' x y" by blast
  have "pixel fb' x y = S x y" if i: "inside fb x y" for x y
    using f(5) [OF i] up [OF i] by (auto simp: updated_picture_def copied_picture_def to_check_def split: if_splits)
  with f show ?thesis by (intro exI conjI) auto
qed

end
