(* ===== verification/BufferSamples.thy ===== *)
theory BufferSamples
  imports BufferFill FilterCorrect UpdateSamples
begin

text \<open>Concrete frame buffers on which the properties are applied.\<close>

definition gray :: pixel_format where
  "gray = \<lparr>bitsPerPixel = 8, colorDepth = 8, redMax = 7, greenMax = 7, blueMax = 3, redShift = 0, greenShift = 3,
     blueShift = 6, bigEndian = False\<rparr>"

definition sample_fb :: "8 word \<Rightarrow> frame_buffer" where
  "sample_fb c = \<lparr>dim = \<lparr>width = 4, height = 4\<rparr>, fmt = gray, buffer = replicate 16 c, displayCount = 1\<rparr>"

text \<open>The same size with sixteen different pixels.\<close>

definition sample_shades :: frame_buffer where
  "sample_shades = (sample_fb 0)\<lparr>buffer := map of_nat [0..<16]\<rparr>"

lemma sample_fb_ok: "fb_ok (sample_fb c)" "fb_ok sample_shades" "screen_ok (sample_fb c)"
  by (simp_all add: sample_fb_def sample_shades_def gray_def fb_ok_def stride_def pixel_size_def screen_ok_def)

lemma sample_shape: "same_shape (sample_fb c) (sample_fb d)"
  using sample_fb_ok(1) by (simp add: same_shape_def) (simp add: sample_fb_def)

lemma sample_inside: "inside (sample_fb c) x y \<longleftrightarrow> isPointInRect (setRect 0 0 4 4) x y"
  by (auto simp: inside_def sample_fb_def in_rect)

lemma sample_pixel: "inside (sample_fb c) x y \<Longrightarrow> pixel (sample_fb c) x y = [c]"
  by (auto simp: inside_def sample_fb_def gray_def pixel_def pixel_size_def stride_def peek_def nat_less_iff)

lemma sample_shades_pixel: "inside sample_shades x y \<Longrightarrow> pixel sample_shades x y = [word_of_int (y * 4 + x)]"
  by (auto simp: inside_def sample_shades_def sample_fb_def gray_def pixel_def pixel_size_def stride_def peek_def nat_less_iff)

text \<open>A driver whose screen is uniform, and a container that reports the whole frame.\<close>

definition sample_grab :: "region \<Rightarrow> frame_buffer \<Rightarrow> frame_buffer option" where
  "sample_grab rgn screen = Some (sample_fb 1)"

lemma sample_grabs: "grabs sample_grab (sample_fb 0) (\<lambda>x y. [1])"
  using sample_shape [of 1 0] sample_pixel [of 1]
  by (auto simp: grabs_def sample_grab_def same_shape_def sample_inside)

definition whole_frame :: update_container where
  "whole_frame = (UpdateContainer_new always)\<lparr>changedRegion := Region_rect always (setRect 0 0 4 4)\<rparr>"

lemma whole_frame_pixels: "region_ok (changedRegion whole_frame)" "pixels (changedRegion whole_frame) = isPointInRect (setRect 0 0 4 4)"
  using Region_rect_ok [of "setRect 0 0 4 4" always]
  by (simp_all add: whole_frame_def short_rect_def is_short_def)

lemma whole_frame_rest:
  "region_ok (copiedRegion whole_frame)" "region_ok (videoRegion whole_frame)"
  "pixels (copiedRegion whole_frame) x y = False" "pixels (videoRegion whole_frame) x y = False"
  by (simp_all add: whole_frame_def UpdateContainer_new_def UpdateContainer_clear_def)

lemma whole_frame_ok: "container_in (sample_fb c) whole_frame" "copy_in (sample_fb c) whole_frame"
proof -
  show "container_in (sample_fb c) whole_frame"
    by (simp add: container_in_def region_in_def whole_frame_pixels whole_frame_rest sample_inside)
  have "REGION_RECTS (copiedRegion whole_frame) = []"
    using region_ok_empty_iff [OF whole_frame_rest(1)] whole_frame_rest(3) by simp
  then show "copy_in (sample_fb c) whole_frame"
    by (simp add: copy_in_def one_copy_def whole_frame_rest)
qed

end
