(* ===== verification/DataStreams.thy ===== *)
theory DataStreams
  imports Prelude FrameBuffers
begin

text \<open>
  Streams of bytes: \<open>io-lib/DataOutputStream.cpp\<close> and \<open>io-lib/DataInputStream.cpp\<close> over any
  stream, and the byte array streams of the same library. A stream is a function on its
  state, whose \<open>None\<close> is an exception; so is that of a method here, or it does not return.
\<close>

unbundle bit_operations_syntax

section \<open>Writing\<close>

type_synonym 's writer = "bytes \<Rightarrow> 's \<Rightarrow> (nat \<times> 's) option"

text \<open>The underlying stream may take only a part of the bytes at a time.\<close>

partial_function (option) writeFully :: "'s writer \<Rightarrow> bytes \<Rightarrow> 's \<Rightarrow> 's option" where
  "writeFully write bs s =
     (if bs = [] then Some s
      else case write bs s of None \<Rightarrow> None | Some (written, s) \<Rightarrow> writeFully write (drop written bs) s)"

declare writeFully.simps [code]

definition GETBYTE :: "'a :: len word \<Rightarrow> nat \<Rightarrow> 8 word" where
  "GETBYTE x n = ucast (drop_bit (n * 8) x AND 255)"

definition writeUInt8 :: "'s writer \<Rightarrow> 8 word \<Rightarrow> 's \<Rightarrow> 's option" where
  "writeUInt8 write x s = writeFully write [x] s"

definition writeUInt16 :: "'s writer \<Rightarrow> 16 word \<Rightarrow> 's \<Rightarrow> 's option" where
  "writeUInt16 write x s = writeFully write [GETBYTE x 1, GETBYTE x 0] s"

definition writeUInt32 :: "'s writer \<Rightarrow> 32 word \<Rightarrow> 's \<Rightarrow> 's option" where
  "writeUInt32 write x s = writeFully write [GETBYTE x 3, GETBYTE x 2, GETBYTE x 1, GETBYTE x 0] s"

definition writeUInt64 :: "'s writer \<Rightarrow> 64 word \<Rightarrow> 's \<Rightarrow> 's option" where
  "writeUInt64 write x s =
     writeFully write [GETBYTE x 7, GETBYTE x 6, GETBYTE x 5, GETBYTE x 4, GETBYTE x 3, GETBYTE x 2, GETBYTE x 1, GETBYTE x 0] s"

text \<open>The signed variants convert the integer to the unsigned type of the same width.\<close>

definition writeInt8 :: "'s writer \<Rightarrow> int \<Rightarrow> 's \<Rightarrow> 's option" where
  "writeInt8 write x s = writeUInt8 write (word_of_int x) s"

definition writeInt16 :: "'s writer \<Rightarrow> int \<Rightarrow> 's \<Rightarrow> 's option" where
  "writeInt16 write x s = writeUInt16 write (word_of_int x) s"

definition writeInt32 :: "'s writer \<Rightarrow> int \<Rightarrow> 's \<Rightarrow> 's option" where
  "writeInt32 write x s = writeUInt32 write (word_of_int x) s"

definition writeInt64 :: "'s writer \<Rightarrow> int \<Rightarrow> 's \<Rightarrow> 's option" where
  "writeInt64 write x s = writeUInt64 write (word_of_int x) s"

section \<open>Reading\<close>

type_synonym 's reader = "nat \<Rightarrow> 's \<Rightarrow> (bytes \<times> 's) option"

partial_function (option) readFully :: "'s reader \<Rightarrow> nat \<Rightarrow> 's \<Rightarrow> (bytes \<times> 's) option" where
  "readFully read left s =
     (if left = 0 then Some ([], s)
      else case read left s of
             None \<Rightarrow> None
           | Some (bs, s) \<Rightarrow>
               Option.bind (readFully read (left - length bs) s) (\<lambda>(rest, s). Some (bs @ rest, s)))"

declare readFully.simps [code]

definition SETBYTE :: "8 word \<Rightarrow> nat \<Rightarrow> 'a :: len word" where
  "SETBYTE y n = push_bit (n * 8) (ucast y AND 255)"

definition readUInt8 :: "'s reader \<Rightarrow> 's \<Rightarrow> (8 word \<times> 's) option" where
  "readUInt8 read s = (case readFully read 1 s of None \<Rightarrow> None | Some (buf, s) \<Rightarrow> Some (buf ! 0, s))"

definition readUInt16 :: "'s reader \<Rightarrow> 's \<Rightarrow> (16 word \<times> 's) option" where
  "readUInt16 read s =
     (case readFully read 2 s of None \<Rightarrow> None
      | Some (buf, s) \<Rightarrow> Some (SETBYTE (buf ! 0) 1 + SETBYTE (buf ! 1) 0, s))"

definition readUInt32 :: "'s reader \<Rightarrow> 's \<Rightarrow> (32 word \<times> 's) option" where
  "readUInt32 read s =
     (case readFully read 4 s of None \<Rightarrow> None
      | Some (buf, s) \<Rightarrow>
          Some (SETBYTE (buf ! 0) 3 + SETBYTE (buf ! 1) 2 + SETBYTE (buf ! 2) 1 + SETBYTE (buf ! 3) 0, s))"

definition readUInt64 :: "'s reader \<Rightarrow> 's \<Rightarrow> (64 word \<times> 's) option" where
  "readUInt64 read s =
     (case readFully read 8 s of None \<Rightarrow> None
      | Some (buf, s) \<Rightarrow>
          Some (push_bit (7 * 8) (ucast (buf ! 0)) + push_bit (6 * 8) (ucast (buf ! 1)) +
            push_bit (5 * 8) (ucast (buf ! 2)) + push_bit (4 * 8) (ucast (buf ! 3)) +
            push_bit (3 * 8) (ucast (buf ! 4)) + push_bit (2 * 8) (ucast (buf ! 5)) +
            push_bit (1 * 8) (ucast (buf ! 6)) + push_bit (0 * 8) (ucast (buf ! 7)), s))"

definition readInt8 :: "'s reader \<Rightarrow> 's \<Rightarrow> (int \<times> 's) option" where
  "readInt8 read s = map_option (\<lambda>(x, s). (sint x, s)) (readUInt8 read s)"

definition readInt16 :: "'s reader \<Rightarrow> 's \<Rightarrow> (int \<times> 's) option" where
  "readInt16 read s = map_option (\<lambda>(x, s). (sint x, s)) (readUInt16 read s)"

definition readInt32 :: "'s reader \<Rightarrow> 's \<Rightarrow> (int \<times> 's) option" where
  "readInt32 read s = map_option (\<lambda>(x, s). (sint x, s)) (readUInt32 read s)"

definition readInt64 :: "'s reader \<Rightarrow> 's \<Rightarrow> (int \<times> 's) option" where
  "readInt64 read s = map_option (\<lambda>(x, s). (sint x, s)) (readUInt64 read s)"

section \<open>Byte array streams\<close>

text \<open>
  The bytes of a new block are those of \<open>junk\<close>, as far as it goes.
\<close>

record byte_array_output =
  out_buffer :: bytes
  out_size :: nat
  out_max :: nat
  out_own :: bool

definition DEFAULT_INNER_BUFFER_CAPACITY :: nat where "DEFAULT_INNER_BUFFER_CAPACITY = 1024"

definition new_block :: "bytes \<Rightarrow> nat \<Rightarrow> bytes" where
  "new_block junk n = take n (junk @ replicate n 0)"

definition ByteArrayOutputStream_new :: "bytes \<Rightarrow> nat \<Rightarrow> byte_array_output" where
  "ByteArrayOutputStream_new junk maxSize = \<lparr>out_buffer = new_block junk maxSize, out_size = 0, out_max = maxSize, out_own = True\<rparr>"

definition ByteArrayOutputStream_alien :: "bytes \<Rightarrow> byte_array_output" where
  "ByteArrayOutputStream_alien alienMemory = \<lparr>out_buffer = alienMemory, out_size = 0, out_max = 0xFFFFFF, out_own = False\<rparr>"

definition ByteArrayOutputStream_write :: "bytes \<Rightarrow> byte_array_output writer" where
  "ByteArrayOutputStream_write junk bs s =
     (let len = length bs;
          allocateNewBuffer = (out_size s + len > out_max s);
          s = (if allocateNewBuffer \<and> out_own s
               then let reserve = DEFAULT_INNER_BUFFER_CAPACITY;
                        newBuffer = new_block junk (out_size s + len + reserve);
                        newBuffer = take (out_size s) (out_buffer s) @ drop (out_size s) newBuffer
                    in s\<lparr>out_buffer := newBuffer, out_max := out_size s + len + reserve\<rparr>
               else s)
      in case store (int (out_size s)) bs (out_buffer s) of
           None \<Rightarrow> None
         | Some b \<Rightarrow> Some (len, s\<lparr>out_buffer := b, out_size := out_size s + len\<rparr>))"

definition toByteArray :: "byte_array_output \<Rightarrow> bytes" where
  "toByteArray s = take (out_size s) (out_buffer s)"

record byte_array_input =
  in_buffer :: bytes
  in_left :: nat

definition ByteArrayInputStream_new :: "bytes \<Rightarrow> byte_array_input" where
  "ByteArrayInputStream_new b = \<lparr>in_buffer = b, in_left = length b\<rparr>"

definition ByteArrayInputStream_read :: "byte_array_input reader" where
  "ByteArrayInputStream_read len s =
     (if in_left s = 0 then None else
      let bytesToCopy = min (in_left s) len;
          inOffset = length (in_buffer s) - in_left s
      in Some (take bytesToCopy (drop inOffset (in_buffer s)), s\<lparr>in_left := in_left s - bytesToCopy\<rparr>))"

text \<open>A reader that gives nothing and does not throw keeps \<open>readFully\<close> in its loop.\<close>

lemma readFully_stuck:
  assumes empty: "\<forall>n s. rd n s = Some ([], s)" and "0 < n"
  shows "readFully rd n s = None"
proof (rule ccontr)
  assume "readFully rd n s \<noteq> None"
  then obtain r where r: "readFully rd n s = Some r" by blast
  have "0 < n \<longrightarrow> rd = rd \<longrightarrow> False"
  proof (rule readFully.raw_induct [where P = "\<lambda>rd' left _ _. 0 < left \<longrightarrow> rd' = rd \<longrightarrow> False", OF _ r], goal_cases)
    case (1 f rd' left s y)
    show ?case
    proof (intro impI)
      assume "0 < left" "rd' = rd"
      with 1(2) empty obtain y' where "f rd' (left - length ([] :: bytes)) s = Some y'" by (auto simp: bind_eq_Some_conv)
      from 1(1) [OF this] \<open>0 < left\<close> \<open>rd' = rd\<close> show False by simp
    qed
  qed
  with \<open>0 < n\<close> show False by simp
qed

section \<open>The contracts\<close>

text \<open>A stream that takes at least one byte of what it is offered.\<close>

locale output_stream =
  fixes wr :: "'s writer" and sent :: "'s \<Rightarrow> bytes" and ready :: "'s \<Rightarrow> bool"
  assumes write_some: "ready s \<Longrightarrow> bs \<noteq> [] \<Longrightarrow>
    \<exists>n s'. wr bs s = Some (n, s') \<and> 0 < n \<and> n \<le> length bs \<and> ready s' \<and> sent s' = sent s @ take n bs"
begin

text \<open>\<open>puts f s bs\<close>: the method \<open>f\<close> returns and has appended \<open>bs\<close>.\<close>

definition puts :: "('s \<Rightarrow> 's option) \<Rightarrow> bytes \<Rightarrow> bool" where
  "puts f bs \<longleftrightarrow> (\<forall>s. ready s \<longrightarrow> (\<exists>s'. f s = Some s' \<and> ready s' \<and> sent s' = sent s @ bs))"

lemma putsI: "(\<And>s. ready s \<Longrightarrow> \<exists>s'. f s = Some s' \<and> ready s' \<and> sent s' = sent s @ bs) \<Longrightarrow> puts f bs"
  by (simp add: puts_def)

lemma puts_obtain:
  assumes "puts f bs" "ready s"
  obtains s' where "f s = Some s'" "ready s'" "sent s' = sent s @ bs"
  using assms unfolding puts_def by blast

lemma puts_then: "puts f as \<Longrightarrow> puts g bs \<Longrightarrow> puts (\<lambda>s. case f s of None \<Rightarrow> None | Some s \<Rightarrow> g s) (as @ bs)"
  unfolding puts_def by (metis append.assoc option.simps(5))

lemma puts_return: "puts Some []"
  by (simp add: puts_def)

lemma puts_cong: "puts f as \<Longrightarrow> as = bs \<Longrightarrow> puts f bs"
  by simp

lemma writeFully_puts: "puts (writeFully wr bs) bs"
proof (induction "length bs" arbitrary: bs rule: less_induct)
  case less
  show ?case
  proof (cases "bs = []")
    case True
    then show ?thesis by (simp add: puts_def writeFully.simps)
  next
    case False
    show ?thesis
    proof (rule putsI)
      fix s assume "ready s"
      then obtain n s1 where w: "wr bs s = Some (n, s1)" "0 < n" "n \<le> length bs" "ready s1" "sent s1 = sent s @ take n bs"
        using write_some False by blast
      have "length (drop n bs) < length bs" using w(2) False by simp
      from puts_obtain [OF less.hyps [OF this] w(4)] obtain s' where
        "writeFully wr (drop n bs) s1 = Some s'" "ready s'" "sent s' = sent s1 @ drop n bs" .
      then show "\<exists>s'. writeFully wr bs s = Some s' \<and> ready s' \<and> sent s' = sent s @ bs"
        using w(1,5) False by (subst writeFully.simps) simp
    qed
  qed
qed

end

text \<open>A stream that yields at least one byte while there are some and then throws.\<close>

locale input_stream =
  fixes rd :: "'s reader" and pending :: "'s \<Rightarrow> bytes" and valid :: "'s \<Rightarrow> bool"
  assumes read_some: "valid s \<Longrightarrow> pending s \<noteq> [] \<Longrightarrow> 0 < n \<Longrightarrow>
      \<exists>bs s'. rd n s = Some (bs, s') \<and> bs \<noteq> [] \<and> length bs \<le> n \<and> valid s' \<and> pending s = bs @ pending s'"
    and read_end: "valid s \<Longrightarrow> pending s = [] \<Longrightarrow> rd n s = None"
begin

lemma readFully_ok:
  "valid s \<Longrightarrow> n \<le> length (pending s) \<Longrightarrow>
    \<exists>s'. readFully rd n s = Some (take n (pending s), s') \<and> valid s' \<and> pending s' = drop n (pending s)"
proof (induction n arbitrary: s rule: less_induct)
  case (less n)
  show ?case
  proof (cases "n = 0")
    case True
    then show ?thesis using less.prems(1) by (simp add: readFully.simps)
  next
    case False
    then have "pending s \<noteq> []" using less.prems by auto
    from read_some [OF less.prems(1) this, of n] False obtain bs s1 where r: "rd n s = Some (bs, s1)" "bs \<noteq> []" "length bs \<le> n"
        "valid s1" "pending s = bs @ pending s1" by auto
    have "n - length bs < n" "n - length bs \<le> length (pending s1)" using r False less.prems by auto
    from less.IH [OF this(1) r(4) this(2)] obtain s' where
      "readFully rd (n - length bs) s1 = Some (take (n - length bs) (pending s1), s')" "valid s'"
      "pending s' = drop (n - length bs) (pending s1)"
      by blast
    then show ?thesis using r False by (subst readFully.simps) simp
  qed
qed

lemma readFully_end: "valid s \<Longrightarrow> length (pending s) < n \<Longrightarrow> readFully rd n s = None"
proof (induction n arbitrary: s rule: less_induct)
  case (less n)
  show ?case
  proof (cases "pending s = []")
    case True
    then show ?thesis using less.prems read_end [of s n] by (subst readFully.simps) simp
  next
    case False
    from read_some [OF less.prems(1) this, of n] less.prems(2) obtain bs s1 where r: "rd n s = Some (bs, s1)" "bs \<noteq> []"
        "length bs \<le> n" "valid s1" "pending s = bs @ pending s1" by auto
    have "n - length bs < n" "length (pending s1) < n - length bs" using r less.prems by auto
    from less.IH [OF this(1) r(4) this(2)] show ?thesis using r less.prems by (subst readFully.simps) simp
  qed
qed

text \<open>\<open>gets f bs v\<close>: on a stream that starts with \<open>bs\<close> the method consumes them and returns \<open>v\<close>.\<close>

definition gets :: "('s \<Rightarrow> ('v \<times> 's) option) \<Rightarrow> bytes \<Rightarrow> 'v \<Rightarrow> bool" where
  "gets f bs v \<longleftrightarrow> (\<forall>s rest. valid s \<longrightarrow> pending s = bs @ rest \<longrightarrow> (\<exists>s'. f s = Some (v, s') \<and> valid s' \<and> pending s' = rest))"

lemma gets_obtain:
  assumes "gets f bs v" "valid s" "pending s = bs @ rest"
  obtains s' where "f s = Some (v, s')" "valid s'" "pending s' = rest"
  using assms unfolding gets_def by blast

lemma readFully_gets: "gets (readFully rd (length bs)) bs bs"
  unfolding gets_def
proof (intro allI impI)
  fix s rest assume "valid s" "pending s = bs @ rest"
  with readFully_ok [of s "length bs"] show "\<exists>s'. readFully rd (length bs) s = Some (bs, s') \<and> valid s' \<and> pending s' = rest" by simp
qed

lemma gets_map:
  assumes "gets f bs v"
  shows "gets (\<lambda>s. case f s of None \<Rightarrow> None | Some (x, s) \<Rightarrow> Some (g x, s)) bs (g v)"
  using assms unfolding gets_def by fastforce

lemma gets_then:
  assumes "gets f as v" "gets (h v) bs w"
  shows "gets (\<lambda>s. case f s of None \<Rightarrow> None | Some (x, s) \<Rightarrow> h x s) (as @ bs) w"
  unfolding gets_def
proof (intro allI impI)
  fix s rest assume "valid s" "pending s = (as @ bs) @ rest"
  then have "pending s = as @ (bs @ rest)" by simp
  from gets_obtain [OF assms(1) \<open>valid s\<close> this] obtain s1 where s1: "f s = Some (v, s1)" "valid s1" "pending s1 = bs @ rest" .
  from gets_obtain [OF assms(2) s1(2,3)] obtain s2 where "h v s1 = Some (w, s2)" "valid s2" "pending s2 = rest" .
  with s1(1) show "\<exists>s'. (case f s of None \<Rightarrow> None | Some (x, s) \<Rightarrow> h x s) = Some (w, s') \<and> valid s' \<and> pending s' = rest" by auto
qed

lemma gets_value: "gets f bs v \<Longrightarrow> v = w \<Longrightarrow> gets f bs w"
  by simp

lemma gets_return: "gets (\<lambda>s. Some (v, s)) [] v"
  by (simp add: gets_def)

end

section \<open>Numbers\<close>

definition be16 :: "16 word \<Rightarrow> bytes" where
  "be16 x = [GETBYTE x 1, GETBYTE x 0]"

definition be32 :: "32 word \<Rightarrow> bytes" where
  "be32 x = [GETBYTE x 3, GETBYTE x 2, GETBYTE x 1, GETBYTE x 0]"

definition be64 :: "64 word \<Rightarrow> bytes" where
  "be64 x = [GETBYTE x 7, GETBYTE x 6, GETBYTE x 5, GETBYTE x 4, GETBYTE x 3, GETBYTE x 2, GETBYTE x 1, GETBYTE x 0]"

lemma be_length [simp]: "length (be16 x) = 2" "length (be32 y) = 4" "length (be64 z) = 8"
  by (simp_all add: be16_def be32_def be64_def)

lemma and_255: "x AND 255 = take_bit 8 (x :: 'a :: len word)"
  by (simp add: take_bit_eq_mask mask_eq_exp_minus_1)

lemma bit_GETBYTE: "bit (GETBYTE (x :: 'a :: len word) n) k \<longleftrightarrow> k < 8 \<and> bit x (n * 8 + k)"
  unfolding GETBYTE_def and_255 by (auto simp: bit_simps dest: bit_imp_le_length)

lemma bit_SETBYTE: "bit (SETBYTE y n :: 'a :: len word) k \<longleftrightarrow> k < LENGTH('a) \<and> n * 8 \<le> k \<and> k < n * 8 + 8 \<and> bit y (k - n * 8)"
  unfolding SETBYTE_def and_255 by (auto simp: bit_simps)

lemma bit_byte_back:
  "bit (SETBYTE (GETBYTE x n) n :: 'a word) k \<longleftrightarrow> n * 8 \<le> k \<and> k < n * 8 + 8 \<and> bit (x :: 'a :: len word) k"
  by (auto simp: bit_SETBYTE bit_GETBYTE dest: bit_imp_le_length)

text \<open>Bytes at different places: their sum is their disjunction.\<close>

lemma add_or: "x AND y = 0 \<Longrightarrow> x + y = (x OR y :: 'a :: len word)"
  by (rule disjunctive_add_eq_or)

lemma be16_value: "SETBYTE (GETBYTE x 1) 1 + SETBYTE (GETBYTE x 0) 0 = (x :: 16 word)"
proof -
  have "SETBYTE (GETBYTE x 1) 1 + SETBYTE (GETBYTE x 0) 0 = (SETBYTE (GETBYTE x 1) 1 OR SETBYTE (GETBYTE x 0) 0 :: 16 word)"
    by (rule add_or, rule bit_word_eqI) (auto simp: bit_simps bit_byte_back)
  also have "\<dots> = x"
    by (rule bit_word_eqI) (auto simp: bit_simps bit_byte_back dest: bit_imp_le_length)
  finally show ?thesis .
qed

lemma be32_value:
  "SETBYTE (GETBYTE x 3) 3 + SETBYTE (GETBYTE x 2) 2 + SETBYTE (GETBYTE x 1) 1 + SETBYTE (GETBYTE x 0) 0 = (x :: 32 word)"
proof -
  have "SETBYTE (GETBYTE x 3) 3 + SETBYTE (GETBYTE x 2) 2 + SETBYTE (GETBYTE x 1) 1 + SETBYTE (GETBYTE x 0) 0 =
      (SETBYTE (GETBYTE x 3) 3 OR SETBYTE (GETBYTE x 2) 2 OR SETBYTE (GETBYTE x 1) 1 OR SETBYTE (GETBYTE x 0) 0 :: 32 word)"
    by (rule or4_add [symmetric]; rule bit_word_eqI; auto simp: bit_simps bit_byte_back)
  also have "\<dots> = x"
    by (rule bit_word_eqI) (auto simp: bit_simps bit_byte_back dest: bit_imp_le_length)
  finally show ?thesis .
qed

context output_stream
begin

lemma writeUInt8_puts: "puts (writeUInt8 wr x) [x]"
  using writeFully_puts [of "[x]"] by (simp add: puts_def writeUInt8_def)

lemma writeUInt16_puts: "puts (writeUInt16 wr x) (be16 x)"
  using writeFully_puts [of "be16 x"] by (simp add: puts_def writeUInt16_def be16_def)

lemma writeUInt32_puts: "puts (writeUInt32 wr x) (be32 x)"
  using writeFully_puts [of "be32 x"] by (simp add: puts_def writeUInt32_def be32_def)

lemmas numbers_puts = writeUInt8_puts writeUInt16_puts writeUInt32_puts

end

context input_stream
begin

lemma readUInt8_gets: "gets (readUInt8 rd) [x] x"
  using gets_map [OF readFully_gets [of "[x]"], of "\<lambda>buf. buf ! 0"] by (simp add: gets_def readUInt8_def)

lemma readUInt16_gets: "gets (readUInt16 rd) (be16 x) x"
  using gets_map [OF readFully_gets [of "be16 x"], of "\<lambda>buf. SETBYTE (buf ! 0) 1 + SETBYTE (buf ! 1) 0 :: 16 word"]
  unfolding gets_def readUInt16_def be_length by (simp add: be16_def be16_value [simplified])

lemma readUInt32_gets: "gets (readUInt32 rd) (be32 x) x"
  using gets_map [OF readFully_gets [of "be32 x"],
      of "\<lambda>buf. SETBYTE (buf ! 0) 3 + SETBYTE (buf ! 1) 2 + SETBYTE (buf ! 2) 1 + SETBYTE (buf ! 3) 0 :: 32 word"]
  unfolding gets_def readUInt32_def be_length by (simp add: be32_def be32_value [simplified])

end

section \<open>The byte arrays keep the contracts\<close>

definition out_ready :: "byte_array_output \<Rightarrow> bool" where
  "out_ready s \<longleftrightarrow> out_own s \<and> out_max s = length (out_buffer s) \<and> out_size s \<le> out_max s"

lemma length_new_block [simp]: "length (new_block junk n) = n"
  by (simp add: new_block_def)

lemma ByteArrayOutputStream_write_ok:
  assumes s: "out_ready s"
  shows "\<exists>s'. ByteArrayOutputStream_write junk bs s = Some (length bs, s') \<and> out_ready s' \<and> toByteArray s' = toByteArray s @ bs"
proof -
  define t where "t = (if out_size s + length bs > out_max s \<and> out_own s
    then s\<lparr>out_buffer := take (out_size s) (out_buffer s) @
             drop (out_size s) (new_block junk (out_size s + length bs + DEFAULT_INNER_BUFFER_CAPACITY)),
           out_max := out_size s + length bs + DEFAULT_INNER_BUFFER_CAPACITY\<rparr>
    else s)"
  have t: "out_ready t" "out_size t = out_size s" "toByteArray t = toByteArray s" "out_size t + length bs \<le> out_max t"
    using s by (auto simp: t_def out_ready_def toByteArray_def)
  have "ByteArrayOutputStream_write junk bs s =
      (case store (int (out_size t)) bs (out_buffer t) of
         None \<Rightarrow> None | Some b \<Rightarrow> Some (length bs, t\<lparr>out_buffer := b, out_size := out_size t + length bs\<rparr>))"
    by (cases "out_size s + length bs > out_max s \<and> out_own s") (simp_all only: ByteArrayOutputStream_write_def t_def Let_def if_True if_False)
  then show ?thesis
    using t s by (auto simp: store_def in_block_def out_ready_def toByteArray_def nat_int_add)
qed

interpretation byte_out: output_stream "ByteArrayOutputStream_write junk" toByteArray out_ready for junk
proof (unfold_locales, goal_cases)
  case (1 s bs)
  then show ?case using ByteArrayOutputStream_write_ok [of s junk bs] by auto
qed

lemma ByteArrayOutputStream_new_ok:
  "out_ready (ByteArrayOutputStream_new junk n)" "toByteArray (ByteArrayOutputStream_new junk n) = []"
  by (simp_all add: ByteArrayOutputStream_new_def out_ready_def toByteArray_def)

definition in_pending :: "byte_array_input \<Rightarrow> bytes" where
  "in_pending s = drop (length (in_buffer s) - in_left s) (in_buffer s)"

definition in_valid :: "byte_array_input \<Rightarrow> bool" where
  "in_valid s \<longleftrightarrow> in_left s \<le> length (in_buffer s)"

interpretation byte_in: input_stream ByteArrayInputStream_read in_pending in_valid
proof (unfold_locales, goal_cases)
  case (1 s n)
  define m where "m = min (in_left s) n"
  have l: "0 < in_left s" "in_left s \<le> length (in_buffer s)" using 1 by (auto simp: in_pending_def in_valid_def)
  then have m: "0 < m" "m \<le> in_left s" "m \<le> n" using 1 by (simp_all add: m_def)
  have "in_pending s = take m (in_pending s) @ in_pending (s\<lparr>in_left := in_left s - m\<rparr>)"
  proof -
    have "length (in_buffer s) - (in_left s - m) = m + (length (in_buffer s) - in_left s)" using l m by simp
    then have "in_pending (s\<lparr>in_left := in_left s - m\<rparr>) = drop m (in_pending s)" by (simp add: in_pending_def)
    then show ?thesis by simp
  qed
  then show ?case
    using l m by (intro exI [of _ "take m (in_pending s)"] exI [of _ "s\<lparr>in_left := in_left s - m\<rparr>"])
      (auto simp: ByteArrayInputStream_read_def m_def [symmetric] in_pending_def in_valid_def)
next
  case (2 s n)
  then show ?case by (simp add: ByteArrayInputStream_read_def in_pending_def in_valid_def)
qed

lemma ByteArrayInputStream_new_ok: "in_valid (ByteArrayInputStream_new b)" "in_pending (ByteArrayInputStream_new b) = b"
  by (simp_all add: ByteArrayInputStream_new_def in_valid_def in_pending_def)

section \<open>Both directions\<close>

text \<open>A pair of streams, one to write and one to read.\<close>

locale stream_pair = out: output_stream wr sent ready + inp: input_stream rd pending valid
  for wr :: "'w writer" and sent and ready and rd :: "'i reader" and pending and valid
begin

end

interpretation byte_pair: stream_pair "ByteArrayOutputStream_write heap" toByteArray out_ready ByteArrayInputStream_read in_pending in_valid
  for heap ..

end
