(* ===== verification/PixelWords.thy ===== *)
theory PixelWords
  imports DataStreams BufferFill
begin

text \<open>
  Pixels as machine words: the codecs read the block of a frame buffer as an array of
  \<open>UINT8\<close>, \<open>UINT16\<close> or \<open>UINT32\<close>. A pixel of \<open>n\<close> bytes is a 32-bit word whose upper bits are zero.
\<close>

unbundle bit_operations_syntax

primrec le_word :: "bytes \<Rightarrow> 32 word" where
  "le_word [] = 0"
| "le_word (b # bs) = ucast b OR push_bit 8 (le_word bs)"

text \<open>\<open>buffer[i]\<close> for an array of pixels of \<open>ps\<close> bytes.\<close>

definition pixel_at :: "frame_buffer \<Rightarrow> int \<Rightarrow> int \<Rightarrow> 32 word option" where
  "pixel_at fb ps i = map_option le_word (load (i * ps) ps (buffer fb))"

text \<open>
  A colour variable into which fewer than four bytes are read: the others keep what they
  held (\<open>w\<close>).
\<close>

definition put_low :: "bytes \<Rightarrow> 32 word \<Rightarrow> 32 word" where
  "put_low bs w = le_word (bs @ drop (length bs) (le_bytes w))"

section \<open>Words and their bytes\<close>

lemma bit_le_word: "bit (le_word bs) k \<longleftrightarrow> k < 32 \<and> k div 8 < length bs \<and> bit (bs ! (k div 8)) (k mod 8)"
proof (induction bs arbitrary: k)
  case (Cons b bs)
  show ?case
  proof (cases "k < 8")
    case True
    then show ?thesis by (auto simp: bit_simps)
  next
    case False
    then obtain j where k: "k = j + 8" by (metis le_add_diff_inverse2 not_less)
    have "\<not> bit b (j + 8)" by (auto dest: bit_imp_le_length)
    moreover have "(j + 8) div 8 = Suc (j div 8)" "(j + 8) mod 8 = j mod 8" by simp_all
    ultimately show ?thesis using Cons.IH [of j] by (auto simp: k bit_simps simp del: div_add_self2)
  qed
qed simp

lemma length_le_bytes [simp]: "length (le_bytes w) = 4"
  by (simp add: le_bytes_def)

lemma bit_le_bytes: "i < 4 \<Longrightarrow> bit (le_bytes w ! i) k \<longleftrightarrow> k < 8 \<and> bit w (8 * i + k)"
  by (auto simp: le_bytes_def bit_simps dest: bit_imp_le_length)

lemma take_le_bytes:
  assumes "length bs \<le> 4"
  shows "take (length bs) (le_bytes (le_word (bs @ rest))) = bs"
proof (rule nth_equalityI)
  fix i assume "i < length (take (length bs) (le_bytes (le_word (bs @ rest))))"
  then have i: "i < length bs" "i < 4" by auto
  have "bit (le_bytes (le_word (bs @ rest)) ! i) k = bit (bs ! i) k" for k
    using i assms by (cases "k < 8") (auto simp: bit_le_bytes bit_le_word nth_append div_mult_self2 dest: bit_imp_le_length)
  then have "le_bytes (le_word (bs @ rest)) ! i = bs ! i" by (intro bit_word_eqI) blast
  then show "take (length bs) (le_bytes (le_word (bs @ rest))) ! i = bs ! i" using i by simp
qed (use assms in simp)

lemma le_word_take: "n \<le> 4 \<Longrightarrow> le_word (take n (le_bytes w)) = take_bit (8 * n) w"
proof (rule bit_word_eqI)
  fix k assume n: "n \<le> 4" and "k < LENGTH(32)"
  have "k div 8 < n \<longleftrightarrow> k < 8 * n" by (metis div_less_iff_less_mult mult.commute zero_less_numeral)
  moreover have "bit (le_bytes w ! (k div 8)) (k mod 8) = bit w k" if "k div 8 < 4"
    using that by (simp add: bit_le_bytes)
  ultimately show "bit (le_word (take n (le_bytes w))) k = bit (take_bit (8 * n) w) k"
    using n \<open>k < LENGTH(32)\<close> by (auto simp: bit_le_word bit_simps)
qed

lemma color_bytes_put_low:
  assumes "fb_ok fb" "int (length bs) = pixel_size fb"
  shows "color_bytes fb (put_low bs w) = bs"
proof -
  have "length bs \<le> 4" "nat (pixel_size fb) = length bs" using assms fb_ok_size by fastforce+
  then show ?thesis using take_le_bytes by (simp add: color_bytes_def put_low_def)
qed

section \<open>Pixels of a frame buffer\<close>

lemma length_pixel: "fb_ok fb \<Longrightarrow> int (length (pixel fb x y)) = pixel_size fb"
  using fb_ok_size_pos by (force simp: pixel_def)

lemma load_pixel:
  assumes ok: "fb_ok fb" and i: "inside fb x y"
  shows "load ((y * width (dim fb) + x) * pixel_size fb) (pixel_size fb) (buffer fb) = Some (pixel fb x y)"
proof -
  let ?P = "pixel_size fb" and ?S = "stride fb"
  have off: "(y * width (dim fb) + x) * ?P = y * ?S + x * ?P" by (simp add: stride_def algebra_simps)
  have size: "int (length (buffer fb)) = height (dim fb) * ?S" using ok by (simp add: fb_ok_def)
  have P: "0 < ?P" by (rule fb_ok_size_pos [OF ok])
  have x: "0 \<le> x" "x + 1 \<le> width (dim fb)" "0 \<le> y" "y < height (dim fb)" using i by (simp_all add: inside_def)
  have "(x + 1) * ?P \<le> ?S" unfolding stride_def by (rule mult_right_mono) (use x P in auto)
  then have "in_block (y * ?S + x * ?P) ?P (buffer fb)"
    using x P by (intro row_in_block [OF x(3,4) _ _ _ size]) (auto simp: algebra_simps)
  then obtain bs where bs: "load (y * ?S + x * ?P) ?P (buffer fb) = Some bs" "int (length bs) = ?P"
      "\<And>k. 0 \<le> k \<Longrightarrow> k < ?P \<Longrightarrow> peek bs k = peek (buffer fb) (y * ?S + x * ?P + k)" by (rule load_ok) blast
  have "bs = pixel fb x y"
  proof (rule nth_equalityI)
    show "length bs = length (pixel fb x y)" using bs(2) length_pixel [OF ok, of x y] by simp
    fix k assume "k < length bs"
    then have k: "int k < ?P" "k < nat ?P" using bs(2) by auto
    then show "bs ! k = pixel fb x y ! k" using bs(3) [of "int k"] by (simp add: pixel_def peek_def [of bs] add.assoc)
  qed
  with bs(1) off show ?thesis by simp
qed

lemma pixel_at_ok: "fb_ok fb \<Longrightarrow> inside fb x y \<Longrightarrow> pixel_at fb (pixel_size fb) (y * width (dim fb) + x) = Some (le_word (pixel fb x y))"
  by (simp add: pixel_at_def load_pixel)

end
