(* ===== verification/RreCodec.thy ===== *)
theory RreCodec
  imports PixelWords
begin

text \<open>
  The rise-and-run-length encoding: \<open>rfb-sconn/RreEncoder.cpp\<close> of the server and
  \<open>viewer-core/RreDecoder.cpp\<close> of the viewer. Pixels are words (\<open>PixelWords\<close>).
\<close>

unbundle bit_operations_syntax

section \<open>The encoder\<close>

text \<open>A mask that cuts the bits of a pixel that carry no colour.\<close>

definition pixel_mask :: "pixel_format \<Rightarrow> nat \<Rightarrow> 32 word" where
  "pixel_mask pf n =
     take_bit (8 * n) (push_bit (redShift pf) (word_of_nat (redMax pf)) OR
       push_bit (greenShift pf) (word_of_nat (greenMax pf)) OR push_bit (blueShift pf) (word_of_nat (blueMax pf)))"

definition RECT_SIZE :: int where "RECT_SIZE = 64"

function split_cols :: "rect \<Rightarrow> int \<Rightarrow> int \<Rightarrow> rect list \<Rightarrow> rect list" where
  "split_cols r y0 x0 rectList =
     (if x0 < rright r then
        (let x1 = min (x0 + RECT_SIZE) (rright r); y1 = min (y0 + RECT_SIZE) (rbottom r)
         in split_cols r y0 (x0 + RECT_SIZE) (rectList @ [setRect x0 y0 x1 y1]))
      else rectList)"
  by pat_completeness auto
termination
  by (relation "measure (\<lambda>(r, y0, x0, rectList). nat (rright r - x0))") (auto simp: RECT_SIZE_def)

declare split_cols.simps [simp del]

function split_rows :: "rect \<Rightarrow> int \<Rightarrow> rect list \<Rightarrow> rect list" where
  "split_rows r y0 rectList =
     (if y0 < rbottom r then split_rows r (y0 + RECT_SIZE) (split_cols r y0 (rleft r) rectList) else rectList)"
  by pat_completeness auto
termination
  by (relation "measure (\<lambda>(r, y0, rectList). nat (rbottom r - y0))") (auto simp: RECT_SIZE_def)

declare split_rows.simps [simp del]

definition RreEncoder_splitRectangle :: "rect \<Rightarrow> rect list \<Rightarrow> rect list" where
  "RreEncoder_splitRectangle r rectList = split_rows r (rtop r) rectList"

text \<open>
  The subrectangles found so far, each with its colour; the code keeps them in two vectors of
  the same size.
\<close>

type_synonym subrects = "(32 word \<times> rect) list"

definition new_subrect :: "rect \<Rightarrow> int \<Rightarrow> int \<Rightarrow> 32 word \<Rightarrow> subrects \<Rightarrow> subrects" where
  "new_subrect r i j c subs = subs @ [(c, setLocation (j - rleft r) (i - rtop r) (setRect 0 0 1 1))]"

definition widen_last :: "subrects \<Rightarrow> subrects" where
  "widen_last subs =
     butlast subs @ [(fst (last subs), (snd (last subs))\<lparr>rright := rright (snd (last subs)) + 1\<rparr>)]"

function rre_row :: "frame_buffer \<Rightarrow> int \<Rightarrow> 32 word \<Rightarrow> 32 word \<Rightarrow> rect \<Rightarrow> int \<Rightarrow> int \<Rightarrow> subrects \<Rightarrow> subrects option" where
  "rre_row fb ps msk bg r i j subs =
     (if j < rright r then
        (case pixel_at fb ps (i * width (dim fb) + j) of
           None \<Rightarrow> None
         | Some p \<Rightarrow>
             if p AND msk \<noteq> bg then
               (if subs = [] then rre_row fb ps msk bg r i (j + 1) (new_subrect r i j (p AND msk) subs)
                else
                  (case pixel_at fb ps (i * width (dim fb) + j - 1) of
                     None \<Rightarrow> None
                   | Some q \<Rightarrow>
                       if p AND msk \<noteq> q AND msk \<or> rtop (snd (last subs)) \<noteq> i - rtop r
                       then rre_row fb ps msk bg r i (j + 1) (new_subrect r i j (p AND msk) subs)
                       else rre_row fb ps msk bg r i (j + 1) (widen_last subs)))
             else rre_row fb ps msk bg r i (j + 1) subs)
      else Some subs)"
  by pat_completeness auto
termination
  by (relation "measure (\<lambda>(fb, ps, msk, bg, r, i, j, subs). nat (rright r - j))") auto

declare rre_row.simps [simp del]

function rre_rows :: "frame_buffer \<Rightarrow> int \<Rightarrow> 32 word \<Rightarrow> 32 word \<Rightarrow> rect \<Rightarrow> int \<Rightarrow> subrects \<Rightarrow> subrects option" where
  "rre_rows fb ps msk bg r i subs =
     (if i < rbottom r then
        (case rre_row fb ps msk bg r i (rleft r) subs of
           None \<Rightarrow> None
         | Some subs \<Rightarrow> rre_rows fb ps msk bg r (i + 1) subs)
      else Some subs)"
  by pat_completeness auto
termination
  by (relation "measure (\<lambda>(fb, ps, msk, bg, r, i, subs). nat (rbottom r - i))") auto

declare rre_rows.simps [simp del]

primrec rre_send :: "'s writer \<Rightarrow> nat \<Rightarrow> subrects \<Rightarrow> 's \<Rightarrow> 's option" where
  "rre_send wr n [] s = Some s"
| "rre_send wr n (sub # subs) s =
     (case writeFully wr (take n (le_bytes (fst sub))) s of None \<Rightarrow> None | Some s \<Rightarrow>
     (case writeUInt16 wr (word_of_int (rleft (snd sub))) s of None \<Rightarrow> None | Some s \<Rightarrow>
     (case writeUInt16 wr (word_of_int (rtop (snd sub))) s of None \<Rightarrow> None | Some s \<Rightarrow>
     (case writeUInt16 wr (word_of_int (getWidth (snd sub))) s of None \<Rightarrow> None | Some s \<Rightarrow>
     (case writeUInt16 wr (word_of_int (getHeight (snd sub))) s of None \<Rightarrow> None | Some s \<Rightarrow>
        rre_send wr n subs s)))))"

definition rreEncode :: "'s writer \<Rightarrow> nat \<Rightarrow> rect \<Rightarrow> frame_buffer \<Rightarrow> 's \<Rightarrow> 's option" where
  "rreEncode wr n r fb s =
     (let msk = pixel_mask (fmt fb) n in
      case pixel_at fb (int n) (rtop r * width (dim fb) + rleft r) of
        None \<Rightarrow> None
      | Some p \<Rightarrow>
          (case rre_rows fb (int n) msk (p AND msk) r (rtop r) [] of
             None \<Rightarrow> None
           | Some subs \<Rightarrow>
               (case writeUInt32 wr (word_of_nat (length subs)) s of None \<Rightarrow> None | Some s \<Rightarrow>
               (case writeFully wr (take n (le_bytes (p AND msk))) s of None \<Rightarrow> None | Some s \<Rightarrow>
                  rre_send wr n subs s))))"

text \<open>\<open>convert\<close> stands for the pixel converter, which gives the buffer in the format of the client.\<close>

definition RreEncoder_sendRectangle ::
  "'s writer \<Rightarrow> (rect \<Rightarrow> frame_buffer \<Rightarrow> frame_buffer) \<Rightarrow> rect \<Rightarrow> frame_buffer \<Rightarrow> 's \<Rightarrow> 's option" where
  "RreEncoder_sendRectangle wr convert r serverFb s =
     (let fb = convert r serverFb; bpp = getBitsPerPixel fb
      in if bpp = 8 then rreEncode wr 1 r fb s
         else if bpp = 16 then rreEncode wr 2 r fb s
         else if bpp = 32 then rreEncode wr 4 r fb s
         else Some s)"

section \<open>The decoder\<close>

primrec rre_fills :: "'s reader \<Rightarrow> nat \<Rightarrow> 32 word \<Rightarrow> rect \<Rightarrow> nat \<Rightarrow> frame_buffer \<Rightarrow> 's \<Rightarrow> (frame_buffer \<times> 's) option" where
  "rre_fills rd bytesPerPixel junk dstRect 0 fb s = Some (fb, s)"
| "rre_fills rd bytesPerPixel junk dstRect (Suc numberRectangle) fb s =
     (case readFully rd bytesPerPixel s of None \<Rightarrow> None | Some (color, s) \<Rightarrow>
     (case readUInt16 rd s of None \<Rightarrow> None | Some (x, s) \<Rightarrow>
     (case readUInt16 rd s of None \<Rightarrow> None | Some (y, s) \<Rightarrow>
     (case readUInt16 rd s of None \<Rightarrow> None | Some (w, s) \<Rightarrow>
     (case readUInt16 rd s of None \<Rightarrow> None | Some (h, s) \<Rightarrow>
        let r = setRect (uint x) (uint y) (uint x + uint w) (uint y + uint h);
            r = move (rleft dstRect) (rtop dstRect) r
        in case fillRect r (put_low color junk) fb of
             None \<Rightarrow> None
           | Some fb \<Rightarrow> rre_fills rd bytesPerPixel junk dstRect numberRectangle fb s)))))"

definition RreDecoder_decode :: "'s reader \<Rightarrow> 32 word \<Rightarrow> rect \<Rightarrow> frame_buffer \<Rightarrow> 's \<Rightarrow> (frame_buffer \<times> 's) option" where
  "RreDecoder_decode rd junk dstRect fb s =
     (case readUInt32 rd s of None \<Rightarrow> None | Some (numberRectangle, s) \<Rightarrow>
      let bytesPerPixel = nat (getBytesPerPixel fb) in
      case readFully rd bytesPerPixel s of None \<Rightarrow> None | Some (backgroundColor, s) \<Rightarrow>
      (case fillRect dstRect (put_low backgroundColor junk) fb of
         None \<Rightarrow> None
       | Some fb \<Rightarrow> rre_fills rd bytesPerPixel junk dstRect (unat numberRectangle) fb s))"

end
