(* ===== verification/RreScan.thy ===== *)
theory RreScan
  imports RreCodec
begin

text \<open>
  What the encoder's scan finds: painting the subrectangles over the background gives the
  masked picture. Coordinates are relative to the rectangle.
\<close>

unbundle bit_operations_syntax

section \<open>Painting\<close>

type_synonym colors = "int \<Rightarrow> int \<Rightarrow> 32 word"

primrec paint :: "subrects \<Rightarrow> colors \<Rightarrow> colors" where
  "paint [] f = f"
| "paint (sub # subs) f = paint subs (\<lambda>x y. if isPointInRect (snd sub) x y then fst sub else f x y)"

lemma paint_append [simp]: "paint (as @ bs) f = paint bs (paint as f)"
  by (induction as arbitrary: f) auto

definition sub_ok :: "rect \<Rightarrow> 32 word \<times> rect \<Rightarrow> bool" where
  "sub_ok r sub \<longleftrightarrow> 0 \<le> rleft (snd sub) \<and> rleft (snd sub) < rright (snd sub) \<and> rright (snd sub) \<le> getWidth r \<and>
     0 \<le> rtop (snd sub) \<and> rtop (snd sub) < rbottom (snd sub) \<and> rbottom (snd sub) \<le> getHeight r"

definition rect_within :: "frame_buffer \<Rightarrow> rect \<Rightarrow> bool" where
  "rect_within fb r \<longleftrightarrow> 0 \<le> rleft r \<and> rleft r < rright r \<and> rright r \<le> width (dim fb) \<and>
     0 \<le> rtop r \<and> rtop r < rbottom r \<and> rbottom r \<le> height (dim fb)"

text \<open>The masked pixel at a place of the rectangle.\<close>

definition masked :: "frame_buffer \<Rightarrow> 32 word \<Rightarrow> rect \<Rightarrow> colors" where
  "masked fb msk r x y = le_word (pixel fb (rleft r + x) (rtop r + y)) AND msk"

section \<open>The invariant of the scan\<close>

definition scanned :: "(int \<Rightarrow> int \<Rightarrow> 32 word) \<Rightarrow> 32 word \<Rightarrow> rect \<Rightarrow> int \<Rightarrow> int \<Rightarrow> subrects \<Rightarrow> bool" where
  "scanned mp bg r i j subs \<longleftrightarrow>
     (\<forall>sub \<in> set subs. sub_ok r sub) \<and>
     (\<forall>x y. 0 \<le> x \<longrightarrow> x < getWidth r \<longrightarrow> 0 \<le> y \<longrightarrow> y < getHeight r \<longrightarrow>
        paint subs (\<lambda>x y. bg) x y = (if y < i \<or> y = i \<and> x < j then mp x y else bg)) \<and>
     (subs \<noteq> [] \<longrightarrow> rtop (snd (last subs)) \<le> i \<and>
        (rtop (snd (last subs)) = i \<longrightarrow>
           0 < j \<and> rbottom (snd (last subs)) = i + 1 \<and>
           (mp (j - 1) i \<noteq> bg \<longrightarrow> rright (snd (last subs)) = j \<and> fst (last subs) = mp (j - 1) i))) \<and>
     int (length subs) \<le> i * getWidth r + j"

lemma scanned_start: "scanned mp bg r 0 0 []"
  by (simp add: scanned_def)

lemma scanned_next_row:
  assumes "scanned mp bg r i (getWidth r) subs"
  shows "scanned mp bg r (i + 1) 0 subs"
proof -
  have "int (length subs) \<le> (i + 1) * getWidth r + 0" using assms by (simp add: scanned_def distrib_right)
  with assms show ?thesis unfolding scanned_def by (auto simp: order_less_le)
qed

lemma scanned_skip:
  assumes "scanned mp bg r i j subs" "mp j i = bg" "0 \<le> j"
  shows "scanned mp bg r i (j + 1) subs"
  using assms unfolding scanned_def by (auto simp: order_less_le)

lemma new_subrect_snd:
  "snd (last (new_subrect r i j c subs)) = setRect (j - rleft r) (i - rtop r) (j - rleft r + 1) (i - rtop r + 1)"
  by (simp add: new_subrect_def setLocation_def setRect_def)

lemma scanned_new:
  assumes s: "scanned mp bg r (i - rtop r) (j - rleft r) subs" and c: "c = mp (j - rleft r) (i - rtop r)"
    and r: "rleft r \<le> j" "j < rright r" "rtop r \<le> i" "i < rbottom r"
  shows "scanned mp bg r (i - rtop r) (j - rleft r + 1) (new_subrect r i j c subs)"
proof -
  define q where "q = setRect (j - rleft r) (i - rtop r) (j - rleft r + 1) (i - rtop r + 1)"
  have n: "new_subrect r i j c subs = subs @ [(c, q)]"
    by (simp add: new_subrect_def setLocation_def setRect_def q_def)
  have "sub_ok r (c, q)" using r by (simp add: sub_ok_def q_def getWidth_def getHeight_def)
  moreover have "paint (subs @ [(c, q)]) (\<lambda>x y. bg) x y =
      (if y < i - rtop r \<or> y = i - rtop r \<and> x < j - rleft r + 1 then mp x y else bg)"
    if "0 \<le> x" "x < getWidth r" "0 \<le> y" "y < getHeight r" for x y
    using s that c by (auto simp: scanned_def in_rect q_def)
  ultimately show ?thesis using s r c unfolding n scanned_def by (auto simp: q_def)
qed

lemma scanned_widen:
  assumes s: "scanned mp bg r (i - rtop r) (j - rleft r) subs" and ne: "subs \<noteq> []"
    and row: "rtop (snd (last subs)) = i - rtop r" and c: "mp (j - rleft r) (i - rtop r) = mp (j - rleft r - 1) (i - rtop r)"
    and bg: "mp (j - rleft r) (i - rtop r) \<noteq> bg"
    and r: "rleft r \<le> j" "j < rright r" "rtop r \<le> i" "i < rbottom r"
  shows "scanned mp bg r (i - rtop r) (j - rleft r + 1) (widen_last subs)"
proof -
  obtain as d q where subs: "subs = as @ [(d, q)]" using ne by (metis append_butlast_last_id prod.collapse)
  have q: "rtop q = i - rtop r" "rbottom q = i - rtop r + 1" "rright q = j - rleft r" "d = mp (j - rleft r) (i - rtop r)"
    using s row c bg by (auto simp: scanned_def subs)
  have sub: "sub_ok r (d, q)" using s by (simp add: scanned_def subs)
  define q' where "q' = q\<lparr>rright := rright q + 1\<rparr>"
  have w: "widen_last subs = as @ [(d, q')]" by (simp add: widen_last_def subs q'_def)
  have q': "isPointInRect q' x y \<longleftrightarrow> isPointInRect q x y \<or> x = j - rleft r \<and> y = i - rtop r" for x y
    using q sub by (auto simp: in_rect q'_def sub_ok_def)
  have "paint (as @ [(d, q')]) (\<lambda>x y. bg) x y =
      (if y < i - rtop r \<or> y = i - rtop r \<and> x < j - rleft r + 1 then mp x y else bg)"
    if xy: "0 \<le> x" "x < getWidth r" "0 \<le> y" "y < getHeight r" for x y
  proof -
    have "paint subs (\<lambda>x y. bg) x y = (if y < i - rtop r \<or> y = i - rtop r \<and> x < j - rleft r then mp x y else bg)"
      using s xy by (simp add: scanned_def)
    then show ?thesis unfolding subs paint_append by (auto simp: q' q(4))
  qed
  moreover have "sub_ok r (d, q')" using sub q r by (simp add: sub_ok_def q'_def getWidth_def)
  ultimately show ?thesis using s q r unfolding w unfolding scanned_def subs by (auto simp: q'_def)
qed

section \<open>The loops\<close>

lemma inside_within: "rect_within fb r \<Longrightarrow> isPointInRect r x y \<Longrightarrow> inside fb x y"
  by (auto simp: rect_within_def in_rect inside_def)

lemma rre_row_ok:
  assumes ok: "fb_ok fb" and r: "rect_within fb r" and ps: "ps = pixel_size fb" and mp: "mp = masked fb msk r"
    and i: "rtop r \<le> i" "i < rbottom r"
  shows "rleft r \<le> j \<Longrightarrow> j \<le> rright r \<Longrightarrow> scanned mp bg r (i - rtop r) (j - rleft r) subs \<Longrightarrow>
    \<exists>subs'. rre_row fb ps msk bg r i j subs = Some subs' \<and> scanned mp bg r (i - rtop r) (getWidth r) subs'"
proof (induction "nat (rright r - j)" arbitrary: j subs)
  case 0
  then show ?case by (subst rre_row.simps) (simp add: getWidth_def)
next
  case (Suc n)
  have j: "j < rright r" "nat (rright r - (j + 1)) = n" using Suc.hyps(2) by linarith+
  have at: "pixel_at fb ps (i * width (dim fb) + j') = Some (le_word (pixel fb j' i))" if "rleft r \<le> j'" "j' < rright r" for j'
    using pixel_at_ok [OF ok inside_within [OF r, of j' i]] that i by (simp add: ps in_rect)
  have at': "pixel_at fb ps (i * width (dim fb) + j - 1) = Some (le_word (pixel fb (j - 1) i))" if "rleft r < j"
    using at [of "j - 1"] that j(1) by (simp add: algebra_simps)
  define p where "p = le_word (pixel fb j i)"
  have p: "pixel_at fb ps (i * width (dim fb) + j) = Some p" "p AND msk = mp (j - rleft r) (i - rtop r)"
    using at [OF Suc.prems(1) j(1)] by (simp_all add: p_def mp masked_def)
  have next': "j + 1 - rleft r = j - rleft r + 1" by simp
  note IH = Suc.hyps(1) [OF j(2) [symmetric], unfolded next']
  have rest: "rleft r \<le> j + 1" "j + 1 \<le> rright r" using Suc.prems(1) j(1) by simp_all
  note step = rre_row.simps [of fb ps msk bg r i j subs]
  note new = IH [OF rest scanned_new [OF Suc.prems(3) p(2) Suc.prems(1) j(1) i]]
  show ?case
  proof (cases "p AND msk = bg")
    case True
    with IH [OF rest scanned_skip [OF Suc.prems(3)]] p Suc.prems(1) show ?thesis unfolding step by (simp add: j(1))
  next
    case bg: False
    show ?thesis
    proof (cases "subs = []")
      case True
      with new p bg show ?thesis unfolding step by (simp add: j(1))
    next
      case ne: False
      show ?thesis
      proof (cases "j = rleft r")
        case True
        then have "rtop (snd (last subs)) \<noteq> i - rtop r" using Suc.prems(3) ne by (auto simp: scanned_def)
        moreover have "\<exists>q. pixel_at fb ps (i * width (dim fb) + j - 1) = Some q"
        proof -
          have "i - rtop r \<noteq> 0" using Suc.prems(3) ne True by (auto simp: scanned_def)
          then have i0: "0 < i" using i r by (auto simp: rect_within_def)
          have P: "0 < ps" using fb_ok_size_pos [OF ok] ps by simp
          have below: "i * width (dim fb) + j < height (dim fb) * width (dim fb)"
          proof -
            have "(i + 1) * width (dim fb) \<le> height (dim fb) * width (dim fb)"
              by (rule mult_right_mono) (use i r in \<open>auto simp: rect_within_def\<close>)
            then show ?thesis using j(1) r by (simp add: rect_within_def distrib_right)
          qed
          define k where "k = i * width (dim fb) + j - 1"
          have "(k + 1) * ps \<le> height (dim fb) * width (dim fb) * ps"
            using P below by (intro mult_right_mono) (auto simp: k_def)
          moreover have "1 \<le> i * width (dim fb)"
          proof -
            have "1 * 1 \<le> i * width (dim fb)" by (rule mult_mono) (use i0 j(1) r in \<open>auto simp: rect_within_def\<close>)
            then show ?thesis by simp
          qed
          moreover have "0 \<le> j" using Suc.prems(1) r by (simp add: rect_within_def)
          moreover have "int (length (buffer fb)) = height (dim fb) * width (dim fb) * ps"
            using ok by (simp add: fb_ok_def stride_def ps)
          ultimately have "in_block (k * ps) ps (buffer fb)"
            using P by (simp add: in_block_def distrib_right k_def [symmetric]) (simp add: k_def)
          then show ?thesis by (simp add: pixel_at_def load_def k_def)
        qed
        ultimately show ?thesis using new p bg ne unfolding step by (auto simp: j(1))
      next
        case False
        then have l: "rleft r < j" using Suc.prems(1) by simp
        have q: "le_word (pixel fb (j - 1) i) AND msk = mp (j - rleft r - 1) (i - rtop r)"
          by (simp add: mp masked_def)
        show ?thesis
        proof (cases "p AND msk \<noteq> le_word (pixel fb (j - 1) i) AND msk \<or> rtop (snd (last subs)) \<noteq> i - rtop r")
          case True
          with new p bg ne at' [OF l] show ?thesis unfolding step by (simp add: j(1))
        next
          case wid: False
          have "scanned mp bg r (i - rtop r) (j - rleft r + 1) (widen_last subs)"
            by (rule scanned_widen [OF Suc.prems(3) ne]) (use wid p(2) q bg Suc.prems(1) j(1) i in auto)
          from IH [OF rest this] wid p bg ne at' [OF l] show ?thesis unfolding step by (simp add: j(1))
        qed
      qed
    qed
  qed
qed

lemma rre_rows_ok:
  assumes ok: "fb_ok fb" and r: "rect_within fb r" and ps: "ps = pixel_size fb" and mp: "mp = masked fb msk r"
  shows "rtop r \<le> i \<Longrightarrow> i \<le> rbottom r \<Longrightarrow> scanned mp bg r (i - rtop r) 0 subs \<Longrightarrow>
    \<exists>subs'. rre_rows fb ps msk bg r i subs = Some subs' \<and> scanned mp bg r (getHeight r) 0 subs'"
proof (induction "nat (rbottom r - i)" arbitrary: i subs)
  case 0
  then show ?case by (subst rre_rows.simps) (simp add: getHeight_def)
next
  case (Suc n)
  have i: "i < rbottom r" "nat (rbottom r - (i + 1)) = n" using Suc.hyps(2) by linarith+
  have "rleft r \<le> rright r" using r by (simp add: rect_within_def)
  then obtain subs1 where s1: "rre_row fb ps msk bg r i (rleft r) subs = Some subs1" "scanned mp bg r (i - rtop r) (getWidth r) subs1"
    using rre_row_ok [OF ok r ps mp Suc.prems(1) i(1) order_refl] Suc.prems(3) by auto
  have e: "i + 1 - rtop r = i - rtop r + 1" by simp
  have "scanned mp bg r (i + 1 - rtop r) 0 subs1" unfolding e by (rule scanned_next_row [OF s1(2)])
  from Suc.hyps(1) [OF i(2) [symmetric] _ _ this] Suc.prems(1) i(1) s1(1) show ?case
    by (subst rre_rows.simps) simp
qed

text \<open>The result of the whole scan.\<close>

lemma rre_scan_ok:
  assumes ok: "fb_ok fb" and r: "rect_within fb r"
  obtains subs where "rre_rows fb (pixel_size fb) msk bg r (rtop r) [] = Some subs" "\<forall>sub \<in> set subs. sub_ok r sub"
    "\<And>x y. 0 \<le> x \<Longrightarrow> x < getWidth r \<Longrightarrow> 0 \<le> y \<Longrightarrow> y < getHeight r \<Longrightarrow> paint subs (\<lambda>x y. bg) x y = masked fb msk r x y"
    "int (length subs) \<le> getHeight r * getWidth r"
proof -
  have "rtop r \<le> rbottom r" using r by (simp add: rect_within_def)
  with rre_rows_ok [OF ok r refl refl order_refl, of msk bg "[]"] scanned_start obtain subs where
    s: "rre_rows fb (pixel_size fb) msk bg r (rtop r) [] = Some subs" "scanned (masked fb msk r) bg r (getHeight r) 0 subs" by auto
  from that [OF s(1)] s(2) show thesis by (simp add: scanned_def)
qed

end
