(* ===== verification/RreCorrect.thy ===== *)
theory RreCorrect
  imports RreScan
begin

text \<open>
  The encoder and the decoder of the rise-and-run-length encoding fit together, over any
  streams that keep their contracts.
\<close>

unbundle bit_operations_syntax

section \<open>The message\<close>

definition sub_bytes :: "nat \<Rightarrow> 32 word \<times> rect \<Rightarrow> bytes" where
  "sub_bytes n sub = take n (le_bytes (fst sub)) @ be16 (word_of_int (rleft (snd sub))) @ be16 (word_of_int (rtop (snd sub))) @
     be16 (word_of_int (getWidth (snd sub))) @ be16 (word_of_int (getHeight (snd sub)))"

definition rre_message :: "nat \<Rightarrow> 32 word \<Rightarrow> subrects \<Rightarrow> bytes" where
  "rre_message n bg subs = be32 (word_of_nat (length subs)) @ take n (le_bytes bg) @ concat (map (sub_bytes n) subs)"

text \<open>What the viewer is to show: the pixel without the bits that carry no colour.\<close>

definition visible :: "frame_buffer \<Rightarrow> int \<Rightarrow> int \<Rightarrow> bytes" where
  "visible fb x y = color_bytes fb (le_word (pixel fb x y) AND pixel_mask (fmt fb) (nat (pixel_size fb)))"

section \<open>Encoding\<close>

context output_stream
begin

lemma rre_send_puts: "puts (rre_send wr n subs) (concat (map (sub_bytes n) subs))"
proof (induction subs)
  case Nil
  show ?case using puts_return by (simp add: puts_def)
next
  case (Cons sub subs)
  show ?case
    using puts_then [OF writeFully_puts puts_then [OF writeUInt16_puts puts_then [OF writeUInt16_puts puts_then [OF writeUInt16_puts
      puts_then [OF writeUInt16_puts Cons.IH]]]]]
    by (simp add: sub_bytes_def puts_def)
qed

lemma rreEncode_puts:
  assumes ok: "fb_ok fb" and r: "rect_within fb r" and n: "n = nat (pixel_size fb)"
  obtains bg subs where "puts (rreEncode wr n r fb) (rre_message n bg subs)" "\<forall>sub \<in> set subs. sub_ok r sub"
    "\<And>x y. isPointInRect r x y \<Longrightarrow> color_bytes fb (paint subs (\<lambda>x y. bg) (x - rleft r) (y - rtop r)) = visible fb x y"
    "int (length subs) \<le> getHeight r * getWidth r"
proof -
  have ps: "int n = pixel_size fb" using fb_ok_size_pos [OF ok] by (simp add: n)
  define msk bg where "msk = pixel_mask (fmt fb) n" and "bg = le_word (pixel fb (rleft r) (rtop r)) AND pixel_mask (fmt fb) n"
  have first: "pixel_at fb (int n) (rtop r * width (dim fb) + rleft r) = Some (le_word (pixel fb (rleft r) (rtop r)))"
    using pixel_at_ok [OF ok inside_within [OF r, of "rleft r" "rtop r"]] r by (simp add: ps in_rect rect_within_def)
  obtain subs where s: "rre_rows fb (int n) msk bg r (rtop r) [] = Some subs" "\<forall>sub \<in> set subs. sub_ok r sub"
    "\<And>x y. 0 \<le> x \<Longrightarrow> x < getWidth r \<Longrightarrow> 0 \<le> y \<Longrightarrow> y < getHeight r \<Longrightarrow> paint subs (\<lambda>x y. bg) x y = masked fb msk r x y"
    "int (length subs) \<le> getHeight r * getWidth r"
    using rre_scan_ok [OF ok r, folded ps] by blast
  have call: "rreEncode wr n r fb = (\<lambda>s. case writeUInt32 wr (word_of_nat (length subs)) s of None \<Rightarrow> None | Some s \<Rightarrow>
      (case writeFully wr (take n (le_bytes bg)) s of None \<Rightarrow> None | Some s \<Rightarrow> rre_send wr n subs s))"
    using first s(1) by (intro ext) (simp add: rreEncode_def Let_def msk_def bg_def split: option.split)
  show thesis
  proof (rule that [of bg subs])
    show "puts (rreEncode wr n r fb) (rre_message n bg subs)"
      using puts_then [OF writeUInt32_puts puts_then [OF writeFully_puts rre_send_puts]]
      unfolding call rre_message_def .
    show "color_bytes fb (paint subs (\<lambda>x y. bg) (x - rleft r) (y - rtop r)) = visible fb x y" if "isPointInRect r x y" for x y
      using s(3) [of "x - rleft r" "y - rtop r"] that
      by (simp add: in_rect getWidth_def getHeight_def visible_def masked_def msk_def n)
  qed (use s in auto)
qed

end

section \<open>Decoding\<close>

lemma uint_of_int16: "0 \<le> k \<Longrightarrow> k < 65536 \<Longrightarrow> uint (word_of_int k :: 16 word) = k"
  by (simp add: uint_word_of_int)

lemma color_bytes_take:
  assumes "fb_ok fb" "n = nat (pixel_size fb)"
  shows "color_bytes fb (put_low (take n (le_bytes c)) junk) = color_bytes fb c"
proof -
  have "n \<le> 4" using fb_ok_size [OF assms(1)] assms(2) by auto
  then have "int (length (take n (le_bytes c))) = pixel_size fb" using fb_ok_size_pos [OF assms(1)] assms(2) by simp
  from color_bytes_put_low [OF assms(1) this] show ?thesis by (simp add: color_bytes_def assms(2))
qed

lemma fillRect_within:
  assumes ok: "fb_ok fb" and q: "\<not> rect_isEmpty q" "\<And>x y. isPointInRect q x y \<Longrightarrow> inside fb x y"
  obtains b where "fillRect q c fb = Some (fb\<lparr>buffer := b\<rparr>)" "length b = length (buffer fb)"
    "\<And>x y. inside fb x y \<Longrightarrow> pixel (fb\<lparr>buffer := b\<rparr>) x y = (if isPointInRect q x y then color_bytes fb c else pixel fb x y)"
proof -
  obtain x y where "isPointInRect q x y" using q(1) by (auto simp: rect_isEmpty_pixels)
  then have "\<not> rect_isEmpty (intersection (getRect (dim fb)) q)"
    using q(2) by (auto simp: rect_isEmpty_pixels intersection_pixels)
  from fillRect_ok [OF ok this] that show thesis by blast
qed

text \<open>The frame after the viewer has painted colours, taken relative to \<open>d\<close>, inside it.\<close>

definition painted :: "frame_buffer \<Rightarrow> rect \<Rightarrow> colors \<Rightarrow> frame_buffer \<Rightarrow> bool" where
  "painted fb0 d f fb \<longleftrightarrow> (\<exists>b. fb = fb0\<lparr>buffer := b\<rparr> \<and> length b = length (buffer fb0)) \<and>
     (\<forall>x y. inside fb0 x y \<longrightarrow>
        pixel fb x y = (if isPointInRect d x y then color_bytes fb0 (f (x - rleft d) (y - rtop d)) else pixel fb0 x y))"

lemma painted_ok: "fb_ok fb0 \<Longrightarrow> painted fb0 d f fb \<Longrightarrow>
    fb_ok fb \<and> dim fb = dim fb0 \<and> fmt fb = fmt fb0 \<and> pixel_size fb = pixel_size fb0 \<and> color_bytes fb = color_bytes fb0"
  by (auto simp: painted_def fb_ok_buffer color_bytes_def pixel_size_def intro!: ext)

lemma painted_fill:
  assumes ok: "fb_ok fb0" and p: "painted fb0 d f fb" and d: "rect_within fb0 d" and q: "sub_ok d (c, q)"
  obtains fb' where "fillRect (move (rleft d) (rtop d) q) c' fb = Some fb'"
    "color_bytes fb0 c' = color_bytes fb0 c \<Longrightarrow> painted fb0 d (\<lambda>x y. if isPointInRect q x y then c else f x y) fb'"
proof -
  note k = painted_ok [OF ok p]
  let ?q = "move (rleft d) (rtop d) q"
  have sub: "isPointInRect ?q x y \<Longrightarrow> isPointInRect d x y" for x y
    using q by (auto simp: in_rect sub_ok_def getWidth_def getHeight_def)
  have "\<not> rect_isEmpty ?q" using q by (auto simp: rect_isEmpty_iff sub_ok_def)
  moreover have "inside fb x y" if "isPointInRect ?q x y" for x y
    using inside_within [OF d sub [OF that]] k by (simp add: inside_def)
  ultimately obtain b where b: "fillRect ?q c' fb = Some (fb\<lparr>buffer := b\<rparr>)" "length b = length (buffer fb)"
    "\<And>x y. inside fb x y \<Longrightarrow> pixel (fb\<lparr>buffer := b\<rparr>) x y = (if isPointInRect ?q x y then color_bytes fb c' else pixel fb x y)"
    using fillRect_within [of fb ?q c'] k by blast
  have i: "inside fb x y = inside fb0 x y" for x y using k by (simp add: inside_def)
  have "painted fb0 d (\<lambda>x y. if isPointInRect q x y then c else f x y) (fb\<lparr>buffer := b\<rparr>)"
    if c: "color_bytes fb0 c' = color_bytes fb0 c"
  proof -
    have "\<exists>b'. fb\<lparr>buffer := b\<rparr> = fb0\<lparr>buffer := b'\<rparr> \<and> length b' = length (buffer fb0)"
      using p b(2) by (auto simp: painted_def)
    moreover have "pixel (fb\<lparr>buffer := b\<rparr>) x y =
        (if isPointInRect d x y then color_bytes fb0 (if isPointInRect q (x - rleft d) (y - rtop d) then c else f (x - rleft d) (y - rtop d))
         else pixel fb0 x y)" if xy: "inside fb0 x y" for x y
      using b(3) [of x y] xy p sub [of x y] k c unfolding i painted_def by (auto simp: move_pixels)
    ultimately show ?thesis by (simp add: painted_def)
  qed
  with b(1) that show thesis by blast
qed

context input_stream
begin

lemma rre_fills_gets:
  assumes ok: "fb_ok fb0" and d: "rect_within fb0 d" "getWidth d < 65536" "getHeight d < 65536" and n: "n = nat (pixel_size fb0)"
  shows "painted fb0 d f fb \<Longrightarrow> \<forall>sub \<in> set subs. sub_ok d sub \<Longrightarrow>
    \<exists>fb'. gets (rre_fills rd n junk d (length subs) fb) (concat (map (sub_bytes n) subs)) fb' \<and> painted fb0 d (paint subs f) fb'"
proof (induction subs arbitrary: f fb)
  case Nil
  then show ?case using gets_return by (auto simp: gets_def)
next
  case (Cons sub subs)
  obtain c q where sub: "sub = (c, q)" by force
  have q: "sub_ok d (c, q)" using Cons.prems(2) sub by simp
  define bs where "bs = take n (le_bytes c)"
  have len: "length bs = n" using fb_ok_size [OF ok] n by (auto simp: bs_def)
  obtain fb1 where f1: "fillRect (move (rleft d) (rtop d) q) (put_low bs junk) fb = Some fb1"
      "painted fb0 d (\<lambda>x y. if isPointInRect q x y then c else f x y) fb1"
    using painted_fill [OF ok Cons.prems(1) d(1) q, of "put_low bs junk"] color_bytes_take [OF ok n] unfolding bs_def by blast
  obtain fb' where IH: "gets (rre_fills rd n junk d (length subs) fb1) (concat (map (sub_bytes n) subs)) fb'"
      "painted fb0 d (paint subs (\<lambda>x y. if isPointInRect q x y then c else f x y)) fb'"
    using Cons.IH [OF f1(2)] Cons.prems(2) by auto
  have range: "0 \<le> rleft q" "rleft q < 65536" "0 \<le> rtop q" "rtop q < 65536"
      "0 \<le> getWidth q" "getWidth q < 65536" "0 \<le> getHeight q" "getHeight q < 65536"
    using q d(2,3) by (auto simp: sub_ok_def getWidth_def getHeight_def)
  have rect: "move (rleft d) (rtop d) (setRect (rleft q) (rtop q) (rleft q + getWidth q) (rtop q + getHeight q)) = move (rleft d) (rtop d) q"
    by (rule rect_eqI) (simp_all add: getWidth_def getHeight_def)
  have step: "rre_fills rd n junk d (length (sub # subs)) fb = (\<lambda>s.
     case readFully rd n s of None \<Rightarrow> None | Some (color, s) \<Rightarrow>
     (case readUInt16 rd s of None \<Rightarrow> None | Some (x, s) \<Rightarrow>
     (case readUInt16 rd s of None \<Rightarrow> None | Some (y, s) \<Rightarrow>
     (case readUInt16 rd s of None \<Rightarrow> None | Some (w, s) \<Rightarrow>
     (case readUInt16 rd s of None \<Rightarrow> None | Some (h, s) \<Rightarrow>
       (case fillRect (move (rleft d) (rtop d) (setRect (uint x) (uint y) (uint x + uint w) (uint y + uint h))) (put_low color junk) fb of
          None \<Rightarrow> None
        | Some fb \<Rightarrow> rre_fills rd n junk d (length subs) fb s))))))"
    by (intro ext) (simp add: Let_def split: option.split)
  have bytes: "concat (map (sub_bytes n) (sub # subs)) = bs @ be16 (word_of_int (rleft q)) @ be16 (word_of_int (rtop q)) @
      be16 (word_of_int (getWidth q)) @ be16 (word_of_int (getHeight q)) @ concat (map (sub_bytes n) subs)"
    by (simp add: sub sub_bytes_def bs_def)
  have "gets (rre_fills rd n junk d (length (sub # subs)) fb) (concat (map (sub_bytes n) (sub # subs))) fb'"
    unfolding step bytes
    by (rule gets_then [OF readFully_gets [of bs, unfolded len]] gets_then [OF readUInt16_gets])+
      (use IH(1) in \<open>simp add: uint_of_int16 range rect f1(1)\<close>)
  moreover have "painted fb0 d (paint (sub # subs) f) fb'" using IH(2) by (simp add: sub cong: if_cong)
  ultimately show ?case by blast
qed

lemma RreDecoder_gets:
  assumes ok: "fb_ok fb" and d: "rect_within fb d" "getWidth d < 65536" "getHeight d < 65536" and n: "n = nat (pixel_size fb)"
    and subs: "\<forall>sub \<in> set subs. sub_ok d sub" "length subs < 4294967296"
  shows "\<exists>fb'. gets (RreDecoder_decode rd junk d fb) (rre_message n bg subs) fb' \<and> painted fb d (paint subs (\<lambda>x y. bg)) fb'"
proof -
  define bs where "bs = take n (le_bytes bg)"
  have len: "length bs = n" using fb_ok_size [OF ok] n by (auto simp: bs_def)
  have n': "nat (getBytesPerPixel fb) = n" using getBytesPerPixel_ok [OF ok] n by simp
  have "\<not> rect_isEmpty d" using d(1) by (auto simp: rect_isEmpty_iff rect_within_def)
  from fillRect_within [OF ok this inside_within [OF d(1)], of "put_low bs junk"] obtain b where
    b: "fillRect d (put_low bs junk) fb = Some (fb\<lparr>buffer := b\<rparr>)" "length b = length (buffer fb)"
      "\<And>x y. inside fb x y \<Longrightarrow> pixel (fb\<lparr>buffer := b\<rparr>) x y =
        (if isPointInRect d x y then color_bytes fb (put_low bs junk) else pixel fb x y)" by blast
  have "painted fb d (\<lambda>x y. bg) (fb\<lparr>buffer := b\<rparr>)"
    using b(2,3) color_bytes_take [OF ok n] by (auto simp: painted_def bs_def)
  from rre_fills_gets [OF ok d n this subs(1)] obtain fb' where
    f: "gets (rre_fills rd n junk d (length subs) (fb\<lparr>buffer := b\<rparr>)) (concat (map (sub_bytes n) subs)) fb'"
      "painted fb d (paint subs (\<lambda>x y. bg)) fb'" by blast
  have step: "RreDecoder_decode rd junk d fb = (\<lambda>s.
      case readUInt32 rd s of None \<Rightarrow> None | Some (numberRectangle, s) \<Rightarrow>
      (case readFully rd n s of None \<Rightarrow> None | Some (backgroundColor, s) \<Rightarrow>
      (case fillRect d (put_low backgroundColor junk) fb of
         None \<Rightarrow> None
       | Some fb \<Rightarrow> rre_fills rd n junk d (unat numberRectangle) fb s)))"
    by (intro ext) (simp add: RreDecoder_decode_def n' Let_def split: option.split)
  have "gets (RreDecoder_decode rd junk d fb) (rre_message n bg subs) fb'"
    unfolding step rre_message_def bs_def [symmetric]
    by (rule gets_then [OF readUInt32_gets] gets_then [OF readFully_gets [of bs, unfolded len]])+
      (use f(1) subs(2) in \<open>simp add: b(1) unat_of_nat32\<close>)
  with f(2) show ?thesis by blast
qed

end

section \<open>Round trip\<close>

text \<open>
  Through a byte array: what the encoder writes to it, followed by anything, is read back as
  the visible pixels of the rectangle, and the rest is left in the stream.
\<close>

lemma rre_roundtrip_ok:
  assumes fb: "fb_ok fb" "rect_within fb r" and client: "fb_ok client" "dim client = dim fb" "fmt client = fmt fb"
    and size: "getWidth r < 65536" "getHeight r < 65536"
    and out: "out_ready s" "toByteArray s = []"
  shows "\<exists>s' client' t. rreEncode (ByteArrayOutputStream_write mem) (nat (pixel_size fb)) r fb s = Some s' \<and>
    RreDecoder_decode ByteArrayInputStream_read junk r client (ByteArrayInputStream_new (toByteArray s' @ rest)) = Some (client', t) \<and>
    in_pending t = rest \<and>
    (\<forall>x y. inside client x y \<longrightarrow> pixel client' x y = (if isPointInRect r x y then visible fb x y else pixel client x y))"
proof -
  have same: "color_bytes client = color_bytes fb" "pixel_size client = pixel_size fb" "rect_within client r"
    using client(2,3) fb(2) by (auto simp: color_bytes_def pixel_size_def rect_within_def intro!: ext)
  obtain bg subs where e: "byte_out.puts (rreEncode (ByteArrayOutputStream_write mem) (nat (pixel_size fb)) r fb) (rre_message (nat (pixel_size fb)) bg subs)"
      "\<forall>sub \<in> set subs. sub_ok r sub"
    "\<And>x y. isPointInRect r x y \<Longrightarrow> color_bytes fb (paint subs (\<lambda>x y. bg) (x - rleft r) (y - rtop r)) = visible fb x y"
    "int (length subs) \<le> getHeight r * getWidth r"
    using byte_out.rreEncode_puts [OF fb refl] by blast
  obtain s' where s': "rreEncode (ByteArrayOutputStream_write mem) (nat (pixel_size fb)) r fb s = Some s'"
      "toByteArray s' = rre_message (nat (pixel_size fb)) bg subs"
    using byte_out.puts_obtain [OF e(1) out(1)] out(2) by auto
  have "getHeight r * getWidth r \<le> 65535 * 65535"
    by (rule mult_mono) (use size fb(2) in \<open>auto simp: rect_within_def getWidth_def\<close>)
  then have "length subs < 4294967296" using e(4) by linarith
  from byte_in.RreDecoder_gets [OF client(1) same(3) size refl e(2) this, of junk bg] obtain client' where
    d: "byte_in.gets (RreDecoder_decode ByteArrayInputStream_read junk r client) (rre_message (nat (pixel_size client)) bg subs) client'"
      "painted client r (paint subs (\<lambda>x y. bg)) client'" by blast
  have "in_pending (ByteArrayInputStream_new (toByteArray s' @ rest)) = rre_message (nat (pixel_size client)) bg subs @ rest"
    by (simp add: ByteArrayInputStream_new_ok s'(2) same(2))
  from byte_in.gets_obtain [OF d(1) ByteArrayInputStream_new_ok(1) this] obtain t where
    "RreDecoder_decode ByteArrayInputStream_read junk r client (ByteArrayInputStream_new (toByteArray s' @ rest)) = Some (client', t)"
    "in_pending t = rest" .
  with s'(1) d(2) e(3) show ?thesis by (auto simp: painted_def same(1))
qed

section \<open>Splitting\<close>

definition in_some :: "rect list \<Rightarrow> int \<Rightarrow> int \<Rightarrow> bool" where
  "in_some rs x y \<longleftrightarrow> (\<exists>q \<in> set rs. isPointInRect q x y)"

text \<open>The pieces are not empty, at most 64 pixels wide and high, and cover the rectangle.\<close>

definition piece_of :: "rect \<Rightarrow> rect \<Rightarrow> bool" where
  "piece_of r q \<longleftrightarrow> rleft r \<le> rleft q \<and> rleft q < rright q \<and> rright q \<le> rright r \<and>
     rtop r \<le> rtop q \<and> rtop q < rbottom q \<and> rbottom q \<le> rbottom r \<and> getWidth q \<le> 64 \<and> getHeight q \<le> 64"

lemma split_cols_ok:
  assumes y: "rtop r \<le> y0" "y0 < rbottom r"
  shows "rleft r \<le> x0 \<Longrightarrow> (\<forall>q \<in> set rs. piece_of r q) \<Longrightarrow>
    (\<forall>q \<in> set (split_cols r y0 x0 rs). piece_of r q) \<and>
    (\<forall>x y. in_some (split_cols r y0 x0 rs) x y \<longleftrightarrow>
       in_some rs x y \<or> x0 \<le> x \<and> x < rright r \<and> y0 \<le> y \<and> y < y0 + 64 \<and> y < rbottom r)"
proof (induction "nat (rright r - x0)" arbitrary: x0 rs rule: less_induct)
  case less
  show ?case
  proof (cases "x0 < rright r")
    case False
    then show ?thesis using less.prems by (subst (1 2) split_cols.simps) auto
  next
    case True
    define q where "q = setRect x0 y0 (min (x0 + RECT_SIZE) (rright r)) (min (y0 + RECT_SIZE) (rbottom r))"
    have e: "split_cols r y0 x0 rs = split_cols r y0 (x0 + RECT_SIZE) (rs @ [q])"
      using True by (subst split_cols.simps) (simp add: q_def Let_def)
    have "\<forall>q \<in> set (rs @ [q]). piece_of r q"
      using less.prems y True by (auto simp: q_def piece_of_def getWidth_def getHeight_def RECT_SIZE_def)
    from less.hyps [of "x0 + 64", OF _ _ this] True less.prems(1) have IH: "\<forall>q \<in> set (split_cols r y0 (x0 + 64) (rs @ [q])). piece_of r q"
        "\<And>x y. in_some (split_cols r y0 (x0 + 64) (rs @ [q])) x y \<longleftrightarrow>
           in_some (rs @ [q]) x y \<or> x0 + 64 \<le> x \<and> x < rright r \<and> y0 \<le> y \<and> y < y0 + 64 \<and> y < rbottom r"
      by (simp_all add: RECT_SIZE_def)
    have m: "in_some (rs @ [q]) x y \<longleftrightarrow>
        in_some rs x y \<or> x0 \<le> x \<and> x < x0 + 64 \<and> x < rright r \<and> y0 \<le> y \<and> y < y0 + 64 \<and> y < rbottom r" for x y
      by (auto simp: in_some_def q_def in_rect RECT_SIZE_def)
    have "in_some (split_cols r y0 (x0 + 64) (rs @ [q])) x y \<longleftrightarrow>
        in_some rs x y \<or> x0 \<le> x \<and> x < rright r \<and> y0 \<le> y \<and> y < y0 + 64 \<and> y < rbottom r" for x y
      unfolding IH(2) m by (cases "in_some rs x y") auto
    with IH(1) show ?thesis unfolding e by (simp add: RECT_SIZE_def)
  qed
qed

lemma split_rows_ok:
  "rtop r \<le> y0 \<Longrightarrow> (\<forall>q \<in> set rs. piece_of r q) \<Longrightarrow>
    (\<forall>q \<in> set (split_rows r y0 rs). piece_of r q) \<and>
    (\<forall>x y. in_some (split_rows r y0 rs) x y \<longleftrightarrow>
       in_some rs x y \<or> rleft r \<le> x \<and> x < rright r \<and> y0 \<le> y \<and> y < rbottom r)"
proof (induction "nat (rbottom r - y0)" arbitrary: y0 rs rule: less_induct)
  case less
  show ?case
  proof (cases "y0 < rbottom r")
    case False
    then show ?thesis using less.prems by (subst (1 2) split_rows.simps) auto
  next
    case True
    have e: "split_rows r y0 rs = split_rows r (y0 + RECT_SIZE) (split_cols r y0 (rleft r) rs)"
      using True by (subst split_rows.simps) simp
    note c = split_cols_ok [OF less.prems(1) True order_refl less.prems(2)]
    from less.hyps [of "y0 + 64", OF _ _ conjunct1 [OF c]] True less.prems(1)
    have IH: "\<forall>q \<in> set (split_rows r (y0 + 64) (split_cols r y0 (rleft r) rs)). piece_of r q"
        "\<And>x y. in_some (split_rows r (y0 + 64) (split_cols r y0 (rleft r) rs)) x y \<longleftrightarrow>
           in_some (split_cols r y0 (rleft r) rs) x y \<or> rleft r \<le> x \<and> x < rright r \<and> y0 + 64 \<le> y \<and> y < rbottom r"
      by simp_all
    have "in_some (split_rows r (y0 + 64) (split_cols r y0 (rleft r) rs)) x y \<longleftrightarrow>
        in_some rs x y \<or> rleft r \<le> x \<and> x < rright r \<and> y0 \<le> y \<and> y < rbottom r" for x y
      unfolding IH(2) conjunct2 [OF c, rule_format] by (cases "in_some rs x y") auto
    with IH(1) show ?thesis unfolding e by (simp add: RECT_SIZE_def)
  qed
qed

lemma splitRectangle_ok:
  "\<forall>q \<in> set (RreEncoder_splitRectangle r []). piece_of r q"
  "in_some (RreEncoder_splitRectangle r []) x y \<longleftrightarrow> isPointInRect r x y"
  using split_rows_ok [of r "rtop r" "[]"] by (auto simp: RreEncoder_splitRectangle_def in_rect in_some_def)

lemma piece_within: "rect_within fb r \<Longrightarrow> piece_of r q \<Longrightarrow> rect_within fb q \<and> getWidth q < 65536 \<and> getHeight q < 65536"
  by (auto simp: rect_within_def piece_of_def)

end
