(* ===== verification/Palette.thy ===== *)
theory Palette
  imports Prelude
begin

text \<open>
  \<open>rfb-sconn/TightPalette\<close>: the colours of a rectangle with their counts, most frequent
  first. A hash table leads from a colour to its node; a node and its entry in the sorted
  array refer to each other. Pointers into the array of nodes are indices.
\<close>

unbundle bit_operations_syntax

section \<open>The code\<close>

record color_node =
  nd_next :: "nat option"
  nd_idx :: nat
  nd_rgb :: "32 word"

type_synonym palette_entry = "nat \<times> int"

record palette =
  maxColors :: int
  numColors :: nat
  pentry :: "palette_entry list"
  phash :: "nat option list"
  pnodes :: "color_node list"

definition hashFunc :: "32 word \<Rightarrow> nat" where
  "hashFunc rgb = unat ((rgb XOR drop_bit 13 rgb) AND 0xFF)"

definition TightPalette_reset :: "palette \<Rightarrow> palette" where
  "TightPalette_reset p = p\<lparr>numColors := 0, phash := replicate 256 None\<rparr>"

definition TightPalette_setMaxColors :: "int \<Rightarrow> palette \<Rightarrow> palette" where
  "TightPalette_setMaxColors mx p = p\<lparr>maxColors := (if mx < 0 then 0 else if mx > 254 then 254 else mx)\<rparr>"

text \<open>The constructor, on memory \<open>p\<close> that holds anything.\<close>

definition TightPalette_new :: "palette \<Rightarrow> int \<Rightarrow> palette" where
  "TightPalette_new p mx = TightPalette_reset (TightPalette_setMaxColors mx p)"

text \<open>The walk along a chain: the node of the colour, or none, and the node before.\<close>

partial_function (option) find_node ::
  "color_node list \<Rightarrow> 32 word \<Rightarrow> nat option \<Rightarrow> nat option \<Rightarrow> (nat option \<times> nat option) option" where
  "find_node nodes rgb pnode prev_pnode =
     (case pnode of
        None \<Rightarrow> Some (None, prev_pnode)
      | Some q \<Rightarrow>
          if nd_rgb (nodes ! q) = rgb then Some (Some q, prev_pnode)
          else find_node nodes rgb (nd_next (nodes ! q)) (Some q))"

declare find_node.simps [code]

text \<open>Entries with lesser counts make room.\<close>

fun move_down :: "palette_entry list \<Rightarrow> color_node list \<Rightarrow> nat \<Rightarrow> int \<Rightarrow> palette_entry list \<times> color_node list \<times> nat" where
  "move_down es nodes idx cnt =
     (if idx > 0 \<and> snd (es ! (idx - 1)) < cnt then
        (let es = es[idx := es ! (idx - 1)];
             q = fst (es ! idx)
         in move_down es (nodes[q := (nodes ! q)\<lparr>nd_idx := idx\<rparr>]) (idx - 1) cnt)
      else (es, nodes, idx))"

declare move_down.simps [simp del]

definition TightPalette_insert :: "32 word \<Rightarrow> int \<Rightarrow> palette \<Rightarrow> (nat \<times> palette) option" where
  "TightPalette_insert rgb numPixels p =
     (let hash_key = hashFunc rgb in
      case find_node (pnodes p) rgb (phash p ! hash_key) None of
        None \<Rightarrow> None
      | Some (Some pnode, prev_pnode) \<Rightarrow>
          (let idx = nd_idx (pnodes p ! pnode);
               cnt = snd (pentry p ! idx) + numPixels;
               (es, nodes, new_idx) = move_down (pentry p) (pnodes p) idx cnt;
               es = (if new_idx \<noteq> idx then es[new_idx := (pnode, snd (es ! new_idx))] else es);
               nodes = (if new_idx \<noteq> idx then nodes[pnode := (nodes ! pnode)\<lparr>nd_idx := new_idx\<rparr>] else nodes);
               es = es[new_idx := (fst (es ! new_idx), cnt)]
           in Some (numColors p, p\<lparr>pentry := es, pnodes := nodes\<rparr>))
      | Some (None, prev_pnode) \<Rightarrow>
          if numColors p = 256 \<or> int (numColors p) = maxColors p then Some (0, p\<lparr>numColors := 0\<rparr>) else
          (let (es, nodes, idx) = move_down (pentry p) (pnodes p) (numColors p) numPixels;
               pnode = numColors p;
               nodes = (case prev_pnode of
                          None \<Rightarrow> nodes
                        | Some q \<Rightarrow> nodes[q := (nodes ! q)\<lparr>nd_next := Some pnode\<rparr>]);
               hash = (case prev_pnode of
                         None \<Rightarrow> (phash p)[hash_key := Some pnode]
                       | Some q \<Rightarrow> phash p);
               nodes = nodes[pnode := \<lparr>nd_next = None, nd_idx = idx, nd_rgb = rgb\<rparr>];
               es = es[idx := (pnode, numPixels)]
           in Some (numColors p + 1, p\<lparr>pentry := es, pnodes := nodes, phash := hash, numColors := numColors p + 1\<rparr>)))"

definition getEntry :: "nat \<Rightarrow> palette \<Rightarrow> 32 word" where
  "getEntry i p = (if i < numColors p then nd_rgb (pnodes p ! fst (pentry p ! i)) else - 1)"

definition getCount :: "nat \<Rightarrow> palette \<Rightarrow> int" where
  "getCount i p = (if i < numColors p then snd (pentry p ! i) else 0)"

definition getIndex :: "32 word \<Rightarrow> palette \<Rightarrow> 8 word option" where
  "getIndex rgb p =
     (case find_node (pnodes p) rgb (phash p ! hashFunc rgb) None of
        None \<Rightarrow> None
      | Some (None, _) \<Rightarrow> Some 0xFF
      | Some (Some pnode, _) \<Rightarrow> Some (word_of_nat (nd_idx (pnodes p ! pnode))))"

section \<open>The invariant\<close>

text \<open>The nodes of a chain, in order, from a head or a \<open>next\<close> pointer.\<close>

primrec chain :: "color_node list \<Rightarrow> nat option \<Rightarrow> nat list \<Rightarrow> bool" where
  "chain nodes q [] \<longleftrightarrow> q = None"
| "chain nodes q (n # ns) \<longleftrightarrow> q = Some n \<and> chain nodes (nd_next (nodes ! n)) ns"

text \<open>The colours with their counts, in the order of the array.\<close>

definition colors_of :: "palette \<Rightarrow> (32 word \<times> int) list" where
  "colors_of p = map (\<lambda>(q, k). (nd_rgb (pnodes p ! q), k)) (take (numColors p) (pentry p))"

definition entries_ok :: "nat \<Rightarrow> palette_entry list \<Rightarrow> color_node list \<Rightarrow> bool" where
  "entries_ok n es nodes \<longleftrightarrow>
     (\<forall>i < n. fst (es ! i) < n \<and> nd_idx (nodes ! fst (es ! i)) = i) \<and>
     (\<forall>q < n. nd_idx (nodes ! q) < n \<and> fst (es ! nd_idx (nodes ! q)) = q)"

definition buckets_ok :: "nat \<Rightarrow> nat option list \<Rightarrow> color_node list \<Rightarrow> bool" where
  "buckets_ok n hash nodes \<longleftrightarrow>
     (\<forall>h < 256. \<exists>ns. chain nodes (hash ! h) ns \<and> distinct ns \<and> set ns = {q. q < n \<and> hashFunc (nd_rgb (nodes ! q)) = h})"

definition palette_ok :: "palette \<Rightarrow> bool" where
  "palette_ok p \<longleftrightarrow>
     length (pentry p) = 256 \<and> length (pnodes p) = 256 \<and> length (phash p) = 256 \<and>
     0 \<le> maxColors p \<and> maxColors p \<le> 254 \<and> int (numColors p) \<le> maxColors p \<and>
     entries_ok (numColors p) (pentry p) (pnodes p) \<and>
     (\<forall>q q'. q < numColors p \<longrightarrow> q' < numColors p \<longrightarrow> nd_rgb (pnodes p ! q) = nd_rgb (pnodes p ! q') \<longrightarrow> q = q') \<and>
     sorted_wrt (\<ge>) (map snd (colors_of p)) \<and>
     buckets_ok (numColors p) (phash p) (pnodes p)"

lemma hashFunc_less: "hashFunc rgb < 256"
proof -
  have "(rgb XOR drop_bit 13 rgb) AND 0xFF \<le> 0xFF" by (rule word_and_le1)
  then have "unat ((rgb XOR drop_bit 13 rgb) AND 0xFF) \<le> unat (0xFF :: 32 word)" by (simp add: word_le_nat_alt)
  then show ?thesis by (simp add: hashFunc_def)
qed

lemma chain_cong: "(\<And>n. n \<in> set ns \<Longrightarrow> nd_next (nodes ! n) = nd_next (nodes' ! n)) \<Longrightarrow> chain nodes q ns = chain nodes' q ns"
  by (induction ns arbitrary: q) auto

lemma chain_snoc:
  assumes "chain nodes q ns" "distinct ns" "n \<notin> set ns" "\<And>i. i \<in> set ns \<Longrightarrow> i < length nodes" "n < length nodes"
    "nd_next (nodes' ! n) = None"
    "\<And>i. i \<in> set ns \<Longrightarrow> nd_next (nodes' ! i) = (if i = last ns then Some n else nd_next (nodes ! i))"
  shows "chain nodes' (if ns = [] then Some n else q) (ns @ [n])"
  using assms
proof (induction ns arbitrary: q)
  case (Cons m ms)
  show ?case
  proof (cases "ms = []")
    case True
    then show ?thesis using Cons.prems by auto
  next
    case False
    have "m \<noteq> last ms" using Cons.prems(2) False by auto
    moreover have "chain nodes' (if ms = [] then Some n else nd_next (nodes ! m)) (ms @ [n])"
      using Cons.prems False by (intro Cons.IH) auto
    ultimately show ?thesis using Cons.prems(1) Cons.prems(7) [of m] False by auto
  qed
qed simp

lemma find_node_some:
  "chain nodes q ns \<Longrightarrow> n \<in> set ns \<Longrightarrow> nd_rgb (nodes ! n) = rgb \<Longrightarrow>
    (\<And>m. m \<in> set ns \<Longrightarrow> nd_rgb (nodes ! m) = rgb \<Longrightarrow> m = n) \<Longrightarrow>
    \<exists>prev'. find_node nodes rgb q prev = Some (Some n, prev')"
proof (induction ns arbitrary: q prev)
  case (Cons m ms)
  show ?case
  proof (cases "nd_rgb (nodes ! m) = rgb")
    case True
    then show ?thesis using Cons.prems(1,4) by (subst find_node.simps) auto
  next
    case False
    then have "n \<in> set ms" using Cons.prems(2,3) by auto
    from Cons.IH [OF _ this Cons.prems(3), of "nd_next (nodes ! m)" "Some m"] Cons.prems(1,4) False show ?thesis
      by (subst find_node.simps) auto
  qed
qed simp

lemma find_node_none:
  "chain nodes q ns \<Longrightarrow> (\<And>m. m \<in> set ns \<Longrightarrow> nd_rgb (nodes ! m) \<noteq> rgb) \<Longrightarrow>
    find_node nodes rgb q prev = Some (None, if ns = [] then prev else Some (last ns))"
proof (induction ns arbitrary: q prev)
  case Nil
  then show ?case by (simp add: find_node.simps)
next
  case (Cons m ms)
  then have "nd_rgb (nodes ! m) \<noteq> rgb" by simp
  with Cons.IH [of "nd_next (nodes ! m)" "Some m"] Cons.prems show ?case by (subst find_node.simps) auto
qed

section \<open>Making room\<close>

text \<open>
  \<open>moved es nodes m k es' nodes'\<close>: the entries from \<open>m\<close> have moved up by one until \<open>k\<close>, and
  their nodes know it.
\<close>

definition moved :: "palette_entry list \<Rightarrow> color_node list \<Rightarrow> nat \<Rightarrow> nat \<Rightarrow> palette_entry list \<Rightarrow> color_node list \<Rightarrow> bool" where
  "moved es nodes m k es' nodes' \<longleftrightarrow>
     length es' = length es \<and> length nodes' = length nodes \<and> m \<le> k \<and>
     (\<forall>j < length es. es' ! j = (if m < j \<and> j \<le> k then es ! (j - 1) else es ! j)) \<and>
     (\<forall>q < length nodes. nd_next (nodes' ! q) = nd_next (nodes ! q) \<and> nd_rgb (nodes' ! q) = nd_rgb (nodes ! q)) \<and>
     (\<forall>j. m \<le> j \<and> j < k \<longrightarrow> nd_idx (nodes' ! fst (es ! j)) = j + 1) \<and>
     (\<forall>q < length nodes. (\<forall>j. m \<le> j \<and> j < k \<longrightarrow> fst (es ! j) \<noteq> q) \<longrightarrow> nd_idx (nodes' ! q) = nd_idx (nodes ! q))"

lemma move_down_ok:
  "k < length es \<Longrightarrow> (\<And>j. j < k \<Longrightarrow> fst (es ! j) < length nodes) \<Longrightarrow>
   (\<And>i j. i < k \<Longrightarrow> j < k \<Longrightarrow> fst (es ! i) = fst (es ! j) \<Longrightarrow> i = j) \<Longrightarrow>
   \<exists>es' nodes' m. move_down es nodes k cnt = (es', nodes', m) \<and> moved es nodes m k es' nodes' \<and>
     (0 < m \<longrightarrow> cnt \<le> snd (es ! (m - 1))) \<and> (\<forall>j. m \<le> j \<and> j < k \<longrightarrow> snd (es ! j) < cnt)"
proof (induction k arbitrary: es nodes)
  case 0
  then show ?case by (subst move_down.simps) (simp add: moved_def)
next
  case (Suc k)
  show ?case
  proof (cases "snd (es ! k) < cnt")
    case False
    then show ?thesis by (subst move_down.simps) (auto simp: moved_def not_less)
  next
    case True
    define q es1 nodes1 where "q = fst (es ! k)" and "es1 = es[Suc k := es ! k]" and "nodes1 = nodes[q := (nodes ! q)\<lparr>nd_idx := Suc k\<rparr>]"
    have q: "q < length nodes" using Suc.prems(2) by (simp add: q_def)
    have es1: "es1 ! j = es ! j" if "j \<le> k" for j using that by (simp add: es1_def)
    have IH: "\<exists>es' nodes' m. move_down es1 nodes1 k cnt = (es', nodes', m) \<and> moved es1 nodes1 m k es' nodes' \<and>
        (0 < m \<longrightarrow> cnt \<le> snd (es1 ! (m - 1))) \<and> (\<forall>j. m \<le> j \<and> j < k \<longrightarrow> snd (es1 ! j) < cnt)"
    proof (rule Suc.IH)
      show "k < length es1" using Suc.prems(1) by (simp add: es1_def)
      show "fst (es1 ! j) < length nodes1" if "j < k" for j using that Suc.prems(2) es1 by (simp add: nodes1_def)
      show "i = j" if "i < k" "j < k" "fst (es1 ! i) = fst (es1 ! j)" for i j using that Suc.prems(3) es1 by simp
    qed
    then obtain es' nodes' m where h: "move_down es1 nodes1 k cnt = (es', nodes', m)" "moved es1 nodes1 m k es' nodes'"
        "0 < m \<longrightarrow> cnt \<le> snd (es1 ! (m - 1))" "\<forall>j. m \<le> j \<and> j < k \<longrightarrow> snd (es1 ! j) < cnt"
      by (elim exE conjE) (rule that)
    have m: "m \<le> k" using h(2) by (simp add: moved_def)
    have call: "move_down es nodes (Suc k) cnt = (es', nodes', m)"
    proof -
      have "es1 ! Suc k = es ! k" using Suc.prems(1) by (simp add: es1_def)
      then have "move_down es nodes (Suc k) cnt = move_down es1 nodes1 k cnt"
        using True unfolding move_down.simps [of es nodes "Suc k"] by (simp add: es1_def [symmetric] nodes1_def q_def Let_def)
      with h(1) show ?thesis by simp
    qed
    have "moved es nodes m (Suc k) es' nodes'"
      unfolding moved_def
    proof (intro conjI allI impI)
      show "length es' = length es" "length nodes' = length nodes" using h(2) by (simp_all add: moved_def es1_def nodes1_def)
      show "m \<le> Suc k" using m by simp
      show "es' ! j = (if m < j \<and> j \<le> Suc k then es ! (j - 1) else es ! j)" if "j < length es" for j
        using h(2) that m Suc.prems(1) by (auto simp: moved_def es1_def nth_list_update)
      show "nd_next (nodes' ! i) = nd_next (nodes ! i)" "nd_rgb (nodes' ! i) = nd_rgb (nodes ! i)" if "i < length nodes" for i
      proof -
        have "nd_next (nodes1 ! i) = nd_next (nodes ! i)" "nd_rgb (nodes1 ! i) = nd_rgb (nodes ! i)"
          using q by (cases "i = q"; simp add: nodes1_def)+
        moreover have "length nodes1 = length nodes" by (simp add: nodes1_def)
        ultimately show "nd_next (nodes' ! i) = nd_next (nodes ! i)" "nd_rgb (nodes' ! i) = nd_rgb (nodes ! i)"
          using h(2) that unfolding moved_def by metis+
      qed
      show "nd_idx (nodes' ! fst (es ! j)) = j + 1" if j: "m \<le> j \<and> j < Suc k" for j
      proof (cases "j = k")
        case True
        have "\<forall>i. m \<le> i \<and> i < k \<longrightarrow> fst (es1 ! i) \<noteq> q" using Suc.prems(3) es1 unfolding q_def by (metis le_less less_Suc_eq less_irrefl)
        then have "nd_idx (nodes' ! q) = nd_idx (nodes1 ! q)" using h(2) q by (simp add: moved_def nodes1_def)
        then show ?thesis using True q by (simp add: q_def [symmetric]) (simp add: nodes1_def)
      next
        case False
        then have "m \<le> j" "j < k" using j by simp_all
        then have "nd_idx (nodes' ! fst (es1 ! j)) = j + 1" using h(2) unfolding moved_def by blast
        then show ?thesis using es1 [of j] \<open>j < k\<close> by simp
      qed
      show "nd_idx (nodes' ! i) = nd_idx (nodes ! i)" if i: "i < length nodes" "\<forall>j. m \<le> j \<and> j < Suc k \<longrightarrow> fst (es ! j) \<noteq> i" for i
      proof -
        have "\<forall>j. m \<le> j \<and> j < k \<longrightarrow> fst (es1 ! j) \<noteq> i" "q \<noteq> i" using i(2) es1 m by (auto simp: q_def)
        then show ?thesis using h(2) i(1) by (simp add: moved_def nodes1_def)
      qed
    qed
    moreover have "0 < m \<longrightarrow> cnt \<le> snd (es ! (m - 1))" using h(3) es1 [of "m - 1"] m by auto
    moreover have "\<forall>j. m \<le> j \<and> j < Suc k \<longrightarrow> snd (es ! j) < cnt" using h(4) es1 True by (auto simp: less_Suc_eq)
    ultimately show ?thesis unfolding call by (intro exI [of _ es'] exI [of _ nodes'] exI [of _ m]) simp
  qed
qed

end
