(* ===== verification/PaletteCorrect.thy ===== *)
theory PaletteCorrect
  imports Palette
begin

text \<open>
  Inserting a colour keeps the palette sorted, its hash table and its cross references right,
  and counts as a finite map does.
\<close>

section \<open>One entry out of place\<close>

text \<open>Everything is in order but for the entry \<open>k\<close> and the node \<open>q\<close>.\<close>

definition entries_but :: "nat \<Rightarrow> nat \<Rightarrow> nat \<Rightarrow> palette_entry list \<Rightarrow> color_node list \<Rightarrow> bool" where
  "entries_but n k q es nodes \<longleftrightarrow> k < n \<and> q < n \<and>
     (\<forall>i < n. i \<noteq> k \<longrightarrow> fst (es ! i) < n \<and> fst (es ! i) \<noteq> q \<and> nd_idx (nodes ! fst (es ! i)) = i) \<and>
     (\<forall>r < n. r \<noteq> q \<longrightarrow> nd_idx (nodes ! r) < n \<and> nd_idx (nodes ! r) \<noteq> k \<and> fst (es ! nd_idx (nodes ! r)) = r)"

text \<open>The state after the entry has been put in place.\<close>

definition placed :: "nat \<Rightarrow> nat \<Rightarrow> nat \<Rightarrow> int \<Rightarrow> palette_entry list \<Rightarrow> color_node list \<Rightarrow> palette_entry list \<Rightarrow> color_node list \<Rightarrow> bool" where
  "placed n m q cnt es' nodes' es'' nodes'' \<longleftrightarrow>
     (\<forall>j < n. es'' ! j = (if j = m then (q, cnt) else es' ! j)) \<and> nd_idx (nodes'' ! q) = m \<and>
     (\<forall>r < n. r \<noteq> q \<longrightarrow> nd_idx (nodes'' ! r) = nd_idx (nodes' ! r))"

lemma placed_idx:
  assumes e: "entries_but n k q es nodes" and n: "n \<le> length es" "n \<le> length nodes"
    and mv: "moved es nodes m k es' nodes'" and pl: "placed n m q cnt es' nodes' es'' nodes''" and r: "r < n" "r \<noteq> q"
  shows "nd_idx (nodes'' ! r) = (if m \<le> nd_idx (nodes ! r) \<and> nd_idx (nodes ! r) < k then nd_idx (nodes ! r) + 1 else nd_idx (nodes ! r))"
proof -
  define i where "i = nd_idx (nodes ! r)"
  have i: "i < n" "i \<noteq> k" "fst (es ! i) = r" using e r by (simp_all add: entries_but_def i_def)
  have "nd_idx (nodes'' ! r) = nd_idx (nodes' ! r)" using pl r by (simp add: placed_def)
  also have "\<dots> = (if m \<le> i \<and> i < k then i + 1 else i)"
  proof (cases "m \<le> i \<and> i < k")
    case True
    then have "nd_idx (nodes' ! fst (es ! i)) = i + 1" using mv unfolding moved_def by blast
    with True i(3) show ?thesis by simp
  next
    case False
    have "fst (es ! j) \<noteq> r" if "m \<le> j" "j < k" for j
    proof
      assume "fst (es ! j) = r"
      moreover have "j < n" "j \<noteq> k" using that e by (simp_all add: entries_but_def)
      ultimately have "i = j" using e by (auto simp: entries_but_def i_def)
      with that False show False by simp
    qed
    then have "nd_idx (nodes' ! r) = nd_idx (nodes ! r)" using mv r(1) n(2) unfolding moved_def by auto
    with False show ?thesis by (simp add: i_def)
  qed
  finally show ?thesis by (simp add: i_def)
qed

lemma placed_entry:
  assumes "n \<le> length es" "moved es nodes m k es' nodes'" "placed n m q cnt es' nodes' es'' nodes''" "j < n"
  shows "es'' ! j = (if j = m then (q, cnt) else if m < j \<and> j \<le> k then es ! (j - 1) else es ! j)"
  using assms by (simp add: moved_def placed_def)

lemma placed_ok:
  assumes e: "entries_but n k q es nodes" and n: "n \<le> length es" "n \<le> length nodes"
    and mv: "moved es nodes m k es' nodes'" and pl: "placed n m q cnt es' nodes' es'' nodes''"
  shows "entries_ok n es'' nodes''"
    and "\<And>r. r < n \<Longrightarrow> snd (es'' ! nd_idx (nodes'' ! r)) = (if r = q then cnt else snd (es ! nd_idx (nodes ! r)))"
proof -
  note idx = placed_idx [OF e n mv pl]
  note entry = placed_entry [OF n(1) mv pl]
  have k: "k < n" "q < n" "m \<le> k" using e mv by (simp_all add: entries_but_def moved_def)
  have q: "nd_idx (nodes'' ! q) = m" using pl by (simp add: placed_def)
  have old: "fst (es ! i) < n" "fst (es ! i) \<noteq> q" "nd_idx (nodes ! fst (es ! i)) = i" if "i < n" "i \<noteq> k" for i
    using e that by (simp_all add: entries_but_def)
  have at: "es'' ! nd_idx (nodes'' ! r) = es ! nd_idx (nodes ! r) \<and> nd_idx (nodes'' ! r) < n" if r: "r < n" "r \<noteq> q" for r
  proof -
    define i where "i = nd_idx (nodes ! r)"
    have i: "i < n" "i \<noteq> k" using e r by (simp_all add: entries_but_def i_def)
    show ?thesis
    proof (cases "m \<le> i \<and> i < k")
      case True
      then have "nd_idx (nodes'' ! r) = i + 1" using idx [OF r] by (simp add: i_def)
      then show ?thesis using entry [of "i + 1"] True k(1) by (simp add: i_def)
    next
      case False
      then have "nd_idx (nodes'' ! r) = i" using idx [OF r] by (auto simp: i_def)
      moreover have "i \<noteq> m" "\<not> (m < i \<and> i \<le> k)" using False i k(3) by auto
      moreover from this have "es'' ! i = es ! i"
        using entry [OF i(1)] unfolding if_not_P [OF \<open>i \<noteq> m\<close>] if_not_P [OF \<open>\<not> (m < i \<and> i \<le> k)\<close>] by simp
      ultimately show ?thesis using i(1) unfolding i_def [symmetric] by simp
    qed
  qed
  show "snd (es'' ! nd_idx (nodes'' ! r)) = (if r = q then cnt else snd (es ! nd_idx (nodes ! r)))" if "r < n" for r
    using at [OF that] entry [of m] q k by auto
  show "entries_ok n es'' nodes''"
    unfolding entries_ok_def
  proof (intro conjI allI impI)
    fix j assume j: "j < n"
    show "fst (es'' ! j) < n"
      using entry [OF j] old [of j] old [of "j - 1"] k j by (auto split: if_splits)
    show "nd_idx (nodes'' ! fst (es'' ! j)) = j"
    proof (cases "j = m")
      case True
      then show ?thesis using entry [OF j] q by simp
    next
      case False
      define i where "i = (if m < j \<and> j \<le> k then j - 1 else j)"
      have i: "i < n" "i \<noteq> k" using j False k by (auto simp: i_def)
      have "es'' ! j = es ! i" using entry [OF j] False by (simp add: i_def)
      then show ?thesis using idx [OF old(1,2) [OF i]] old(3) [OF i] False k by (auto simp: i_def)
    qed
  next
    fix r assume r: "r < n"
    show "nd_idx (nodes'' ! r) < n" using at [OF r] q k by (cases "r = q") auto
    show "fst (es'' ! nd_idx (nodes'' ! r)) = r"
      using at [OF r] q entry [of m] k e r by (cases "r = q") (auto simp: entries_but_def)
  qed
qed

text \<open>The counts stay sorted.\<close>

lemma placed_sorted:
  assumes n: "n \<le> length es" and mv: "moved es nodes m k es' nodes'" and pl: "placed n m q cnt es' nodes' es'' nodes''"
    and old: "\<And>i j. i < j \<Longrightarrow> j < n \<Longrightarrow> i \<noteq> k \<Longrightarrow> j \<noteq> k \<Longrightarrow> snd (es ! j) \<le> snd (es ! i)"
    and above: "0 < m \<Longrightarrow> cnt \<le> snd (es ! (m - 1))" and below: "\<And>j. m \<le> j \<Longrightarrow> j < k \<Longrightarrow> snd (es ! j) < cnt"
    and after: "\<And>j. k < j \<Longrightarrow> j < n \<Longrightarrow> snd (es ! j) \<le> cnt" and k: "k < n"
    and ij: "i < j" "j < n"
  shows "snd (es'' ! j) \<le> snd (es'' ! i)"
proof -
  define p where "p = (\<lambda>j. if m < j \<and> j \<le> k then j - 1 else j)"
  have mk: "m \<le> k" using mv by (simp add: moved_def)
  have entry: "snd (es'' ! j) = (if j = m then cnt else snd (es ! p j))" if "j < n" for j
    using placed_entry [OF n mv pl that] by (simp add: p_def)
  have pk: "p j \<noteq> k" if "j \<noteq> m" for j using that mk by (auto simp: p_def)
  consider "i = m" | "j = m" | "i \<noteq> m" "j \<noteq> m" by blast
  then show ?thesis
  proof cases
    case 1
    have "snd (es ! p j) \<le> cnt" using ij 1 below [of "j - 1"] after [of j] by (cases "j \<le> k") (auto simp: p_def intro: less_imp_le)
    then show ?thesis using entry [of i] entry [of j] ij 1 by simp
  next
    case 2
    have "snd (es ! (m - 1)) \<le> snd (es ! i)" using old [of i "m - 1"] ij 2 mk k by (cases "i = m - 1") auto
    then have "cnt \<le> snd (es ! i)" using above ij 2 by simp
    then show ?thesis using entry [of i] entry [of j] ij 2 by (simp add: p_def)
  next
    case 3
    have "p i < p j" using ij 3 mk by (auto simp: p_def)
    moreover have "p j < n" using ij by (auto simp: p_def)
    ultimately have "snd (es ! p j) \<le> snd (es ! p i)" using old pk 3 by blast
    then show ?thesis using entry [of i] entry [of j] ij 3 by simp
  qed
qed

section \<open>The palette as a finite map\<close>

abbreviation count_of :: "palette \<Rightarrow> nat \<Rightarrow> int" where
  "count_of p q \<equiv> snd (pentry p ! nd_idx (pnodes p ! q))"

lemma colors_nth:
  "palette_ok p \<Longrightarrow> i < numColors p \<Longrightarrow> colors_of p ! i = (nd_rgb (pnodes p ! fst (pentry p ! i)), snd (pentry p ! i))"
  by (auto simp: colors_of_def palette_ok_def split: prod.split)

lemma length_colors: "palette_ok p \<Longrightarrow> length (colors_of p) = numColors p"
  by (auto simp: colors_of_def palette_ok_def)

lemma palette_okD:
  assumes "palette_ok p"
  shows "length (pentry p) = 256" "length (pnodes p) = 256" "length (phash p) = 256" "numColors p \<le> 254"
    "int (numColors p) \<le> maxColors p" "maxColors p \<le> 254"
    "entries_ok (numColors p) (pentry p) (pnodes p)" "buckets_ok (numColors p) (phash p) (pnodes p)"
    "sorted_wrt (\<ge>) (map snd (colors_of p))"
  using assms unfolding palette_ok_def by simp_all

lemma palette_inj:
  "palette_ok p \<Longrightarrow> q < numColors p \<Longrightarrow> q' < numColors p \<Longrightarrow> nd_rgb (pnodes p ! q) = nd_rgb (pnodes p ! q') \<Longrightarrow> q = q'"
  unfolding palette_ok_def by blast

lemma colors_distinct:
  assumes p: "palette_ok p"
  shows "distinct (map fst (colors_of p))"
proof -
  have e: "entries_ok (numColors p) (pentry p) (pnodes p)" and
    inj: "\<And>q q'. q < numColors p \<Longrightarrow> q' < numColors p \<Longrightarrow> nd_rgb (pnodes p ! q) = nd_rgb (pnodes p ! q') \<Longrightarrow> q = q'"
    using p by (auto simp: palette_ok_def)
  show ?thesis
    unfolding distinct_conv_nth
  proof (intro allI impI)
    fix i j assume "i < length (map fst (colors_of p))" "j < length (map fst (colors_of p))" "i \<noteq> j"
    then have ij: "i < numColors p" "j < numColors p" "i \<noteq> j" using length_colors [OF p] by simp_all
    then have "fst (pentry p ! i) \<noteq> fst (pentry p ! j)" using e unfolding entries_ok_def by metis
    then have "nd_rgb (pnodes p ! fst (pentry p ! i)) \<noteq> nd_rgb (pnodes p ! fst (pentry p ! j))"
      using inj e ij unfolding entries_ok_def by blast
    then show "map fst (colors_of p) ! i \<noteq> map fst (colors_of p) ! j" using ij length_colors [OF p] colors_nth [OF p] by simp
  qed
qed

lemma colors_map:
  assumes p: "palette_ok p"
  shows "map_of (colors_of p) c = Some k \<longleftrightarrow> (\<exists>q < numColors p. nd_rgb (pnodes p ! q) = c \<and> count_of p q = k)"
proof -
  have e: "entries_ok (numColors p) (pentry p) (pnodes p)" using p by (simp add: palette_ok_def)
  have "map_of (colors_of p) c = Some k \<longleftrightarrow> (c, k) \<in> set (colors_of p)" by (rule map_of_eq_Some_iff [OF colors_distinct [OF p]])
  also have "\<dots> \<longleftrightarrow> (\<exists>i < numColors p. colors_of p ! i = (c, k))" using length_colors [OF p] by (auto simp: in_set_conv_nth)
  also have "\<dots> \<longleftrightarrow> (\<exists>q < numColors p. nd_rgb (pnodes p ! q) = c \<and> count_of p q = k)"
    using e colors_nth [OF p] unfolding entries_ok_def by (metis prod.inject)
  finally show ?thesis .
qed

lemma colors_sorted:
  "length (pentry p) = 256 \<Longrightarrow> numColors p \<le> 256 \<Longrightarrow>
    sorted_wrt (\<ge>) (map snd (colors_of p)) \<longleftrightarrow> (\<forall>i j. i < j \<longrightarrow> j < numColors p \<longrightarrow> snd (pentry p ! j) \<le> snd (pentry p ! i))"
  by (auto simp: colors_of_def sorted_wrt_iff_nth_less split_beta)

lemma TightPalette_new_ok:
  assumes "length (pentry p) = 256" "length (pnodes p) = 256"
  shows "palette_ok (TightPalette_new p mx)" "colors_of (TightPalette_new p mx) = []" "numColors (TightPalette_new p mx) = 0"
  using assms
  by (auto simp: TightPalette_new_def TightPalette_reset_def TightPalette_setMaxColors_def palette_ok_def colors_of_def
      entries_ok_def buckets_ok_def intro!: exI [of _ "[]"])

lemma TightPalette_reset_ok: "palette_ok p \<Longrightarrow> palette_ok (TightPalette_reset p)"
  "colors_of (TightPalette_reset p) = []" "numColors (TightPalette_reset p) = 0"
  by (auto simp: TightPalette_reset_def palette_ok_def colors_of_def entries_ok_def buckets_ok_def intro!: exI [of _ "[]"])

lemma map_update_iff:
  assumes "\<And>c k. m' c = Some k \<longleftrightarrow> (if c = a then k = v else m c = Some k)"
  shows "m' = m(a \<mapsto> v)"
proof
  fix c
  have "m' c = Some k \<longleftrightarrow> (m(a \<mapsto> v)) c = Some k" for k using assms [of c k] by auto
  then show "m' c = (m(a \<mapsto> v)) c" by (metis not_None_eq)
qed

section \<open>Inserting\<close>

lemma insert_known:
  assumes p: "palette_ok p" and q: "q < numColors p" "nd_rgb (pnodes p ! q) = rgb" and n: "0 \<le> n"
  shows "\<exists>p'. TightPalette_insert rgb n p = Some (numColors p, p') \<and> palette_ok p' \<and> numColors p' = numColors p \<and>
    maxColors p' = maxColors p \<and> map_of (colors_of p') = (map_of (colors_of p))(rgb \<mapsto> count_of p q + n)"
proof -
  define N es nodes k cnt where "N = numColors p" and "es = pentry p" and "nodes = pnodes p" and "k = nd_idx (pnodes p ! q)"
    and "cnt = snd (pentry p ! nd_idx (pnodes p ! q)) + n"
  have len: "length es = 256" "length nodes = 256" "N \<le> 254" and e: "entries_ok N es nodes"
    and inj: "\<And>q q'. q < N \<Longrightarrow> q' < N \<Longrightarrow> nd_rgb (nodes ! q) = nd_rgb (nodes ! q') \<Longrightarrow> q = q'"
    and b: "buckets_ok N (phash p) nodes"
    using palette_okD [OF p] palette_inj [OF p] by (simp_all add: es_def nodes_def N_def)
  have sorted: "snd (es ! j) \<le> snd (es ! i)" if "i < j" "j < N" for i j
    using palette_okD [OF p] that colors_sorted [of p] by (simp add: es_def N_def)
  have k: "k < N" "fst (es ! k) = q" using e q by (auto simp: entries_ok_def N_def k_def es_def nodes_def)
  have kq: "nd_idx (nodes ! q) = k" "q < N" using q(1) by (simp_all add: k_def nodes_def N_def)
  have but: "entries_but N k q es nodes"
    unfolding entries_but_def
  proof (intro conjI allI impI)
    fix i assume i: "i < N" "i \<noteq> k"
    then show "fst (es ! i) < N" "nd_idx (nodes ! fst (es ! i)) = i" using e by (simp_all add: entries_ok_def)
    then show "fst (es ! i) \<noteq> q" using kq(1) i(2) by auto
  next
    fix r assume r: "r < N" "r \<noteq> q"
    then show "nd_idx (nodes ! r) < N" "fst (es ! nd_idx (nodes ! r)) = r" using e by (simp_all add: entries_ok_def)
    then show "nd_idx (nodes ! r) \<noteq> k" using k(2) r(2) by auto
  qed (use k(1) kq(2) in simp_all)
  obtain ns where ns: "chain nodes (phash p ! hashFunc rgb) ns" "set ns = {q. q < N \<and> hashFunc (nd_rgb (nodes ! q)) = hashFunc rgb}"
    using b [unfolded buckets_ok_def, rule_format, OF hashFunc_less [of rgb]] by blast
  obtain prev where find: "find_node nodes rgb (phash p ! hashFunc rgb) None = Some (Some q, prev)"
    using find_node_some [OF ns(1), of q rgb None] q inj by (auto simp: ns(2) N_def nodes_def)
  have kl: "k < length es" using k(1) len by simp
  have A: "fst (es ! j) < length nodes" if "j < k" for j
  proof -
    have "fst (es ! j) < N" using e that k(1) by (simp add: entries_ok_def)
    then show ?thesis using len by simp
  qed
  have B: "i = j" if "i < k" "j < k" "fst (es ! i) = fst (es ! j)" for i j
    using e that k(1) unfolding entries_ok_def by (metis less_trans)
  have "\<exists>es' nodes' m. move_down es nodes k cnt = (es', nodes', m) \<and> moved es nodes m k es' nodes' \<and>
      (0 < m \<longrightarrow> cnt \<le> snd (es ! (m - 1))) \<and> (\<forall>j. m \<le> j \<and> j < k \<longrightarrow> snd (es ! j) < cnt)"
    using A B by (intro move_down_ok [OF kl])
  then obtain es' nodes' m where mv: "move_down es nodes k cnt = (es', nodes', m)" "moved es nodes m k es' nodes'"
      "0 < m \<longrightarrow> cnt \<le> snd (es ! (m - 1))" "\<forall>j. m \<le> j \<and> j < k \<longrightarrow> snd (es ! j) < cnt"
    by (elim exE conjE) (rule that)
  define es1 nodes1 where "es1 = (if m \<noteq> k then es'[m := (q, snd (es' ! m))] else es')"
    and "nodes1 = (if m \<noteq> k then nodes'[q := (nodes' ! q)\<lparr>nd_idx := m\<rparr>] else nodes')"
  define es2 p' where "es2 = es1[m := (fst (es1 ! m), cnt)]" and "p' = p\<lparr>pentry := es2, pnodes := nodes1\<rparr>"
  have call: "TightPalette_insert rgb n p = Some (N, p')"
    using find [unfolded nodes_def] mv(1) [unfolded es_def nodes_def k_def cnt_def]
    by (simp add: TightPalette_insert_def Let_def N_def p'_def es2_def es1_def nodes1_def k_def cnt_def)
  have mk: "m \<le> k" "length es' = 256" "length nodes' = 256" using mv(2) len by (simp_all add: moved_def)
  have bound: "q < 256" "m < 256" "N \<le> 256" using q k(1) mk len by (auto simp: N_def)
  have same: "nd_next (nodes1 ! r) = nd_next (nodes ! r)" "nd_rgb (nodes1 ! r) = nd_rgb (nodes ! r)" if "r < 256" for r
  proof -
    have "nd_next (nodes' ! r) = nd_next (nodes ! r)" "nd_rgb (nodes' ! r) = nd_rgb (nodes ! r)"
      using mv(2) that len unfolding moved_def by auto
    then show "nd_next (nodes1 ! r) = nd_next (nodes ! r)" "nd_rgb (nodes1 ! r) = nd_rgb (nodes ! r)"
      using bound mk by (cases "r = q"; simp add: nodes1_def)+
  qed
  have pl: "placed N m q cnt es' nodes' es2 nodes1"
    unfolding placed_def
  proof (intro conjI allI impI)
    show "es2 ! j = (if j = m then (q, cnt) else es' ! j)" if "j < N" for j
    proof (cases "m = k")
      case True
      then have "es' ! m = es ! k" using mv(2) bound len by (simp add: moved_def)
      then show ?thesis using True bound mk k(2) by (auto simp: es2_def es1_def nth_list_update)
    next
      case False
      then show ?thesis using bound mk by (auto simp: es2_def es1_def nth_list_update)
    qed
    show "nd_idx (nodes1 ! q) = m"
    proof (cases "m = k")
      case True
      then have "nd_idx (nodes' ! q) = nd_idx (nodes ! q)" using mv(2) bound len by (simp add: moved_def)
      then show ?thesis using True by (simp add: nodes1_def k_def nodes_def)
    next
      case False
      then show ?thesis using bound mk by (simp add: nodes1_def)
    qed
    show "nd_idx (nodes1 ! r) = nd_idx (nodes' ! r)" if "r < N" "r \<noteq> q" for r using that by (simp add: nodes1_def)
  qed
  have nlen: "N \<le> length es" "N \<le> length nodes" using len by simp_all
  note ok = placed_ok [OF but nlen mv(2) pl]
  have sorted': "snd (es2 ! j) \<le> snd (es2 ! i)" if "i < j" "j < N" for i j
  proof (rule placed_sorted [OF nlen(1) mv(2) pl _ _ _ _ k(1) that])
    show "snd (es ! j) \<le> snd (es ! i)" if "i < j" "j < N" for i j using sorted that by blast
    show "cnt \<le> snd (es ! (m - 1))" if "0 < m" using mv(3) that by blast
    show "snd (es ! j) < cnt" if "m \<le> j" "j < k" for j using mv(4) that by blast
    show "snd (es ! j) \<le> cnt" if "k < j" "j < N" for j
      using sorted [OF that] n by (simp add: cnt_def k_def es_def)
  qed
  have "buckets_ok N (phash p) nodes1"
    unfolding buckets_ok_def
  proof (intro allI impI)
    fix h :: nat assume "h < 256"
    then obtain ns where ns: "chain nodes (phash p ! h) ns" "distinct ns" "set ns = {q. q < N \<and> hashFunc (nd_rgb (nodes ! q)) = h}"
      using b by (auto simp: buckets_ok_def)
    have "chain nodes1 (phash p ! h) ns" using ns(1,3) same(1) bound chain_cong [of ns nodes nodes1] by auto
    moreover have "set ns = {q. q < N \<and> hashFunc (nd_rgb (nodes1 ! q)) = h}" using ns(3) same(2) bound by auto
    ultimately show "\<exists>ns. chain nodes1 (phash p ! h) ns \<and> distinct ns \<and> set ns = {q. q < N \<and> hashFunc (nd_rgb (nodes1 ! q)) = h}"
      using ns(2) by blast
  qed
  moreover have "length es2 = 256" "length nodes1 = 256" using mk by (simp_all add: es2_def es1_def nodes1_def)
  moreover have "sorted_wrt (\<ge>) (map snd (colors_of p'))"
    using colors_sorted [of p'] sorted' bound \<open>length es2 = 256\<close> by (auto simp: p'_def N_def)
  moreover have "nd_rgb (nodes1 ! r) = nd_rgb (nodes1 ! r') \<Longrightarrow> r = r'" if "r < N" "r' < N" for r r'
    using that same(2) bound inj by auto
  ultimately have p': "palette_ok p'"
    using p ok(1) by (auto simp: palette_ok_def p'_def N_def)
  have "map_of (colors_of p') = (map_of (colors_of p))(rgb \<mapsto> cnt)"
  proof (rule map_update_iff)
    fix c v
    have "map_of (colors_of p') c = Some v \<longleftrightarrow> (\<exists>r < N. nd_rgb (nodes ! r) = c \<and> (if r = q then cnt else count_of p r) = v)"
      unfolding colors_map [OF p'] using same(2) bound ok(2) by (auto simp: p'_def N_def es_def nodes_def)
    also have "\<dots> \<longleftrightarrow> (if c = rgb then v = cnt else map_of (colors_of p) c = Some v)"
    proof (cases "c = rgb")
      case True
      then show ?thesis using q inj unfolding N_def [symmetric] nodes_def [symmetric] by auto
    next
      case False
      then show ?thesis using q(2) unfolding colors_map [OF p] N_def nodes_def by auto
    qed
    finally show "map_of (colors_of p') c = Some v \<longleftrightarrow> (if c = rgb then v = cnt else map_of (colors_of p) c = Some v)" .
  qed
  with call p' show ?thesis by (intro exI [of _ p']) (simp add: N_def cnt_def p'_def)
qed

lemma bucket_of:
  assumes "palette_ok p"
  obtains ns where "chain (pnodes p) (phash p ! hashFunc rgb) ns" "distinct ns"
    "set ns = {q. q < numColors p \<and> hashFunc (nd_rgb (pnodes p ! q)) = hashFunc rgb}"
  using palette_okD(8) [OF assms, unfolded buckets_ok_def, rule_format, OF hashFunc_less [of rgb]] by blast

lemma insert_full:
  assumes p: "palette_ok p" and new: "\<And>q. q < numColors p \<Longrightarrow> nd_rgb (pnodes p ! q) \<noteq> rgb" and full: "int (numColors p) = maxColors p"
  shows "TightPalette_insert rgb n p = Some (0, p\<lparr>numColors := 0\<rparr>)"
proof -
  obtain ns where ns: "chain (pnodes p) (phash p ! hashFunc rgb) ns"
      "set ns = {q. q < numColors p \<and> hashFunc (nd_rgb (pnodes p ! q)) = hashFunc rgb}" by (rule bucket_of [OF p])
  have "find_node (pnodes p) rgb (phash p ! hashFunc rgb) None = Some (None, if ns = [] then None else Some (last ns))"
    by (rule find_node_none [OF ns(1)]) (use ns(2) new in auto)
  then show ?thesis using full by (simp add: TightPalette_insert_def Let_def)
qed

lemma buckets_insert:
  assumes b: "buckets_ok n hash nodes" and len: "length hash = 256" "length nodes = 256" "n < 256"
    and ns: "chain nodes (hash ! h) ns" "distinct ns" "set ns = {q. q < n \<and> hashFunc (nd_rgb (nodes ! q)) = h}" "h < 256"
    and hash': "hash' = (if ns = [] then hash[h := Some n] else hash)"
    and new: "nd_next (nodes' ! n) = None" "hashFunc (nd_rgb (nodes' ! n)) = h"
    and old: "\<And>q. q < n \<Longrightarrow> nd_rgb (nodes' ! q) = nd_rgb (nodes ! q)"
      "\<And>q. q < n \<Longrightarrow> nd_next (nodes' ! q) = (if ns \<noteq> [] \<and> q = last ns then Some n else nd_next (nodes ! q))"
  shows "buckets_ok (Suc n) hash' nodes'"
  unfolding buckets_ok_def
proof (intro allI impI)
  fix g :: nat assume g: "g < 256"
  have lastn: "last ns \<in> set ns" if "ns \<noteq> []" using that by simp
  show "\<exists>ms. chain nodes' (hash' ! g) ms \<and> distinct ms \<and> set ms = {q. q < Suc n \<and> hashFunc (nd_rgb (nodes' ! q)) = g}"
  proof (cases "g = h")
    case True
    have "n \<notin> set ns" using ns(3) by simp
    have "chain nodes' (if ns = [] then Some n else hash ! h) (ns @ [n])"
    proof (rule chain_snoc [OF ns(1,2) \<open>n \<notin> set ns\<close> _ _ new(1)])
      show "i < length nodes" if "i \<in> set ns" for i using that ns(3) len by simp
      show "nd_next (nodes' ! i) = (if i = last ns then Some n else nd_next (nodes ! i))" if "i \<in> set ns" for i
      proof -
        have "i < n" using that ns(3) by simp
        have "ns \<noteq> []" using that by (cases ns) simp_all
        then have "ns \<noteq> [] \<and> i = last ns \<longleftrightarrow> i = last ns" by blast
        then show ?thesis using old(2) [OF \<open>i < n\<close>] by (simp only:)
      qed
    qed (use len in simp)
    moreover have "hash' ! h = (if ns = [] then Some n else hash ! h)" using ns(4) len by (simp add: hash')
    moreover have "set (ns @ [n]) = {q. q < Suc n \<and> hashFunc (nd_rgb (nodes' ! q)) = h}"
      using ns(3) old(1) new(2) by (auto simp: less_Suc_eq)
    ultimately show ?thesis using ns(2) \<open>n \<notin> set ns\<close> True by (intro exI [of _ "ns @ [n]"]) simp
  next
    case False
    obtain ms where ms: "chain nodes (hash ! g) ms" "distinct ms" "set ms = {q. q < n \<and> hashFunc (nd_rgb (nodes ! q)) = g}"
      using b [unfolded buckets_ok_def, rule_format, OF g] by blast
    have "chain nodes' (hash ! g) ms"
    proof (rule chain_cong [THEN iffD1, OF _ ms(1)])
      fix q assume "q \<in> set ms"
      then have "q < n" "q \<notin> set ns" using ms(3) ns(3) False by auto
      then show "nd_next (nodes ! q) = nd_next (nodes' ! q)" using old(2) lastn by auto
    qed
    moreover have "hash' ! g = hash ! g" using False by (simp add: hash')
    moreover have "set ms = {q. q < Suc n \<and> hashFunc (nd_rgb (nodes' ! q)) = g}"
      using ms(3) old(1) new(2) False by (auto simp: less_Suc_eq)
    ultimately show ?thesis using ms(2) by auto
  qed
qed

lemma insert_new:
  assumes p: "palette_ok p" and new: "\<And>q. q < numColors p \<Longrightarrow> nd_rgb (pnodes p ! q) \<noteq> rgb" and room: "int (numColors p) \<noteq> maxColors p"
  shows "\<exists>p'. TightPalette_insert rgb n p = Some (numColors p + 1, p') \<and> palette_ok p' \<and> numColors p' = numColors p + 1 \<and>
    maxColors p' = maxColors p \<and> map_of (colors_of p') = (map_of (colors_of p))(rgb \<mapsto> n)"
proof -
  define N es nodes where "N = numColors p" and "es = pentry p" and "nodes = pnodes p"
  note D = palette_okD [OF p, folded N_def es_def nodes_def]
  have N: "N < 254" using D(4,5,6) room by (simp add: N_def)
  obtain ns where ns: "chain nodes (phash p ! hashFunc rgb) ns" "distinct ns"
      "set ns = {q. q < N \<and> hashFunc (nd_rgb (nodes ! q)) = hashFunc rgb}"
    using bucket_of [OF p] unfolding N_def nodes_def by blast
  have find: "find_node (pnodes p) rgb (phash p ! hashFunc rgb) None = Some (None, if ns = [] then None else Some (last ns))"
    unfolding nodes_def [symmetric] by (rule find_node_none [OF ns(1)]) (use ns(3) new in \<open>auto simp: N_def nodes_def\<close>)
  have kl: "N < length es" using D(1) N by simp
  have A: "fst (es ! j) < length nodes" if "j < N" for j
  proof -
    have "fst (es ! j) < N" using D(7) that by (simp add: entries_ok_def)
    then show ?thesis using D(2) N by simp
  qed
  have B: "i = j" if "i < N" "j < N" "fst (es ! i) = fst (es ! j)" for i j
    using D(7) that unfolding entries_ok_def by metis
  have "\<exists>es' nodes' m. move_down es nodes N n = (es', nodes', m) \<and> moved es nodes m N es' nodes' \<and>
      (0 < m \<longrightarrow> n \<le> snd (es ! (m - 1))) \<and> (\<forall>j. m \<le> j \<and> j < N \<longrightarrow> snd (es ! j) < n)"
    using A B by (intro move_down_ok [OF kl])
  then obtain es' nodes' m where mv: "move_down es nodes N n = (es', nodes', m)" "moved es nodes m N es' nodes'"
      "0 < m \<longrightarrow> n \<le> snd (es ! (m - 1))" "\<forall>j. m \<le> j \<and> j < N \<longrightarrow> snd (es ! j) < n"
    by (elim exE conjE) (rule that)
  have mk: "m \<le> N" "length es' = 256" "length nodes' = 256" using mv(2) D(1,2) by (simp_all add: moved_def)
  define nodes1 where "nodes1 = (if ns = [] then nodes' else nodes'[last ns := (nodes' ! last ns)\<lparr>nd_next := Some N\<rparr>])"
  define hash' where "hash' = (if ns = [] then (phash p)[hashFunc rgb := Some N] else phash p)"
  define nodes2 where "nodes2 = nodes1[N := \<lparr>nd_next = None, nd_idx = m, nd_rgb = rgb\<rparr>]"
  define es2 p' where "es2 = es'[m := (N, n)]" and "p' = p\<lparr>pentry := es2, pnodes := nodes2, phash := hash', numColors := N + 1\<rparr>"
  have call: "TightPalette_insert rgb n p = Some (N + 1, p')"
    using find mv(1) [unfolded es_def nodes_def N_def] N room
    by (cases "ns = []") (simp_all add: TightPalette_insert_def Let_def N_def p'_def es2_def nodes2_def nodes1_def hash'_def)
  have last_in: "last ns < N" if "ns \<noteq> []" using last_in_set [OF that] ns(3) by auto
  have old: "nd_rgb (nodes2 ! r) = nd_rgb (nodes ! r)" "nd_idx (nodes2 ! r) = nd_idx (nodes' ! r)"
      "nd_next (nodes2 ! r) = (if ns \<noteq> [] \<and> r = last ns then Some N else nd_next (nodes ! r))" if r: "r < N" for r
  proof -
    have s: "nd_rgb (nodes' ! r) = nd_rgb (nodes ! r)" "nd_next (nodes' ! r) = nd_next (nodes ! r)"
      using mv(2) r D(2) N unfolding moved_def by auto
    have n1: "nodes1 ! r = (if ns \<noteq> [] \<and> r = last ns then (nodes' ! r)\<lparr>nd_next := Some N\<rparr> else nodes' ! r)"
      using r N mk(3) by (auto simp: nodes1_def)
    have n2: "nodes2 ! r = nodes1 ! r" using r by (simp add: nodes2_def)
    have "nd_rgb (nodes2 ! r) = nd_rgb (nodes ! r) \<and> nd_idx (nodes2 ! r) = nd_idx (nodes' ! r) \<and>
        nd_next (nodes2 ! r) = (if ns \<noteq> [] \<and> r = last ns then Some N else nd_next (nodes ! r))"
    proof (cases "ns \<noteq> [] \<and> r = last ns")
      case True
      show ?thesis unfolding n2 n1 if_P [OF True] s(1) [symmetric] by simp
    next
      case False
      show ?thesis unfolding n2 n1 if_not_P [OF False] s by simp
    qed
    then show "nd_rgb (nodes2 ! r) = nd_rgb (nodes ! r)" "nd_idx (nodes2 ! r) = nd_idx (nodes' ! r)"
        "nd_next (nodes2 ! r) = (if ns \<noteq> [] \<and> r = last ns then Some N else nd_next (nodes ! r))"
      by blast+
  qed
  have newnode: "nodes2 ! N = \<lparr>nd_next = None, nd_idx = m, nd_rgb = rgb\<rparr>"
    using N mk(3) by (simp add: nodes2_def nodes1_def)
  have n2: "nd_rgb (nodes2 ! x) = (if x = N then rgb else nd_rgb (nodes ! x))" if "x < Suc N" for x
    using that old(1) [of x] newnode by (cases "x = N") simp_all
  have ne: "nd_rgb (nodes ! x) \<noteq> rgb" if "x < Suc N" "x \<noteq> N" for x
    using new [of x] that by (simp add: N_def nodes_def)
  have but: "entries_but (Suc N) N N es nodes"
    unfolding entries_but_def
  proof (intro conjI allI impI)
    fix i assume "i < Suc N" "i \<noteq> N"
    then have "i < N" by simp
    then have "fst (es ! i) < N" "nd_idx (nodes ! fst (es ! i)) = i" using D(7) by (simp_all add: entries_ok_def)
    then show "fst (es ! i) < Suc N" "fst (es ! i) \<noteq> N" "nd_idx (nodes ! fst (es ! i)) = i" by simp_all
  next
    fix r assume "r < Suc N" "r \<noteq> N"
    then have "r < N" by simp
    then have "nd_idx (nodes ! r) < N" "fst (es ! nd_idx (nodes ! r)) = r" using D(7) by (simp_all add: entries_ok_def)
    then show "nd_idx (nodes ! r) < Suc N" "nd_idx (nodes ! r) \<noteq> N" "fst (es ! nd_idx (nodes ! r)) = r" by simp_all
  qed simp_all
  have pl: "placed (Suc N) m N n es' nodes' es2 nodes2"
    unfolding placed_def
  proof (intro conjI allI impI)
    show "es2 ! j = (if j = m then (N, n) else es' ! j)" if "j < Suc N" for j
      using mk N by (simp add: es2_def)
    show "nd_idx (nodes2 ! N) = m" using newnode by simp
    show "nd_idx (nodes2 ! r) = nd_idx (nodes' ! r)" if "r < Suc N" "r \<noteq> N" for r using old(2) that by simp
  qed
  have nlen: "Suc N \<le> length es" "Suc N \<le> length nodes" using D(1,2) N by simp_all
  note placed = placed_ok [OF but nlen mv(2) pl]
  have sorted: "snd (es ! j) \<le> snd (es ! i)" if "i < j" "j < N" for i j
    using palette_okD [OF p] that colors_sorted [of p] by (simp add: es_def N_def)
  have sorted': "snd (es2 ! j) \<le> snd (es2 ! i)" if "i < j" "j < Suc N" for i j
  proof (rule placed_sorted [OF nlen(1) mv(2) pl _ _ _ _ lessI that])
    show "snd (es ! j) \<le> snd (es ! i)" if "i < j" "j < Suc N" "i \<noteq> N" "j \<noteq> N" for i j using sorted [of i j] that by simp
    show "n \<le> snd (es ! (m - 1))" if "0 < m" using mv(3) that by blast
    show "snd (es ! j) < n" if "m \<le> j" "j < N" for j using mv(4) that by blast
    show "snd (es ! j) \<le> n" if "N < j" "j < Suc N" for j using that by simp
  qed
  have len2: "length es2 = 256" "length nodes2 = 256" "length hash' = 256" using mk D(3) by (simp_all add: es2_def nodes2_def nodes1_def hash'_def)
  have "N < 256" using N by simp
  note buckets = buckets_insert [OF D(8,3,2) \<open>N < 256\<close> ns hashFunc_less hash'_def _ _ old(1,3)]
  have "buckets_ok (Suc N) hash' nodes2" by (rule buckets) (simp_all add: newnode)
  moreover have "sorted_wrt (\<ge>) (map snd (colors_of p'))"
    using colors_sorted [of p'] sorted' N len2(1) by (simp add: p'_def)
  moreover have inj: "nd_rgb (nodes2 ! r) = nd_rgb (nodes2 ! r') \<Longrightarrow> r = r'" if "r < Suc N" "r' < Suc N" for r r'
  proof -
    assume eq: "nd_rgb (nodes2 ! r) = nd_rgb (nodes2 ! r')"
    show "r = r'"
    proof (cases "r = N \<or> r' = N")
      case True
      then show ?thesis using eq n2 [OF that(1)] n2 [OF that(2)] ne [OF that(1)] ne [OF that(2)] by metis
    next
      case False
      then show ?thesis using eq n2 [OF that(1)] n2 [OF that(2)] palette_inj [OF p, of r r'] that by (simp add: N_def nodes_def)
    qed
  qed
  moreover have "int (Suc N) \<le> maxColors p" using D(5) room by (simp add: N_def)
  ultimately have p': "palette_ok p'"
    using placed(1) len2 D(5,6) unfolding palette_ok_def p'_def by simp
  have "map_of (colors_of p') = (map_of (colors_of p))(rgb \<mapsto> n)"
  proof (rule map_update_iff)
    fix c v
    have "map_of (colors_of p') c = Some v \<longleftrightarrow> (\<exists>r < Suc N. nd_rgb (nodes2 ! r) = c \<and> (if r = N then n else count_of p r) = v)"
      unfolding colors_map [OF p'] using placed(2) by (auto simp: p'_def es_def nodes_def)
    also have "\<dots> \<longleftrightarrow> (if c = rgb then v = n else map_of (colors_of p) c = Some v)"
    proof (cases "c = rgb")
      case True
      then have "nd_rgb (nodes2 ! r) = c \<longleftrightarrow> r = N" if "r < Suc N" for r using n2 [OF that] ne [OF that] by auto
      then show ?thesis using True by auto
    next
      case False
      then have "nd_rgb (nodes2 ! r) = c \<longleftrightarrow> r < N \<and> nd_rgb (nodes ! r) = c" if "r < Suc N" for r
        using n2 [OF that] that by auto
      then have "(\<exists>r < Suc N. nd_rgb (nodes2 ! r) = c \<and> (if r = N then n else count_of p r) = v) \<longleftrightarrow>
          (\<exists>r < N. nd_rgb (nodes ! r) = c \<and> count_of p r = v)" by (metis less_SucI nat_neq_iff)
      then show ?thesis using False unfolding colors_map [OF p] N_def [symmetric] nodes_def [symmetric] by simp
    qed
    finally show "map_of (colors_of p') c = Some v \<longleftrightarrow> (if c = rgb then v = n else map_of (colors_of p) c = Some v)" .
  qed
  with call p' show ?thesis by (intro exI [of _ p']) (simp add: N_def p'_def)
qed

text \<open>The three cases together, in terms of the map from colours to counts.\<close>

lemma TightPalette_insert_ok:
  assumes p: "palette_ok p" and n: "0 \<le> n"
  shows "\<exists>r p'. TightPalette_insert rgb n p = Some (r, p') \<and> maxColors p' = maxColors p \<and>
    (case map_of (colors_of p) rgb of
       Some k \<Rightarrow> r = numColors p \<and> palette_ok p' \<and> numColors p' = r \<and> map_of (colors_of p') = (map_of (colors_of p))(rgb \<mapsto> k + n)
     | None \<Rightarrow>
         if int (numColors p) = maxColors p then r = 0 \<and> numColors p' = 0
         else r = numColors p + 1 \<and> palette_ok p' \<and> numColors p' = r \<and> map_of (colors_of p') = (map_of (colors_of p))(rgb \<mapsto> n))"
proof (cases "map_of (colors_of p) rgb")
  case (Some k)
  then obtain q where "q < numColors p" "nd_rgb (pnodes p ! q) = rgb" "count_of p q = k" using colors_map [OF p] by auto
  with insert_known [OF p _ _ n, of q rgb] Some show ?thesis by auto
next
  case None
  then have "nd_rgb (pnodes p ! q) \<noteq> rgb" if "q < numColors p" for q using colors_map [OF p, of rgb] that by auto
  with insert_new [OF p, of rgb n] insert_full [OF p, of rgb n] None show ?thesis
    by (cases "int (numColors p) = maxColors p") auto
qed

lemma getIndex_ok:
  assumes p: "palette_ok p" and i: "i < numColors p"
  shows "getIndex (getEntry i p) p = Some (word_of_nat i)"
proof -
  define q where "q = fst (pentry p ! i)"
  have q: "q < numColors p" "nd_idx (pnodes p ! q) = i" using palette_okD(7) [OF p] i by (simp_all add: entries_ok_def q_def)
  obtain ns where ns: "chain (pnodes p) (phash p ! hashFunc (nd_rgb (pnodes p ! q))) ns"
      "set ns = {r. r < numColors p \<and> hashFunc (nd_rgb (pnodes p ! r)) = hashFunc (nd_rgb (pnodes p ! q))}" by (rule bucket_of [OF p])
  have "\<exists>prev. find_node (pnodes p) (nd_rgb (pnodes p ! q)) (phash p ! hashFunc (nd_rgb (pnodes p ! q))) None = Some (Some q, prev)"
    by (rule find_node_some [OF ns(1)]) (use ns(2) q palette_inj [OF p] in auto)
  then show ?thesis using i q(2) by (auto simp: getIndex_def getEntry_def q_def [symmetric])
qed

definition sample_palette :: palette where
  "sample_palette = TightPalette_new \<lparr>maxColors = 0, numColors = 5, pentry = replicate 256 (3, 9),
     phash = [], pnodes = replicate 256 \<lparr>nd_next = None, nd_idx = 1, nd_rgb = 7\<rparr>\<rparr> 254"

lemma sample_palette_ok: "palette_ok sample_palette" "colors_of sample_palette = []" "numColors sample_palette = 0"
  unfolding sample_palette_def by (rule TightPalette_new_ok; simp)+

end
