(* ===== verification/RawCodec.thy ===== *)
theory RawCodec
  imports PixelWords
begin

text \<open>
  Rectangles sent as they are: \<open>rfb-sconn/Encoder.cpp\<close> of the server, and of the viewer the base
  class \<open>viewer-core/DecoderOfRectangle.cpp\<close>, \<open>RawDecoder.cpp\<close> and \<open>CopyRectDecoder.cpp\<close>. The viewer
  decodes into its second frame buffer and copies from there into the one it shows.
\<close>

section \<open>The encoder\<close>

text \<open>\<open>n\<close> lines from the pointer \<open>lineP\<close>.\<close>

primrec raw_send :: "'s writer \<Rightarrow> nat \<Rightarrow> int \<Rightarrow> int \<Rightarrow> int \<Rightarrow> bytes \<Rightarrow> 's \<Rightarrow> 's option" where
  "raw_send wr 0 lineP lineSizeInBytes step buf s = Some s"
| "raw_send wr (Suc n) lineP lineSizeInBytes step buf s =
     (case load lineP lineSizeInBytes buf of None \<Rightarrow> None | Some bs \<Rightarrow>
     (case writeFully wr bs s of None \<Rightarrow> None | Some s \<Rightarrow>
        raw_send wr n (lineP + step) lineSizeInBytes step buf s))"

text \<open>\<open>convert\<close> stands for the pixel converter, which gives the buffer in the format of the client.\<close>

definition Encoder_sendRectangle ::
  "'s writer \<Rightarrow> (rect \<Rightarrow> frame_buffer \<Rightarrow> frame_buffer) \<Rightarrow> rect \<Rightarrow> frame_buffer \<Rightarrow> 's \<Rightarrow> 's option" where
  "Encoder_sendRectangle wr convert r serverFb s =
     (let fb = convert r serverFb;
          pixelSize = getBytesPerPixel fb;
          lineWidth = getWidth r;
          fbWidth = width (dim fb)
      in raw_send wr (nat (rbottom r - rtop r)) ((rtop r * fbWidth + rleft r) * pixelSize)
           (lineWidth * pixelSize) (fbWidth * pixelSize) (buffer fb) s)"

definition Encoder_splitRectangle :: "rect \<Rightarrow> rect list \<Rightarrow> rect list" where
  "Encoder_splitRectangle r rectList = rectList @ [r]"

section \<open>The decoder\<close>

text \<open>\<open>n\<close> lines, read straight into the block.\<close>

primrec raw_lines :: "'s reader \<Rightarrow> int \<Rightarrow> int \<Rightarrow> int \<Rightarrow> nat \<Rightarrow> frame_buffer \<Rightarrow> 's \<Rightarrow> (frame_buffer \<times> 's) option" where
  "raw_lines rd bytesPerLine x y 0 fb s = Some (fb, s)"
| "raw_lines rd bytesPerLine x y (Suc n) fb s =
     (case readFully rd (nat bytesPerLine) s of None \<Rightarrow> None | Some (bs, s) \<Rightarrow>
     (case store (getBufferPtr fb x y) bs (buffer fb) of None \<Rightarrow> None | Some b \<Rightarrow>
        raw_lines rd bytesPerLine x (y + 1) n (fb\<lparr>buffer := b\<rparr>) s))"

definition RawDecoder_decode :: "'s reader \<Rightarrow> rect \<Rightarrow> frame_buffer \<Rightarrow> 's \<Rightarrow> (frame_buffer \<times> 's) option" where
  "RawDecoder_decode rd r fb s =
     (let bytesPerPixel = int (bitsPerPixel (fmt fb) div 8);
          bytesPerLine = bytesPerPixel * getWidth r
      in if \<not> rect_isEqualTo (intersection (getRect (dim fb)) r) r then None
         else raw_lines rd bytesPerLine (rleft r) (rtop r) (nat (rbottom r - rtop r)) fb s)"

text \<open>
  The two frame buffers of the viewer, and the rectangles that its notifier has been told of.
\<close>

record view =
  shown :: frame_buffer
  second :: frame_buffer
  notified :: "rect list"

definition DecoderOfRectangle_copy :: "rect \<Rightarrow> frame_buffer \<Rightarrow> frame_buffer \<Rightarrow> frame_buffer option" where
  "DecoderOfRectangle_copy r srcFrameBuffer dstFrameBuffer =
     map_option snd (copyFrom r srcFrameBuffer (rleft r) (rtop r) dstFrameBuffer)"

definition DecoderOfRectangle_process ::
  "(rect \<Rightarrow> frame_buffer \<Rightarrow> 's \<Rightarrow> (frame_buffer \<times> 's) option) \<Rightarrow> rect \<Rightarrow> view \<Rightarrow> 's \<Rightarrow> (view \<times> 's) option" where
  "DecoderOfRectangle_process decode r v s =
     (case decode r (second v) s of None \<Rightarrow> None | Some (fb, s) \<Rightarrow>
     (case DecoderOfRectangle_copy r fb (shown v) of None \<Rightarrow> None | Some shown_fb \<Rightarrow>
        Some (\<lparr>shown = shown_fb, second = fb, notified = notified v @ [r]\<rparr>, s)))"

definition AREA_OF_ONE_PART :: int where "AREA_OF_ONE_PART = 2 ^ 16"

text \<open>The loop returns the rectangle at which it stops, and would not end with a height of zero.\<close>

partial_function (option) raw_parts ::
  "'s reader \<Rightarrow> rect \<Rightarrow> int \<Rightarrow> rect \<Rightarrow> view \<Rightarrow> 's \<Rightarrow> ((rect \<times> view) \<times> 's) option" where
  "raw_parts rd r deltaHeight deltaRect v s =
     (if rbottom deltaRect + deltaHeight div 2 < rbottom r then
        (case DecoderOfRectangle_process (RawDecoder_decode rd) deltaRect v s of
           None \<Rightarrow> None
         | Some (v, s) \<Rightarrow> raw_parts rd r deltaHeight (move 0 deltaHeight deltaRect) v s)
      else Some ((deltaRect, v), s))"

declare raw_parts.simps [code]

definition RawDecoder_process :: "'s reader \<Rightarrow> rect \<Rightarrow> view \<Rightarrow> 's \<Rightarrow> (view \<times> 's) option" where
  "RawDecoder_process rd r v s =
     (if area r = 0 then Some (v, s) else
      let deltaHeight = (AREA_OF_ONE_PART + getWidth r - 1) div getWidth r;
          deltaRect = setLocation (rleft r) (rtop r) (setRect 0 0 (getWidth r) deltaHeight)
      in case raw_parts rd r deltaHeight deltaRect v s of
           None \<Rightarrow> None
         | Some ((deltaRect, v), s) \<Rightarrow>
             DecoderOfRectangle_process (RawDecoder_decode rd)
               (deltaRect\<lparr>rtop := max (rtop r) (rbottom deltaRect - deltaHeight), rbottom := rbottom r\<rparr>) v s)"

text \<open>Copying inside the shown buffer: the message has only the place of the source.\<close>

definition CopyRectDecoder_decode :: "'s reader \<Rightarrow> 's \<Rightarrow> (point \<times> 's) option" where
  "CopyRectDecoder_decode rd s =
     (case readInt16 rd s of None \<Rightarrow> None | Some (x, s) \<Rightarrow>
     (case readInt16 rd s of None \<Rightarrow> None | Some (y, s) \<Rightarrow> Some (\<lparr>px = x, py = y\<rparr>, s)))"

definition CopyRectDecoder_copy :: "rect \<Rightarrow> point \<Rightarrow> frame_buffer \<Rightarrow> frame_buffer option" where
  "CopyRectDecoder_copy r sourcePosition dstFrameBuffer = move_fb r (px sourcePosition) (py sourcePosition) dstFrameBuffer"

definition CopyRectDecoder_process :: "'s reader \<Rightarrow> rect \<Rightarrow> view \<Rightarrow> 's \<Rightarrow> (view \<times> 's) option" where
  "CopyRectDecoder_process rd r v s =
     (case CopyRectDecoder_decode rd s of None \<Rightarrow> None | Some (sourcePosition, s) \<Rightarrow>
     (case CopyRectDecoder_copy r sourcePosition (shown v) of None \<Rightarrow> None | Some fb \<Rightarrow>
        Some (v\<lparr>shown := fb, notified := notified v @ [r]\<rparr>, s)))"

end
