(* ===== verification/RawCorrect.thy ===== *)
theory RawCorrect
  imports RawCodec RreCorrect
begin

text \<open>
  What rectangles sent as they are arrive as. \<open>drawn F P fb fb'\<close>: the frame buffer \<open>fb'\<close> is \<open>fb\<close> with the pixels
  of \<open>F\<close> at the places in \<open>P\<close>.
\<close>

definition drawn :: "frame_buffer \<Rightarrow> (int \<Rightarrow> int \<Rightarrow> bool) \<Rightarrow> frame_buffer \<Rightarrow> frame_buffer \<Rightarrow> bool" where
  "drawn F P fb fb' \<longleftrightarrow> (\<exists>b. fb' = fb\<lparr>buffer := b\<rparr> \<and> length b = length (buffer fb)) \<and>
     (\<forall>x y. inside fb x y \<longrightarrow> pixel fb' x y = (if P x y then pixel F x y else pixel fb x y))"

lemma drawn_shape: "drawn F P fb fb' \<Longrightarrow> fb_ok fb \<Longrightarrow> fb_ok fb' \<and> dim fb' = dim fb \<and> fmt fb' = fmt fb"
  by (auto simp: drawn_def fb_ok_buffer)

lemma drawn_empty: "(\<And>x y. \<not> P x y) \<Longrightarrow> drawn F P fb fb"
  by (auto simp: drawn_def intro!: exI [of _ "buffer fb"])

lemma drawn_trans:
  assumes "drawn F P a b" "drawn F Q b c" "\<And>x y. inside a x y \<Longrightarrow> R x y \<longleftrightarrow> P x y \<or> Q x y"
  shows "drawn F R a c"
proof -
  have "inside b x y = inside a x y" for x y using assms(1) by (auto simp: drawn_def)
  with assms show ?thesis by (auto simp: drawn_def)
qed

section \<open>The bytes of a rectangle\<close>

text \<open>\<open>M\<close> are the rows of the pixels that \<open>F\<close> has in \<open>d\<close>, one after the other.\<close>

definition rect_image :: "frame_buffer \<Rightarrow> rect \<Rightarrow> bytes \<Rightarrow> bool" where
  "rect_image F d M \<longleftrightarrow> (\<exists>G. fb_ok G \<and> dim G = setDim d \<and> fmt G = fmt F \<and> buffer G = M \<and>
     (\<forall>x y. inside G x y \<longrightarrow> pixel G x y = pixel F (rleft d + x) (rtop d + y)))"

definition row_bytes :: "frame_buffer \<Rightarrow> rect \<Rightarrow> int \<Rightarrow> bytes" where
  "row_bytes F d y = take (nat (getWidth d * pixel_size F)) (drop (nat (y * stride F + rleft d * pixel_size F)) (buffer F))"

definition rows_bytes :: "frame_buffer \<Rightarrow> rect \<Rightarrow> int \<Rightarrow> nat \<Rightarrow> bytes" where
  "rows_bytes F d y n = concat (map (\<lambda>i. row_bytes F d (y + int i)) [0..<n])"

lemma rows_bytes_Suc: "rows_bytes F d y (Suc n) = row_bytes F d y @ rows_bytes F d (y + 1) n"
proof -
  have "[0..<Suc n] = 0 # map Suc [0..<n]" by (simp add: upt_conv_Cons map_Suc_upt del: upt_Suc)
  then show ?thesis by (simp add: rows_bytes_def comp_def add.assoc del: upt_Suc)
qed

lemma rows_bytes_add: "rows_bytes F d y (m + n) = rows_bytes F d y m @ rows_bytes F d (y + int m) n"
  by (induction m arbitrary: y) (simp_all add: rows_bytes_Suc add.assoc, simp add: rows_bytes_def)

lemma row_load:
  assumes ok: "fb_ok F" and d: "0 \<le> rleft d" "rleft d \<le> rright d" "rright d \<le> width (dim F)" and y: "0 \<le> y" "y < height (dim F)"
  shows "load (y * stride F + rleft d * pixel_size F) (getWidth d * pixel_size F) (buffer F) = Some (row_bytes F d y)"
    "int (length (row_bytes F d y)) = getWidth d * pixel_size F"
proof -
  have "int (length (buffer F)) = height (dim F) * stride F" using ok by (simp add: fb_ok_def)
  moreover note column_range [OF ok d(1,3,2)]
  ultimately have b: "in_block (y * stride F + rleft d * pixel_size F) (getWidth d * pixel_size F) (buffer F)"
    by (intro row_in_block [OF y]) (auto simp: getWidth_def)
  then show "load (y * stride F + rleft d * pixel_size F) (getWidth d * pixel_size F) (buffer F) = Some (row_bytes F d y)"
    by (simp add: load_def row_bytes_def)
  show "int (length (row_bytes F d y)) = getWidth d * pixel_size F"
    using b by (auto simp: row_bytes_def in_block_def)
qed

lemma concat_rows_nth:
  "(\<And>r. r \<in> set rs \<Longrightarrow> length r = len) \<Longrightarrow> y < length rs \<Longrightarrow> c < len \<Longrightarrow> concat rs ! (y * len + c) = rs ! y ! c"
proof (induction rs arbitrary: y)
  case (Cons r rs)
  then show ?case by (cases y) (auto simp: nth_append)
qed simp

lemma rows_bytes_length:
  assumes "fb_ok F" "0 \<le> rleft d" "rleft d \<le> rright d" "rright d \<le> width (dim F)" "0 \<le> y" "y + int n \<le> height (dim F)"
  shows "int (length (rows_bytes F d y n)) = int n * (getWidth d * pixel_size F)"
  using assms(5,6)
proof (induction n arbitrary: y)
  case (Suc n)
  then show ?case using row_load(2) [OF assms(1-4) Suc.prems(1)] Suc.IH [of "y + 1"] by (simp add: rows_bytes_Suc algebra_simps)
qed (simp add: rows_bytes_def)

lemma rect_image_rows:
  assumes ok: "fb_ok F" and d: "0 \<le> rleft d" "rleft d \<le> rright d" "rright d \<le> width (dim F)"
      "0 \<le> rtop d" "rtop d \<le> rbottom d" "rbottom d \<le> height (dim F)"
  shows "rect_image F d (rows_bytes F d (rtop d) (nat (getHeight d)))"
proof -
  define M G where "M = rows_bytes F d (rtop d) (nat (getHeight d))" and "G = F\<lparr>dim := setDim d, buffer := M\<rparr>"
  define len where "len = nat (getWidth d * pixel_size F)"
  have P: "0 < pixel_size F" by (rule fb_ok_size_pos [OF ok])
  have len: "int len = getWidth d * pixel_size F" using P d by (simp add: len_def getWidth_def)
  have G: "pixel_size G = pixel_size F" "stride G = int len"
    using len by (simp_all add: G_def pixel_size_def stride_def setDim_def)
  have "int (length M) = int (nat (getHeight d)) * (getWidth d * pixel_size F)"
    unfolding M_def by (rule rows_bytes_length [OF ok d(1-4)]) (use d in \<open>simp add: getHeight_def\<close>)
  then have "fb_ok G" using ok d G by (simp add: fb_ok_def G_def setDim_def getWidth_def getHeight_def stride_def pixel_size_def)
  moreover have "pixel G x y = pixel F (rleft d + x) (rtop d + y)" if "inside G x y" for x y
  proof (rule pixel_eqI [OF G(1)])
    fix k assume k: "0 \<le> k" "k < pixel_size G"
    have xy: "0 \<le> x" "x < getWidth d" "0 \<le> y" "y < getHeight d" using that by (simp_all add: inside_def G_def setDim_def)
    have c: "0 \<le> x * pixel_size F + k" "x * pixel_size F + k < int len"
      using pixel_column_range [OF \<open>fb_ok G\<close> that k] G by simp_all
    let ?rs = "map (\<lambda>i. row_bytes F d (rtop d + int i)) [0..<nat (getHeight d)]"
    have row: "length (row_bytes F d (rtop d + int i)) = len" if "i < nat (getHeight d)" for i
    proof -
      have "0 \<le> rtop d + int i" "rtop d + int i < height (dim F)" using d that by (auto simp: getHeight_def)
      from row_load(2) [OF ok d(1-3) this] len show ?thesis by simp
    qed
    have "M ! (nat y * len + nat (x * pixel_size F + k)) = row_bytes F d (rtop d + y) ! nat (x * pixel_size F + k)"
      unfolding M_def rows_bytes_def
      by (subst concat_rows_nth [of ?rs len]) (use row xy c in auto)
    also have "\<dots> = buffer F ! (nat ((rtop d + y) * stride F + rleft d * pixel_size F) + nat (x * pixel_size F + k))"
    proof -
      have "nat (x * pixel_size F + k) < length (row_bytes F d (rtop d + y))" using row [of "nat y"] xy c by simp
      then show ?thesis by (auto simp: row_bytes_def intro!: nth_drop)
    qed
    also have "nat ((rtop d + y) * stride F + rleft d * pixel_size F) + nat (x * pixel_size F + k) =
        nat ((rtop d + y) * stride F + ((rleft d + x) * pixel_size F + k))"
    proof -
      have "0 \<le> (rtop d + y) * stride F" "0 \<le> rleft d * pixel_size F"
        using d xy P ok by (simp_all add: stride_def fb_ok_def)
      then show ?thesis using c by (simp add: nat_add_distrib [symmetric] algebra_simps)
    qed
    finally have "M ! (nat y * len + nat (x * pixel_size F + k)) = buffer F ! nat ((rtop d + y) * stride F + ((rleft d + x) * pixel_size F + k))" .
    moreover have "nat y * len + nat (x * pixel_size F + k) = nat (y * stride G + (x * pixel_size G + k))"
      using xy c by (simp add: G nat_add_distrib nat_mult_distrib)
    ultimately show "peek (buffer G) (y * stride G + (x * pixel_size G + k)) =
        peek (buffer F) ((rtop d + y) * stride F + ((rleft d + x) * pixel_size F + k))"
      by (simp add: peek_def G_def)
  qed
  ultimately show ?thesis unfolding rect_image_def M_def [symmetric]
    by (intro exI [of _ G]) (simp add: G_def)
qed

section \<open>Reading the bytes\<close>

lemma intersection_inside:
  assumes "rleft a \<le> rleft b" "rright b \<le> rright a" "rtop a \<le> rtop b" "rbottom b \<le> rbottom a" "isValid b"
  shows "intersection a b = b"
proof -
  have "setRect (if rleft a > rleft b then rleft a else rleft b) (if rtop a > rtop b then rtop a else rtop b)
      (if rright a < rright b then rright a else rright b) (if rbottom a < rbottom b then rbottom a else rbottom b) = b"
    using assms by (intro rect_eqI) auto
  then show ?thesis using assms(5) by (simp add: intersection_def)
qed

lemma copy_from_image:
  assumes ok: "fb_ok fb" and d: "rect_within fb d" and G: "fb_ok G" "dim G = setDim d" "fmt G = fmt fb"
  shows "copyFrom d G 0 0 fb = map_option (\<lambda>b. (True, fb\<lparr>buffer := b\<rparr>))
    (copy_rows (nat (getHeight d)) (getWidth d * pixel_size fb) (stride fb) (stride G) (getBufferPtr fb (rleft d) (rtop d)) 0 (buffer G) (buffer fb))"
proof -
  let ?s = "setRect 0 0 (getWidth d) (getHeight d)"
  have i: "intersection (getRect (dim fb)) d = d" "intersection (getRect (dim G)) ?s = ?s" "intersection ?s ?s = ?s"
    by (rule intersection_inside; use d in \<open>simp add: getRect_def G(2) setDim_def rect_within_def getWidth_def getHeight_def isValid_def\<close>)+
  have m: "move (- rleft d) (- rtop d) d = ?s" "move (rleft d) (rtop d) ?s = d" "move 0 0 ?s = ?s"
    by (rule rect_eqI; simp add: getWidth_def getHeight_def)+
  have c: "clipRect fb d G 0 0 = (d, ?s)"
    by (simp add: clipRect_def Let_def i m)
  have "\<not> area d \<le> 0" "\<not> area (setRect 0 0 (getWidth d) (getHeight d)) \<le> 0"
    using d by (simp_all add: rect_area rect_isEmpty_iff rect_within_def getWidth_def getHeight_def)
  moreover have "rtop d * (width (dim fb) * pixel_size fb) + pixel_size fb * rleft d = getBufferPtr fb (rleft d) (rtop d)"
    using getBufferPtr_ok [OF ok] by (simp add: stride_def)
  ultimately have "copyFrom d G 0 0 fb = (case copy_rows (nat (getHeight d)) (getWidth d * pixel_size fb) (stride fb) (stride G)
      (getBufferPtr fb (rleft d) (rtop d)) 0 (buffer G) (buffer fb) of None \<Rightarrow> None | Some b \<Rightarrow> Some (True, fb\<lparr>buffer := b\<rparr>))"
    using c G(3) unfolding copyFrom_def Let_def pixel_size_def stride_def by simp
  then show ?thesis by (simp split: option.split)
qed

text \<open>Reading lines is copying rows from a block with the bytes of the message.\<close>

context input_stream
begin

lemma raw_lines_gets:
  assumes "fb_ok fb" "0 \<le> len" "int (length src) = q + int n * len" "0 \<le> q"
    and "copy_rows n len (stride fb) len (getBufferPtr fb x y) q src (buffer fb) = Some b"
  shows "gets (raw_lines rd len x y n fb) (drop (nat q) src) (fb\<lparr>buffer := b\<rparr>)"
  using assms
proof (induction n arbitrary: q y fb)
  case 0
  then show ?case using gets_return by (simp add: gets_def)
next
  case (Suc n)
  define bs where "bs = take (nat len) (drop (nat q) src)"
  have nn: "0 \<le> int n * len" using Suc.prems(2) by simp
  have "q + len \<le> int (length src)" using Suc.prems(3) nn by (simp add: algebra_simps)
  then have "nat q + nat len \<le> length src" using Suc.prems(2,4) by (simp add: nat_add_distrib [symmetric])
  then have bs: "load q len src = Some bs" "length bs = nat len" "drop (nat q) src = bs @ drop (nat (q + len)) src"
    using Suc.prems(2,4) by (auto simp: load_def in_block_def bs_def nat_add_distrib add.commute)
      (metis append_take_drop_id drop_drop)
  obtain b1 where b1: "store (getBufferPtr fb x y) bs (buffer fb) = Some b1"
      "copy_rows n len (stride fb) len (getBufferPtr fb x y + stride fb) (q + len) src b1 = Some b"
    using Suc.prems(5) bs(1) by (auto split: option.splits)
  let ?fb = "fb\<lparr>buffer := b1\<rparr>"
  have "length b1 = length (buffer fb)" using b1(1) by (auto simp: store_def in_block_def split: if_splits)
  then have ok: "fb_ok ?fb" using Suc.prems(1) by (simp add: fb_ok_buffer)
  have "getBufferPtr ?fb x (y + 1) = getBufferPtr fb x y + stride fb"
    using getBufferPtr_ok [OF Suc.prems(1)] getBufferPtr_ok [OF ok] by (simp add: algebra_simps)
  then have "copy_rows n len (stride ?fb) len (getBufferPtr ?fb x (y + 1)) (q + len) src (buffer ?fb) = Some b"
    using b1(2) by simp
  from Suc.IH [OF ok Suc.prems(2) _ _ this] Suc.prems
  have IH: "gets (raw_lines rd len x (y + 1) n ?fb) (drop (nat (q + len)) src) (fb\<lparr>buffer := b\<rparr>)" by (simp add: algebra_simps)
  have step: "raw_lines rd len x y (Suc n) fb = (\<lambda>s. case readFully rd (length bs) s of None \<Rightarrow> None | Some (bs, s) \<Rightarrow>
      (case store (getBufferPtr fb x y) bs (buffer fb) of None \<Rightarrow> None | Some b \<Rightarrow> raw_lines rd len x (y + 1) n (fb\<lparr>buffer := b\<rparr>) s))"
    by (intro ext) (simp add: bs(2) split: option.split)
  show ?case unfolding step bs(3) by (rule gets_then [OF readFully_gets]) (simp add: b1(1) IH)
qed

lemma raw_image_gets:
  assumes ok: "fb_ok fb" and d: "rect_within fb d" and M: "rect_image F d M" "fmt F = fmt fb"
  shows "\<exists>fb'. gets (raw_lines rd (getWidth d * pixel_size fb) (rleft d) (rtop d) (nat (getHeight d)) fb) M fb' \<and>
    drawn F (isPointInRect d) fb fb'"
proof -
  obtain G where G: "fb_ok G" "dim G = setDim d" "fmt G = fmt fb" "buffer G = M"
      "\<And>x y. inside G x y \<Longrightarrow> pixel G x y = pixel F (rleft d + x) (rtop d + y)"
    using M unfolding rect_image_def by auto
  obtain b where b: "copyFrom d G 0 0 fb = Some (True, fb\<lparr>buffer := b\<rparr>)" "length b = length (buffer fb)"
    "\<And>x y. inside fb x y \<Longrightarrow> pixel (fb\<lparr>buffer := b\<rparr>) x y =
       (if isPointInRect d x y \<and> inside G (x + (0 - rleft d)) (y + (0 - rtop d))
        then pixel G (x + (0 - rleft d)) (y + (0 - rtop d)) else pixel fb x y)"
    using copyFrom_ok [OF ok G(1) G(3) [symmetric], of d 0 0] by blast
  have st: "stride G = getWidth d * pixel_size fb" using G(2,3) by (simp add: stride_def setDim_def pixel_size_def)
  have rows: "copy_rows (nat (getHeight d)) (getWidth d * pixel_size fb) (stride fb) (getWidth d * pixel_size fb)
      (getBufferPtr fb (rleft d) (rtop d)) 0 M (buffer fb) = Some b"
    using b(1) copy_from_image [OF ok d G(1,2,3)] st G(4) by (auto dest: arg_cong [of _ _ buffer])
  have h: "0 \<le> getHeight d" "0 \<le> getWidth d" using d by (simp_all add: rect_within_def getWidth_def getHeight_def)
  have "int (length M) = 0 + int (nat (getHeight d)) * (getWidth d * pixel_size fb)"
    using G(1,2,4) st h by (simp add: fb_ok_def setDim_def)
  moreover have "0 \<le> getWidth d * pixel_size fb" using h fb_ok_size_pos [OF ok] by simp
  ultimately have "gets (raw_lines rd (getWidth d * pixel_size fb) (rleft d) (rtop d) (nat (getHeight d)) fb) M (fb\<lparr>buffer := b\<rparr>)"
    using raw_lines_gets [OF ok _ _ order_refl rows] by simp
  moreover have "drawn F (isPointInRect d) fb (fb\<lparr>buffer := b\<rparr>)"
    using b(2,3) G(5) by (auto simp: drawn_def inside_def G(2) setDim_def in_rect getWidth_def getHeight_def)
  ultimately show ?thesis by blast
qed

end

section \<open>Sending\<close>

context output_stream
begin

lemma raw_send_puts:
  assumes ok: "fb_ok F" and d: "0 \<le> rleft d" "rleft d \<le> rright d" "rright d \<le> width (dim F)"
  shows "0 \<le> y \<Longrightarrow> y + int n \<le> height (dim F) \<Longrightarrow>
    puts (raw_send wr n (y * stride F + rleft d * pixel_size F) (getWidth d * pixel_size F) (stride F) (buffer F)) (rows_bytes F d y n)"
proof (induction n arbitrary: y)
  case 0
  then show ?case using puts_return by (simp add: puts_def rows_bytes_def)
next
  case (Suc n)
  have call: "raw_send wr (Suc n) (y * stride F + rleft d * pixel_size F) (getWidth d * pixel_size F) (stride F) (buffer F) =
      (\<lambda>s. case writeFully wr (row_bytes F d y) s of None \<Rightarrow> None | Some s \<Rightarrow>
         raw_send wr n ((y + 1) * stride F + rleft d * pixel_size F) (getWidth d * pixel_size F) (stride F) (buffer F) s)"
  proof -
    have "(y + 1) * stride F + rleft d * pixel_size F = y * stride F + rleft d * pixel_size F + stride F" by (simp add: distrib_right)
    then show ?thesis using row_load(1) [OF ok d Suc.prems(1)] Suc.prems(2) by (intro ext) (simp add: add_ac split: option.split)
  qed
  show ?case unfolding call rows_bytes_Suc
    by (rule puts_then [OF writeFully_puts Suc.IH]) (use Suc.prems in auto)
qed

lemma Encoder_sendRectangle_puts:
  assumes F: "F = convert r serverFb" and ok: "fb_ok F" and r: "rect_within F r"
  shows "puts (Encoder_sendRectangle wr convert r serverFb) (rows_bytes F r (rtop r) (nat (getHeight r)))"
proof -
  have call: "Encoder_sendRectangle wr convert r serverFb = raw_send wr (nat (getHeight r))
      (rtop r * stride F + rleft r * pixel_size F) (getWidth r * pixel_size F) (stride F) (buffer F)"
    using getBytesPerPixel_ok [OF ok]
    by (intro ext) (simp add: Encoder_sendRectangle_def F [symmetric] Let_def getHeight_def stride_def algebra_simps)
  show ?thesis unfolding call by (rule raw_send_puts [OF ok]) (use r in \<open>auto simp: rect_within_def getHeight_def\<close>)
qed

end

section \<open>Receiving\<close>

definition view_ok :: "frame_buffer \<Rightarrow> view \<Rightarrow> bool" where
  "view_ok F v \<longleftrightarrow> fb_ok (shown v) \<and> fb_ok (second v) \<and> dim (shown v) = dim (second v) \<and> fmt (shown v) = fmt F \<and> fmt (second v) = fmt F"

definition view_drawn :: "frame_buffer \<Rightarrow> (int \<Rightarrow> int \<Rightarrow> bool) \<Rightarrow> view \<Rightarrow> view \<Rightarrow> bool" where
  "view_drawn F P v v' \<longleftrightarrow> drawn F P (shown v) (shown v') \<and> drawn F P (second v) (second v')"

lemma view_drawn_ok: "view_ok F v \<Longrightarrow> view_drawn F P v v' \<Longrightarrow> view_ok F v' \<and> dim (second v') = dim (second v)"
  using drawn_shape by (fastforce simp: view_ok_def view_drawn_def)

lemma view_drawn_trans:
  assumes "view_drawn F P a b" "view_drawn F Q b c" "\<And>x y. R x y \<longleftrightarrow> P x y \<or> Q x y"
  shows "view_drawn F R a c"
  using assms drawn_trans unfolding view_drawn_def by blast

context input_stream
begin

text \<open>What every decoder of a rectangle shares: it is copied to the shown buffer and reported.\<close>

lemma process_gets:
  assumes v: "view_ok F v" and d: "rect_within (second v) d"
    and g: "gets (decode d (second v)) M fb'" "drawn F (isPointInRect d) (second v) fb'"
  shows "\<exists>v'. gets (DecoderOfRectangle_process decode d v) M v' \<and> view_drawn F (isPointInRect d) v v' \<and> notified v' = notified v @ [d]"
proof -
  have s: "fb_ok fb' \<and> dim fb' = dim (second v) \<and> fmt fb' = fmt (second v)" using drawn_shape [OF g(2)] v by (simp add: view_ok_def)
  obtain b where b: "copyFrom d fb' (rleft d) (rtop d) (shown v) = Some (True, (shown v)\<lparr>buffer := b\<rparr>)" "length b = length (buffer (shown v))"
    "\<And>x y. inside (shown v) x y \<Longrightarrow> pixel ((shown v)\<lparr>buffer := b\<rparr>) x y =
       (if isPointInRect d x y \<and> inside fb' x y then pixel fb' x y else pixel (shown v) x y)"
    using copyFrom_ok [of "shown v" fb' d "rleft d" "rtop d"] v s by (auto simp: view_ok_def)
  let ?v = "\<lparr>shown = (shown v)\<lparr>buffer := b\<rparr>, second = fb', notified = notified v @ [d]\<rparr>"
  have call: "DecoderOfRectangle_process decode d v = (\<lambda>s. case decode d (second v) s of None \<Rightarrow> None | Some (fb, s) \<Rightarrow>
      (case DecoderOfRectangle_copy d fb (shown v) of None \<Rightarrow> None | Some shown_fb \<Rightarrow>
         Some (\<lparr>shown = shown_fb, second = fb, notified = notified v @ [d]\<rparr>, s)))"
    by (intro ext) (simp add: DecoderOfRectangle_process_def)
  have "gets (DecoderOfRectangle_process decode d v) (M @ []) ?v"
    unfolding call by (rule gets_then [OF g(1)]) (use gets_return in \<open>simp add: DecoderOfRectangle_copy_def b(1)\<close>)
  moreover have "drawn F (isPointInRect d) (shown v) ((shown v)\<lparr>buffer := b\<rparr>)"
  proof -
    have "inside (shown v) x y = inside (second v) x y" "inside fb' x y = inside (second v) x y" for x y
      using v s by (simp_all add: inside_def view_ok_def)
    then show ?thesis using b(2,3) g(2) by (auto simp: drawn_def)
  qed
  ultimately show ?thesis using g(2) by (intro exI [of _ ?v]) (simp add: view_drawn_def)
qed

lemma RawDecoder_decode_gets:
  assumes ok: "fb_ok fb" and d: "rect_within fb d" and M: "rect_image F d M" "fmt F = fmt fb"
  shows "\<exists>fb'. gets (RawDecoder_decode rd d fb) M fb' \<and> drawn F (isPointInRect d) fb fb'"
proof -
  have "intersection (getRect (dim fb)) d = d"
    by (rule intersection_inside; use d in \<open>simp add: getRect_def rect_within_def isValid_def\<close>)
  then have call: "RawDecoder_decode rd d fb = raw_lines rd (getWidth d * pixel_size fb) (rleft d) (rtop d) (nat (getHeight d)) fb"
    by (intro ext) (simp add: RawDecoder_decode_def Let_def pixel_size_def getHeight_def mult.commute)
  show ?thesis unfolding call by (rule raw_image_gets [OF ok d M])
qed

lemma raw_part_gets:
  assumes F: "fb_ok F" "rect_within F r" and v: "view_ok F v" "rect_within (second v) r"
    and d: "rtop r \<le> a" "a < b" "b \<le> rbottom r"
  shows "\<exists>v'. gets (DecoderOfRectangle_process (RawDecoder_decode rd) (setRect (rleft r) a (rright r) b) v) (rows_bytes F r a (nat (b - a))) v' \<and>
    view_drawn F (isPointInRect (setRect (rleft r) a (rright r) b)) v v' \<and> notified v' = notified v @ [setRect (rleft r) a (rright r) b]"
proof -
  let ?d = "setRect (rleft r) a (rright r) b"
  have w: "rect_within F ?d" "rect_within (second v) ?d" using F(2) v(2) d by (simp_all add: rect_within_def)
  have "rect_image F ?d (rows_bytes F ?d (rtop ?d) (nat (getHeight ?d)))"
    by (rule rect_image_rows [OF F(1)]) (use w(1) in \<open>auto simp: rect_within_def\<close>)
  moreover have "rows_bytes F ?d a n = rows_bytes F r a n" for n by (simp add: rows_bytes_def row_bytes_def getWidth_def)
  ultimately have M: "rect_image F ?d (rows_bytes F r a (nat (b - a)))" by (simp add: getHeight_def)
  obtain fb' where "gets (RawDecoder_decode rd ?d (second v)) (rows_bytes F r a (nat (b - a))) fb'" "drawn F (isPointInRect ?d) (second v) fb'"
    using RawDecoder_decode_gets [OF _ w(2) M] v(1) by (auto simp: view_ok_def)
  from process_gets [where decode = "RawDecoder_decode rd", OF v(1) w(2) this] show ?thesis .
qed

end

text \<open>The parts are consecutive; \<open>stacked\<close> says that a list of rectangles are the slices of \<open>r\<close> between two rows.\<close>

fun stacked :: "rect \<Rightarrow> int \<Rightarrow> rect list \<Rightarrow> int \<Rightarrow> bool" where
  "stacked r a [] b \<longleftrightarrow> a = b"
| "stacked r a (q # qs) b \<longleftrightarrow> (\<exists>m > a. q = setRect (rleft r) a (rright r) m \<and> stacked r m qs b)"

lemma stacked_snoc: "stacked r a qs b \<Longrightarrow> b < c \<Longrightarrow> stacked r a (qs @ [setRect (rleft r) b (rright r) c]) c"
  by (induction qs arbitrary: a) auto

context input_stream
begin

lemma raw_parts_gets:
  assumes F: "fb_ok F" "rect_within F r" and dh: "0 < dh"
  shows "view_ok F v \<Longrightarrow> rect_within (second v) r \<Longrightarrow> rtop r \<le> a \<Longrightarrow> a < rbottom r \<Longrightarrow>
    \<exists>e v' qs. gets (raw_parts rd r dh (setRect (rleft r) a (rright r) (a + dh)) v) (rows_bytes F r a (nat (e - a)))
        (setRect (rleft r) e (rright r) (e + dh), v') \<and>
      a \<le> e \<and> e < rbottom r \<and> view_drawn F (isPointInRect (setRect (rleft r) a (rright r) e)) v v' \<and>
      notified v' = notified v @ qs \<and> stacked r a qs e"
proof (induction "nat (rbottom r - a)" arbitrary: a v rule: less_induct)
  case less
  let ?d = "setRect (rleft r) a (rright r) (a + dh)"
  show ?case
  proof (cases "a + dh + dh div 2 < rbottom r")
    case False
    then have call: "raw_parts rd r dh ?d v = (\<lambda>s. Some ((?d, v), s))" by (intro ext) (subst raw_parts.simps, simp)
    have "view_drawn F (isPointInRect (setRect (rleft r) a (rright r) a)) v v"
      unfolding view_drawn_def by (intro conjI drawn_empty) (simp_all add: in_rect)
    with less.prems(4) gets_return show ?thesis unfolding call
      by (intro exI [of _ a] exI [of _ v] exI [of _ "[]"]) (simp add: rows_bytes_def)
  next
    case True
    then have ad: "a + dh < rbottom r" using dh by (simp add: order_le_less_trans [rotated])
    from raw_part_gets [OF F less.prems(1,2,3), of "a + dh"] ad dh obtain v1 where
      v1: "gets (DecoderOfRectangle_process (RawDecoder_decode rd) ?d v) (rows_bytes F r a (nat dh)) v1"
        "view_drawn F (isPointInRect ?d) v v1" "notified v1 = notified v @ [?d]" by auto
    note v1_ok = view_drawn_ok [OF less.prems(1) v1(2)]
    have w1: "rect_within (second v1) r" using less.prems(2) v1_ok by (simp add: rect_within_def)
    from less.hyps [of "a + dh" v1] v1_ok w1 less.prems(3) ad dh obtain e v2 qs where
      e: "gets (raw_parts rd r dh (setRect (rleft r) (a + dh) (rright r) (a + dh + dh)) v1) (rows_bytes F r (a + dh) (nat (e - (a + dh))))
          (setRect (rleft r) e (rright r) (e + dh), v2)"
        "a + dh \<le> e" "e < rbottom r" "view_drawn F (isPointInRect (setRect (rleft r) (a + dh) (rright r) e)) v1 v2"
        "notified v2 = notified v1 @ qs" "stacked r (a + dh) qs e" by auto
    have mv: "move 0 dh ?d = setRect (rleft r) (a + dh) (rright r) (a + dh + dh)" by (rule rect_eqI) simp_all
    have call: "raw_parts rd r dh ?d v = (\<lambda>s. case DecoderOfRectangle_process (RawDecoder_decode rd) ?d v s of None \<Rightarrow> None
        | Some (v, s) \<Rightarrow> raw_parts rd r dh (setRect (rleft r) (a + dh) (rright r) (a + dh + dh)) v s)"
      using True by (intro ext) (subst raw_parts.simps, simp add: mv split: option.split)
    have bytes: "rows_bytes F r a (nat (e - a)) = rows_bytes F r a (nat dh) @ rows_bytes F r (a + dh) (nat (e - (a + dh)))"
    proof -
      have "nat (e - a) = nat dh + nat (e - (a + dh))" using e(2) dh by simp
      then show ?thesis using dh by (simp add: rows_bytes_add)
    qed
    have "gets (raw_parts rd r dh ?d v) (rows_bytes F r a (nat (e - a))) (setRect (rleft r) e (rright r) (e + dh), v2)"
      unfolding call bytes by (rule gets_then [OF v1(1)]) (rule e(1))
    moreover have "view_drawn F (isPointInRect (setRect (rleft r) a (rright r) e)) v v2"
      by (rule view_drawn_trans [OF v1(2) e(4)]) (use e(2) dh in \<open>auto simp: in_rect\<close>)
    moreover have "stacked r a (?d # qs) e" using e(6) dh by (auto intro!: exI [of _ "a + dh"])
    ultimately show ?thesis using e(2,3,5) v1(3) dh
      by (intro exI [of _ e] exI [of _ v2] exI [of _ "?d # qs"]) simp
  qed
qed

lemma RawDecoder_process_gets:
  assumes F: "fb_ok F" "rect_within F r" and v: "view_ok F v" "rect_within (second v) r"
  shows "\<exists>v' qs. gets (RawDecoder_process rd r v) (rows_bytes F r (rtop r) (nat (getHeight r))) v' \<and>
    view_drawn F (isPointInRect r) v v' \<and> notified v' = notified v @ qs \<and> stacked r (rtop r) qs (rbottom r)"
proof -
  define dh where "dh = (AREA_OF_ONE_PART + getWidth r - 1) div getWidth r"
  have w: "0 < getWidth r" "rtop r < rbottom r" using F(2) by (simp_all add: rect_within_def getWidth_def)
  have dh: "0 < dh" using w(1) by (simp add: dh_def AREA_OF_ONE_PART_def pos_imp_zdiv_pos_iff)
  from raw_parts_gets [OF F dh v order_refl w(2)] obtain e v1 qs where
    e: "gets (raw_parts rd r dh (setRect (rleft r) (rtop r) (rright r) (rtop r + dh)) v) (rows_bytes F r (rtop r) (nat (e - rtop r)))
        (setRect (rleft r) e (rright r) (e + dh), v1)"
      "rtop r \<le> e" "e < rbottom r" "view_drawn F (isPointInRect (setRect (rleft r) (rtop r) (rright r) e)) v v1"
      "notified v1 = notified v @ qs" "stacked r (rtop r) qs e" by blast
  note v1_ok = view_drawn_ok [OF v(1) e(4)]
  have w1: "rect_within (second v1) r" using v(2) v1_ok by (simp add: rect_within_def)
  from raw_part_gets [OF F _ w1 e(2,3) order_refl] v1_ok obtain v2 where
    v2: "gets (DecoderOfRectangle_process (RawDecoder_decode rd) (setRect (rleft r) e (rright r) (rbottom r)) v1)
        (rows_bytes F r e (nat (rbottom r - e))) v2"
      "view_drawn F (isPointInRect (setRect (rleft r) e (rright r) (rbottom r))) v1 v2"
      "notified v2 = notified v1 @ [setRect (rleft r) e (rright r) (rbottom r)]" by blast
  have last_part: "(setRect (rleft r) e (rright r) (e + dh))\<lparr>rtop := e, rbottom := rbottom r\<rparr> = setRect (rleft r) e (rright r) (rbottom r)"
    by (simp add: setRect_def)
  have "area r \<noteq> 0" using w by (simp add: area_def rect_isEmpty_iff getWidth_def getHeight_def)
  moreover have "setLocation (rleft r) (rtop r) (setRect 0 0 (getWidth r) dh) = setRect (rleft r) (rtop r) (rright r) (rtop r + dh)"
    by (rule rect_eqI) (simp_all add: setLocation_move getWidth_def)
  ultimately have call: "RawDecoder_process rd r v =
      (\<lambda>s. case raw_parts rd r dh (setRect (rleft r) (rtop r) (rright r) (rtop r + dh)) v s of None \<Rightarrow> None
       | Some (x, s) \<Rightarrow> (case x of (deltaRect, v) \<Rightarrow> DecoderOfRectangle_process (RawDecoder_decode rd)
           (deltaRect\<lparr>rtop := max (rtop r) (rbottom deltaRect - dh), rbottom := rbottom r\<rparr>) v) s)"
    by (intro ext) (simp add: RawDecoder_process_def dh_def [symmetric] Let_def split: option.split)
  have bytes: "rows_bytes F r (rtop r) (nat (getHeight r)) =
      rows_bytes F r (rtop r) (nat (e - rtop r)) @ rows_bytes F r e (nat (rbottom r - e))"
  proof -
    have "nat (getHeight r) = nat (e - rtop r) + nat (rbottom r - e)" using e(2,3) by (simp add: getHeight_def)
    then show ?thesis using e(2) by (simp add: rows_bytes_add)
  qed
  have "gets (RawDecoder_process rd r v) (rows_bytes F r (rtop r) (nat (getHeight r))) v2"
    unfolding call bytes
    by (rule gets_then [OF e(1)])
      (use v2(1) e(2) in \<open>simp add: last_part\<close>)
  moreover have "view_drawn F (isPointInRect r) v v2"
    by (rule view_drawn_trans [OF e(4) v2(2)]) (use e(2,3) in \<open>auto simp: in_rect\<close>)
  ultimately show ?thesis using e(5) v2(3) stacked_snoc [OF e(6,3)] by auto
qed

end

section \<open>Round trip\<close>

text \<open>Through a byte array: the view shows the rectangle of the server, and nothing else has changed.\<close>

lemma raw_roundtrip_ok:
  assumes F: "F = convert r serverFb" "fb_ok F" "rect_within F r" and v: "view_ok F v" "rect_within (second v) r"
    and out: "out_ready s" "toByteArray s = []"
  shows "\<exists>s' v' t. Encoder_sendRectangle (ByteArrayOutputStream_write mem) convert r serverFb s = Some s' \<and>
    RawDecoder_process ByteArrayInputStream_read r v (ByteArrayInputStream_new (toByteArray s' @ rest)) = Some (v', t) \<and>
    in_pending t = rest \<and> view_drawn F (isPointInRect r) v v' \<and>
    (\<exists>qs. notified v' = notified v @ qs \<and> stacked r (rtop r) qs (rbottom r))"
proof -
  let ?M = "rows_bytes F r (rtop r) (nat (getHeight r))"
  obtain s' where s': "Encoder_sendRectangle (ByteArrayOutputStream_write mem) convert r serverFb s = Some s'" "toByteArray s' = ?M"
    using byte_out.puts_obtain [OF byte_out.Encoder_sendRectangle_puts [where convert = convert and r = r and serverFb = serverFb, OF F] out(1)] out(2) by auto
  obtain v' qs where v': "byte_in.gets (RawDecoder_process ByteArrayInputStream_read r v) ?M v'"
      "view_drawn F (isPointInRect r) v v'" "notified v' = notified v @ qs" "stacked r (rtop r) qs (rbottom r)"
    using byte_in.RawDecoder_process_gets [OF F(2,3) v] by blast
  have "in_pending (ByteArrayInputStream_new (toByteArray s' @ rest)) = ?M @ rest"
    by (simp add: ByteArrayInputStream_new_ok s'(2))
  from byte_in.gets_obtain [OF v'(1) ByteArrayInputStream_new_ok(1) this] s'(1) v'(2,3,4) show ?thesis by metis
qed

end
