(* ===== verification/HextileCodec.thy ===== *)
theory HextileCodec
  imports RawCodec Palette
begin

text \<open>
  The hextile encoding: \<open>rfb-sconn/HextileTile.h\<close> and \<open>rfb-sconn/HextileEncoder.cpp\<close> of the
  server, \<open>viewer-core/HexTileDecoder.cpp\<close> of the viewer. A rectangle is cut into tiles of
  sixteen by sixteen pixels; the state of both sides (the last background and foreground) lives across the tiles.
\<close>

unbundle bit_operations_syntax

definition hextileRaw :: int where "hextileRaw = 1"
definition hextileBgSpecified :: int where "hextileBgSpecified = 2"
definition hextileFgSpecified :: int where "hextileFgSpecified = 4"
definition hextileAnySubrects :: int where "hextileAnySubrects = 8"
definition hextileSubrectsColoured :: int where "hextileSubrectsColoured = 16"

section \<open>One tile\<close>

text \<open>
  The object \<open>HextileTile\<close>. The arrays \<open>m_colors\<close> and \<open>m_coords\<close>, filled together, are the list of
  subrectangles: a colour with two bytes of packed coordinates. \<open>m_tile\<close>, the
  array of pixels, is an argument: the pixel at an index, or none outside the block.
\<close>

record hextile_tile =
  t_size :: int
  t_flags :: int
  t_background :: "32 word"
  t_foreground :: "32 word"
  t_subs :: "(32 word \<times> 8 word \<times> 8 word) list"
  t_processed :: "bool list"
  t_pal :: palette

type_synonym tile_pixels = "nat \<Rightarrow> 32 word option"

text \<open>\<open>n\<close> is \<open>sizeof(PIXEL_T)\<close>; \<open>mem\<close> what the memory of the object holds.\<close>

definition HextileTile_new :: "nat \<Rightarrow> hextile_tile \<Rightarrow> hextile_tile" where
  "HextileTile_new n mem = mem\<lparr>t_size := 0, t_flags := 0, t_background := 0, t_foreground := 0, t_subs := [],
     t_pal := TightPalette_new (t_pal mem) (48 + 2 * int n)\<rparr>"

text \<open>The loops that stop at the first pixel of another colour or at the end.\<close>

function tile_run :: "tile_pixels \<Rightarrow> 32 word \<Rightarrow> nat \<Rightarrow> nat \<Rightarrow> nat option" where
  "tile_run tp color i end =
     (if i < end then
        (case tp i of
           None \<Rightarrow> None
         | Some p \<Rightarrow> if p = color then tile_run tp color (i + 1) end else Some i)
      else Some i)"
  by pat_completeness auto
termination
  by (relation "measure (\<lambda>(tp, color, i, end). end - i)") auto

declare tile_run.simps [simp del]

function tile_depth :: "tile_pixels \<Rightarrow> nat \<Rightarrow> nat \<Rightarrow> 32 word \<Rightarrow> nat \<Rightarrow> nat \<Rightarrow> nat \<Rightarrow> nat option" where
  "tile_depth tp w h color x max_x sy =
     (if sy < h then
        (case tile_run (\<lambda>sx. tp (sy * w + sx)) color x max_x of
           None \<Rightarrow> None
         | Some sx \<Rightarrow> if sx < max_x then Some sy else tile_depth tp w h color x max_x (sy + 1))
      else Some sy)"
  by pat_completeness auto
termination
  by (relation "measure (\<lambda>(tp, w, h, color, x, max_x, sy). h - sy)") auto

declare tile_depth.simps [simp del]

text \<open>\<open>m_processed\<close>, sixteen rows of sixteen, as one list.\<close>

primrec mark_row :: "nat \<Rightarrow> nat \<Rightarrow> bool list \<Rightarrow> bool list option" where
  "mark_row 0 i processed = Some processed"
| "mark_row (Suc sw) i processed =
     (if i < length processed then mark_row sw (i + 1) (processed[i := True]) else None)"

primrec mark_rows :: "nat \<Rightarrow> nat \<Rightarrow> nat \<Rightarrow> nat \<Rightarrow> bool list \<Rightarrow> bool list option" where
  "mark_rows 0 sy x sw processed = Some processed"
| "mark_rows (Suc sh) sy x sw processed =
     (case mark_row sw (sy * 16 + x) processed of
        None \<Rightarrow> None
      | Some processed \<Rightarrow> mark_rows sh (sy + 1) x sw processed)"

text \<open>The properties of a subrectangle; the arrays have room for 256.\<close>

definition pack_nibbles :: "nat \<Rightarrow> nat \<Rightarrow> 8 word" where
  "pack_nibbles a b = push_bit 4 (word_of_nat a) OR (word_of_nat b AND 0x0F)"

definition save_subrect :: "32 word \<Rightarrow> nat \<Rightarrow> nat \<Rightarrow> nat \<Rightarrow> nat \<Rightarrow> hextile_tile \<Rightarrow> hextile_tile option" where
  "save_subrect color x y sw sh t =
     (if length (t_subs t) < 256
      then Some (t\<lparr>t_subs := t_subs t @ [(color, pack_nibbles x y, pack_nibbles (sw - 1) (sh - 1))]\<rparr>) else None)"

lemma tile_run_ge: "tile_run tp color i end = Some j \<Longrightarrow> i \<le> j"
proof (induction tp color i "end" rule: tile_run.induct)
  case (1 tp color i e)
  show ?case
  proof (cases "i < e \<and> tp i = Some color")
    case True
    with "1.prems" have "tile_run tp color (i + 1) e = Some j" by (subst (asm) tile_run.simps) simp
    with "1.IH" True show ?thesis by force
  next
    case False
    with "1.prems" show ?thesis by (subst (asm) tile_run.simps) (auto split: if_splits option.splits)
  qed
qed

text \<open>A row of the scan. The result says whether the palette overflowed.\<close>

function tile_row :: "tile_pixels \<Rightarrow> nat \<Rightarrow> nat \<Rightarrow> nat \<Rightarrow> nat \<Rightarrow> hextile_tile \<Rightarrow> (bool \<times> hextile_tile) option" where
  "tile_row tp w h y x t =
     (if x < w then
        (if length (t_processed t) \<le> y * 16 + x then None
         else if t_processed t ! (y * 16 + x) then tile_row tp w h y (x + 1) t
         else
           (case tp (y * w + x) of None \<Rightarrow> None | Some color \<Rightarrow>
           (case tile_run (\<lambda>sx. tp (y * w + sx)) color (x + 1) w of None \<Rightarrow> None | Some max_x \<Rightarrow>
           (case tile_depth tp w h color x max_x (y + 1) of None \<Rightarrow> None | Some sy \<Rightarrow>
           (case save_subrect color x y (max_x - x) (sy - y) t of None \<Rightarrow> None | Some t \<Rightarrow>
           (case TightPalette_insert color 1 (t_pal t) of None \<Rightarrow> None | Some (r, pal) \<Rightarrow>
              if r = 0 then Some (True, t\<lparr>t_pal := pal\<rparr>)
              else (case mark_rows (sy - y - 1) (y + 1) x (max_x - x) (t_processed t) of
                      None \<Rightarrow> None
                    | Some processed \<Rightarrow>
                        tile_row tp w h y (x + (max_x - x)) (t\<lparr>t_pal := pal, t_processed := processed\<rparr>))))))))
      else Some (False, t))"
  by pat_completeness auto
termination
  by (relation "measure (\<lambda>(tp, w, h, y, x, t). w - x)") (auto dest: tile_run_ge)

declare tile_row.simps [simp del]

function tile_rows :: "tile_pixels \<Rightarrow> nat \<Rightarrow> nat \<Rightarrow> nat \<Rightarrow> hextile_tile \<Rightarrow> (bool \<times> hextile_tile) option" where
  "tile_rows tp w h y t =
     (if y < h then
        (case tile_row tp w h y 0 t of
           None \<Rightarrow> None
         | Some (overflow, t) \<Rightarrow> if overflow then Some (True, t) else tile_rows tp w h (y + 1) t)
      else Some (False, t))"
  by pat_completeness auto
termination
  by (relation "measure (\<lambda>(tp, w, h, y, t). h - y)") auto

declare tile_rows.simps [simp del]

text \<open>After the scan: the most frequent colour is the background.\<close>

definition tile_result :: "nat \<Rightarrow> hextile_tile \<Rightarrow> hextile_tile" where
  "tile_result n t =
     (let numColors = numColors (t_pal t);
          t = t\<lparr>t_background := take_bit (8 * n) (getEntry 0 (t_pal t)), t_flags := hextileAnySubrects\<rparr>;
          numSubrects = int (length (t_subs t)) - getCount 0 (t_pal t)
      in if numColors = 2
         then t\<lparr>t_foreground := take_bit (8 * n) (getEntry 1 (t_pal t)), t_size := 1 + 2 * numSubrects\<rparr>
         else t\<lparr>t_flags := hextileAnySubrects OR hextileSubrectsColoured, t_size := 1 + (2 + int n) * numSubrects\<rparr>)"

definition HextileTile_analyze :: "nat \<Rightarrow> tile_pixels \<Rightarrow> nat \<Rightarrow> nat \<Rightarrow> hextile_tile \<Rightarrow> hextile_tile option" where
  "HextileTile_analyze n tp w h t =
     (case tp 0 of None \<Rightarrow> None | Some color \<Rightarrow>
     (case tile_run tp color 1 (w * h) of None \<Rightarrow> None | Some ptr \<Rightarrow>
        if ptr = w * h then Some (t\<lparr>t_background := color, t_flags := 0, t_size := 0\<rparr>)
        else
          let y = ptr div w;
              t = t\<lparr>t_pal := TightPalette_reset (t_pal t), t_subs := []\<rparr>
          in case (if y > 0 then
                     (case save_subrect color 0 0 w y t of None \<Rightarrow> None | Some t \<Rightarrow>
                        map_option (\<lambda>(r, pal). t\<lparr>t_pal := pal\<rparr>) (TightPalette_insert color 1 (t_pal t)))
                   else Some t) of
               None \<Rightarrow> None
             | Some t \<Rightarrow>
                 (case tile_rows tp w h y (t\<lparr>t_processed := replicate 256 False\<rparr>) of
                    None \<Rightarrow> None
                  | Some (overflow, t) \<Rightarrow>
                      Some (if overflow then t\<lparr>t_flags := hextileRaw, t_size := 0\<rparr> else tile_result n t))))"

definition newTile :: "nat \<Rightarrow> tile_pixels \<Rightarrow> nat \<Rightarrow> nat \<Rightarrow> hextile_tile \<Rightarrow> hextile_tile option" where
  "newTile n src w h t = HextileTile_analyze n src w h t"

text \<open>The bytes of the subrectangles after the counter, and their number, which the code counts in the first byte.\<close>

fun encode_subs :: "nat \<Rightarrow> hextile_tile \<Rightarrow> (32 word \<times> 8 word \<times> 8 word) list \<Rightarrow> 8 word \<Rightarrow> bytes \<Rightarrow> 8 word \<times> bytes" where
  "encode_subs n t [] numSubrects dst = (numSubrects, dst)"
| "encode_subs n t ((color, xy, wh) # subs) numSubrects dst =
     (if color = t_background t then encode_subs n t subs numSubrects dst
      else encode_subs n t subs (numSubrects + 1)
        (dst @ (if t_flags t AND hextileSubrectsColoured \<noteq> 0 then take n (le_bytes color) else []) @ [xy, wh]))"

definition HextileTile_encode :: "nat \<Rightarrow> hextile_tile \<Rightarrow> bytes" where
  "HextileTile_encode n t = (let (numSubrects, dst) = encode_subs n t (t_subs t) 0 [] in numSubrects # dst)"

section \<open>The encoder\<close>

text \<open>The local variables of \<open>hextileFunction\<close> that live across the tiles.\<close>

record hextile_vars =
  v_fb :: frame_buffer
  oldBg :: "32 word"
  oldFg :: "32 word"
  oldBgValid :: bool
  oldFgValid :: bool
  v_encoded :: bytes
  v_tile :: hextile_tile

text \<open>
  What is sent for an analysed tile: \<open>buf\<close> are the bytes of its pixels. The type of the tile gets
  the bits for a new background and a new foreground.
\<close>

definition hextile_send ::
  "'s writer \<Rightarrow> nat \<Rightarrow> int \<Rightarrow> bytes \<Rightarrow> hextile_vars \<Rightarrow> 's \<Rightarrow> (hextile_vars \<times> 's) option" where
  "hextile_send wr n pixels buf v s =
     (let tileType = t_flags (v_tile v); encodedLen = t_size (v_tile v) in
      if tileType AND hextileRaw \<noteq> 0 \<or> encodedLen \<ge> pixels * int n then
        (case writeUInt8 wr (word_of_int hextileRaw) s of None \<Rightarrow> None | Some s \<Rightarrow>
        (case load 0 (pixels * int n) buf of None \<Rightarrow> None | Some bs \<Rightarrow>
        (case writeFully wr bs s of None \<Rightarrow> None | Some s \<Rightarrow>
           Some (v\<lparr>oldBgValid := False, oldFgValid := False\<rparr>, s))))
      else
        let bg = t_background (v_tile v);
            newBg = (\<not> oldBgValid v \<or> oldBg v \<noteq> bg);
            tileType = (if newBg then tileType OR hextileBgSpecified else tileType);
            v = (if newBg then v\<lparr>oldBg := bg, oldBgValid := True\<rparr> else v);
            any = (tileType AND hextileAnySubrects \<noteq> 0);
            coloured = (tileType AND hextileSubrectsColoured \<noteq> 0);
            fg = (if any \<and> \<not> coloured then t_foreground (v_tile v) else 0);
            newFg = (any \<and> \<not> coloured \<and> (\<not> oldFgValid v \<or> oldFg v \<noteq> fg));
            tileType = (if newFg then tileType OR hextileFgSpecified else tileType);
            v = (if any \<and> coloured then v\<lparr>oldFgValid := False\<rparr>
                 else if newFg then v\<lparr>oldFg := fg, oldFgValid := True\<rparr> else v)
        in case (if any then store 0 (HextileTile_encode n (v_tile v)) (v_encoded v) else Some (v_encoded v)) of
             None \<Rightarrow> None
           | Some encoded \<Rightarrow>
               (case writeUInt8 wr (word_of_int tileType) s of None \<Rightarrow> None | Some s \<Rightarrow>
               (case (if tileType AND hextileBgSpecified \<noteq> 0 then writeFully wr (take n (le_bytes bg)) s else Some s) of None \<Rightarrow> None | Some s \<Rightarrow>
               (case (if tileType AND hextileFgSpecified \<noteq> 0 then writeFully wr (take n (le_bytes fg)) s else Some s) of None \<Rightarrow> None | Some s \<Rightarrow>
               (case (if any then load 0 encodedLen encoded else Some []) of None \<Rightarrow> None | Some bs \<Rightarrow>
               (case (if any then writeFully wr bs s else Some s) of None \<Rightarrow> None | Some s \<Rightarrow>
                  Some (v\<lparr>v_encoded := encoded\<rparr>, s)))))))"

definition hextile_tile_at ::
  "'s writer \<Rightarrow> (nat \<Rightarrow> bytes) \<Rightarrow> nat \<Rightarrow> frame_buffer \<Rightarrow> rect \<Rightarrow> hextile_vars \<Rightarrow> 's \<Rightarrow> (hextile_vars \<times> 's) option" where
  "hextile_tile_at wr junk n frameBuffer t v s =
     (case copyFromAll frameBuffer (rleft t) (rtop t) (setPropertiesByRect junk t (fmt frameBuffer) (v_fb v)) of
        None \<Rightarrow> None
      | Some (_, fb) \<Rightarrow>
          (case newTile n (\<lambda>i. pixel_at fb (int n) (int i)) (nat (getWidth t)) (nat (getHeight t)) (v_tile v) of
             None \<Rightarrow> None
           | Some tile \<Rightarrow> hextile_send wr n (getWidth t * getHeight t) (buffer fb) (v\<lparr>v_fb := fb, v_tile := tile\<rparr>) s))"

function hextile_cols ::
  "'s writer \<Rightarrow> (nat \<Rightarrow> bytes) \<Rightarrow> nat \<Rightarrow> frame_buffer \<Rightarrow> rect \<Rightarrow> int \<Rightarrow> int \<Rightarrow> hextile_vars \<Rightarrow> 's \<Rightarrow> (hextile_vars \<times> 's) option" where
  "hextile_cols wr junk n frameBuffer r t_top t_left v s =
     (if t_left < rright r then
        (case hextile_tile_at wr junk n frameBuffer
                (setRect t_left t_top (min (rright r) (t_left + 16)) (min (rbottom r) (t_top + 16))) v s of
           None \<Rightarrow> None
         | Some (v, s) \<Rightarrow> hextile_cols wr junk n frameBuffer r t_top (t_left + 16) v s)
      else Some (v, s))"
  by pat_completeness auto
termination
  by (relation "measure (\<lambda>(wr, junk, n, frameBuffer, r, t_top, t_left, v, s). nat (rright r - t_left))") auto

declare hextile_cols.simps [simp del]

function hextile_rows ::
  "'s writer \<Rightarrow> (nat \<Rightarrow> bytes) \<Rightarrow> nat \<Rightarrow> frame_buffer \<Rightarrow> rect \<Rightarrow> int \<Rightarrow> hextile_vars \<Rightarrow> 's \<Rightarrow> (hextile_vars \<times> 's) option" where
  "hextile_rows wr junk n frameBuffer r t_top v s =
     (if t_top < rbottom r then
        (case hextile_cols wr junk n frameBuffer r t_top (rleft r) v s of
           None \<Rightarrow> None
         | Some (v, s) \<Rightarrow> hextile_rows wr junk n frameBuffer r (t_top + 16) v s)
      else Some (v, s))"
  by pat_completeness auto
termination
  by (relation "measure (\<lambda>(wr, junk, n, frameBuffer, r, t_top, v, s). nat (rbottom r - t_top))") auto

declare hextile_rows.simps [simp del]

text \<open>\<open>mem\<close> holds what the uninitialised parts of the variables hold.\<close>

definition hextileFunction ::
  "'s writer \<Rightarrow> (nat \<Rightarrow> bytes) \<Rightarrow> hextile_vars \<Rightarrow> nat \<Rightarrow> rect \<Rightarrow> frame_buffer \<Rightarrow> 's \<Rightarrow> 's option" where
  "hextileFunction wr junk mem n r frameBuffer s =
     map_option snd (hextile_rows wr junk n frameBuffer r (rtop r)
       (mem\<lparr>oldBg := 0, oldFg := 0, oldBgValid := False, oldFgValid := False,
            v_encoded := new_block (v_encoded mem) (256 * n), v_tile := HextileTile_new n (v_tile mem)\<rparr>) s)"

text \<open>\<open>convert\<close> stands for the pixel converter, as for \<open>RreEncoder\<close>.\<close>

definition HextileEncoder_sendRectangle ::
  "'s writer \<Rightarrow> (nat \<Rightarrow> bytes) \<Rightarrow> hextile_vars \<Rightarrow> (rect \<Rightarrow> frame_buffer \<Rightarrow> frame_buffer) \<Rightarrow> rect \<Rightarrow> frame_buffer \<Rightarrow> 's \<Rightarrow> 's option" where
  "HextileEncoder_sendRectangle wr junk mem convert r serverFb s =
     (let fb = convert r serverFb; bpp = getBitsPerPixel fb
      in if bpp = 8 then hextileFunction wr junk mem 1 r fb s
         else if bpp = 16 then hextileFunction wr junk mem 2 r fb s
         else if bpp = 32 then hextileFunction wr junk mem 4 r fb s
         else Some s)"

section \<open>The decoder\<close>

text \<open>The variables that live across the tiles, the frame buffer among them.\<close>

record hextile_view =
  w_fb :: frame_buffer
  w_background :: "32 word"
  w_foreground :: "32 word"
  w_accepted :: bool

definition TILE_SIZE :: int where "TILE_SIZE = 16"

primrec hex_fills :: "'s reader \<Rightarrow> 8 word \<Rightarrow> rect \<Rightarrow> nat \<Rightarrow> hextile_view \<Rightarrow> 's \<Rightarrow> (hextile_view \<times> 's) option" where
  "hex_fills rd flags tileRect 0 v s = Some (v, s)"
| "hex_fills rd flags tileRect (Suc numberOfSubrectangles) v s =
     (case (if flags AND 0x10 \<noteq> 0 \<and> flags AND 0x4 = 0
            then readFully rd (nat (getBytesPerPixel (w_fb v))) s else Some ([], s)) of None \<Rightarrow> None | Some (bs, s) \<Rightarrow>
      let v = v\<lparr>w_foreground := put_low bs (w_foreground v)\<rparr> in
      case readUInt8 rd s of None \<Rightarrow> None | Some (xy, s) \<Rightarrow>
      (case readUInt8 rd s of None \<Rightarrow> None | Some (wh, s) \<Rightarrow>
         let x = uint (drop_bit 4 xy AND 0xF); y = uint (xy AND 0xF);
             w = uint (drop_bit 4 wh AND 0xF) + 1; h = uint (wh AND 0xF) + 1;
             subRect = move (rleft tileRect) (rtop tileRect) (setRect x y (x + w) (y + h))
         in case fillRect subRect (w_foreground v) (w_fb v) of
              None \<Rightarrow> None
            | Some fb \<Rightarrow> hex_fills rd flags tileRect numberOfSubrectangles (v\<lparr>w_fb := fb\<rparr>) s))"

text \<open>A tile that is not sent raw.\<close>

definition hex_coded :: "'s reader \<Rightarrow> 8 word \<Rightarrow> rect \<Rightarrow> hextile_view \<Rightarrow> 's \<Rightarrow> (hextile_view \<times> 's) option" where
  "hex_coded rd flags tileRect v s =
     (case (if flags AND 0x2 \<noteq> 0 then readFully rd (nat (getBytesPerPixel (w_fb v))) s else Some ([], s)) of
        None \<Rightarrow> None
      | Some (bs, s) \<Rightarrow>
          let v = (if flags AND 0x2 \<noteq> 0 then v\<lparr>w_background := put_low bs (w_background v), w_accepted := True\<rparr> else v) in
          case (if w_accepted v then fillRect tileRect (w_background v) (w_fb v) else Some (w_fb v)) of None \<Rightarrow> None | Some fb \<Rightarrow>
          (case (if flags AND 0x4 \<noteq> 0 then readFully rd (nat (getBytesPerPixel fb)) s else Some ([], s)) of None \<Rightarrow> None | Some (bs, s) \<Rightarrow>
           let v = v\<lparr>w_fb := fb, w_foreground := put_low bs (w_foreground v)\<rparr> in
           if flags AND 0x8 \<noteq> 0 then
             (case readUInt8 rd s of None \<Rightarrow> None | Some (numberOfSubrectangles, s) \<Rightarrow>
                hex_fills rd flags tileRect (unat numberOfSubrectangles) v s)
           else if w_accepted v then Some (v, s) else None))"

definition hex_tile :: "'s reader \<Rightarrow> rect \<Rightarrow> hextile_view \<Rightarrow> 's \<Rightarrow> (hextile_view \<times> 's) option" where
  "hex_tile rd tileRect v s =
     (if \<not> rect_isEqualTo (intersection (getRect (dim (w_fb v))) tileRect) tileRect then None else
      case readUInt8 rd s of None \<Rightarrow> None | Some (flags, s) \<Rightarrow>
      if flags AND 0x1 \<noteq> 0 then
        map_option (\<lambda>(fb, s). (v\<lparr>w_fb := fb\<rparr>, s))
          (raw_lines rd (getWidth tileRect * getBytesPerPixel (w_fb v)) (rleft tileRect) (rtop tileRect)
            (nat (rbottom tileRect - rtop tileRect)) (w_fb v) s)
      else hex_coded rd flags tileRect v s)"

function hex_cols :: "'s reader \<Rightarrow> rect \<Rightarrow> int \<Rightarrow> int \<Rightarrow> hextile_view \<Rightarrow> 's \<Rightarrow> (hextile_view \<times> 's) option" where
  "hex_cols rd dstRect y x v s =
     (if x < rright dstRect then
        (case hex_tile rd (setRect x y (min (x + TILE_SIZE) (rright dstRect)) (min (y + TILE_SIZE) (rbottom dstRect))) v s of
           None \<Rightarrow> None
         | Some (v, s) \<Rightarrow> hex_cols rd dstRect y (x + TILE_SIZE) v s)
      else Some (v, s))"
  by pat_completeness auto
termination
  by (relation "measure (\<lambda>(rd, dstRect, y, x, v, s). nat (rright dstRect - x))") (auto simp: TILE_SIZE_def)

declare hex_cols.simps [simp del]

function hex_rows :: "'s reader \<Rightarrow> rect \<Rightarrow> int \<Rightarrow> hextile_view \<Rightarrow> 's \<Rightarrow> (hextile_view \<times> 's) option" where
  "hex_rows rd dstRect y v s =
     (if y < rbottom dstRect then
        (case hex_cols rd dstRect y (rleft dstRect) v s of
           None \<Rightarrow> None
         | Some (v, s) \<Rightarrow> hex_rows rd dstRect (y + TILE_SIZE) v s)
      else Some (v, s))"
  by pat_completeness auto
termination
  by (relation "measure (\<lambda>(rd, dstRect, y, v, s). nat (rbottom dstRect - y))") (auto simp: TILE_SIZE_def)

declare hex_rows.simps [simp del]

definition HexTileDecoder_decode :: "'s reader \<Rightarrow> rect \<Rightarrow> frame_buffer \<Rightarrow> 's \<Rightarrow> (frame_buffer \<times> 's) option" where
  "HexTileDecoder_decode rd dstRect fb s =
     map_option (\<lambda>(v, s). (w_fb v, s))
       (hex_rows rd dstRect (rtop dstRect) \<lparr>w_fb = fb, w_background = 0, w_foreground = 0, w_accepted = False\<rparr> s)"

end
