(* ===== verification/HextileScan.thy ===== *)
theory HextileScan
  imports HextileCodec PaletteCorrect RreScan
begin

text \<open>
  What the analysis of a tile finds. \<open>pic i\<close> is the pixel at index \<open>i\<close>. The subrectangles found are
  of one colour each and cover every pixel, the palette counts their colours, and the
  arrays of the object are never left.
\<close>

unbundle bit_operations_syntax

section \<open>The loops over pixels\<close>

lemma tile_run_ok:
  assumes "\<And>k. i \<le> k \<Longrightarrow> k < e \<Longrightarrow> tp k = Some (p k)" and "i \<le> e"
  shows "\<exists>j. tile_run tp c i e = Some j \<and> i \<le> j \<and> j \<le> e \<and> (\<forall>k. i \<le> k \<longrightarrow> k < j \<longrightarrow> p k = c) \<and> (j < e \<longrightarrow> p j \<noteq> c)"
  using assms
proof (induction "e - i" arbitrary: i)
  case 0
  then show ?case by (subst tile_run.simps) auto
next
  case (Suc m)
  then have i: "i < e" "tp i = Some (p i)" by auto
  show ?case
  proof (cases "p i = c")
    case False
    then show ?thesis using i by (subst tile_run.simps) auto
  next
    case True
    from Suc.hyps(1) [of "i + 1"] Suc.hyps(2) Suc.prems(1) i obtain j where
      j: "tile_run tp c (i + 1) e = Some j" "i + 1 \<le> j" "j \<le> e" "\<And>k. i + 1 \<le> k \<Longrightarrow> k < j \<Longrightarrow> p k = c" "j < e \<longrightarrow> p j \<noteq> c"
      by force
    have "p k = c" if "i \<le> k" "k < j" for k
      using j(4) [of k] that True by (cases "k = i") auto
    with j i True show ?thesis by (subst tile_run.simps) (auto intro!: exI [of _ j])
  qed
qed

lemma tile_depth_ok:
  assumes tp: "\<And>i. i < w * h \<Longrightarrow> tp i = Some (p i)" and x: "x \<le> mx" "mx \<le> w" and "sy \<le> h"
  shows "\<exists>e. tile_depth tp w h c x mx sy = Some e \<and> sy \<le> e \<and> e \<le> h \<and>
    (\<forall>Y X. sy \<le> Y \<longrightarrow> Y < e \<longrightarrow> x \<le> X \<longrightarrow> X < mx \<longrightarrow> p (Y * w + X) = c)"
  using assms(4)
proof (induction "h - sy" arbitrary: sy)
  case 0
  then show ?case by (subst tile_depth.simps) auto
next
  case (Suc m)
  then have sy: "sy < h" by simp
  have "sy * w + k < w * h" if "k < w" for k
  proof -
    have "(sy + 1) * w \<le> h * w" by (rule mult_right_mono) (use sy in auto)
    with that show ?thesis by (simp add: mult.commute)
  qed
  then have "\<And>k. x \<le> k \<Longrightarrow> k < mx \<Longrightarrow> tp (sy * w + k) = Some (p (sy * w + k))" using tp x by auto
  from tile_run_ok [of x mx "\<lambda>k. tp (sy * w + k)" "\<lambda>k. p (sy * w + k)", OF this x(1)] obtain j where
    j: "tile_run (\<lambda>k. tp (sy * w + k)) c x mx = Some j" "j \<le> mx" "\<And>k. x \<le> k \<Longrightarrow> k < j \<Longrightarrow> p (sy * w + k) = c" by blast
  show ?case
  proof (cases "j < mx")
    case True
    then show ?thesis using j sy by (subst tile_depth.simps) auto
  next
    case False
    from Suc.hyps(1) [of "sy + 1"] Suc.hyps(2) sy obtain e where
      e: "tile_depth tp w h c x mx (sy + 1) = Some e" "sy + 1 \<le> e" "e \<le> h"
        "\<And>Y X. sy + 1 \<le> Y \<Longrightarrow> Y < e \<Longrightarrow> x \<le> X \<Longrightarrow> X < mx \<Longrightarrow> p (Y * w + X) = c" by force
    have "p (Y * w + X) = c" if "sy \<le> Y" "Y < e" "x \<le> X" "X < mx" for Y X
      using e(4) [of Y X] j(2) j(3) [of X] that False by (cases "Y = sy") auto
    with e j sy False show ?thesis by (subst tile_depth.simps) (auto intro!: exI [of _ e])
  qed
qed

section \<open>The marks\<close>

lemma mark_row_ok:
  "i + n \<le> length ms \<Longrightarrow> \<exists>ms'. mark_row n i ms = Some ms' \<and> length ms' = length ms \<and>
    (\<forall>k < length ms. ms' ! k \<longleftrightarrow> ms ! k \<or> i \<le> k \<and> k < i + n)"
proof (induction n arbitrary: i ms)
  case (Suc n)
  from Suc.IH [of "i + 1" "ms[i := True]"] Suc.prems obtain ms' where
    m: "mark_row n (i + 1) (ms[i := True]) = Some ms'" "length ms' = length ms"
      "\<And>k. k < length ms \<Longrightarrow> ms' ! k \<longleftrightarrow> ms[i := True] ! k \<or> i + 1 \<le> k \<and> k < i + 1 + n" by auto
  have "ms' ! k \<longleftrightarrow> ms ! k \<or> i \<le> k \<and> k < i + Suc n" if "k < length ms" for k
    using m(3) [OF that] that by (cases "k = i") auto
  with m(1,2) Suc.prems show ?case by auto
qed auto

lemma flat_row: "(X :: nat) < 16 \<Longrightarrow> x + n \<le> 16 \<Longrightarrow> y * 16 + x \<le> Y * 16 + X \<and> Y * 16 + X < y * 16 + x + n \<longleftrightarrow> Y = y \<and> x \<le> X \<and> X < x + n"
  by (cases Y y rule: linorder_cases) auto

lemma mark_rows_ok:
  "x + sw \<le> 16 \<Longrightarrow> y + n \<le> 16 \<Longrightarrow> length ms = 256 \<Longrightarrow> \<exists>ms'. mark_rows n y x sw ms = Some ms' \<and> length ms' = 256 \<and>
    (\<forall>Y X. Y < 16 \<longrightarrow> X < 16 \<longrightarrow> (ms' ! (Y * 16 + X) \<longleftrightarrow> ms ! (Y * 16 + X) \<or> y \<le> Y \<and> Y < y + n \<and> x \<le> X \<and> X < x + sw))"
proof (induction n arbitrary: y ms)
  case (Suc n)
  have "y * 16 + x + sw \<le> length ms" using Suc.prems by simp
  from mark_row_ok [OF this] Suc.prems obtain m1 where
    m1: "mark_row sw (y * 16 + x) ms = Some m1" "length m1 = 256"
      "\<And>k. k < 256 \<Longrightarrow> m1 ! k \<longleftrightarrow> ms ! k \<or> y * 16 + x \<le> k \<and> k < y * 16 + x + sw" by auto
  from Suc.IH [of "y + 1" m1] Suc.prems m1(2) obtain m2 where
    m2: "mark_rows n (y + 1) x sw m1 = Some m2" "length m2 = 256"
      "\<And>Y X. Y < 16 \<Longrightarrow> X < 16 \<Longrightarrow> m2 ! (Y * 16 + X) \<longleftrightarrow> m1 ! (Y * 16 + X) \<or> y + 1 \<le> Y \<and> Y < y + 1 + n \<and> x \<le> X \<and> X < x + sw" by auto
  have "m2 ! (Y * 16 + X) \<longleftrightarrow> ms ! (Y * 16 + X) \<or> y \<le> Y \<and> Y < y + Suc n \<and> x \<le> X \<and> X < x + sw" if "Y < 16" "X < 16" for Y X
  proof -
    have "Y * 16 + X < 256" using that by simp
    then have "m2 ! (Y * 16 + X) \<longleftrightarrow> ms ! (Y * 16 + X) \<or> Y = y \<and> x \<le> X \<and> X < x + sw \<or> y + 1 \<le> Y \<and> Y < y + 1 + n \<and> x \<le> X \<and> X < x + sw"
      using m2(3) [OF that] m1(3) flat_row [OF that(2) Suc.prems(1), of y Y] by blast
    then show ?thesis by (cases "Y = y") auto
  qed
  with m1(1) m2(1,2) show ?case by auto
qed auto

section \<open>Packed coordinates\<close>

lemma unpack_nibbles:
  assumes "a < 16" "b < 16"
  shows "uint (drop_bit 4 (pack_nibbles a b) AND 0xF) = int a" "uint (pack_nibbles a b AND 0xF) = int b"
proof -
  have "\<forall>a \<in> set [0..<16]. \<forall>b \<in> set [0..<16].
      uint (drop_bit 4 (pack_nibbles a b) AND 0xF) = int a \<and> uint (pack_nibbles a b AND 0xF) = int b"
    by code_simp
  with assms show "uint (drop_bit 4 (pack_nibbles a b) AND 0xF) = int a" "uint (pack_nibbles a b AND 0xF) = int b" by simp_all
qed

text \<open>The rectangle, relative to the tile, that the viewer reads from the two bytes.\<close>

definition sub_rect :: "8 word \<Rightarrow> 8 word \<Rightarrow> rect" where
  "sub_rect xy wh =
     (let x = uint (drop_bit 4 xy AND 0xF); y = uint (xy AND 0xF);
          w = uint (drop_bit 4 wh AND 0xF) + 1; h = uint (wh AND 0xF) + 1
      in setRect x y (x + w) (y + h))"

fun as_rect :: "32 word \<times> 8 word \<times> 8 word \<Rightarrow> 32 word \<times> rect" where
  "as_rect (c, xy, wh) = (c, sub_rect xy wh)"

lemma fst_as_rect [simp]: "fst (as_rect s) = fst s"
  by (cases s) simp

lemma sub_rect_pack:
  assumes "x < 16" "y < 16" "0 < sw" "sw \<le> 16" "0 < sh" "sh \<le> 16"
  shows "sub_rect (pack_nibbles x y) (pack_nibbles (sw - 1) (sh - 1)) = setRect (int x) (int y) (int (x + sw)) (int (y + sh))"
proof -
  have "sw - 1 < 16" "sh - 1 < 16" using assms by auto
  with assms show ?thesis by (simp add: sub_rect_def unpack_nibbles of_nat_diff Let_def)
qed

section \<open>The palette counts the colours\<close>

type_synonym hextile_subs = "(32 word \<times> 8 word \<times> 8 word) list"

definition with_color :: "32 word \<Rightarrow> hextile_subs \<Rightarrow> nat" where
  "with_color c subs = length (filter (\<lambda>s. fst s = c) subs)"

definition counted :: "hextile_subs \<Rightarrow> palette \<Rightarrow> bool" where
  "counted subs p \<longleftrightarrow>
     palette_ok p \<and> (\<forall>c. map_of (colors_of p) c = (if with_color c subs = 0 then None else Some (int (with_color c subs))))"

definition pal_ready :: "palette \<Rightarrow> bool" where
  "pal_ready p \<longleftrightarrow> length (pentry p) = 256 \<and> length (pnodes p) = 256 \<and> 0 < maxColors p \<and> maxColors p \<le> 254"

lemma reset_counted: "pal_ready p \<Longrightarrow> counted [] (TightPalette_reset p) \<and> pal_ready (TightPalette_reset p) \<and> numColors (TightPalette_reset p) = 0"
  by (auto simp: pal_ready_def counted_def with_color_def TightPalette_reset_def palette_ok_def colors_of_def entries_ok_def buckets_ok_def
      intro!: exI [of _ "[]"])

lemma with_color_snoc: "with_color c (subs @ [(d, xy, wh)]) = (if c = d then with_color c subs + 1 else with_color c subs)"
  by (simp add: with_color_def)

lemma insert_counts:
  assumes c: "counted subs p" and ready: "pal_ready p"
  obtains r p' where "TightPalette_insert d 1 p = Some (r, p')" "pal_ready p'"
    "r \<noteq> 0 \<Longrightarrow> counted (subs @ [(d, xy, wh)]) p'" "numColors p = 0 \<Longrightarrow> r \<noteq> 0"
proof -
  have p: "palette_ok p" and m: "\<And>c. map_of (colors_of p) c = (if with_color c subs = 0 then None else Some (int (with_color c subs)))"
    using c by (auto simp: counted_def)
  obtain r p' where i: "TightPalette_insert d 1 p = Some (r, p')" "maxColors p' = maxColors p"
    "case map_of (colors_of p) d of
       Some k \<Rightarrow> r = numColors p \<and> palette_ok p' \<and> numColors p' = r \<and> map_of (colors_of p') = (map_of (colors_of p))(d \<mapsto> k + 1)
     | None \<Rightarrow>
         if int (numColors p) = maxColors p then r = 0 \<and> numColors p' = 0
         else r = numColors p + 1 \<and> palette_ok p' \<and> numColors p' = r \<and> map_of (colors_of p') = (map_of (colors_of p))(d \<mapsto> 1)"
    using TightPalette_insert_ok [OF p, of 1 d] by auto
  have M: "map_of (colors_of p') = (map_of (colors_of p))(d \<mapsto> int (with_color d subs) + 1) \<Longrightarrow> palette_ok p' \<Longrightarrow>
      counted (subs @ [(d, xy, wh)]) p'"
    by (auto simp: counted_def with_color_snoc m)
  have mx: "0 < maxColors p" "maxColors p \<le> 254" using ready by (simp_all add: pal_ready_def)
  show thesis
  proof (cases "map_of (colors_of p) d")
    case (Some k)
    then have "numColors p \<noteq> 0" using length_colors [OF p] by (cases "colors_of p") auto
    with Some i m [of d] M mx palette_okD [of p'] show thesis
      by (intro that [of r p']) (auto simp: pal_ready_def split: if_splits)
  next
    case None
    show thesis
    proof (cases "int (numColors p) = maxColors p")
      case True
      have "nd_rgb (pnodes p ! q) \<noteq> d" if "q < numColors p" for q
        using colors_map [OF p, of d] None that by auto
      from insert_full [OF p this True] have "TightPalette_insert d 1 p = Some (0, p\<lparr>numColors := 0\<rparr>)" .
      with True mx ready show thesis by (intro that [of 0 "p\<lparr>numColors := 0\<rparr>"]) (auto simp: pal_ready_def)
    next
      case False
      with None i m [of d] M mx palette_okD [of p'] show thesis
        by (intro that [of r p']) (auto simp: pal_ready_def split: if_splits)
    qed
  qed
qed

section \<open>The invariant of the scan\<close>

definition one_color :: "(nat \<Rightarrow> 32 word) \<Rightarrow> nat \<Rightarrow> nat \<Rightarrow> 32 word \<times> rect \<Rightarrow> bool" where
  "one_color p w h sub \<longleftrightarrow> sub_ok (setRect 0 0 (int w) (int h)) sub \<and>
     (\<forall>X Y. isPointInRect (snd sub) (int X) (int Y) \<longrightarrow> p (Y * w + X) = fst sub)"

definition covered :: "hextile_subs \<Rightarrow> nat \<Rightarrow> nat \<Rightarrow> bool" where
  "covered subs X Y \<longleftrightarrow> (\<exists>s \<in> set subs. isPointInRect (snd (as_rect s)) (int X) (int Y))"

definition tile_inv :: "(nat \<Rightarrow> 32 word) \<Rightarrow> nat \<Rightarrow> nat \<Rightarrow> nat \<Rightarrow> nat \<Rightarrow> hextile_tile \<Rightarrow> bool" where
  "tile_inv p w h y x t \<longleftrightarrow>
     length (t_processed t) = 256 \<and> pal_ready (t_pal t) \<and> counted (t_subs t) (t_pal t) \<and> length (t_subs t) \<le> y * w + x \<and>
     (\<forall>s \<in> set (t_subs t). one_color p w h (as_rect s)) \<and>
     (\<forall>Y X. Y < h \<longrightarrow> X < w \<longrightarrow> Y < y \<or> Y = y \<and> X < x \<or> t_processed t ! (Y * 16 + X) \<longrightarrow> covered (t_subs t) X Y)"

lemma tile_inv_next_row: "tile_inv p w h y w t \<Longrightarrow> tile_inv p w h (y + 1) 0 t"
  by (auto simp: tile_inv_def less_Suc_eq algebra_simps)

lemma tile_inv_skip:
  assumes "tile_inv p w h y x t" "t_processed t ! (y * 16 + x)"
  shows "tile_inv p w h y (x + 1) t"
  using assms by (auto simp: tile_inv_def less_Suc_eq)

lemma one_color_box:
  assumes "x < mx" "mx \<le> w" "y < sy" "sy \<le> h" "w \<le> 16" "h \<le> 16"
    and "\<And>Y X. y \<le> Y \<Longrightarrow> Y < sy \<Longrightarrow> x \<le> X \<Longrightarrow> X < mx \<Longrightarrow> p (Y * w + X) = c"
  shows "one_color p w h (as_rect (c, pack_nibbles x y, pack_nibbles (mx - x - 1) (sy - y - 1)))"
    "snd (as_rect (c, pack_nibbles x y, pack_nibbles (mx - x - 1) (sy - y - 1))) = setRect (int x) (int y) (int mx) (int sy)"
proof -
  have "sub_rect (pack_nibbles x y) (pack_nibbles (mx - x - 1) (sy - y - 1)) = setRect (int x) (int y) (int mx) (int sy)"
    using sub_rect_pack [of x y "mx - x" "sy - y"] assms by simp
  then show "one_color p w h (as_rect (c, pack_nibbles x y, pack_nibbles (mx - x - 1) (sy - y - 1)))"
      "snd (as_rect (c, pack_nibbles x y, pack_nibbles (mx - x - 1) (sy - y - 1))) = setRect (int x) (int y) (int mx) (int sy)"
    using assms by (auto simp: one_color_def sub_ok_def getWidth_def getHeight_def in_rect)
qed

text \<open>One subrectangle more.\<close>

lemma tile_inv_add:
  assumes inv: "tile_inv p w h y x t" and r: "x < mx" "mx \<le> w" "y < sy" "sy \<le> h" "w \<le> 16" "h \<le> 16"
    and c: "\<And>Y X. y \<le> Y \<Longrightarrow> Y < sy \<Longrightarrow> x \<le> X \<Longrightarrow> X < mx \<Longrightarrow> p (Y * w + X) = c"
    and s: "s = (c, pack_nibbles x y, pack_nibbles (mx - x - 1) (sy - y - 1))"
    and pal: "pal_ready pal" "counted (t_subs t @ [s]) pal"
    and marks: "length ms = 256" "\<And>Y X. Y < 16 \<Longrightarrow> X < 16 \<Longrightarrow> ms ! (Y * 16 + X) \<longleftrightarrow>
      t_processed t ! (Y * 16 + X) \<or> y + 1 \<le> Y \<and> Y < sy \<and> x \<le> X \<and> X < mx"
  shows "tile_inv p w h y mx (t\<lparr>t_subs := t_subs t @ [s], t_pal := pal, t_processed := ms\<rparr>)"
proof -
  note box = one_color_box [OF r, where p = p and c = c, OF c, folded s]
  have cov: "covered (t_subs t @ [s]) X Y \<longleftrightarrow> covered (t_subs t) X Y \<or> x \<le> X \<and> X < mx \<and> y \<le> Y \<and> Y < sy" for X Y
    by (auto simp: covered_def box(2) in_rect)
  have "covered (t_subs t @ [s]) X Y" if "Y < h" "X < w" "Y < y \<or> Y = y \<and> X < mx \<or> ms ! (Y * 16 + X)" for X Y
  proof -
    have "Y < 16" "X < 16" using that r by auto
    then have "Y < y \<or> Y = y \<and> X < x \<or> t_processed t ! (Y * 16 + X) \<or> x \<le> X \<and> X < mx \<and> y \<le> Y \<and> Y < sy"
      using that(3) r(3) marks(2) [of Y X] by auto
    with inv that(1,2) show ?thesis unfolding cov tile_inv_def by blast
  qed
  then show ?thesis using inv r pal marks(1) box(1) by (auto simp: tile_inv_def)
qed

section \<open>The scan\<close>

lemma flat_bound: "(y :: nat) < h \<Longrightarrow> x < w \<Longrightarrow> y * w + x < w * h"
proof -
  assume "y < h" "x < w"
  then have "(y + 1) * w \<le> h * w" by (intro mult_right_mono) auto
  then show ?thesis using \<open>x < w\<close> by (simp add: mult.commute)
qed

lemma tile_row_ok:
  assumes tp: "\<And>i. i < w * h \<Longrightarrow> tp i = Some (p i)" and size: "w \<le> 16" "h \<le> 16" and y: "y < h"
  shows "x \<le> w \<Longrightarrow> tile_inv p w h y x t \<Longrightarrow>
    \<exists>overflow t'. tile_row tp w h y x t = Some (overflow, t') \<and> pal_ready (t_pal t') \<and> (\<not> overflow \<longrightarrow> tile_inv p w h y w t')"
proof (induction "w - x" arbitrary: x t rule: less_induct)
  case less
  show ?case
  proof (cases "x < w")
    case False
    with less.prems show ?thesis by (subst tile_row.simps) (auto simp: tile_inv_def)
  next
    case x: True
    have len: "length (t_processed t) = 256" "y * 16 + x < 256" using less.prems(2) x y size by (simp_all add: tile_inv_def)
    show ?thesis
    proof (cases "t_processed t ! (y * 16 + x)")
      case True
      from less.hyps [OF _ _ tile_inv_skip [OF less.prems(2) True]] x show ?thesis
        using len True by (subst tile_row.simps) auto
    next
      case False
      define c where "c = p (y * w + x)"
      have row: "tp (y * w + k) = Some (p (y * w + k))" if "k < w" for k using tp flat_bound [OF y that] by blast
      from tile_run_ok [of "x + 1" w "\<lambda>k. tp (y * w + k)" "\<lambda>k. p (y * w + k)" c] row x obtain mx where
        mx: "tile_run (\<lambda>k. tp (y * w + k)) c (x + 1) w = Some mx" "x + 1 \<le> mx" "mx \<le> w"
          "\<And>k. x + 1 \<le> k \<Longrightarrow> k < mx \<Longrightarrow> p (y * w + k) = c" by auto
      from tile_depth_ok [where tp = tp and p = p and w = w and h = h and x = x and mx = mx and sy = "y + 1" and c = c, OF tp] mx(2,3) y obtain sy where
        sy: "tile_depth tp w h c x mx (y + 1) = Some sy" "y + 1 \<le> sy" "sy \<le> h"
          "\<And>Y X. y + 1 \<le> Y \<Longrightarrow> Y < sy \<Longrightarrow> x \<le> X \<Longrightarrow> X < mx \<Longrightarrow> p (Y * w + X) = c" by auto
      have c: "p (Y * w + X) = c" if "y \<le> Y" "Y < sy" "x \<le> X" "X < mx" for Y X
        using that mx(4) [of X] sy(4) [of Y X] c_def by (cases "Y = y"; cases "X = x") auto
      define s where "s = (c, pack_nibbles x y, pack_nibbles (mx - x - 1) (sy - y - 1))"
      have few: "length (t_subs t) < 256"
      proof -
        have "length (t_subs t) < w * h" using less.prems(2) flat_bound [OF y x] by (auto simp: tile_inv_def)
        moreover have "w * h \<le> 16 * 16" using size by (rule mult_le_mono)
        ultimately show ?thesis by simp
      qed
      have "counted (t_subs t) (t_pal t)" "pal_ready (t_pal t)" using less.prems(2) by (simp_all add: tile_inv_def)
      from insert_counts [OF this, of c "pack_nibbles x y" "pack_nibbles (mx - x - 1) (sy - y - 1)", folded s_def] obtain r pal where
        i: "TightPalette_insert c 1 (t_pal t) = Some (r, pal)" "pal_ready pal" "r \<noteq> 0 \<Longrightarrow> counted (t_subs t @ [s]) pal" by blast
      have "x + (mx - x) \<le> 16" "y + 1 + (sy - y - 1) \<le> 16" using mx sy size by auto
      from mark_rows_ok [OF this len(1)] obtain ms where
        ms: "mark_rows (sy - y - 1) (y + 1) x (mx - x) (t_processed t) = Some ms" "length ms = 256"
          "\<And>Y X. Y < 16 \<Longrightarrow> X < 16 \<Longrightarrow> ms ! (Y * 16 + X) \<longleftrightarrow>
             t_processed t ! (Y * 16 + X) \<or> y + 1 \<le> Y \<and> Y < y + 1 + (sy - y - 1) \<and> x \<le> X \<and> X < x + (mx - x)" by blast
      let ?t = "t\<lparr>t_subs := t_subs t @ [s], t_pal := pal, t_processed := ms\<rparr>"
      have step: "tile_row tp w h y x t = (if r = 0 then Some (True, t\<lparr>t_subs := t_subs t @ [s], t_pal := pal\<rparr>) else tile_row tp w h y mx ?t)"
        using x len False row [OF x] mx(1,2) sy(1) few i(1) ms(1)
        by (subst tile_row.simps) (simp add: c_def [symmetric] save_subrect_def s_def)
      show ?thesis
      proof (cases "r = 0")
        case True
        with i(2) show ?thesis unfolding step by auto
      next
        case False
        have "tile_inv p w h y mx ?t"
          by (rule tile_inv_add [OF less.prems(2) _ mx(3) _ sy(3) size c s_def i(2) i(3) [OF False] ms(2)])
            (use mx(2) sy(2) ms(3) in auto)
        from less.hyps [OF _ mx(3) this] mx(2) x False show ?thesis unfolding step by auto
      qed
    qed
  qed
qed

lemma tile_rows_ok:
  assumes tp: "\<And>i. i < w * h \<Longrightarrow> tp i = Some (p i)" and size: "w \<le> 16" "h \<le> 16"
  shows "y \<le> h \<Longrightarrow> tile_inv p w h y 0 t \<Longrightarrow>
    \<exists>overflow t'. tile_rows tp w h y t = Some (overflow, t') \<and> pal_ready (t_pal t') \<and> (\<not> overflow \<longrightarrow> tile_inv p w h h 0 t')"
proof (induction "h - y" arbitrary: y t rule: less_induct)
  case less
  show ?case
  proof (cases "y < h")
    case False
    with less.prems show ?thesis by (subst tile_rows.simps) (auto simp: tile_inv_def)
  next
    case True
    from tile_row_ok [OF tp size True le0 less.prems(2)] obtain overflow t1 where
      t1: "tile_row tp w h y 0 t = Some (overflow, t1)" "pal_ready (t_pal t1)" "\<not> overflow \<longrightarrow> tile_inv p w h y w t1" by blast
    show ?thesis
    proof (cases overflow)
      case True
      with t1 \<open>y < h\<close> show ?thesis by (subst tile_rows.simps) auto
    next
      case False
      with t1(3) have "tile_inv p w h (y + 1) 0 t1" by (blast intro: tile_inv_next_row)
      from less.hyps [OF _ _ this] True t1(1) False show ?thesis by (subst tile_rows.simps) auto
    qed
  qed
qed

section \<open>The result\<close>

definition others :: "hextile_tile \<Rightarrow> hextile_subs" where
  "others t = filter (\<lambda>s. fst s \<noteq> t_background t) (t_subs t)"

text \<open>A tile with subrectangles, as it is when the scan was not given up.\<close>

definition tile_done :: "nat \<Rightarrow> (nat \<Rightarrow> 32 word) \<Rightarrow> nat \<Rightarrow> nat \<Rightarrow> hextile_tile \<Rightarrow> bool" where
  "tile_done n p w h t \<longleftrightarrow>
     (\<forall>s \<in> set (t_subs t). one_color p w h (as_rect s)) \<and> (\<forall>Y X. Y < h \<longrightarrow> X < w \<longrightarrow> covered (t_subs t) X Y) \<and>
     length (others t) \<le> 255 \<and>
     (t_flags t = 8 \<and> (\<forall>s \<in> set (others t). fst s = t_foreground t) \<and> t_size t = 1 + 2 * int (length (others t)) \<or>
      t_flags t = 24 \<and> t_size t = 1 + (2 + int n) * int (length (others t)))"

lemma with_color_others: "length (filter (\<lambda>s. fst s \<noteq> c) subs) + with_color c subs = length subs"
  using sum_length_filter_compl [of "\<lambda>s. fst s = c" subs] by (simp add: with_color_def)

lemma tile_result_ok:
  assumes inv: "tile_inv p w h h 0 t" and size: "0 < w" "0 < h" "w \<le> 16" "h \<le> 16"
    and colors: "\<And>s. s \<in> set (t_subs t) \<Longrightarrow> take_bit (8 * n) (fst s) = fst s"
  shows "tile_done n p w h (tile_result n t)" "t_pal (tile_result n t) = t_pal t"
proof -
  define pal where "pal = t_pal t"
  have pal: "palette_ok pal" "\<And>c. map_of (colors_of pal) c = (if with_color c (t_subs t) = 0 then None else Some (int (with_color c (t_subs t))))"
    using inv by (auto simp: tile_inv_def counted_def pal_def)
  have cov: "covered (t_subs t) X Y" if "Y < h" "X < w" for X Y using inv that by (auto simp: tile_inv_def)
  from cov [of 0 0] size obtain s where s: "s \<in> set (t_subs t)" unfolding covered_def by blast
  then have "with_color (fst s) (t_subs t) \<noteq> 0" by (auto simp: with_color_def filter_empty_conv)
  with pal(2) [of "fst s"] have "colors_of pal \<noteq> []" by auto
  then have pos: "0 < numColors pal" using length_colors [OF pal(1)] by (cases "colors_of pal") auto
  have entry: "with_color (getEntry i pal) (t_subs t) \<noteq> 0" "getCount i pal = int (with_color (getEntry i pal) (t_subs t))"
    if "i < numColors pal" for i
  proof -
    have "colors_of pal ! i = (getEntry i pal, getCount i pal)"
      using colors_nth [OF pal(1) that] that by (simp add: getEntry_def getCount_def)
    then have "(getEntry i pal, getCount i pal) \<in> set (colors_of pal)"
      using that length_colors [OF pal(1)] by (metis nth_mem)
    moreover have "distinct (map fst (colors_of pal))" by (rule colors_distinct [OF pal(1)])
    ultimately have "map_of (colors_of pal) (getEntry i pal) = Some (getCount i pal)" by simp
    with pal(2) show "with_color (getEntry i pal) (t_subs t) \<noteq> 0" "getCount i pal = int (with_color (getEntry i pal) (t_subs t))"
      by (auto split: if_splits)
  qed
  have cast: "take_bit (8 * n) (getEntry i pal) = getEntry i pal" if "i < numColors pal" for i
    using entry(1) [OF that] colors by (force simp: with_color_def filter_empty_conv)
  define nb where "nb = filter (\<lambda>s. fst s \<noteq> getEntry 0 pal) (t_subs t)"
  have nb: "int (length nb) = int (length (t_subs t)) - getCount 0 pal" "length nb < length (t_subs t)"
    using with_color_others [of "getEntry 0 pal" "t_subs t"] entry [OF pos] by (simp_all add: nb_def)
  have "length (t_subs t) \<le> h * w" using inv by (simp add: tile_inv_def)
  also have "h * w \<le> 16 * 16" using size by (intro mult_le_mono)
  finally have nb255: "length nb \<le> 255" using nb(2) by simp
  have two: "fst s = getEntry 1 pal" if "numColors pal = 2" "s \<in> set nb" for s
  proof -
    have "with_color (fst s) (t_subs t) \<noteq> 0" using that(2) by (auto simp: with_color_def filter_empty_conv nb_def)
    with pal(2) [of "fst s"] have "fst s \<in> fst ` set (colors_of pal)" by (metis map_of_eq_None_iff option.distinct(1))
    then obtain q where q: "q \<in> set (colors_of pal)" "fst q = fst s" by (elim imageE) simp
    then obtain i where i: "i < numColors pal" "fst (colors_of pal ! i) = fst s"
      using length_colors [OF pal(1)] by (auto simp only: in_set_conv_nth)
    then have "getEntry i pal = fst s" using colors_nth [OF pal(1) i(1)] by (simp add: getEntry_def)
    with that i(1) show ?thesis by (auto simp: nb_def less_2_cases_iff)
  qed
  note res = tile_result_def Let_def hextileAnySubrects_def hextileSubrectsColoured_def pal_def [symmetric]
  have f: "t_subs (tile_result n t) = t_subs t" "t_background (tile_result n t) = getEntry 0 pal" "others (tile_result n t) = nb"
    using cast [OF pos] by (simp_all add: res others_def nb_def)
  have "t_flags (tile_result n t) = 8 \<and> (\<forall>s \<in> set nb. fst s = t_foreground (tile_result n t)) \<and> t_size (tile_result n t) = 1 + 2 * int (length nb) \<or>
      t_flags (tile_result n t) = 24 \<and> t_size (tile_result n t) = 1 + (2 + int n) * int (length nb)"
  proof (cases "numColors pal = 2")
    case True
    then show ?thesis using two cast [of 1] by (simp add: res nb(1))
  next
    case False
    then show ?thesis by (simp add: res nb(1))
  qed
  then show "tile_done n p w h (tile_result n t)" using inv cov nb255 by (simp add: tile_done_def f tile_inv_def)
  show "t_pal (tile_result n t) = t_pal t" by (simp add: res)
qed

text \<open>All that the encoder has to know about an analysed tile.\<close>

definition analysed :: "nat \<Rightarrow> (nat \<Rightarrow> 32 word) \<Rightarrow> nat \<Rightarrow> nat \<Rightarrow> hextile_tile \<Rightarrow> bool" where
  "analysed n p w h t \<longleftrightarrow> pal_ready (t_pal t) \<and>
     (t_flags t = 0 \<and> t_size t = 0 \<and> (\<forall>i < w * h. p i = t_background t) \<or> t_flags t = 1 \<or> tile_done n p w h t)"

lemma tile_inv_start:
  assumes "pal_ready pal" "counted [] pal" "length ms = 256" "\<And>k. k < 256 \<Longrightarrow> \<not> ms ! k" "w \<le> 16" "h \<le> 16"
  shows "tile_inv p w h 0 0 (t\<lparr>t_pal := pal, t_subs := [], t_processed := ms\<rparr>)"
proof -
  have "\<not> ms ! (Y * 16 + X)" if "Y < h" "X < w" for Y X
    using assms(4) [of "Y * 16 + X"] that assms(5,6) by simp
  with assms(1,2,3) show ?thesis by (auto simp: tile_inv_def)
qed

text \<open>The rows of one colour that the first loop has found are the first subrectangle.\<close>

lemma first_rows:
  assumes inv: "tile_inv p w h 0 0 t" and y: "0 < y" "y \<le> h" and w: "0 < w" "w \<le> 16" "h \<le> 16"
    and c: "\<And>i. i < y * w \<Longrightarrow> p i = c"
    and s: "s = (c, pack_nibbles 0 0, pack_nibbles (w - 1) (y - 1))"
    and pal: "pal_ready pal" "counted [s] pal" and subs: "t_subs t = []"
  shows "tile_inv p w h y 0 (t\<lparr>t_subs := [s], t_pal := pal\<rparr>)"
proof -
  have "p (Y * w + X) = c" if "0 \<le> Y" "Y < y" "0 \<le> X" "X < w" for X Y
    using c flat_bound [OF that(2,4)] by (simp add: mult.commute)
  from one_color_box [OF w(1) order_refl y w(2,3), where p = p and c = c, OF this]
  have box: "one_color p w h (as_rect s)" "snd (as_rect s) = setRect 0 0 (int w) (int y)" by (simp_all add: s)
  have "covered [s] X Y" if "Y < h" "X < w" "Y < y \<or> Y = y \<and> X < 0 \<or> t_processed t ! (Y * 16 + X)" for X Y
  proof -
    have "\<not> covered (t_subs t) X Y" by (simp add: covered_def subs)
    with inv that have "Y < y" by (auto simp: tile_inv_def)
    with that show ?thesis by (simp add: covered_def box(2) in_rect)
  qed
  moreover have "1 \<le> y * w" using y(1) w(1) by simp
  ultimately show ?thesis using inv pal box(1) by (auto simp: tile_inv_def)
qed

lemma newTile_ok:
  assumes tp: "\<And>i. i < w * h \<Longrightarrow> tp i = Some (p i)" and size: "0 < w" "0 < h" "w \<le> 16" "h \<le> 16" and ready: "pal_ready (t_pal t)"
    and colors: "\<And>i. i < w * h \<Longrightarrow> take_bit (8 * n) (p i) = p i"
  obtains t' where "newTile n tp w h t = Some t'" "analysed n p w h t'"
proof -
  define c where "c = p 0"
  have wh: "1 \<le> w * h" using size by simp
  have c0: "tp 0 = Some c" using tp [of 0] wh by (simp add: c_def)
  from tile_run_ok [of 1 "w * h" tp p c] tp wh obtain ptr where
    ptr: "tile_run tp c 1 (w * h) = Some ptr" "ptr \<le> w * h" "\<And>k. 1 \<le> k \<Longrightarrow> k < ptr \<Longrightarrow> p k = c" by auto
  have run: "p k = c" if "k < ptr" for k using ptr(3) [of k] that c_def by (cases k) auto
  show thesis
  proof (cases "ptr = w * h")
    case True
    with c0 ptr(1) ready run show thesis
      by (intro that [of "t\<lparr>t_background := c, t_flags := 0, t_size := 0\<rparr>"])
        (auto simp: newTile_def HextileTile_analyze_def analysed_def)
  next
    case False
    define y where "y = ptr div w"
    have y: "y \<le> h" "y * w \<le> ptr" using ptr(2) size by (simp_all add: y_def div_le_mono2 less_mult_imp_div_less div_le_dividend)
        (metis div_le_mono nonzero_mult_div_cancel_left less_not_refl2)
    define pal0 where "pal0 = TightPalette_reset (t_pal t)"
    have p0: "counted [] pal0" "pal_ready pal0" "numColors pal0 = 0" using reset_counted [OF ready] by (simp_all add: pal0_def)
    define t0 where "t0 = t\<lparr>t_pal := pal0, t_subs := [], t_processed := replicate 256 False\<rparr>"
    have inv0: "tile_inv p w h 0 0 t0"
      unfolding t0_def by (rule tile_inv_start [OF p0(2,1)]) (use size in auto)
    define start where "start = (if y > 0 then
        (case save_subrect c 0 0 w y (t\<lparr>t_pal := pal0, t_subs := []\<rparr>) of None \<Rightarrow> None | Some t \<Rightarrow>
           map_option (\<lambda>(r, pal). t\<lparr>t_pal := pal\<rparr>) (TightPalette_insert c 1 (t_pal t)))
      else Some (t\<lparr>t_pal := pal0, t_subs := []\<rparr>))"
    have "\<exists>t1. start = Some t1 \<and> tile_inv p w h y 0 (t1\<lparr>t_processed := replicate 256 False\<rparr>)"
    proof (cases "y > 0")
      case False
      with inv0 show ?thesis by (simp add: start_def t0_def)
    next
      case True
      define s where "s = (c, pack_nibbles 0 0, pack_nibbles (w - 1) (y - 1))"
      from insert_counts [OF p0(1,2), of c "pack_nibbles 0 0" "pack_nibbles (w - 1) (y - 1)", folded s_def] obtain r pal where
        i: "TightPalette_insert c 1 pal0 = Some (r, pal)" "pal_ready pal"
          "r \<noteq> 0 \<Longrightarrow> counted ([] @ [s]) pal" "numColors pal0 = 0 \<Longrightarrow> r \<noteq> 0" by blast
      have "counted [s] pal" using i(3,4) p0(3) by simp
      with first_rows [OF inv0 True y(1) size(1,3,4) run s_def i(2)] y(2)
      have "tile_inv p w h y 0 (t0\<lparr>t_subs := [s], t_pal := pal\<rparr>)" by (simp add: t0_def)
      moreover have "t0\<lparr>t_subs := [s], t_pal := pal\<rparr> = t\<lparr>t_subs := [s], t_pal := pal, t_processed := replicate 256 False\<rparr>"
        by (simp add: t0_def)
      ultimately have "tile_inv p w h y 0 (t\<lparr>t_subs := [s], t_pal := pal, t_processed := replicate 256 False\<rparr>)" by metis
      with True i(1) show ?thesis by (simp add: start_def save_subrect_def s_def)
    qed
    then obtain t1 where t1: "start = Some t1" "tile_inv p w h y 0 (t1\<lparr>t_processed := replicate 256 False\<rparr>)" by blast
    from tile_rows_ok [OF tp size(3,4) y(1) t1(2)] obtain overflow t2 where
      t2: "tile_rows tp w h y (t1\<lparr>t_processed := replicate 256 False\<rparr>) = Some (overflow, t2)" "pal_ready (t_pal t2)"
        "\<not> overflow \<longrightarrow> tile_inv p w h h 0 t2" by blast
    have call: "newTile n tp w h t = Some (if overflow then t2\<lparr>t_flags := hextileRaw, t_size := 0\<rparr> else tile_result n t2)"
      using c0 ptr(1) False t1(1) t2(1)
      by (simp add: newTile_def HextileTile_analyze_def y_def [symmetric] pal0_def [symmetric] start_def [symmetric] Let_def)
    show thesis
    proof (cases overflow)
      case True
      with t2(2) show thesis by (intro that [OF call]) (simp add: analysed_def hextileRaw_def)
    next
      case False
      then have inv: "tile_inv p w h h 0 t2" using t2(3) by simp
      have col: "take_bit (8 * n) (fst s) = fst s" if "s \<in> set (t_subs t2)" for s
      proof -
        have m: "one_color p w h (as_rect s)" using inv that by (simp add: tile_inv_def)
        define X Y where "X = nat (rleft (snd (as_rect s)))" and "Y = nat (rtop (snd (as_rect s)))"
        have "isPointInRect (snd (as_rect s)) (int X) (int Y)" "Y < h" "X < w"
          using m by (auto simp: one_color_def sub_ok_def X_def Y_def in_rect getWidth_def getHeight_def)
        with m have "p (Y * w + X) = fst s" "Y * w + X < w * h" by (auto simp: one_color_def intro: flat_bound)
        with colors show ?thesis by metis
      qed
      from tile_result_ok [OF inv size this] t2(2) False show thesis
        by (intro that [OF call]) (simp add: analysed_def)
    qed
  qed
qed

end
