(* ===== verification/HextileCorrect.thy ===== *)
theory HextileCorrect
  imports HextileScan RawCorrect
begin

text \<open>
  The hextile encoder and the decoder fit together, over any streams that keep their contracts: tile by
  tile the decoder reads exactly what was sent, and paints the pixels of the server.
\<close>

unbundle bit_operations_syntax

section \<open>The bytes of the subrectangles\<close>

definition sub_code :: "nat \<Rightarrow> bool \<Rightarrow> 32 word \<times> 8 word \<times> 8 word \<Rightarrow> bytes" where
  "sub_code n coloured s = (if coloured then take n (le_bytes (fst s)) else []) @ [fst (snd s), snd (snd s)]"

definition coded :: "nat \<Rightarrow> bool \<Rightarrow> hextile_subs \<Rightarrow> bytes" where
  "coded n coloured subs = word_of_nat (length subs) # concat (map (sub_code n coloured) subs)"

lemma encode_subs_ok:
  "encode_subs n t subs k dst = (let nb = filter (\<lambda>s. fst s \<noteq> t_background t) subs in
     (k + word_of_nat (length nb), dst @ concat (map (sub_code n (t_flags t AND hextileSubrectsColoured \<noteq> 0)) nb)))"
proof (induction subs arbitrary: k dst)
  case (Cons s subs)
  then show ?case by (cases s) (auto simp: sub_code_def Let_def)
qed simp

lemma HextileTile_encode_ok: "HextileTile_encode n t = coded n (t_flags t AND hextileSubrectsColoured \<noteq> 0) (others t)"
  by (simp add: HextileTile_encode_def encode_subs_ok coded_def others_def Let_def)

lemma length_coded: "n \<le> 4 \<Longrightarrow> length (coded n coloured subs) = 1 + (2 + (if coloured then n else 0)) * length subs"
proof -
  assume "n \<le> 4"
  then have "length (sub_code n coloured s) = 2 + (if coloured then n else 0)" for s by (simp add: sub_code_def)
  then have "length (concat (map (sub_code n coloured) subs)) = (2 + (if coloured then n else 0)) * length subs"
    by (induction subs) simp_all
  then show ?thesis by (simp add: coded_def)
qed

section \<open>Painting a tile\<close>

lemma paint_uniform:
  "(\<And>sub. sub \<in> set subs \<Longrightarrow> isPointInRect (snd sub) x y \<Longrightarrow> fst sub = c) \<Longrightarrow>
    paint subs f x y = (if \<exists>sub \<in> set subs. isPointInRect (snd sub) x y then c else f x y)"
  by (induction subs arbitrary: f) auto

text \<open>The subrectangles that are not in the background colour, over the background, are the tile.\<close>

lemma paint_others:
  assumes t: "tile_done n p w h t" and xy: "X < w" "Y < h"
  shows "paint (map as_rect (others t)) (\<lambda>x y. t_background t) (int X) (int Y) = p (Y * w + X)"
proof -
  have one: "fst s = p (Y * w + X)" if "s \<in> set (t_subs t)" "isPointInRect (snd (as_rect s)) (int X) (int Y)" for s
    using t that by (auto simp: tile_done_def one_color_def)
  then have "paint (map as_rect (others t)) (\<lambda>x y. t_background t) (int X) (int Y) =
      (if \<exists>sub \<in> set (map as_rect (others t)). isPointInRect (snd sub) (int X) (int Y) then p (Y * w + X) else t_background t)"
    by (intro paint_uniform) (auto simp: others_def)
  moreover obtain s where s: "s \<in> set (t_subs t)" "isPointInRect (snd (as_rect s)) (int X) (int Y)"
    using t xy unfolding tile_done_def covered_def by blast
  moreover have "t_background t = p (Y * w + X)" if "\<not> (\<exists>sub \<in> set (map as_rect (others t)). isPointInRect (snd sub) (int X) (int Y))"
  proof (rule ccontr)
    assume "t_background t \<noteq> p (Y * w + X)"
    then have "s \<in> set (others t)" using s(1) one [OF s] by (simp add: others_def)
    then have "as_rect s \<in> set (map as_rect (others t))" by (simp only: set_map imageI)
    with s(2) that show False by blast
  qed
  ultimately show ?thesis
    by (cases "\<exists>sub \<in> set (map as_rect (others t)). isPointInRect (snd sub) (int X) (int Y)") (simp_all only: if_True if_False not_False_eq_True simp_thms)
qed

lemma put_low_nil [simp]: "put_low [] w = w"
  using le_word_take [of 4 w] by (simp add: put_low_def take_bit_word_eq_self)

text \<open>\<open>painted\<close> with the words of the pixels of \<open>F\<close> is \<open>drawn\<close>.\<close>

lemma color_bytes_pixel: "fb_ok F \<Longrightarrow> color_bytes F (le_word (pixel F x y)) = pixel F x y"
  using take_le_bytes [of "pixel F x y" "[]"] length_pixel [of F x y] fb_ok_size [of F] by (auto simp: color_bytes_def)

lemma painted_drawn:
  assumes p: "painted fb d f fb'" and F: "fb_ok F" "fmt F = fmt fb"
    and f: "\<And>x y. isPointInRect d x y \<Longrightarrow> f (x - rleft d) (y - rtop d) = le_word (pixel F x y)"
  shows "drawn F (isPointInRect d) fb fb'"
proof -
  have "color_bytes fb = color_bytes F" using F(2) by (simp add: color_bytes_def pixel_size_def fun_eq_iff)
  then show ?thesis using p f color_bytes_pixel [OF F(1)] by (auto simp: painted_def drawn_def)
qed

section \<open>Sending a tile\<close>

context output_stream
begin

text \<open>\<open>emits f bs v\<close>: the method \<open>f\<close> returns \<open>v\<close> and has appended \<open>bs\<close>.\<close>

definition emits :: "('s \<Rightarrow> ('v \<times> 's) option) \<Rightarrow> bytes \<Rightarrow> 'v \<Rightarrow> bool" where
  "emits f bs v \<longleftrightarrow> (\<forall>s. ready s \<longrightarrow> (\<exists>s'. f s = Some (v, s') \<and> ready s' \<and> sent s' = sent s @ bs))"

lemma emits_return: "emits (\<lambda>s. Some (v, s)) [] v"
  by (simp add: emits_def)

lemma emits_then: "emits f as v \<Longrightarrow> emits (g v) bs w \<Longrightarrow> emits (\<lambda>s. case f s of None \<Rightarrow> None | Some (v, s) \<Rightarrow> g v s) (as @ bs) w"
  unfolding emits_def
proof (intro allI impI)
  fix s assume "\<forall>s. ready s \<longrightarrow> (\<exists>s'. f s = Some (v, s') \<and> ready s' \<and> sent s' = sent s @ as)" "ready s"
  then obtain s1 where s1: "f s = Some (v, s1)" "ready s1" "sent s1 = sent s @ as" by blast
  assume "\<forall>s. ready s \<longrightarrow> (\<exists>s'. g v s = Some (w, s') \<and> ready s' \<and> sent s' = sent s @ bs)"
  with s1(2) obtain s2 where "g v s1 = Some (w, s2)" "ready s2" "sent s2 = sent s1 @ bs" by blast
  with s1 show "\<exists>s'. (case f s of None \<Rightarrow> None | Some (v, s) \<Rightarrow> g v s) = Some (w, s') \<and> ready s' \<and> sent s' = sent s @ (as @ bs)" by simp
qed

lemma puts_emits: "puts f as \<Longrightarrow> emits g bs v \<Longrightarrow> emits (\<lambda>s. case f s of None \<Rightarrow> None | Some s \<Rightarrow> g s) (as @ bs) v"
  unfolding emits_def puts_def
proof (intro allI impI)
  fix s assume "\<forall>s. ready s \<longrightarrow> (\<exists>s'. f s = Some s' \<and> ready s' \<and> sent s' = sent s @ as)" "ready s"
  then obtain s1 where s1: "f s = Some s1" "ready s1" "sent s1 = sent s @ as" by blast
  assume "\<forall>s. ready s \<longrightarrow> (\<exists>s'. g s = Some (v, s') \<and> ready s' \<and> sent s' = sent s @ bs)"
  with s1(2) obtain s2 where "g s1 = Some (v, s2)" "ready s2" "sent s2 = sent s1 @ bs" by blast
  with s1 show "\<exists>s'. (case f s of None \<Rightarrow> None | Some s \<Rightarrow> g s) = Some (v, s') \<and> ready s' \<and> sent s' = sent s @ (as @ bs)" by simp
qed

lemma puts_if: "(b \<Longrightarrow> puts f bs) \<Longrightarrow> puts (\<lambda>s. if b then f s else Some s) (if b then bs else [])"
  using puts_return by (simp add: puts_def)

lemma hextile_send_raw:
  assumes raw: "t_flags (v_tile v) = 1 \<or> pixels * int n \<le> t_size (v_tile v)" and len: "int (length buf) = pixels * int n"
  shows "emits (hextile_send wr n pixels buf v) (1 # buf) (v\<lparr>oldBgValid := False, oldFgValid := False\<rparr>)"
proof -
  have c: "t_flags (v_tile v) AND hextileRaw \<noteq> 0 \<or> t_size (v_tile v) \<ge> pixels * int n"
    using raw by (auto simp: hextileRaw_def)
  have call: "hextile_send wr n pixels buf v = (\<lambda>s. case writeUInt8 wr 1 s of None \<Rightarrow> None | Some s \<Rightarrow>
      (case writeFully wr buf s of None \<Rightarrow> None | Some s \<Rightarrow> Some (v\<lparr>oldBgValid := False, oldFgValid := False\<rparr>, s)))"
    by (intro ext) (simp only: hextile_send_def Let_def if_P [OF c] load_whole [OF len] option.case, simp only: hextileRaw_def word_of_int_1)
  have "emits (hextile_send wr n pixels buf v) ([1] @ buf @ []) (v\<lparr>oldBgValid := False, oldFgValid := False\<rparr>)"
    unfolding call by (intro puts_emits writeUInt8_puts writeFully_puts emits_return)
  then show ?thesis by simp
qed

text \<open>A tile that is not sent raw: what is sent, and what the encoder remembers.\<close>

lemma hextile_send_coded:
  assumes flags: "t_flags (v_tile v) \<in> {0, 8, 24}" and size: "t_size (v_tile v) < pixels * int n" "pixels \<le> 256"
    and enc: "length (v_encoded v) = 256 * n" "t_flags (v_tile v) \<noteq> 0 \<longrightarrow> t_size (v_tile v) = int (length (HextileTile_encode n (v_tile v)))"
    and newBg: "newBg = (\<not> oldBgValid v \<or> oldBg v \<noteq> t_background (v_tile v))"
    and newFg: "newFg = (t_flags (v_tile v) = 8 \<and> (\<not> oldFgValid v \<or> oldFg v \<noteq> t_foreground (v_tile v)))"
  shows "\<exists>v'. emits (hextile_send wr n pixels buf v)
      (word_of_int (t_flags (v_tile v) + (if newBg then 2 else 0) + (if newFg then 4 else 0)) #
        (if newBg then take n (le_bytes (t_background (v_tile v))) else []) @
        (if newFg then take n (le_bytes (t_foreground (v_tile v))) else []) @
        (if t_flags (v_tile v) \<noteq> 0 then HextileTile_encode n (v_tile v) else [])) v' \<and>
    v_tile v' = v_tile v \<and> length (v_encoded v') = 256 * n \<and> oldBgValid v' \<and> oldBg v' = t_background (v_tile v) \<and>
    (oldFgValid v' \<longrightarrow> t_flags (v_tile v) = 8 \<and> oldFg v' = t_foreground (v_tile v) \<or>
       t_flags (v_tile v) = 0 \<and> oldFgValid v \<and> oldFg v' = oldFg v)"
proof -
  let ?t = "v_tile v" and ?E = "HextileTile_encode n (v_tile v)"
  define T :: "8 word" where "T = word_of_int (t_flags ?t + (if newBg then 2 else 0) + (if newFg then 4 else 0))"
  define encoded where "encoded = (if t_flags ?t \<noteq> 0 then ?E @ drop (length ?E) (v_encoded v) else v_encoded v)"
  define v' where "v' = v\<lparr>oldBg := t_background ?t, oldBgValid := True,
    oldFg := (if newFg then t_foreground ?t else oldFg v), oldFgValid := (if t_flags ?t = 24 then False else newFg \<or> oldFgValid v), v_encoded := encoded\<rparr>"
  have fits: "length ?E \<le> 256 * n" if "t_flags ?t \<noteq> 0"
  proof -
    have "pixels * int n \<le> 256 * int n" by (rule mult_right_mono [OF size(2)]) simp
    with size(1) enc(2) that show ?thesis by simp
  qed
  have st: "store 0 ?E (v_encoded v) = Some encoded" "load 0 (t_size ?t) encoded = Some ?E" if "t_flags ?t \<noteq> 0"
    using fits [OF that] enc that by (simp_all add: store_def load_def in_block_def encoded_def)
  have call: "hextile_send wr n pixels buf v = (\<lambda>s.
      case writeUInt8 wr T s of None \<Rightarrow> None | Some s \<Rightarrow>
      (case if newBg then writeFully wr (take n (le_bytes (t_background ?t))) s else Some s of None \<Rightarrow> None | Some s \<Rightarrow>
      (case if newFg then writeFully wr (take n (le_bytes (t_foreground ?t))) s else Some s of None \<Rightarrow> None | Some s \<Rightarrow>
      (case if t_flags ?t \<noteq> 0 then writeFully wr ?E s else Some s of None \<Rightarrow> None | Some s \<Rightarrow> Some (v', s)))))"
    (is "_ = ?rhs")
  proof -
    have small: "\<not> t_size ?t \<ge> pixels * int n" using size(1) by simp
    consider "t_flags ?t = 0" | "t_flags ?t = 8" | "t_flags ?t = 24" using flags by auto
    then show ?thesis
    proof cases
      case 1
      then show ?thesis using small newBg newFg
        by (intro ext; cases newBg) (simp_all add: hextile_send_def Let_def hextileRaw_def hextileAnySubrects_def hextileBgSpecified_def
            hextileFgSpecified_def hextileSubrectsColoured_def T_def v'_def encoded_def split: option.split)
    next
      case 2
      then show ?thesis using small newBg newFg st
        by (intro ext; cases newBg; cases newFg) (simp_all add: hextile_send_def Let_def hextileRaw_def hextileAnySubrects_def hextileBgSpecified_def
            hextileFgSpecified_def hextileSubrectsColoured_def T_def v'_def split: option.split)
    next
      case 3
      then show ?thesis using small newBg newFg st
        by (intro ext; cases newBg) (simp_all add: hextile_send_def Let_def hextileRaw_def hextileAnySubrects_def hextileBgSpecified_def
            hextileFgSpecified_def hextileSubrectsColoured_def T_def v'_def split: option.split)
    qed
  qed
  have "emits (hextile_send wr n pixels buf v) ([T] @ (if newBg then take n (le_bytes (t_background ?t)) else []) @
      (if newFg then take n (le_bytes (t_foreground ?t)) else []) @ (if t_flags ?t \<noteq> 0 then ?E else []) @ []) v'"
    unfolding call by (intro puts_emits puts_if writeUInt8_puts writeFully_puts emits_return)
  moreover have "length encoded = 256 * n" using fits enc(1) by (simp add: encoded_def)
  ultimately show ?thesis using flags newFg by (intro exI [of _ v']) (auto simp: v'_def T_def)
qed

end

section \<open>Receiving a tile\<close>

lemma color_bytes_read: "fb_ok fb \<Longrightarrow> n = nat (pixel_size fb) \<Longrightarrow> color_bytes fb (put_low (take n (le_bytes c)) w) = color_bytes fb c"
  by (rule color_bytes_take)

context input_stream
begin

lemma gets_if: "(b \<Longrightarrow> gets f bs v) \<Longrightarrow> (\<not> b \<Longrightarrow> v = w) \<Longrightarrow> gets (\<lambda>s. if b then f s else Some (w, s)) (if b then bs else []) v"
  using gets_return by (simp add: gets_def)

text \<open>The subrectangles: \<open>foreground\<close> is read for each of them or stays as it is.\<close>

lemma hex_fills_gets:
  assumes ok: "fb_ok fb0" and d: "rect_within fb0 d" and n: "n = nat (pixel_size fb0)"
    and coloured: "coloured \<longleftrightarrow> flags AND 0x10 \<noteq> 0 \<and> flags AND 0x4 = 0"
  shows "painted fb0 d f (w_fb v) \<Longrightarrow> \<forall>s \<in> set subs. sub_ok d (as_rect s) \<Longrightarrow>
    \<not> coloured \<longrightarrow> (\<forall>s \<in> set subs. color_bytes fb0 (fst s) = color_bytes fb0 (w_foreground v)) \<Longrightarrow>
    \<exists>v'. gets (hex_fills rd flags d (length subs) v) (concat (map (sub_code n coloured) subs)) v' \<and>
      painted fb0 d (paint (map as_rect subs) f) (w_fb v') \<and> w_background v' = w_background v \<and> w_accepted v' = w_accepted v \<and>
      (\<not> coloured \<longrightarrow> w_foreground v' = w_foreground v)"
proof (induction subs arbitrary: f v)
  case Nil
  then show ?case using gets_return by (intro exI [of _ v]) (simp add: gets_def)
next
  case (Cons s subs)
  obtain c xy wh where s: "s = (c, xy, wh)" using prod_cases3 by blast
  note k = painted_ok [OF ok Cons.prems(1)]
  define bs where "bs = (if coloured then take n (le_bytes c) else [])"
  define v1 where "v1 = v\<lparr>w_foreground := put_low bs (w_foreground v)\<rparr>"
  have col: "color_bytes fb0 (w_foreground v1) = color_bytes fb0 c"
    using Cons.prems(3) color_bytes_read [OF ok n] by (auto simp: v1_def bs_def s)
  have q: "sub_ok d (c, sub_rect xy wh)" using Cons.prems(2) s by simp
  obtain fb1 where fill: "fillRect (move (rleft d) (rtop d) (sub_rect xy wh)) (w_foreground v1) (w_fb v) = Some fb1"
      "color_bytes fb0 (w_foreground v1) = color_bytes fb0 c \<Longrightarrow> painted fb0 d (\<lambda>x y. if isPointInRect (sub_rect xy wh) x y then c else f x y) fb1"
    by (rule painted_fill [OF ok Cons.prems(1) d q, of "w_foreground v1"]; rule that; blast)
  note f1 = fill(1) fill(2) [OF col]
  define v2 where "v2 = v1\<lparr>w_fb := fb1\<rparr>"
  have v2: "w_fb v2 = fb1" "w_background v2 = w_background v" "w_accepted v2 = w_accepted v" "\<not> coloured \<Longrightarrow> w_foreground v2 = w_foreground v"
    by (simp_all add: v2_def v1_def bs_def)
  have p2: "painted fb0 d (\<lambda>x y. if isPointInRect (sub_rect xy wh) x y then c else f x y) (w_fb v2)" using f1(2) v2(1) by simp
  have subs2: "\<forall>s \<in> set subs. sub_ok d (as_rect s)" using Cons.prems(2) by simp
  have col2: "\<not> coloured \<longrightarrow> (\<forall>s \<in> set subs. color_bytes fb0 (fst s) = color_bytes fb0 (w_foreground v2))"
    using Cons.prems(3) v2(4) by simp
  from Cons.IH [OF p2 subs2 col2] obtain v' where v': "gets (hex_fills rd flags d (length subs) v2) (concat (map (sub_code n coloured) subs)) v'"
      "painted fb0 d (paint (map as_rect subs) (\<lambda>x y. if isPointInRect (sub_rect xy wh) x y then c else f x y)) (w_fb v')"
      "w_background v' = w_background v2" "w_accepted v' = w_accepted v2" "\<not> coloured \<longrightarrow> w_foreground v' = w_foreground v2"
    by (elim exE conjE) (rule that)
  have bpp: "nat (getBytesPerPixel (w_fb v)) = n" using getBytesPerPixel_ok [of "w_fb v"] k n by simp
  have len: "coloured \<Longrightarrow> length bs = n" using fb_ok_size [OF ok] n by (auto simp: bs_def)
  have step: "hex_fills rd flags d (length (s # subs)) v = (\<lambda>s.
     case (if coloured then readFully rd n s else Some ([], s)) of None \<Rightarrow> None | Some (bs, s) \<Rightarrow>
     (case readUInt8 rd s of None \<Rightarrow> None | Some (xy, s) \<Rightarrow>
     (case readUInt8 rd s of None \<Rightarrow> None | Some (wh, s) \<Rightarrow>
       (case fillRect (move (rleft d) (rtop d) (sub_rect xy wh)) (w_foreground (v\<lparr>w_foreground := put_low bs (w_foreground v)\<rparr>)) (w_fb v) of
          None \<Rightarrow> None
        | Some fb \<Rightarrow> hex_fills rd flags d (length subs) (v\<lparr>w_foreground := put_low bs (w_foreground v), w_fb := fb\<rparr>) s))))"
    by (intro ext) (simp add: coloured bpp sub_rect_def Let_def split: option.split)
  have first: "gets (\<lambda>s. if coloured then readFully rd n s else Some ([], s)) bs bs"
    using gets_if [of coloured "readFully rd n" bs bs "[]"] readFully_gets [of bs] len by (auto simp: bs_def)
  have bytes: "concat (map (sub_code n coloured) (s # subs)) = bs @ [xy] @ [wh] @ concat (map (sub_code n coloured) subs)"
    by (simp add: sub_code_def s bs_def)
  have "gets (hex_fills rd flags d (length (s # subs)) v) (concat (map (sub_code n coloured) (s # subs))) v'"
    unfolding step bytes
    by (rule gets_then [OF first], rule gets_then [OF readUInt8_gets], rule gets_then [OF readUInt8_gets])
      (use v'(1) f1(1) in \<open>simp add: v2_def v1_def\<close>)
  then show ?case using v'(2,3,4,5) v2
    by (intro exI [of _ v']) (simp add: s del: hex_fills.simps cong: if_cong)
qed

lemma hex_tile_read:
  assumes w: "fb_ok (w_fb w)" and d: "rect_within (w_fb w) d"
  shows "hex_tile rd d w = (\<lambda>s. case readUInt8 rd s of None \<Rightarrow> None | Some (flags, s) \<Rightarrow>
    (if flags AND 0x1 \<noteq> 0 then
       (\<lambda>s. case raw_lines rd (getWidth d * pixel_size (w_fb w)) (rleft d) (rtop d) (nat (getHeight d)) (w_fb w) s of None \<Rightarrow> None
            | Some (fb, s) \<Rightarrow> Some (w\<lparr>w_fb := fb\<rparr>, s))
     else hex_coded rd flags d w) s)"
proof -
  have i: "intersection (getRect (dim (w_fb w))) d = d"
    by (rule intersection_inside; use d in \<open>simp add: getRect_def rect_within_def isValid_def\<close>)
  show ?thesis using getBytesPerPixel_ok [OF w]
    by (intro ext) (auto simp: hex_tile_def i getHeight_def map_option_case split: option.split)
qed

lemma hex_tile_raw:
  assumes w: "fb_ok (w_fb w)" and d: "rect_within (w_fb w) d" and M: "rect_image F d M" "fmt F = fmt (w_fb w)"
  shows "\<exists>fb'. gets (hex_tile rd d w) (1 # M) (w\<lparr>w_fb := fb'\<rparr>) \<and> drawn F (isPointInRect d) (w_fb w) fb'"
proof -
  obtain fb' where fb': "gets (raw_lines rd (getWidth d * pixel_size (w_fb w)) (rleft d) (rtop d) (nat (getHeight d)) (w_fb w)) M fb'"
      "drawn F (isPointInRect d) (w_fb w) fb'"
    using raw_image_gets [OF w d M] by blast
  have "gets (hex_tile rd d w) ([1] @ M) (w\<lparr>w_fb := fb'\<rparr>)"
    unfolding hex_tile_read [OF w d]
    by (rule gets_then [OF readUInt8_gets]) (use gets_map [OF fb'(1), of "\<lambda>fb. w\<lparr>w_fb := fb\<rparr>"] in simp)
  with fb'(2) show ?thesis by auto
qed

end

lemma flag_bits:
  assumes "flags \<in> {0, 8, 24 :: int}" "newFg \<longrightarrow> flags = 8"
  shows "word_of_int (flags + (if newBg then 2 else 0) + (if newFg then 4 else 0)) AND 1 = (0 :: 8 word)"
    "word_of_int (flags + (if newBg then 2 else 0) + (if newFg then 4 else 0)) AND 2 \<noteq> (0 :: 8 word) \<longleftrightarrow> newBg"
    "word_of_int (flags + (if newBg then 2 else 0) + (if newFg then 4 else 0)) AND 4 \<noteq> (0 :: 8 word) \<longleftrightarrow> newFg"
    "word_of_int (flags + (if newBg then 2 else 0) + (if newFg then 4 else 0)) AND 8 \<noteq> (0 :: 8 word) \<longleftrightarrow> flags \<noteq> 0"
    "word_of_int (flags + (if newBg then 2 else 0) + (if newFg then 4 else 0)) AND 16 \<noteq> (0 :: 8 word) \<longleftrightarrow> flags = 24"
  using assms by (cases newBg; cases newFg; auto)+

context input_stream
begin

lemma readFully_if:
  assumes "b \<Longrightarrow> length bs = n"
  shows "gets (\<lambda>s. if b then readFully rd n s else Some ([], s)) (if b then bs else []) (if b then bs else [])"
  using gets_if [of b "readFully rd n" bs "if b then bs else []" "[]"] readFully_gets [of bs] assms by auto

lemma hex_coded_gets:
  fixes w :: hextile_view
  defines "fb \<equiv> w_fb w"
  assumes ok: "fb_ok fb" and d: "rect_within fb d" and n: "n = nat (pixel_size fb)"
    and f: "f \<in> {0, 8, 24 :: int}" "newFg \<longrightarrow> f = 8"
    and B: "B = word_of_int (f + (if newBg then 2 else 0) + (if newFg then 4 else 0))"
    and bg: "\<not> newBg \<longrightarrow> w_accepted w \<and> color_bytes fb (w_background w) = color_bytes fb bg"
    and fg: "f = 8 \<longrightarrow> \<not> newFg \<longrightarrow> color_bytes fb (w_foreground w) = color_bytes fb fgc"
    and subs: "\<forall>s \<in> set subs. sub_ok d (as_rect s)" "length subs \<le> 255" "f = 8 \<longrightarrow> (\<forall>s \<in> set subs. fst s = fgc)"
  shows "\<exists>w'. gets (hex_coded rd B d w) ((if newBg then take n (le_bytes bg) else []) @ (if newFg then take n (le_bytes fgc) else []) @
      (if f \<noteq> 0 then coded n (f = 24) subs else [])) w' \<and>
    painted fb d (if f = 0 then (\<lambda>x y. bg) else paint (map as_rect subs) (\<lambda>x y. bg)) (w_fb w') \<and>
    w_accepted w' \<and> color_bytes fb (w_background w') = color_bytes fb bg \<and>
    (f = 8 \<longrightarrow> color_bytes fb (w_foreground w') = color_bytes fb fgc) \<and> (f = 0 \<longrightarrow> w_foreground w' = w_foreground w)"
proof -
  note bits = flag_bits [OF f, where newBg = newBg, folded B]
  have len: "length (take n (le_bytes c)) = n" for c using fb_ok_size [OF ok] n by auto
  define bgb fgb where "bgb = take n (le_bytes bg)" and "fgb = take n (le_bytes fgc)"
  define v1 where "v1 = (if newBg then w\<lparr>w_background := put_low bgb (w_background w), w_accepted := True\<rparr> else w)"
  have v1: "w_accepted v1" "color_bytes fb (w_background v1) = color_bytes fb bg" "w_foreground v1 = w_foreground w" "w_fb v1 = fb"
    using bg color_bytes_read [OF ok n] by (auto simp: v1_def bgb_def fb_def)
  have "\<not> rect_isEmpty d" using d by (auto simp: rect_isEmpty_iff rect_within_def)
  from fillRect_within [OF ok this inside_within [OF d], of "w_background v1"] obtain b where
    b: "fillRect d (w_background v1) fb = Some (fb\<lparr>buffer := b\<rparr>)" "length b = length (buffer fb)"
      "\<And>x y. inside fb x y \<Longrightarrow> pixel (fb\<lparr>buffer := b\<rparr>) x y =
        (if isPointInRect d x y then color_bytes fb (w_background v1) else pixel fb x y)" by blast
  define fb1 where "fb1 = fb\<lparr>buffer := b\<rparr>"
  have p1: "painted fb d (\<lambda>x y. bg) fb1" using b(2,3) v1(2) by (auto simp: painted_def fb1_def)
  note k1 = painted_ok [OF ok p1]
  have bpp: "nat (getBytesPerPixel fb) = n" "nat (getBytesPerPixel fb1) = n"
    using getBytesPerPixel_ok [OF ok] getBytesPerPixel_ok [of fb1] k1 n by simp_all
  define v2 where "v2 = v1\<lparr>w_fb := fb1, w_foreground := put_low (if newFg then fgb else []) (w_foreground v1)\<rparr>"
  have v2: "w_fb v2 = fb1" "w_accepted v2" "w_background v2 = w_background v1" "\<not> newFg \<Longrightarrow> w_foreground v2 = w_foreground w"
    using v1 by (simp_all add: v2_def)
  have v2_fg: "color_bytes fb (w_foreground v2) = color_bytes fb fgc" if "f = 8"
    using fg that v1(3) color_bytes_read [OF ok n] by (cases newFg) (auto simp: v2_def fgb_def)
  have col: "f = 24 \<longleftrightarrow> B AND 0x10 \<noteq> 0 \<and> B AND 0x4 = 0"
  proof -
    have "f = 24 \<longrightarrow> \<not> newFg" using f(2) by (cases newFg) simp_all
    with bits(3,5) show ?thesis by argo
  qed
  have "\<exists>w'. gets (\<lambda>s. if f \<noteq> 0 then (case readUInt8 rd s of None \<Rightarrow> None | Some (k, s) \<Rightarrow> hex_fills rd B d (unat k) v2 s) else Some (v2, s))
        (if f \<noteq> 0 then coded n (f = 24) subs else []) w' \<and>
      painted fb d (if f = 0 then (\<lambda>x y. bg) else paint (map as_rect subs) (\<lambda>x y. bg)) (w_fb w') \<and>
      w_background w' = w_background v2 \<and> w_accepted w' = w_accepted v2 \<and> (f \<noteq> 24 \<longrightarrow> w_foreground w' = w_foreground v2)"
  proof (cases "f = 0")
    case True
    then show ?thesis using gets_return p1 v2(1) by (intro exI [of _ v2]) (simp add: gets_def)
  next
    case False
    have p2: "painted fb d (\<lambda>x y. bg) (w_fb v2)" using p1 v2(1) by simp
    have same: "f \<noteq> 24 \<longrightarrow> (\<forall>s \<in> set subs. color_bytes fb (fst s) = color_bytes fb (w_foreground v2))"
    proof (intro impI ballI)
      fix s assume s: "f \<noteq> 24" "s \<in> set subs"
      then have "f = 8" using f(1) False by simp
      with subs(3) s(2) v2_fg show "color_bytes fb (fst s) = color_bytes fb (w_foreground v2)" by simp
    qed
    obtain w' where w': "gets (hex_fills rd B d (length subs) v2) (concat (map (sub_code n (f = 24)) subs)) w'"
        "painted fb d (paint (map as_rect subs) (\<lambda>x y. bg)) (w_fb w')" "w_background w' = w_background v2"
        "w_accepted w' = w_accepted v2" "f \<noteq> 24 \<longrightarrow> w_foreground w' = w_foreground v2"
      using hex_fills_gets [OF ok d n col p2 subs(1) same] by (elim exE conjE) (rule that)
    have "unat (word_of_nat (length subs) :: 8 word) = length subs" using subs(2) by (simp add: unat_of_nat)
    then have "gets (\<lambda>s. case readUInt8 rd s of None \<Rightarrow> None | Some (k, s) \<Rightarrow> hex_fills rd B d (unat k) v2 s)
        ([word_of_nat (length subs)] @ concat (map (sub_code n (f = 24)) subs)) w'"
      by (intro gets_then [OF readUInt8_gets]) (simp only: w'(1))
    with w' False show ?thesis by (intro exI [of _ w']) (simp add: coded_def)
  qed
  then obtain w' where w': "gets (\<lambda>s. if f \<noteq> 0 then (case readUInt8 rd s of None \<Rightarrow> None | Some (k, s) \<Rightarrow> hex_fills rd B d (unat k) v2 s) else Some (v2, s))
        (if f \<noteq> 0 then coded n (f = 24) subs else []) w'"
      "painted fb d (if f = 0 then (\<lambda>x y. bg) else paint (map as_rect subs) (\<lambda>x y. bg)) (w_fb w')"
      "w_background w' = w_background v2" "w_accepted w' = w_accepted v2" "f \<noteq> 24 \<longrightarrow> w_foreground w' = w_foreground v2"
    by (elim exE conjE) (rule that)
  have call: "hex_coded rd B d w = (\<lambda>s. case (if newBg then readFully rd n s else Some ([], s)) of None \<Rightarrow> None | Some (bs, s) \<Rightarrow>
      (let v = (if newBg then w\<lparr>w_background := put_low bs (w_background w), w_accepted := True\<rparr> else w) in
       case (if w_accepted v then fillRect d (w_background v) (w_fb v) else Some (w_fb v)) of None \<Rightarrow> None | Some fb \<Rightarrow>
       (case (if newFg then readFully rd (nat (getBytesPerPixel fb)) s else Some ([], s)) of None \<Rightarrow> None | Some (bs, s) \<Rightarrow>
        (let v = v\<lparr>w_fb := fb, w_foreground := put_low bs (w_foreground v)\<rparr> in
         if f \<noteq> 0 then (case readUInt8 rd s of None \<Rightarrow> None | Some (k, s) \<Rightarrow> hex_fills rd B d (unat k) v s)
         else if w_accepted v then Some (v, s) else None))))"
    by (intro ext) (unfold hex_coded_def bits fb_def [symmetric] bpp(1), rule refl)
  have second: "gets (\<lambda>s. case (if newFg then readFully rd n s else Some ([], s)) of None \<Rightarrow> None | Some (bs, s) \<Rightarrow>
        (let v = v1\<lparr>w_fb := fb1, w_foreground := put_low bs (w_foreground v1)\<rparr> in
         if f \<noteq> 0 then (case readUInt8 rd s of None \<Rightarrow> None | Some (k, s) \<Rightarrow> hex_fills rd B d (unat k) v s)
         else if w_accepted v then Some (v, s) else None))
      ((if newFg then fgb else []) @ (if f \<noteq> 0 then coded n (f = 24) subs else [])) w'"
  proof (rule gets_then [OF readFully_if [of newFg fgb n]])
    let ?bs = "if newFg then fgb else []"
    show "gets (\<lambda>s. let v = v1\<lparr>w_fb := fb1, w_foreground := put_low ?bs (w_foreground v1)\<rparr> in
         if f \<noteq> 0 then (case readUInt8 rd s of None \<Rightarrow> None | Some (k, s) \<Rightarrow> hex_fills rd B d (unat k) v s)
         else if w_accepted v then Some (v, s) else None) (if f \<noteq> 0 then coded n (f = 24) subs else []) w'"
      using w'(1) by (simp only: Let_def v2_def [symmetric] v2(2) if_True)
  qed (simp only: fgb_def len)
  have "gets (hex_coded rd B d w) ((if newBg then bgb else []) @ (if newFg then fgb else []) @ (if f \<noteq> 0 then coded n (f = 24) subs else [])) w'"
    unfolding call
  proof (rule gets_then [OF readFully_if [of newBg bgb n]])
    let ?bs = "if newBg then bgb else []"
    have "(if newBg then w\<lparr>w_background := put_low ?bs (w_background w), w_accepted := True\<rparr> else w) = v1" by (simp add: v1_def)
    then show "gets (\<lambda>s. let v = (if newBg then w\<lparr>w_background := put_low ?bs (w_background w), w_accepted := True\<rparr> else w) in
       case (if w_accepted v then fillRect d (w_background v) (w_fb v) else Some (w_fb v)) of None \<Rightarrow> None | Some fb \<Rightarrow>
       (case (if newFg then readFully rd (nat (getBytesPerPixel fb)) s else Some ([], s)) of None \<Rightarrow> None | Some (bs, s) \<Rightarrow>
        (let v = v\<lparr>w_fb := fb, w_foreground := put_low bs (w_foreground v)\<rparr> in
         if f \<noteq> 0 then (case readUInt8 rd s of None \<Rightarrow> None | Some (k, s) \<Rightarrow> hex_fills rd B d (unat k) v s)
         else if w_accepted v then Some (v, s) else None)))
      ((if newFg then fgb else []) @ (if f \<noteq> 0 then coded n (f = 24) subs else [])) w'"
      using second by (simp only: Let_def v1(1,4) if_True b(1) fb1_def [symmetric] option.case bpp)
  qed (simp only: bgb_def len)
  then show ?thesis using w'(2-5) v2 v1(2,3) v2_fg f unfolding bgb_def fgb_def by (intro exI [of _ w']) auto
qed

end

end
