(* ===== verification/HextileTrip.thy ===== *)
theory HextileTrip
  imports HextileCorrect
begin

text \<open>
  The hextile encoding from end to end: a tile, the rows of tiles, and through a byte array.
\<close>

unbundle bit_operations_syntax

section \<open>The copy of a tile\<close>

lemma tile_copy:
  assumes F: "fb_ok F" "rect_within F d" and junk: "\<And>k. length (junk k) = k"
  obtains G where "copyFromAll F (rleft d) (rtop d) (setPropertiesByRect junk d (fmt F) fb) = Some (True, G)"
    "fb_ok G" "dim G = setDim d" "fmt G = fmt F"
    "\<forall>x y. inside G x y \<longrightarrow> pixel G x y = pixel F (rleft d + x) (rtop d + y)"
proof -
  define G0 where "G0 = setPropertiesByRect junk d (fmt F) fb"
  have G0: "dim G0 = setDim d" "fmt G0 = fmt F" by (simp_all add: G0_def setPropertiesByRect_def resizeBuffer_def)
  have wh: "0 < getWidth d" "0 < getHeight d" using F(2) by (simp_all add: rect_within_def getWidth_def getHeight_def)
  have bits: "bitsPerPixel (fmt F) \<in> {8, 16, 32}" using F(1) by (simp add: fb_ok_def)
  have area: "dim_area (setDim d) = getWidth d * getHeight d" using wh by (simp add: dim_area_def dim_isEmpty_def setDim_def)
  have "int (length (buffer G0)) = getHeight d * (getWidth d * int (bitsPerPixel (fmt F) div 8))"
  proof -
    have "buffer G0 = junk (nat (getWidth d * getHeight d * int (bitsPerPixel (fmt F)) div 8))"
      by (simp add: G0_def setPropertiesByRect_def resizeBuffer_def getBufferSize_def area)
    moreover have "getWidth d * getHeight d * int (bitsPerPixel (fmt F)) div 8 = getHeight d * (getWidth d * int (bitsPerPixel (fmt F) div 8))"
      using bits by auto
    moreover have "0 \<le> getHeight d * (getWidth d * int (bitsPerPixel (fmt F) div 8))" using wh by simp
    ultimately show ?thesis by (simp add: junk)
  qed
  then have ok: "fb_ok G0" using wh bits by (simp add: fb_ok_def G0 stride_def pixel_size_def setDim_def)
  obtain b where b: "copyFrom (getRect (dim G0)) F (rleft d) (rtop d) G0 = Some (True, G0\<lparr>buffer := b\<rparr>)" "length b = length (buffer G0)"
    "\<And>x y. inside G0 x y \<Longrightarrow> pixel (G0\<lparr>buffer := b\<rparr>) x y =
       (if isPointInRect (getRect (dim G0)) x y \<and> inside F (x + (rleft d - rleft (getRect (dim G0)))) (y + (rtop d - rtop (getRect (dim G0))))
        then pixel F (x + (rleft d - rleft (getRect (dim G0)))) (y + (rtop d - rtop (getRect (dim G0)))) else pixel G0 x y)"
    using copyFrom_ok [OF ok F(1) G0(2), of "getRect (dim G0)" "rleft d" "rtop d"] by blast
  show thesis
  proof (rule that [of "G0\<lparr>buffer := b\<rparr>"])
    show "copyFromAll F (rleft d) (rtop d) (setPropertiesByRect junk d (fmt F) fb) = Some (True, G0\<lparr>buffer := b\<rparr>)"
      using b(1) by (simp add: copyFromAll_def G0_def)
    show "fb_ok (G0\<lparr>buffer := b\<rparr>)" by (rule fb_ok_buffer [OF ok b(2)])
    show "\<forall>x y. inside (G0\<lparr>buffer := b\<rparr>) x y \<longrightarrow> pixel (G0\<lparr>buffer := b\<rparr>) x y = pixel F (rleft d + x) (rtop d + y)"
    proof (intro allI impI)
      fix x y assume that: "inside (G0\<lparr>buffer := b\<rparr>) x y"
      then have "inside G0 x y" by simp
      moreover have "inside F (x + rleft d) (y + rtop d)"
        using that F(2) by (simp add: inside_def G0 setDim_def rect_within_def getWidth_def getHeight_def)
      moreover have "rleft (getRect (dim G0)) = 0" "rtop (getRect (dim G0)) = 0" by (simp_all add: getRect_def)
      ultimately show "pixel (G0\<lparr>buffer := b\<rparr>) x y = pixel F (rleft d + x) (rtop d + y)" using b(3) [of x y] by (simp add: add.commute)
    qed
  qed (use G0 in simp_all)
qed

definition tile_words :: "frame_buffer \<Rightarrow> rect \<Rightarrow> nat \<Rightarrow> 32 word" where
  "tile_words F d i = le_word (pixel F (rleft d + int (i mod nat (getWidth d))) (rtop d + int (i div nat (getWidth d))))"

lemma tile_words_at: "isPointInRect d x y \<Longrightarrow> tile_words F d (nat (y - rtop d) * nat (getWidth d) + nat (x - rleft d)) = le_word (pixel F x y)"
proof -
  assume "isPointInRect d x y"
  then have xy: "rleft d \<le> x" "x - rleft d < getWidth d" "rtop d \<le> y" by (auto simp: in_rect getWidth_def)
  then have "nat (x - rleft d) < nat (getWidth d)" by simp
  then have "(nat (y - rtop d) * nat (getWidth d) + nat (x - rleft d)) mod nat (getWidth d) = nat (x - rleft d)"
    "(nat (y - rtop d) * nat (getWidth d) + nat (x - rleft d)) div nat (getWidth d) = nat (y - rtop d)" by simp_all
  then show ?thesis using xy by (simp add: tile_words_def)
qed

lemma tile_pixels_at:
  assumes G: "fb_ok G" "dim G = setDim d" "fmt G = fmt F" "\<And>x y. inside G x y \<Longrightarrow> pixel G x y = pixel F (rleft d + x) (rtop d + y)"
    and n: "n = nat (pixel_size F)" and wh: "0 < getWidth d" "0 < getHeight d" and i: "i < nat (getWidth d) * nat (getHeight d)"
  shows "pixel_at G (int n) (int i) = Some (tile_words F d i)" "take_bit (8 * n) (tile_words F d i) = tile_words F d i"
proof -
  define x y where "x = i mod nat (getWidth d)" and "y = i div nat (getWidth d)"
  have ps: "int n = pixel_size G" "pixel_size G = pixel_size F" using fb_ok_size_pos [OF G(1)] G(3) by (simp_all add: n pixel_size_def)
  have "x < nat (getWidth d)" using wh by (simp add: x_def)
  moreover have "y < nat (getHeight d)" using i by (simp add: y_def less_mult_imp_div_less mult.commute)
  ultimately have inG: "inside G (int x) (int y)" by (simp add: inside_def G(2) setDim_def zless_nat_eq_int_zless)
  have i_eq: "int i = int y * width (dim G) + int x"
  proof -
    have "i = y * nat (getWidth d) + x" by (simp add: x_def y_def)
    then have "int i = int y * int (nat (getWidth d)) + int x" by (metis of_nat_add of_nat_mult)
    then show ?thesis using wh by (simp add: G(2) setDim_def)
  qed
  have w: "tile_words F d i = le_word (pixel G (int x) (int y))"
    using G(4) [OF inG] by (simp add: tile_words_def x_def y_def)
  show "pixel_at G (int n) (int i) = Some (tile_words F d i)"
    using pixel_at_ok [OF G(1) inG] by (simp add: w i_eq ps(1))
  have len: "length (pixel G (int x) (int y)) = n" using length_pixel [OF G(1)] ps(1) by (metis of_nat_eq_iff)
  have "n \<le> 4" using fb_ok_size [OF G(1)] ps(1) by auto
  then have "le_word (take n (le_bytes (tile_words F d i))) = take_bit (8 * n) (tile_words F d i)" by (rule le_word_take)
  moreover have "take n (le_bytes (tile_words F d i)) = pixel G (int x) (int y)"
    using take_le_bytes [of "pixel G (int x) (int y)" "[]"] len \<open>n \<le> 4\<close> by (simp add: w)
  ultimately show "take_bit (8 * n) (tile_words F d i) = tile_words F d i" using w by simp
qed

section \<open>One tile\<close>

definition vars_ok :: "nat \<Rightarrow> hextile_vars \<Rightarrow> bool" where
  "vars_ok n v \<longleftrightarrow> pal_ready (t_pal (v_tile v)) \<and> length (v_encoded v) = 256 * n"

text \<open>What the encoder remembers of the last tiles is what the decoder has.\<close>

definition agree :: "frame_buffer \<Rightarrow> hextile_vars \<Rightarrow> hextile_view \<Rightarrow> bool" where
  "agree F v w \<longleftrightarrow>
     (oldBgValid v \<longrightarrow> w_accepted w \<and> color_bytes F (w_background w) = color_bytes F (oldBg v)) \<and>
     (oldFgValid v \<longrightarrow> color_bytes F (w_foreground w) = color_bytes F (oldFg v))"

context stream_pair
begin

lemma coded_tile:
  assumes F: "fb_ok F" "rect_within F d" "n = nat (pixel_size F)" and size: "getWidth d \<le> 16" "getHeight d \<le> 16"
    and w: "fb_ok (w_fb w)" "fmt (w_fb w) = fmt F" "rect_within (w_fb w) d" and v: "length (v_encoded v) = 256 * n" "agree F v w"
    and t: "t_flags (v_tile v) = 0 \<and> t_size (v_tile v) = 0 \<and> (\<forall>i < nat (getWidth d) * nat (getHeight d). tile_words F d i = t_background (v_tile v)) \<or>
      tile_done n (tile_words F d) (nat (getWidth d)) (nat (getHeight d)) (v_tile v)"
    and small: "t_size (v_tile v) < getWidth d * getHeight d * int n"
  shows "\<exists>M v' w'. out.emits (hextile_send wr n (getWidth d * getHeight d) buf v) M v' \<and> inp.gets (hex_tile rd d w) M w' \<and>
    v_tile v' = v_tile v \<and> length (v_encoded v') = 256 * n \<and> agree F v' w' \<and> drawn F (isPointInRect d) (w_fb w) (w_fb w')"
proof -
  define f where "f = t_flags (v_tile v)"
  define subs where "subs = (if f = 0 then [] else others (v_tile v))"
  define newBg newFg where "newBg = (\<not> oldBgValid v \<or> oldBg v \<noteq> t_background (v_tile v))"
    and "newFg = (f = 8 \<and> (\<not> oldFgValid v \<or> oldFg v \<noteq> t_foreground (v_tile v)))"
  define B :: "8 word" where "B = word_of_int (f + (if newBg then 2 else 0) + (if newFg then 4 else 0))"
  have f: "f \<in> {0, 8, 24}" using t by (auto simp: f_def tile_done_def)
  have t_done: "tile_done n (tile_words F d) (nat (getWidth d)) (nat (getHeight d)) (v_tile v)" if "f \<noteq> 0" using t that by (simp add: f_def)
  have n4: "n \<le> 4" using fb_ok_size [OF F(1)] F(3) by auto
  have cb: "color_bytes (w_fb w) = color_bytes F" "n = nat (pixel_size (w_fb w))"
    using w(2) F(3) by (simp_all add: color_bytes_def pixel_size_def fun_eq_iff)
  have enc: "HextileTile_encode n (v_tile v) = coded n (f = 24) subs" if "f \<noteq> 0"
    using f that by (auto simp: HextileTile_encode_ok hextileSubrectsColoured_def f_def subs_def)
  have enc_size: "f \<noteq> 0 \<longrightarrow> t_size (v_tile v) = int (length (HextileTile_encode n (v_tile v)))"
    using t_done enc length_coded [OF n4]
    by (auto simp: tile_done_def f_def [symmetric] subs_def algebra_simps)
  have wh: "0 < getWidth d" "0 < getHeight d" using F(2) by (simp_all add: rect_within_def getWidth_def getHeight_def)
  have area: "getWidth d * getHeight d \<le> 256" using mult_mono [OF size] wh by simp
  obtain v' where v': "out.emits (hextile_send wr n (getWidth d * getHeight d) buf v) (B #
        (if newBg then take n (le_bytes (t_background (v_tile v))) else []) @
        (if newFg then take n (le_bytes (t_foreground (v_tile v))) else []) @
        (if f \<noteq> 0 then HextileTile_encode n (v_tile v) else [])) v'"
      "v_tile v' = v_tile v" "length (v_encoded v') = 256 * n" "oldBgValid v'" "oldBg v' = t_background (v_tile v)"
      "oldFgValid v' \<longrightarrow> f = 8 \<and> oldFg v' = t_foreground (v_tile v) \<or> f = 0 \<and> oldFgValid v \<and> oldFg v' = oldFg v"
    using out.hextile_send_coded [of v "getWidth d * getHeight d" n newBg newFg buf, folded f_def, OF f small area v(1) enc_size newBg_def newFg_def, folded B_def]
    by (elim exE conjE) (rule that)
  have sub1: "\<forall>s \<in> set subs. sub_ok d (as_rect s)"
    using t_done wh by (auto simp: subs_def others_def tile_done_def one_color_def sub_ok_def getWidth_def getHeight_def)
  have sub2: "length subs \<le> 255" using t_done by (auto simp: subs_def tile_done_def)
  have sub3: "f = 8 \<longrightarrow> (\<forall>s \<in> set subs. fst s = t_foreground (v_tile v))"
  proof (intro impI ballI)
    fix s assume s: "f = 8" "s \<in> set subs"
    then have "s \<in> set (others (v_tile v))" "t_flags (v_tile v) = 8" by (simp_all add: subs_def f_def)
    with t_done s(1) show "fst s = t_foreground (v_tile v)" by (simp add: tile_done_def)
  qed
  have bg: "\<not> newBg \<longrightarrow> w_accepted w \<and> color_bytes (w_fb w) (w_background w) = color_bytes (w_fb w) (t_background (v_tile v))"
    using v(2) by (simp add: newBg_def agree_def cb(1))
  have fg: "f = 8 \<longrightarrow> \<not> newFg \<longrightarrow> color_bytes (w_fb w) (w_foreground w) = color_bytes (w_fb w) (t_foreground (v_tile v))"
    using v(2) by (simp add: newFg_def agree_def cb(1))
  have nf: "newFg \<longrightarrow> f = 8" by (simp add: newFg_def)
  obtain w' where w': "inp.gets (hex_coded rd B d w) ((if newBg then take n (le_bytes (t_background (v_tile v))) else []) @
        (if newFg then take n (le_bytes (t_foreground (v_tile v))) else []) @ (if f \<noteq> 0 then coded n (f = 24) subs else [])) w'"
      "painted (w_fb w) d (if f = 0 then (\<lambda>x y. t_background (v_tile v)) else paint (map as_rect subs) (\<lambda>x y. t_background (v_tile v))) (w_fb w')"
      "w_accepted w'" "color_bytes (w_fb w) (w_background w') = color_bytes (w_fb w) (t_background (v_tile v))"
      "f = 8 \<longrightarrow> color_bytes (w_fb w) (w_foreground w') = color_bytes (w_fb w) (t_foreground (v_tile v))"
      "f = 0 \<longrightarrow> w_foreground w' = w_foreground w"
    using inp.hex_coded_gets [OF w(1) w(3) cb(2) f nf B_def bg fg sub1 sub2 sub3] by (elim exE conjE) (rule that)
  have "B AND 1 = 0" using flag_bits(1) [OF f nf] by (simp add: B_def)
  then have "inp.gets (hex_tile rd d w) ([B] @ (if newBg then take n (le_bytes (t_background (v_tile v))) else []) @
        (if newFg then take n (le_bytes (t_foreground (v_tile v))) else []) @ (if f \<noteq> 0 then coded n (f = 24) subs else [])) w'"
    unfolding inp.hex_tile_read [OF w(1,3)] by (intro inp.gets_then [OF inp.readUInt8_gets]) (simp only: w'(1) not_True_eq_False if_False simp_thms)
  moreover have "(if f \<noteq> 0 then HextileTile_encode n (v_tile v) else []) = (if f \<noteq> 0 then coded n (f = 24) subs else [])" using enc by simp
  moreover have "drawn F (isPointInRect d) (w_fb w) (w_fb w')"
  proof (rule painted_drawn [OF w'(2) F(1) w(2) [symmetric]])
    fix x y assume xy: "isPointInRect d x y"
    then have X: "nat (x - rleft d) < nat (getWidth d)" "nat (y - rtop d) < nat (getHeight d)"
      "int (nat (x - rleft d)) = x - rleft d" "int (nat (y - rtop d)) = y - rtop d" by (auto simp: in_rect getWidth_def getHeight_def)
    show "(if f = 0 then (\<lambda>x y. t_background (v_tile v)) else paint (map as_rect subs) (\<lambda>x y. t_background (v_tile v))) (x - rleft d) (y - rtop d)
        = le_word (pixel F x y)"
    proof (cases "f = 0")
      case True
      with t have "tile_words F d i = t_background (v_tile v)" if "i < nat (getWidth d) * nat (getHeight d)" for i
        using that by (auto simp: f_def tile_done_def)
      from this [OF flat_bound [OF X(2,1)]] tile_words_at [OF xy, of F] True show ?thesis by simp
    next
      case False
      with paint_others [OF t_done [OF False] X(1,2), unfolded X(3,4)] tile_words_at [OF xy, of F] show ?thesis by (simp add: subs_def)
    qed
  qed
  moreover have "agree F v' w'" using v'(4-6) w'(3-6) v(2) by (auto simp: agree_def cb(1))
  ultimately show ?thesis using v'(1-3) by (intro exI conjI) (assumption | simp)+
qed

lemma hextile_tile_step:
  assumes F: "fb_ok F" "rect_within F d" "n = nat (pixel_size F)" and size: "getWidth d \<le> 16" "getHeight d \<le> 16"
    and junk: "\<And>k. length (junk k) = k" and v: "vars_ok n v" "agree F v w"
    and w: "fb_ok (w_fb w)" "fmt (w_fb w) = fmt F" "rect_within (w_fb w) d"
  shows "\<exists>M v' w'. out.emits (hextile_tile_at wr junk n F d v) M v' \<and> inp.gets (hex_tile rd d w) M w' \<and>
    vars_ok n v' \<and> agree F v' w' \<and> drawn F (isPointInRect d) (w_fb w) (w_fb w')"
proof -
  obtain G where G: "copyFromAll F (rleft d) (rtop d) (setPropertiesByRect junk d (fmt F) (v_fb v)) = Some (True, G)"
    "fb_ok G" "dim G = setDim d" "fmt G = fmt F" "\<forall>x y. inside G x y \<longrightarrow> pixel G x y = pixel F (rleft d + x) (rtop d + y)"
    by (rule tile_copy [OF F(1,2) junk])
  have wh: "0 < getWidth d" "0 < getHeight d" using F(2) by (simp_all add: rect_within_def getWidth_def getHeight_def)
  have sz: "0 < nat (getWidth d)" "0 < nat (getHeight d)" "nat (getWidth d) \<le> 16" "nat (getHeight d) \<le> 16" using wh size by simp_all
  note px = tile_pixels_at [OF G(2-4) G(5) [rule_format] F(3) wh]
  have pal: "pal_ready (t_pal (v_tile v))" using v(1) by (simp add: vars_ok_def)
  obtain t where t: "newTile n (\<lambda>i. pixel_at G (int n) (int i)) (nat (getWidth d)) (nat (getHeight d)) (v_tile v) = Some t"
      "analysed n (tile_words F d) (nat (getWidth d)) (nat (getHeight d)) t"
    by (rule newTile_ok [where tp = "\<lambda>i. pixel_at G (int n) (int i)" and p = "tile_words F d", OF px(1) sz pal px(2)]) blast+
  define v1 where "v1 = v\<lparr>v_fb := G, v_tile := t\<rparr>"
  have v1: "v_tile v1 = t" "length (v_encoded v1) = 256 * n" "agree F v1 w" using v by (simp_all add: v1_def vars_ok_def agree_def)
  have call: "hextile_tile_at wr junk n F d v = hextile_send wr n (getWidth d * getHeight d) (buffer G) v1"
    by (intro ext) (simp add: hextile_tile_at_def G(1) t(1) v1_def)
  have ready: "pal_ready (t_pal t)" using t(2) by (simp add: analysed_def)
  have n0: "0 < int n" using fb_ok_size_pos [OF F(1)] F(3) by simp
  show ?thesis
  proof (cases "t_flags t = 1 \<or> getWidth d * getHeight d * int n \<le> t_size t")
    case True
    have len: "int (length (buffer G)) = getWidth d * getHeight d * int n"
      using G(2,3,4) n0 F(3) by (simp add: fb_ok_def setDim_def stride_def pixel_size_def)
    have img: "rect_image F d (buffer G)" unfolding rect_image_def using G(2-5) by (intro exI [of _ G]) simp
    obtain fb' where fb': "inp.gets (hex_tile rd d w) (1 # buffer G) (w\<lparr>w_fb := fb'\<rparr>)" "drawn F (isPointInRect d) (w_fb w) fb'"
      using inp.hex_tile_raw [OF w(1,3) img w(2) [symmetric]] by blast
    from True have raw: "t_flags (v_tile v1) = 1 \<or> getWidth d * getHeight d * int n \<le> t_size (v_tile v1)" by (simp add: v1(1))
    have "vars_ok n (v1\<lparr>oldBgValid := False, oldFgValid := False\<rparr>)" using v1(1,2) ready by (simp add: vars_ok_def)
    moreover have "agree F (v1\<lparr>oldBgValid := False, oldFgValid := False\<rparr>) (w\<lparr>w_fb := fb'\<rparr>)" by (simp add: agree_def)
    ultimately show ?thesis using out.hextile_send_raw [OF raw len] fb' unfolding call by (metis hextile_view.select_convs(1) hextile_view.surjective hextile_view.update_convs(1))
  next
    case False
    then have "t_flags (v_tile v1) = 0 \<and> t_size (v_tile v1) = 0 \<and> (\<forall>i < nat (getWidth d) * nat (getHeight d). tile_words F d i = t_background (v_tile v1)) \<or>
        tile_done n (tile_words F d) (nat (getWidth d)) (nat (getHeight d)) (v_tile v1)"
      using t(2) unfolding analysed_def v1(1) by blast
    moreover have "t_size (v_tile v1) < getWidth d * getHeight d * int n" using False by (simp add: v1(1))
    ultimately obtain M v' w' where "out.emits (hextile_send wr n (getWidth d * getHeight d) (buffer G) v1) M v'" "inp.gets (hex_tile rd d w) M w'"
        "v_tile v' = v_tile v1" "length (v_encoded v') = 256 * n" "agree F v' w'" "drawn F (isPointInRect d) (w_fb w) (w_fb w')"
      using coded_tile [OF F size w v1(2,3)] by metis
    then show ?thesis using ready unfolding call by (intro exI conjI) (assumption | simp add: vars_ok_def v1(1))+
  qed
qed

end

section \<open>All tiles\<close>

definition both_ok :: "frame_buffer \<Rightarrow> rect \<Rightarrow> nat \<Rightarrow> hextile_vars \<Rightarrow> hextile_view \<Rightarrow> bool" where
  "both_ok F r n v w \<longleftrightarrow> vars_ok n v \<and> agree F v w \<and> fb_ok (w_fb w) \<and> fmt (w_fb w) = fmt F \<and> rect_within (w_fb w) r"

lemma both_okI:
  assumes "both_ok F r n v w" "vars_ok n v'" "agree F v' w'" "drawn F P (w_fb w) (w_fb w')"
  shows "both_ok F r n v' w'"
  using assms drawn_shape [OF assms(4)] by (simp add: both_ok_def rect_within_def)

context stream_pair
begin

lemma hextile_cols_step:
  assumes F: "fb_ok F" "rect_within F r" "n = nat (pixel_size F)" and junk: "\<And>k. length (junk k) = k" and y: "rtop r \<le> y" "y < rbottom r"
  shows "rleft r \<le> x \<Longrightarrow> both_ok F r n v w \<Longrightarrow>
    \<exists>M v' w'. out.emits (hextile_cols wr junk n F r y x v) M v' \<and> inp.gets (hex_cols rd r y x w) M w' \<and> both_ok F r n v' w' \<and>
      drawn F (\<lambda>X Y. x \<le> X \<and> X < rright r \<and> y \<le> Y \<and> Y < y + 16 \<and> Y < rbottom r) (w_fb w) (w_fb w')"
proof (induction "nat (rright r - x)" arbitrary: x v w rule: less_induct)
  case less
  show ?case
  proof (cases "x < rright r")
    case False
    then have "hextile_cols wr junk n F r y x v = (\<lambda>s. Some (v, s))" "hex_cols rd r y x w = (\<lambda>s. Some (w, s))"
      by (intro ext; subst hextile_cols.simps hex_cols.simps; simp)+
    moreover have "drawn F (\<lambda>X Y. x \<le> X \<and> X < rright r \<and> y \<le> Y \<and> Y < y + 16 \<and> Y < rbottom r) (w_fb w) (w_fb w)"
      by (rule drawn_empty) (use False in auto)
    ultimately show ?thesis using less.prems(2) out.emits_return inp.gets_return by (intro exI conjI) (simp | assumption)+
  next
    case True
    define d where "d = setRect x y (min (rright r) (x + 16)) (min (rbottom r) (y + 16))"
    have d: "rect_within F d" "rect_within (w_fb w) d" "getWidth d \<le> 16" "getHeight d \<le> 16"
      using F(2) less.prems True y by (auto simp: d_def rect_within_def both_ok_def getWidth_def getHeight_def)
    obtain M1 v1 w1 where s1: "out.emits (hextile_tile_at wr junk n F d v) M1 v1" "inp.gets (hex_tile rd d w) M1 w1"
        "vars_ok n v1" "agree F v1 w1" "drawn F (isPointInRect d) (w_fb w) (w_fb w1)"
      using hextile_tile_step [OF F(1) d(1) F(3) d(3,4) junk _ _ _ _ d(2), of v] less.prems(2) by (auto simp: both_ok_def)
    have ok1: "both_ok F r n v1 w1" by (rule both_okI [OF less.prems(2) s1(3-5)])
    obtain M2 v2 w2 where s2: "out.emits (hextile_cols wr junk n F r y (x + 16) v1) M2 v2" "inp.gets (hex_cols rd r y (x + 16) w1) M2 w2"
        "both_ok F r n v2 w2"
        "drawn F (\<lambda>X Y. x + 16 \<le> X \<and> X < rright r \<and> y \<le> Y \<and> Y < y + 16 \<and> Y < rbottom r) (w_fb w1) (w_fb w2)"
      using less.hyps [of "x + 16", OF _ _ ok1] True less.prems(1) by auto
    have min_swap: "setRect x y (min (x + 16) (rright r)) (min (y + 16) (rbottom r)) = d"
      by (simp add: d_def min.commute)
    have calls: "hextile_cols wr junk n F r y x v = (\<lambda>s. case hextile_tile_at wr junk n F d v s of None \<Rightarrow> None
        | Some (v, s) \<Rightarrow> hextile_cols wr junk n F r y (x + 16) v s)"
      "hex_cols rd r y x w = (\<lambda>s. case hex_tile rd d w s of None \<Rightarrow> None | Some (w, s) \<Rightarrow> hex_cols rd r y (x + 16) w s)"
      using True by (intro ext; subst hextile_cols.simps hex_cols.simps; (unfold TILE_SIZE_def)?; simp add: d_def [symmetric] min_swap)+
    have "drawn F (\<lambda>X Y. x \<le> X \<and> X < rright r \<and> y \<le> Y \<and> Y < y + 16 \<and> Y < rbottom r) (w_fb w) (w_fb w2)"
      by (rule drawn_trans [OF s1(5) s2(4)]) (auto simp: d_def in_rect)
    moreover have "out.emits (hextile_cols wr junk n F r y x v) (M1 @ M2) v2" unfolding calls by (rule out.emits_then [OF s1(1)]) (rule s2(1))
    moreover have "inp.gets (hex_cols rd r y x w) (M1 @ M2) w2" unfolding calls by (rule inp.gets_then [OF s1(2)]) (rule s2(2))
    ultimately show ?thesis using s2(3) by blast
  qed
qed

lemma hextile_rows_step:
  assumes F: "fb_ok F" "rect_within F r" "n = nat (pixel_size F)" and junk: "\<And>k. length (junk k) = k"
  shows "rtop r \<le> y \<Longrightarrow> both_ok F r n v w \<Longrightarrow>
    \<exists>M v' w'. out.emits (hextile_rows wr junk n F r y v) M v' \<and> inp.gets (hex_rows rd r y w) M w' \<and> both_ok F r n v' w' \<and>
      drawn F (\<lambda>X Y. rleft r \<le> X \<and> X < rright r \<and> y \<le> Y \<and> Y < rbottom r) (w_fb w) (w_fb w')"
proof (induction "nat (rbottom r - y)" arbitrary: y v w rule: less_induct)
  case less
  show ?case
  proof (cases "y < rbottom r")
    case False
    then have "hextile_rows wr junk n F r y v = (\<lambda>s. Some (v, s))" "hex_rows rd r y w = (\<lambda>s. Some (w, s))"
      by (intro ext; subst hextile_rows.simps hex_rows.simps; simp)+
    moreover have "drawn F (\<lambda>X Y. rleft r \<le> X \<and> X < rright r \<and> y \<le> Y \<and> Y < rbottom r) (w_fb w) (w_fb w)"
      by (rule drawn_empty) (use False in auto)
    ultimately show ?thesis using less.prems(2) out.emits_return inp.gets_return by (intro exI conjI) (simp | assumption)+
  next
    case True
    obtain M1 v1 w1 where s1: "out.emits (hextile_cols wr junk n F r y (rleft r) v) M1 v1" "inp.gets (hex_cols rd r y (rleft r) w) M1 w1"
        "both_ok F r n v1 w1"
        "drawn F (\<lambda>X Y. rleft r \<le> X \<and> X < rright r \<and> y \<le> Y \<and> Y < y + 16 \<and> Y < rbottom r) (w_fb w) (w_fb w1)"
      using hextile_cols_step [OF F junk less.prems(1) True order_refl less.prems(2)] by (elim exE conjE) (rule that)
    obtain M2 v2 w2 where s2: "out.emits (hextile_rows wr junk n F r (y + 16) v1) M2 v2" "inp.gets (hex_rows rd r (y + 16) w1) M2 w2"
        "both_ok F r n v2 w2" "drawn F (\<lambda>X Y. rleft r \<le> X \<and> X < rright r \<and> y + 16 \<le> Y \<and> Y < rbottom r) (w_fb w1) (w_fb w2)"
      using less.hyps [of "y + 16", OF _ _ s1(3)] True less.prems(1) by auto
    have calls: "hextile_rows wr junk n F r y v = (\<lambda>s. case hextile_cols wr junk n F r y (rleft r) v s of None \<Rightarrow> None
        | Some (v, s) \<Rightarrow> hextile_rows wr junk n F r (y + 16) v s)"
      "hex_rows rd r y w = (\<lambda>s. case hex_cols rd r y (rleft r) w s of None \<Rightarrow> None | Some (w, s) \<Rightarrow> hex_rows rd r (y + 16) w s)"
      using True by (intro ext; subst hextile_rows.simps hex_rows.simps; (unfold TILE_SIZE_def)?; simp)+
    have "drawn F (\<lambda>X Y. rleft r \<le> X \<and> X < rright r \<and> y \<le> Y \<and> Y < rbottom r) (w_fb w) (w_fb w2)"
      by (rule drawn_trans [OF s1(4) s2(4)]) auto
    moreover have "out.emits (hextile_rows wr junk n F r y v) (M1 @ M2) v2" unfolding calls by (rule out.emits_then [OF s1(1)]) (rule s2(1))
    moreover have "inp.gets (hex_rows rd r y w) (M1 @ M2) w2" unfolding calls by (rule inp.gets_then [OF s1(2)]) (rule s2(2))
    ultimately show ?thesis using s2(3) by blast
  qed
qed

text \<open>The memory in which the encoder finds its tile has a palette with arrays of their size.\<close>

lemma hextile_messages:
  assumes F: "fb_ok F" "rect_within F r" "n = nat (pixel_size F)" and junk: "\<And>k. length (junk k) = k"
    and mem: "length (pentry (t_pal (v_tile mem))) = 256" "length (pnodes (t_pal (v_tile mem))) = 256"
    and fb: "fb_ok fb" "fmt fb = fmt F" "rect_within fb r"
  shows "\<exists>M fb'. out.puts (hextileFunction wr junk mem n r F) M \<and> inp.gets (HexTileDecoder_decode rd r fb) M fb' \<and> drawn F (isPointInRect r) fb fb'"
proof -
  define v where "v = mem\<lparr>oldBg := 0, oldFg := 0, oldBgValid := False, oldFgValid := False,
      v_encoded := new_block (v_encoded mem) (256 * n), v_tile := HextileTile_new n (v_tile mem)\<rparr>"
  define w where "w = \<lparr>w_fb = fb, w_background = 0, w_foreground = 0, w_accepted = False\<rparr>"
  have "n \<le> 4" using fb_ok_size [OF F(1)] F(3) by auto
  then have "pal_ready (t_pal (v_tile v))"
    using mem by (simp add: v_def HextileTile_new_def pal_ready_def TightPalette_new_def TightPalette_reset_def TightPalette_setMaxColors_def)
  then have "both_ok F r n v w" using fb by (simp add: both_ok_def vars_ok_def agree_def v_def w_def)
  from hextile_rows_step [OF F junk order_refl this] obtain M v' w' where
    m: "out.emits (hextile_rows wr junk n F r (rtop r) v) M v'" "inp.gets (hex_rows rd r (rtop r) w) M w'"
      "drawn F (\<lambda>X Y. rleft r \<le> X \<and> X < rright r \<and> rtop r \<le> Y \<and> Y < rbottom r) (w_fb w) (w_fb w')"
    by (elim exE conjE) (rule that)
  have "out.puts (hextileFunction wr junk mem n r F) M"
    using m(1) unfolding out.puts_def out.emits_def hextileFunction_def v_def [symmetric] by fastforce
  moreover have "inp.gets (HexTileDecoder_decode rd r fb) M (w_fb w')"
    using m(2) unfolding inp.gets_def HexTileDecoder_decode_def w_def [symmetric] by fastforce
  moreover have "drawn F (isPointInRect r) fb (w_fb w')"
    using m(3) by (simp add: w_def drawn_def in_rect conj_ac)
  ultimately show ?thesis by blast
qed

end

section \<open>Round trip\<close>

lemma hextile_roundtrip_ok:
  assumes F: "fb_ok F" "rect_within F r" and junk: "\<And>k. length (junk k) = k"
    and mem: "length (pentry (t_pal (v_tile mem))) = 256" "length (pnodes (t_pal (v_tile mem))) = 256"
    and v: "view_ok F v" "rect_within (second v) r" and out: "out_ready s" "toByteArray s = []"
  shows "\<exists>s' v' t. hextileFunction (ByteArrayOutputStream_write block) junk mem (nat (pixel_size F)) r F s = Some s' \<and>
    DecoderOfRectangle_process (HexTileDecoder_decode ByteArrayInputStream_read) r v
      (ByteArrayInputStream_new (toByteArray s' @ rest)) = Some (v', t) \<and>
    in_pending t = rest \<and> view_drawn F (isPointInRect r) v v' \<and> notified v' = notified v @ [r]"
proof -
  have fb: "fb_ok (second v)" "fmt (second v) = fmt F" using v(1) by (simp_all add: view_ok_def)
  from byte_pair.hextile_messages [where heap = block, OF F refl junk mem fb v(2)] obtain M fb' where
    m: "byte_out.puts (hextileFunction (ByteArrayOutputStream_write block) junk mem (nat (pixel_size F)) r F) M"
      "byte_in.gets (HexTileDecoder_decode ByteArrayInputStream_read r (second v)) M fb'" "drawn F (isPointInRect r) (second v) fb'"
    by (elim exE conjE) (rule that)
  obtain s' where s': "hextileFunction (ByteArrayOutputStream_write block) junk mem (nat (pixel_size F)) r F s = Some s'" "toByteArray s' = M"
    using byte_out.puts_obtain [OF m(1) out(1)] out(2) by auto
  from byte_in.process_gets [where decode = "HexTileDecoder_decode ByteArrayInputStream_read", OF v m(2,3)] obtain v' where
    v': "byte_in.gets (DecoderOfRectangle_process (HexTileDecoder_decode ByteArrayInputStream_read) r v) M v'"
      "view_drawn F (isPointInRect r) v v'" "notified v' = notified v @ [r]" by (elim exE conjE) (rule that)
  have "in_pending (ByteArrayInputStream_new (toByteArray s' @ rest)) = M @ rest" by (simp add: ByteArrayInputStream_new_ok s'(2))
  from byte_in.gets_obtain [OF v'(1) ByteArrayInputStream_new_ok(1) this] s'(1) v'(2,3) show ?thesis by metis
qed

end
