(* ===== verification/EncodingSamples.thy ===== *)
theory EncodingSamples
  imports HextileTrip BufferSamples
begin

text \<open>The concrete server and viewer on which the theorems about encodings are instantiated.\<close>

text \<open>A viewer that shows a blank frame buffer.\<close>

definition sample_view :: view where
  "sample_view = \<lparr>shown = sample_fb 0, second = sample_fb 0, notified = []\<rparr>"

lemma sample_view_ok: "view_ok sample_shades sample_view"
  by (simp add: view_ok_def sample_view_def sample_fb_ok) (simp add: sample_shades_def)

text \<open>The stack and the memory in which \<open>hextileFunction\<close> finds its variables.\<close>

definition sample_tile :: hextile_tile where
  "sample_tile = \<lparr>t_size = 7, t_flags = 3, t_background = 1, t_foreground = 2, t_subs = [], t_processed = replicate 256 True,
     t_pal = sample_palette\<rparr>"

definition sample_vars :: hextile_vars where
  "sample_vars = \<lparr>v_fb = sample_fb 5, oldBg = 3, oldFg = 4, oldBgValid = True, oldFgValid = True, v_encoded = [], v_tile = sample_tile\<rparr>"

lemma sample_vars_ok: "length (pentry (t_pal (v_tile sample_vars))) = 256" "length (pnodes (t_pal (v_tile sample_vars))) = 256"
  by (simp_all add: sample_vars_def sample_tile_def sample_palette_def TightPalette_new_def TightPalette_reset_def TightPalette_setMaxColors_def)

text \<open>The middle of the buffer.\<close>

lemma sample_middle:
  "rect_within sample_shades (setRect 1 1 3 3)" "rect_within (second sample_view) (setRect 1 1 3 3)"
  "inside (shown sample_view) 2 1" "isPointInRect (setRect 1 1 3 3) 2 1" "pixel sample_shades 2 1 = [6]" "nat (pixel_size sample_shades) = 1"
  by (simp_all add: rect_within_def sample_view_def sample_inside in_rect, simp_all add: sample_shades_def sample_fb_def pixel_size_def gray_def)
    code_simp

lemma sample_drawn: "view_drawn sample_shades (isPointInRect (setRect 1 1 3 3)) sample_view v' \<Longrightarrow> pixel (shown v') 2 1 = [6]"
  using sample_middle(3-5) by (simp add: view_drawn_def drawn_def)

end
