(* ===== verification/DesCipher.thy ===== *)
theory DesCipher
  imports FrameBuffers
begin

text \<open>
  The cipher that hides passwords and answers the challenge of the server: \<open>util/DesCrypt.cpp\<close>,
  with its tables. \<open>unsigned long\<close> has 32 bits. The key register \<open>m_knL\<close> of the object is a list of 32 words.
\<close>

unbundle bit_operations_syntax

section \<open>Tables\<close>

definition bytebit :: "8 word list" where
  "bytebit = [1, 2, 4, 8, 16, 32, 64, 128]"

definition bigbyte :: "32 word list" where
  "bigbyte = [0x800000, 0x400000, 0x200000, 0x100000,
    0x80000, 0x40000, 0x20000, 0x10000,
    0x8000, 0x4000, 0x2000, 0x1000,
    0x800, 0x400, 0x200, 0x100,
    0x80, 0x40, 0x20, 0x10,
    0x8, 0x4, 0x2, 0x1]"

definition pc1 :: "nat list" where
  "pc1 = [56, 48, 40, 32, 24, 16, 8, 0, 57, 49, 41, 33, 25, 17,
    9, 1, 58, 50, 42, 34, 26, 18, 10, 2, 59, 51, 43, 35,
    62, 54, 46, 38, 30, 22, 14, 6, 61, 53, 45, 37, 29, 21,
    13, 5, 60, 52, 44, 36, 28, 20, 12, 4, 27, 19, 11, 3]"

definition totrot :: "nat list" where
  "totrot = [1, 2, 4, 6, 8, 10, 12, 14, 15, 17, 19, 21, 23, 25, 27, 28]"

definition pc2 :: "nat list" where
  "pc2 = [13, 16, 10, 23, 0, 4, 2, 27, 14, 5, 20, 9,
    22, 18, 11, 3, 25, 7, 15, 6, 26, 19, 12, 1,
    40, 51, 30, 36, 46, 54, 29, 39, 50, 44, 32, 47,
    43, 48, 38, 55, 33, 52, 45, 41, 49, 35, 28, 31]"

definition SP1 :: "32 word list" where
  "SP1 = [
    0x1010400, 0x0, 0x10000, 0x1010404,
    0x1010004, 0x10404, 0x4, 0x10000,
    0x400, 0x1010400, 0x1010404, 0x400,
    0x1000404, 0x1010004, 0x1000000, 0x4,
    0x404, 0x1000400, 0x1000400, 0x10400,
    0x10400, 0x1010000, 0x1010000, 0x1000404,
    0x10004, 0x1000004, 0x1000004, 0x10004,
    0x0, 0x404, 0x10404, 0x1000000,
    0x10000, 0x1010404, 0x4, 0x1010000,
    0x1010400, 0x1000000, 0x1000000, 0x400,
    0x1010004, 0x10000, 0x10400, 0x1000004,
    0x400, 0x4, 0x1000404, 0x10404,
    0x1010404, 0x10004, 0x1010000, 0x1000404,
    0x1000004, 0x404, 0x10404, 0x1010400,
    0x404, 0x1000400, 0x1000400, 0x0,
    0x10004, 0x10400, 0x0, 0x1010004]"

definition SP2 :: "32 word list" where
  "SP2 = [
    0x80108020, 0x80008000, 0x8000, 0x108020,
    0x100000, 0x20, 0x80100020, 0x80008020,
    0x80000020, 0x80108020, 0x80108000, 0x80000000,
    0x80008000, 0x100000, 0x20, 0x80100020,
    0x108000, 0x100020, 0x80008020, 0x0,
    0x80000000, 0x8000, 0x108020, 0x80100000,
    0x100020, 0x80000020, 0x0, 0x108000,
    0x8020, 0x80108000, 0x80100000, 0x8020,
    0x0, 0x108020, 0x80100020, 0x100000,
    0x80008020, 0x80100000, 0x80108000, 0x8000,
    0x80100000, 0x80008000, 0x20, 0x80108020,
    0x108020, 0x20, 0x8000, 0x80000000,
    0x8020, 0x80108000, 0x100000, 0x80000020,
    0x100020, 0x80008020, 0x80000020, 0x100020,
    0x108000, 0x0, 0x80008000, 0x8020,
    0x80000000, 0x80100020, 0x80108020, 0x108000]"

definition SP3 :: "32 word list" where
  "SP3 = [
    0x208, 0x8020200, 0x0, 0x8020008,
    0x8000200, 0x0, 0x20208, 0x8000200,
    0x20008, 0x8000008, 0x8000008, 0x20000,
    0x8020208, 0x20008, 0x8020000, 0x208,
    0x8000000, 0x8, 0x8020200, 0x200,
    0x20200, 0x8020000, 0x8020008, 0x20208,
    0x8000208, 0x20200, 0x20000, 0x8000208,
    0x8, 0x8020208, 0x200, 0x8000000,
    0x8020200, 0x8000000, 0x20008, 0x208,
    0x20000, 0x8020200, 0x8000200, 0x0,
    0x200, 0x20008, 0x8020208, 0x8000200,
    0x8000008, 0x200, 0x0, 0x8020008,
    0x8000208, 0x20000, 0x8000000, 0x8020208,
    0x8, 0x20208, 0x20200, 0x8000008,
    0x8020000, 0x8000208, 0x208, 0x8020000,
    0x20208, 0x8, 0x8020008, 0x20200]"

definition SP4 :: "32 word list" where
  "SP4 = [
    0x802001, 0x2081, 0x2081, 0x80,
    0x802080, 0x800081, 0x800001, 0x2001,
    0x0, 0x802000, 0x802000, 0x802081,
    0x81, 0x0, 0x800080, 0x800001,
    0x1, 0x2000, 0x800000, 0x802001,
    0x80, 0x800000, 0x2001, 0x2080,
    0x800081, 0x1, 0x2080, 0x800080,
    0x2000, 0x802080, 0x802081, 0x81,
    0x800080, 0x800001, 0x802000, 0x802081,
    0x81, 0x0, 0x0, 0x802000,
    0x2080, 0x800080, 0x800081, 0x1,
    0x802001, 0x2081, 0x2081, 0x80,
    0x802081, 0x81, 0x1, 0x2000,
    0x800001, 0x2001, 0x802080, 0x800081,
    0x2001, 0x2080, 0x800000, 0x802001,
    0x80, 0x800000, 0x2000, 0x802080]"

definition SP5 :: "32 word list" where
  "SP5 = [
    0x100, 0x2080100, 0x2080000, 0x42000100,
    0x80000, 0x100, 0x40000000, 0x2080000,
    0x40080100, 0x80000, 0x2000100, 0x40080100,
    0x42000100, 0x42080000, 0x80100, 0x40000000,
    0x2000000, 0x40080000, 0x40080000, 0x0,
    0x40000100, 0x42080100, 0x42080100, 0x2000100,
    0x42080000, 0x40000100, 0x0, 0x42000000,
    0x2080100, 0x2000000, 0x42000000, 0x80100,
    0x80000, 0x42000100, 0x100, 0x2000000,
    0x40000000, 0x2080000, 0x42000100, 0x40080100,
    0x2000100, 0x40000000, 0x42080000, 0x2080100,
    0x40080100, 0x100, 0x2000000, 0x42080000,
    0x42080100, 0x80100, 0x42000000, 0x42080100,
    0x2080000, 0x0, 0x40080000, 0x42000000,
    0x80100, 0x2000100, 0x40000100, 0x80000,
    0x0, 0x40080000, 0x2080100, 0x40000100]"

definition SP6 :: "32 word list" where
  "SP6 = [
    0x20000010, 0x20400000, 0x4000, 0x20404010,
    0x20400000, 0x10, 0x20404010, 0x400000,
    0x20004000, 0x404010, 0x400000, 0x20000010,
    0x400010, 0x20004000, 0x20000000, 0x4010,
    0x0, 0x400010, 0x20004010, 0x4000,
    0x404000, 0x20004010, 0x10, 0x20400010,
    0x20400010, 0x0, 0x404010, 0x20404000,
    0x4010, 0x404000, 0x20404000, 0x20000000,
    0x20004000, 0x10, 0x20400010, 0x404000,
    0x20404010, 0x400000, 0x4010, 0x20000010,
    0x400000, 0x20004000, 0x20000000, 0x4010,
    0x20000010, 0x20404010, 0x404000, 0x20400000,
    0x404010, 0x20404000, 0x0, 0x20400010,
    0x10, 0x4000, 0x20400000, 0x404010,
    0x4000, 0x400010, 0x20004010, 0x0,
    0x20404000, 0x20000000, 0x400010, 0x20004010]"

definition SP7 :: "32 word list" where
  "SP7 = [
    0x200000, 0x4200002, 0x4000802, 0x0,
    0x800, 0x4000802, 0x200802, 0x4200800,
    0x4200802, 0x200000, 0x0, 0x4000002,
    0x2, 0x4000000, 0x4200002, 0x802,
    0x4000800, 0x200802, 0x200002, 0x4000800,
    0x4000002, 0x4200000, 0x4200800, 0x200002,
    0x4200000, 0x800, 0x802, 0x4200802,
    0x200800, 0x2, 0x4000000, 0x200800,
    0x4000000, 0x200800, 0x200000, 0x4000802,
    0x4000802, 0x4200002, 0x4200002, 0x2,
    0x200002, 0x4000000, 0x4000800, 0x200000,
    0x4200800, 0x802, 0x200802, 0x4200800,
    0x802, 0x4000002, 0x4200802, 0x4200000,
    0x200800, 0x0, 0x2, 0x4200802,
    0x0, 0x200802, 0x4200000, 0x800,
    0x4000002, 0x4000800, 0x800, 0x200002]"

definition SP8 :: "32 word list" where
  "SP8 = [
    0x10001040, 0x1000, 0x40000, 0x10041040,
    0x10000000, 0x10001040, 0x40, 0x10000000,
    0x40040, 0x10040000, 0x10041040, 0x41000,
    0x10041000, 0x41040, 0x1000, 0x40,
    0x10040000, 0x10000040, 0x10001000, 0x1040,
    0x41000, 0x40040, 0x10040040, 0x10041000,
    0x1040, 0x0, 0x0, 0x10040040,
    0x10000040, 0x10001000, 0x41040, 0x40000,
    0x41040, 0x40000, 0x10041000, 0x1000,
    0x40, 0x10040040, 0x1000, 0x41040,
    0x10001000, 0x40, 0x10000040, 0x10040000,
    0x10040040, 0x10000000, 0x40000, 0x10001040,
    0x0, 0x10041040, 0x40040, 0x10000040,
    0x10040000, 0x10001000, 0x10001040, 0x0,
    0x10041040, 0x41000, 0x41000, 0x1040,
    0x1040, 0x40040, 0x10000000, 0x10041000]"

section \<open>Key schedule\<close>

datatype operation_mode = ENCRYPT | DECRYPT

text \<open>The bits of the key that the first table selects; the code keeps them as bytes of 1 and 0.\<close>

definition select_bits :: "8 word list \<Rightarrow> bool list" where
  "select_bits hexKey = map (\<lambda>l. hexKey ! (l div 8) AND bytebit ! (l mod 8) \<noteq> 0) pc1"

text \<open>Both halves of 28 bits, rotated.\<close>

definition rotate_halves :: "bool list \<Rightarrow> nat \<Rightarrow> bool list" where
  "rotate_halves pc1m rot =
     map (\<lambda>j. let l = j + rot in if l < 28 then pc1m ! l else pc1m ! (l - 28)) [0..<28] @
     map (\<lambda>j. let l = j + rot in if l < 56 then pc1m ! l else pc1m ! (l - 28)) [28..<56]"

definition raw_key :: "bool list \<Rightarrow> nat \<Rightarrow> 32 word" where
  "raw_key pcr off = foldl (\<lambda>k j. if pcr ! (pc2 ! (j + off)) then k OR bigbyte ! j else k) 0 [0..<24]"

text \<open>The sixteen raw keys of two words, stored from the end for decryption.\<close>

definition store_raw :: "operation_mode \<Rightarrow> bool list \<Rightarrow> nat \<Rightarrow> 32 word list \<Rightarrow> 32 word list" where
  "store_raw mode pc1m i kn =
     (let m = (if mode = DECRYPT then 2 * (15 - i) else 2 * i);
          pcr = rotate_halves pc1m (totrot ! i)
      in kn[m := raw_key pcr 0, m + 1 := raw_key pcr 24])"

definition cook0 :: "32 word \<Rightarrow> 32 word \<Rightarrow> 32 word" where
  "cook0 raw0 raw1 = push_bit 6 (raw0 AND 0x00fc0000) OR push_bit 10 (raw0 AND 0x00000fc0) OR
     drop_bit 10 (raw1 AND 0x00fc0000) OR drop_bit 6 (raw1 AND 0x00000fc0)"

definition cook1 :: "32 word \<Rightarrow> 32 word \<Rightarrow> 32 word" where
  "cook1 raw0 raw1 = push_bit 12 (raw0 AND 0x0003f000) OR push_bit 16 (raw0 AND 0x0000003f) OR
     drop_bit 4 (raw1 AND 0x0003f000) OR (raw1 AND 0x0000003f)"

fun cookey :: "32 word list \<Rightarrow> 32 word list" where
  "cookey (raw0 # raw1 # raws) = cook0 raw0 raw1 # cook1 raw0 raw1 # cookey raws"
| "cookey raws = []"

text \<open>\<open>kn\<close> is what the array on the stack holds; the result is the key register.\<close>

definition deskey :: "32 word list \<Rightarrow> 8 word list \<Rightarrow> operation_mode \<Rightarrow> 32 word list" where
  "deskey kn hexKey mode = cookey (foldl (\<lambda>kn i. store_raw mode (select_bits hexKey) i kn) kn [0..<16])"

definition clearKey :: "32 word list" where
  "clearKey = replicate 32 0"

section \<open>One block\<close>

definition scrunch :: "bytes \<Rightarrow> 32 word \<times> 32 word" where
  "scrunch outof =
     (push_bit 24 (ucast (outof ! 0)) OR push_bit 16 (ucast (outof ! 1)) OR push_bit 8 (ucast (outof ! 2)) OR ucast (outof ! 3),
      push_bit 24 (ucast (outof ! 4)) OR push_bit 16 (ucast (outof ! 5)) OR push_bit 8 (ucast (outof ! 6)) OR ucast (outof ! 7))"

definition unscrun :: "32 word \<times> 32 word \<Rightarrow> bytes" where
  "unscrun outof =
     [ucast (drop_bit 24 (fst outof) AND 0xff), ucast (drop_bit 16 (fst outof) AND 0xff), ucast (drop_bit 8 (fst outof) AND 0xff),
      ucast (fst outof AND 0xff),
      ucast (drop_bit 24 (snd outof) AND 0xff), ucast (drop_bit 16 (snd outof) AND 0xff), ucast (drop_bit 8 (snd outof) AND 0xff),
      ucast (snd outof AND 0xff)]"

text \<open>The exchange of the bits of \<open>b\<close> under the mask with those of \<open>a\<close> that lie \<open>n\<close> places higher.\<close>

definition exchange_bits :: "nat \<Rightarrow> 32 word \<Rightarrow> 32 word \<Rightarrow> 32 word \<Rightarrow> 32 word \<times> 32 word" where
  "exchange_bits n m a b =
     (let work = (drop_bit n a XOR b) AND m;
          b = b XOR work;
          a = a XOR push_bit n work
      in (a, b))"

definition rotate_left :: "32 word \<Rightarrow> 32 word" where
  "rotate_left w = push_bit 1 w OR (drop_bit 31 w AND 1)"

definition rotate_right :: "32 word \<Rightarrow> 32 word" where
  "rotate_right w = push_bit 31 w OR drop_bit 1 w"

definition initial_permutation :: "32 word \<Rightarrow> 32 word \<Rightarrow> 32 word \<times> 32 word" where
  "initial_permutation leftt right =
     (let (leftt, right) = exchange_bits 4 0x0f0f0f0f leftt right;
          (leftt, right) = exchange_bits 16 0x0000ffff leftt right;
          (right, leftt) = exchange_bits 2 0x33333333 right leftt;
          (right, leftt) = exchange_bits 8 0x00ff00ff right leftt;
          right = rotate_left right;
          (leftt, right) = exchange_bits 0 0xaaaaaaaa leftt right;
          leftt = rotate_left leftt
      in (leftt, right))"

definition final_permutation :: "32 word \<Rightarrow> 32 word \<Rightarrow> 32 word \<times> 32 word" where
  "final_permutation leftt right =
     (let right = rotate_right right;
          (leftt, right) = exchange_bits 0 0xaaaaaaaa leftt right;
          leftt = rotate_right leftt;
          (leftt, right) = exchange_bits 8 0x00ff00ff leftt right;
          (leftt, right) = exchange_bits 2 0x33333333 leftt right;
          (right, leftt) = exchange_bits 16 0x0000ffff right leftt;
          (right, leftt) = exchange_bits 4 0x0f0f0f0f right leftt
      in (right, leftt))"

text \<open>The value of a round, from half a block and two words of the key.\<close>

definition sp_box :: "32 word list \<Rightarrow> nat \<Rightarrow> 32 word \<Rightarrow> 32 word" where
  "sp_box sp n work = sp ! unat (drop_bit n work AND 0x3f)"

definition round_value :: "32 word \<Rightarrow> 32 word \<Rightarrow> 32 word \<Rightarrow> 32 word" where
  "round_value key0 key1 right =
     (let work = (push_bit 28 right OR drop_bit 4 right) XOR key0;
          fval = sp_box SP7 0 work;
          fval = fval OR sp_box SP5 8 work;
          fval = fval OR sp_box SP3 16 work;
          fval = fval OR sp_box SP1 24 work;
          work = right XOR key1;
          fval = fval OR sp_box SP8 0 work;
          fval = fval OR sp_box SP6 8 work;
          fval = fval OR sp_box SP4 16 work
      in fval OR sp_box SP2 24 work)"

text \<open>Each pass of the loop has two rounds and uses four words of the key.\<close>

primrec des_rounds :: "nat \<Rightarrow> 32 word list \<Rightarrow> 32 word \<Rightarrow> 32 word \<Rightarrow> 32 word \<times> 32 word" where
  "des_rounds 0 keys leftt right = (leftt, right)"
| "des_rounds (Suc n) keys leftt right =
     (let leftt = leftt XOR round_value (keys ! 0) (keys ! 1) right;
          right = right XOR round_value (keys ! 2) (keys ! 3) leftt
      in des_rounds n (drop 4 keys) leftt right)"

definition desfunc :: "32 word \<times> 32 word \<Rightarrow> 32 word list \<Rightarrow> 32 word \<times> 32 word" where
  "desfunc block keys =
     (let (leftt, right) = initial_permutation (fst block) (snd block);
          (leftt, right) = des_rounds 8 keys leftt right
      in final_permutation leftt right)"

definition des :: "32 word list \<Rightarrow> bytes \<Rightarrow> bytes" where
  "des knL src = unscrun (desfunc (scrunch src) knL)"

section \<open>Buffers\<close>

text \<open>
  Source and destination are places in one memory \<open>b\<close>, since they may be the same; a block is
  read before it is written.
\<close>

function des_buffer :: "32 word list \<Rightarrow> int \<Rightarrow> int \<Rightarrow> nat \<Rightarrow> nat \<Rightarrow> bytes \<Rightarrow> bytes option" where
  "des_buffer knL dst src i dataLen b =
     (if i < dataLen then
        (case load (src + int i) 8 b of None \<Rightarrow> None | Some from \<Rightarrow>
        (case store (dst + int i) (des knL from) b of None \<Rightarrow> None | Some b \<Rightarrow>
           des_buffer knL dst src (i + 8) dataLen b))
      else Some b)"
  by pat_completeness auto
termination
  by (relation "measure (\<lambda>(knL, dst, src, i, dataLen, b). dataLen - i)") auto

declare des_buffer.simps [simp del]

text \<open>The results have the key register after the call.\<close>

definition DesCrypt_encrypt :: "32 word list \<Rightarrow> int \<Rightarrow> int \<Rightarrow> nat \<Rightarrow> 8 word list \<Rightarrow> bytes \<Rightarrow> (bytes \<times> 32 word list) option" where
  "DesCrypt_encrypt kn dst src dataLen key b =
     map_option (\<lambda>b. (b, clearKey)) (des_buffer (deskey kn key ENCRYPT) dst src 0 dataLen b)"

definition DesCrypt_decrypt :: "32 word list \<Rightarrow> int \<Rightarrow> int \<Rightarrow> nat \<Rightarrow> 8 word list \<Rightarrow> bytes \<Rightarrow> (bytes \<times> 32 word list) option" where
  "DesCrypt_decrypt kn dst src dataLen key b =
     map_option (\<lambda>b. (b, clearKey)) (des_buffer (deskey kn key DECRYPT) dst src 0 dataLen b)"

end
