(* ===== verification/DesCorrect.thy ===== *)
theory DesCorrect
  imports DesCipher BufferRows DataStreams
begin

text \<open>
  Decryption undoes encryption, for every key: the permutations of \<open>desfunc\<close> are inverse to one another
  and the rounds, with the keys in reverse, undo themselves. Then the same over buffers, where source and destination may coincide.
\<close>

section \<open>Rounds\<close>

text \<open>A round that exchanges the halves; the loop of the code has two of them without the exchanges.\<close>

definition feistel :: "32 word \<times> 32 word \<Rightarrow> 32 word \<times> 32 word \<Rightarrow> 32 word \<times> 32 word" where
  "feistel k s = (snd s, fst s XOR round_value (fst k) (snd k) (snd s))"

fun feistels :: "(32 word \<times> 32 word) list \<Rightarrow> 32 word \<times> 32 word \<Rightarrow> 32 word \<times> 32 word" where
  "feistels [] s = s"
| "feistels (k # ks) s = feistels ks (feistel k s)"

lemma feistels_append: "feistels (ks @ ks') s = feistels ks' (feistels ks s)"
  by (induction ks arbitrary: s) auto

lemma feistel_undo: "feistel k (prod.swap (feistel k s)) = prod.swap s"
  by (cases s) (simp add: feistel_def xor.assoc)

lemma feistels_undo: "feistels (rev ks) (prod.swap (feistels ks s)) = prod.swap s"
  by (induction ks arbitrary: s) (simp_all add: feistels_append feistel_undo)

fun key_words :: "(32 word \<times> 32 word) list \<Rightarrow> 32 word list" where
  "key_words [] = []"
| "key_words ((a, b) # ks) = a # b # key_words ks"

lemma key_words_append [simp]: "key_words (ks @ ks') = key_words ks @ key_words ks'"
  by (induction ks rule: key_words.induct) auto

lemma length_key_words [simp]: "length (key_words ks) = 2 * length ks"
  by (induction ks rule: key_words.induct) auto

lemma key_words_nth: "i < length ks \<Longrightarrow> key_words ks ! (2 * i) = fst (ks ! i) \<and> key_words ks ! (2 * i + 1) = snd (ks ! i)"
proof (induction ks arbitrary: i rule: key_words.induct)
  case (2 a b ks)
  show ?case
  proof (cases i)
    case (Suc j)
    with 2 show ?thesis by simp
  qed simp
qed simp

lemma des_rounds_feistels: "length ks = 2 * n \<Longrightarrow> des_rounds n (key_words ks) l r = feistels ks (l, r)"
proof (induction n arbitrary: ks l r)
  case (Suc n)
  then obtain a b c d ks' where ks: "ks = (a, b) # (c, d) # ks'"
    by (metis (no_types, lifting) Suc_length_conv mult_Suc_right numeral_2_eq_2 add_Suc surj_pair)
  with Suc show ?case by (simp add: Let_def feistel_def)
qed simp

section \<open>Permutations\<close>

lemma exchange_undo:
  assumes "drop_bit n (push_bit n m) = m" "exchange_bits n m a b = (c, d)"
  shows "exchange_bits n m c d = (a, b)"
proof -
  let ?w = "(drop_bit n a XOR b) AND m"
  have shifted: "bit (drop_bit n (push_bit n y)) k \<longleftrightarrow> n + k < 32 \<and> bit y k" for y :: "32 word" and k
    by (auto simp: bit_simps)
  have "n + k < 32" if "bit m k" for k
    using that shifted [of m k] assms(1) by simp
  then have "drop_bit n (push_bit n (x AND m)) = x AND m" for x
    by (intro bit_eqI) (auto simp: shifted bit_and_iff)
  then have w: "drop_bit n (push_bit n ?w) = ?w" .
  have cd: "c = a XOR push_bit n ?w" "d = b XOR ?w"
    using assms(2) by (simp_all add: exchange_bits_def Let_def)
  have "drop_bit n c XOR d = (drop_bit n a XOR b) XOR (drop_bit n (push_bit n ?w) XOR ?w)"
    unfolding cd drop_bit_xor by (simp only: ac_simps)
  also have "\<dots> = drop_bit n a XOR b" using w by simp
  finally show ?thesis by (simp add: exchange_bits_def Let_def cd xor.assoc)
qed

lemma masks: "drop_bit 4 (push_bit 4 0x0f0f0f0f) = (0x0f0f0f0f :: 32 word)" "drop_bit 16 (push_bit 16 0x0000ffff) = (0x0000ffff :: 32 word)"
  "drop_bit 2 (push_bit 2 0x33333333) = (0x33333333 :: 32 word)" "drop_bit 8 (push_bit 8 0x00ff00ff) = (0x00ff00ff :: 32 word)"
  "drop_bit 0 (push_bit 0 0xaaaaaaaa) = (0xaaaaaaaa :: 32 word)"
  by simp_all

lemma bit_rotate_left: "n < 32 \<Longrightarrow> bit (rotate_left w) n = bit w (if n = 0 then 31 else n - 1)"
  unfolding rotate_left_def by (auto simp: bit_simps bit_1_iff simp del: One_nat_def push_bit_Suc)

lemma bit_rotate_right: "n < 32 \<Longrightarrow> bit (rotate_right w) n = bit w (if n = 31 then 0 else n + 1)"
  unfolding rotate_right_def using bit_imp_le_length [of w 32] by (auto simp: bit_simps ac_simps simp del: One_nat_def)

lemma rotate_undo:
  "rotate_left (rotate_right w) = w"
proof (rule bit_word_eqI)
  fix n :: nat
  assume "n < LENGTH(32)"
  then show "bit (rotate_left (rotate_right w)) n = bit w n"
    by (cases "n = 0") (auto simp: bit_rotate_left bit_rotate_right)
qed

lemma exchange_bits_swap: "exchange_bits 0 m x y = prod.swap (exchange_bits 0 m y x)"
  by (simp add: exchange_bits_def Let_def xor.commute)

lemma permutations_undo:
  assumes "final_permutation l r = (b0, b1)"
  shows "initial_permutation b0 b1 = (r, l)"
proof -
  define r1 where "r1 = rotate_right r"
  obtain l2 r2 where 2: "exchange_bits 0 0xaaaaaaaa l r1 = (l2, r2)" by (meson surj_pair)
  define l3 where "l3 = rotate_right l2"
  obtain l4 r4 where 4: "exchange_bits 8 0x00ff00ff l3 r2 = (l4, r4)" by (meson surj_pair)
  obtain l5 r5 where 5: "exchange_bits 2 0x33333333 l4 r4 = (l5, r5)" by (meson surj_pair)
  obtain r6 l6 where 6: "exchange_bits 16 0x0000ffff r5 l5 = (r6, l6)" by (meson surj_pair)
  obtain r7 l7 where 7: "exchange_bits 4 0x0f0f0f0f r6 l6 = (r7, l7)" by (meson surj_pair)
  have b: "b0 = r7" "b1 = l7"
    using assms unfolding final_permutation_def Let_def r1_def [symmetric] 2 prod.case l3_def [symmetric] 4 5 6 7 by simp_all
  have undo0: "exchange_bits 0 0xaaaaaaaa r2 l2 = (r1, l)"
    unfolding exchange_bits_swap [of _ r2] exchange_undo [OF masks(5) 2] prod.swap_def by simp
  have rot: "rotate_left l3 = l2" "rotate_left r1 = r"
    unfolding l3_def r1_def by (rule rotate_undo)+
  show ?thesis
    unfolding initial_permutation_def Let_def b exchange_undo [OF masks(1) 7] prod.case exchange_undo [OF masks(2) 6]
      exchange_undo [OF masks(3) 5] exchange_undo [OF masks(4) 4] rot undo0 ..
qed

text \<open>The other way round: the final permutation undoes the initial one.\<close>

lemma rotate_redo: "rotate_right (rotate_left w) = w"
proof (rule bit_word_eqI)
  fix n :: nat
  assume "n < LENGTH(32)"
  then show "bit (rotate_right (rotate_left w)) n = bit w n"
    by (cases "n = 31") (auto simp: bit_rotate_left bit_rotate_right)
qed

lemma permutations_redo:
  assumes "initial_permutation b0 b1 = (l, r)"
  shows "final_permutation r l = (b0, b1)"
proof -
  obtain l1 r1 where 1: "exchange_bits 4 0x0f0f0f0f b0 b1 = (l1, r1)" by (meson surj_pair)
  obtain l2 r2 where 2: "exchange_bits 16 0x0000ffff l1 r1 = (l2, r2)" by (meson surj_pair)
  obtain r3 l3 where 3: "exchange_bits 2 0x33333333 r2 l2 = (r3, l3)" by (meson surj_pair)
  obtain r4 l4 where 4: "exchange_bits 8 0x00ff00ff r3 l3 = (r4, l4)" by (meson surj_pair)
  define r5 where "r5 = rotate_left r4"
  obtain l6 r6 where 6: "exchange_bits 0 0xaaaaaaaa l4 r5 = (l6, r6)" by (meson surj_pair)
  have b: "l = rotate_left l6" "r = r6"
    using assms unfolding initial_permutation_def Let_def 1 prod.case 2 3 4 r5_def [symmetric] 6 by simp_all
  have undo0: "exchange_bits 0 0xaaaaaaaa r6 l6 = (r5, l4)"
    unfolding exchange_bits_swap [of _ r6] exchange_undo [OF masks(5) 6] prod.swap_def by simp
  have rot: "rotate_right r5 = r4" unfolding r5_def by (rule rotate_redo)
  show ?thesis
    unfolding final_permutation_def Let_def b rotate_redo undo0 prod.case rot exchange_undo [OF masks(4) 4]
      exchange_undo [OF masks(3) 3] exchange_undo [OF masks(2) 2] exchange_undo [OF masks(1) 1] ..
qed

section \<open>Blocks\<close>

lemma desfunc_undo:
  assumes "length ks = 16"
  shows "desfunc (desfunc blk (key_words ks)) (key_words (rev ks)) = blk"
proof -
  obtain l r where i: "initial_permutation (fst blk) (snd blk) = (l, r)" by (meson surj_pair)
  obtain l' r' where f: "feistels ks (l, r) = (l', r')" by (meson surj_pair)
  obtain b0 b1 where b: "final_permutation l' r' = (b0, b1)" by (meson surj_pair)
  have "desfunc blk (key_words ks) = (b0, b1)"
    using assms by (simp add: desfunc_def i des_rounds_feistels f b)
  moreover have "feistels (rev ks) (r', l') = (r, l)"
    using feistels_undo [of ks "(l, r)"] f by simp
  then have "desfunc (b0, b1) (key_words (rev ks)) = final_permutation r l"
    using assms by (simp add: desfunc_def permutations_undo [OF b] des_rounds_feistels)
  moreover have "final_permutation r l = blk"
    using permutations_redo [OF i] by simp
  ultimately show ?thesis by simp
qed

text \<open>Bytes and words.\<close>

lemma bit_byte_less: "bit (b :: 8 word) n \<Longrightarrow> n < 8"
  using bit_imp_le_length by force

lemma unscrun_scrunch:
  assumes "length bs = 8"
  shows "unscrun (scrunch bs) = bs"
proof -
  from assms obtain a b c d e f g h where bs: "bs = [a, b, c, d, e, f, g, h]"
    by (auto simp: length_Suc_conv eval_nat_numeral)
  have "ucast (drop_bit 24 (push_bit 24 (ucast p) OR push_bit 16 (ucast q) OR push_bit 8 (ucast r) OR ucast s :: 32 word) AND 0xff) = (p :: 8 word)"
    "ucast (drop_bit 16 (push_bit 24 (ucast p) OR push_bit 16 (ucast q) OR push_bit 8 (ucast r) OR ucast s :: 32 word) AND 0xff) = (q :: 8 word)"
    "ucast (drop_bit 8 (push_bit 24 (ucast p) OR push_bit 16 (ucast q) OR push_bit 8 (ucast r) OR ucast s :: 32 word) AND 0xff) = (r :: 8 word)"
    "ucast ((push_bit 24 (ucast p) OR push_bit 16 (ucast q) OR push_bit 8 (ucast r) OR ucast s :: 32 word) AND 0xff) = (s :: 8 word)"
    for p q r s :: "8 word"
    by (rule bit_word_eqI; auto simp: and_255 bit_simps dest: bit_byte_less)+
  then show ?thesis by (simp add: bs unscrun_def scrunch_def)
qed

lemma scrunch_unscrun: "scrunch (unscrun w) = w"
proof -
  have "push_bit 24 (ucast (ucast (drop_bit 24 x AND 0xff) :: 8 word)) OR push_bit 16 (ucast (ucast (drop_bit 16 x AND 0xff) :: 8 word)) OR
      push_bit 8 (ucast (ucast (drop_bit 8 x AND 0xff) :: 8 word)) OR ucast (ucast (x AND 0xff) :: 8 word) = (x :: 32 word)" for x :: "32 word"
  proof (rule bit_word_eqI)
    fix n :: nat
    assume "n < LENGTH(32)"
    then consider "n < 8" | "8 \<le> n \<and> n < 16" | "16 \<le> n \<and> n < 24" | "24 \<le> n \<and> n < 32" by fastforce
    then show "bit (push_bit 24 (ucast (ucast (drop_bit 24 x AND 0xff) :: 8 word)) OR push_bit 16 (ucast (ucast (drop_bit 16 x AND 0xff) :: 8 word)) OR
        push_bit 8 (ucast (ucast (drop_bit 8 x AND 0xff) :: 8 word)) OR ucast (ucast (x AND 0xff) :: 8 word) :: 32 word) n = bit x n"
      by cases (auto simp: and_255 bit_simps)
  qed
  then show ?thesis by (simp add: unscrun_def scrunch_def)
qed

lemma length_unscrun [simp]: "length (unscrun w) = 8"
  by (simp add: unscrun_def)

lemma length_des [simp]: "length (des knL bs) = 8"
  by (simp add: des_def)

lemma des_undo: "length ks = 16 \<Longrightarrow> length bs = 8 \<Longrightarrow> des (key_words (rev ks)) (des (key_words ks) bs) = bs"
  by (simp add: des_def scrunch_unscrun desfunc_undo unscrun_scrunch)

section \<open>Key schedule\<close>

text \<open>The two words of round \<open>i\<close>.\<close>

definition round_key :: "8 word list \<Rightarrow> nat \<Rightarrow> 32 word \<times> 32 word" where
  "round_key hexKey i =
     (let pcr = rotate_halves (select_bits hexKey) (totrot ! i)
      in (cook0 (raw_key pcr 0) (raw_key pcr 24), cook1 (raw_key pcr 0) (raw_key pcr 24)))"

definition raw_pair :: "8 word list \<Rightarrow> nat \<Rightarrow> 32 word \<times> 32 word" where
  "raw_pair hexKey i =
     (let pcr = rotate_halves (select_bits hexKey) (totrot ! i) in (raw_key pcr 0, raw_key pcr 24))"

lemma update_pair: "length xs = m \<Longrightarrow> (xs @ p # q # ys)[m := a, m + 1 := b] = xs @ a # b # ys"
  by (auto simp: list_update_append)

lemma two_more: "m + 1 < length xs \<Longrightarrow> drop m xs = xs ! m # xs ! (m + 1) # drop (m + 2) xs"
  by (simp add: Cons_nth_drop_Suc)

lemma store_encrypt:
  "length kn = 32 \<Longrightarrow> n \<le> 16 \<Longrightarrow>
    foldl (\<lambda>kn i. store_raw ENCRYPT (select_bits k) i kn) kn [0..<n] = key_words (map (raw_pair k) [0..<n]) @ drop (2 * n) kn"
proof (induction n)
  case (Suc n)
  have "drop (2 * n) kn = kn ! (2 * n) # kn ! (2 * n + 1) # drop (2 * Suc n) kn"
    using Suc.prems two_more [of "2 * n" kn] by simp
  with Suc show ?case
    by (simp add: store_raw_def Let_def raw_pair_def update_pair [simplified])
qed simp

lemma store_decrypt:
  "length kn = 32 \<Longrightarrow> n \<le> 16 \<Longrightarrow>
    foldl (\<lambda>kn i. store_raw DECRYPT (select_bits k) i kn) kn [0..<n] = take (32 - 2 * n) kn @ key_words (map (raw_pair k) (rev [0..<n]))"
proof (induction n)
  case (Suc n)
  have m: "32 - 2 * n = 2 * (15 - n) + 2" "32 - 2 * Suc n = 2 * (15 - n)" using Suc.prems by auto
  have "take (32 - 2 * n) kn = take (2 * (15 - n)) kn @ [kn ! (2 * (15 - n)), kn ! (2 * (15 - n) + 1)]"
    using Suc.prems unfolding m by (simp add: take_Suc_conv_app_nth)
  with Suc show ?case
    by (simp add: store_raw_def Let_def raw_pair_def update_pair [simplified] m diff_mult_distrib2)
qed simp

lemma cookey_pairs: "cookey (key_words ks) = key_words (map (\<lambda>k. (cook0 (fst k) (snd k), cook1 (fst k) (snd k))) ks)"
  by (induction ks rule: key_words.induct) auto

lemma deskey_encrypt: "length kn = 32 \<Longrightarrow> deskey kn k ENCRYPT = key_words (map (round_key k) [0..<16])"
  by (auto simp: deskey_def store_encrypt cookey_pairs raw_pair_def round_key_def Let_def intro!: arg_cong [of _ _ key_words])

lemma deskey_decrypt: "length kn = 32 \<Longrightarrow> deskey kn k DECRYPT = key_words (rev (map (round_key k) [0..<16]))"
  by (auto simp: deskey_def store_decrypt cookey_pairs raw_pair_def round_key_def Let_def rev_map intro!: arg_cong [of _ _ key_words])

section \<open>Buffers\<close>

fun des_blocks :: "32 word list \<Rightarrow> nat \<Rightarrow> bytes \<Rightarrow> bytes" where
  "des_blocks knL 0 bs = []"
| "des_blocks knL (Suc n) bs = des knL (take 8 bs) @ des_blocks knL n (drop 8 bs)"

lemma length_des_blocks [simp]: "length (des_blocks knL n bs) = 8 * n"
  by (induction n arbitrary: bs) auto

lemma des_blocks_undo:
  assumes "length ks = 16"
  shows "8 * n \<le> length bs \<Longrightarrow> des_blocks (key_words (rev ks)) n (des_blocks (key_words ks) n bs) = take (8 * n) bs"
proof (induction n arbitrary: bs)
  case (Suc n)
  have "take (8 * Suc n) bs = take 8 bs @ take (8 * n) (drop 8 bs)" by (simp add: take_add)
  with Suc assms show ?case by (simp add: des_undo)
qed simp

text \<open>
  The loop over a buffer, from offset \<open>i\<close>: the blocks are replaced one after another, and the source ahead is not
  touched when it is the destination or apart from it.
\<close>

lemma store_blocks:
  assumes "0 \<le> q" "nat q + 8 + 8 * n \<le> length b" "length D = 8" "length E = 8 * n"
  shows "take (nat (q + 8)) (take (nat q) b @ D @ drop (nat q + 8) b) @ E @ drop (nat (q + 8) + 8 * n) (take (nat q) b @ D @ drop (nat q + 8) b) =
    take (nat q) b @ (D @ E) @ drop (nat q + 8 * Suc n) b"
  using assms by (simp add: nat_add_distrib add.commute add.left_commute)

lemma source_ahead:
  assumes "0 \<le> p" "0 \<le> q" "nat p + 8 + m \<le> length b" "nat q + 8 + m \<le> length b" "length D = 8" "p = q \<or> apart (8 + int m) p q"
  shows "take m (drop (nat (p + 8)) (take (nat q) b @ D @ drop (nat q + 8) b)) = take m (drop (nat (p + 8)) b)"
proof (rule nth_equalityI)
  have "length (take (nat q) b @ D @ drop (nat q + 8) b) = length b"
    using assms(4,5) by simp
  then show "length (take m (drop (nat (p + 8)) (take (nat q) b @ D @ drop (nat q + 8) b))) = length (take m (drop (nat (p + 8)) b))"
    by (simp only: length_take length_drop)
next
  fix i
  assume "i < length (take m (drop (nat (p + 8)) (take (nat q) b @ D @ drop (nat q + 8) b)))"
  then have i: "i < m" by (simp only: length_take min_less_iff_conj)
  have "(take (nat q) b @ D @ drop (nat q + 8) b) ! (nat p + 8 + i) = b ! (nat p + 8 + i)"
    using nth_patch [of "nat q" D b "nat p + 8 + i"] assms i by (auto simp: apart_def)
  moreover have "nat p + 8 + i \<le> length (take (nat q) b @ D @ drop (nat q + 8) b)" "nat (p + 8) = nat p + 8"
    using assms i by auto
  ultimately show "take m (drop (nat (p + 8)) (take (nat q) b @ D @ drop (nat q + 8) b)) ! i = take m (drop (nat (p + 8)) b) ! i"
    using assms i by (simp add: add.assoc del: drop_append take_append)
qed

lemma des_buffer_blocks:
  assumes "0 \<le> src" "0 \<le> dst"
  shows "src + int i + 8 * int n \<le> int (length b) \<Longrightarrow> dst + int i + 8 * int n \<le> int (length b) \<Longrightarrow>
    src = dst \<or> apart (8 * int n) (src + int i) (dst + int i) \<Longrightarrow>
    des_buffer knL dst src i (i + 8 * n) b =
      Some (take (nat (dst + int i)) b @ des_blocks knL n (take (8 * n) (drop (nat (src + int i)) b)) @ drop (nat (dst + int i) + 8 * n) b)"
proof (induction n arbitrary: i b)
  case 0
  then show ?case by (subst des_buffer.simps) simp
next
  case (Suc n)
  let ?p = "src + int i" and ?q = "dst + int i"
  let ?D = "des knL (take 8 (drop (nat ?p) b))"
  let ?b = "take (nat ?q) b @ ?D @ drop (nat ?q + 8) b"
  have nn: "0 \<le> ?p" "0 \<le> ?q" using assms by auto
  have fit: "nat ?p + 8 + 8 * n \<le> length b" "nat ?q + 8 + 8 * n \<le> length b" using Suc.prems(1,2) nn by auto
  have len: "length ?b = length b" using fit(2) by simp
  have step: "load ?p 8 b = Some (take 8 (drop (nat ?p) b))" "store ?q ?D b = Some ?b"
    using fit nn by (auto simp: load_def store_def in_block_def)
  have aw: "?p = ?q \<or> apart (8 + int (8 * n)) ?p ?q" using Suc.prems(3) by auto
  have src: "take (8 * n) (drop (nat (?p + 8)) ?b) = take (8 * n) (drop (nat (?p + 8)) b)"
    by (rule source_ahead) (use nn fit aw in auto)
  have "src + int (i + 8) + 8 * int n \<le> int (length ?b)" "dst + int (i + 8) + 8 * int n \<le> int (length ?b)"
    "src = dst \<or> apart (8 * int n) (src + int (i + 8)) (dst + int (i + 8))"
    using Suc.prems unfolding len by (auto simp: apart_def)
  moreover have e: "src + int (i + 8) = ?p + 8" "dst + int (i + 8) = ?q + 8" by simp_all
  ultimately have rest: "des_buffer knL dst src (i + 8) (i + 8 + 8 * n) ?b =
      Some (take (nat (?q + 8)) ?b @ des_blocks knL n (take (8 * n) (drop (nat (?p + 8)) b)) @ drop (nat (?q + 8) + 8 * n) ?b)"
    using Suc.IH [of "i + 8" ?b] by (simp only: e src)
  have "take (8 * Suc n) (drop (nat ?p) b) = take 8 (drop (nat ?p) b) @ take (8 * n) (drop (nat (?p + 8)) b)"
    using nn by (simp add: take_add nat_add_distrib add.commute)
  then have blocks: "des_blocks knL (Suc n) (take (8 * Suc n) (drop (nat ?p) b)) = ?D @ des_blocks knL n (take (8 * n) (drop (nat (?p + 8)) b))"
    using fit(1) by simp
  have "des_buffer knL dst src i (i + 8 * Suc n) b = des_buffer knL dst src (i + 8) (i + 8 + 8 * n) ?b"
    by (subst des_buffer.simps) (simp add: step add.assoc)
  also have "\<dots> = Some (take (nat ?q) b @ (?D @ des_blocks knL n (take (8 * n) (drop (nat (?p + 8)) b))) @ drop (nat ?q + 8 * Suc n) b)"
    unfolding rest by (rule arg_cong [of _ _ Some], rule store_blocks) (use nn fit in auto)
  finally show ?case unfolding blocks .
qed

text \<open>Encryption at one place and decryption from there to another, or in place.\<close>

lemma load_stored: "0 \<le> q \<Longrightarrow> nat q + length E \<le> length b \<Longrightarrow> load q (int (length E)) (take (nat q) b @ E @ drop (nat q + length E) b) = Some E"
  by (auto simp: load_def in_block_def)

lemma crypt_blocks:
  assumes "in_block src (8 * int n) b" "in_block dst (8 * int n) b" "src = dst \<or> apart (8 * int n) src dst" "load src (8 * int n) b = Some bs"
  shows "\<exists>b'. des_buffer knL dst src 0 (8 * n) b = Some b' \<and> length b' = length b \<and> load dst (8 * int n) b' = Some (des_blocks knL n bs)"
proof (intro exI conjI)
  let ?b = "take (nat dst) b @ des_blocks knL n bs @ drop (nat dst + 8 * n) b"
  have bs: "bs = take (8 * n) (drop (nat src) b)" using assms(1,4) by (auto simp: load_def nat_mult_distrib split: if_splits)
  show "des_buffer knL dst src 0 (8 * n) b = Some ?b"
    using des_buffer_blocks [of src dst 0 n b knL] assms(1-3) by (auto simp: in_block_def bs)
  show "length ?b = length b" using assms(2) by (auto simp: in_block_def)
  show "load dst (8 * int n) ?b = Some (des_blocks knL n bs)"
    using load_stored [of dst "des_blocks knL n bs" b] assms(2) by (auto simp: in_block_def)
qed

lemma des_roundtrip_ok:
  assumes mem: "length kn = 32" "length kn' = 32" and src: "load src (8 * int n) b = Some bs"
    and places: "in_block dst (8 * int n) b" "in_block dst' (8 * int n) b"
    and apart: "src = dst \<or> apart (8 * int n) src dst" "dst = dst' \<or> apart (8 * int n) dst dst'"
  shows "\<exists>b1 b2. DesCrypt_encrypt kn dst src (8 * n) key b = Some (b1, clearKey) \<and>
    DesCrypt_decrypt kn' dst' dst (8 * n) key b1 = Some (b2, clearKey) \<and> load dst' (8 * int n) b2 = Some bs"
proof -
  let ?ks = "map (round_key key) [0..<16]"
  obtain b1 where b1: "des_buffer (key_words ?ks) dst src 0 (8 * n) b = Some b1" "length b1 = length b"
      "load dst (8 * int n) b1 = Some (des_blocks (key_words ?ks) n bs)"
    using crypt_blocks [OF load_some [OF src] places(1) apart(1) src] by blast
  have "in_block dst (8 * int n) b1" "in_block dst' (8 * int n) b1"
    using places in_block_length [OF b1(2)] by simp_all
  from crypt_blocks [OF this apart(2) b1(3)] obtain b2 where
    "des_buffer (key_words (rev ?ks)) dst' dst 0 (8 * n) b1 = Some b2"
    "load dst' (8 * int n) b2 = Some (des_blocks (key_words (rev ?ks)) n (des_blocks (key_words ?ks) n bs))" by blast
  moreover have "length bs = 8 * n" using src by (auto simp: load_def in_block_def nat_mult_distrib split: if_splits)
  ultimately show ?thesis
    using b1(1) mem by (simp add: DesCrypt_encrypt_def DesCrypt_decrypt_def deskey_encrypt deskey_decrypt des_blocks_undo)
qed

end
