(* ===== verification/VncPass.thy ===== *)
theory VncPass
  imports DesCorrect
begin

text \<open>
  Passwords: \<open>util/VncPassCrypt.cpp\<close>, which keeps a password under a fixed key in the configuration
  and checks the response to a challenge, and the bytes that the viewer makes of a password, \<open>viewer-core/VncAuthentication.cpp\<close>.
  \<open>kn\<close> is the array that \<open>deskey\<close> finds on the stack.
\<close>

section \<open>The class VncPassCrypt\<close>

definition m_key :: "8 word list" where "m_key = [23, 82, 107, 6, 35, 78, 88, 7]"

text \<open>Source and destination are here two arrays: they lie one after the other in the memory of the model.\<close>

definition encrypt_array :: "32 word list \<Rightarrow> bytes \<Rightarrow> bytes \<Rightarrow> nat \<Rightarrow> 8 word list \<Rightarrow> bytes option" where
  "encrypt_array kn dst src dataLen key =
     map_option (\<lambda>(b, _). drop (length src) b) (DesCrypt_encrypt kn (int (length src)) 0 dataLen key (src @ dst))"

definition decrypt_array :: "32 word list \<Rightarrow> bytes \<Rightarrow> bytes \<Rightarrow> nat \<Rightarrow> 8 word list \<Rightarrow> bytes option" where
  "decrypt_array kn dst src dataLen key =
     map_option (\<lambda>(b, _). drop (length src) b) (DesCrypt_decrypt kn (int (length src)) 0 dataLen key (src @ dst))"

text \<open>The state of an object is its plain password.\<close>

definition VncPassCrypt_new :: bytes where
  "VncPassCrypt_new = replicate 8 0"

definition updatePlain :: "32 word list \<Rightarrow> bytes \<Rightarrow> bytes \<Rightarrow> bytes option" where
  "updatePlain kn cryptedPass plainPassword = decrypt_array kn plainPassword cryptedPass (length plainPassword) m_key"

text \<open>
  \<open>sizeof(encryptedPass)\<close> is that of a pointer, \<open>psize\<close>, since the array is a parameter.
\<close>

definition getEncryptedPass :: "nat \<Rightarrow> 32 word list \<Rightarrow> bytes \<Rightarrow> bytes \<Rightarrow> bytes option" where
  "getEncryptedPass psize kn encryptedPass plainPassword = encrypt_array kn encryptedPass plainPassword psize m_key"

definition getPlainPass :: "nat \<Rightarrow> 32 word list \<Rightarrow> bytes \<Rightarrow> bytes \<Rightarrow> bytes option" where
  "getPlainPass psize kn plainPassword encryptedPass = decrypt_array kn plainPassword encryptedPass psize m_key"

text \<open>\<open>cryptedChallenge\<close> is the local array.\<close>

definition challengeAndResponseIsValid :: "32 word list \<Rightarrow> bytes \<Rightarrow> bytes \<Rightarrow> bytes \<Rightarrow> bytes \<Rightarrow> bool option" where
  "challengeAndResponseIsValid kn cryptedChallenge challenge response plainPassword =
     (case encrypt_array kn cryptedChallenge challenge 16 plainPassword of
        None \<Rightarrow> None
      | Some cryptedChallenge \<Rightarrow> Some (cryptedChallenge = take 16 response))"

definition clearPlainPass :: "bytes \<Rightarrow> bytes" where
  "clearPlainPass plainPassword = replicate (length plainPassword) 0"

section \<open>The viewer\<close>

definition VNC_PASSWORD_SIZE :: nat where "VNC_PASSWORD_SIZE = 8"

text \<open>
  The characters are cut to eight, converted to bytes by Windows (\<open>to_ansi\<close>), and cut or filled with zeros to eight.
\<close>

definition password_bytes :: "(16 word list \<Rightarrow> bytes) \<Rightarrow> 16 word list \<Rightarrow> bytes" where
  "password_bytes to_ansi password =
     (let truncatedPass = take VNC_PASSWORD_SIZE password;
          passwordAnsi = to_ansi truncatedPass;
          n = min (length passwordAnsi) VNC_PASSWORD_SIZE
      in take n passwordAnsi @ drop n (replicate VNC_PASSWORD_SIZE 0))"

section \<open>Arrays\<close>

lemma load_first: "length src = 8 * n \<Longrightarrow> load 0 (8 * int n) (src @ dst) = Some src"
  by (simp add: load_def in_block_def nat_mult_distrib)

lemma arrays:
  assumes "length src = 8 * n" "length dst = 8 * n" "length kn = 32"
  shows "encrypt_array kn dst src (8 * n) key = Some (des_blocks (key_words (map (round_key key) [0..<16])) n src)"
    and "decrypt_array kn dst src (8 * n) key = Some (des_blocks (key_words (rev (map (round_key key) [0..<16]))) n src)"
proof -
  have "\<exists>b'. des_buffer knL (8 * int n) 0 0 (8 * n) (src @ dst) = Some b' \<and> drop (8 * n) b' = des_blocks knL n src" for knL
  proof -
    obtain b' where b': "des_buffer knL (8 * int n) 0 0 (8 * n) (src @ dst) = Some b'" "length b' = length (src @ dst)"
        "load (8 * int n) (8 * int n) b' = Some (des_blocks knL n src)"
      using crypt_blocks [where knL = knL and dst = "8 * int n", OF _ _ _ load_first [OF assms(1), where dst = dst]] assms by (auto simp: in_block_def apart_def)
    then have "drop (8 * n) b' = des_blocks knL n src" using assms by (auto simp: load_def nat_mult_distrib split: if_splits)
    with b'(1) show ?thesis by blast
  qed
  from this [of "key_words (map (round_key key) [0..<16])"] this [of "key_words (rev (map (round_key key) [0..<16]))"]
  show "encrypt_array kn dst src (8 * n) key = Some (des_blocks (key_words (map (round_key key) [0..<16])) n src)"
    "decrypt_array kn dst src (8 * n) key = Some (des_blocks (key_words (rev (map (round_key key) [0..<16]))) n src)"
    using assms by (auto simp: encrypt_array_def decrypt_array_def DesCrypt_encrypt_def DesCrypt_decrypt_def deskey_encrypt deskey_decrypt)
qed

text \<open>The loop does one block for each started eight bytes, so a count that is not a multiple of eight is rounded up.\<close>

lemma one_block:
  assumes "0 < k" "k \<le> 8"
  shows "des_buffer knL dst src 0 k b = des_buffer knL dst src 0 8 b"
proof -
  have last: "des_buffer knL dst src 8 m b = Some b" if "m \<le> 8" for m b
    using that by (subst des_buffer.simps) simp
  have "des_buffer knL dst src 0 m b = (case load src 8 b of None \<Rightarrow> None | Some from \<Rightarrow> store dst (des knL from) b)" if "0 < m" "m \<le> 8" for m
    using that by (subst des_buffer.simps) (simp add: last split: option.split)
  from this [OF assms] this [of 8] show ?thesis by simp
qed

lemma array_one_block: "0 < k \<Longrightarrow> k \<le> 8 \<Longrightarrow> encrypt_array kn dst src k key = encrypt_array kn dst src 8 key"
  "0 < k \<Longrightarrow> k \<le> 8 \<Longrightarrow> decrypt_array kn dst src k key = decrypt_array kn dst src 8 key"
  by (simp_all add: encrypt_array_def decrypt_array_def DesCrypt_encrypt_def DesCrypt_decrypt_def one_block [of k])

text \<open>A password that is stored and read back, by either of the two methods.\<close>

lemma stored_and_read:
  assumes "length pw = 8" "length enc = 8" "length arr = 8" "length kn = 32" "length kn' = 32" "0 < psize" "psize \<le> 8"
  shows "\<exists>c. getEncryptedPass psize kn enc pw = Some c \<and> getPlainPass psize kn' arr c = Some pw \<and> updatePlain kn' c arr = Some pw"
proof -
  let ?c = "des_blocks (key_words (map (round_key m_key) [0..<16])) 1 pw"
  have undo: "des_blocks (key_words (rev (map (round_key m_key) [0..<16]))) 1 ?c = pw"
    using des_blocks_undo [of "map (round_key m_key) [0..<16]" 1 pw] assms(1) by simp
  have "encrypt_array kn enc pw 8 m_key = Some ?c" using arrays(1) [of pw 1 enc kn m_key] assms by simp
  moreover have "decrypt_array kn' arr ?c 8 m_key = Some pw" using arrays(2) [of ?c 1 arr kn' m_key] assms undo by simp
  ultimately show ?thesis
    using array_one_block [OF assms(6,7)] assms(3) by (simp add: getEncryptedPass_def getPlainPass_def updatePlain_def)
qed

end
