(* ===== verification/Conversation.thy ===== *)
theory Conversation
  imports DataStreams
begin

text \<open>
  Code that talks over a pair of streams and may throw. The state is an object with a stream to
  read from and one to write to. A result is an exception or a value, with the state at that point, since a handler
  goes on from there; \<open>None\<close> is a stream that throws or does not return, which no handler of the
  modelled code catches.
\<close>

section \<open>Operations\<close>

text \<open>The two classes of \<open>util/Exception.h\<close> and \<open>rfb-sconn/AuthException.h\<close> with their messages.\<close>

datatype exn = Exn string | AuthExn string

primrec getMessage :: "exn \<Rightarrow> string" where
  "getMessage (Exn msg) = msg"
| "getMessage (AuthExn msg) = msg"

type_synonym ('o, 'i, 'w, 'a) conv = "'o \<times> 'i \<times> 'w \<Rightarrow> ((exn + 'a) \<times> 'o \<times> 'i \<times> 'w) option"

definition conv_return :: "'a \<Rightarrow> ('o, 'i, 'w, 'a) conv" where
  "conv_return v s = Some (Inr v, s)"

definition conv_throw :: "exn \<Rightarrow> ('o, 'i, 'w, 'a) conv" where
  "conv_throw e s = Some (Inl e, s)"

definition conv_bind :: "('o, 'i, 'w, 'a) conv \<Rightarrow> ('a \<Rightarrow> ('o, 'i, 'w, 'b) conv) \<Rightarrow> ('o, 'i, 'w, 'b) conv" where
  "conv_bind f g s =
     (case f s of
        None \<Rightarrow> None
      | Some (Inl e, s) \<Rightarrow> Some (Inl e, s)
      | Some (Inr v, s) \<Rightarrow> g v s)"

abbreviation conv_then :: "('o, 'i, 'w, 'a) conv \<Rightarrow> ('o, 'i, 'w, 'b) conv \<Rightarrow> ('o, 'i, 'w, 'b) conv" where
  "conv_then f g \<equiv> conv_bind f (\<lambda>_. g)"

text \<open>\<open>catch\<close> for every exception and for \<open>AuthException\<close> only; the handler throws again.\<close>

definition conv_catch :: "('o, 'i, 'w, 'a) conv \<Rightarrow> (exn \<Rightarrow> ('o, 'i, 'w, unit) conv) \<Rightarrow> ('o, 'i, 'w, 'a) conv" where
  "conv_catch f h s =
     (case f s of
        None \<Rightarrow> None
      | Some (Inl e, s) \<Rightarrow> conv_then (h e) (conv_throw e) s
      | Some (Inr v, s) \<Rightarrow> Some (Inr v, s))"

definition conv_catch_auth :: "('o, 'i, 'w, 'a) conv \<Rightarrow> (exn \<Rightarrow> ('o, 'i, 'w, unit) conv) \<Rightarrow> ('o, 'i, 'w, 'a) conv" where
  "conv_catch_auth f h = conv_catch f (\<lambda>e. case e of Exn _ \<Rightarrow> conv_return () | AuthExn _ \<Rightarrow> h e)"

definition conv_in :: "('i \<Rightarrow> ('a \<times> 'i) option) \<Rightarrow> ('o, 'i, 'w, 'a) conv" where
  "conv_in f s = (case s of (ob, i, w) \<Rightarrow> (case f i of None \<Rightarrow> None | Some (v, i) \<Rightarrow> Some (Inr v, ob, i, w)))"

definition conv_out :: "('w \<Rightarrow> 'w option) \<Rightarrow> ('o, 'i, 'w, unit) conv" where
  "conv_out f s = (case s of (ob, i, w) \<Rightarrow> (case f w of None \<Rightarrow> None | Some w \<Rightarrow> Some (Inr (), ob, i, w)))"

definition conv_get :: "('o \<Rightarrow> 'a) \<Rightarrow> ('o, 'i, 'w, 'a) conv" where
  "conv_get f s = Some (Inr (f (fst s)), s)"

definition conv_modify :: "('o \<Rightarrow> 'o) \<Rightarrow> ('o, 'i, 'w, unit) conv" where
  "conv_modify f s = (case s of (ob, io) \<Rightarrow> Some (Inr (), f ob, io))"

text \<open>A computation that may go wrong in memory.\<close>

definition conv_opt :: "'a option \<Rightarrow> ('o, 'i, 'w, 'a) conv" where
  "conv_opt x s = map_option (\<lambda>v. (Inr v, s)) x"

lemmas conv_defs = conv_return_def conv_throw_def conv_bind_def conv_catch_def conv_catch_auth_def conv_in_def conv_out_def
  conv_get_def conv_modify_def conv_opt_def

section \<open>Strings in UTF-8\<close>

text \<open>
  \<open>DataOutputStream::writeUTF8\<close> and \<open>DataInputStream::readUTF8\<close>; the conversions of Windows, which may fail, are parameters.
\<close>

definition writeUTF8 :: "'w writer \<Rightarrow> (string \<Rightarrow> bytes option) \<Rightarrow> string \<Rightarrow> ('o, 'i, 'w, unit) conv" where
  "writeUTF8 wr to_utf8 str =
     (case to_utf8 str of
        None \<Rightarrow> conv_throw (Exn ''Cannot convert a string to the UTF8 format'')
      | Some utf8String \<Rightarrow>
          conv_then (conv_out (writeUInt32 wr (of_nat (length utf8String)))) (conv_out (writeFully wr utf8String)))"

definition readUTF8 :: "'i reader \<Rightarrow> (bytes \<Rightarrow> string option) \<Rightarrow> ('o, 'i, 'w, string) conv" where
  "readUTF8 rd of_utf8 =
     conv_bind (conv_in (readUInt32 rd)) (\<lambda>sizeInBytes.
       if sizeInBytes > 0 then
         conv_bind (conv_in (readFully rd (unat sizeInBytes))) (\<lambda>buffer.
           case of_utf8 buffer of
             None \<Rightarrow> conv_throw (Exn ''Cannot convert a string from the UTF8 format'')
           | Some str \<Rightarrow> conv_return str)
       else conv_return [])"

section \<open>What a conversation does\<close>

context stream_pair
begin

text \<open>
  \<open>talks ob f I W r ob'\<close>: from the object \<open>ob\<close>, on a stream that starts with \<open>I\<close>, \<open>f\<close> reads \<open>I\<close>, writes
  \<open>W\<close> and ends with the result \<open>r\<close> and the object \<open>ob'\<close>.
\<close>

definition talks :: "'o \<Rightarrow> ('o, 'i, 'w, 'a) conv \<Rightarrow> bytes \<Rightarrow> bytes \<Rightarrow> exn + 'a \<Rightarrow> 'o \<Rightarrow> bool" where
  "talks ob f I W r ob' \<longleftrightarrow>
     (\<forall>i w rest. valid i \<longrightarrow> pending i = I @ rest \<longrightarrow> ready w \<longrightarrow>
       (\<exists>i' w'. f (ob, i, w) = Some (r, ob', i', w') \<and> valid i' \<and> pending i' = rest \<and> ready w' \<and> sent w' = sent w @ W))"

lemma talks_obtain:
  assumes "talks ob f I W r ob'" "valid i" "pending i = I @ rest" "ready w"
  obtains i' w' where "f (ob, i, w) = Some (r, ob', i', w')" "valid i'" "pending i' = rest" "ready w'" "sent w' = sent w @ W"
  using assms unfolding talks_def by blast

lemma talks_return: "talks ob (conv_return v) [] [] (Inr v) ob"
  by (simp add: talks_def conv_return_def)

lemma talks_throw: "talks ob (conv_throw e) [] [] (Inl e) ob"
  by (simp add: talks_def conv_throw_def)

lemma talks_get: "talks ob (conv_get f) [] [] (Inr (f ob)) ob"
  by (simp add: talks_def conv_get_def)

lemma talks_modify: "talks ob (conv_modify f) [] [] (Inr ()) (f ob)"
  by (simp add: talks_def conv_modify_def)

lemma talks_opt: "talks ob (conv_opt (Some v)) [] [] (Inr v) ob"
  by (simp add: talks_def conv_opt_def)

lemma talks_in: "inp.gets f bs v \<Longrightarrow> talks ob (conv_in f) bs [] (Inr v) ob"
  unfolding talks_def inp.gets_def conv_in_def by fastforce

lemma talks_out: "out.puts f bs \<Longrightarrow> talks ob (conv_out f) [] bs (Inr ()) ob"
  unfolding talks_def out.puts_def conv_out_def by fastforce

lemma talks_bind:
  assumes f: "talks ob f I W (Inr v) ob1" and g: "talks ob1 (g v) I' W' r ob2"
  shows "talks ob (conv_bind f g) (I @ I') (W @ W') r ob2"
  unfolding talks_def
proof (intro allI impI)
  fix i w rest assume iw: "valid i" "pending i = (I @ I') @ rest" "ready w"
  then obtain i1 w1 where 1: "f (ob, i, w) = Some (Inr v, ob1, i1, w1)" "valid i1" "pending i1 = I' @ rest" "ready w1" "sent w1 = sent w @ W"
    using talks_obtain [OF f iw(1) _ iw(3), of "I' @ rest"] by auto
  obtain i2 w2 where "g v (ob1, i1, w1) = Some (r, ob2, i2, w2)" "valid i2" "pending i2 = rest" "ready w2" "sent w2 = sent w1 @ W'"
    using talks_obtain [OF g 1(2,3,4)] .
  with 1 show "\<exists>i' w'. conv_bind f g (ob, i, w) = Some (r, ob2, i', w') \<and> valid i' \<and> pending i' = rest \<and> ready w' \<and> sent w' = sent w @ W @ W'"
    by (simp add: conv_bind_def)
qed

lemma talks_bind_throw: "talks ob f I W (Inl e) ob1 \<Longrightarrow> talks ob (conv_bind f g) I W (Inl e) ob1"
  unfolding talks_def conv_bind_def by fastforce

lemma talks_catch_return: "talks ob f I W (Inr v) ob1 \<Longrightarrow> talks ob (conv_catch f h) I W (Inr v) ob1"
  unfolding talks_def conv_catch_def by fastforce

lemma talks_catch_throw:
  assumes f: "talks ob f I W (Inl e) ob1" and h: "talks ob1 (h e) I' W' (Inr ()) ob2"
  shows "talks ob (conv_catch f h) (I @ I') (W @ W') (Inl e) ob2"
  unfolding talks_def
proof (intro allI impI)
  fix i w rest assume iw: "valid i" "pending i = (I @ I') @ rest" "ready w"
  then obtain i1 w1 where 1: "f (ob, i, w) = Some (Inl e, ob1, i1, w1)" "valid i1" "pending i1 = I' @ rest" "ready w1" "sent w1 = sent w @ W"
    using talks_obtain [OF f iw(1) _ iw(3), of "I' @ rest"] by auto
  obtain i2 w2 where "h e (ob1, i1, w1) = Some (Inr (), ob2, i2, w2)" "valid i2" "pending i2 = rest" "ready w2" "sent w2 = sent w1 @ W'"
    using talks_obtain [OF h 1(2,3,4)] .
  with 1 show "\<exists>i' w'. conv_catch f h (ob, i, w) = Some (Inl e, ob2, i', w') \<and> valid i' \<and> pending i' = rest \<and> ready w' \<and> sent w' = sent w @ W @ W'"
    by (simp add: conv_catch_def conv_bind_def conv_throw_def)
qed

lemma talks_cong: "talks ob f I W r ob' \<Longrightarrow> I = I' \<Longrightarrow> W = W' \<Longrightarrow> r = r' \<Longrightarrow> ob' = ob'' \<Longrightarrow> talks ob f I' W' r' ob''"
  by simp

lemma talks_write: "talks ob (conv_out (writeFully wr bs)) [] bs (Inr ()) ob"
  by (rule talks_out [OF out.writeFully_puts])

lemma talks_numbers:
  "talks ob (conv_out (writeUInt8 wr a)) [] [a] (Inr ()) ob"
  "talks ob (conv_out (writeUInt16 wr b)) [] (be16 b) (Inr ()) ob"
  "talks ob (conv_out (writeUInt32 wr c)) [] (be32 c) (Inr ()) ob"
  "talks ob (conv_in (readUInt8 rd)) [a] [] (Inr a) ob"
  "talks ob (conv_in (readUInt16 rd)) (be16 b) [] (Inr b) ob"
  "talks ob (conv_in (readUInt32 rd)) (be32 c) [] (Inr c) ob"
  by (rule talks_out talks_in out.numbers_puts inp.readUInt8_gets inp.readUInt16_gets inp.readUInt32_gets)+

lemma talks_read: "length bs = n \<Longrightarrow> talks ob (conv_in (readFully rd n)) bs [] (Inr bs) ob"
  using talks_in [OF inp.readFully_gets [of bs]] by simp

lemma talks_then: "talks ob f I W (Inr v) ob1 \<Longrightarrow> talks ob1 g I' W' r ob2 \<Longrightarrow> talks ob (conv_then f g) (I @ I') (W @ W') r ob2"
  by (rule talks_bind)

lemma talks_if: "talks ob f I W r ob' \<Longrightarrow> c \<Longrightarrow> talks ob (if c then f else g) I W r ob'"
  by simp

lemma talks_else: "talks ob g I W r ob' \<Longrightarrow> \<not> c \<Longrightarrow> talks ob (if c then f else g) I W r ob'"
  by simp

lemma writeUTF8_talks:
  "to_utf8 str = Some u \<Longrightarrow> talks ob (writeUTF8 wr to_utf8 str) [] (be32 (of_nat (length u)) @ u) (Inr ()) ob"
  using talks_then [OF talks_numbers(3) talks_write] by (fastforce simp: writeUTF8_def)

lemma readUTF8_talks:
  assumes "of_utf8 u = Some str" "u \<noteq> []" "length u < 2 ^ 32"
  shows "talks ob (readUTF8 rd of_utf8) (be32 (of_nat (length u)) @ u) [] (Inr str) ob"
proof -
  have len: "unat (of_nat (length u) :: 32 word) = length u" using assms(3) by (intro unat_of_nat32) simp
  then have pos: "(0 :: 32 word) < of_nat (length u)" using assms(2) by (simp add: word_less_nat_alt)
  have "talks ob (conv_bind (conv_in (readFully rd (unat (of_nat (length u) :: 32 word)))) (\<lambda>buffer.
      case of_utf8 buffer of
        None \<Rightarrow> conv_throw (Exn ''Cannot convert a string from the UTF8 format'')
      | Some str \<Rightarrow> conv_return str)) (u @ []) ([] @ []) (Inr str) ob"
    by (rule talks_bind [OF talks_read]) (simp_all add: len assms(1) talks_return)
  with pos show ?thesis
    unfolding readUTF8_def by (intro talks_cong [OF talks_bind [OF talks_numbers(6) [of ob "of_nat (length u)"]]]) simp_all
qed

end

end
