(* ===== verification/Capabilities.thy ===== *)
theory Capabilities
  imports Conversation
begin

text \<open>
  The capabilities that server and viewer announce: \<open>rfb-sconn/CapContainer.cpp\<close> of the server,
  \<open>viewer-core/CapsContainer.cpp\<close> of the viewer, and the constants of \<open>rfb/AuthDefs.h\<close>. The lock of the viewer's
  container is not modelled: each method is one step.
\<close>

section \<open>Constants\<close>

definition SecurityDefs_INVALID :: "32 word" where "SecurityDefs_INVALID = 0"
definition SecurityDefs_NONE :: "32 word" where "SecurityDefs_NONE = 1"
definition SecurityDefs_VNC :: "32 word" where "SecurityDefs_VNC = 2"
definition SecurityDefs_TIGHT :: "32 word" where "SecurityDefs_TIGHT = 16"
definition AuthDefs_NONE :: "32 word" where "AuthDefs_NONE = 1"
definition AuthDefs_VNC :: "32 word" where "AuthDefs_VNC = 2"
definition NOTUNNEL :: "32 word" where "NOTUNNEL = 0"

lemmas auth_defs = SecurityDefs_INVALID_def SecurityDefs_NONE_def SecurityDefs_VNC_def SecurityDefs_TIGHT_def
  AuthDefs_NONE_def AuthDefs_VNC_def NOTUNNEL_def

definition chars :: "string \<Rightarrow> bytes" where
  "chars s = map of_char s"

definition SIG_VNC :: bytes where "SIG_VNC = chars ''VNCAUTH_''"
definition VENDOR_STANDARD :: bytes where "VENDOR_STANDARD = chars ''STDV''"

lemma signature_lengths: "length VENDOR_STANDARD = 4" "length SIG_VNC = 8"
  by (simp_all add: VENDOR_STANDARD_def SIG_VNC_def chars_def)

definition convertFromAuthType :: "32 word \<Rightarrow> 32 word" where
  "convertFromAuthType authType =
     (if authType = AuthDefs_NONE then SecurityDefs_NONE
      else if authType = AuthDefs_VNC then SecurityDefs_VNC
      else SecurityDefs_INVALID)"

definition convertFromSecurityType :: "32 word \<Rightarrow> 32 word" where
  "convertFromSecurityType securityType =
     (if securityType = SecurityDefs_NONE then AuthDefs_NONE
      else if securityType = SecurityDefs_VNC then AuthDefs_VNC
      else 0)"

section \<open>The server\<close>

text \<open>The structure \<open>Cap\<close>, which the viewer calls \<open>RfbCapabilityInfo\<close>.\<close>

record cap =
  cap_code :: "32 word"
  vendorSignature :: bytes
  nameSignature :: bytes

definition addCap :: "32 word \<Rightarrow> bytes \<Rightarrow> bytes \<Rightarrow> cap list \<Rightarrow> cap list" where
  "addCap code vendor name caps = caps @ [\<lparr>cap_code = code, vendorSignature = take 4 vendor, nameSignature = take 8 name\<rparr>]"

definition getCapCount :: "cap list \<Rightarrow> 32 word" where
  "getCapCount caps = of_nat (length caps)"

primrec sendCaps :: "'s writer \<Rightarrow> cap list \<Rightarrow> 's \<Rightarrow> 's option" where
  "sendCaps wr [] s = Some s"
| "sendCaps wr (c # cs) s =
     (case writeUInt32 wr (cap_code c) s of None \<Rightarrow> None | Some s \<Rightarrow>
     (case writeFully wr (vendorSignature c) s of None \<Rightarrow> None | Some s \<Rightarrow>
     (case writeFully wr (nameSignature c) s of None \<Rightarrow> None | Some s \<Rightarrow> sendCaps wr cs s)))"

definition caps_includes :: "32 word \<Rightarrow> cap list \<Rightarrow> bool" where
  "caps_includes code caps \<longleftrightarrow> list_ex (\<lambda>c. cap_code c = code) caps"

section \<open>The viewer\<close>

record caps_container =
  infoMap :: "32 word \<Rightarrow> cap option"
  descMap :: "32 word \<Rightarrow> string option"
  enableMap :: "32 word \<Rightarrow> bool option"
  plist :: "32 word list"

definition CapsContainer_new :: caps_container where
  "CapsContainer_new = \<lparr>infoMap = \<lambda>_. None, descMap = \<lambda>_. None, enableMap = \<lambda>_. None, plist = []\<rparr>"

definition caps_add :: "cap \<Rightarrow> string \<Rightarrow> caps_container \<Rightarrow> caps_container" where
  "caps_add capinfo desc cc =
     cc\<lparr>infoMap := (infoMap cc)(cap_code capinfo \<mapsto> capinfo),
        enableMap := (enableMap cc)(cap_code capinfo \<mapsto> False),
        descMap := (descMap cc)(cap_code capinfo \<mapsto> desc)\<rparr>"

definition caps_add_code :: "32 word \<Rightarrow> bytes \<Rightarrow> bytes \<Rightarrow> string \<Rightarrow> caps_container \<Rightarrow> caps_container" where
  "caps_add_code code vendor name desc cc =
     caps_add \<lparr>cap_code = code, vendorSignature = take 4 vendor, nameSignature = take 8 name\<rparr> desc cc"

definition isKnown :: "32 word \<Rightarrow> caps_container \<Rightarrow> bool" where
  "isKnown code cc \<longleftrightarrow> descMap cc code \<noteq> None"

definition getInfo :: "32 word \<Rightarrow> caps_container \<Rightarrow> cap option" where
  "getInfo code cc = (if isKnown code cc then infoMap cc code else None)"

definition getDescription :: "32 word \<Rightarrow> caps_container \<Rightarrow> string" where
  "getDescription code cc = (case descMap cc code of Some desc \<Rightarrow> desc | None \<Rightarrow> [])"

text \<open>A missing entry of a \<open>std::map\<close> is made up of zeros.\<close>

definition known_cap :: "32 word \<Rightarrow> caps_container \<Rightarrow> cap" where
  "known_cap code cc =
     (case infoMap cc code of
        Some c \<Rightarrow> c
      | None \<Rightarrow> \<lparr>cap_code = 0, vendorSignature = replicate 4 0, nameSignature = replicate 8 0\<rparr>)"

definition caps_enable :: "cap \<Rightarrow> caps_container \<Rightarrow> bool \<times> caps_container" where
  "caps_enable capinfo cc =
     (let code = cap_code capinfo; known = known_cap code cc in
      if \<not> isKnown code cc then (False, cc)
      else if vendorSignature known \<noteq> vendorSignature capinfo \<or> nameSignature known \<noteq> nameSignature capinfo
      then (False, cc\<lparr>enableMap := (enableMap cc)(code \<mapsto> False)\<rparr>)
      else (True, cc\<lparr>enableMap := (enableMap cc)(code \<mapsto> True), plist := plist cc @ [code]\<rparr>))"

definition isEnabled :: "32 word \<Rightarrow> caps_container \<Rightarrow> bool" where
  "isEnabled code cc = (if isKnown code cc then enableMap cc code = Some True else False)"

definition numEnabled :: "caps_container \<Rightarrow> nat" where
  "numEnabled cc = length (plist cc)"

definition getByOrder :: "nat \<Rightarrow> caps_container \<Rightarrow> 32 word" where
  "getByOrder idx cc = (if idx < length (plist cc) then plist cc ! idx else 0)"

definition getEnabledCapabilities :: "caps_container \<Rightarrow> 32 word list" where
  "getEnabledCapabilities cc = plist cc"

text \<open>\<open>RemoteViewerCore::readCapability\<close>; what it formats for the log is left out.\<close>

definition readCapability :: "'s reader \<Rightarrow> 's \<Rightarrow> (cap \<times> 's) option" where
  "readCapability rd s =
     (case readUInt32 rd s of None \<Rightarrow> None | Some (code, s) \<Rightarrow>
     (case readFully rd 4 s of None \<Rightarrow> None | Some (vendor, s) \<Rightarrow>
     (case readFully rd 8 s of None \<Rightarrow> None | Some (name, s) \<Rightarrow>
        Some (\<lparr>cap_code = code, vendorSignature = vendor, nameSignature = name\<rparr>, s))))"

text \<open>The loops that read \<open>n\<close> capabilities and enable them.\<close>

primrec read_caps :: "'s reader \<Rightarrow> nat \<Rightarrow> caps_container \<Rightarrow> 's \<Rightarrow> (caps_container \<times> 's) option" where
  "read_caps rd 0 cc s = Some (cc, s)"
| "read_caps rd (Suc n) cc s =
     (case readCapability rd s of None \<Rightarrow> None | Some (c, s) \<Rightarrow> read_caps rd n (snd (caps_enable c cc)) s)"

section \<open>Facts\<close>

definition cap_ok :: "cap \<Rightarrow> bool" where
  "cap_ok c \<longleftrightarrow> length (vendorSignature c) = 4 \<and> length (nameSignature c) = 8"

definition cap_bytes :: "cap \<Rightarrow> bytes" where
  "cap_bytes c = be32 (cap_code c) @ vendorSignature c @ nameSignature c"

text \<open>The maps of the viewer's container have the same keys, and every listed code is one of them.\<close>

definition caps_ok :: "caps_container \<Rightarrow> bool" where
  "caps_ok cc \<longleftrightarrow> dom (infoMap cc) = dom (descMap cc) \<and> dom (enableMap cc) = dom (descMap cc) \<and> set (plist cc) \<subseteq> dom (descMap cc) \<and>
     (\<forall>code c. infoMap cc code = Some c \<longrightarrow> cap_code c = code) \<and>
     (\<forall>code. enableMap cc code = Some True \<longrightarrow> code \<in> set (plist cc))"

lemma caps_new_ok: "caps_ok CapsContainer_new"
  by (simp add: caps_ok_def CapsContainer_new_def)

lemma caps_add_ok: "caps_ok cc \<Longrightarrow> caps_ok (caps_add c desc cc)"
  by (auto simp: caps_ok_def caps_add_def)

lemma caps_enable_ok: "caps_ok cc \<Longrightarrow> caps_ok (snd (caps_enable c cc))"
  by (auto simp: caps_ok_def caps_enable_def Let_def isKnown_def)

lemma caps_enable_known:
  assumes "caps_ok cc" "infoMap cc (cap_code c) = Some c"
  shows "fst (caps_enable c cc)" "isEnabled (cap_code c) (snd (caps_enable c cc))" "plist (snd (caps_enable c cc)) = plist cc @ [cap_code c]"
proof -
  have "cap_code c \<in> dom (descMap cc)" using assms unfolding caps_ok_def by blast
  then have known: "isKnown (cap_code c) cc" "known_cap (cap_code c) cc = c"
    using assms(2) by (auto simp: isKnown_def known_cap_def)
  then have "caps_enable c cc = (True, cc\<lparr>enableMap := (enableMap cc)(cap_code c \<mapsto> True), plist := plist cc @ [cap_code c]\<rparr>)"
    by (simp only: caps_enable_def Let_def simp_thms if_False)
  with known(1) show "fst (caps_enable c cc)" "isEnabled (cap_code c) (snd (caps_enable c cc))" "plist (snd (caps_enable c cc)) = plist cc @ [cap_code c]"
    by (simp_all add: isEnabled_def isKnown_def)
qed

context output_stream
begin

lemma sendCaps_puts: "puts (sendCaps wr cs) (concat (map cap_bytes cs))"
proof (induction cs)
  case Nil
  show ?case using puts_return by (simp add: puts_def)
next
  case (Cons c cs)
  have "puts (\<lambda>s. case writeUInt32 wr (cap_code c) s of None \<Rightarrow> None | Some s \<Rightarrow>
      (case writeFully wr (vendorSignature c) s of None \<Rightarrow> None | Some s \<Rightarrow>
      (case writeFully wr (nameSignature c) s of None \<Rightarrow> None | Some s \<Rightarrow> sendCaps wr cs s)))
    (be32 (cap_code c) @ vendorSignature c @ nameSignature c @ concat (map cap_bytes cs))"
    by (intro puts_then writeUInt32_puts writeFully_puts Cons.IH)
  moreover have "sendCaps wr (c # cs) = (\<lambda>s. case writeUInt32 wr (cap_code c) s of None \<Rightarrow> None | Some s \<Rightarrow>
      (case writeFully wr (vendorSignature c) s of None \<Rightarrow> None | Some s \<Rightarrow>
      (case writeFully wr (nameSignature c) s of None \<Rightarrow> None | Some s \<Rightarrow> sendCaps wr cs s)))"
    by (rule ext) (simp only: sendCaps.simps)
  moreover have "concat (map cap_bytes (c # cs)) = be32 (cap_code c) @ vendorSignature c @ nameSignature c @ concat (map cap_bytes cs)"
    by (simp add: cap_bytes_def)
  ultimately show ?case by (simp only:)
qed

end

context input_stream
begin

lemma readCapability_gets: 
  assumes "cap_ok c"
  shows "gets (readCapability rd) (cap_bytes c) c"
proof -
  have r: "gets (readFully rd 4) (vendorSignature c) (vendorSignature c)" "gets (readFully rd 8) (nameSignature c) (nameSignature c)"
    using assms readFully_gets [of "vendorSignature c"] readFully_gets [of "nameSignature c"] by (simp_all add: cap_ok_def)
  have "gets (\<lambda>s. case readUInt32 rd s of None \<Rightarrow> None | Some (code, s) \<Rightarrow>
      (case readFully rd 4 s of None \<Rightarrow> None | Some (vendor, s) \<Rightarrow>
      (case readFully rd 8 s of None \<Rightarrow> None | Some (name, s) \<Rightarrow>
        Some (\<lparr>cap_code = code, vendorSignature = vendor, nameSignature = name\<rparr>, s)))) (cap_bytes c) c"
    unfolding cap_bytes_def by (rule gets_then [OF readUInt32_gets gets_then [OF r(1) gets_map [OF r(2), THEN gets_value]]]) simp
  then show ?thesis unfolding readCapability_def [abs_def] .
qed

lemma read_caps_gets:
  "list_all cap_ok cs \<Longrightarrow> gets (read_caps rd (length cs) cc) (concat (map cap_bytes cs)) (foldl (\<lambda>cc c. snd (caps_enable c cc)) cc cs)"
proof (induction cs arbitrary: cc)
  case Nil
  show ?case using gets_return by (simp add: gets_def)
next
  case (Cons c cs)
  have "gets (\<lambda>s. case readCapability rd s of None \<Rightarrow> None | Some (c, s) \<Rightarrow> read_caps rd (length cs) (snd (caps_enable c cc)) s)
      (cap_bytes c @ concat (map cap_bytes cs)) (foldl (\<lambda>cc c. snd (caps_enable c cc)) (snd (caps_enable c cc)) cs)"
    using Cons.prems by (intro gets_then [OF readCapability_gets Cons.IH]) simp_all
  moreover have "read_caps rd (length (c # cs)) cc = (\<lambda>s. case readCapability rd s of None \<Rightarrow> None
      | Some (c, s) \<Rightarrow> read_caps rd (length cs) (snd (caps_enable c cc)) s)"
    by (rule ext) (simp only: read_caps.simps list.size add_Suc_right add_0_right)
  ultimately show ?case by (simp only: list.map concat.simps foldl.simps)
qed

end

section \<open>Every container\<close>

text \<open>The containers that a program can build with the methods of the class.\<close>

inductive caps_reachable :: "caps_container \<Rightarrow> bool" where
  new: "caps_reachable CapsContainer_new"
| add: "caps_reachable cc \<Longrightarrow> caps_reachable (caps_add c desc cc)"
| enable: "caps_reachable cc \<Longrightarrow> caps_reachable (snd (caps_enable c cc))"

lemma reachable_ok: "caps_reachable cc \<Longrightarrow> caps_ok cc"
  by (induction rule: caps_reachable.induct) (simp_all add: caps_new_ok caps_add_ok caps_enable_ok)

lemma enabled_listed:
  assumes "caps_ok cc" "isEnabled code cc"
  shows "(\<exists>c. getInfo code cc = Some c \<and> cap_code c = code) \<and> (\<exists>i < numEnabled cc. getByOrder i cc = code)"
proof -
  have known: "isKnown code cc" "enableMap cc code = Some True" using assms(2) by (simp_all add: isEnabled_def split: if_splits)
  then have "code \<in> dom (infoMap cc)" "code \<in> set (plist cc)" using assms(1) by (auto simp: caps_ok_def isKnown_def)
  then obtain c i where "infoMap cc code = Some c" "i < length (plist cc)" "plist cc ! i = code" by (auto simp: in_set_conv_nth)
  moreover from this(1) have "cap_code c = code" using assms(1) unfolding caps_ok_def by blast
  ultimately show ?thesis
    using known(1) by (auto simp: getInfo_def numEnabled_def getByOrder_def)
qed

end
