(* ===== verification/ServerHandshake.thy ===== *)
theory ServerHandshake
  imports Capabilities VncPass Rects
begin

text \<open>
  How the server opens a connection: \<open>rfb-sconn/RfbInitializer.cpp\<close>, every method. What the code asks of
  the configuration, the listener, the socket and Windows is a record of the environment.
\<close>

section \<open>State and environment\<close>

record initializer =
  m_shared :: bool
  m_tightEnabled :: bool
  m_minorVerNum :: nat
  m_viewOnlyAuth :: bool
  m_username :: string

definition RfbInitializer_new :: initializer where
  "RfbInitializer_new = \<lparr>m_shared = False, m_tightEnabled = False, m_minorVerNum = 0, m_viewOnlyAuth = False, m_username = []\<rparr>"

text \<open>
  \<open>onCheckForBan\<close> is asked before and after the authentication (0 and 1), \<open>onCheckAccessControl\<close> may throw.
  \<open>random_number\<close> are the values of \<open>rand\<close>, \<open>to_ansi\<close>, \<open>of_utf8\<close> the conversions of Windows, and
  \<open>stack_words\<close>, \<open>stack_bytes\<close> what local arrays hold.
\<close>

record server_env =
  isUsingAuthentication :: bool
  authAllowed :: bool
  hasPrimaryPassword :: bool
  hasReadOnlyPassword :: bool
  primaryPassword :: bytes
  readOnlyPassword :: bytes
  peer_address :: "32 word"
  isLoopbackConnectionsAllowed :: bool
  isOnlyLoopbackConnectionsAllowed :: bool
  onCheckForBan :: "nat \<Rightarrow> bool"
  onCheckAccessControl :: "exn option"
  peerHost :: string
  random_number :: "nat \<Rightarrow> int"
  computerName :: "string option"
  to_ansi :: "string \<Rightarrow> bytes"
  of_utf8 :: "bytes \<Rightarrow> string option"
  stack_words :: "32 word list"
  stack_bytes :: bytes

type_synonym ('i, 'w, 'a) server = "(initializer, 'i, 'w, 'a) conv"

section \<open>Version\<close>

definition isdigit_byte :: "8 word \<Rightarrow> bool" where
  "isdigit_byte b \<longleftrightarrow> 48 \<le> b \<and> b \<le> 57"

definition three_digits :: "bytes \<Rightarrow> nat \<Rightarrow> nat" where
  "three_digits str k = (unat (str ! k) - 48) * 100 + (unat (str ! (k + 1)) - 48) * 10 + (unat (str ! (k + 2)) - 48)"

definition getProtocolMinorVersion :: "bytes \<Rightarrow> exn + nat" where
  "getProtocolMinorVersion str =
     (if str ! 0 \<noteq> of_char (CHR ''R'') \<or> str ! 1 \<noteq> of_char (CHR ''F'') \<or> str ! 2 \<noteq> of_char (CHR ''B'') \<or> str ! 3 \<noteq> of_char (CHR '' '') \<or>
         \<not> isdigit_byte (str ! 4) \<or> \<not> isdigit_byte (str ! 5) \<or> \<not> isdigit_byte (str ! 6) \<or>
         str ! 7 \<noteq> of_char (CHR ''.'') \<or>
         \<not> isdigit_byte (str ! 8) \<or> \<not> isdigit_byte (str ! 9) \<or> \<not> isdigit_byte (str ! 10) \<or>
         str ! 11 \<noteq> of_char (CHR 0x0A)
      then Inl (Exn ''Invalid format of the RFB version message'')
      else if three_digits str 4 \<noteq> 3 then Inl (Exn ''Unsupported RFB protocol version requested'')
      else Inr (three_digits str 8))"

definition checkForLoopback :: "server_env \<Rightarrow> ('i, 'w, unit) server" where
  "checkForLoopback env =
     (let isLoopback = (peer_address env = 16777343) in
      if isLoopback \<and> \<not> isLoopbackConnectionsAllowed env
      then conv_throw (Exn ''Sorry, loopback connections are not enabled'')
      else if isOnlyLoopbackConnectionsAllowed env \<and> \<not> isLoopback
      then conv_throw (Exn ''Your connection has been rejected'')
      else conv_return ())"

definition checkForBan :: "server_env \<Rightarrow> nat \<Rightarrow> ('i, 'w, unit) server" where
  "checkForBan env call =
     (if onCheckForBan env call then conv_throw (AuthExn ''Your connection has been rejected'') else conv_return ())"

text \<open>The message of an exception, as it is sent in both handlers.\<close>

definition send_reason :: "'w writer \<Rightarrow> server_env \<Rightarrow> exn \<Rightarrow> ('i, 'w, unit) server" where
  "send_reason wr env e =
     (let reason = to_ansi env (getMessage e) in
      conv_then (conv_out (writeUInt32 wr (of_nat (length reason)))) (conv_out (writeFully wr reason)))"

definition initVersionMsg :: bytes where "initVersionMsg = chars ''RFB 003.008'' @ [10]"

definition initVersion :: "'i reader \<Rightarrow> 'w writer \<Rightarrow> server_env \<Rightarrow> ('i, 'w, unit) server" where
  "initVersion rd wr env =
     conv_then (conv_out (writeFully wr initVersionMsg))
     (conv_bind (conv_in (readFully rd 12)) (\<lambda>clientVersionMsg.
      case getProtocolMinorVersion clientVersionMsg of
        Inl e \<Rightarrow> conv_throw e
      | Inr minor \<Rightarrow>
          conv_then (conv_modify (\<lambda>ob. ob\<lparr>m_minorVerNum := minor\<rparr>))
          (conv_catch (conv_then (checkForLoopback env) (checkForBan env 0))
             (\<lambda>e. conv_bind (conv_get m_minorVerNum) (\<lambda>minor.
                conv_then (if minor = 3 then conv_out (writeUInt32 wr 0) else conv_out (writeUInt8 wr 0))
                  (send_reason wr env e))))))"

section \<open>Authentication\<close>

definition challenge_bytes :: "server_env \<Rightarrow> bytes" where
  "challenge_bytes env = map (\<lambda>i. word_of_int (random_number env i) AND 0xff) [0..<16]"

text \<open>One of the two configured passwords.\<close>

definition try_password :: "server_env \<Rightarrow> bytes \<Rightarrow> bytes \<Rightarrow> bytes \<Rightarrow> bool option" where
  "try_password env crypPass challenge response =
     (case updatePlain (stack_words env) crypPass VncPassCrypt_new of
        None \<Rightarrow> None
      | Some plain \<Rightarrow> challengeAndResponseIsValid (stack_words env) (stack_bytes env) challenge response plain)"

text \<open>The comparison of the response with the configured passwords.\<close>

definition check_response :: "server_env \<Rightarrow> bytes \<Rightarrow> bytes \<Rightarrow> ('i, 'w, unit) server" where
  "check_response env challenge response =
     (if \<not> hasPrimaryPassword env \<and> \<not> hasReadOnlyPassword env
      then conv_throw (AuthExn ''Server is not configured properly'')
      else
        conv_bind (if hasPrimaryPassword env then conv_opt (try_password env (primaryPassword env) challenge response) else conv_return False)
          (\<lambda>valid. if valid then conv_return () else
        conv_bind (if hasReadOnlyPassword env then conv_opt (try_password env (readOnlyPassword env) challenge response) else conv_return False)
          (\<lambda>valid. if valid then conv_modify (\<lambda>ob. ob\<lparr>m_viewOnlyAuth := True\<rparr>) else
        conv_throw (AuthExn (''Authentication failed from '' @ peerHost env)))))"

definition doVncAuth :: "'i reader \<Rightarrow> 'w writer \<Rightarrow> server_env \<Rightarrow> ('i, 'w, unit) server" where
  "doVncAuth rd wr env =
     (let challenge = challenge_bytes env in
      conv_then (conv_out (writeFully wr challenge))
      (conv_bind (conv_in (readFully rd 16)) (\<lambda>response.
       conv_then (checkForBan env 1) (check_response env challenge response))))"

definition doAuthNone :: "('i, 'w, unit) server" where
  "doAuthNone = conv_return ()"

definition doAuth :: "'i reader \<Rightarrow> 'w writer \<Rightarrow> server_env \<Rightarrow> 32 word \<Rightarrow> ('i, 'w, unit) server" where
  "doAuth rd wr env authType =
     conv_then (if authType = AuthDefs_VNC then doVncAuth rd wr env
                else if authType = AuthDefs_NONE then doAuthNone
                else conv_throw (Exn []))
     (conv_then (case onCheckAccessControl env of Some e \<Rightarrow> conv_throw e | None \<Rightarrow> conv_return ())
     (conv_bind (conv_get m_minorVerNum) (\<lambda>minor.
      if minor \<ge> 8 \<or> authType \<noteq> AuthDefs_NONE then conv_out (writeUInt32 wr 0) else conv_return ())))"

definition authInfo :: "cap list" where
  "authInfo = addCap AuthDefs_VNC VENDOR_STANDARD SIG_VNC []"

definition doTightAuth :: "'i reader \<Rightarrow> 'w writer \<Rightarrow> server_env \<Rightarrow> ('i, 'w, unit) server" where
  "doTightAuth rd wr env =
     conv_then (conv_out (writeUInt32 wr 0))
     (if isUsingAuthentication env \<and> authAllowed env then
        conv_then (conv_out (writeUInt32 wr (getCapCount authInfo)))
        (conv_then (conv_out (sendCaps wr authInfo))
        (conv_bind (conv_in (readUInt32 rd)) (\<lambda>clientAuthValue.
         if \<not> caps_includes clientAuthValue authInfo then conv_throw (Exn [])
         else doAuth rd wr env clientAuthValue)))
      else conv_then (conv_out (writeUInt32 wr 0)) (doAuth rd wr env AuthDefs_NONE))"

definition initAuthenticate :: "'i reader \<Rightarrow> 'w writer \<Rightarrow> server_env \<Rightarrow> ('i, 'w, unit) server" where
  "initAuthenticate rd wr env =
     conv_catch_auth
       (let primSecType = (if \<not> isUsingAuthentication env \<or> \<not> authAllowed env then SecurityDefs_NONE else SecurityDefs_VNC) in
        conv_bind (conv_get m_minorVerNum) (\<lambda>minor.
        if minor \<ge> 7 then
          conv_then (conv_out (writeUInt8 wr 2))
          (conv_then (conv_out (writeUInt8 wr (ucast primSecType)))
          (conv_then (conv_out (writeUInt8 wr (ucast SecurityDefs_TIGHT)))
          (conv_bind (conv_in (readUInt8 rd)) (\<lambda>clientSecType.
           if ucast clientSecType = SecurityDefs_TIGHT then
             conv_then (conv_modify (\<lambda>ob. ob\<lparr>m_tightEnabled := True\<rparr>)) (doTightAuth rd wr env)
           else if ucast clientSecType \<noteq> primSecType then conv_throw (Exn ''Security types do not match'')
           else doAuth rd wr env (convertFromSecurityType (ucast clientSecType))))))
        else
          conv_then (conv_out (writeUInt32 wr primSecType)) (doAuth rd wr env (convertFromSecurityType primSecType))))
       (\<lambda>e. conv_bind (conv_get m_minorVerNum) (\<lambda>minor.
          if minor \<ge> 8 then conv_then (conv_out (writeUInt32 wr 1)) (send_reason wr env e) else conv_return ()))"

section \<open>Initialisation\<close>

definition readClientInit :: "'i reader \<Rightarrow> server_env \<Rightarrow> ('i, 'w, unit) server" where
  "readClientInit rd env =
     conv_bind (conv_in (readUInt8 rd)) (\<lambda>flag.
     conv_then (conv_modify (\<lambda>ob. ob\<lparr>m_shared := (flag \<noteq> 0)\<rparr>))
     (conv_bind (conv_get m_minorVerNum) (\<lambda>minor.
      if minor > 8 then
        conv_bind (conv_in (readUInt32 rd)) (\<lambda>usernameSize.
        conv_bind (readUTF8 rd (of_utf8 env)) (\<lambda>username.
        conv_modify (\<lambda>ob. ob\<lparr>m_username := username\<rparr>)))
      else conv_return ())))"

definition authPhase :: "'i reader \<Rightarrow> 'w writer \<Rightarrow> server_env \<Rightarrow> ('i, 'w, unit) server" where
  "authPhase rd wr env = conv_then (initVersion rd wr env) (conv_then (initAuthenticate rd wr env) (readClientInit rd env))"

definition sendServerInit :: "'w writer \<Rightarrow> dimension \<Rightarrow> pixel_format \<Rightarrow> ('i, 'w, unit) server" where
  "sendServerInit wr d pf =
     conv_then (conv_out (writeUInt16 wr (word_of_int (width d))))
     (conv_then (conv_out (writeUInt16 wr (word_of_int (height d))))
     (conv_then (conv_out (writeUInt8 wr (of_nat (bitsPerPixel pf))))
     (conv_then (conv_out (writeUInt8 wr (of_nat (colorDepth pf))))
     (conv_then (conv_out (writeUInt8 wr (if bigEndian pf then 1 else 0)))
     (conv_then (conv_out (writeUInt8 wr 1))
     (conv_then (conv_out (writeUInt16 wr (of_nat (redMax pf))))
     (conv_then (conv_out (writeUInt16 wr (of_nat (greenMax pf))))
     (conv_then (conv_out (writeUInt16 wr (of_nat (blueMax pf))))
     (conv_then (conv_out (writeUInt8 wr (of_nat (redShift pf))))
     (conv_then (conv_out (writeUInt8 wr (of_nat (greenShift pf))))
     (conv_then (conv_out (writeUInt8 wr (of_nat (blueShift pf))))
     (conv_then (conv_out (writeUInt8 wr 0))
     (conv_out (writeUInt16 wr 0))))))))))))))"

definition sendDesktopName :: "'w writer \<Rightarrow> server_env \<Rightarrow> ('i, 'w, unit) server" where
  "sendDesktopName wr env =
     (let deskName = (case computerName env of Some name \<Rightarrow> name | None \<Rightarrow> ''KonturVNC Server'');
          ansiName = to_ansi env deskName
      in conv_then (conv_out (writeUInt32 wr (of_nat (length ansiName)))) (conv_out (writeFully wr ansiName)))"

definition sendInteractionCaps :: "'w writer \<Rightarrow> cap list \<Rightarrow> cap list \<Rightarrow> cap list \<Rightarrow> ('i, 'w, unit) server" where
  "sendInteractionCaps wr srvToClCaps clToSrvCaps encCaps =
     conv_then (conv_out (writeUInt16 wr (ucast (getCapCount srvToClCaps))))
     (conv_then (conv_out (writeUInt16 wr (ucast (getCapCount clToSrvCaps))))
     (conv_then (conv_out (writeUInt16 wr (ucast (getCapCount encCaps))))
     (conv_then (conv_out (writeUInt16 wr 0))
     (conv_then (conv_out (sendCaps wr srvToClCaps))
     (conv_then (conv_out (sendCaps wr clToSrvCaps))
     (conv_out (sendCaps wr encCaps)))))))"

definition afterAuthPhase ::
  "'w writer \<Rightarrow> server_env \<Rightarrow> cap list \<Rightarrow> cap list \<Rightarrow> cap list \<Rightarrow> dimension \<Rightarrow> pixel_format \<Rightarrow> ('i, 'w, unit) server" where
  "afterAuthPhase wr env srvToClCaps clToSrvCaps encCaps d pf =
     conv_then (sendServerInit wr d pf)
     (conv_then (sendDesktopName wr env)
     (conv_bind (conv_get m_tightEnabled) (\<lambda>tight.
      if tight then sendInteractionCaps wr srvToClCaps clToSrvCaps encCaps else conv_return ())))"

end
