(* ===== verification/DecoderStore.thy ===== *)
theory DecoderStore
  imports Prelude "HOL-Library.Product_Lexorder"
begin

text \<open>
  The decoders of the viewer, \<open>viewer-core/DecoderStore.cpp\<close> and \<open>viewer-core/Decoder.cpp\<close>, with the codes of
  \<open>rfb/EncodingDefs.h\<close>: which decoder an encoding has, and the list of encodings that the viewer asks the server for.
\<close>

section \<open>Codes\<close>

definition RAW :: int where "RAW = 0"
definition COPYRECT :: int where "COPYRECT = 1"
definition RRE :: int where "RRE = 2"
definition HEXTILE :: int where "HEXTILE = 5"
definition TIGHT :: int where "TIGHT = 7"
definition ZRLE :: int where "ZRLE = 16"
definition COMPR_LEVEL_0 :: int where "COMPR_LEVEL_0 = -256"
definition QUALITY_LEVEL_0 :: int where "QUALITY_LEVEL_0 = -32"
definition X_CURSOR :: int where "X_CURSOR = -240"
definition RICH_CURSOR :: int where "RICH_CURSOR = -239"
definition POINTER_POS :: int where "POINTER_POS = -232"
definition LAST_RECT :: int where "LAST_RECT = -224"
definition DESKTOP_SIZE :: int where "DESKTOP_SIZE = -223"

lemmas code_defs = RAW_def COPYRECT_def RRE_def HEXTILE_def TIGHT_def ZRLE_def COMPR_LEVEL_0_def QUALITY_LEVEL_0_def
  X_CURSOR_def RICH_CURSOR_def POINTER_POS_def LAST_RECT_def DESKTOP_SIZE_def

text \<open>The decoders of rectangles, and the pseudo decoders, which only announce a code.\<close>

datatype decoder = RawDecoder | CopyRectDecoder | RreDecoder | HexTileDecoder | TightDecoder | ZrleDecoder | PseudoDecoder int

fun getCode :: "decoder \<Rightarrow> int" where
  "getCode RawDecoder = RAW"
| "getCode CopyRectDecoder = COPYRECT"
| "getCode RreDecoder = RRE"
| "getCode HexTileDecoder = HEXTILE"
| "getCode TightDecoder = TIGHT"
| "getCode ZrleDecoder = ZRLE"
| "getCode (PseudoDecoder code) = code"

section \<open>The store\<close>

text \<open>A \<open>std::map\<close> is a list of pairs in the order of the keys.\<close>

type_synonym decoders = "(int \<times> int \<times> decoder) list"

fun map_insert :: "int \<Rightarrow> 'v \<Rightarrow> (int \<times> 'v) list \<Rightarrow> (int \<times> 'v) list" where
  "map_insert k v [] = [(k, v)]"
| "map_insert k v ((k', v') # m) =
     (if k < k' then (k, v) # (k', v') # m
      else if k = k' then (k, v) # m
      else (k', v') # map_insert k v m)"

record decoder_store =
  m_decoders :: decoders
  m_preferredEncoding :: int
  m_allowCopyRect :: bool

definition DecoderStore_new :: decoder_store where
  "DecoderStore_new = \<lparr>m_decoders = [], m_preferredEncoding = TIGHT, m_allowCopyRect = True\<rparr>"

definition getDecoder :: "int \<Rightarrow> decoder_store \<Rightarrow> decoder option" where
  "getDecoder decoderId ds = map_option snd (map_of (m_decoders ds) decoderId)"

text \<open>\<open>sort\<close> with \<open>greater\<close> on pairs of priority and code.\<close>

definition getDecoderIds :: "decoder_store \<Rightarrow> int list" where
  "getDecoderIds ds =
     (let decoders = map (\<lambda>(code, priority, _). (priority, code))
            (filter (\<lambda>(code, _). code \<noteq> m_preferredEncoding ds \<and> (code \<noteq> COPYRECT \<or> m_allowCopyRect ds)) (m_decoders ds));
          decoders = rev (sort decoders);
          sortedDecoders = (if map_of (m_decoders ds) (m_preferredEncoding ds) \<noteq> None then [m_preferredEncoding ds] else []) @ map snd decoders
      in if sortedDecoders = [] then [RAW] else sortedDecoders)"

definition addDecoder :: "decoder \<Rightarrow> int \<Rightarrow> decoder_store \<Rightarrow> bool \<times> decoder_store" where
  "addDecoder d priority ds =
     (if map_of (m_decoders ds) (getCode d) = None
      then (True, ds\<lparr>m_decoders := map_insert (getCode d) (priority, d) (m_decoders ds)\<rparr>)
      else (False, ds))"

definition removeDecoder :: "int \<Rightarrow> decoder_store \<Rightarrow> bool \<times> decoder_store" where
  "removeDecoder decoderId ds =
     (if map_of (m_decoders ds) decoderId \<noteq> None
      then (True, ds\<lparr>m_decoders := filter (\<lambda>(code, _). code \<noteq> decoderId) (m_decoders ds)\<rparr>)
      else (False, ds))"

definition setPreferredEncoding :: "int \<Rightarrow> decoder_store \<Rightarrow> decoder_store" where
  "setPreferredEncoding encodingType ds = ds\<lparr>m_preferredEncoding := encodingType\<rparr>"

definition allowCopyRect :: "bool \<Rightarrow> decoder_store \<Rightarrow> decoder_store" where
  "allowCopyRect allow ds = ds\<lparr>m_allowCopyRect := allow\<rparr>"

text \<open>\<open>Decoder::isPseudo\<close>: the six encodings of rectangles are not; every other code, also an unknown one, is.\<close>

definition isPseudo :: "int \<Rightarrow> bool" where
  "isPseudo encoding \<longleftrightarrow> encoding \<notin> {RAW, COPYRECT, RRE, HEXTILE, TIGHT, ZRLE}"

text \<open>The decoders that \<open>RemoteViewerCore::init\<close> adds, with their priorities.\<close>

definition init_decoders :: "decoder_store \<Rightarrow> decoder_store" where
  "init_decoders ds =
     foldl (\<lambda>ds (d, priority). snd (addDecoder d priority ds)) ds
       [(RawDecoder, 0), (CopyRectDecoder, 10), (RreDecoder, 1), (HexTileDecoder, 4), (TightDecoder, 9), (ZrleDecoder, 9),
        (PseudoDecoder DESKTOP_SIZE, -1), (PseudoDecoder LAST_RECT, -1), (PseudoDecoder POINTER_POS, -1), (PseudoDecoder RICH_CURSOR, -1)]"

section \<open>The store is a map\<close>

definition store_ok :: "decoder_store \<Rightarrow> bool" where
  "store_ok ds \<longleftrightarrow> sorted_wrt (<) (map fst (m_decoders ds)) \<and> (\<forall>(code, _, d) \<in> set (m_decoders ds). getCode d = code)"

lemma map_insert_of: "sorted_wrt (<) (map fst m) \<Longrightarrow> map_of (map_insert k v m) = (map_of m)(k \<mapsto> v)"
  by (induction k v m rule: map_insert.induct) auto

lemma map_insert_set: "sorted_wrt (<) (map fst m) \<Longrightarrow> set (map_insert k v m) = insert (k, v) {x \<in> set m. fst x \<noteq> k}"
  by (induction k v m rule: map_insert.induct) force+

lemma map_insert_sorted: "sorted_wrt (<) (map fst m) \<Longrightarrow> sorted_wrt (<) (map fst (map_insert k v m))"
  by (induction k v m rule: map_insert.induct) (force simp: map_insert_set)+

lemma DecoderStore_new_ok: "store_ok DecoderStore_new"
  by (simp add: store_ok_def DecoderStore_new_def)

lemma addDecoder_ok: "store_ok ds \<Longrightarrow> store_ok (snd (addDecoder d priority ds))"
  by (auto simp: store_ok_def addDecoder_def map_insert_sorted map_insert_set)

lemma removeDecoder_ok: "store_ok ds \<Longrightarrow> store_ok (snd (removeDecoder k ds))"
  by (auto simp: store_ok_def removeDecoder_def sorted_wrt_map intro: sorted_wrt_filter)

lemma setters_ok: "store_ok ds \<Longrightarrow> store_ok (setPreferredEncoding e ds)" "store_ok ds \<Longrightarrow> store_ok (allowCopyRect b ds)"
  by (simp_all add: store_ok_def setPreferredEncoding_def allowCopyRect_def)

lemma init_decoders_ok: "store_ok ds \<Longrightarrow> store_ok (init_decoders ds)"
  unfolding init_decoders_def by (simp add: addDecoder_ok)

lemma getDecoder_code: "store_ok ds \<Longrightarrow> getDecoder e ds = Some d \<Longrightarrow> getCode d = e"
  by (auto simp: store_ok_def getDecoder_def dest!: map_of_SomeD)

lemma getDecoder_add:
  "store_ok ds \<Longrightarrow> getDecoder e (snd (addDecoder d priority ds)) =
    (if e = getCode d \<and> getDecoder e ds = None then Some d else getDecoder e ds)"
  by (auto simp: store_ok_def getDecoder_def addDecoder_def map_insert_of)

section \<open>The list of encodings\<close>

text \<open>The codes that are offered after the preferred one.\<close>

definition offered :: "decoder_store \<Rightarrow> (int \<times> int) set" where
  "offered ds = {(priority, code). \<exists>d. map_of (m_decoders ds) code = Some (priority, d) \<and> code \<noteq> m_preferredEncoding ds \<and>
     (code = COPYRECT \<longrightarrow> m_allowCopyRect ds)}"

lemma sorted_distinct_keys: "sorted_wrt (<) (map fst m) \<Longrightarrow> distinct (map fst (m :: (int \<times> 'v) list))"
  by (induction m) auto

lemma getDecoderIds_ok:
  assumes "store_ok ds"
  shows "\<exists>ps. set ps = offered ds \<and> distinct (map snd ps) \<and> sorted_wrt (\<lambda>a b. b < a) ps \<and>
    (let ids = (if getDecoder (m_preferredEncoding ds) ds \<noteq> None then [m_preferredEncoding ds] else []) @ map snd ps
     in distinct ids \<and> getDecoderIds ds = (if ids = [] then [RAW] else ids))"
proof -
  let ?keep = "filter (\<lambda>(code, _). code \<noteq> m_preferredEncoding ds \<and> (code \<noteq> COPYRECT \<or> m_allowCopyRect ds)) (m_decoders ds)"
  let ?ps = "map (\<lambda>(code, priority, _). (priority, code)) ?keep"
  have keys: "distinct (map fst (m_decoders ds))" using assms sorted_distinct_keys by (auto simp: store_ok_def)
  have snds: "map snd ?ps = map fst ?keep" by (induction "m_decoders ds") auto
  have "distinct (map fst ?keep)" by (rule distinct_map_filter [OF keys])
  then have d: "distinct (map snd ?ps)" unfolding snds .
  then have dp: "distinct ?ps" unfolding distinct_map [of snd] by (rule conjunct1)
  define ps where "ps = rev (sort ?ps)"
  have set: "set ps = offered ds"
    using keys by (force simp: ps_def offered_def map_of_eq_Some_iff)
  have "mset ps = mset ?ps" by (simp add: ps_def)
  then have "mset (map snd ps) = mset (map snd ?ps)" unfolding mset_map by simp
  with d have ds: "distinct (map snd ps)" using mset_eq_imp_distinct_iff by blast
  have "sorted_wrt (<) (sort ?ps)" using dp by (simp add: strict_sorted_iff)
  then have sorted: "sorted_wrt (\<lambda>a b. b < a) ps" by (simp add: ps_def sorted_wrt_rev)
  have "m_preferredEncoding ds \<notin> snd ` set ps" unfolding set by (auto simp: offered_def)
  with ds set sorted show ?thesis
    by (intro exI [of _ ps]) (auto simp: Let_def getDecoder_def getDecoderIds_def ps_def)
qed

end
