(* ===== verification/ViewerHandshake.thy ===== *)
theory ViewerHandshake
  imports Capabilities VncPass DecoderStore RawCodec
begin

text \<open>
  How the viewer opens a connection: the methods of \<open>viewer-core/RemoteViewerCore.cpp\<close> from the
  handshake to the initial messages, with \<open>VncAuthentication.cpp\<close> as its handler for passwords.
\<close>

section \<open>State and environment\<close>

record viewer_core =
  m_major :: int
  m_minor :: int
  m_isTight :: bool
  m_sharedFlag :: bool
  m_authCaps :: caps_container
  m_serverMsgCaps :: caps_container
  m_clientMsgCaps :: caps_container
  m_encodingCaps :: caps_container
  m_decoderStore :: decoder_store
  m_view :: view
  m_isRefreshing :: bool
  m_remoteDesktopName :: string

text \<open>
  \<open>typed_password\<close> is what the user enters, \<open>wide_to_ansi\<close>, \<open>ansi_to_string\<close> and the two for UTF-8 are the
  conversions of Windows, \<open>registered\<close> the decoders registered for capabilities, \<open>fresh\<close> the content of new memory.
\<close>

record viewer_env =
  typed_password :: "16 word list"
  wide_to_ansi :: "16 word list \<Rightarrow> bytes"
  ansi_to_string :: "bytes \<Rightarrow> string"
  viewer_to_utf8 :: "string \<Rightarrow> bytes option"
  viewer_of_utf8 :: "bytes \<Rightarrow> string option"
  peerName :: string
  registered :: "32 word \<Rightarrow> (decoder \<times> int) option"
  viewer_words :: "32 word list"
  viewer_bytes :: bytes
  fresh :: "nat \<Rightarrow> bytes"

type_synonym ('i, 'w, 'a) viewer = "(viewer_core, 'i, 'w, 'a) conv"

section \<open>Protocol version\<close>

definition isdigit_char :: "8 word \<Rightarrow> bool" where
  "isdigit_char b \<longleftrightarrow> 48 \<le> b \<and> b \<le> 57"

definition isspace_char :: "8 word \<Rightarrow> bool" where
  "isspace_char b \<longleftrightarrow> b = 32 \<or> 9 \<le> b \<and> b \<le> 13"

text \<open>\<open>strtol\<close> in base ten; a text of twelve characters cannot leave the range.\<close>

definition decimal :: "bytes \<Rightarrow> int" where
  "decimal digits = foldl (\<lambda>n b. 10 * n + (uint b - 48)) 0 digits"

definition strtol :: "bytes \<Rightarrow> int" where
  "strtol str =
     (case dropWhile isspace_char str of
        [] \<Rightarrow> 0
      | c # cs \<Rightarrow>
          if c = of_char (CHR ''-'') then - decimal (takeWhile isdigit_char cs)
          else if c = of_char (CHR ''+'') then decimal (takeWhile isdigit_char cs)
          else decimal (takeWhile isdigit_char (c # cs)))"

definition isRfbProtocolString :: "bytes \<Rightarrow> bool" where
  "isRfbProtocolString protocol \<longleftrightarrow>
     take 4 protocol = chars ''RFB '' \<and>
     isdigit_char (protocol ! 4) \<and> isdigit_char (protocol ! 5) \<and> isdigit_char (protocol ! 6) \<and>
     protocol ! 7 = of_char (CHR ''.'') \<and>
     isdigit_char (protocol ! 8) \<and> isdigit_char (protocol ! 9) \<and> isdigit_char (protocol ! 10) \<and>
     protocol ! 11 = of_char (CHR 0x0A)"

text \<open>\<open>%03d\<close>.\<close>

fun digits_of :: "nat \<Rightarrow> bytes" where
  "digits_of n = (if n < 10 then [of_nat (48 + n)] else digits_of (n div 10) @ [of_nat (48 + n mod 10)])"

declare digits_of.simps [simp del]

definition format03d :: "int \<Rightarrow> bytes" where
  "format03d i =
     (let ds = digits_of (nat \<bar>i\<bar>); sign = (if i < 0 then [of_char (CHR ''-'')] else [])
      in sign @ replicate (3 - length sign - length ds) 48 @ ds)"

definition getProtocolString :: "viewer_core \<Rightarrow> bytes" where
  "getProtocolString v = chars ''RFB '' @ format03d (m_major v) @ chars ''.'' @ format03d (m_minor v) @ [10]"

text \<open>The choice among the known versions, and the assignment after it.\<close>

definition select_version :: "viewer_core \<Rightarrow> viewer_core" where
  "select_version v =
     (let v = (if m_major v > 3 then v\<lparr>m_major := 3, m_minor := 8\<rparr>
               else let v = (if m_minor v < 7 then v\<lparr>m_minor := 3\<rparr> else v)
                    in if m_minor v \<ge> 8 then v\<lparr>m_minor := 8\<rparr> else v)
      in v\<lparr>m_minor := 9\<rparr>)"

definition handshake :: "'i reader \<Rightarrow> 'w writer \<Rightarrow> viewer_env \<Rightarrow> ('i, 'w, unit) viewer" where
  "handshake rd wr env =
     conv_bind (conv_in (readFully rd 12)) (\<lambda>serverProtocol.
     conv_then (conv_modify (\<lambda>v. v\<lparr>m_major := strtol (drop 4 serverProtocol), m_minor := strtol (drop 8 serverProtocol), m_isTight := False\<rparr>))
     (conv_bind (conv_get (\<lambda>v. (m_major v, m_minor v))) (\<lambda>(major, minor).
      if \<not> isRfbProtocolString serverProtocol \<or> major < 3 \<or> (major = 3 \<and> minor < 3)
      then conv_throw (Exn (''Unsupported protocol: '' @ ansi_to_string env serverProtocol))
      else
        conv_then (conv_modify select_version)
        (conv_bind (conv_get getProtocolString) (\<lambda>clientProtocol. conv_out (writeFully wr (take 12 clientProtocol)))))))"

section \<open>Security\<close>

primrec read_types :: "'i reader \<Rightarrow> nat \<Rightarrow> 32 word list \<Rightarrow> ('i, 'w, 32 word list) viewer" where
  "read_types rd 0 secTypes = conv_return secTypes"
| "read_types rd (Suc n) secTypes = conv_bind (conv_in (readUInt8 rd)) (\<lambda>t. read_types rd n (secTypes @ [ucast t]))"

definition readSecurityTypeList :: "'i reader \<Rightarrow> ('i, 'w, 32 word list) viewer" where
  "readSecurityTypeList rd =
     conv_bind (conv_get m_minor) (\<lambda>minor.
     if minor < 7 then conv_bind (conv_in (readUInt32 rd)) (\<lambda>t. conv_return (if t \<noteq> 0 then [t] else []))
     else conv_bind (conv_in (readUInt8 rd)) (\<lambda>secTypesNumber. read_types rd (unat secTypesNumber) []))"

text \<open>\<open>authHandlers\<close> gives the handler of a type that has one.\<close>

definition selectSecurityType :: "32 word list \<Rightarrow> (32 word \<Rightarrow> 'h option) \<Rightarrow> exn + 32 word" where
  "selectSecurityType secTypes authHandlers =
     (if SecurityDefs_TIGHT \<in> set secTypes then Inr SecurityDefs_TIGHT
      else case List.find (\<lambda>t. authHandlers t \<noteq> None \<or> t = SecurityDefs_NONE) secTypes of
             Some t \<Rightarrow> Inr t
           | None \<Rightarrow> Inl (Exn (''No security types supported. '' @ ''Server sent security types, '' @ ''but we do not support any of their.'')))"

primrec read_tunnels :: "'i reader \<Rightarrow> nat \<Rightarrow> bool \<Rightarrow> ('i, 'w, bool) viewer" where
  "read_tunnels rd 0 hasNoTunnel = conv_return hasNoTunnel"
| "read_tunnels rd (Suc n) hasNoTunnel =
     conv_bind (conv_in (readCapability rd)) (\<lambda>c. read_tunnels rd n (hasNoTunnel \<or> cap_code c = NOTUNNEL))"

definition initTunnelling :: "'i reader \<Rightarrow> 'w writer \<Rightarrow> ('i, 'w, unit) viewer" where
  "initTunnelling rd wr =
     conv_bind (conv_in (readUInt32 rd)) (\<lambda>tunnelCount.
     if tunnelCount > 0 then
       conv_bind (read_tunnels rd (unat tunnelCount) False) (\<lambda>hasNoTunnel.
       if hasNoTunnel then conv_out (writeUInt32 wr NOTUNNEL)
       else conv_throw (Exn ''Viewer support only default tunneling tight-authentication''))
     else conv_return ())"

text \<open>Capabilities are read and enabled in one of the containers of the object.\<close>

primrec read_auth_caps :: "'i reader \<Rightarrow> nat \<Rightarrow> ('i, 'w, unit) viewer" where
  "read_auth_caps rd 0 = conv_return ()"
| "read_auth_caps rd (Suc n) =
     conv_bind (conv_in (readCapability rd)) (\<lambda>c.
     conv_then (conv_modify (\<lambda>v. v\<lparr>m_authCaps := snd (caps_enable c (m_authCaps v))\<rparr>)) (read_auth_caps rd n))"

definition initAuthentication :: "'i reader \<Rightarrow> 'w writer \<Rightarrow> ('i, 'w, 32 word) viewer" where
  "initAuthentication rd wr =
     conv_bind (conv_in (readUInt32 rd)) (\<lambda>authTypesNumber.
     if authTypesNumber = 0 then conv_return AuthDefs_NONE
     else
       conv_then (read_auth_caps rd (unat authTypesNumber))
       (conv_bind (conv_get (\<lambda>v. map (\<lambda>i. getByOrder i (m_authCaps v)) [0..<numEnabled (m_authCaps v)])) (\<lambda>authTypes.
        case authTypes of
          [] \<Rightarrow> conv_throw (Exn (''No security types supported. '' @ ''Server sent security types, but we do not support any of their.''))
        | typeSelected # _ \<Rightarrow> conv_then (conv_out (writeUInt32 wr typeSelected)) (conv_return typeSelected))))"

definition negotiateAboutSecurityType ::
  "'i reader \<Rightarrow> 'w writer \<Rightarrow> (32 word \<Rightarrow> ('i, 'w, unit) viewer option) \<Rightarrow> ('i, 'w, 32 word) viewer" where
  "negotiateAboutSecurityType rd wr authHandlers =
     conv_bind (readSecurityTypeList rd) (\<lambda>secTypes.
     if secTypes = [] then conv_return 0
     else case selectSecurityType secTypes authHandlers of
       Inl e \<Rightarrow> conv_throw e
     | Inr typeSelected \<Rightarrow>
         if typeSelected = SecurityDefs_TIGHT then
           conv_then (conv_modify (\<lambda>v. v\<lparr>m_isTight := True\<rparr>))
           (conv_then (conv_out (writeUInt8 wr (ucast typeSelected)))
           (conv_then (initTunnelling rd wr) (initAuthentication rd wr)))
         else
           conv_bind (conv_get m_minor) (\<lambda>minor.
           conv_then (if minor \<ge> 7 then conv_out (writeUInt8 wr (ucast typeSelected)) else conv_return ())
           (conv_return typeSelected)))"

text \<open>The handler: \<open>VncAuthentication::vncAuthenticate\<close>.\<close>

definition vncAuthenticate :: "'i reader \<Rightarrow> 'w writer \<Rightarrow> viewer_env \<Rightarrow> 16 word list \<Rightarrow> ('i, 'w, unit) viewer" where
  "vncAuthenticate rd wr env password =
     conv_bind (conv_in (readFully rd 16)) (\<lambda>challenge.
     conv_bind (conv_opt (encrypt_array (viewer_words env) (viewer_bytes env) challenge 16 (password_bytes (wide_to_ansi env) password)))
       (\<lambda>response. conv_out (writeFully wr response)))"

definition VncAuthenticationHandler :: "'i reader \<Rightarrow> 'w writer \<Rightarrow> viewer_env \<Rightarrow> 32 word \<Rightarrow> ('i, 'w, unit) viewer option" where
  "VncAuthenticationHandler rd wr env = (\<lambda>_. None)(AuthDefs_VNC \<mapsto> vncAuthenticate rd wr env (typed_password env))"

text \<open>What the user is told when the server refuses.\<close>

definition auth_failure :: "'i reader \<Rightarrow> viewer_env \<Rightarrow> ('i, 'w, unit) viewer" where
  "auth_failure rd env =
     conv_bind (conv_get m_minor) (\<lambda>minor.
     if minor < 8 then conv_throw (AuthExn ''Authentication failure'')
     else conv_bind (readUTF8 rd (viewer_of_utf8 env)) (\<lambda>reasonAuth. conv_throw (AuthExn (''Authentication reason: '' @ reasonAuth))))"

definition authenticate ::
  "'i reader \<Rightarrow> 'w writer \<Rightarrow> viewer_env \<Rightarrow> (32 word \<Rightarrow> ('i, 'w, unit) viewer option) \<Rightarrow> ('i, 'w, unit) viewer" where
  "authenticate rd wr env authHandlers =
     conv_bind (negotiateAboutSecurityType rd wr authHandlers) (\<lambda>authenticationType.
     conv_then (if authenticationType \<noteq> 0 then
                  (case authHandlers authenticationType of
                     Some handler \<Rightarrow> handler
                   | None \<Rightarrow>
                       if authenticationType \<noteq> SecurityDefs_NONE
                       then conv_throw (AuthExn (''Isn't exist authentication handler '' @ ''for selected type of authentication''))
                       else conv_return ())
                else conv_return ())
     (conv_bind (conv_get m_minor) (\<lambda>minor.
      if minor \<ge> 8 \<or> authenticationType \<noteq> SecurityDefs_NONE then
        conv_bind (if authenticationType \<noteq> 0 then conv_in (readUInt32 rd) else conv_return 0) (\<lambda>authResult.
        if authenticationType = 0 \<or> authResult \<noteq> 0 then auth_failure rd env else conv_return ())
      else conv_return ())))"

section \<open>Initial messages\<close>

definition readPixelFormat :: "'i reader \<Rightarrow> ('i, 'w, pixel_format) viewer" where
  "readPixelFormat rd =
     conv_bind (conv_in (readUInt8 rd)) (\<lambda>bpp. conv_bind (conv_in (readUInt8 rd)) (\<lambda>depth.
     conv_bind (conv_in (readUInt8 rd)) (\<lambda>big. conv_bind (conv_in (readUInt8 rd)) (\<lambda>trueColour.
     conv_bind (conv_in (readUInt16 rd)) (\<lambda>rmax. conv_bind (conv_in (readUInt16 rd)) (\<lambda>gmax.
     conv_bind (conv_in (readUInt16 rd)) (\<lambda>bmax.
     conv_bind (conv_in (readUInt8 rd)) (\<lambda>rshift. conv_bind (conv_in (readUInt8 rd)) (\<lambda>gshift.
     conv_bind (conv_in (readUInt8 rd)) (\<lambda>bshift.
     conv_then (conv_in (readUInt8 rd)) (conv_then (conv_in (readUInt8 rd)) (conv_then (conv_in (readUInt8 rd))
     (conv_return \<lparr>bitsPerPixel = unat bpp, colorDepth = unat depth, redMax = unat rmax, greenMax = unat gmax, blueMax = unat bmax,
        redShift = unat rshift, greenShift = unat gshift, blueShift = unat bshift, bigEndian = (big \<noteq> 0)\<rparr>)))))))))))))"

text \<open>Both frame buffers get the properties and become black; the notifier and the recorder are not modelled here.\<close>

definition setFbProperties :: "viewer_env \<Rightarrow> dimension \<Rightarrow> pixel_format \<Rightarrow> ('i, 'w, unit) viewer" where
  "setFbProperties env d pf =
     conv_bind (conv_get m_view) (\<lambda>v.
     conv_bind (conv_opt (setColor 0 0 0 (setProperties (fresh env) d pf (second v)))) (\<lambda>rectangleFb.
     conv_bind (conv_opt (setColor 0 0 0 (setProperties (fresh env) d pf (shown v)))) (\<lambda>frameBuffer.
     conv_modify (\<lambda>ob. ob\<lparr>m_view := v\<lparr>shown := frameBuffer, second := rectangleFb\<rparr>, m_isRefreshing := True\<rparr>))))"

primrec read_caps_into ::
  "'i reader \<Rightarrow> (cap \<Rightarrow> viewer_core \<Rightarrow> viewer_core) \<Rightarrow> nat \<Rightarrow> ('i, 'w, unit) viewer" where
  "read_caps_into rd enable 0 = conv_return ()"
| "read_caps_into rd enable (Suc n) =
     conv_bind (conv_in (readCapability rd)) (\<lambda>c. conv_then (conv_modify (enable c)) (read_caps_into rd enable n))"

text \<open>The decoders of enabled capabilities; one that is not registered would be a null pointer.\<close>

primrec add_registered :: "viewer_env \<Rightarrow> 32 word list \<Rightarrow> decoder_store \<Rightarrow> decoder_store option" where
  "add_registered env [] ds = Some ds"
| "add_registered env (code # codes) ds =
     (case registered env code of
        None \<Rightarrow> None
      | Some (d, priority) \<Rightarrow> add_registered env codes (snd (addDecoder d priority ds)))"

definition readCapabilities :: "'i reader \<Rightarrow> viewer_env \<Rightarrow> ('i, 'w, unit) viewer" where
  "readCapabilities rd env =
     conv_bind (conv_in (readUInt16 rd)) (\<lambda>nServerMessageTypes.
     conv_bind (conv_in (readUInt16 rd)) (\<lambda>nClientMessageTypes.
     conv_bind (conv_in (readUInt16 rd)) (\<lambda>nEncodingTypes.
     conv_then (conv_in (readUInt16 rd))
     (conv_then (read_caps_into rd (\<lambda>c v. v\<lparr>m_serverMsgCaps := snd (caps_enable c (m_serverMsgCaps v))\<rparr>) (unat nServerMessageTypes))
     (conv_then (read_caps_into rd (\<lambda>c v. v\<lparr>m_clientMsgCaps := snd (caps_enable c (m_clientMsgCaps v))\<rparr>) (unat nClientMessageTypes))
     (conv_then (read_caps_into rd (\<lambda>c v. v\<lparr>m_encodingCaps := snd (caps_enable c (m_encodingCaps v))\<rparr>) (unat nEncodingTypes))
     (conv_bind (conv_get (\<lambda>v. add_registered env (plist (m_encodingCaps v)) (m_decoderStore v))) (\<lambda>store.
      conv_bind (conv_opt store) (\<lambda>store. conv_modify (\<lambda>v. v\<lparr>m_decoderStore := store\<rparr>))))))))))"

text \<open>
  The name is read by a single \<open>read\<close>, which may give fewer bytes than asked for; the buffer is zero behind them and
  the string ends at the first zero.
\<close>

definition clientAndServerInit :: "'i reader \<Rightarrow> 'w writer \<Rightarrow> viewer_env \<Rightarrow> ('i, 'w, unit) viewer" where
  "clientAndServerInit rd wr env =
     conv_bind (conv_get m_sharedFlag) (\<lambda>flag.
     conv_then (conv_out (writeUInt8 wr (if flag then 1 else 0)))
     (conv_then (conv_out (writeUInt32 wr (of_nat (length (peerName env)))))
     (conv_then (writeUTF8 wr (viewer_to_utf8 env) (peerName env))
     (conv_bind (conv_in (readUInt16 rd)) (\<lambda>w. conv_bind (conv_in (readUInt16 rd)) (\<lambda>h.
      conv_bind (readPixelFormat rd) (\<lambda>serverPixelFormat.
      conv_then (setFbProperties env \<lparr>width = uint w, height = uint h\<rparr> serverPixelFormat)
      (conv_bind (conv_in (readUInt32 rd)) (\<lambda>sizeInBytes.
       conv_bind (conv_in (rd (unat sizeInBytes))) (\<lambda>name.
       conv_then (conv_modify (\<lambda>v. v\<lparr>m_remoteDesktopName := ansi_to_string env (takeWhile (\<lambda>b. b \<noteq> 0) name)\<rparr>))
       (conv_bind (conv_get m_isTight) (\<lambda>tight. if tight then readCapabilities rd env else conv_return ()))))))))))))"

end
