(* ===== verification/HandshakeCorrect.thy ===== *)
theory HandshakeCorrect
  imports ServerHandshake ViewerHandshake
begin

text \<open>
  Server and viewer understand each other: what one of them writes while a connection is opened is
  what the other one reads. A viewer that has one of the passwords is let in, any other is refused and
  told so; and, whatever a client sends, a server that asks for a password lets only in who answered the challenge.
\<close>

section \<open>Passwords\<close>

text \<open>The response that a password demands, and the password that the server has stored.\<close>

definition des_response :: "8 word list \<Rightarrow> bytes \<Rightarrow> bytes" where
  "des_response password challenge = des_blocks (key_words (map (round_key password) [0..<16])) 2 challenge"

definition stored_password :: "bytes \<Rightarrow> bytes" where
  "stored_password crypPass = des_blocks (key_words (rev (map (round_key m_key) [0..<16]))) 1 crypPass"

lemma length_des_response [simp]: "length (des_response p c) = 16"
  by (simp add: des_response_def)

lemma length_challenge [simp]: "length (challenge_bytes env) = 16"
  by (simp add: challenge_bytes_def)

text \<open>What the stack of the server holds does not matter, only that the arrays have their length.\<close>

definition server_ok :: "server_env \<Rightarrow> bool" where
  "server_ok env \<longleftrightarrow> length (stack_words env) = 32 \<and> length (stack_bytes env) = 16 \<and>
     length (primaryPassword env) = 8 \<and> length (readOnlyPassword env) = 8"

definition viewer_ok :: "viewer_env \<Rightarrow> bool" where
  "viewer_ok env \<longleftrightarrow> length (viewer_words env) = 32 \<and> length (viewer_bytes env) = 16"

lemma try_password_ok:
  assumes "server_ok env" "length crypPass = 8" "length response = 16"
  shows "try_password env crypPass (challenge_bytes env) response = Some (response = des_response (stored_password crypPass) (challenge_bytes env))"
proof -
  have "updatePlain (stack_words env) crypPass VncPassCrypt_new = Some (stored_password crypPass)"
    using arrays(2) [of crypPass 1 VncPassCrypt_new "stack_words env" m_key] assms
    by (simp add: updatePlain_def VncPassCrypt_new_def server_ok_def stored_password_def)
  moreover have "encrypt_array (stack_words env) (stack_bytes env) (challenge_bytes env) 16 key = Some (des_response key (challenge_bytes env))" for key
    using arrays(1) [of "challenge_bytes env" 2 "stack_bytes env" "stack_words env" key] assms by (simp add: server_ok_def des_response_def)
  ultimately show ?thesis
    using assms(3) by (auto simp: try_password_def challengeAndResponseIsValid_def)
qed

text \<open>The judgement on a response: let in, with the view-only flag, or refused.\<close>

definition judgement :: "server_env \<Rightarrow> bytes \<Rightarrow> exn + bool" where
  "judgement env response =
     (if \<not> hasPrimaryPassword env \<and> \<not> hasReadOnlyPassword env then Inl (AuthExn ''Server is not configured properly'')
      else if hasPrimaryPassword env \<and> response = des_response (stored_password (primaryPassword env)) (challenge_bytes env) then Inr False
      else if hasReadOnlyPassword env \<and> response = des_response (stored_password (readOnlyPassword env)) (challenge_bytes env) then Inr True
      else Inl (AuthExn (''Authentication failed from '' @ peerHost env)))"

definition view_only :: "bool \<Rightarrow> initializer \<Rightarrow> initializer" where
  "view_only b ob = (if b then ob\<lparr>m_viewOnlyAuth := True\<rparr> else ob)"

lemma check_response_judgement:
  assumes "server_ok env" "length response = 16"
  shows "check_response env (challenge_bytes env) response = (case judgement env response of Inl e \<Rightarrow> conv_throw e | Inr b \<Rightarrow> conv_modify (view_only b))"
proof -
  have "try_password env (primaryPassword env) (challenge_bytes env) response =
      Some (response = des_response (stored_password (primaryPassword env)) (challenge_bytes env))"
    "try_password env (readOnlyPassword env) (challenge_bytes env) response =
      Some (response = des_response (stored_password (readOnlyPassword env)) (challenge_bytes env))"
    using try_password_ok assms by (auto simp: server_ok_def)
  then show ?thesis
    by (auto simp: check_response_def judgement_def conv_defs view_only_def fun_eq_iff)
qed

text \<open>The password of the viewer, and its answer.\<close>

definition answer :: "viewer_env \<Rightarrow> bytes \<Rightarrow> bytes" where
  "answer env challenge = des_response (password_bytes (wide_to_ansi env) (typed_password env)) challenge"

lemma length_answer [simp]: "length (answer env c) = 16"
  by (simp add: answer_def)

lemma viewer_array:
  "viewer_ok env \<Longrightarrow> length challenge = 16 \<Longrightarrow>
    encrypt_array (viewer_words env) (viewer_bytes env) challenge 16 (password_bytes (wide_to_ansi env) (typed_password env)) = Some (answer env challenge)"
  using arrays(1) [of challenge 2 "viewer_bytes env" "viewer_words env"] by (simp add: viewer_ok_def answer_def des_response_def)

section \<open>Safety\<close>

text \<open>What a successful run of a method has read, on any stream.\<close>

context input_stream
begin

lemma readFully_used: "readFully rd n s = Some (bs, s') \<Longrightarrow> valid s \<Longrightarrow> valid s' \<and> pending s = bs @ pending s' \<and> length bs = n"
proof -
  assume r: "readFully rd n s = Some (bs, s')" "valid s"
  then have "n \<le> length (pending s)" using readFully_end [of s n] by fastforce
  from readFully_ok [OF r(2) this] r this show ?thesis by auto
qed

end

lemma conv_bind_done:
  "conv_bind f g s = Some (Inr v, s') \<longleftrightarrow> (\<exists>u s1. f s = Some (Inr u, s1) \<and> g u s1 = Some (Inr v, s'))"
  by (auto simp: conv_bind_def split: option.splits sum.splits)

lemma conv_catch_done: "conv_catch f h s = Some (Inr v, s') \<longleftrightarrow> f s = Some (Inr v, s')"
  by (auto simp: conv_catch_def conv_bind_def conv_throw_def split: option.splits sum.splits)

lemma conv_in_done: "conv_in f (ob, i, w) = Some (Inr v, s') \<longleftrightarrow> (\<exists>i'. f i = Some (v, i') \<and> s' = (ob, i', w))"
  by (auto simp: conv_in_def split: option.splits)

lemma conv_out_done: "conv_out f (ob, i, w) = Some (Inr v, s') \<longleftrightarrow> (\<exists>w'. f w = Some w' \<and> s' = (ob, i, w'))"
  by (auto simp: conv_out_def split: option.splits)

lemmas conv_done = conv_bind_done conv_catch_done conv_catch_auth_def conv_in_done conv_out_done conv_return_def conv_throw_def conv_get_def conv_modify_def

definition required :: "server_env \<Rightarrow> bool" where
  "required env \<longleftrightarrow> isUsingAuthentication env \<and> authAllowed env"

context input_stream
begin

lemma doVncAuth_done:
  assumes run: "doVncAuth rd wr env (ob, i, w) = Some (Inr (), ob', i', w')" and env: "server_ok env" and i: "valid i"
  shows "\<exists>response b. pending i = response @ pending i' \<and> valid i' \<and> length response = 16 \<and> judgement env response = Inr b \<and> ob' = view_only b ob"
proof -
  from run obtain response i1 w1 where r: "readFully rd 16 i = Some (response, i1)"
    and rest: "check_response env (challenge_bytes env) response (ob, i1, w1) = Some (Inr (), ob', i', w')"
    by (auto simp: doVncAuth_def Let_def conv_done checkForBan_def split: if_splits)
  have u: "pending i = response @ pending i1" "valid i1" "length response = 16" using readFully_used [OF r i] by auto
  from rest obtain b where "judgement env response = Inr b" "ob' = view_only b ob" "i' = i1"
    unfolding check_response_judgement [OF env u(3)] by (auto simp: conv_done split: sum.splits)
  with u show ?thesis by blast
qed

lemma doAuth_done:
  assumes run: "doAuth rd wr env AuthDefs_VNC (ob, i, w) = Some (Inr (), ob', i', w')" and env: "server_ok env" and i: "valid i"
  shows "\<exists>response b. pending i = response @ pending i' \<and> valid i' \<and> length response = 16 \<and> judgement env response = Inr b \<and> ob' = view_only b ob"
proof -
  from run obtain w1 where "doVncAuth rd wr env (ob, i, w) = Some (Inr (), ob', i', w1)"
    by (auto simp: doAuth_def auth_defs conv_done split: if_splits option.splits)
  from doVncAuth_done [OF this env i] show ?thesis .
qed

lemma initAuthenticate_done:
  assumes run: "initAuthenticate rd wr env (ob, i, w) = Some (Inr (), ob', i', w')" and env: "server_ok env" "required env" and i: "valid i"
  shows "\<exists>pre response b. pending i = pre @ response @ pending i' \<and> length response = 16 \<and> judgement env response = Inr b \<and>
    m_viewOnlyAuth ob' = (b \<or> m_viewOnlyAuth ob) \<and> valid i'"
proof -
  have req: "isUsingAuthentication env" "authAllowed env" using env(2) by (simp_all add: required_def)
  have "\<exists>pre i1 ob1 w1. pending i = pre @ pending i1 \<and> valid i1 \<and> m_viewOnlyAuth ob1 = m_viewOnlyAuth ob \<and>
      doAuth rd wr env AuthDefs_VNC (ob1, i1, w1) = Some (Inr (), ob', i', w')"
  proof (cases "7 \<le> m_minorVerNum ob")
    case True
    with run req obtain sectype i1 w1 where r: "readUInt8 rd i = Some (sectype, i1)"
      and rest: "(if ucast sectype = SecurityDefs_TIGHT then conv_then (conv_modify (\<lambda>ob. ob\<lparr>m_tightEnabled := True\<rparr>)) (doTightAuth rd wr env)
           else if ucast sectype \<noteq> SecurityDefs_VNC then conv_throw (Exn ''Security types do not match'')
           else doAuth rd wr env (convertFromSecurityType (ucast sectype))) (ob, i1, w1) = Some (Inr (), ob', i', w')"
      by (auto simp: initAuthenticate_def conv_done Let_def)
    from r obtain buf where "readFully rd 1 i = Some (buf, i1)" by (auto simp: readUInt8_def split: option.splits)
    from readFully_used [OF this i] have u: "pending i = buf @ pending i1" "valid i1" by auto
    show ?thesis
    proof (cases "ucast sectype = SecurityDefs_TIGHT")
      case True
      with rest req obtain v i2 w2 where t: "readUInt32 rd i1 = Some (v, i2)" "caps_includes v authInfo"
        "doAuth rd wr env v (ob\<lparr>m_tightEnabled := True\<rparr>, i2, w2) = Some (Inr (), ob', i', w')"
        by (auto simp: doTightAuth_def conv_done split: if_splits)
      from t(1) obtain buf' where "readFully rd 4 i1 = Some (buf', i2)" by (auto simp: readUInt32_def split: option.splits)
      from readFully_used [OF this u(2)] have u2: "pending i1 = buf' @ pending i2" "valid i2" by auto
      have "v = AuthDefs_VNC" using t(2) by (simp add: caps_includes_def authInfo_def addCap_def)
      with t(3) u u2 show ?thesis
        by (intro exI [of _ "buf @ buf'"] exI [of _ i2] exI [of _ "ob\<lparr>m_tightEnabled := True\<rparr>"] exI [of _ w2]) simp
    next
      case False
      with rest have "doAuth rd wr env AuthDefs_VNC (ob, i1, w1) = Some (Inr (), ob', i', w')"
        by (auto simp: convertFromSecurityType_def auth_defs conv_done split: if_splits)
      with u show ?thesis by blast
    qed
  next
    case False
    with run req obtain w1 where "doAuth rd wr env AuthDefs_VNC (ob, i, w1) = Some (Inr (), ob', i', w')"
      by (auto simp: initAuthenticate_def conv_done Let_def convertFromSecurityType_def auth_defs)
    with i show ?thesis by (intro exI [of _ "[]"]) auto
  qed
  then obtain pre i1 ob1 w1 where 1: "pending i = pre @ pending i1" "valid i1" "m_viewOnlyAuth ob1 = m_viewOnlyAuth ob"
      "doAuth rd wr env AuthDefs_VNC (ob1, i1, w1) = Some (Inr (), ob', i', w')" by blast
  from doAuth_done [OF 1(4) env(1) 1(2)] obtain response b where
    "pending i1 = response @ pending i'" "length response = 16" "judgement env response = Inr b" "ob' = view_only b ob1" "valid i'" by blast
  with 1(1,3) show ?thesis by (intro exI [of _ pre] exI [of _ response] exI [of _ b]) (simp add: view_only_def)
qed

text \<open>The other methods of the phase only take bytes off the front of the stream.\<close>

lemma numbers_used:
  "readUInt8 rd s = Some (a, s') \<Longrightarrow> valid s \<Longrightarrow> valid s' \<and> (\<exists>bs. pending s = bs @ pending s')"
  "readUInt32 rd s = Some (c, s') \<Longrightarrow> valid s \<Longrightarrow> valid s' \<and> (\<exists>bs. pending s = bs @ pending s')"
  by (auto simp: readUInt8_def readUInt32_def split: option.splits dest!: readFully_used)

lemma readUTF8_used:
  "readUTF8 rd f (ob, i, w) = Some (Inr u, ob', i', w') \<Longrightarrow> valid i \<Longrightarrow> valid i' \<and> ob' = ob \<and> (\<exists>bs. pending i = bs @ pending i')"
  unfolding readUTF8_def conv_bind_done
  by (fastforce simp: conv_done split: if_splits option.splits dest!: numbers_used readFully_used)

lemma readClientInit_used:
  assumes "readClientInit rd env (ob, i, w) = Some (Inr (), ob', i', w')" "valid i"
  shows "(\<exists>bs. pending i = bs @ pending i') \<and> m_viewOnlyAuth ob' = m_viewOnlyAuth ob"
proof -
  from assms obtain a i1 where 1: "readUInt8 rd i = Some (a, i1)"
    and rest: "(if 8 < m_minorVerNum ob then
        conv_bind (conv_in (readUInt32 rd)) (\<lambda>usernameSize. conv_bind (readUTF8 rd (of_utf8 env)) (\<lambda>username.
        conv_modify (\<lambda>ob. ob\<lparr>m_username := username\<rparr>))) else conv_return ()) (ob\<lparr>m_shared := (a \<noteq> 0)\<rparr>, i1, w) = Some (Inr (), ob', i', w')"
    by (auto simp: readClientInit_def conv_done)
  from numbers_used(1) [OF 1 assms(2)] obtain bs where u: "valid i1" "pending i = bs @ pending i1" by blast
  show ?thesis
  proof (cases "8 < m_minorVerNum ob")
    case True
    with rest obtain n i2 name ob3 i3 w3 where 2: "readUInt32 rd i1 = Some (n, i2)"
      "readUTF8 rd (of_utf8 env) (ob\<lparr>m_shared := (a \<noteq> 0)\<rparr>, i2, w) = Some (Inr name, ob3, i3, w3)"
      "Some (Inr (), ob3\<lparr>m_username := name\<rparr>, i3, w3) = Some (Inr (), ob', i', w')"
      by (auto simp: conv_done)
    from numbers_used(2) [OF 2(1) u(1)] readUTF8_used [OF 2(2)] 2(3) u(2) show ?thesis by auto
  next
    case False
    with rest u(2) show ?thesis by (auto simp: conv_return_def)
  qed
qed

lemma initVersion_used:
  assumes "initVersion rd wr env (ob, i, w) = Some (Inr (), ob', i', w')" "valid i"
  shows "valid i' \<and> (\<exists>bs. pending i = bs @ pending i') \<and> m_viewOnlyAuth ob' = m_viewOnlyAuth ob"
proof -
  from assms(1) obtain w1 msg i1 where r: "readFully rd 12 i = Some (msg, i1)"
    and rest: "(case getProtocolMinorVersion msg of
        Inl e \<Rightarrow> conv_throw e
      | Inr minor \<Rightarrow>
          conv_then (conv_modify (\<lambda>ob. ob\<lparr>m_minorVerNum := minor\<rparr>))
          (conv_catch (conv_then (checkForLoopback env) (checkForBan env 0))
             (\<lambda>e. conv_bind (conv_get m_minorVerNum) (\<lambda>minor.
                conv_then (if minor = 3 then conv_out (writeUInt32 wr 0) else conv_out (writeUInt8 wr 0))
                  (send_reason wr env e))))) (ob, i1, w1) = Some (Inr (), ob', i', w')"
    by (auto simp: initVersion_def conv_done)
  from rest have "i' = i1 \<and> m_viewOnlyAuth ob' = m_viewOnlyAuth ob"
    by (cases "getProtocolMinorVersion msg") (auto simp: conv_done checkForLoopback_def checkForBan_def Let_def split: if_splits)
  with readFully_used [OF r assms(2)] show ?thesis by blast
qed

lemma authPhase_done:
  assumes run: "authPhase rd wr env (RfbInitializer_new, i, w) = Some (Inr (), ob', i', w')" and env: "server_ok env" "required env" and i: "valid i"
  shows "\<exists>pre response post b. pending i = pre @ response @ post @ pending i' \<and> length response = 16 \<and> judgement env response = Inr b \<and> m_viewOnlyAuth ob' = b"
proof -
  from run obtain ob1 i1 w1 ob2 i2 w2 where r: "initVersion rd wr env (RfbInitializer_new, i, w) = Some (Inr (), ob1, i1, w1)"
    "initAuthenticate rd wr env (ob1, i1, w1) = Some (Inr (), ob2, i2, w2)" "readClientInit rd env (ob2, i2, w2) = Some (Inr (), ob', i', w')"
    by (auto simp: authPhase_def conv_bind_done)
  from initVersion_used [OF r(1) i] obtain bs where 1: "valid i1" "pending i = bs @ pending i1" "\<not> m_viewOnlyAuth ob1"
    by (auto simp: RfbInitializer_new_def)
  from initAuthenticate_done [OF r(2) env 1(1)] obtain pre response b where
    2: "pending i1 = pre @ response @ pending i2" "length response = 16" "judgement env response = Inr b" "m_viewOnlyAuth ob2 = (b \<or> m_viewOnlyAuth ob1)" "valid i2"
    by blast
  from readClientInit_used [OF r(3) 2(5)] obtain cs where "pending i2 = cs @ pending i'" "m_viewOnlyAuth ob' = m_viewOnlyAuth ob2" by blast
  with 1 2 show ?thesis
    by (intro exI [of _ "bs @ pre"] exI [of _ response] exI [of _ cs] exI [of _ b]) simp
qed

end

section \<open>The server's side of the conversation\<close>

text \<open>A peer that is neither banned nor on the wrong interface, and that the access control lets through.\<close>

definition admitted :: "server_env \<Rightarrow> bool" where
  "admitted env \<longleftrightarrow> (peer_address env = 16777343 \<longrightarrow> isLoopbackConnectionsAllowed env) \<and>
     (isOnlyLoopbackConnectionsAllowed env \<longrightarrow> peer_address env = 16777343) \<and>
     \<not> onCheckForBan env 0 \<and> \<not> onCheckForBan env 1 \<and> onCheckAccessControl env = None"

definition reason_bytes :: "server_env \<Rightarrow> exn \<Rightarrow> bytes" where
  "reason_bytes env e = be32 (of_nat (length (to_ansi env (getMessage e)))) @ to_ansi env (getMessage e)"

definition security_offer :: bytes where
  "security_offer = [2, 2, 16]"

definition auth_offer :: bytes where
  "auth_offer = be32 0 @ be32 1 @ concat (map cap_bytes authInfo)"

context stream_pair
begin

lemma talks_pass:
  assumes "f = conv_return ()" "talks ob g I W r ob'"
  shows "talks ob (conv_then f g) I W r ob'"
  using talks_then [OF talks_return assms(2)] assms(1) by simp

lemma initVersion_talks:
  assumes "admitted env" "length msg = 12" "getProtocolMinorVersion msg = Inr n"
  shows "talks ob (initVersion rd wr env) msg initVersionMsg (Inr ()) (ob\<lparr>m_minorVerNum := n\<rparr>)"
proof -
  have checks: "conv_then (checkForLoopback env) (checkForBan env 0) = conv_return ()"
    using assms(1) by (auto simp: admitted_def checkForLoopback_def checkForBan_def Let_def conv_bind_def conv_return_def fun_eq_iff)
  show ?thesis
    unfolding initVersion_def checks
    by (rule talks_cong, rule talks_bind, rule talks_write, rule talks_bind, rule talks_read [OF assms(2)], simp only: assms(3) sum.case,
      rule talks_bind, rule talks_modify, rule talks_catch_return, rule talks_return) simp_all
qed

lemma send_reason_talks: "talks ob (send_reason wr env e) [] (reason_bytes env e) (Inr ()) ob"
  unfolding send_reason_def Let_def
  by (rule talks_cong, rule talks_bind, rule talks_numbers, rule talks_write) (simp_all add: reason_bytes_def)

lemma doVncAuth_talks:
  assumes env: "server_ok env" "admitted env" and response: "length response = 16"
  shows "judgement env response = Inr b \<Longrightarrow> talks ob (doVncAuth rd wr env) response (challenge_bytes env) (Inr ()) (view_only b ob)"
    and "judgement env response = Inl e \<Longrightarrow> talks ob (doVncAuth rd wr env) response (challenge_bytes env) (Inl e) ob"
proof -
  have ban: "checkForBan env 1 = conv_return ()" using env(2) by (simp add: admitted_def checkForBan_def)
  have talk: "talks ob (doVncAuth rd wr env) response (challenge_bytes env) r ob'"
    if "talks ob (check_response env (challenge_bytes env) response) [] [] r ob'" for r ob'
    unfolding doVncAuth_def Let_def ban
    by (rule talks_cong, rule talks_bind, rule talks_write, rule talks_bind, rule talks_read [OF response],
      rule talks_bind, rule talks_return, rule that) simp_all
  show "talks ob (doVncAuth rd wr env) response (challenge_bytes env) (Inr ()) (view_only b ob)" if "judgement env response = Inr b"
    by (rule talk) (simp add: check_response_judgement env(1) response that talks_modify)
  show "talks ob (doVncAuth rd wr env) response (challenge_bytes env) (Inl e) ob" if "judgement env response = Inl e"
    by (rule talk) (simp add: check_response_judgement env(1) response that talks_throw)
qed

lemma doAuth_talks:
  assumes env: "server_ok env" "admitted env" and response: "length response = 16"
  shows "judgement env response = Inr b \<Longrightarrow>
      talks ob (doAuth rd wr env AuthDefs_VNC) response (challenge_bytes env @ be32 0) (Inr ()) (view_only b ob)"
    and "judgement env response = Inl e \<Longrightarrow> talks ob (doAuth rd wr env AuthDefs_VNC) response (challenge_bytes env) (Inl e) ob"
proof -
  have access: "(case onCheckAccessControl env of Some e \<Rightarrow> conv_throw e | None \<Rightarrow> conv_return ()) = conv_return ()"
    using env(2) by (simp add: admitted_def)
  show "talks ob (doAuth rd wr env AuthDefs_VNC) response (challenge_bytes env @ be32 0) (Inr ()) (view_only b ob)"
    if "judgement env response = Inr b"
    unfolding doAuth_def access
    by (rule talks_cong, rule talks_bind, rule talks_if, rule doVncAuth_talks(1) [OF env response that], rule refl,
      rule talks_bind, rule talks_return, rule talks_bind, rule talks_get, rule talks_if, rule talks_numbers) (simp_all add: auth_defs)
  show "talks ob (doAuth rd wr env AuthDefs_VNC) response (challenge_bytes env) (Inl e) ob" if "judgement env response = Inl e"
    unfolding doAuth_def by (rule talks_bind_throw, rule talks_if, rule doVncAuth_talks(2) [OF env response that], rule refl)
qed

lemma doTightAuth_talks:
  assumes req: "required env" and auth: "talks ob (doAuth rd wr env AuthDefs_VNC) I W r ob'"
  shows "talks ob (doTightAuth rd wr env) (be32 AuthDefs_VNC @ I) (auth_offer @ W) r ob'"
  unfolding doTightAuth_def
  by (rule talks_cong, rule talks_bind, rule talks_numbers, rule talks_if, rule talks_bind, rule talks_numbers,
      rule talks_bind, rule talks_out, rule out.sendCaps_puts, rule talks_bind, rule talks_numbers(6) [of _ AuthDefs_VNC],
      rule talks_else, rule auth)
    (use req in \<open>simp_all add: required_def caps_includes_def authInfo_def addCap_def auth_offer_def getCapCount_def\<close>)

lemma initAuthenticate_talks:
  assumes env: "server_ok env" "admitted env" "required env" and response: "length response = 16" and minor: "8 \<le> m_minorVerNum ob"
  shows "judgement env response = Inr b \<Longrightarrow>
      talks ob (initAuthenticate rd wr env) (16 # be32 AuthDefs_VNC @ response) (security_offer @ auth_offer @ challenge_bytes env @ be32 0)
        (Inr ()) (view_only b (ob\<lparr>m_tightEnabled := True\<rparr>))"
    and "judgement env response = Inl (AuthExn msg) \<Longrightarrow>
      talks ob (initAuthenticate rd wr env) (16 # be32 AuthDefs_VNC @ response)
        (security_offer @ auth_offer @ challenge_bytes env @ be32 1 @ reason_bytes env (AuthExn msg))
        (Inl (AuthExn msg)) (ob\<lparr>m_tightEnabled := True\<rparr>)"
proof -
  let ?body = "conv_bind (conv_get m_minorVerNum) (\<lambda>minor.
        if minor \<ge> 7 then
          conv_then (conv_out (writeUInt8 wr 2))
          (conv_then (conv_out (writeUInt8 wr (ucast SecurityDefs_VNC)))
          (conv_then (conv_out (writeUInt8 wr (ucast SecurityDefs_TIGHT)))
          (conv_bind (conv_in (readUInt8 rd)) (\<lambda>clientSecType.
           if ucast clientSecType = SecurityDefs_TIGHT then
             conv_then (conv_modify (\<lambda>ob. ob\<lparr>m_tightEnabled := True\<rparr>)) (doTightAuth rd wr env)
           else if ucast clientSecType \<noteq> SecurityDefs_VNC then conv_throw (Exn ''Security types do not match'')
           else doAuth rd wr env (convertFromSecurityType (ucast clientSecType))))))
        else
          conv_then (conv_out (writeUInt32 wr SecurityDefs_VNC)) (doAuth rd wr env (convertFromSecurityType SecurityDefs_VNC)))"
  let ?handler = "\<lambda>e. conv_bind (conv_get m_minorVerNum) (\<lambda>minor.
          if minor \<ge> 8 then conv_then (conv_out (writeUInt32 wr 1)) (send_reason wr env e) else conv_return ())"
  have auth: "initAuthenticate rd wr env = conv_catch_auth ?body ?handler"
    using env(3) by (simp add: initAuthenticate_def required_def)
  have body: "talks ob ?body (16 # be32 AuthDefs_VNC @ I) (security_offer @ auth_offer @ W) r ob'"
    if "talks (ob\<lparr>m_tightEnabled := True\<rparr>) (doAuth rd wr env AuthDefs_VNC) I W r ob'" for I W r ob'
    by (rule talks_cong, rule talks_bind, rule talks_get, rule talks_if, rule talks_bind, rule talks_numbers(1),
        rule talks_bind, rule talks_numbers(1), rule talks_bind, rule talks_numbers(1), rule talks_bind, rule talks_numbers(4) [of _ 16], rule talks_if, rule talks_bind, rule talks_modify, rule doTightAuth_talks [OF env(3) that])
      (use minor in \<open>simp_all add: security_offer_def auth_defs\<close>)
  show "talks ob (initAuthenticate rd wr env) (16 # be32 AuthDefs_VNC @ response) (security_offer @ auth_offer @ challenge_bytes env @ be32 0)
        (Inr ()) (view_only b (ob\<lparr>m_tightEnabled := True\<rparr>))" if "judgement env response = Inr b"
    unfolding auth conv_catch_auth_def by (rule talks_catch_return [OF body [OF doAuth_talks(1) [OF env(1,2) response that]]])
  have reply: "talks ob1 (?handler e) [] (be32 1 @ reason_bytes env e) (Inr ()) ob1" if "8 \<le> m_minorVerNum ob1" for e and ob1 :: initializer
    by (rule talks_cong, rule talks_bind, rule talks_get, rule talks_if, rule talks_bind, rule talks_numbers, rule send_reason_talks)
      (use that in simp_all)
  show "talks ob (initAuthenticate rd wr env) (16 # be32 AuthDefs_VNC @ response)
        (security_offer @ auth_offer @ challenge_bytes env @ be32 1 @ reason_bytes env (AuthExn msg))
        (Inl (AuthExn msg)) (ob\<lparr>m_tightEnabled := True\<rparr>)" if refused: "judgement env response = Inl (AuthExn msg)"
    unfolding auth conv_catch_auth_def
    by (rule talks_cong, rule talks_catch_throw, rule body [OF doAuth_talks(2) [OF env(1,2) response refused]], simp only: exn.case, rule reply)
      (use minor in simp_all)
qed

end

section \<open>The viewer's side\<close>

definition clientVersionMsg :: bytes where
  "clientVersionMsg = chars ''RFB 003.009'' @ [10]"

lemma client_version: "getProtocolMinorVersion clientVersionMsg = Inr 9" "length clientVersionMsg = 12" "length initVersionMsg = 12"
  by code_simp+

lemma server_version:
  "isRfbProtocolString initVersionMsg" "strtol (drop 4 initVersionMsg) = 3" "strtol (drop 8 initVersionMsg) = 8"
  by code_simp+

lemma version_string: "m_major v = 3 \<Longrightarrow> m_minor v = 9 \<Longrightarrow> getProtocolString v = clientVersionMsg"
proof -
  have "format03d 3 = chars ''003''" "format03d 9 = chars ''009''" by code_simp+
  then show "m_major v = 3 \<Longrightarrow> m_minor v = 9 \<Longrightarrow> getProtocolString v = clientVersionMsg"
    by (simp add: getProtocolString_def clientVersionMsg_def chars_def)
qed

text \<open>The container of the viewer when only passwords have been registered.\<close>

definition vnc_cap :: cap where
  "vnc_cap = \<lparr>cap_code = AuthDefs_VNC, vendorSignature = VENDOR_STANDARD, nameSignature = SIG_VNC\<rparr>"

lemma authInfo_cap: "authInfo = [vnc_cap]" "cap_ok vnc_cap"
  by (simp_all add: authInfo_def addCap_def vnc_cap_def cap_ok_def signature_lengths)

definition knows_passwords :: "viewer_core \<Rightarrow> bool" where
  "knows_passwords v \<longleftrightarrow> caps_ok (m_authCaps v) \<and> infoMap (m_authCaps v) AuthDefs_VNC = Some vnc_cap \<and> plist (m_authCaps v) = []"

definition negotiated :: "viewer_core \<Rightarrow> viewer_core" where
  "negotiated v = v\<lparr>m_isTight := True, m_authCaps := snd (caps_enable vnc_cap (m_authCaps v))\<rparr>"

lemma negotiated_first: "knows_passwords v \<Longrightarrow> plist (m_authCaps (negotiated v)) = [AuthDefs_VNC]"
  using caps_enable_known(3) [of "m_authCaps v" vnc_cap] by (simp add: knows_passwords_def negotiated_def vnc_cap_def)

context stream_pair
begin

lemma handshake_talks:
  "talks v (handshake rd wr env) initVersionMsg clientVersionMsg (Inr ()) (v\<lparr>m_major := 3, m_minor := 9, m_isTight := False\<rparr>)"
proof -
  have sel: "select_version (v\<lparr>m_major := 3, m_minor := 8, m_isTight := False\<rparr>) = v\<lparr>m_major := 3, m_minor := 9, m_isTight := False\<rparr>"
    by (simp add: select_version_def)
  show ?thesis
    unfolding handshake_def
    by (rule talks_cong, rule talks_bind, rule talks_read [OF client_version(3)], rule talks_bind, rule talks_modify,
        rule talks_bind, rule talks_get, simp only: prod.case, rule talks_else, rule talks_bind, rule talks_modify,
        rule talks_bind, rule talks_get, rule talks_write)
      (simp_all add: server_version sel version_string client_version)
qed

lemma initAuthentication_talks:
  assumes v: "knows_passwords v"
  shows "talks v (initAuthentication rd wr) (be32 1 @ concat (map cap_bytes authInfo)) (be32 AuthDefs_VNC) (Inr AuthDefs_VNC)
    (v\<lparr>m_authCaps := snd (caps_enable vnc_cap (m_authCaps v))\<rparr>)"
proof -
  let ?v = "v\<lparr>m_authCaps := snd (caps_enable vnc_cap (m_authCaps v))\<rparr>"
  have "plist (m_authCaps ?v) = [AuthDefs_VNC]" using negotiated_first [OF v] by (simp add: negotiated_def)
  then have types: "map (\<lambda>i. getByOrder i (m_authCaps ?v)) [0..<numEnabled (m_authCaps ?v)] = [AuthDefs_VNC]"
    by (simp add: numEnabled_def getByOrder_def)
  have "talks v (read_auth_caps rd (Suc 0)) (cap_bytes vnc_cap) [] (Inr ()) ?v"
    unfolding read_auth_caps.simps
    by (rule talks_cong, rule talks_bind, rule talks_in, rule inp.readCapability_gets [OF authInfo_cap(2)],
        rule talks_bind, rule talks_modify, rule talks_return) simp_all
  then have caps: "talks v (read_auth_caps rd (unat (1 :: 32 word))) (cap_bytes vnc_cap) [] (Inr ()) ?v" by simp
  show ?thesis
    unfolding initAuthentication_def
    by (rule talks_cong, rule talks_bind, rule talks_numbers(6) [of _ 1], rule talks_else, rule talks_bind, rule caps,
        rule talks_bind, rule talks_get, simp only: types list.case, rule talks_bind, rule talks_numbers, rule talks_return)
      (simp_all add: authInfo_cap)
qed

lemma negotiate_talks:
  assumes v: "knows_passwords v" "m_minor v = 9"
  shows "talks v (negotiateAboutSecurityType rd wr handlers) (security_offer @ auth_offer) (16 # be32 AuthDefs_VNC) (Inr AuthDefs_VNC) (negotiated v)"
proof -
  have "talks v (readSecurityTypeList rd) [2, 2, 16] [] (Inr ([] @ [ucast (2 :: 8 word)] @ [ucast (16 :: 8 word)])) v"
    unfolding readSecurityTypeList_def
  proof (rule talks_cong, rule talks_bind, rule talks_get, rule talks_else, rule talks_bind, rule talks_numbers(4) [of _ 2])
    have "talks v (read_types rd (Suc (Suc 0)) []) [2, 16] [] (Inr ([] @ [ucast (2 :: 8 word)] @ [ucast (16 :: 8 word)])) v"
      unfolding read_types.simps
      by (rule talks_cong, rule talks_bind, rule talks_numbers(4) [of _ 2], rule talks_bind, rule talks_numbers(4) [of _ 16], rule talks_return) simp_all
    moreover have "unat (2 :: 8 word) = Suc (Suc 0)" by simp
    ultimately show "talks v (read_types rd (unat (2 :: 8 word)) []) [2, 16] [] (Inr ([] @ [ucast (2 :: 8 word)] @ [ucast (16 :: 8 word)])) v"
      by (simp only:)
  qed (use v(2) in simp_all)
  then have types: "talks v (readSecurityTypeList rd) security_offer [] (Inr [SecurityDefs_VNC, SecurityDefs_TIGHT]) v"
    by (simp add: security_offer_def auth_defs)
  have select: "selectSecurityType [SecurityDefs_VNC, SecurityDefs_TIGHT] handlers = Inr SecurityDefs_TIGHT"
    by (simp add: selectSecurityType_def)
  have tunnel: "talks ob (initTunnelling rd wr) (be32 0) [] (Inr ()) ob" for ob :: viewer_core
    unfolding initTunnelling_def
    by (rule talks_cong, rule talks_bind, rule talks_numbers(6) [of _ 0], rule talks_else, rule talks_return) simp_all
  have "knows_passwords (v\<lparr>m_isTight := True\<rparr>)" using v(1) by (simp add: knows_passwords_def)
  from initAuthentication_talks [OF this] show ?thesis
    unfolding negotiateAboutSecurityType_def
    by - (rule talks_cong, rule talks_bind, rule types, rule talks_else, simp only: select sum.case, rule talks_if, rule talks_bind, rule talks_modify,
        rule talks_bind, rule talks_numbers(1), rule talks_bind, rule tunnel, assumption,
        simp_all add: auth_defs auth_offer_def negotiated_def)
qed

text \<open>The handler of passwords, and what the user sees in both cases.\<close>

lemma vncAuthenticate_talks:
  assumes "viewer_ok env" "length challenge = 16"
  shows "talks v (vncAuthenticate rd wr env (typed_password env)) challenge (answer env challenge) (Inr ()) v"
  unfolding vncAuthenticate_def
  by (rule talks_cong, rule talks_bind, rule talks_read [OF assms(2)], rule talks_bind, simp only: viewer_array [OF assms], rule talks_opt, rule talks_write)
    simp_all

lemma authenticate_talks:
  assumes env: "viewer_ok env" and v: "knows_passwords v" "m_minor v = 9" and challenge: "length challenge = 16"
  shows "talks v (authenticate rd wr env (VncAuthenticationHandler rd wr env)) (security_offer @ auth_offer @ challenge @ be32 0)
      (16 # be32 AuthDefs_VNC @ answer env challenge) (Inr ()) (negotiated v)"
    and "viewer_of_utf8 env u = Some text \<Longrightarrow> u \<noteq> [] \<Longrightarrow> length u < 2 ^ 32 \<Longrightarrow>
      talks v (authenticate rd wr env (VncAuthenticationHandler rd wr env)) (security_offer @ auth_offer @ challenge @ be32 1 @ be32 (of_nat (length u)) @ u)
      (16 # be32 AuthDefs_VNC @ answer env challenge) (Inl (AuthExn (''Authentication reason: '' @ text))) (negotiated v)"
proof -
  have handler: "VncAuthenticationHandler rd wr env AuthDefs_VNC = Some (vncAuthenticate rd wr env (typed_password env))"
    by (simp add: VncAuthenticationHandler_def)
  have nonzero: "AuthDefs_VNC \<noteq> 0" "AuthDefs_VNC \<noteq> SecurityDefs_NONE" by (simp_all add: auth_defs)
  show "talks v (authenticate rd wr env (VncAuthenticationHandler rd wr env)) (security_offer @ auth_offer @ challenge @ be32 0)
      (16 # be32 AuthDefs_VNC @ answer env challenge) (Inr ()) (negotiated v)"
    unfolding authenticate_def
    by (rule talks_cong, rule talks_bind, rule negotiate_talks [OF v], rule talks_bind, rule talks_if, simp only: handler option.case,
        rule vncAuthenticate_talks [OF env challenge], rule nonzero(1), rule talks_bind, rule talks_get, rule talks_if, rule talks_bind, rule talks_if,
        rule talks_numbers(6) [of _ 0], rule nonzero(1), rule talks_else, rule talks_return)
      (simp_all add: nonzero)
  show "talks v (authenticate rd wr env (VncAuthenticationHandler rd wr env)) (security_offer @ auth_offer @ challenge @ be32 1 @ be32 (of_nat (length u)) @ u)
      (16 # be32 AuthDefs_VNC @ answer env challenge) (Inl (AuthExn (''Authentication reason: '' @ text))) (negotiated v)"
    if u: "viewer_of_utf8 env u = Some text" "u \<noteq> []" "length u < 2 ^ 32"
    unfolding authenticate_def auth_failure_def
    by (rule talks_cong, rule talks_bind, rule negotiate_talks [OF v], rule talks_bind, rule talks_if, simp only: handler option.case,
        rule vncAuthenticate_talks [OF env challenge], rule nonzero(1), rule talks_bind, rule talks_get, rule talks_if, rule talks_bind, rule talks_if,
        rule talks_numbers(6) [of _ 1], rule nonzero(1), rule talks_if, rule talks_bind, rule talks_get, rule talks_else,
        rule talks_bind, rule readUTF8_talks [where ?of_utf8.0 = "viewer_of_utf8 env", OF u], rule talks_throw)
      (simp_all add: nonzero v(2) negotiated_def)
qed

end

end
