(* ===== verification/ConnectionCorrect.thy ===== *)
theory ConnectionCorrect
  imports HandshakeCorrect RawCorrect
begin

text \<open>
  The initial messages after the authentication, and the whole conversation: server and viewer get
  through it together, and afterwards the viewer has the frame buffers and the name that the server announced.
\<close>

section \<open>Frame buffer properties\<close>

text \<open>What fits into the message.\<close>

definition format_ok :: "pixel_format \<Rightarrow> bool" where
  "format_ok pf \<longleftrightarrow> bitsPerPixel pf \<in> {8, 16, 32} \<and> colorDepth pf < 256 \<and> redMax pf < 65536 \<and> greenMax pf < 65536 \<and> blueMax pf < 65536 \<and>
     redShift pf < 256 \<and> greenShift pf < 256 \<and> blueShift pf < 256"

definition dim_ok :: "dimension \<Rightarrow> bool" where
  "dim_ok d \<longleftrightarrow> 0 \<le> width d \<and> width d < 65536 \<and> 0 \<le> height d \<and> height d < 65536"

definition format_bytes :: "pixel_format \<Rightarrow> bytes" where
  "format_bytes pf = [of_nat (bitsPerPixel pf), of_nat (colorDepth pf), if bigEndian pf then 1 else 0, 1] @
     be16 (of_nat (redMax pf)) @ be16 (of_nat (greenMax pf)) @ be16 (of_nat (blueMax pf)) @
     [of_nat (redShift pf), of_nat (greenShift pf), of_nat (blueShift pf), 0] @ be16 0"

definition init_bytes :: "dimension \<Rightarrow> pixel_format \<Rightarrow> bytes" where
  "init_bytes d pf = be16 (word_of_int (width d)) @ be16 (word_of_int (height d)) @ format_bytes pf"

text \<open>Both buffers of the viewer have the properties and are black.\<close>

definition black :: "dimension \<Rightarrow> pixel_format \<Rightarrow> frame_buffer \<Rightarrow> bool" where
  "black d pf fb \<longleftrightarrow> fb_ok fb \<and> dim fb = d \<and> fmt fb = pf \<and>
     (\<forall>x y. inside fb x y \<longrightarrow> pixel fb x y = replicate (bitsPerPixel pf div 8) 0)"

definition black_view :: "dimension \<Rightarrow> pixel_format \<Rightarrow> view \<Rightarrow> bool" where
  "black_view d pf v \<longleftrightarrow> black d pf (shown v) \<and> black d pf (second v)"

lemma setProperties_ok:
  assumes "\<And>k. length (junk k) = k" "dim_ok d" "format_ok pf"
  shows "fb_ok (setProperties junk d pf fb)" "dim (setProperties junk d pf fb) = d" "fmt (setProperties junk d pf fb) = pf"
proof -
  have "getBufferSize (fb\<lparr>fmt := pf, dim := d\<rparr>) = height d * (width d * int (bitsPerPixel pf div 8))"
    using assms(2,3) by (auto simp: getBufferSize_def dim_area_def dim_isEmpty_def format_ok_def dim_ok_def)
  moreover have "0 \<le> height d * (width d * int (bitsPerPixel pf div 8))" using assms(2) by (simp add: dim_ok_def)
  ultimately show "fb_ok (setProperties junk d pf fb)"
    using assms by (auto simp: fb_ok_def setProperties_def resizeBuffer_def stride_def pixel_size_def format_ok_def dim_ok_def)
qed (simp_all add: setProperties_def resizeBuffer_def)

lemma black_bytes:
  assumes "fb_ok fb"
  shows "color_bytes fb (scaled_color pf 0 0 0) = replicate (bitsPerPixel (fmt fb) div 8) 0"
proof -
  have "scaled_color pf 0 0 0 = 0" by (simp add: scaled_color_def)
  moreover have "le_bytes 0 = replicate 4 0" by (simp add: le_bytes_def map_replicate_const)
  moreover have "bitsPerPixel (fmt fb) div 8 \<le> 4" using assms by (auto simp: fb_ok_def)
  ultimately show ?thesis by (simp add: color_bytes_def pixel_size_def min_def)
qed

lemma setColor_black:
  assumes "\<And>k. length (junk k) = k" "dim_ok d" "format_ok pf"
  shows "\<exists>fb'. setColor 0 0 0 (setProperties junk d pf fb) = Some fb' \<and> black d pf fb'"
proof -
  note ok = setProperties_ok [where junk = junk and d = d and pf = pf and fb = fb, OF assms]
  from setColor_ok [OF ok(1), of 0 0 0] obtain b where
    b: "setColor 0 0 0 (setProperties junk d pf fb) = Some ((setProperties junk d pf fb)\<lparr>buffer := b\<rparr>)"
      "length b = length (buffer (setProperties junk d pf fb))"
      "\<forall>x y. inside (setProperties junk d pf fb) x y \<longrightarrow> pixel ((setProperties junk d pf fb)\<lparr>buffer := b\<rparr>) x y =
         color_bytes (setProperties junk d pf fb) (scaled_color (fmt (setProperties junk d pf fb)) 0 0 0)" by blast
  have "black d pf ((setProperties junk d pf fb)\<lparr>buffer := b\<rparr>)"
    using b(2,3) ok by (simp add: black_def fb_ok_buffer black_bytes)
  with b(1) show ?thesis by blast
qed

lemma byte_values:
  assumes "format_ok pf"
  shows "unat (of_nat (bitsPerPixel pf) :: 8 word) = bitsPerPixel pf" "unat (of_nat (colorDepth pf) :: 8 word) = colorDepth pf"
    "unat (of_nat (redMax pf) :: 16 word) = redMax pf" "unat (of_nat (greenMax pf) :: 16 word) = greenMax pf"
    "unat (of_nat (blueMax pf) :: 16 word) = blueMax pf" "unat (of_nat (redShift pf) :: 8 word) = redShift pf"
    "unat (of_nat (greenShift pf) :: 8 word) = greenShift pf" "unat (of_nat (blueShift pf) :: 8 word) = blueShift pf"
  using assms by (auto simp: format_ok_def unat_of_nat)

context stream_pair
begin

lemma sendServerInit_talks: "talks ob (sendServerInit wr d pf) [] (init_bytes d pf) (Inr ()) ob"
  unfolding sendServerInit_def
  by (rule talks_cong, (rule talks_bind, rule talks_numbers(1,2))+, rule talks_numbers(2)) (simp_all add: init_bytes_def format_bytes_def)

lemma readPixelFormat_talks:
  assumes "format_ok pf"
  shows "talks v (readPixelFormat rd) (format_bytes pf) [] (Inr pf) v"
  unfolding readPixelFormat_def
  by (rule talks_cong, rule talks_bind, rule talks_numbers(4) [of _ "of_nat (bitsPerPixel pf)"],
      rule talks_bind, rule talks_numbers(4) [of _ "of_nat (colorDepth pf)"],
      rule talks_bind, rule talks_numbers(4) [of _ "if bigEndian pf then 1 else 0"],
      rule talks_bind, rule talks_numbers(4) [of _ 1],
      rule talks_bind, rule talks_numbers(5) [of _ "of_nat (redMax pf)"],
      rule talks_bind, rule talks_numbers(5) [of _ "of_nat (greenMax pf)"],
      rule talks_bind, rule talks_numbers(5) [of _ "of_nat (blueMax pf)"],
      rule talks_bind, rule talks_numbers(4) [of _ "of_nat (redShift pf)"],
      rule talks_bind, rule talks_numbers(4) [of _ "of_nat (greenShift pf)"],
      rule talks_bind, rule talks_numbers(4) [of _ "of_nat (blueShift pf)"],
      rule talks_bind, rule talks_numbers(4) [of _ 0], rule talks_bind, rule talks_numbers(4) [of _ 0],
      rule talks_bind, rule talks_numbers(4) [of _ 0], rule talks_return)
    (simp_all add: format_bytes_def byte_values [OF assms] be16_def GETBYTE_def)

lemma setFbProperties_talks:
  assumes "\<And>k. length (fresh env k) = k" "dim_ok d" "format_ok pf"
  shows "\<exists>w. black_view d pf w \<and> notified w = notified (m_view v) \<and>
    talks v (setFbProperties env d pf) [] [] (Inr ()) (v\<lparr>m_view := w, m_isRefreshing := True\<rparr>)"
proof -
  obtain a b where a: "setColor 0 0 0 (setProperties (fresh env) d pf (second (m_view v))) = Some a" "black d pf a"
    and b: "setColor 0 0 0 (setProperties (fresh env) d pf (shown (m_view v))) = Some b" "black d pf b"
    using setColor_black [of "fresh env" d pf, OF assms] by blast
  have "talks v (setFbProperties env d pf) [] [] (Inr ()) (v\<lparr>m_view := (m_view v)\<lparr>shown := b, second := a\<rparr>, m_isRefreshing := True\<rparr>)"
    unfolding setFbProperties_def
    by (rule talks_cong, rule talks_bind, rule talks_get, rule talks_bind, simp only: a(1), rule talks_opt, rule talks_bind,
        simp only: b(1), rule talks_opt, rule talks_modify) simp_all
  with a(2) b(2) show ?thesis by (intro exI [of _ "(m_view v)\<lparr>shown := b, second := a\<rparr>"]) (simp add: black_view_def)
qed

end

section \<open>Capabilities\<close>

lemma short_count: "ucast (of_nat n :: 32 word) = (of_nat n :: 16 word)"
  by (rule bit_word_eqI) (simp add: bit_simps)

definition enable_all :: "cap list \<Rightarrow> caps_container \<Rightarrow> caps_container" where
  "enable_all cs cc = foldl (\<lambda>cc c. snd (caps_enable c cc)) cc cs"

lemma enable_all_simps [simp]: "enable_all [] cc = cc" "enable_all (c # cs) cc = enable_all cs (snd (caps_enable c cc))"
  by (simp_all add: enable_all_def)

lemma enable_all_ok: "caps_ok cc \<Longrightarrow> caps_ok (enable_all cs cc)"
  by (induction cs arbitrary: cc) (simp_all add: caps_enable_ok)

definition sendable :: "cap list \<Rightarrow> bool" where
  "sendable cs \<longleftrightarrow> list_all cap_ok cs \<and> length cs < 65536"

definition caps_message :: "cap list \<Rightarrow> cap list \<Rightarrow> cap list \<Rightarrow> bytes" where
  "caps_message as bs cs = be16 (of_nat (length as)) @ be16 (of_nat (length bs)) @ be16 (of_nat (length cs)) @ be16 0 @
     concat (map cap_bytes as) @ concat (map cap_bytes bs) @ concat (map cap_bytes cs)"

definition caps_read :: "cap list \<Rightarrow> cap list \<Rightarrow> cap list \<Rightarrow> decoder_store \<Rightarrow> viewer_core \<Rightarrow> viewer_core" where
  "caps_read as bs cs ds v =
     v\<lparr>m_serverMsgCaps := enable_all as (m_serverMsgCaps v), m_clientMsgCaps := enable_all bs (m_clientMsgCaps v),
       m_encodingCaps := enable_all cs (m_encodingCaps v), m_decoderStore := ds\<rparr>"

context stream_pair
begin

lemma sendInteractionCaps_talks: "talks ob (sendInteractionCaps wr as bs cs) [] (caps_message as bs cs) (Inr ()) ob"
  unfolding sendInteractionCaps_def
  by (rule talks_cong, rule talks_bind, rule talks_numbers(2), rule talks_bind, rule talks_numbers(2), rule talks_bind, rule talks_numbers(2),
      rule talks_bind, rule talks_numbers(2), rule talks_bind, rule talks_out, rule out.sendCaps_puts,
      rule talks_bind, rule talks_out, rule out.sendCaps_puts, rule talks_out, rule out.sendCaps_puts)
    (simp_all add: caps_message_def getCapCount_def short_count)

text \<open>One loop, for the container that \<open>sel\<close> and \<open>upd\<close> reach.\<close>

lemma read_caps_into_talks:
  assumes "\<And>c v. sel (enable c v) = snd (caps_enable c (sel v))" "\<And>c v. enable c v = upd (snd (caps_enable c (sel v))) v"
    "\<And>x y v. upd x (upd y v) = upd x v" "\<And>v. upd (sel v) v = v" "list_all cap_ok cs"
  shows "talks v (read_caps_into rd enable (length cs)) (concat (map cap_bytes cs)) [] (Inr ()) (upd (enable_all cs (sel v)) v)"
  using assms(5)
proof (induction cs arbitrary: v)
  case Nil
  show ?case using talks_return by (simp add: assms(4))
next
  case (Cons c cs)
  have c: "cap_ok c" using Cons.prems by simp
  have "talks v (read_caps_into rd enable (Suc (length cs))) (cap_bytes c @ concat (map cap_bytes cs)) [] (Inr ())
      (upd (enable_all cs (sel (enable c v))) (enable c v))"
    unfolding read_caps_into.simps
    by (rule talks_cong, rule talks_bind, rule talks_in, rule inp.readCapability_gets [OF c],
        rule talks_bind, rule talks_modify, rule Cons.IH) (use Cons.prems in simp_all)
  then show ?case by (simp add: assms(1)) (simp add: assms(2,3))
qed

lemma readCapabilities_talks:
  assumes "sendable as" "sendable bs" "sendable cs"
    and ds: "add_registered env (plist (enable_all cs (m_encodingCaps v))) (m_decoderStore v) = Some ds"
  shows "talks v (readCapabilities rd env) (caps_message as bs cs) [] (Inr ()) (caps_read as bs cs ds v)"
proof -
  have n: "unat (of_nat (length xs) :: 16 word) = length xs" "list_all cap_ok xs" if "sendable xs" for xs
    using that by (simp_all add: sendable_def unat_of_nat)
  note loops = read_caps_into_talks [where enable = "\<lambda>c v. v\<lparr>m_serverMsgCaps := snd (caps_enable c (m_serverMsgCaps v))\<rparr>"
      and sel = m_serverMsgCaps and upd = "\<lambda>x v. v\<lparr>m_serverMsgCaps := x\<rparr>" and cs = as]
    read_caps_into_talks [where enable = "\<lambda>c v. v\<lparr>m_clientMsgCaps := snd (caps_enable c (m_clientMsgCaps v))\<rparr>"
      and sel = m_clientMsgCaps and upd = "\<lambda>x v. v\<lparr>m_clientMsgCaps := x\<rparr>" and cs = bs]
    read_caps_into_talks [where enable = "\<lambda>c v. v\<lparr>m_encodingCaps := snd (caps_enable c (m_encodingCaps v))\<rparr>"
      and sel = m_encodingCaps and upd = "\<lambda>x v. v\<lparr>m_encodingCaps := x\<rparr>" and cs = cs]
  have loops': "talks v (read_caps_into rd (\<lambda>c v. v\<lparr>m_serverMsgCaps := snd (caps_enable c (m_serverMsgCaps v))\<rparr>) (unat (of_nat (length as) :: 16 word)))
      (concat (map cap_bytes as)) [] (Inr ()) (v\<lparr>m_serverMsgCaps := enable_all as (m_serverMsgCaps v)\<rparr>)"
    "talks v (read_caps_into rd (\<lambda>c v. v\<lparr>m_clientMsgCaps := snd (caps_enable c (m_clientMsgCaps v))\<rparr>) (unat (of_nat (length bs) :: 16 word)))
      (concat (map cap_bytes bs)) [] (Inr ()) (v\<lparr>m_clientMsgCaps := enable_all bs (m_clientMsgCaps v)\<rparr>)"
    "talks v (read_caps_into rd (\<lambda>c v. v\<lparr>m_encodingCaps := snd (caps_enable c (m_encodingCaps v))\<rparr>) (unat (of_nat (length cs) :: 16 word)))
      (concat (map cap_bytes cs)) [] (Inr ()) (v\<lparr>m_encodingCaps := enable_all cs (m_encodingCaps v)\<rparr>)" for v
    unfolding n(1) [OF assms(1)] n(1) [OF assms(2)] n(1) [OF assms(3)]
    by (rule loops; simp add: n assms)+
  have known: "talks v (conv_bind (conv_get (\<lambda>v. add_registered env (plist (m_encodingCaps v)) (m_decoderStore v)))
      (\<lambda>ds. conv_bind (conv_opt ds) (\<lambda>ds. conv_modify (\<lambda>v. v\<lparr>m_decoderStore := ds\<rparr>)))) [] [] (Inr ()) (v\<lparr>m_decoderStore := ds'\<rparr>)"
    if "add_registered env (plist (m_encodingCaps v)) (m_decoderStore v) = Some ds'" for v ds'
    using that by (simp add: talks_def conv_bind_def conv_get_def conv_opt_def conv_modify_def)
  show ?thesis
    unfolding readCapabilities_def
    by (rule talks_cong, rule talks_bind, rule talks_numbers(5) [of _ "of_nat (length as)"], rule talks_bind, rule talks_numbers(5) [of _ "of_nat (length bs)"],
        rule talks_bind, rule talks_numbers(5) [of _ "of_nat (length cs)"], rule talks_bind, rule talks_numbers(5) [of _ 0],
        rule talks_bind, rule loops'(1), rule talks_bind, rule loops'(2), rule talks_bind, rule loops'(3),
        rule known, simp add: ds)
      (simp_all add: caps_message_def caps_read_def)
qed

end

section \<open>The name of the desktop and the first message of the viewer\<close>

definition desktop_bytes :: "server_env \<Rightarrow> bytes" where
  "desktop_bytes env = to_ansi env (case computerName env of Some name \<Rightarrow> name | None \<Rightarrow> ''KonturVNC Server'')"

text \<open>The name of the viewer's user gets through the two conversions.\<close>

definition name_travels :: "server_env \<Rightarrow> viewer_env \<Rightarrow> bytes \<Rightarrow> string \<Rightarrow> bool" where
  "name_travels senv venv u name \<longleftrightarrow> viewer_to_utf8 venv (peerName venv) = Some u \<and> u \<noteq> [] \<and> length u < 2 ^ 32 \<and> of_utf8 senv u = Some name"

definition client_init :: "bool \<Rightarrow> string \<Rightarrow> bytes \<Rightarrow> bytes" where
  "client_init flag name u = (if flag then 1 else 0) # be32 (of_nat (length name)) @ be32 (of_nat (length u)) @ u"

definition server_init :: "server_env \<Rightarrow> cap list \<Rightarrow> cap list \<Rightarrow> cap list \<Rightarrow> dimension \<Rightarrow> pixel_format \<Rightarrow> bytes" where
  "server_init env as bs cs d pf =
     init_bytes d pf @ be32 (of_nat (length (desktop_bytes env))) @ desktop_bytes env @ caps_message as bs cs"

context stream_pair
begin

lemma readClientInit_talks:
  assumes "name_travels senv venv u name" "8 < m_minorVerNum ob"
  shows "talks ob (readClientInit rd senv) (client_init flag (peerName venv) u) [] (Inr ()) (ob\<lparr>m_shared := flag, m_username := name\<rparr>)"
proof -
  have u: "of_utf8 senv u = Some name" "u \<noteq> []" "length u < 2 ^ 32" using assms(1) by (simp_all add: name_travels_def)
  show ?thesis
    unfolding readClientInit_def
    by (rule talks_cong, rule talks_bind, rule talks_numbers(4) [of _ "if flag then 1 else 0"], rule talks_bind, rule talks_modify,
        rule talks_bind, rule talks_get, rule talks_if, rule talks_bind, rule talks_numbers(6) [of _ "of_nat (length (peerName venv))"],
        rule talks_bind, rule readUTF8_talks [where ?of_utf8.0 = "of_utf8 senv", OF u], rule talks_modify)
      (use assms(2) in \<open>simp_all add: client_init_def\<close>)
qed

lemma sendDesktopName_talks:
  "talks ob (sendDesktopName wr env) [] (be32 (of_nat (length (desktop_bytes env))) @ desktop_bytes env) (Inr ()) ob"
  unfolding sendDesktopName_def Let_def desktop_bytes_def [symmetric]
  by (rule talks_cong, rule talks_bind, rule talks_numbers(3), rule talks_write) simp_all

lemma afterAuthPhase_talks:
  assumes "m_tightEnabled ob"
  shows "talks ob (afterAuthPhase wr env as bs cs d pf) [] (server_init env as bs cs d pf) (Inr ()) ob"
  unfolding afterAuthPhase_def
  by (rule talks_cong, rule talks_bind, rule sendServerInit_talks, rule talks_bind, rule sendDesktopName_talks,
      rule talks_bind, rule talks_get, rule talks_if, rule sendInteractionCaps_talks) (use assms in \<open>simp_all add: server_init_def\<close>)

text \<open>The viewer reads the name by one call of \<open>read\<close>, so it needs a stream that has all of it at hand.\<close>

lemma clientAndServerInit_talks:
  assumes name: "name_travels senv venv u name"
    and fb: "\<And>k. length (fresh venv k) = k" "dim_ok d" "format_ok pf"
    and desk: "length (desktop_bytes senv) < 2 ^ 32" "0 \<notin> set (desktop_bytes senv)"
    and whole: "inp.gets (rd (length (desktop_bytes senv))) (desktop_bytes senv) (desktop_bytes senv)"
    and caps: "sendable as" "sendable bs" "sendable cs"
      "add_registered venv (plist (enable_all cs (m_encodingCaps v))) (m_decoderStore v) = Some ds"
    and tight: "m_isTight v"
  shows "\<exists>w. black_view d pf w \<and> talks v (clientAndServerInit rd wr venv) (server_init senv as bs cs d pf) (client_init (m_sharedFlag v) (peerName venv) u) (Inr ())
    (caps_read as bs cs ds (v\<lparr>m_view := w, m_isRefreshing := True, m_remoteDesktopName := ansi_to_string venv (desktop_bytes senv)\<rparr>))"
proof -
  obtain w where w: "black_view d pf w" "talks v (setFbProperties venv d pf) [] [] (Inr ()) (v\<lparr>m_view := w, m_isRefreshing := True\<rparr>)"
    using setFbProperties_talks [where env = venv and v = v, OF fb] by blast
  have utf8: "viewer_to_utf8 venv (peerName venv) = Some u" using name by (simp add: name_travels_def)
  have d: "\<lparr>width = uint (word_of_int (width d) :: 16 word), height = uint (word_of_int (height d) :: 16 word)\<rparr> = d"
    using fb(2) by (cases d) (simp add: dim_ok_def word_of_int_inverse)
  have n: "unat (of_nat (length (desktop_bytes senv)) :: 32 word) = length (desktop_bytes senv)" using desk(1) by (simp add: unat_of_nat)
  have z: "takeWhile (\<lambda>b. b \<noteq> 0) (desktop_bytes senv) = desktop_bytes senv" using desk(2) by (auto simp: takeWhile_eq_all_conv)
  let ?w = "\<lambda>v. v\<lparr>m_view := w, m_isRefreshing := True\<rparr>"
  have set_fb: "talks v (setFbProperties venv \<lparr>width = uint (word_of_int (width d) :: 16 word), height = uint (word_of_int (height d) :: 16 word)\<rparr> pf)
      [] [] (Inr ()) (?w v)" using w(2) by (simp only: d)
  have get_name: "talks v (conv_in (rd (unat (of_nat (length (desktop_bytes senv)) :: 32 word)))) (desktop_bytes senv) [] (Inr (desktop_bytes senv)) v" for v :: viewer_core
    by (simp only: n) (rule talks_in [OF whole])
  let ?v = "(?w v)\<lparr>m_remoteDesktopName := ansi_to_string venv (desktop_bytes senv)\<rparr>"
  have caps': "talks ?v (readCapabilities rd venv) (caps_message as bs cs) [] (Inr ()) (caps_read as bs cs ds ?v)"
    using readCapabilities_talks [of as bs cs venv ?v ds] caps by simp
  have "talks v (clientAndServerInit rd wr venv) (server_init senv as bs cs d pf) (client_init (m_sharedFlag v) (peerName venv) u) (Inr ()) (caps_read as bs cs ds ?v)"
    unfolding clientAndServerInit_def
    by (rule talks_cong, rule talks_bind, rule talks_get, rule talks_bind, rule talks_numbers(1), rule talks_bind, rule talks_numbers(3),
        rule talks_bind, rule writeUTF8_talks [where ?to_utf8.0 = "viewer_to_utf8 venv", OF utf8],
        rule talks_bind, rule talks_numbers(5) [of _ "word_of_int (width d)"], rule talks_bind, rule talks_numbers(5) [of _ "word_of_int (height d)"],
        rule talks_bind, rule readPixelFormat_talks [OF fb(3)], rule talks_bind, rule set_fb,
        rule talks_bind, rule talks_numbers(6) [of _ "of_nat (length (desktop_bytes senv))"], rule talks_bind, rule get_name,
        rule talks_bind, rule talks_modify, rule talks_bind, rule talks_get, rule talks_if, simp only: z, rule caps')
      (use tight in \<open>simp_all add: server_init_def client_init_def init_bytes_def\<close>)
  with w(1) show ?thesis by blast
qed

end

section \<open>The whole conversation\<close>

text \<open>The methods in the order in which \<open>RfbClient::execute\<close> and \<open>RemoteViewerCore::execute\<close> call them.\<close>

definition server_opening ::
  "'i reader \<Rightarrow> 'w writer \<Rightarrow> server_env \<Rightarrow> cap list \<Rightarrow> cap list \<Rightarrow> cap list \<Rightarrow> dimension \<Rightarrow> pixel_format \<Rightarrow> ('i, 'w, unit) server" where
  "server_opening rd wr env as bs cs d pf = conv_then (authPhase rd wr env) (afterAuthPhase wr env as bs cs d pf)"

definition viewer_opening :: "'i reader \<Rightarrow> 'w writer \<Rightarrow> viewer_env \<Rightarrow> ('i, 'w, unit) viewer" where
  "viewer_opening rd wr env =
     conv_then (handshake rd wr env)
     (conv_then (authenticate rd wr env (VncAuthenticationHandler rd wr env)) (clientAndServerInit rd wr env))"

text \<open>What the two send each other, up to the judgement.\<close>

definition client_side :: "server_env \<Rightarrow> viewer_env \<Rightarrow> bytes" where
  "client_side senv venv = clientVersionMsg @ 16 # be32 AuthDefs_VNC @ answer venv (challenge_bytes senv)"

definition server_side :: "server_env \<Rightarrow> bytes" where
  "server_side env = initVersionMsg @ security_offer @ auth_offer @ challenge_bytes env"

text \<open>The viewer after a successful conversation.\<close>

definition viewer_opened :: "server_env \<Rightarrow> viewer_env \<Rightarrow> cap list \<Rightarrow> cap list \<Rightarrow> cap list \<Rightarrow> dimension \<Rightarrow> pixel_format \<Rightarrow> viewer_core \<Rightarrow> viewer_core \<Rightarrow> bool" where
  "viewer_opened senv venv as bs cs d pf v v' \<longleftrightarrow>
     black_view d pf (m_view v') \<and> m_remoteDesktopName v' = ansi_to_string venv (desktop_bytes senv) \<and> m_isTight v' \<and>
     m_serverMsgCaps v' = enable_all as (m_serverMsgCaps v) \<and> m_clientMsgCaps v' = enable_all bs (m_clientMsgCaps v) \<and>
     m_encodingCaps v' = enable_all cs (m_encodingCaps v) \<and>
     add_registered venv (plist (m_encodingCaps v')) (m_decoderStore v) = Some (m_decoderStore v')"

text \<open>What an initial exchange needs from the two environments besides the passwords.\<close>

definition exchange_ok :: "server_env \<Rightarrow> viewer_env \<Rightarrow> cap list \<Rightarrow> cap list \<Rightarrow> cap list \<Rightarrow> dimension \<Rightarrow> pixel_format \<Rightarrow> bytes \<Rightarrow> string \<Rightarrow> viewer_core \<Rightarrow> bool" where
  "exchange_ok senv venv as bs cs d pf u name v \<longleftrightarrow>
     name_travels senv venv u name \<and> (\<forall>k. length (fresh venv k) = k) \<and> dim_ok d \<and> format_ok pf \<and>
     desktop_bytes senv \<noteq> [] \<and> length (desktop_bytes senv) < 2 ^ 32 \<and> 0 \<notin> set (desktop_bytes senv) \<and>
     sendable as \<and> sendable bs \<and> sendable cs \<and>
     add_registered venv (plist (enable_all cs (m_encodingCaps v))) (m_decoderStore v) \<noteq> None"

context stream_pair
begin

lemma server_opening_talks:
  assumes env: "server_ok env" "admitted env" "required env" and response: "length response = 16"
  shows "judgement env response = Inr b \<Longrightarrow> name_travels env venv u name \<Longrightarrow>
      \<exists>ob. m_viewOnlyAuth ob = b \<and> m_shared ob = flag \<and> m_username ob = name \<and>
        talks RfbInitializer_new (server_opening rd wr env as bs cs d pf)
          (clientVersionMsg @ (16 # be32 AuthDefs_VNC @ response) @ client_init flag (peerName venv) u)
          (server_side env @ be32 0 @ server_init env as bs cs d pf) (Inr ()) ob"
    and "judgement env response = Inl (AuthExn msg) \<Longrightarrow>
      \<exists>ob. talks RfbInitializer_new (server_opening rd wr env as bs cs d pf) (clientVersionMsg @ 16 # be32 AuthDefs_VNC @ response)
        (server_side env @ be32 1 @ reason_bytes env (AuthExn msg)) (Inl (AuthExn msg)) ob"
proof -
  let ?ob = "RfbInitializer_new\<lparr>m_minorVerNum := 9\<rparr>"
  note version = initVersion_talks [OF env(2) client_version(2,1), of RfbInitializer_new]
  show "\<exists>ob. m_viewOnlyAuth ob = b \<and> m_shared ob = flag \<and> m_username ob = name \<and>
        talks RfbInitializer_new (server_opening rd wr env as bs cs d pf)
          (clientVersionMsg @ (16 # be32 AuthDefs_VNC @ response) @ client_init flag (peerName venv) u)
          (server_side env @ be32 0 @ server_init env as bs cs d pf) (Inr ()) ob"
    if ok: "judgement env response = Inr b" "name_travels env venv u name"
  proof -
    let ?ob1 = "view_only b (?ob\<lparr>m_tightEnabled := True\<rparr>)"
    let ?ob2 = "?ob1\<lparr>m_shared := flag, m_username := name\<rparr>"
    have ob: "m_viewOnlyAuth ?ob2 = b" "m_tightEnabled ?ob2" "8 < m_minorVerNum ?ob1"
      by (simp_all add: view_only_def RfbInitializer_new_def)
    have auth: "talks ?ob (initAuthenticate rd wr env) (16 # be32 AuthDefs_VNC @ response)
        (security_offer @ auth_offer @ challenge_bytes env @ be32 0) (Inr ()) ?ob1"
      by (rule initAuthenticate_talks(1) [OF env response _ ok(1)]) simp
    have "talks RfbInitializer_new (server_opening rd wr env as bs cs d pf)
          (clientVersionMsg @ (16 # be32 AuthDefs_VNC @ response) @ client_init flag (peerName venv) u)
          (server_side env @ be32 0 @ server_init env as bs cs d pf) (Inr ()) ?ob2"
      unfolding server_opening_def authPhase_def
      by (rule talks_cong, rule talks_bind, rule talks_bind, rule version, rule talks_bind, rule auth,
          rule readClientInit_talks [OF ok(2) ob(3)], rule afterAuthPhase_talks [OF ob(2)]) (simp_all add: server_side_def)
    with ob(1) show ?thesis by (intro exI [of _ ?ob2]) simp
  qed
  show "\<exists>ob. talks RfbInitializer_new (server_opening rd wr env as bs cs d pf) (clientVersionMsg @ 16 # be32 AuthDefs_VNC @ response)
        (server_side env @ be32 1 @ reason_bytes env (AuthExn msg)) (Inl (AuthExn msg)) ob"
    if refused: "judgement env response = Inl (AuthExn msg)"
  proof -
    have auth: "talks ?ob (initAuthenticate rd wr env) (16 # be32 AuthDefs_VNC @ response)
        (security_offer @ auth_offer @ challenge_bytes env @ be32 1 @ reason_bytes env (AuthExn msg)) (Inl (AuthExn msg)) (?ob\<lparr>m_tightEnabled := True\<rparr>)"
      by (rule initAuthenticate_talks(2) [OF env response _ refused]) simp
    have "talks RfbInitializer_new (server_opening rd wr env as bs cs d pf) (clientVersionMsg @ 16 # be32 AuthDefs_VNC @ response)
        (server_side env @ be32 1 @ reason_bytes env (AuthExn msg)) (Inl (AuthExn msg)) (?ob\<lparr>m_tightEnabled := True\<rparr>)"
      unfolding server_opening_def authPhase_def
      by (rule talks_cong, rule talks_bind_throw, rule talks_bind, rule version, rule talks_bind_throw, rule auth) (simp_all add: server_side_def)
    then show ?thesis by blast
  qed
qed

lemma viewer_opening_talks:
  assumes env: "viewer_ok venv" and v: "knows_passwords v"
  shows "exchange_ok senv venv as bs cs d pf u name v \<Longrightarrow>
      inp.gets (rd (length (desktop_bytes senv))) (desktop_bytes senv) (desktop_bytes senv) \<Longrightarrow>
      \<exists>v'. viewer_opened senv venv as bs cs d pf v v' \<and>
        talks v (viewer_opening rd wr venv) (server_side senv @ be32 0 @ server_init senv as bs cs d pf)
          (client_side senv venv @ client_init (m_sharedFlag v) (peerName venv) u) (Inr ()) v'"
    and "viewer_of_utf8 venv (to_ansi senv msg) = Some text \<Longrightarrow> to_ansi senv msg \<noteq> [] \<Longrightarrow> length (to_ansi senv msg) < 2 ^ 32 \<Longrightarrow>
      \<exists>v'. talks v (viewer_opening rd wr venv) (server_side senv @ be32 1 @ reason_bytes senv (AuthExn msg)) (client_side senv venv)
        (Inl (AuthExn (''Authentication reason: '' @ text))) v'"
proof -
  let ?v = "v\<lparr>m_major := 3, m_minor := 9, m_isTight := False\<rparr>"
  have v': "knows_passwords ?v" "m_minor ?v = 9" using v by (simp_all add: knows_passwords_def)
  show "\<exists>v'. viewer_opened senv venv as bs cs d pf v v' \<and>
        talks v (viewer_opening rd wr venv) (server_side senv @ be32 0 @ server_init senv as bs cs d pf)
          (client_side senv venv @ client_init (m_sharedFlag v) (peerName venv) u) (Inr ()) v'"
    if x: "exchange_ok senv venv as bs cs d pf u name v"
      and whole: "inp.gets (rd (length (desktop_bytes senv))) (desktop_bytes senv) (desktop_bytes senv)"
  proof -
    have n: "m_isTight (negotiated ?v)" "m_sharedFlag (negotiated ?v) = m_sharedFlag v" "m_encodingCaps (negotiated ?v) = m_encodingCaps v"
      "m_decoderStore (negotiated ?v) = m_decoderStore v" "m_serverMsgCaps (negotiated ?v) = m_serverMsgCaps v" "m_clientMsgCaps (negotiated ?v) = m_clientMsgCaps v"
      by (simp_all add: negotiated_def)
    obtain ds where ds: "add_registered venv (plist (enable_all cs (m_encodingCaps v))) (m_decoderStore v) = Some ds"
      using x by (auto simp: exchange_ok_def)
    obtain w where w: "black_view d pf w" "talks (negotiated ?v) (clientAndServerInit rd wr venv) (server_init senv as bs cs d pf)
        (client_init (m_sharedFlag v) (peerName venv) u) (Inr ())
        (caps_read as bs cs ds ((negotiated ?v)\<lparr>m_view := w, m_isRefreshing := True, m_remoteDesktopName := ansi_to_string venv (desktop_bytes senv)\<rparr>))"
      (is "talks _ _ _ _ _ ?v'")
      using clientAndServerInit_talks [of senv venv u name d pf as bs cs "negotiated ?v" ds] x whole n ds unfolding exchange_ok_def by auto
    have "talks v (viewer_opening rd wr venv) (server_side senv @ be32 0 @ server_init senv as bs cs d pf)
          (client_side senv venv @ client_init (m_sharedFlag v) (peerName venv) u) (Inr ()) ?v'"
      unfolding viewer_opening_def
      by (rule talks_cong, rule talks_bind, rule handshake_talks, rule talks_bind, rule authenticate_talks(1) [OF env v' length_challenge], rule w(2))
        (simp_all add: server_side_def client_side_def)
    moreover have "viewer_opened senv venv as bs cs d pf v ?v'"
      using w(1) ds n by (simp add: viewer_opened_def caps_read_def)
    ultimately show ?thesis by blast
  qed
  show "\<exists>v'. talks v (viewer_opening rd wr venv) (server_side senv @ be32 1 @ reason_bytes senv (AuthExn msg)) (client_side senv venv)
        (Inl (AuthExn (''Authentication reason: '' @ text))) v'"
    if u: "viewer_of_utf8 venv (to_ansi senv msg) = Some text" "to_ansi senv msg \<noteq> []" "length (to_ansi senv msg) < 2 ^ 32"
  proof -
    have "talks v (viewer_opening rd wr venv) (server_side senv @ be32 1 @ reason_bytes senv (AuthExn msg)) (client_side senv venv)
        (Inl (AuthExn (''Authentication reason: '' @ text))) (negotiated ?v)"
      unfolding viewer_opening_def
      by (rule talks_cong, rule talks_bind, rule handshake_talks, rule talks_bind_throw, rule authenticate_talks(2) [OF env v' length_challenge u])
        (simp_all add: server_side_def client_side_def reason_bytes_def)
    then show ?thesis by blast
  qed
qed

end

section \<open>Over byte arrays\<close>

lemma byte_array_whole:
  assumes "bs \<noteq> []"
  shows "byte_in.gets (ByteArrayInputStream_read (length bs)) bs bs"
  unfolding byte_in.gets_def
proof (intro allI impI)
  fix s rest assume s: "in_valid s" "in_pending s = bs @ rest"
  have "length (in_pending s) = length bs + length rest" "0 < length bs" using assms by (simp_all add: s(2))
  with s(1) have l: "in_left s = length bs + length rest" "in_left s \<noteq> 0" "in_left s \<le> length (in_buffer s)"
    by (simp_all add: in_pending_def in_valid_def)
  have min: "min (in_left s) (length bs) = length bs" using l by simp
  have "take (length bs) (drop (length (in_buffer s) - in_left s) (in_buffer s)) = bs"
    using s(2) by (simp add: in_pending_def)
  moreover have "in_pending (s\<lparr>in_left := in_left s - length bs\<rparr>) = rest"
  proof -
    have "length (in_buffer s) - (in_left s - length bs) = length bs + (length (in_buffer s) - in_left s)" using l by simp
    then have "in_pending (s\<lparr>in_left := in_left s - length bs\<rparr>) = drop (length bs) (in_pending s)" by (simp add: in_pending_def)
    then show ?thesis by (simp add: s(2))
  qed
  ultimately show "\<exists>s'. ByteArrayInputStream_read (length bs) s = Some (bs, s') \<and> in_valid s' \<and> in_pending s' = rest"
    using l(2,3) min by (intro exI [of _ "s\<lparr>in_left := in_left s - length bs\<rparr>"]) (simp add: ByteArrayInputStream_read_def Let_def in_valid_def)
qed

text \<open>\<open>replies f ob C r ob' S\<close>: given the bytes \<open>C\<close>, \<open>f\<close> reads them all, answers \<open>S\<close> and ends with \<open>r\<close>.\<close>

definition replies ::
  "('o, byte_array_input, byte_array_output, 'a) conv \<Rightarrow> 'o \<Rightarrow> bytes \<Rightarrow> exn + 'a \<Rightarrow> 'o \<Rightarrow> bytes \<Rightarrow> bool" where
  "replies f ob C r ob' S \<longleftrightarrow>
     (\<exists>t s. f (ob, ByteArrayInputStream_new C, ByteArrayOutputStream_new [] 0) = Some (r, ob', t, s) \<and> in_pending t = [] \<and> toByteArray s = S)"

lemma talks_replies:
  assumes "byte_pair.talks ob f C S r ob'"
  shows "replies f ob C r ob' S"
proof -
  have i: "in_valid (ByteArrayInputStream_new C)" "in_pending (ByteArrayInputStream_new C) = C @ []"
    using ByteArrayInputStream_new_ok by simp_all
  from byte_pair.talks_obtain [OF assms i ByteArrayOutputStream_new_ok(1) [of "[]" 0]] show ?thesis
    unfolding replies_def by (metis ByteArrayOutputStream_new_ok(2) append_Nil)
qed

text \<open>The two methods over byte arrays.\<close>

abbreviation byte_server where
  "byte_server heap \<equiv> server_opening ByteArrayInputStream_read (ByteArrayOutputStream_write heap)"

abbreviation byte_viewer where
  "byte_viewer heap \<equiv> viewer_opening ByteArrayInputStream_read (ByteArrayOutputStream_write heap)"

lemma opening_ok:
  assumes env: "server_ok senv" "admitted senv" "required senv" and v: "viewer_ok venv" "knows_passwords v"
    and b: "judgement senv (answer venv (challenge_bytes senv)) = Inr b"
    and x: "exchange_ok senv venv as bs cs d pf u name v"
  shows "\<exists>C S ob v'. replies (byte_server heap senv as bs cs d pf) RfbInitializer_new C (Inr ()) ob S \<and>
    replies (byte_viewer heap' venv) v S (Inr ()) v' C \<and>
    m_viewOnlyAuth ob = b \<and> m_shared ob = m_sharedFlag v \<and> m_username ob = name \<and> viewer_opened senv venv as bs cs d pf v v'"
proof -
  have x': "name_travels senv venv u name" "desktop_bytes senv \<noteq> []" using x by (simp_all add: exchange_ok_def)
  obtain ob where ob: "m_viewOnlyAuth ob = b" "m_shared ob = m_sharedFlag v" "m_username ob = name"
    "byte_pair.talks RfbInitializer_new (byte_server heap senv as bs cs d pf)
      (clientVersionMsg @ (16 # be32 AuthDefs_VNC @ answer venv (challenge_bytes senv)) @ client_init (m_sharedFlag v) (peerName venv) u)
      (server_side senv @ be32 0 @ server_init senv as bs cs d pf) (Inr ()) ob"
    using byte_pair.server_opening_talks(1) [of senv "answer venv (challenge_bytes senv)" b venv u name "m_sharedFlag v" heap as bs cs d pf]
      env b x'(1) by auto
  obtain v' where v': "viewer_opened senv venv as bs cs d pf v v'"
    "byte_pair.talks v (byte_viewer heap' venv) (server_side senv @ be32 0 @ server_init senv as bs cs d pf)
      (client_side senv venv @ client_init (m_sharedFlag v) (peerName venv) u) (Inr ()) v'"
    using byte_pair.viewer_opening_talks(1) [OF v x byte_array_whole [OF x'(2)], of heap'] by blast
  have "replies (byte_viewer heap' venv) v (server_side senv @ be32 0 @ server_init senv as bs cs d pf) (Inr ()) v'
      (clientVersionMsg @ (16 # be32 AuthDefs_VNC @ answer venv (challenge_bytes senv)) @ client_init (m_sharedFlag v) (peerName venv) u)"
    using talks_replies [OF v'(2)] by (simp add: client_side_def)
  with talks_replies [OF ob(4)] ob(1-3) v'(1) show ?thesis by blast
qed

lemma refusal_ok:
  assumes env: "server_ok senv" "admitted senv" "required senv" and v: "viewer_ok venv" "knows_passwords v"
    and b: "judgement senv (answer venv (challenge_bytes senv)) = Inl (AuthExn msg)"
    and utf8: "viewer_of_utf8 venv (to_ansi senv msg) = Some reason" "to_ansi senv msg \<noteq> []" "length (to_ansi senv msg) < 2 ^ 32"
  shows "\<exists>C S ob v'. replies (byte_server heap senv as bs cs d pf) RfbInitializer_new C (Inl (AuthExn msg)) ob S \<and>
    replies (byte_viewer heap' venv) v S (Inl (AuthExn (''Authentication reason: '' @ reason))) v' C"
proof -
  obtain ob where ob: "byte_pair.talks RfbInitializer_new (byte_server heap senv as bs cs d pf)
      (clientVersionMsg @ 16 # be32 AuthDefs_VNC @ answer venv (challenge_bytes senv))
      (server_side senv @ be32 1 @ reason_bytes senv (AuthExn msg)) (Inl (AuthExn msg)) ob"
    using byte_pair.server_opening_talks(2) [of senv "answer venv (challenge_bytes senv)" msg heap as bs cs d pf] env b by auto
  obtain v' where v': "byte_pair.talks v (byte_viewer heap' venv) (server_side senv @ be32 1 @ reason_bytes senv (AuthExn msg))
      (client_side senv venv) (Inl (AuthExn (''Authentication reason: '' @ reason))) v'"
    using byte_pair.viewer_opening_talks(2) [OF v utf8, of heap'] by blast
  show ?thesis
    using talks_replies [OF ob] talks_replies [OF v'] unfolding client_side_def by (intro exI conjI)
qed

text \<open>Whatever a client sends.\<close>

lemma let_in_safely:
  assumes "authPhase ByteArrayInputStream_read wr env (RfbInitializer_new, ByteArrayInputStream_new C, w) = Some (Inr (), ob, t, w')"
    and "server_ok env" "required env"
  shows "\<exists>pre response post. C = pre @ response @ post \<and> length response = 16 \<and> judgement env response = Inr (m_viewOnlyAuth ob)"
  using byte_in.authPhase_done [OF assms(1-3)] ByteArrayInputStream_new_ok [of C] by auto

end
