(* ===== verification/ConnectionSamples.thy ===== *)
theory ConnectionSamples
  imports ConnectionCorrect
begin

text \<open>A concrete server and a concrete viewer, on which the theorems about connections are instantiated.\<close>

definition sample_password :: bytes where
  "sample_password = [115, 101, 99, 114, 101, 116, 0, 0]"

text \<open>The password as it is kept in the configuration.\<close>

definition sample_stored :: bytes where
  "sample_stored = des_blocks (key_words (map (round_key m_key) [0..<16])) 1 sample_password"

lemma sample_stored: "stored_password sample_stored = sample_password" "length sample_stored = 8"
  using des_blocks_undo [of "map (round_key m_key) [0..<16]" 1 sample_password]
  by (simp_all add: stored_password_def sample_stored_def sample_password_def)

definition sample_server :: "bool \<Rightarrow> server_env" where
  "sample_server configured =
     \<lparr>isUsingAuthentication = True, authAllowed = True, hasPrimaryPassword = False, hasReadOnlyPassword = configured,
      primaryPassword = replicate 8 0, readOnlyPassword = sample_stored, peer_address = 16777343,
      isLoopbackConnectionsAllowed = True, isOnlyLoopbackConnectionsAllowed = False, onCheckForBan = \<lambda>_. False,
      onCheckAccessControl = None, peerHost = ''localhost'', random_number = \<lambda>i. 37 * int i, computerName = Some ''desk'',
      to_ansi = chars, of_utf8 = \<lambda>bs. Some (map (\<lambda>b. char_of (unat b)) bs), stack_words = replicate 32 5, stack_bytes = replicate 16 9\<rparr>"

definition hextile_cap :: cap where
  "hextile_cap = \<lparr>cap_code = 5, vendorSignature = VENDOR_STANDARD, nameSignature = chars ''HEXTILE_''\<rparr>"

definition sample_client :: viewer_env where
  "sample_client =
     \<lparr>typed_password = [115, 101, 99, 114, 101, 116], wide_to_ansi = map ucast, ansi_to_string = map (\<lambda>b. char_of (unat b)),
      viewer_to_utf8 = \<lambda>s. Some (chars s), viewer_of_utf8 = \<lambda>bs. Some (map (\<lambda>b. char_of (unat b)) bs), peerName = ''me'',
      registered = [5 \<mapsto> (HexTileDecoder, 4)], viewer_words = replicate 32 7, viewer_bytes = replicate 16 1,
      fresh = \<lambda>k. replicate k 8\<rparr>"

definition sample_core :: "view \<Rightarrow> viewer_core" where
  "sample_core w =
     \<lparr>m_major = 0, m_minor = 0, m_isTight = False, m_sharedFlag = True,
      m_authCaps = caps_add vnc_cap ''password'' CapsContainer_new, m_serverMsgCaps = CapsContainer_new, m_clientMsgCaps = CapsContainer_new,
      m_encodingCaps = caps_add hextile_cap ''Hextile'' CapsContainer_new, m_decoderStore = DecoderStore_new,
      m_view = w, m_isRefreshing = False, m_remoteDesktopName = []\<rparr>"

definition sample_pf :: pixel_format where
  "sample_pf = \<lparr>bitsPerPixel = 32, colorDepth = 24, redMax = 255, greenMax = 255, blueMax = 255, redShift = 16, greenShift = 8, blueShift = 0,
     bigEndian = False\<rparr>"

definition sample_dim :: dimension where "sample_dim = \<lparr>width = 4, height = 3\<rparr>"

lemma sample_server_ok: "server_ok (sample_server b)" "admitted (sample_server b)" "required (sample_server b)"
  by (simp_all add: server_ok_def admitted_def required_def sample_server_def sample_stored(2))

lemma sample_client_ok: "viewer_ok sample_client" "knows_passwords (sample_core w)"
  by (simp_all add: viewer_ok_def knows_passwords_def sample_client_def sample_core_def caps_add_ok caps_new_ok)
    (simp_all add: caps_add_def CapsContainer_new_def vnc_cap_def)

lemma sample_answer: "answer sample_client c = des_response sample_password c"
proof -
  have "password_bytes (wide_to_ansi sample_client) (typed_password sample_client) = sample_password"
    unfolding sample_client_def by code_simp
  then show ?thesis by (simp only: answer_def)
qed

lemma sample_judgement: "judgement (sample_server True) (answer sample_client (challenge_bytes (sample_server True))) = Inr True"
  "judgement (sample_server False) r = Inl (AuthExn ''Server is not configured properly'')"
  unfolding sample_answer by (simp_all add: judgement_def sample_server_def sample_stored(1))

lemma sample_exchange: "exchange_ok (sample_server b) sample_client [vnc_cap] [] [hextile_cap] sample_dim sample_pf (chars ''me'') ''me'' (sample_core w)"
proof -
  have caps: "sendable [vnc_cap]" "sendable []" "sendable [hextile_cap]"
    by (simp_all add: sendable_def authInfo_cap(2)) (simp add: cap_ok_def hextile_cap_def signature_lengths chars_def)
  have "plist (enable_all [hextile_cap] (m_encodingCaps (sample_core w))) = [5]"
    using caps_enable_known(3) [of "m_encodingCaps (sample_core w)" hextile_cap]
    by (simp add: sample_core_def caps_add_ok caps_new_ok) (simp add: caps_add_def CapsContainer_new_def hextile_cap_def)
  then have "add_registered sample_client (plist (enable_all [hextile_cap] (m_encodingCaps (sample_core w)))) (m_decoderStore (sample_core w)) \<noteq> None"
    by (simp add: sample_client_def)
  moreover have "char_of (109 :: nat) = CHR ''m''" "char_of (101 :: nat) = CHR ''e''" by code_simp+
  ultimately show ?thesis
    unfolding exchange_ok_def using caps
    by (simp add: name_travels_def dim_ok_def format_ok_def desktop_bytes_def sample_client_def sample_server_def sample_dim_def sample_pf_def chars_def o_def)
qed

text \<open>The server lets a client in.\<close>

lemma sample_let_in:
  "\<exists>C ob t w'. authPhase ByteArrayInputStream_read (ByteArrayOutputStream_write []) (sample_server True)
      (RfbInitializer_new, ByteArrayInputStream_new C, ByteArrayOutputStream_new [] 0) = Some (Inr (), ob, t, w')"
proof -
  obtain C S ob where "replies (byte_server [] (sample_server True) [vnc_cap] [] [hextile_cap] sample_dim sample_pf) RfbInitializer_new C (Inr ()) ob S"
    using opening_ok [OF sample_server_ok sample_client_ok sample_judgement(1) sample_exchange] by blast
  then show ?thesis unfolding replies_def server_opening_def conv_bind_done by fast
qed

end
