(* ===== verification/Adler32.thy ===== *)
theory Adler32
  imports Prelude
begin

text \<open>
  The Adler-32 checksum of \<open>zlib/adler32.c\<close>: byte loops unrolled sixteen times, the
  modulo operation deferred for \<open>NMAX\<close> bytes, and the combination of two checksums.
  \<open>unsigned long\<close> is a 32-bit word, its smallest width; a buffer is the list of its
  bytes and the null pointer is \<open>None\<close>.
\<close>

unbundle bit_operations_syntax

section \<open>The code\<close>

type_synonym byte = "8 word"
type_synonym sums = "32 word \<times> 32 word"

definition BASE :: nat where "BASE = 65521"

definition NMAX :: nat where "NMAX = 5552"

definition MOD :: "32 word \<Rightarrow> 32 word" where
  "MOD a = a mod of_nat BASE"

definition DO1 :: "byte list \<Rightarrow> nat \<Rightarrow> sums \<Rightarrow> sums" where
  "DO1 buf i s = (case s of (adler, sum2) \<Rightarrow>
     let adler = adler + ucast (buf ! i) in (adler, sum2 + adler))"

definition DO2 :: "byte list \<Rightarrow> nat \<Rightarrow> sums \<Rightarrow> sums" where
  "DO2 buf i s = DO1 buf (i + 1) (DO1 buf i s)"

definition DO4 :: "byte list \<Rightarrow> nat \<Rightarrow> sums \<Rightarrow> sums" where
  "DO4 buf i s = DO2 buf (i + 2) (DO2 buf i s)"

definition DO8 :: "byte list \<Rightarrow> nat \<Rightarrow> sums \<Rightarrow> sums" where
  "DO8 buf i s = DO4 buf (i + 4) (DO4 buf i s)"

definition DO16 :: "byte list \<Rightarrow> sums \<Rightarrow> sums" where
  "DO16 buf s = DO8 buf 8 (DO8 buf 0 s)"

text \<open>\<open>while (len--) { adler += *buf++; sum2 += adler; }\<close>\<close>

fun adler_bytes :: "byte list \<Rightarrow> sums \<Rightarrow> sums" where
  "adler_bytes [] s = s"
| "adler_bytes (b # bs) (adler, sum2) =
     (let adler = adler + ucast b in adler_bytes bs (adler, sum2 + adler))"

text \<open>\<open>n\<close> rounds of sixteen bytes.\<close>

primrec adler_rounds :: "nat \<Rightarrow> byte list \<Rightarrow> sums \<Rightarrow> sums" where
  "adler_rounds 0 buf s = s"
| "adler_rounds (Suc n) buf s = adler_rounds n (drop 16 buf) (DO16 buf s)"

function adler_blocks :: "byte list \<Rightarrow> sums \<Rightarrow> byte list \<times> sums" where
  "adler_blocks buf s =
     (if length buf \<ge> NMAX
      then (case adler_rounds (NMAX div 16) buf s of
              (adler, sum2) \<Rightarrow> adler_blocks (drop NMAX buf) (MOD adler, MOD sum2))
      else (buf, s))"
  by pat_completeness auto
termination
  by (relation "measure (\<lambda>(buf, s). length buf)") (auto simp: NMAX_def)

declare adler_blocks.simps [simp del]

function adler_sixteens :: "byte list \<Rightarrow> sums \<Rightarrow> byte list \<times> sums" where
  "adler_sixteens buf s =
     (if length buf \<ge> 16 then adler_sixteens (drop 16 buf) (DO16 buf s) else (buf, s))"
  by pat_completeness auto
termination
  by (relation "measure (\<lambda>(buf, s). length buf)") auto

declare adler_sixteens.simps [simp del]

definition recombine :: "sums \<Rightarrow> 32 word" where
  "recombine s = (case s of (adler, sum2) \<Rightarrow> adler OR push_bit 16 sum2)"

definition adler32 :: "32 word \<Rightarrow> byte list option \<Rightarrow> 32 word" where
  "adler32 adler buf =
     (let sum2 = drop_bit 16 adler AND 0xffff; adler = adler AND 0xffff in
      case buf of
        None \<Rightarrow> 1
      | Some bs \<Rightarrow>
          if length bs = 1 then
            let adler = adler + ucast (hd bs);
                adler = (if adler \<ge> of_nat BASE then adler - of_nat BASE else adler);
                sum2 = sum2 + adler;
                sum2 = (if sum2 \<ge> of_nat BASE then sum2 - of_nat BASE else sum2)
            in recombine (adler, sum2)
          else if length bs < 16 then
            (case adler_bytes bs (adler, sum2) of
               (adler, sum2) \<Rightarrow>
                 recombine ((if adler \<ge> of_nat BASE then adler - of_nat BASE else adler), MOD sum2))
          else
            (case adler_blocks bs (adler, sum2) of
               (rest, s) \<Rightarrow>
                 if rest \<noteq> [] then
                   (case adler_sixteens rest s of
                      (rest, s) \<Rightarrow>
                        (case adler_bytes rest s of
                           (adler, sum2) \<Rightarrow> recombine (MOD adler, MOD sum2)))
                 else recombine s))"

definition adler32_combine :: "32 word \<Rightarrow> 32 word \<Rightarrow> int \<Rightarrow> 32 word" where
  "adler32_combine adler1 adler2 len2 =
     (if len2 < 0 then 0xffffffff
      else
        let rem = (word_of_int (len2 mod int BASE) :: 32 word);
            sum1 = adler1 AND 0xffff;
            sum2 = MOD (rem * sum1);
            sum1 = sum1 + ((adler2 AND 0xffff) + of_nat BASE - 1);
            sum2 = sum2 + ((drop_bit 16 adler1 AND 0xffff) + (drop_bit 16 adler2 AND 0xffff) + of_nat BASE - rem);
            sum1 = (if sum1 \<ge> of_nat BASE then sum1 - of_nat BASE else sum1);
            sum1 = (if sum1 \<ge> of_nat BASE then sum1 - of_nat BASE else sum1);
            sum2 = (if sum2 \<ge> push_bit 1 (of_nat BASE) then sum2 - push_bit 1 (of_nat BASE) else sum2);
            sum2 = (if sum2 \<ge> of_nat BASE then sum2 - of_nat BASE else sum2)
        in recombine (sum1, sum2))"

section \<open>The specification\<close>

text \<open>Adler-32 as its definition has it: both sums modulo \<open>BASE\<close> after every byte.\<close>

definition adler_step :: "nat \<times> nat \<Rightarrow> byte \<Rightarrow> nat \<times> nat" where
  "adler_step s b = (case s of (a, t) \<Rightarrow>
     let a = (a + unat b) mod BASE in (a, (t + a) mod BASE))"

definition adler_spec :: "nat \<times> nat \<Rightarrow> byte list \<Rightarrow> nat \<times> nat" where
  "adler_spec s bs = foldl adler_step s bs"

lemma adler_step_fun:
  "adler_step = (\<lambda>(a, t) b. ((a + unat b) mod BASE, (t + (a + unat b) mod BASE) mod BASE))"
  by (auto simp: adler_step_def Let_def fun_eq_iff)

text \<open>The same sums without any reduction.\<close>

fun raw_sums :: "nat \<times> nat \<Rightarrow> byte list \<Rightarrow> nat \<times> nat" where
  "raw_sums s [] = s"
| "raw_sums (a, t) (b # bs) = raw_sums (a + unat b, t + (a + unat b)) bs"

section \<open>Loops are folds\<close>

lemma adler_bytes_append: "adler_bytes (xs @ ys) s = adler_bytes ys (adler_bytes xs s)"
  by (induction xs s rule: adler_bytes.induct) (auto simp: Let_def)

lemma DO1_bytes: "i < length buf \<Longrightarrow> DO1 buf i s = adler_bytes [buf ! i] s"
  by (cases s) (simp add: DO1_def Let_def)

lemma DO16_bytes:
  assumes "16 \<le> length buf"
  shows "DO16 buf s = adler_bytes (take 16 buf) s"
proof -
  have "take 16 buf = [buf ! 0, buf ! 1, buf ! 2, buf ! 3, buf ! 4, buf ! 5, buf ! 6, buf ! 7,
      buf ! 8, buf ! 9, buf ! 10, buf ! 11, buf ! 12, buf ! 13, buf ! 14, buf ! 15]"
    using assms by (intro nth_equalityI) (auto simp: nth_Cons' less_Suc_eq eval_nat_numeral)
  then show ?thesis
    by (cases s) (simp add: DO16_def DO8_def DO4_def DO2_def DO1_def Let_def numeral_2_eq_2 numeral_3_eq_3)
qed

lemma adler_rounds_bytes: "16 * n \<le> length buf \<Longrightarrow> adler_rounds n buf s = adler_bytes (take (16 * n) buf) s"
proof (induction n arbitrary: buf s)
  case (Suc n)
  have "take (16 * Suc n) buf = take 16 buf @ take (16 * n) (drop 16 buf)"
    by (simp add: take_add)
  then show ?case using Suc by (simp add: adler_bytes_append DO16_bytes)
qed simp

lemma adler_sixteens_bytes:
  "(case adler_sixteens buf s of (rest, s) \<Rightarrow> adler_bytes rest s) = adler_bytes buf s"
proof (induction buf s rule: adler_sixteens.induct)
  case (1 buf s)
  show ?case
  proof (cases "length buf \<ge> 16")
    case True
    have "adler_bytes buf s = adler_bytes (drop 16 buf) (adler_bytes (take 16 buf) s)"
      by (simp flip: adler_bytes_append)
    then show ?thesis using True "1.IH" by (simp add: adler_sixteens.simps [of buf] DO16_bytes)
  qed (simp add: adler_sixteens.simps [of buf])
qed

section \<open>The sums without overflow\<close>

definition words :: "nat \<times> nat \<Rightarrow> sums" where
  "words s = (of_nat (fst s), of_nat (snd s))"

definition small :: "nat \<times> nat \<Rightarrow> bool" where
  "small s \<longleftrightarrow> fst s < BASE \<and> snd s < BASE"

lemma adler_bytes_raw: "adler_bytes bs (words s) = words (raw_sums s bs)"
proof (induction s bs rule: raw_sums.induct)
  case (2 a t b bs)
  have "adler_bytes (b # bs) (words (a, t)) = adler_bytes bs (words (a + unat b, t + (a + unat b)))"
    by (simp add: words_def Let_def)
  with 2 show ?case by (simp only: raw_sums.simps)
qed simp

lemma raw_bound:
  "fst (raw_sums (a, t) bs) \<le> a + 255 * length bs \<and>
   2 * snd (raw_sums (a, t) bs) \<le> 2 * t + 2 * (length bs * a) + 255 * (length bs * (length bs + 1))"
proof (induction "(a, t)" bs arbitrary: a t rule: raw_sums.induct)
  case (2 a t b bs)
  let ?n = "length bs"
  have b: "unat b \<le> 255" by (rule unat_byte_le)
  have 1: "fst (raw_sums (a, t) (b # bs)) \<le> a + unat b + 255 * ?n"
    and 2: "2 * snd (raw_sums (a, t) (b # bs)) \<le>
      2 * (t + (a + unat b)) + 2 * (?n * (a + unat b)) + 255 * (?n * (?n + 1))"
    using "2" by auto
  have "2 * (t + (a + unat b)) + 2 * (?n * (a + unat b)) \<le> 2 * (t + (a + 255)) + 2 * (?n * (a + 255))"
    using b by (intro add_mono mult_mono) auto
  then show ?case using 1 2 b by (simp add: algebra_simps)
qed simp

lemma raw_mod:
  "(fst (raw_sums (a, t) bs) mod BASE, snd (raw_sums (a, t) bs) mod BASE) =
     adler_spec (a mod BASE, t mod BASE) bs"
proof (induction "(a, t)" bs arbitrary: a t rule: raw_sums.induct)
  case (2 a t b bs)
  have "adler_step (a mod BASE, t mod BASE) b = ((a + unat b) mod BASE, (t + (a + unat b)) mod BASE)"
    by (simp add: adler_step_def Let_def mod_add_left_eq) (metis mod_add_eq mod_add_left_eq)
  with 2 show ?case by (simp add: adler_spec_def)
qed (simp add: adler_spec_def)

lemma MOD_of_nat: "n < 4294967296 \<Longrightarrow> MOD (of_nat n) = of_nat (n mod BASE)"
  unfolding MOD_def by (rule of_nat_mod32) (simp_all add: BASE_def)

text \<open>\<open>NMAX\<close> is small enough: neither sum overflows 32 bits before it is reduced.\<close>

lemma raw_fits:
  assumes "small (a, t)" "length bs \<le> NMAX"
  shows "fst (raw_sums (a, t) bs) < 4294967296" "snd (raw_sums (a, t) bs) < 4294967296"
proof -
  let ?n = "length bs"
  have n: "?n \<le> 5552" and a: "a \<le> 65520" "t \<le> 65520"
    using assms by (auto simp: NMAX_def small_def BASE_def)
  have "?n * a \<le> 5552 * 65520" "?n * (?n + 1) \<le> 5552 * 5553"
    using n a by (intro mult_mono; simp)+
  then show "fst (raw_sums (a, t) bs) < 4294967296" "snd (raw_sums (a, t) bs) < 4294967296"
    using raw_bound [of a t bs] n a by linarith+
qed

lemma reduced_block:
  assumes "small s" "length bs \<le> NMAX"
  shows "(case adler_bytes bs (words s) of (adler, sum2) \<Rightarrow> (MOD adler, MOD sum2)) = words (adler_spec s bs)"
proof -
  obtain a t where s: "s = (a, t)" by (cases s)
  have "a mod BASE = a" "t mod BASE = t" using assms(1) s by (auto simp: small_def)
  then show ?thesis
    unfolding adler_bytes_raw using raw_fits [of a t bs] assms s raw_mod [of a t bs, symmetric]
    by (simp add: words_def MOD_of_nat)
qed

lemma small_step: "small (adler_step s b)"
  by (cases s) (simp add: adler_step_def small_def Let_def BASE_def)

lemma small_spec: "small s \<Longrightarrow> small (adler_spec s bs)"
  unfolding adler_spec_def
  by (induction bs arbitrary: s) (auto simp: small_step)

lemma adler_spec_append: "adler_spec s (xs @ ys) = adler_spec (adler_spec s xs) ys"
  by (simp add: adler_spec_def)

lemma adler_blocks_spec:
  "small s \<Longrightarrow> \<exists>pre rest. buf = pre @ rest \<and> length rest < NMAX \<and>
     adler_blocks buf (words s) = (rest, words (adler_spec s pre))"
proof (induction buf "words s" arbitrary: s rule: adler_blocks.induct)
  case (1 buf s)
  show ?case
  proof (cases "length buf \<ge> NMAX")
    case True
    have "adler_rounds (NMAX div 16) buf (words s) = adler_bytes (take NMAX buf) (words s)"
      using True by (simp add: adler_rounds_bytes NMAX_def)
    then obtain x y where xy: "adler_rounds (NMAX div 16) buf (words s) = (x, y)"
      "(MOD x, MOD y) = words (adler_spec s (take NMAX buf))"
      using reduced_block [OF "1.prems", of "take NMAX buf"] by (cases "adler_bytes (take NMAX buf) (words s)") auto
    let ?s = "adler_spec s (take NMAX buf)"
    obtain pre rest where "drop NMAX buf = pre @ rest" "length rest < NMAX"
      "adler_blocks (drop NMAX buf) (words ?s) = (rest, words (adler_spec ?s pre))"
      using "1.hyps" [OF True xy(1) [symmetric], of ?s] xy(2) small_spec [OF "1.prems"] by auto
    moreover have "buf = (take NMAX buf @ pre) @ rest" using calculation(1) append_take_drop_id [of NMAX buf] by simp
    moreover have "adler_blocks buf (words s) = adler_blocks (drop NMAX buf) (words ?s)"
      using True xy by (subst adler_blocks.simps) simp
    ultimately show ?thesis
      by (metis adler_spec_append)
  next
    case False
    then show ?thesis by (subst adler_blocks.simps) (auto simp: adler_spec_def)
  qed
qed

section \<open>Splitting and recombining the checksum\<close>

definition decode :: "32 word \<Rightarrow> nat \<times> nat" where
  "decode v = (unat (v AND 0xffff), unat (drop_bit 16 v AND 0xffff))"

definition encode :: "nat \<times> nat \<Rightarrow> 32 word" where
  "encode s = recombine (words s)"

lemma words_decode: "words (decode v) = (v AND 0xffff, drop_bit 16 v AND 0xffff)"
  by (simp add: words_def decode_def)

lemma low16: "(0xffff :: 32 word) = mask 16"
  by (simp add: mask_eq_exp_minus_1)

lemma recombine_parts:
  assumes "take_bit 16 a = a" "take_bit 16 x = (x :: 32 word)"
  shows "recombine (a, x) AND 0xffff = a" "drop_bit 16 (recombine (a, x)) AND 0xffff = x"
proof -
  have a: "bit a n \<Longrightarrow> n < 16" and x: "bit x n \<Longrightarrow> n < 16" for n
    using assms by (metis bit_take_bit_iff)+
  show "recombine (a, x) AND 0xffff = a"
    unfolding low16 recombine_def by (rule bit_word_eqI) (auto simp: bit_simps dest: a x)
  show "drop_bit 16 (recombine (a, x)) AND 0xffff = x"
    unfolding low16 recombine_def by (rule bit_word_eqI) (auto simp: bit_simps dest: a x)
qed

lemma take_bit_small: "n < 65536 \<Longrightarrow> take_bit 16 (of_nat n :: 32 word) = of_nat n"
  by (simp add: take_bit_eq_mod of_nat_mod32 [of n 65536, simplified])

lemma decode_encode:
  assumes "fst s < 65536" "snd s < 65536"
  shows "decode (encode s) = s"
  using assms recombine_parts [of "of_nat (fst s)" "of_nat (snd s)"] take_bit_small [of "fst s"] take_bit_small [of "snd s"]
  by (simp add: decode_def encode_def words_def unat_of_nat32)

lemma small_decode_encode: "small s \<Longrightarrow> decode (encode s) = s"
  by (rule decode_encode) (auto simp: small_def BASE_def)

section \<open>The optimised routine computes the specification\<close>

text \<open>One conditional subtraction is a reduction of a number below twice \<open>BASE\<close>.\<close>

lemma cond_sub:
  assumes "n < 2 * BASE"
  shows "(if (of_nat n :: 32 word) \<ge> of_nat BASE then of_nat n - of_nat BASE else of_nat n) =
    (of_nat (n mod BASE) :: 32 word)"
proof -
  have "(of_nat n :: 32 word) \<ge> of_nat BASE \<longleftrightarrow> n \<ge> BASE"
    using assms by (simp add: word_le_nat_alt unat_of_nat BASE_def)
  then show ?thesis
  proof (cases "n \<ge> BASE")
    case True
    then have "n mod BASE = n - BASE" "(of_nat (n - BASE) :: 32 word) = of_nat n - of_nat BASE"
      using assms by (simp_all add: mod_if of_nat_diff)
    with True \<open>_ \<longleftrightarrow> _\<close> show ?thesis by (simp del: of_nat_diff)
  qed simp
qed

lemma adler32_encode:
  assumes "small (decode adler)"
  shows "adler32 adler (Some bs) = encode (adler_spec (decode adler) bs)"
proof -
  obtain a t where d: "decode adler = (a, t)" by (cases "decode adler")
  have at: "a < BASE" "t < BASE" using assms d by (auto simp: small_def)
  have w: "adler AND 0xffff = of_nat a" "drop_bit 16 adler AND 0xffff = of_nat t"
    using words_decode [of adler] d by (simp_all add: words_def)
  have m: "a mod BASE = a" "t mod BASE = t" using at by auto
  consider (one) b where "bs = [b]" | (short) "length bs \<noteq> 1" "length bs < 16" | (long) "16 \<le> length bs"
    by (cases "length bs = 1"; cases "length bs < 16") (auto simp: length_Suc_conv)
  then show ?thesis
  proof cases
    case one
    have b: "a + unat b < 2 * BASE" "t + (a + unat b) mod BASE < 2 * BASE"
      using at unat_byte_le [of b] by (auto simp: BASE_def)
    have "adler32 adler (Some bs) =
      (let x = (of_nat (a + unat b) :: 32 word); x = (if x \<ge> of_nat BASE then x - of_nat BASE else x);
           y = of_nat t + x; y = (if y \<ge> of_nat BASE then y - of_nat BASE else y) in recombine (x, y))"
      by (simp add: adler32_def one w Let_def)
    also have "\<dots> = (let x = of_nat ((a + unat b) mod BASE); y = of_nat (t + (a + unat b) mod BASE);
           y = (if y \<ge> of_nat BASE then y - of_nat BASE else y) in recombine (x, y))"
      unfolding Let_def cond_sub [OF b(1)] by simp
    also have "\<dots> = recombine (of_nat ((a + unat b) mod BASE), of_nat ((t + (a + unat b) mod BASE) mod BASE))"
      unfolding Let_def cond_sub [OF b(2)] by (rule refl)
    finally show ?thesis
      using one d by (simp add: encode_def words_def adler_spec_def adler_step_def Let_def)
  next
    case short
    let ?r = "raw_sums (a, t) bs"
    have le: "fst ?r \<le> a + 255 * 15" using raw_bound [of a t bs] short(2) by linarith
    then have f: "fst ?r < 2 * BASE" using at by (simp add: BASE_def)
    have g: "snd ?r < 4294967296" using raw_fits(2) [of a t bs] assms d short(2) by (simp add: NMAX_def)
    have "adler32 adler (Some bs) =
      recombine (if (of_nat (fst ?r) :: 32 word) \<ge> of_nat BASE then of_nat (fst ?r) - of_nat BASE else of_nat (fst ?r),
                 MOD (of_nat (snd ?r)))"
      using short adler_bytes_raw [of bs "(a, t)"] by (simp add: adler32_def w Let_def words_def)
    also have "\<dots> = recombine (of_nat (fst ?r mod BASE), of_nat (snd ?r mod BASE))"
      unfolding cond_sub [OF f] MOD_of_nat [OF g] by (rule refl)
    finally show ?thesis
      using raw_mod [of a t bs, symmetric] m d by (simp add: encode_def words_def)
  next
    case long
    obtain pre rest where b: "bs = pre @ rest" "length rest < NMAX"
      "adler_blocks bs (words (a, t)) = (rest, words (adler_spec (a, t) pre))"
      using adler_blocks_spec [of "(a, t)" bs] assms d by auto
    let ?s = "adler_spec (a, t) pre"
    have "small ?s" using small_spec assms d by simp
    have red: "(case adler_sixteens rest (words ?s) of (rest, s) \<Rightarrow>
        (case adler_bytes rest s of (adler, sum2) \<Rightarrow> recombine (MOD adler, MOD sum2))) = encode (adler_spec ?s rest)"
    proof -
      have "(case adler_sixteens rest (words ?s) of (rest, s) \<Rightarrow>
        (case adler_bytes rest s of (adler, sum2) \<Rightarrow> recombine (MOD adler, MOD sum2))) =
        recombine (case (case adler_sixteens rest (words ?s) of (rest, s) \<Rightarrow> adler_bytes rest s) of
          (adler, sum2) \<Rightarrow> (MOD adler, MOD sum2))"
        by (simp split: prod.split)
      then show ?thesis
        using reduced_block [OF \<open>small ?s\<close>, of rest] b(2)
        by (simp add: adler_sixteens_bytes encode_def)
    qed
    have "adler32 adler (Some bs) = (if rest \<noteq> [] then encode (adler_spec ?s rest) else recombine (words ?s))"
      using long b(3) red by (simp add: adler32_def w Let_def words_def)
    also have "\<dots> = encode (adler_spec ?s rest)" by (simp add: adler_spec_def encode_def)
    finally show ?thesis using d b(1) by (simp add: adler_spec_append)
  qed
qed

section \<open>Combining two checksums\<close>

lemma raw_linear:
  "raw_sums (a, t) bs =
     (a + fst (raw_sums (0, 0) bs), t + length bs * a + snd (raw_sums (0, 0) bs))"
proof (induction bs arbitrary: a t)
  case (Cons b bs)
  have 1: "raw_sums (a, t) (b # bs) =
      ((a + unat b) + fst (raw_sums (0, 0) bs), (t + (a + unat b)) + length bs * (a + unat b) + snd (raw_sums (0, 0) bs))"
    using Cons [of "a + unat b" "t + (a + unat b)"] by simp
  have 2: "raw_sums (0, 0) (b # bs) =
      (unat b + fst (raw_sums (0, 0) bs), unat b + length bs * unat b + snd (raw_sums (0, 0) bs))"
    using Cons [of "unat b" "unat b"] by simp
  show ?case unfolding 1 unfolding 2 by (simp add: algebra_simps)
qed simp

lemma mod_cancel_nat:
  assumes "(x + z) mod m = (y + z) mod (m :: nat)"
  shows "x mod m = y mod m"
proof -
  have "int m dvd (int (x + z) - int (y + z))"
    using assms by (metis mod_eq_dvd_iff of_nat_mod)
  then have "int m dvd (int x - int y)" by simp
  then show ?thesis by (metis mod_eq_dvd_iff of_nat_eq_iff of_nat_mod)
qed

text \<open>The nat version of the code's conditional subtraction.\<close>

definition csub :: "nat \<Rightarrow> nat \<Rightarrow> nat" where
  "csub c n = (if n \<ge> c then n - c else n)"

lemma csub_word:
  assumes "n < 4294967296" "c < 4294967296"
  shows "(if (of_nat n :: 32 word) \<ge> of_nat c then of_nat n - of_nat c else of_nat n) = (of_nat (csub c n) :: 32 word)"
  using assms by (simp add: csub_def word_le_nat_alt unat_of_nat32 of_nat_diff)

lemma csub_reduces:
  "n < 3 * BASE \<Longrightarrow> csub BASE (csub BASE n) = n mod BASE"
  "n < 4 * BASE \<Longrightarrow> csub BASE (csub (2 * BASE) n) = n mod BASE"
  by (auto simp: csub_def mod_if)

lemma adler_spec_linear:
  "small (a, t) \<Longrightarrow> adler_spec (a, t) bs =
     ((a + fst (raw_sums (0, 0) bs)) mod BASE, (t + length bs * a + snd (raw_sums (0, 0) bs)) mod BASE)"
  using raw_mod [of a t bs] raw_linear [of a t bs] by (simp add: small_def)

lemma combine_words:
  assumes "small (a1, t1)" "small (a2, t2)"
  shows "adler32_combine (encode (a1, t1)) (encode (a2, t2)) (int n) =
    encode ((a1 + (a2 + BASE - 1)) mod BASE,
            ((n mod BASE * a1) mod BASE + (t1 + t2 + BASE - n mod BASE)) mod BASE)"
proof -
  let ?r = "n mod BASE"
  have b: "a1 < BASE" "t1 < BASE" "a2 < BASE" "t2 < BASE" using assms by (auto simp: small_def)
  have d: "decode (encode (a1, t1)) = (a1, t1)" "decode (encode (a2, t2)) = (a2, t2)"
    using assms small_decode_encode by auto
  have w: "encode (a1, t1) AND 0xffff = of_nat a1" "drop_bit 16 (encode (a1, t1)) AND 0xffff = of_nat t1"
    "encode (a2, t2) AND 0xffff = of_nat a2" "drop_bit 16 (encode (a2, t2)) AND 0xffff = of_nat t2"
    using words_decode [of "encode (a1, t1)"] words_decode [of "encode (a2, t2)"] d by (simp_all add: words_def)
  have r: "?r < BASE" by (simp add: BASE_def)
  have rem: "(word_of_int (int n mod int BASE) :: 32 word) = of_nat ?r"
    by (metis of_int_of_nat_eq of_nat_mod)
  have "?r * a1 \<le> 65520 * 65520" using r b(1) by (intro mult_mono) (auto simp: BASE_def)
  then have s2: "MOD (of_nat ?r * of_nat a1) = of_nat (?r * a1 mod BASE)"
    using MOD_of_nat [of "?r * a1"] by simp
  have u: "of_nat a1 + ((of_nat a2 :: 32 word) + of_nat BASE - 1) = of_nat (a1 + (a2 + BASE - 1))"
    by (simp add: of_nat_diff BASE_def)
  have v: "of_nat (?r * a1 mod BASE) + ((of_nat t1 :: 32 word) + of_nat t2 + of_nat BASE - of_nat ?r) =
      of_nat (?r * a1 mod BASE + (t1 + t2 + BASE - ?r))"
    using r by (simp add: of_nat_diff)
  have n1: "a1 + (a2 + BASE - 1) < 3 * BASE" using b by (simp add: BASE_def)
  have "?r * a1 mod BASE < BASE" by (simp add: BASE_def)
  then have n2: "?r * a1 mod BASE + (t1 + t2 + BASE - ?r) < 4 * BASE" using b r by linarith
  have le: "csub BASE m \<le> m" "csub (2 * BASE) m \<le> m" for m by (auto simp: csub_def)
  have big: "4 * BASE < 4294967296" "push_bit 1 (of_nat BASE) = (of_nat (2 * BASE) :: 32 word)"
    by (simp_all add: BASE_def)
  note c1 = csub_word [of "a1 + (a2 + BASE - 1)" BASE] csub_word [of "csub BASE (a1 + (a2 + BASE - 1))" BASE]
  note c2 = csub_word [of "?r * a1 mod BASE + (t1 + t2 + BASE - ?r)" "2 * BASE"]
    csub_word [of "csub (2 * BASE) (?r * a1 mod BASE + (t1 + t2 + BASE - ?r))" BASE]
  have lim: "a1 + (a2 + BASE - 1) < 4294967296" "csub BASE (a1 + (a2 + BASE - 1)) < 4294967296"
    "?r * a1 mod BASE + (t1 + t2 + BASE - ?r) < 4294967296"
    "csub (2 * BASE) (?r * a1 mod BASE + (t1 + t2 + BASE - ?r)) < 4294967296" "BASE < 4294967296" "2 * BASE < 4294967296"
    using n1 n2 big(1) le(1) [of "a1 + (a2 + BASE - 1)"] le(2) [of "?r * a1 mod BASE + (t1 + t2 + BASE - ?r)"]
    by linarith+
  have "adler32_combine (encode (a1, t1)) (encode (a2, t2)) (int n) =
    recombine (of_nat (csub BASE (csub BASE (a1 + (a2 + BASE - 1)))),
      of_nat (csub BASE (csub (2 * BASE) (?r * a1 mod BASE + (t1 + t2 + BASE - ?r)))))"
    unfolding adler32_combine_def Let_def w rem s2 u v big(2) c1(1) [OF lim(1,5)] c1(2) [OF lim(2,5)]
      c2(1) [OF lim(3,6)] c2(2) [OF lim(4,5)] by simp
  then show ?thesis
    unfolding csub_reduces(1) [OF n1] csub_reduces(2) [OF n2] by (simp add: encode_def words_def)
qed

lemma adler32_combine_encode:
  assumes "small s"
  shows "adler32_combine (encode s) (encode (adler_spec (1, 0) ys)) (int (length ys)) = encode (adler_spec s ys)"
proof -
  obtain a1 t1 where s: "s = (a1, t1)" by (cases s)
  obtain S W where SW: "raw_sums (0, 0) ys = (S, W)" by (cases "raw_sums (0, 0) ys")
  let ?n = "length ys" and ?r = "length ys mod BASE"
  have one: "small (1, 0)" by (simp add: small_def BASE_def)
  have s1: "adler_spec (1, 0) ys = ((1 + S) mod BASE, (?n + W) mod BASE)"
    using adler_spec_linear [OF one, of ys] SW by simp
  have s2: "adler_spec s ys = ((a1 + S) mod BASE, (t1 + ?n * a1 + W) mod BASE)"
    using adler_spec_linear [of a1 t1 ys] assms s SW by simp
  have sm: "small ((1 + S) mod BASE, (?n + W) mod BASE)" by (simp add: small_def BASE_def)
  have "(a1 + ((1 + S) mod BASE + BASE - 1)) mod BASE = (a1 + S) mod BASE"
  proof (rule mod_cancel_nat)
    have e1: "a1 + ((1 + S) mod BASE + BASE - 1) + 1 = a1 + (1 + S) mod BASE + BASE" by (simp add: BASE_def)
    have e2: "(a1 + (1 + S) mod BASE + BASE) mod BASE = (a1 + (1 + S)) mod BASE"
      by (metis mod_add_right_eq mod_add_self2)
    have e3: "a1 + (1 + S) = a1 + S + 1" by simp
    show "(a1 + ((1 + S) mod BASE + BASE - 1) + 1) mod BASE = (a1 + S + 1) mod BASE"
      by (simp only: e1 e2 e3)
  qed
  moreover have "(?r * a1 mod BASE + (t1 + (?n + W) mod BASE + BASE - ?r)) mod BASE = (t1 + ?n * a1 + W) mod BASE"
  proof (rule mod_cancel_nat)
    have "?r \<le> BASE" by (simp add: BASE_def less_imp_le)
    then have "?r * a1 mod BASE + (t1 + (?n + W) mod BASE + BASE - ?r) + ?r =
        ?r * a1 mod BASE + t1 + (?n + W) mod BASE + BASE" by simp
    moreover have "\<dots> mod BASE = (?n * a1 + t1 + (?n + W)) mod BASE"
    proof -
      have x: "(?r * a1 mod BASE) mod BASE = (?n * a1) mod BASE" by (simp add: mod_mult_left_eq)
      have y: "((?n + W) mod BASE + BASE) mod BASE = (?n + W) mod BASE" by simp
      have "(?r * a1 mod BASE + t1 + ((?n + W) mod BASE + BASE)) mod BASE = (?n * a1 + t1 + (?n + W)) mod BASE"
        by (rule mod_add_cong [OF mod_add_cong [OF x refl] y])
      then show ?thesis by (simp only: add.assoc)
    qed
    moreover have "(t1 + ?n * a1 + W + ?r) mod BASE = (?n * a1 + t1 + (?n + W)) mod BASE"
    proof -
      have "(t1 + ?n * a1 + W + ?r) mod BASE = (t1 + ?n * a1 + W + ?n) mod BASE" by (rule mod_add_right_eq)
      then show ?thesis by (simp add: ac_simps)
    qed
    ultimately show "(?r * a1 mod BASE + (t1 + (?n + W) mod BASE + BASE - ?r) + ?r) mod BASE =
        (t1 + ?n * a1 + W + ?r) mod BASE" by presburger
  qed
  ultimately show ?thesis
    using combine_words [OF assms [unfolded s] sm, of ?n] s1 s2 s by simp
qed

end
