(* ===== verification/Crc32.thy ===== *)
theory Crc32
  imports Prelude
begin

text \<open>
  The CRC-32 checksum of \<open>zlib/crc32.c\<close>: the table generator, the byte-wise loop, the
  four-bytes-at-a-time loops for little and big endian machines, and the combination of two
  checksums with matrices over GF(2). \<open>unsigned long\<close> is a 32-bit word. Where the code
  asks for the byte order and the alignment of the buffer, both are parameters.
\<close>

unbundle bit_operations_syntax

section \<open>The tables\<close>

type_synonym w32 = "32 word"

definition crc_p :: "nat list" where
  "crc_p = [0, 1, 2, 4, 5, 7, 8, 10, 11, 12, 16, 22, 23, 26]"

definition poly :: w32 where
  "poly = foldl (\<lambda>poly p. poly OR push_bit (31 - p) 1) 0 crc_p"

text \<open>\<open>c = c & 1 ? poly ^ (c >> 1) : c >> 1\<close>\<close>

definition crc_bit :: "w32 \<Rightarrow> w32" where
  "crc_bit c = (if c AND 1 \<noteq> 0 then poly XOR drop_bit 1 c else drop_bit 1 c)"

primrec crc_bits :: "nat \<Rightarrow> w32 \<Rightarrow> w32" where
  "crc_bits 0 c = c"
| "crc_bits (Suc k) c = crc_bits k (crc_bit c)"

definition ZSWAP32 :: "w32 \<Rightarrow> w32" where
  "ZSWAP32 q = (drop_bit 24 q AND 0xff) + (drop_bit 8 q AND 0xff00) + push_bit 8 (q AND 0xff00) + push_bit 24 (q AND 0xff)"

text \<open>
  \<open>crc_table[k][n]\<close> as \<open>make_crc_table\<close> fills it: row 0 from the eight shifts of the
  byte, rows 1 to 3 from row 0 and the previous row, rows 4 to 7 with the bytes reversed.
\<close>

definition table0 :: "nat \<Rightarrow> w32" where
  "table0 n = crc_bits 8 (of_nat n)"

primrec table_little :: "nat \<Rightarrow> nat \<Rightarrow> w32" where
  "table_little 0 n = table0 n"
| "table_little (Suc k) n =
     (let c = table_little k n in table0 (unat (c AND 0xff)) XOR drop_bit 8 c)"

definition crc_table :: "nat \<Rightarrow> nat \<Rightarrow> w32" where
  "crc_table k n = (if k < 4 then table_little k n else ZSWAP32 (table_little (k - 4) n))"

section \<open>crc32\<close>

definition crc_DO1 :: "w32 \<Rightarrow> 8 word \<Rightarrow> w32" where
  "crc_DO1 crc b = crc_table 0 (unat ((crc XOR ucast b) AND 0xff)) XOR drop_bit 8 crc"

text \<open>\<open>DO8\<close>: \<open>DO1\<close> on the next eight bytes.\<close>

definition crc_DO8 :: "w32 \<Rightarrow> 8 word list \<Rightarrow> w32" where
  "crc_DO8 crc buf = foldl crc_DO1 crc (take 8 buf)"

text \<open>The portable loop: eight bytes at a time, then the rest.\<close>

function crc32_bytewise :: "w32 \<Rightarrow> 8 word list \<Rightarrow> w32" where
  "crc32_bytewise crc buf =
     (if length buf \<ge> 8 then crc32_bytewise (crc_DO8 crc buf) (drop 8 buf)
      else foldl crc_DO1 crc buf)"
  by pat_completeness auto
termination
  by (relation "measure (\<lambda>(crc, buf). length buf)") auto

declare crc32_bytewise.simps [simp del]

text \<open>A 32-bit load from the buffer on a little and on a big endian machine.\<close>

definition load_little :: "8 word list \<Rightarrow> w32" where
  "load_little b = ucast (b ! 0) OR push_bit 8 (ucast (b ! 1)) OR push_bit 16 (ucast (b ! 2)) OR push_bit 24 (ucast (b ! 3))"

definition load_big :: "8 word list \<Rightarrow> w32" where
  "load_big b = ucast (b ! 3) OR push_bit 8 (ucast (b ! 2)) OR push_bit 16 (ucast (b ! 1)) OR push_bit 24 (ucast (b ! 0))"

definition DOLIT4 :: "w32 \<Rightarrow> 8 word list \<Rightarrow> w32" where
  "DOLIT4 c buf =
     (let c = c XOR load_little buf in
      crc_table 3 (unat (c AND 0xff)) XOR crc_table 2 (unat (drop_bit 8 c AND 0xff)) XOR
      crc_table 1 (unat (drop_bit 16 c AND 0xff)) XOR crc_table 0 (unat (drop_bit 24 c)))"

definition DOBIG4 :: "w32 \<Rightarrow> 8 word list \<Rightarrow> w32" where
  "DOBIG4 c buf =
     (let c = c XOR load_big buf in
      crc_table 4 (unat (c AND 0xff)) XOR crc_table 5 (unat (drop_bit 8 c AND 0xff)) XOR
      crc_table 6 (unat (drop_bit 16 c AND 0xff)) XOR crc_table 7 (unat (drop_bit 24 c)))"

text \<open>
  \<open>n\<close> steps of four bytes (\<open>DOLIT32\<close> is eight of them), and the two word loops:
  thirty-two bytes at a time, then four.
\<close>

primrec four_steps :: "(w32 \<Rightarrow> 8 word list \<Rightarrow> w32) \<Rightarrow> nat \<Rightarrow> w32 \<Rightarrow> 8 word list \<Rightarrow> w32" where
  "four_steps do4 0 c buf = c"
| "four_steps do4 (Suc n) c buf = four_steps do4 n (do4 c buf) (drop 4 buf)"

function word_loop :: "(w32 \<Rightarrow> 8 word list \<Rightarrow> w32) \<Rightarrow> w32 \<Rightarrow> 8 word list \<Rightarrow> w32 \<times> 8 word list" where
  "word_loop do4 c buf =
     (if length buf \<ge> 32 then word_loop do4 (four_steps do4 8 c buf) (drop 32 buf)
      else if length buf \<ge> 4 then word_loop do4 (do4 c buf) (drop 4 buf)
      else (c, buf))"
  by pat_completeness auto
termination
  by (relation "measure (\<lambda>(do4, c, buf). length buf)") auto

declare word_loop.simps [simp del]

text \<open>
  \<open>addr\<close> is the address of the buffer: the byte loop runs until it is a multiple of four.
\<close>

fun align_loop :: "(w32 \<Rightarrow> 8 word \<Rightarrow> w32) \<Rightarrow> nat \<Rightarrow> w32 \<Rightarrow> 8 word list \<Rightarrow> w32 \<times> 8 word list" where
  "align_loop do1 addr c [] = (c, [])"
| "align_loop do1 addr c (b # buf) =
     (if addr mod 4 \<noteq> 0 then align_loop do1 (addr + 1) (do1 c b) buf else (c, b # buf))"

definition big_DO1 :: "w32 \<Rightarrow> 8 word \<Rightarrow> w32" where
  "big_DO1 c b = crc_table 4 (unat (drop_bit 24 c XOR ucast b)) XOR push_bit 8 c"

definition crc32_little :: "nat \<Rightarrow> w32 \<Rightarrow> 8 word list \<Rightarrow> w32" where
  "crc32_little addr crc buf =
     (let c = NOT crc;
          (c, buf) = align_loop crc_DO1 addr c buf;
          (c, buf) = word_loop DOLIT4 c buf;
          c = foldl crc_DO1 c buf
      in NOT c)"

definition crc32_big :: "nat \<Rightarrow> w32 \<Rightarrow> 8 word list \<Rightarrow> w32" where
  "crc32_big addr crc buf =
     (let c = ZSWAP32 crc; c = NOT c;
          (c, buf) = align_loop big_DO1 addr c buf;
          (c, buf) = word_loop DOBIG4 c buf;
          c = foldl big_DO1 c buf;
          c = NOT c
      in ZSWAP32 c)"

text \<open>What the machine is: without \<open>BYFOUR\<close>, little endian or big endian.\<close>

datatype machine = Portable | Little | Big

definition crc32 :: "machine \<Rightarrow> nat \<Rightarrow> w32 \<Rightarrow> 8 word list option \<Rightarrow> w32" where
  "crc32 mc addr crc buf =
     (case buf of
        None \<Rightarrow> 0
      | Some bs \<Rightarrow>
          (case mc of
             Little \<Rightarrow> crc32_little addr crc bs
           | Big \<Rightarrow> crc32_big addr crc bs
           | Portable \<Rightarrow> crc32_bytewise (crc XOR 0xffffffff) bs XOR 0xffffffff))"

section \<open>Combination\<close>

text \<open>
  A matrix is the list of its 32 columns. The pointer \<open>mat\<close> moves with the bit of
  \<open>vec\<close> under test; the loop ends when no bit is left.
\<close>

function gf2_times_loop :: "w32 list \<Rightarrow> w32 \<Rightarrow> w32 \<Rightarrow> w32" where
  "gf2_times_loop mat vec sm =
     (if vec = 0 then sm
      else gf2_times_loop (tl mat) (drop_bit 1 vec) (if vec AND 1 \<noteq> 0 then sm XOR hd mat else sm))"
  by pat_completeness auto
termination
proof (relation "measure (\<lambda>(mat, vec, sm). unat vec)")
  fix mat :: "w32 list" and vec sm :: w32
  assume "vec \<noteq> 0"
  then have "unat vec \<noteq> 0" by (simp add: unat_eq_0)
  then show "((tl mat, drop_bit 1 vec, if vec AND 1 \<noteq> 0 then sm XOR hd mat else sm), mat, vec, sm)
    \<in> measure (\<lambda>(mat, vec, sm). unat vec)"
    by (simp add: drop_bit_eq_div unat_div)
qed simp

declare gf2_times_loop.simps [simp del]

definition gf2_matrix_times :: "w32 list \<Rightarrow> w32 \<Rightarrow> w32" where
  "gf2_matrix_times mat vec = gf2_times_loop mat vec 0"

definition gf2_matrix_square :: "w32 list \<Rightarrow> w32 list" where
  "gf2_matrix_square mat = map (\<lambda>n. gf2_matrix_times mat (mat ! n)) [0..<32]"

definition odd_start :: "w32 list" where
  "odd_start = 0xedb88320 # map (\<lambda>n. push_bit (n - 1) 1) [1..<32]"

text \<open>
  The loop over the bits of \<open>len2\<close>: \<open>mat\<close> is the matrix last computed (\<open>odd\<close> before
  the first round), whose square goes into the other array; one round here is half of the
  do loop's body, which repeats itself with \<open>odd\<close> and \<open>even\<close> swapped.
\<close>

function combine_loop :: "w32 list \<Rightarrow> nat \<Rightarrow> w32 \<Rightarrow> w32" where
  "combine_loop mat len2 crc1 =
     (let sq = gf2_matrix_square mat;
          crc1 = (if odd len2 then gf2_matrix_times sq crc1 else crc1);
          len2 = len2 div 2
      in if len2 = 0 then crc1 else combine_loop sq len2 crc1)"
  by pat_completeness auto
termination
  by (relation "measure (\<lambda>(mat, len2, crc1). len2)") auto

declare combine_loop.simps [simp del]

definition crc32_combine :: "w32 \<Rightarrow> w32 \<Rightarrow> int \<Rightarrow> w32" where
  "crc32_combine crc1 crc2 len2 =
     (if len2 \<le> 0 then crc1
      else
        let two = gf2_matrix_square odd_start;
            four = gf2_matrix_square two
        in combine_loop four (nat len2) crc1 XOR crc2)"

section \<open>The specification\<close>

text \<open>The shift register, one byte after the other, with no table.\<close>

definition crc_byte :: "w32 \<Rightarrow> 8 word \<Rightarrow> w32" where
  "crc_byte c b = crc_bits 8 (c XOR ucast b)"

definition crc_spec :: "w32 \<Rightarrow> 8 word list \<Rightarrow> w32" where
  "crc_spec crc bs = NOT (foldl crc_byte (NOT crc) bs)"

section \<open>The shift register is linear\<close>

lemma and_one_bit: "(c :: w32) AND 1 \<noteq> 0 \<longleftrightarrow> bit c 0"
  by (simp add: and_one_eq mod_2_eq_odd bit_0)

lemma crc_bit_eq: "crc_bit c = (if bit c 0 then poly XOR drop_bit 1 c else drop_bit 1 c)"
  unfolding crc_bit_def and_one_bit by (rule refl)

lemma crc_bit_xor: "crc_bit (a XOR b) = crc_bit a XOR crc_bit b"
proof -
  have "(p XOR x) XOR (p XOR y) = x XOR y" "p XOR (x XOR y) = (p XOR x) XOR y"
    "p XOR (x XOR y) = x XOR (p XOR y)" for p x y :: w32
    by (rule bit_word_eqI, auto simp: bit_xor_iff)+
  then show ?thesis
    unfolding crc_bit_eq drop_bit_xor bit_xor_iff by (cases "bit a 0"; cases "bit b 0") simp_all
qed

lemma crc_bits_xor: "crc_bits n (a XOR b) = crc_bits n a XOR crc_bits n b"
  by (induction n arbitrary: a b) (simp_all add: crc_bit_xor)

lemma crc_bits_add: "crc_bits (m + n) c = crc_bits n (crc_bits m c)"
  by (induction m arbitrary: c) simp_all

lemma crc_bits_funpow: "crc_bits n c = (crc_bit ^^ n) c"
  by (induction n arbitrary: c) (simp_all add: funpow_swap1)

text \<open>A register whose low \<open>n\<close> bits are zero is only shifted by \<open>n\<close> rounds.\<close>

lemma crc_bits_shift: "take_bit n c = 0 \<Longrightarrow> crc_bits n c = drop_bit n c"
proof (induction n arbitrary: c)
  case (Suc n)
  have z: "\<not> bit c k" if "k < Suc n" for k
    using Suc.prems that by (metis bit_take_bit_iff bit_0_eq bot_apply bot_bool_def)
  then have "crc_bit c = drop_bit 1 c"
    by (simp add: crc_bit_eq)
  moreover have "take_bit n (drop_bit 1 c) = 0"
    by (rule bit_word_eqI) (use z in \<open>auto simp: bit_simps\<close>)
  ultimately show ?case using Suc.IH [of "drop_bit 1 c"] by (simp add: drop_bit_drop_bit)
qed simp

lemma crc_bits_push:
  assumes "take_bit (32 - m) z = z"
  shows "crc_bits m (push_bit m z) = z"
proof -
  have "take_bit m (push_bit m z) = 0" by (rule bit_word_eqI) (auto simp: bit_simps)
  moreover have "drop_bit m (push_bit m z) = z"
  proof (rule bit_word_eqI)
    fix n
    have "bit z n \<Longrightarrow> n + m < 32" using assms by (metis bit_take_bit_iff less_diff_conv)
    then show "bit (drop_bit m (push_bit m z)) n = bit z n" by (auto simp: bit_simps)
  qed
  ultimately show ?thesis using crc_bits_shift by metis
qed

lemma byte_low: "take_bit 8 (ucast (b :: 8 word) :: w32) = ucast b"
  by (rule bit_word_eqI) (auto simp: bit_simps dest: bit_imp_le_length)

lemma take_bit_more: "take_bit 8 (z :: w32) = z \<Longrightarrow> 8 \<le> k \<Longrightarrow> take_bit k z = z"
  by (metis take_bit_take_bit min.absorb2)

lemma mask8: "(0xff :: w32) = mask 8"
  by (simp add: mask_eq_exp_minus_1)

lemma and_ff: "(c :: w32) AND 0xff = take_bit 8 c"
  by (simp add: mask8 take_bit_eq_mask)

section \<open>The tables hold what the shift register computes\<close>

lemma crc_bits8_table: "crc_bits 8 c = table0 (unat (c AND 0xff)) XOR drop_bit 8 c"
proof -
  have "c = take_bit 8 c XOR push_bit 8 (drop_bit 8 c)"
    by (rule bit_word_eqI) (auto simp: bit_simps)
  then have "crc_bits 8 c = crc_bits 8 (take_bit 8 c) XOR crc_bits 8 (push_bit 8 (drop_bit 8 c))"
    by (metis crc_bits_xor)
  moreover have "take_bit 24 (drop_bit 8 c) = drop_bit 8 c"
    by (rule bit_word_eqI) (auto simp: bit_simps dest: bit_imp_le_length)
  ultimately show ?thesis
    by (simp add: crc_bits_push table0_def and_ff)
qed

lemma table_little_eq: "table_little k n = crc_bits (8 * (k + 1)) (of_nat n)"
proof (induction k)
  case (Suc k)
  have "crc_bits (8 * (Suc k + 1)) (of_nat n) = crc_bits 8 (crc_bits (8 * (k + 1)) (of_nat n))"
    by (simp flip: crc_bits_add)
  with Suc show ?case by (simp add: Let_def crc_bits8_table)
qed (simp add: table0_def)

lemma crc_DO1_byte: "crc_DO1 c b = crc_byte c b"
proof -
  have "drop_bit 8 (c XOR ucast b) = drop_bit 8 c"
    by (rule bit_word_eqI) (auto simp: bit_simps dest: bit_imp_le_length)
  then show ?thesis
    by (simp add: crc_DO1_def crc_byte_def crc_bits8_table crc_table_def)
qed

section \<open>Four bytes at a time\<close>

lemma crc_bits_xor_later:
  assumes "take_bit 8 z = z" "m \<le> 24"
  shows "crc_bits m y XOR z = crc_bits m (y XOR push_bit m z)"
proof -
  have "take_bit (32 - m) z = z" by (rule take_bit_more [OF assms(1)]) (use assms(2) in simp)
  from crc_bits_push [OF this] show ?thesis by (simp only: crc_bits_xor)
qed

lemma load_little_xor:
  "load_little b = ucast (b ! 0) XOR push_bit 8 (ucast (b ! 1)) XOR push_bit 16 (ucast (b ! 2)) XOR push_bit 24 (ucast (b ! 3))"
proof -
  have lt: "bit (b ! i) n \<Longrightarrow> n < 8" for i n
    using bit_imp_le_length [of "b ! i" n] by simp
  show ?thesis
    unfolding load_little_def
    by (rule bit_word_eqI) (auto simp: bit_simps dest: lt)
qed

lemma four_bytes:
  assumes "4 \<le> length buf"
  shows "foldl crc_byte c (take 4 buf) = crc_bits 32 (c XOR load_little buf)"
proof -
  obtain b0 b1 b2 b3 r where b: "buf = b0 # b1 # b2 # b3 # r"
    using assms by (auto simp: Suc_le_length_iff eval_nat_numeral)
  note z = crc_bits_xor_later [OF byte_low]
  have "crc_byte (crc_byte c b0) b1 = crc_bits 16 (c XOR ucast b0 XOR push_bit 8 (ucast b1))"
    using z [of 8] by (simp add: crc_byte_def xor.assoc flip: crc_bits_add)
  then have "crc_byte (crc_byte (crc_byte c b0) b1) b2 =
      crc_bits 24 (c XOR ucast b0 XOR push_bit 8 (ucast b1) XOR push_bit 16 (ucast b2))"
    using z [of 16] by (simp add: crc_byte_def xor.assoc flip: crc_bits_add)
  then have "crc_byte (crc_byte (crc_byte (crc_byte c b0) b1) b2) b3 =
      crc_bits 32 (c XOR ucast b0 XOR push_bit 8 (ucast b1) XOR push_bit 16 (ucast b2) XOR push_bit 24 (ucast b3))"
    using z [of 24] by (simp add: crc_byte_def xor.assoc flip: crc_bits_add)
  then show ?thesis by (simp add: b load_little_xor xor.assoc)
qed

lemma four_tables:
  "crc_bits 32 x = crc_table 3 (unat (x AND 0xff)) XOR crc_table 2 (unat (drop_bit 8 x AND 0xff)) XOR
      crc_table 1 (unat (drop_bit 16 x AND 0xff)) XOR crc_table 0 (unat (drop_bit 24 x))"
proof -
  let ?x0 = "take_bit 8 x" and ?x1 = "take_bit 8 (drop_bit 8 x)" and ?x2 = "take_bit 8 (drop_bit 16 x)" and ?x3 = "drop_bit 24 x"
  have "x = ?x0 XOR push_bit 8 ?x1 XOR push_bit 16 ?x2 XOR push_bit 24 ?x3"
    by (rule bit_word_eqI) (auto simp: bit_simps)
  then have "crc_bits 32 x = crc_bits 32 ?x0 XOR crc_bits 32 (push_bit 8 ?x1) XOR crc_bits 32 (push_bit 16 ?x2) XOR crc_bits 32 (push_bit 24 ?x3)"
    by (metis crc_bits_xor)
  moreover have "crc_bits 32 (push_bit 8 ?x1) = crc_bits 24 ?x1" "crc_bits 32 (push_bit 16 ?x2) = crc_bits 16 ?x2"
    using crc_bits_add [of 8 24 "push_bit 8 ?x1"] crc_bits_add [of 16 16 "push_bit 16 ?x2"]
    by (simp_all add: crc_bits_push)
  moreover have "take_bit 8 ?x3 = ?x3"
    by (rule bit_word_eqI) (auto simp: bit_simps dest: bit_imp_le_length)
  then have "crc_bits 32 (push_bit 24 ?x3) = crc_bits 8 ?x3"
    using crc_bits_add [of 24 8 "push_bit 24 ?x3"] by (simp add: crc_bits_push)
  ultimately show ?thesis
    by (simp add: crc_table_def table_little_eq and_ff)
qed

lemma DOLIT4_bytes: "4 \<le> length buf \<Longrightarrow> DOLIT4 c buf = foldl crc_byte c (take 4 buf)"
  by (simp add: DOLIT4_def Let_def four_bytes four_tables)

section \<open>The loops compute the specification\<close>

lemma crc_DO1_fun: "crc_DO1 = crc_byte"
  by (intro ext) (rule crc_DO1_byte)

lemma crc32_bytewise_fold: "crc32_bytewise c buf = foldl crc_byte c buf"
proof (induction c buf rule: crc32_bytewise.induct)
  case (1 c buf)
  show ?case
  proof (cases "length buf \<ge> 8")
    case True
    have "foldl crc_byte c buf = foldl crc_byte (foldl crc_byte c (take 8 buf)) (drop 8 buf)"
      by (simp flip: foldl_append)
    then show ?thesis
      using True "1.IH" by (simp add: crc32_bytewise.simps [of c buf] crc_DO8_def crc_DO1_fun)
  qed (simp add: crc32_bytewise.simps [of c buf] crc_DO1_fun)
qed

lemma foldl_take_drop: "foldl f (foldl f c (take n xs)) (drop n xs) = foldl f c xs"
  by (simp flip: foldl_append)

lemma four_steps_fold:
  assumes "\<And>c buf. 4 \<le> length buf \<Longrightarrow> do4 c buf = foldl st c (take 4 buf)"
  shows "4 * n \<le> length buf \<Longrightarrow> four_steps do4 n c buf = foldl st c (take (4 * n) buf)"
proof (induction n arbitrary: c buf)
  case (Suc n)
  have "take (4 * Suc n) buf = take 4 buf @ take (4 * n) (drop 4 buf)" by (simp add: take_add)
  then show ?case using Suc assms by simp
qed simp

lemma word_loop_fold:
  assumes "\<And>c buf. 4 \<le> length buf \<Longrightarrow> do4 c buf = foldl st c (take 4 buf)"
  shows "(case word_loop do4 c buf of (c, r) \<Rightarrow> foldl st c r) = foldl st c buf"
proof (induction "length buf" arbitrary: c buf rule: less_induct)
  case less
  consider "length buf \<ge> 32" | "\<not> length buf \<ge> 32" "length buf \<ge> 4" | "\<not> length buf \<ge> 32" "\<not> length buf \<ge> 4" by blast
  then show ?case
  proof cases
    case 1
    have "four_steps do4 8 c buf = foldl st c (take 32 buf)"
      using four_steps_fold [where ?do4.0 = do4 and st = st and n = 8, OF assms] 1 by simp
    then show ?thesis
      using less [of "drop 32 buf" "four_steps do4 8 c buf"] 1
      by (simp add: word_loop.simps [of do4 c buf] foldl_take_drop)
  next
    case 2
    then show ?thesis
      using less [of "drop 4 buf" "do4 c buf"] assms [of buf c]
      by (simp add: word_loop.simps [of do4 c buf] foldl_take_drop)
  next
    case 3
    then show ?thesis by (simp add: word_loop.simps [of do4 c buf])
  qed
qed

lemma align_loop_fold: "(case align_loop do1 addr c buf of (c, r) \<Rightarrow> foldl do1 c r) = foldl do1 c buf"
  by (induction do1 addr c buf rule: align_loop.induct) auto

lemma all_loops_fold:
  assumes "\<And>c buf. 4 \<le> length buf \<Longrightarrow> do4 c buf = foldl do1 c (take 4 buf)"
  shows "(case align_loop do1 addr c buf of (c, buf) \<Rightarrow> case word_loop do4 c buf of (c, buf) \<Rightarrow> foldl do1 c buf) =
    foldl do1 c buf"
proof -
  have "(case align_loop do1 addr c buf of (c, buf) \<Rightarrow> case word_loop do4 c buf of (c, buf) \<Rightarrow> foldl do1 c buf) =
    (case align_loop do1 addr c buf of (c, buf) \<Rightarrow> foldl do1 c buf)"
    using word_loop_fold [where ?do4.0 = do4 and st = do1, OF assms] by (simp split: prod.split)
  then show ?thesis by (simp add: align_loop_fold)
qed

lemma crc32_little_spec: "crc32_little addr crc buf = crc_spec crc buf"
proof -
  have "4 \<le> length b \<Longrightarrow> DOLIT4 c b = foldl crc_DO1 c (take 4 b)" for c b
    by (simp add: DOLIT4_bytes crc_DO1_fun)
  from all_loops_fold [where ?do1.0 = crc_DO1, OF this, of addr "NOT crc" buf]
  have "(case align_loop crc_DO1 addr (NOT crc) buf of (c, buf) \<Rightarrow> case word_loop DOLIT4 c buf of (c, buf) \<Rightarrow> foldl crc_DO1 c buf) =
    foldl crc_byte (NOT crc) buf" by (simp add: crc_DO1_fun)
  then show ?thesis by (simp add: crc32_little_def crc_spec_def split: prod.splits)
qed

section \<open>The big endian variant works on the byte-reversed register\<close>

lemma bit_ZSWAP32:
  "bit (ZSWAP32 q) i \<longleftrightarrow>
     (if i < 8 then bit q (i + 24) else if i < 16 then bit q (i + 8)
      else if i < 24 then bit q (i - 8) else i < 32 \<and> bit q (i - 24))"
proof -
  have 8: "(0xff00 :: w32) = push_bit 8 (mask 8)" by (simp add: mask_eq_exp_minus_1)
  define A B C D where "A = drop_bit 24 q AND 0xff" and "B = drop_bit 8 q AND 0xff00"
    and "C = push_bit 8 (q AND 0xff00)" and "D = push_bit 24 (q AND 0xff)"
  have b: "bit A n \<longleftrightarrow> n < 8 \<and> bit q (n + 24)" "bit B n \<longleftrightarrow> 8 \<le> n \<and> n < 16 \<and> bit q (n + 8)"
    "bit C n \<longleftrightarrow> 16 \<le> n \<and> n < 24 \<and> bit q (n - 8)" "bit D n \<longleftrightarrow> 24 \<le> n \<and> n < 32 \<and> bit q (n - 24)" for n
    unfolding 8 mask8 A_def B_def C_def D_def by (auto simp: bit_simps add.commute)
  have d: "A AND B = 0" "(A OR B) AND C = 0" "(A OR B OR C) AND D = 0"
    by (rule bit_word_eqI, auto simp: bit_and_iff bit_or_iff b)+
  have "ZSWAP32 q = A + B + C + D" by (simp only: ZSWAP32_def A_def B_def C_def D_def)
  also have "\<dots> = A OR B OR C OR D"
    using or4_add [OF d] by (rule sym)
  finally show ?thesis by (auto simp: bit_or_iff b)
qed

lemma ZSWAP32_xor: "ZSWAP32 (a XOR b) = ZSWAP32 a XOR ZSWAP32 b"
  by (rule bit_word_eqI) (simp add: bit_ZSWAP32 bit_xor_iff)

lemma ZSWAP32_not: "ZSWAP32 (NOT a) = NOT (ZSWAP32 a)"
  by (rule bit_word_eqI) (auto simp: bit_ZSWAP32 bit_not_iff)

lemma ZSWAP32_invol: "ZSWAP32 (ZSWAP32 a) = a"
  by (rule bit_word_eqI) (auto simp: bit_ZSWAP32)

lemma ZSWAP32_parts:
  "drop_bit 24 (ZSWAP32 c) = c AND 0xff" "ZSWAP32 c AND 0xff = drop_bit 24 c"
  "drop_bit 8 (ZSWAP32 c) AND 0xff = drop_bit 16 c AND 0xff" "drop_bit 16 (ZSWAP32 c) AND 0xff = drop_bit 8 c AND 0xff"
  "push_bit 8 (ZSWAP32 c) = ZSWAP32 (drop_bit 8 c)"
  unfolding and_ff
  by (rule bit_word_eqI, auto simp: bit_simps bit_ZSWAP32 add.commute dest: bit_imp_le_length)+

lemma big_DO1_swap: "big_DO1 (ZSWAP32 c) b = ZSWAP32 (crc_DO1 c b)"
proof -
  have "(c XOR ucast b) AND 0xff = (c AND 0xff) XOR ucast b"
    unfolding and_ff by (rule bit_word_eqI) (auto simp: bit_simps dest: bit_imp_le_length)
  then show ?thesis
    by (simp add: big_DO1_def crc_DO1_def crc_table_def ZSWAP32_parts ZSWAP32_xor)
qed

lemma foldl_big_DO1: "foldl big_DO1 (ZSWAP32 c) buf = ZSWAP32 (foldl crc_DO1 c buf)"
  by (induction buf arbitrary: c) (simp_all add: big_DO1_swap)

lemma load_swap: "load_big b = ZSWAP32 (load_little b)"
proof -
  have lt: "bit (b ! i) n \<Longrightarrow> n < 8" for i n
    using bit_imp_le_length [of "b ! i" n] by simp
  show ?thesis
    unfolding load_little_def load_big_def
    by (rule bit_word_eqI) (auto simp: bit_simps bit_ZSWAP32 dest: lt)
qed

lemma DOBIG4_swap: "DOBIG4 (ZSWAP32 c) buf = ZSWAP32 (DOLIT4 c buf)"
proof -
  define x where "x = c XOR load_little buf"
  have x: "ZSWAP32 c XOR load_big buf = ZSWAP32 x" by (simp add: x_def load_swap ZSWAP32_xor)
  have t: "crc_table 4 n = ZSWAP32 (crc_table 0 n)" "crc_table 5 n = ZSWAP32 (crc_table 1 n)"
    "crc_table 6 n = ZSWAP32 (crc_table 2 n)" "crc_table 7 n = ZSWAP32 (crc_table 3 n)" for n
    by (simp_all add: crc_table_def)
  show ?thesis
    unfolding DOBIG4_def DOLIT4_def Let_def x x_def [symmetric] t ZSWAP32_parts ZSWAP32_xor [symmetric]
    by (simp only: ac_simps)
qed

lemma DOBIG4_bytes:
  assumes "4 \<le> length buf"
  shows "DOBIG4 c buf = foldl big_DO1 c (take 4 buf)"
  using DOBIG4_swap [of "ZSWAP32 c" buf] foldl_big_DO1 [of "ZSWAP32 c" "take 4 buf"] DOLIT4_bytes [OF assms, of "ZSWAP32 c"]
  by (simp add: ZSWAP32_invol crc_DO1_fun)

lemma crc32_big_spec: "crc32_big addr crc buf = crc_spec crc buf"
proof -
  have "4 \<le> length b \<Longrightarrow> DOBIG4 c b = foldl big_DO1 c (take 4 b)" for c b
    by (rule DOBIG4_bytes)
  from all_loops_fold [where ?do1.0 = big_DO1, OF this, of addr "NOT (ZSWAP32 crc)" buf]
  have "(case align_loop big_DO1 addr (NOT (ZSWAP32 crc)) buf of (c, buf) \<Rightarrow> case word_loop DOBIG4 c buf of (c, buf) \<Rightarrow> foldl big_DO1 c buf) =
    ZSWAP32 (foldl crc_byte (NOT crc) buf)"
    using foldl_big_DO1 [of "NOT crc" buf] by (simp add: crc_DO1_fun ZSWAP32_not)
  then show ?thesis
    by (simp add: crc32_big_def crc_spec_def ZSWAP32_invol flip: ZSWAP32_not split: prod.splits)
qed

lemma crc32_spec: "crc32 mc addr crc (Some buf) = crc_spec crc buf"
proof -
  have "x XOR 0xffffffff = NOT x" for x :: w32
  proof -
    have m: "(0xffffffff :: w32) = - 1" by simp
    show ?thesis unfolding m by (rule bit_word_eqI) (auto simp: bit_simps)
  qed
  then show ?thesis
    by (cases mc) (simp_all add: crc32_def crc32_little_spec crc32_big_spec crc32_bytewise_fold crc_spec_def)
qed

section \<open>Combination\<close>

text \<open>A matrix stands for a map when its columns are the images of the 32 unit vectors.\<close>

definition represents :: "w32 list \<Rightarrow> (w32 \<Rightarrow> w32) \<Rightarrow> bool" where
  "represents mat f \<longleftrightarrow> length mat = 32 \<and> (\<forall>n<32. mat ! n = f (push_bit n 1))"

definition additive :: "(w32 \<Rightarrow> w32) \<Rightarrow> bool" where
  "additive f \<longleftrightarrow> (\<forall>a b. f (a XOR b) = f a XOR f b)"

lemma additive_0: "additive f \<Longrightarrow> f 0 = 0"
  unfolding additive_def by (metis xor_self_eq)

lemma split_bit0: "(vec :: w32) = (if bit vec 0 then 1 else 0) XOR push_bit 1 (drop_bit 1 vec)"
proof (rule bit_word_eqI)
  fix n assume "n < LENGTH(32)"
  then show "bit vec n = bit ((if bit vec 0 then 1 else 0) XOR push_bit 1 (drop_bit 1 vec)) n"
    unfolding bit_xor_iff bit_push_bit_iff by (cases n) (auto simp: bit_drop_bit_eq bit_1_iff)
qed

lemma gf2_times_loop_eq:
  assumes "additive f"
  shows "length mat = 32 - k \<Longrightarrow> \<forall>n<32 - k. mat ! n = f (push_bit (n + k) 1) \<Longrightarrow> k \<le> 32 \<Longrightarrow>
     take_bit (32 - k) vec = vec \<Longrightarrow> gf2_times_loop mat vec s = s XOR f (push_bit k vec)"
proof (induction mat vec s arbitrary: k rule: gf2_times_loop.induct)
  case (1 mat vec s)
  show ?case
  proof (cases "vec = 0")
    case True
    then show ?thesis by (simp add: gf2_times_loop.simps [of mat] additive_0 [OF assms])
  next
    case False
    then have k: "k < 32" using "1.prems"(3,4) by (cases "k = 32") auto
    then obtain m mat' where mat: "mat = m # mat'" using "1.prems"(1) by (cases mat) auto
    have m: "m = f (push_bit k 1)" using "1.prems"(2) k mat by force
    let ?s = "if vec AND 1 \<noteq> 0 then s XOR m else s"
    have nth: "\<forall>n<32 - Suc k. mat' ! n = f (push_bit (n + Suc k) 1)"
    proof (intro allI impI)
      fix n assume "n < 32 - Suc k"
      then show "mat' ! n = f (push_bit (n + Suc k) 1)"
        using "1.prems"(2) [rule_format, of "Suc n"] mat k by simp
    qed
    have tb: "take_bit (32 - Suc k) (drop_bit 1 vec) = drop_bit 1 vec"
    proof (rule bit_word_eqI)
      fix n
      have "bit vec (Suc n) \<Longrightarrow> Suc n < 32 - k" using "1.prems"(4) by (metis bit_take_bit_iff)
      then show "bit (take_bit (32 - Suc k) (drop_bit 1 vec)) n = bit (drop_bit 1 vec) n"
        by (auto simp: bit_simps)
    qed
    have "gf2_times_loop mat vec s = gf2_times_loop mat' (drop_bit 1 vec) ?s"
      using False by (subst gf2_times_loop.simps) (simp add: mat)
    also have "\<dots> = ?s XOR f (push_bit (Suc k) (drop_bit 1 vec))"
    proof -
      have "length (tl mat) = 32 - Suc k" "\<forall>n<32 - Suc k. tl mat ! n = f (push_bit (n + Suc k) 1)" "Suc k \<le> 32"
        using "1.prems"(1) nth k by (simp_all add: mat)
      from "1.IH" [OF False this tb] show ?thesis by (simp only: mat list.sel)
    qed
    also have "\<dots> = s XOR (f (if bit vec 0 then push_bit k 1 else 0) XOR f (push_bit (Suc k) (drop_bit 1 vec)))"
      using m by (simp add: and_one_bit additive_0 [OF assms] xor.assoc)
    also have "\<dots> = s XOR f ((if bit vec 0 then push_bit k 1 else 0) XOR push_bit (Suc k) (drop_bit 1 vec))"
      using assms by (simp add: additive_def)
    also have "(if bit vec 0 then push_bit k 1 else 0) XOR push_bit (Suc k) (drop_bit 1 vec) = push_bit k vec"
    proof -
      have "push_bit k vec = push_bit k ((if bit vec 0 then 1 else 0) XOR push_bit 1 (drop_bit 1 vec))"
        using split_bit0 [of vec] by (rule arg_cong)
      then show ?thesis by (simp add: push_bit_xor push_bit_push_bit if_distrib cong: if_cong)
    qed
    finally show ?thesis .
  qed
qed

lemma gf2_matrix_times_eq:
  assumes "additive f" "represents mat f"
  shows "gf2_matrix_times mat v = f v"
proof -
  have "take_bit 32 v = v" by (rule bit_word_eqI) (auto simp: bit_simps dest: bit_imp_le_length)
  then show ?thesis
    using gf2_times_loop_eq [OF assms(1), of mat 0 v 0] assms(2)
    by (simp add: gf2_matrix_times_def represents_def)
qed

lemma gf2_matrix_square_rep:
  assumes "additive f" "represents mat f"
  shows "represents (gf2_matrix_square mat) (f \<circ> f)"
  using assms gf2_matrix_times_eq [OF assms]
  by (simp add: represents_def gf2_matrix_square_def)

lemma additive_crc_bits: "additive (crc_bits n)"
  by (simp add: additive_def crc_bits_xor)

lemma crc_bits_twice: "crc_bits n \<circ> crc_bits n = crc_bits (2 * n)"
  by (rule ext) (simp add: mult_2 crc_bits_add)

lemma square_crc_bits: "represents mat (crc_bits n) \<Longrightarrow> represents (gf2_matrix_square mat) (crc_bits (2 * n))"
  using gf2_matrix_square_rep [OF additive_crc_bits] by (simp add: crc_bits_twice)

lemma odd_start_rep: "represents odd_start (crc_bits 1)"
proof -
  have one: "crc_bits 1 (push_bit n 1) = (if n = 0 then 0xedb88320 else push_bit (n - 1) 1)" if "n < 32" for n
  proof (cases n)
    case 0
    have "poly = 0xedb88320" by (simp add: poly_def crc_p_def)
    then show ?thesis using 0 by (simp add: crc_bit_eq)
  next
    case (Suc m)
    have "\<not> bit (push_bit n (1 :: w32)) 0" "drop_bit 1 (push_bit n 1) = (push_bit m 1 :: w32)"
      using Suc that by (auto simp: bit_simps intro!: bit_word_eqI)
    then show ?thesis using Suc by (simp add: crc_bit_eq)
  qed
  show ?thesis
    unfolding represents_def odd_start_def
  proof (intro conjI allI impI)
    fix n :: nat assume n: "n < 32"
    show "(0xedb88320 # map (\<lambda>n. push_bit (n - 1) 1) [1..<32]) ! n = crc_bits 1 (push_bit n 1)"
      using one [OF n] n by (cases n) simp_all
  qed simp
qed

lemma combine_loop_eq:
  "represents mat (crc_bits m) \<Longrightarrow> combine_loop mat n c = crc_bits (2 * m * n) c"
proof (induction mat n c arbitrary: m rule: combine_loop.induct)
  case (1 mat n c)
  note sq = square_crc_bits [OF "1.prems"]
  have t: "gf2_matrix_times (gf2_matrix_square mat) v = crc_bits (2 * m) v" for v
    by (rule gf2_matrix_times_eq [OF additive_crc_bits sq])
  let ?c = "if odd n then crc_bits (2 * m) c else c"
  have n: "2 * m * n = (if odd n then 2 * m else 0) + 2 * (2 * m) * (n div 2)"
    by (cases "odd n") (auto elim!: oddE evenE simp: algebra_simps)
  have e: "crc_bits (2 * m * n) c = crc_bits (2 * (2 * m) * (n div 2)) ?c"
    unfolding n by (simp add: crc_bits_add)
  show ?case
  proof (cases "n div 2 = 0")
    case True
    then show ?thesis using e by (simp add: combine_loop.simps [of mat n c] Let_def t)
  next
    case False
    have "combine_loop (gf2_matrix_square mat) (n div 2) ?c = crc_bits (2 * (2 * m) * (n div 2)) ?c"
      using "1.IH" [OF refl refl refl False sq] by (simp only: t)
    moreover have "combine_loop mat n c = combine_loop (gf2_matrix_square mat) (n div 2) ?c"
      by (subst combine_loop.simps) (simp only: Let_def t False if_False)
    ultimately show ?thesis using e by simp
  qed
qed

lemma foldl_crc_byte_xor:
  "foldl crc_byte (c XOR d) bs = foldl crc_byte c bs XOR crc_bits (8 * length bs) d"
proof (induction bs arbitrary: c d)
  case (Cons b bs)
  have "crc_byte (c XOR d) b = crc_byte c b XOR crc_bits 8 d"
    by (simp add: crc_byte_def crc_bits_xor ac_simps)
  then show ?case using Cons by (simp flip: crc_bits_add)
qed simp

lemma crc32_combine_spec:
  "crc32_combine (crc_spec crc xs) (crc_spec 0 ys) (int (length ys)) = crc_spec crc (xs @ ys)"
proof (cases "ys = []")
  case True
  then show ?thesis by (simp add: crc32_combine_def)
next
  case False
  have "represents (gf2_matrix_square (gf2_matrix_square odd_start)) (crc_bits 4)"
    using square_crc_bits [OF square_crc_bits [OF odd_start_rep]] by simp
  from combine_loop_eq [OF this]
  have "crc32_combine (crc_spec crc xs) (crc_spec 0 ys) (int (length ys)) =
    crc_bits (8 * length ys) (crc_spec crc xs) XOR crc_spec 0 ys"
    using False by (simp add: crc32_combine_def Let_def)
  moreover have "foldl crc_byte (NOT crc) (xs @ ys) =
      foldl crc_byte (NOT 0 XOR crc_spec crc xs) ys"
    by (simp add: crc_spec_def)
  ultimately show ?thesis
    unfolding foldl_crc_byte_xor by (simp add: crc_spec_def ac_simps)
qed

lemma crc_byte_fun: "crc_byte = (\<lambda>c b. (crc_bit ^^ 8) (c XOR ucast b))"
  by (intro ext) (simp only: crc_byte_def crc_bits_funpow)

end
