(* ===== verification/SctpSha1.thy ===== *)
theory SctpSha1
  imports Prelude
begin

text \<open>
  The SHA-1 of the SCTP stack, \<open>usrsctplib/netinet/sctp_sha1.c\<close>, in the configuration with
  its own implementation. The context is a record; a buffer is the list of its bytes; the
  array \<open>words\<close> is filled in place. The specification follows the standard: padding,
  blocks of sixteen words, a recursive message schedule and eighty rounds.
\<close>

unbundle bit_operations_syntax

section \<open>The code\<close>

type_synonym word32 = "32 word"
type_synonym octets = "8 word list"

definition F1 :: "word32 \<Rightarrow> word32 \<Rightarrow> word32 \<Rightarrow> word32" where
  "F1 b c d = ((b AND c) OR (NOT b AND d))"

definition F2 :: "word32 \<Rightarrow> word32 \<Rightarrow> word32 \<Rightarrow> word32" where
  "F2 b c d = b XOR c XOR d"

definition F3 :: "word32 \<Rightarrow> word32 \<Rightarrow> word32 \<Rightarrow> word32" where
  "F3 b c d = ((b AND c) OR (b AND d) OR (c AND d))"

definition F4 :: "word32 \<Rightarrow> word32 \<Rightarrow> word32 \<Rightarrow> word32" where
  "F4 b c d = b XOR c XOR d"

definition CSHIFT :: "nat \<Rightarrow> word32 \<Rightarrow> word32" where
  "CSHIFT a b = (push_bit a b OR drop_bit (32 - a) b)"

definition K1 :: word32 where "K1 = 0x5a827999"
definition K2 :: word32 where "K2 = 0x6ed9eba1"
definition K3 :: word32 where "K3 = 0x8f1bbcdc"
definition K4 :: word32 where "K4 = 0xca62c1d6"

definition H0INIT :: word32 where "H0INIT = 0x67452301"
definition H1INIT :: word32 where "H1INIT = 0xefcdab89"
definition H2INIT :: word32 where "H2INIT = 0x98badcfe"
definition H3INIT :: word32 where "H3INIT = 0x10325476"
definition H4INIT :: word32 where "H4INIT = 0xc3d2e1f0"

record sha1_context =
  sA :: word32
  sB :: word32
  sC :: word32
  sD :: word32
  sE :: word32
  H0 :: word32
  H1 :: word32
  H2 :: word32
  H3 :: word32
  H4 :: word32
  sha_words :: "word32 list"
  TEMP :: word32
  sha_block :: octets
  how_many_in_block :: nat
  running_total :: word32

text \<open>The array \<open>sha_block\<close> keeps what it held.\<close>

definition sctp_sha1_init :: "sha1_context \<Rightarrow> sha1_context" where
  "sctp_sha1_init ctx = ctx\<lparr>sA := 0, sB := 0, sC := 0, sD := 0, sE := 0,
     H0 := H0INIT, H1 := H1INIT, H2 := H2INIT, H3 := H3INIT, H4 := H4INIT,
     TEMP := 0, sha_words := replicate 80 0, how_many_in_block := 0, running_total := 0\<rparr>"

text \<open>\<open>ntohl(block[i])\<close>: the bytes of the block hold its words most significant byte first.\<close>

definition ntohl_word :: "octets \<Rightarrow> nat \<Rightarrow> word32" where
  "ntohl_word block i =
     push_bit 24 (ucast (block ! (4 * i))) OR push_bit 16 (ucast (block ! (4 * i + 1))) OR
     push_bit 8 (ucast (block ! (4 * i + 2))) OR ucast (block ! (4 * i + 3))"

definition sha1_extend :: "word32 list \<Rightarrow> nat \<Rightarrow> word32 list" where
  "sha1_extend w i = w[i := CSHIFT 1 (w ! (i - 3) XOR w ! (i - 8) XOR w ! (i - 14) XOR w ! (i - 16))]"

definition sha1_round :: "sha1_context \<Rightarrow> nat \<Rightarrow> sha1_context" where
  "sha1_round ctx i =
     (let ctx = ctx\<lparr>TEMP :=
            (if i < 20 then CSHIFT 5 (sA ctx) + F1 (sB ctx) (sC ctx) (sD ctx) + sE ctx + sha_words ctx ! i + K1
             else if i < 40 then CSHIFT 5 (sA ctx) + F2 (sB ctx) (sC ctx) (sD ctx) + sE ctx + sha_words ctx ! i + K2
             else if i < 60 then CSHIFT 5 (sA ctx) + F3 (sB ctx) (sC ctx) (sD ctx) + sE ctx + sha_words ctx ! i + K3
             else CSHIFT 5 (sA ctx) + F4 (sB ctx) (sC ctx) (sD ctx) + sE ctx + sha_words ctx ! i + K4)\<rparr>;
          ctx = ctx\<lparr>sE := sD ctx\<rparr>;
          ctx = ctx\<lparr>sD := sC ctx\<rparr>;
          ctx = ctx\<lparr>sC := CSHIFT 30 (sB ctx)\<rparr>;
          ctx = ctx\<lparr>sB := sA ctx\<rparr>
      in ctx\<lparr>sA := TEMP ctx\<rparr>)"

definition sctp_sha1_process_a_block :: "sha1_context \<Rightarrow> octets \<Rightarrow> sha1_context" where
  "sctp_sha1_process_a_block ctx block =
     (let w = foldl (\<lambda>w i. w[i := ntohl_word block i]) (sha_words ctx) [0..<16];
          w = foldl sha1_extend w [16..<80];
          ctx = ctx\<lparr>sha_words := w\<rparr>;
          ctx = ctx\<lparr>sA := H0 ctx, sB := H1 ctx, sC := H2 ctx, sD := H3 ctx, sE := H4 ctx\<rparr>;
          ctx = foldl sha1_round ctx [0..<80]
      in ctx\<lparr>H0 := H0 ctx + sA ctx, H1 := H1 ctx + sB ctx, H2 := H2 ctx + sC ctx,
             H3 := H3 ctx + sD ctx, H4 := H4 ctx + sE ctx\<rparr>)"

text \<open>\<open>memcpy(&block[off], bs, length of bs)\<close>\<close>

definition put_bytes :: "octets \<Rightarrow> nat \<Rightarrow> octets \<Rightarrow> octets" where
  "put_bytes block off bs = take off block @ bs @ drop (off + length bs) block"

text \<open>
  \<open>left_to_fill\<close> is an unsigned difference. A context with a full block is processed with
  nothing copied and goes on empty, so the loop ends from every state.
\<close>

definition left_to_fill :: "sha1_context \<Rightarrow> nat" where
  "left_to_fill ctx = nat ((64 - int (how_many_in_block ctx)) mod 4294967296)"

function sctp_sha1_update :: "sha1_context \<Rightarrow> octets \<Rightarrow> sha1_context" where
  "sctp_sha1_update ctx ptr =
     (if ptr = [] then ctx
      else if left_to_fill ctx > length ptr then
        ctx\<lparr>sha_block := put_bytes (sha_block ctx) (how_many_in_block ctx) ptr,
            how_many_in_block := how_many_in_block ctx + length ptr,
            running_total := running_total ctx + of_nat (length ptr)\<rparr>
      else
        let n = left_to_fill ctx;
            ctx = ctx\<lparr>sha_block := put_bytes (sha_block ctx) (how_many_in_block ctx) (take n ptr)\<rparr>;
            ctx = sctp_sha1_process_a_block ctx (sha_block ctx)
        in sctp_sha1_update
             (ctx\<lparr>running_total := running_total ctx + of_nat n, how_many_in_block := 0\<rparr>) (drop n ptr))"
  by pat_completeness auto
termination
proof (relation "measures [\<lambda>(ctx, ptr). length ptr, \<lambda>(ctx, ptr). how_many_in_block ctx]", goal_cases)
  case (2 ctx ptr n ctx1 ctx2)
  then show ?case
    by (cases "how_many_in_block ctx = 0") (auto simp: left_to_fill_def)
qed simp

declare sctp_sha1_update.simps [simp del]

text \<open>\<open>for (i = ...; i < 64; i++) sha_block[i] = 0\<close>\<close>

definition zero_from :: "octets \<Rightarrow> nat \<Rightarrow> octets" where
  "zero_from block n = foldl (\<lambda>b i. b[i := 0]) block [n..<64]"

text \<open>\<open>*ptr = htonl(v)\<close> for a pointer to the last four bytes of the block.\<close>

definition put_htonl :: "octets \<Rightarrow> word32 \<Rightarrow> octets" where
  "put_htonl block v =
     put_bytes block 60 [ucast (drop_bit 24 v), ucast (drop_bit 16 v), ucast (drop_bit 8 v), ucast v]"

definition word_bytes :: "word32 \<Rightarrow> octets" where
  "word_bytes h = [ucast (drop_bit 24 h AND 0xff), ucast (drop_bit 16 h AND 0xff), ucast (drop_bit 8 h AND 0xff), ucast (h AND 0xff)]"

definition sha1_size_block :: "sha1_context \<Rightarrow> sha1_context" where
  "sha1_size_block ctx =
     (let ctx = ctx\<lparr>running_total := running_total ctx * 8\<rparr>;
          ctx = ctx\<lparr>sha_block := put_htonl (sha_block ctx) (running_total ctx)\<rparr>
      in sctp_sha1_process_a_block ctx (sha_block ctx))"

definition sctp_sha1_final :: "sha1_context \<Rightarrow> octets \<times> sha1_context" where
  "sctp_sha1_final ctx =
     (let n = how_many_in_block ctx;
          ctx =
            (if n > 55 then
               (if left_to_fill ctx = 0 then
                  let ctx = sctp_sha1_process_a_block ctx (sha_block ctx)
                  in ctx\<lparr>sha_block := zero_from ((sha_block ctx)[0 := 0x80]) 1\<rparr>
                else if left_to_fill ctx = 1 then
                  let ctx = ctx\<lparr>sha_block := (sha_block ctx)[n := 0x80]\<rparr>;
                      ctx = sctp_sha1_process_a_block ctx (sha_block ctx)
                  in ctx\<lparr>sha_block := replicate 64 0\<rparr>
                else
                  let ctx = ctx\<lparr>sha_block := zero_from ((sha_block ctx)[n := 0x80]) (n + 1)\<rparr>;
                      ctx = sctp_sha1_process_a_block ctx (sha_block ctx)
                  in ctx\<lparr>sha_block := replicate 64 0\<rparr>)
             else ctx\<lparr>sha_block := zero_from ((sha_block ctx)[n := 0x80]) (n + 1)\<rparr>);
          ctx = sha1_size_block ctx
      in (word_bytes (H0 ctx) @ word_bytes (H1 ctx) @ word_bytes (H2 ctx) @ word_bytes (H3 ctx) @ word_bytes (H4 ctx), ctx))"

section \<open>The specification\<close>

type_synonym sha_state = "word32 \<times> word32 \<times> word32 \<times> word32 \<times> word32"

definition sha_f :: "nat \<Rightarrow> word32 \<Rightarrow> word32 \<Rightarrow> word32 \<Rightarrow> word32" where
  "sha_f t x y z =
     (if t < 20 then (x AND y) XOR (NOT x AND z)
      else if t < 40 then x XOR y XOR z
      else if t < 60 then (x AND y) XOR (x AND z) XOR (y AND z)
      else x XOR y XOR z)"

definition sha_k :: "nat \<Rightarrow> word32" where
  "sha_k t = (if t < 20 then 0x5a827999 else if t < 40 then 0x6ed9eba1 else if t < 60 then 0x8f1bbcdc else 0xca62c1d6)"

text \<open>Big endian numbers: the value of a list of bytes, and the last \<open>k\<close> bytes of a number.\<close>

definition be_val :: "octets \<Rightarrow> nat" where
  "be_val bs = foldl (\<lambda>n b. 256 * n + unat b) 0 bs"

definition be_bytes :: "nat \<Rightarrow> nat \<Rightarrow> octets" where
  "be_bytes k n = map (\<lambda>i. of_nat (n div 256 ^ (k - 1 - i))) [0..<k]"

fun sha_W :: "octets \<Rightarrow> nat \<Rightarrow> word32" where
  "sha_W block t =
     (if t < 16 then of_nat (be_val (take 4 (drop (4 * t) block)))
      else word_rotl 1 (sha_W block (t - 3) XOR sha_W block (t - 8) XOR sha_W block (t - 14) XOR sha_W block (t - 16)))"

declare sha_W.simps [simp del]

definition sha_round :: "octets \<Rightarrow> sha_state \<Rightarrow> nat \<Rightarrow> sha_state" where
  "sha_round block s t = (case s of (a, b, c, d, e) \<Rightarrow>
     (word_rotl 5 a + sha_f t b c d + e + sha_k t + sha_W block t, a, word_rotl 30 b, c, d))"

definition sha_compress :: "sha_state \<Rightarrow> octets \<Rightarrow> sha_state" where
  "sha_compress s block = (case s of (h0, h1, h2, h3, h4) \<Rightarrow>
     (case foldl (sha_round block) s [0..<80] of (a, b, c, d, e) \<Rightarrow> (h0 + a, h1 + b, h2 + c, h3 + d, h4 + e)))"

function sha_blocks :: "sha_state \<Rightarrow> octets \<Rightarrow> sha_state" where
  "sha_blocks s m = (if length m \<ge> 64 then sha_blocks (sha_compress s (take 64 m)) (drop 64 m) else s)"
  by pat_completeness auto
termination
  by (relation "measure (\<lambda>(s, m). length m)") auto

declare sha_blocks.simps [simp del]

definition sha_pad :: "octets \<Rightarrow> octets" where
  "sha_pad m = m @ [0x80] @ replicate ((119 - length m mod 64) mod 64) 0 @ be_bytes 8 (8 * length m)"

abbreviation sha_init_state :: sha_state where
  "sha_init_state \<equiv> (0x67452301, 0xefcdab89, 0x98badcfe, 0x10325476, 0xc3d2e1f0)"

definition digest_bytes :: "sha_state \<Rightarrow> octets" where
  "digest_bytes s = (case s of (h0, h1, h2, h3, h4) \<Rightarrow> concat (map (\<lambda>h. be_bytes 4 (unat h)) [h0, h1, h2, h3, h4]))"

definition sha1_spec :: "octets \<Rightarrow> octets" where
  "sha1_spec m = digest_bytes (sha_blocks sha_init_state (sha_pad m))"

section \<open>The compression of a block\<close>

lemma ucast_drop_bit:
  assumes "k \<le> 24"
  shows "(ucast (drop_bit k h AND 0xff) :: 8 word) = of_nat (unat (h :: 32 word) div 2 ^ k)"
proof -
  have m: "(0xff :: 32 word) = mask 8" by (simp add: mask_eq_exp_minus_1)
  have "ucast (drop_bit k h AND 0xff) = (ucast (drop_bit k h) :: 8 word)"
    unfolding m by (rule bit_word_eqI) (auto simp: bit_simps)
  also have "\<dots> = of_nat (unat (drop_bit k h))" by simp
  also have "unat (drop_bit k h) = unat h div 2 ^ k"
    using unat_drop_bit_eq [of k h] drop_bit_eq_div [of k "unat h"] by (rule trans)
  finally show ?thesis .
qed

lemma CSHIFT_rotl:
  assumes "0 < a" "a < 32"
  shows "CSHIFT a b = word_rotl a b"
proof (rule bit_word_eqI)
  fix n :: nat assume "n < LENGTH(32)"
  then show "bit (CSHIFT a b) n = bit (word_rotl a b) n"
    using assms by (auto simp: CSHIFT_def bit_simps mod_if add.commute [of n 32] dest: bit_imp_le_length)
qed

lemma ntohl_word_val:
  assumes "4 * i + 4 \<le> length block"
  shows "ntohl_word block i = of_nat (be_val (take 4 (drop (4 * i) block)))"
proof -
  have t: "take 4 (drop (4 * i) block) = [block ! (4 * i), block ! (4 * i + 1), block ! (4 * i + 2), block ! (4 * i + 3)]"
    using assms by (intro nth_equalityI) (auto simp: nth_Cons' less_Suc_eq eval_nat_numeral)
  define A B C D :: word32 where "A = push_bit 24 (ucast (block ! (4 * i)))" and "B = push_bit 16 (ucast (block ! (4 * i + 1)))"
    and "C = push_bit 8 (ucast (block ! (4 * i + 2)))" and "D = ucast (block ! (4 * i + 3))"
  have b: "bit A n \<Longrightarrow> 24 \<le> n" "bit B n \<Longrightarrow> 16 \<le> n \<and> n < 24" "bit C n \<Longrightarrow> 8 \<le> n \<and> n < 16" "bit D n \<Longrightarrow> n < 8" for n
    unfolding A_def B_def C_def D_def by (auto simp: bit_simps dest: bit_imp_le_length)
  have d: "A AND B = 0" "(A OR B) AND C = 0" "(A OR B OR C) AND D = 0"
    by (rule bit_word_eqI, auto simp: bit_and_iff bit_or_iff dest!: b)+
  have "ntohl_word block i = A + B + C + D"
    using or4_add [OF d] by (simp only: ntohl_word_def A_def B_def C_def D_def)
  also have "\<dots> = of_nat (be_val (take 4 (drop (4 * i) block)))"
    unfolding t A_def B_def C_def D_def by (simp add: be_val_def push_bit_eq_mult algebra_simps)
  finally show ?thesis .
qed

lemma word_bytes_be: "word_bytes h = be_bytes 4 (unat h)"
proof -
  have "[0..<4] = [0, 1, 2, 3::nat]" by (simp add: upt_rec)
  then show ?thesis
    using ucast_drop_bit [of 0 h] ucast_drop_bit [of 8 h] ucast_drop_bit [of 16 h] ucast_drop_bit [of 24 h]
    by (simp add: word_bytes_def be_bytes_def)
qed

lemma F_eq:
  "i < 20 \<Longrightarrow> F1 b c d = sha_f i b c d"
  "\<not> i < 20 \<Longrightarrow> i < 40 \<Longrightarrow> F2 b c d = sha_f i b c d"
  "\<not> i < 40 \<Longrightarrow> i < 60 \<Longrightarrow> F3 b c d = sha_f i b c d"
  "\<not> i < 60 \<Longrightarrow> F4 b c d = sha_f i b c d"
  by (auto simp: F1_def F2_def F3_def F4_def sha_f_def bit_simps intro!: bit_word_eqI)

text \<open>The five working variables and the five chaining variables of a context.\<close>

definition regs :: "sha1_context \<Rightarrow> sha_state" where
  "regs ctx = (sA ctx, sB ctx, sC ctx, sD ctx, sE ctx)"

definition chain :: "sha1_context \<Rightarrow> sha_state" where
  "chain ctx = (H0 ctx, H1 ctx, H2 ctx, H3 ctx, H4 ctx)"

lemma sha1_round_regs:
  assumes "sha_words ctx ! i = sha_W block i"
  shows "regs (sha1_round ctx i) = sha_round block (regs ctx) i"
  using assms F_eq [of i "sB ctx" "sC ctx" "sD ctx"]
  by (simp add: sha1_round_def sha_round_def regs_def Let_def CSHIFT_rotl sha_k_def K1_def K2_def K3_def K4_def ac_simps)

lemma sha1_round_frame [simp]:
  "chain (sha1_round ctx i) = chain ctx" "sha_words (sha1_round ctx i) = sha_words ctx"
  "sha_block (sha1_round ctx i) = sha_block ctx" "how_many_in_block (sha1_round ctx i) = how_many_in_block ctx"
  "running_total (sha1_round ctx i) = running_total ctx"
  by (simp_all add: sha1_round_def Let_def chain_def)

lemma sha1_rounds:
  assumes "\<forall>i \<in> set is. sha_words ctx ! i = sha_W block i"
  shows "regs (foldl sha1_round ctx is) = foldl (sha_round block) (regs ctx) is \<and>
    chain (foldl sha1_round ctx is) = chain ctx \<and> sha_words (foldl sha1_round ctx is) = sha_words ctx \<and>
    sha_block (foldl sha1_round ctx is) = sha_block ctx \<and>
    how_many_in_block (foldl sha1_round ctx is) = how_many_in_block ctx \<and>
    running_total (foldl sha1_round ctx is) = running_total ctx"
  using assms by (induction "is" arbitrary: ctx) (simp_all add: sha1_round_regs)

lemma load_words:
  assumes "n \<le> length w"
  shows "length (foldl (\<lambda>w i. w[i := f i]) w [0..<n]) = length w \<and>
    (\<forall>i<n. foldl (\<lambda>w i. w[i := f i]) w [0..<n] ! i = f i)"
  using assms by (induction n) (auto simp: nth_list_update less_Suc_eq)

lemma schedule:
  assumes "length w = 80" "\<forall>i<16. w ! i = sha_W block i"
  shows "16 + n \<le> 80 \<Longrightarrow> length (foldl sha1_extend w [16..<16 + n]) = 80 \<and>
    (\<forall>i<16 + n. foldl sha1_extend w [16..<16 + n] ! i = sha_W block i)"
proof (induction n)
  case (Suc n)
  let ?w = "foldl sha1_extend w [16..<16 + n]"
  have IH: "length ?w = 80" "\<And>i. i < 16 + n \<Longrightarrow> ?w ! i = sha_W block i" using Suc by auto
  have "sha_W block (16 + n) = CSHIFT 1 (?w ! (16 + n - 3) XOR ?w ! (16 + n - 8) XOR ?w ! (16 + n - 14) XOR ?w ! (16 + n - 16))"
    using IH(2) [of "16 + n - 3"] IH(2) [of "16 + n - 8"] IH(2) [of "16 + n - 14"] IH(2) [of "16 + n - 16"]
    by (subst sha_W.simps) (simp add: CSHIFT_rotl)
  then have s: "sha1_extend ?w (16 + n) = ?w[16 + n := sha_W block (16 + n)]"
    by (simp add: sha1_extend_def)
  have u: "[16..<16 + Suc n] = [16..<16 + n] @ [16 + n]" by (metis add_Suc_right le_add1 upt_Suc_append)
  show ?case
    unfolding u foldl_append using IH Suc.prems by (auto simp: s nth_list_update less_Suc_eq)
qed (use assms in simp)

definition sha_add :: "sha_state \<Rightarrow> sha_state \<Rightarrow> sha_state" where
  "sha_add s r = (case s of (h0, h1, h2, h3, h4) \<Rightarrow> case r of (a, b, c, d, e) \<Rightarrow> (h0 + a, h1 + b, h2 + c, h3 + d, h4 + e))"

lemma process_a_block:
  assumes "length block = 64" "length (sha_words ctx) = 80"
  shows "chain (sctp_sha1_process_a_block ctx block) = sha_compress (chain ctx) block \<and>
    length (sha_words (sctp_sha1_process_a_block ctx block)) = 80 \<and>
    sha_block (sctp_sha1_process_a_block ctx block) = sha_block ctx \<and>
    how_many_in_block (sctp_sha1_process_a_block ctx block) = how_many_in_block ctx \<and>
    running_total (sctp_sha1_process_a_block ctx block) = running_total ctx"
proof -
  define w0 where "w0 = foldl (\<lambda>w i. w[i := ntohl_word block i]) (sha_words ctx) [0..<16]"
  have w0: "length w0 = 80" "\<forall>i<16. w0 ! i = sha_W block i"
    using load_words [of 16 "sha_words ctx" "ntohl_word block"] assms
    by (auto simp: w0_def ntohl_word_val sha_W.simps)
  define w where "w = foldl sha1_extend w0 [16..<80]"
  have w: "length w = 80" "\<forall>i<80. w ! i = sha_W block i"
    using schedule [OF w0, of 64] by (simp_all add: w_def)
  define c where "c = ctx\<lparr>sha_words := w, sA := H0 ctx, sB := H1 ctx, sC := H2 ctx, sD := H3 ctx, sE := H4 ctx\<rparr>"
  have c: "sha_words c = w" "chain c = chain ctx" "regs c = chain ctx" "sha_block c = sha_block ctx"
    "how_many_in_block c = how_many_in_block ctx" "running_total c = running_total ctx"
    by (simp_all add: c_def chain_def regs_def)
  define r where "r = foldl sha1_round c [0..<80]"
  have r: "regs r = foldl (sha_round block) (chain ctx) [0..<80]" "chain r = chain ctx" "sha_words r = w"
    "sha_block r = sha_block ctx" "how_many_in_block r = how_many_in_block ctx" "running_total r = running_total ctx"
    using sha1_rounds [of "[0..<80]" c block] w(2) by (auto simp: c r_def)
  have p: "sctp_sha1_process_a_block ctx block =
     r\<lparr>H0 := H0 r + sA r, H1 := H1 r + sB r, H2 := H2 r + sC r, H3 := H3 r + sD r, H4 := H4 r + sE r\<rparr>"
    unfolding sctp_sha1_process_a_block_def Let_def w0_def [symmetric] w_def [symmetric] r_def c_def by simp
  have "chain (sctp_sha1_process_a_block ctx block) = sha_add (chain r) (regs r)"
    by (simp add: p chain_def regs_def sha_add_def)
  also have "\<dots> = sha_compress (chain ctx) block"
    by (simp add: r sha_add_def sha_compress_def split: prod.splits)
  finally show ?thesis using r w(1) by (simp add: p)
qed

section \<open>The buffer\<close>

text \<open>
  The context after the bytes \<open>msg\<close>: the full blocks of \<open>msg\<close> are in the chaining
  variables, the rest is at the start of the block.
\<close>

definition sha_inv :: "octets \<Rightarrow> octets \<Rightarrow> sha1_context \<Rightarrow> bool" where
  "sha_inv full rest ctx \<longleftrightarrow>
     64 dvd length full \<and> length rest < 64 \<and> how_many_in_block ctx = length rest \<and>
     length (sha_block ctx) = 64 \<and> take (length rest) (sha_block ctx) = rest \<and>
     length (sha_words ctx) = 80 \<and> chain ctx = sha_blocks sha_init_state full \<and>
     running_total ctx = of_nat (length full + length rest)"

lemma sha_inv_init: "length (sha_block ctx) = 64 \<Longrightarrow> sha_inv [] [] (sctp_sha1_init ctx)"
  by (simp add: sha_inv_def sctp_sha1_init_def chain_def sha_blocks.simps H0INIT_def H1INIT_def H2INIT_def H3INIT_def H4INIT_def)

lemma sha_blocks_append:
  "64 dvd length xs \<Longrightarrow> sha_blocks s (xs @ ys) = sha_blocks (sha_blocks s xs) ys"
proof (induction s xs rule: sha_blocks.induct)
  case (1 s m)
  show ?case
  proof (cases "length m \<ge> 64")
    case True
    then have "64 dvd length (drop 64 m)" using "1.prems" by (simp add: dvd_diff_nat)
    with True 1 show ?thesis
      by (simp add: sha_blocks.simps [of s m] sha_blocks.simps [of s "m @ ys"])
  next
    case False
    then have "m = []" using "1.prems" by (metis dvd_imp_le length_greater_0_conv)
    then show ?thesis by (simp add: sha_blocks.simps [of s "[]"])
  qed
qed

lemma sha_blocks_block: "length b = 64 \<Longrightarrow> sha_blocks s b = sha_compress s b"
  by (simp add: sha_blocks.simps [of s b] sha_blocks.simps [of _ "[]"])

lemma left_to_fill_eq: "how_many_in_block ctx \<le> 64 \<Longrightarrow> left_to_fill ctx = 64 - how_many_in_block ctx"
  by (simp add: left_to_fill_def nat_diff_distrib' of_nat_diff)

lemma put_bytes_length: "off + length bs \<le> length b \<Longrightarrow> length (put_bytes b off bs) = length b"
  by (simp add: put_bytes_def)

lemma put_bytes_take: "off \<le> length b \<Longrightarrow> take (off + length bs) (put_bytes b off bs) = take off b @ bs"
  by (simp add: put_bytes_def)

lemma sha_inv_partial:
  assumes "sha_inv full rest ctx" "length rest + length bs < 64"
  shows "sha_inv full (rest @ bs)
    (ctx\<lparr>sha_block := put_bytes (sha_block ctx) (how_many_in_block ctx) bs,
         how_many_in_block := how_many_in_block ctx + length bs,
         running_total := running_total ctx + of_nat (length bs)\<rparr>)"
  using assms put_bytes_length [of "length rest" bs "sha_block ctx"] put_bytes_take [of "length rest" "sha_block ctx" bs]
  by (simp add: sha_inv_def chain_def)

lemma sha_inv_full:
  assumes "sha_inv full rest ctx" "length rest + length bs = 64"
  defines "c \<equiv> ctx\<lparr>sha_block := put_bytes (sha_block ctx) (how_many_in_block ctx) bs\<rparr>"
  defines "p \<equiv> sctp_sha1_process_a_block c (sha_block c)"
  shows "sha_inv (full @ rest @ bs) [] (p\<lparr>running_total := running_total p + of_nat (length bs), how_many_in_block := 0\<rparr>)"
proof -
  have b: "sha_block c = rest @ bs"
    using assms(1,2) put_bytes_length [of "length rest" bs "sha_block ctx"] put_bytes_take [of "length rest" "sha_block ctx" bs]
    by (simp add: sha_inv_def c_def)
  have w: "length (sha_words c) = 80" "chain c = chain ctx" "running_total c = running_total ctx"
    using assms(1) by (simp_all add: c_def sha_inv_def chain_def)
  have l: "length (sha_block c) = 64" using b assms(2) by simp
  note p = process_a_block [OF l w(1), folded p_def]
  have "chain p = sha_blocks (sha_blocks sha_init_state full) (rest @ bs)"
    using p assms(1) w(2) l b by (simp add: sha_inv_def sha_blocks_block)
  moreover have "64 dvd length full" using assms(1) by (simp add: sha_inv_def)
  moreover have "(of_nat (length rest) + of_nat (length bs) :: word32) = 64"
    using assms(2) by (metis of_nat_add of_nat_numeral)
  note s = this
  ultimately have "chain p = sha_blocks sha_init_state (full @ rest @ bs)"
    by (simp add: sha_blocks_append)
  then show ?thesis
    using p l w assms(1,2) s by (simp add: sha_inv_def chain_def add.assoc)
qed

lemma sha1_update_inv:
  "sha_inv full rest ctx \<Longrightarrow> \<exists>full' rest'. full' @ rest' = full @ rest @ ptr \<and> sha_inv full' rest' (sctp_sha1_update ctx ptr)"
proof (induction ctx ptr arbitrary: full rest rule: sctp_sha1_update.induct)
  case (1 ctx ptr)
  have h: "how_many_in_block ctx = length rest" "length rest < 64" using "1.prems" by (auto simp: sha_inv_def)
  have n: "left_to_fill ctx = 64 - length rest" using h by (simp add: left_to_fill_eq)
  consider "ptr = []" | (part) "ptr \<noteq> []" "64 - length rest > length ptr" | (full) "ptr \<noteq> []" "64 - length rest \<le> length ptr"
    by linarith
  then show ?case
  proof cases
    case part
    then have u: "sctp_sha1_update ctx ptr =
        ctx\<lparr>sha_block := put_bytes (sha_block ctx) (how_many_in_block ctx) ptr,
            how_many_in_block := how_many_in_block ctx + length ptr,
            running_total := running_total ctx + of_nat (length ptr)\<rparr>"
      using n by (subst sctp_sha1_update.simps) simp
    have "length rest + length ptr < 64" using part by linarith
    from sha_inv_partial [OF "1.prems" this] u show ?thesis
      by (intro exI [of _ full] exI [of _ "rest @ ptr"]) simp
  next
    case full
    let ?n = "64 - length rest"
    let ?c = "ctx\<lparr>sha_block := put_bytes (sha_block ctx) (how_many_in_block ctx) (take ?n ptr)\<rparr>"
    let ?p = "sctp_sha1_process_a_block ?c (sha_block ?c)"
    let ?q = "?p\<lparr>running_total := running_total ?p + of_nat ?n, how_many_in_block := 0\<rparr>"
    have u: "sctp_sha1_update ctx ptr = sctp_sha1_update ?q (drop ?n ptr)"
      using full n by (subst sctp_sha1_update.simps) (simp add: Let_def)
    have len: "length (take ?n ptr) = ?n" using full by simp
    have "length rest + length (take ?n ptr) = 64" using len h by simp
    from sha_inv_full [OF "1.prems" this] have "sha_inv (full @ rest @ take ?n ptr) [] ?q"
      unfolding len by simp
    moreover have "sha_inv f r ?q \<Longrightarrow> \<exists>full' rest'. full' @ rest' = f @ r @ drop ?n ptr \<and>
        sha_inv full' rest' (sctp_sha1_update ?q (drop ?n ptr))" for f r
      using "1.IH" [OF full(1) _ refl refl refl, of f r] full n by simp
    ultimately obtain full' rest' where "full' @ rest' = (full @ rest @ take ?n ptr) @ [] @ drop ?n ptr"
      "sha_inv full' rest' (sctp_sha1_update ?q (drop ?n ptr))" by blast
    then show ?thesis unfolding u by (intro exI [of _ full'] exI [of _ rest']) simp
  qed (use "1.prems" in \<open>auto simp: sctp_sha1_update.simps [of ctx]\<close>)
qed

lemma sha1_updates_inv:
  "sha_inv full rest ctx \<Longrightarrow> \<exists>full' rest'. full' @ rest' = full @ rest @ concat chunks \<and>
     sha_inv full' rest' (foldl sctp_sha1_update ctx chunks)"
proof (induction chunks arbitrary: full rest ctx)
  case (Cons ptr chunks)
  obtain f r where "f @ r = full @ rest @ ptr" "sha_inv f r (sctp_sha1_update ctx ptr)"
    using sha1_update_inv [OF Cons.prems] by metis
  with Cons.IH [of f r "sctp_sha1_update ctx ptr"] show ?case by (metis append.assoc concat.simps(2) foldl_Cons)
qed auto

section \<open>Splitting a buffer\<close>

lemma put_bytes_twice:
  "off \<le> length b \<Longrightarrow> put_bytes (put_bytes b off xs) (off + length xs) ys = put_bytes b off (xs @ ys)"
  by (simp add: put_bytes_def add_ac)

text \<open>The counters play no part in the processing of a block.\<close>

lemma sha1_rounds_counters:
  "foldl sha1_round (ctx\<lparr>how_many_in_block := h, running_total := r\<rparr>) is =
     (foldl sha1_round ctx is)\<lparr>how_many_in_block := h, running_total := r\<rparr>"
proof (induction "is" arbitrary: ctx)
  case (Cons i "is")
  have "sha1_round (ctx\<lparr>how_many_in_block := h, running_total := r\<rparr>) i = (sha1_round ctx i)\<lparr>how_many_in_block := h, running_total := r\<rparr>"
    by (simp add: sha1_round_def Let_def)
  with Cons show ?case by simp
qed simp

lemma process_counters:
  "sctp_sha1_process_a_block (ctx\<lparr>how_many_in_block := h, running_total := r\<rparr>) b =
     (sctp_sha1_process_a_block ctx b)\<lparr>how_many_in_block := h, running_total := r\<rparr>"
proof -
  have "(c\<lparr>how_many_in_block := h, running_total := r\<rparr>)\<lparr>sha_words := w\<rparr> = c\<lparr>sha_words := w\<rparr>\<lparr>how_many_in_block := h, running_total := r\<rparr>"
    "(c\<lparr>how_many_in_block := h, running_total := r\<rparr>)\<lparr>sA := a1, sB := a2, sC := a3, sD := a4, sE := a5\<rparr> =
       c\<lparr>sA := a1, sB := a2, sC := a3, sD := a4, sE := a5\<rparr>\<lparr>how_many_in_block := h, running_total := r\<rparr>"
    "(c\<lparr>how_many_in_block := h, running_total := r\<rparr>)\<lparr>H0 := a1, H1 := a2, H2 := a3, H3 := a4, H4 := a5\<rparr> =
       c\<lparr>H0 := a1, H1 := a2, H2 := a3, H3 := a4, H4 := a5\<rparr>\<lparr>how_many_in_block := h, running_total := r\<rparr>"
    for c :: sha1_context and w a1 a2 a3 a4 a5 by simp_all
  note c = this
  show ?thesis
    unfolding sctp_sha1_process_a_block_def Let_def c sha1_rounds_counters by simp
qed

lemma sha1_update_append:
  "how_many_in_block ctx < 64 \<Longrightarrow> length (sha_block ctx) = 64 \<Longrightarrow> length (sha_words ctx) = 80 \<Longrightarrow>
   sctp_sha1_update (sctp_sha1_update ctx xs) ys = sctp_sha1_update ctx (xs @ ys)"
proof (induction ctx xs rule: sctp_sha1_update.induct)
  case (1 ctx ptr)
  let ?n = "left_to_fill ctx"
  have n: "?n = 64 - how_many_in_block ctx" "0 < ?n" using "1.prems" by (simp_all add: left_to_fill_eq)
  consider "ptr = []" | "ys = []" | (part) "ptr \<noteq> []" "ys \<noteq> []" "?n > length ptr" | (full) "ptr \<noteq> []" "?n \<le> length ptr"
    by linarith
  then show ?case
  proof cases
    case part
    let ?c = "ctx\<lparr>sha_block := put_bytes (sha_block ctx) (how_many_in_block ctx) ptr,
            how_many_in_block := how_many_in_block ctx + length ptr,
            running_total := running_total ctx + of_nat (length ptr)\<rparr>"
    have u: "sctp_sha1_update ctx ptr = ?c" using part by (subst sctp_sha1_update.simps) simp
    have l: "left_to_fill ?c = ?n - length ptr" using part n "1.prems" by (simp add: left_to_fill_eq)
    have tw: "put_bytes (put_bytes (sha_block ctx) (how_many_in_block ctx) ptr) (how_many_in_block ctx + length ptr) zs =
        put_bytes (sha_block ctx) (how_many_in_block ctx) (ptr @ zs)" for zs
      using "1.prems" by (intro put_bytes_twice) simp
    show ?thesis
    proof (cases "?n > length (ptr @ ys)")
      case True
      then show ?thesis
        using part l tw unfolding u
        by (subst (1 2) sctp_sha1_update.simps) (simp add: add.assoc less_diff_conv2)
    next
      case False
      then have t: "take ?n (ptr @ ys) = ptr @ take (?n - length ptr) ys" "drop ?n (ptr @ ys) = drop (?n - length ptr) ys"
        using part by auto
      have w: "(of_nat (length ptr) + of_nat (?n - length ptr) :: word32) = of_nat ?n"
        using part by (simp flip: of_nat_add)
      define B where "B = put_bytes (sha_block ctx) (how_many_in_block ctx) (take ?n (ptr @ ys))"
      define P where "P = sctp_sha1_process_a_block (ctx\<lparr>sha_block := B\<rparr>) B"
      have B: "length B = 64" using False n "1.prems" by (simp add: B_def put_bytes_length)
      have rt: "running_total P = running_total ctx"
        using process_a_block [OF B, of "ctx\<lparr>sha_block := B\<rparr>"] "1.prems" by (simp add: P_def)
      have "?c\<lparr>sha_block := B\<rparr> = ctx\<lparr>sha_block := B\<rparr>\<lparr>how_many_in_block := how_many_in_block ?c, running_total := running_total ?c\<rparr>"
        by simp
      then have PC: "sctp_sha1_process_a_block (?c\<lparr>sha_block := B\<rparr>) B = P\<lparr>how_many_in_block := how_many_in_block ?c, running_total := running_total ?c\<rparr>"
        unfolding P_def by (metis process_counters)
      have Bc: "put_bytes (sha_block ?c) (how_many_in_block ?c) (take (?n - length ptr) ys) = B"
        using tw t by (simp add: B_def)
      have "sctp_sha1_update ?c ys =
          sctp_sha1_update (P\<lparr>running_total := running_total ctx + of_nat ?n, how_many_in_block := 0\<rparr>) (drop (?n - length ptr) ys)"
        using part False
        by (subst sctp_sha1_update.simps, unfold l Let_def Bc) (simp add: PC [simplified] w add.assoc del: of_nat_diff)
      moreover have "sctp_sha1_update ctx (ptr @ ys) =
          sctp_sha1_update (P\<lparr>running_total := running_total ctx + of_nat ?n, how_many_in_block := 0\<rparr>) (drop (?n - length ptr) ys)"
        using part False by (subst sctp_sha1_update.simps, unfold Let_def B_def [symmetric]) (simp add: t rt flip: P_def)
      ultimately show ?thesis unfolding u by simp
    qed
  next
    case full
    let ?c = "ctx\<lparr>sha_block := put_bytes (sha_block ctx) (how_many_in_block ctx) (take ?n ptr)\<rparr>"
    let ?p = "sctp_sha1_process_a_block ?c (sha_block ?c)"
    let ?q = "?p\<lparr>running_total := running_total ?p + of_nat ?n, how_many_in_block := 0\<rparr>"
    have u: "sctp_sha1_update ctx ptr = sctp_sha1_update ?q (drop ?n ptr)"
      using full by (subst sctp_sha1_update.simps) (simp add: Let_def)
    have v: "sctp_sha1_update ctx (ptr @ ys) = sctp_sha1_update ?q (drop ?n ptr @ ys)"
      using full by (subst sctp_sha1_update.simps) (simp add: Let_def)
    have lb: "length (sha_block ?c) = 64" using full n "1.prems" by (simp add: put_bytes_length)
    have "length (sha_words ?c) = 80" using "1.prems" by simp
    note p = process_a_block [OF lb this]
    have "sctp_sha1_update (sctp_sha1_update ?q (drop ?n ptr)) ys = sctp_sha1_update ?q (drop ?n ptr @ ys)"
      using "1.IH" [OF full(1) _ refl refl refl] full p lb by simp
    then show ?thesis unfolding u v .
  qed (auto simp: sctp_sha1_update.simps [of _ "[]"])
qed

section \<open>The padding\<close>

lemma zero_from_eq: "length b = 64 \<Longrightarrow> n \<le> 64 \<Longrightarrow> zero_from b n = take n b @ replicate (64 - n) 0"
proof -
  assume b: "length b = 64" "n \<le> 64"
  have "length (foldl (\<lambda>b i. b[i := 0]) b [n..<n + k]) = 64 \<and>
      (\<forall>i<64. foldl (\<lambda>b i. b[i := 0]) b [n..<n + k] ! i = (if n \<le> i \<and> i < n + k then 0 else b ! i))" if "n + k \<le> 64" for k
    using that by (induction k) (auto simp: b nth_list_update less_Suc_eq)
  from this [of "64 - n"] show ?thesis
    using b by (auto simp: zero_from_def nth_append intro!: nth_equalityI)
qed

lemma be_bytes_add: "be_bytes (j + k) n = be_bytes j (n div 256 ^ k) @ be_bytes k n"
proof -
  have "n div 256 ^ (j + k - Suc i) = n div 256 ^ k div 256 ^ (j - Suc i)" if "i < j" for i
  proof -
    have "j + k - Suc i = k + (j - Suc i)" using that by simp
    then show ?thesis by (simp add: power_add div_mult2_eq)
  qed
  then show ?thesis
    by (intro nth_equalityI) (auto simp: be_bytes_def nth_append add.commute [of k j])
qed

lemma be_bytes_0: "be_bytes k 0 = replicate k 0"
  by (intro nth_equalityI) (auto simp: be_bytes_def)

lemma be_bytes_length [simp]: "length (be_bytes k n) = k"
  by (simp add: be_bytes_def)

lemma be_bytes_8:
  assumes "n < 4294967296"
  shows "be_bytes 8 n = replicate 4 0 @ word_bytes (of_nat n)"
  using be_bytes_add [of 4 4 n] assms by (simp add: be_bytes_0 word_bytes_be unat_of_nat32)

lemma put_htonl_eq: "put_htonl b v = put_bytes b 60 (word_bytes v)"
proof -
  have m: "(0xff :: 32 word) = mask 8" by (simp add: mask_eq_exp_minus_1)
  have "ucast (x AND 0xff) = (ucast (x :: word32) :: 8 word)" for x
    unfolding m by (rule bit_word_eqI) (auto simp: bit_simps)
  then show ?thesis by (simp add: put_htonl_def word_bytes_def)
qed

text \<open>The padding of the code: the size in bits as a 32-bit number.\<close>

definition code_pad :: "octets \<Rightarrow> octets" where
  "code_pad m = m @ [0x80] @ replicate ((119 - length m mod 64) mod 64) 0 @ replicate 4 0 @ word_bytes (of_nat (8 * length m))"

lemma code_pad_eq: "8 * length m < 4294967296 \<Longrightarrow> code_pad m = sha_pad m"
  by (simp add: code_pad_def sha_pad_def be_bytes_8)

section \<open>The digest\<close>

lemma size_block:
  assumes "length (sha_block c) = 64" "length (sha_words c) = 80"
  shows "chain (sha1_size_block c) = sha_compress (chain c) (take 60 (sha_block c) @ word_bytes (running_total c * 8))"
proof -
  let ?b = "put_htonl (sha_block c) (running_total c * 8)"
  have b: "?b = take 60 (sha_block c) @ word_bytes (running_total c * 8)"
    using assms by (simp add: put_htonl_eq put_bytes_def word_bytes_def)
  then have "length ?b = 64" using assms by (simp add: word_bytes_def)
  from process_a_block [OF this, of "c\<lparr>running_total := running_total c * 8, sha_block := ?b\<rparr>"]
  show ?thesis using assms b by (simp add: sha1_size_block_def Let_def chain_def)
qed

lemma padded_block:
  assumes "length b = 64" "take n b = rest" "n < 64"
  shows "zero_from (b[n := 0x80]) (n + 1) = rest @ [0x80] @ replicate (63 - n) 0"
    "n = 63 \<Longrightarrow> b[n := 0x80] = rest @ [0x80] @ replicate (63 - n) 0"
proof -
  have "take (n + 1) (b[n := 0x80]) = rest @ [0x80]"
    using assms by (simp add: take_Suc_conv_app_nth)
  then show "zero_from (b[n := 0x80]) (n + 1) = rest @ [0x80] @ replicate (63 - n) 0"
    using assms by (simp add: zero_from_eq)
  show "b[n := 0x80] = rest @ [0x80] @ replicate (63 - n) 0" if "n = 63"
    using \<open>take (n + 1) _ = _\<close> assms that by simp
qed

lemma code_pad_parts:
  assumes "64 dvd length full" "length rest = n" "n < 64"
  shows "n \<le> 55 \<Longrightarrow> code_pad (full @ rest) = full @ take 60 (rest @ [0x80] @ replicate (63 - n) 0) @
      word_bytes (of_nat (length full + n) * 8)"
    "n > 55 \<Longrightarrow> code_pad (full @ rest) = full @ (rest @ [0x80] @ replicate (63 - n) 0) @ (replicate 60 0 @
      word_bytes (of_nat (length full + n) * 8))"
proof -
  have m: "length (full @ rest) mod 64 = n" using assms by auto
  have w: "(of_nat (8 * length (full @ rest)) :: word32) = of_nat (length full + n) * 8" using assms by simp
  show "code_pad (full @ rest) = full @ take 60 (rest @ [0x80] @ replicate (63 - n) 0) @
      word_bytes (of_nat (length full + n) * 8)" if "n \<le> 55"
  proof -
    have "(119 - n) mod 64 = 55 - n" using that by (simp add: mod_if)
    moreover have "take 60 (rest @ [0x80] @ replicate (63 - n) 0) = rest @ [0x80] @ replicate (55 - n) 0 @ replicate 4 0"
    proof -
      let ?a = "rest @ [0x80] @ replicate (55 - n) 0 @ replicate 4 (0 :: 8 word)"
      have "63 - n = (55 - n) + (4 + 4)" using that by simp
      then have "rest @ [0x80] @ replicate (63 - n) 0 = ?a @ replicate 4 0"
        by (simp only: replicate_add append_assoc)
      moreover have "length ?a = 60" using that assms(2) by simp
      ultimately show ?thesis by (metis append_eq_conv_conj)
    qed
    ultimately show ?thesis
      unfolding code_pad_def m w by (simp only: append_assoc)
  qed
  show "code_pad (full @ rest) = full @ (rest @ [0x80] @ replicate (63 - n) 0) @ (replicate 60 0 @
      word_bytes (of_nat (length full + n) * 8))" if "n > 55"
  proof -
    have "(119 - n) mod 64 = (63 - n) + 56" using that assms by simp
    moreover have "replicate 60 0 = replicate 56 0 @ replicate 4 (0 :: 8 word)" by (simp flip: replicate_add)
    ultimately show ?thesis
      unfolding code_pad_def m w by (simp only: replicate_add append_assoc)
  qed
qed

lemma sha1_final_digest:
  assumes "sha_inv full rest ctx"
  shows "fst (sctp_sha1_final ctx) = digest_bytes (sha_blocks sha_init_state (code_pad (full @ rest)))"
proof -
  let ?n = "length rest" and ?b = "sha_block ctx"
  let ?blk = "rest @ [0x80] @ replicate (63 - ?n) 0"
  have i: "64 dvd length full" "?n < 64" "how_many_in_block ctx = ?n" "length ?b = 64" "take ?n ?b = rest"
    "length (sha_words ctx) = 80" "chain ctx = sha_blocks sha_init_state full" "running_total ctx = of_nat (length full + ?n)"
    using assms by (auto simp: sha_inv_def)
  note pad = padded_block [OF i(4,5,2)]
  note parts = code_pad_parts [OF i(1) refl i(2)]
  have l: "left_to_fill ctx = 64 - ?n" using i by (simp add: left_to_fill_eq)
  have lb: "length ?blk = 64" using i(2) by simp
  have out: "fst (sctp_sha1_final ctx) = digest_bytes (chain (sha1_size_block c))"
    if "snd (sctp_sha1_final ctx) = sha1_size_block c" for c
    using that by (auto simp: sctp_sha1_final_def Let_def digest_bytes_def chain_def word_bytes_be)
  show ?thesis
  proof (cases "?n > 55")
    case False
    let ?c = "ctx\<lparr>sha_block := ?blk\<rparr>"
    have "snd (sctp_sha1_final ctx) = sha1_size_block ?c"
      using False i(3) pad(1) by (simp add: sctp_sha1_final_def Let_def)
    moreover have "chain (sha1_size_block ?c) = sha_compress (chain ctx) (take 60 ?blk @ word_bytes (running_total ctx * 8))"
      using size_block [of ?c] lb i(6) by (simp add: chain_def)
    moreover have "length (take 60 ?blk @ word_bytes (running_total ctx * 8)) = 64"
      using lb by (simp add: word_bytes_def)
    ultimately show ?thesis
      using False parts(1) out i by (simp only: not_less sha_blocks_append sha_blocks_block)
  next
    case True
    let ?p = "sctp_sha1_process_a_block (ctx\<lparr>sha_block := ?blk\<rparr>) ?blk"
    let ?c = "?p\<lparr>sha_block := replicate 64 0\<rparr>"
    have "snd (sctp_sha1_final ctx) = sha1_size_block ?c"
      using True i(2,3) pad l by (cases "?n = 63") (simp_all add: sctp_sha1_final_def Let_def)
    moreover have p: "chain ?p = sha_compress (chain ctx) ?blk" "length (sha_words ?p) = 80" "running_total ?p = running_total ctx"
      using process_a_block [OF lb, of "ctx\<lparr>sha_block := ?blk\<rparr>"] i by (simp_all add: chain_def)
    moreover have "chain (sha1_size_block ?c) = sha_compress (chain ?p) (replicate 60 0 @ word_bytes (running_total ctx * 8))"
      using size_block [of ?c] p by (simp add: chain_def)
    moreover have "length (replicate 60 0 @ word_bytes (running_total ctx * 8)) = 64" by (simp add: word_bytes_def)
    moreover have "64 dvd length ?blk" unfolding lb by simp
    ultimately show ?thesis
      using True parts(2) out i lb by (simp only: sha_blocks_append sha_blocks_block)
  qed
qed

lemma sctp_sha1_digest:
  assumes "length (sha_block ctx) = 64"
  shows "fst (sctp_sha1_final (foldl sctp_sha1_update (sctp_sha1_init ctx) chunks)) =
    digest_bytes (sha_blocks sha_init_state (code_pad (concat chunks)))"
  using sha1_updates_inv [OF sha_inv_init [OF assms], of chunks] sha1_final_digest by fastforce

text \<open>The size in bits is kept in 32 bits: half a gigabyte more makes no difference.\<close>

lemma process_running_total:
  "sctp_sha1_process_a_block (ctx\<lparr>running_total := r\<rparr>) b = (sctp_sha1_process_a_block ctx b)\<lparr>running_total := r\<rparr>"
proof -
  have h: "how_many_in_block (sctp_sha1_process_a_block ctx b) = how_many_in_block ctx"
    using process_counters [where ctx = ctx and h = "how_many_in_block ctx" and r = "running_total ctx" and b = b]
    by (metis (no_types, lifting) sha1_context.surjective sha1_context.update_convs(14,15) sha1_context.select_convs(14))
  have "sctp_sha1_process_a_block (ctx\<lparr>how_many_in_block := how_many_in_block ctx, running_total := r\<rparr>) b =
     (sctp_sha1_process_a_block ctx b)\<lparr>how_many_in_block := how_many_in_block (sctp_sha1_process_a_block ctx b), running_total := r\<rparr>"
    unfolding process_counters h ..
  then show ?thesis by simp
qed

lemma size_block_wraps: "sha1_size_block (ctx\<lparr>running_total := running_total ctx + 0x20000000\<rparr>) = sha1_size_block ctx"
proof -
  have "(x + 0x20000000) * 8 = x * (8 :: word32)" for x by (simp add: distrib_right)
  then have r: "ctx\<lparr>running_total := running_total ctx + 0x20000000\<rparr>
      \<lparr>running_total := running_total (ctx\<lparr>running_total := running_total ctx + 0x20000000\<rparr>) * 8\<rparr> =
      ctx\<lparr>running_total := running_total ctx * 8\<rparr>"
    by (simp del: distrib_right_numeral)
  show ?thesis unfolding sha1_size_block_def Let_def r ..
qed

lemma final_wraps:
  "sctp_sha1_final (ctx\<lparr>running_total := running_total ctx + 0x20000000\<rparr>) = sctp_sha1_final ctx"
proof -
  let ?r = "running_total ctx + 0x20000000"
  have sb: "sha1_size_block (c\<lparr>running_total := ?r, sha_block := b\<rparr>) = sha1_size_block (c\<lparr>sha_block := b\<rparr>)"
    if "running_total c = running_total ctx" for c b
  proof -
    have u: "c\<lparr>running_total := ?r, sha_block := b\<rparr> = c\<lparr>sha_block := b, running_total := ?r\<rparr>" by simp
    show ?thesis unfolding u using size_block_wraps [of "c\<lparr>sha_block := b\<rparr>"] that by simp
  qed
  have pb: "sctp_sha1_process_a_block (c\<lparr>running_total := r, sha_block := b\<rparr>) d =
      (sctp_sha1_process_a_block (c\<lparr>sha_block := b\<rparr>) d)\<lparr>running_total := r\<rparr>" for c r b d
  proof -
    have u: "c\<lparr>running_total := r, sha_block := b\<rparr> = c\<lparr>sha_block := b, running_total := r\<rparr>" by simp
    show ?thesis unfolding u by (rule process_running_total)
  qed
  have rt: "running_total (sctp_sha1_process_a_block c b) = running_total c" for c b
    using process_running_total [where ctx = c and r = "running_total c" and b = b]
    by (metis (no_types, lifting) sha1_context.surjective sha1_context.update_convs(15) sha1_context.select_convs(15))
  have "left_to_fill (ctx\<lparr>running_total := ?r\<rparr>) = left_to_fill ctx" by (simp add: left_to_fill_def)
  then show ?thesis
    unfolding sctp_sha1_final_def
    by (simp add: Let_def sb pb rt process_running_total)
qed

end
