(* ===== verification/Spec2Isabelle.thy ===== *)
theory Spec2Isabelle
  imports Prelude RegionData RegionBands RegionOp RegionInv BandAlgebra RegionOpCorrect RegionCopy
    RegionIntersect RegionUnion RegionSubtract RegionQuery RegionTranslate RegionSamples
    RegionSort RegionAppend RegionValidate RegionMake RegionSpans
    RegionClass UpdateKeeper UpdateTracking UpdateSession UpdateSamples FrameBuffers BufferOps BufferFill UpdateFilter FilterBlocks
    FilterCorrect BufferSamples DataStreams PixelWords RreCodec RreScan RreCorrect Palette PaletteCorrect
    RawCodec RawCorrect HextileCodec HextileScan HextileCorrect HextileTrip EncodingSamples
    DesCipher DesCorrect VncPass Conversation Capabilities ServerHandshake DecoderStore ViewerHandshake HandshakeCorrect
    ConnectionCorrect ConnectionSamples Adler32 Crc32 SctpSha1
begin

text \<open>
  Models and theorems for the parts of this VNC server and viewer that carry its own logic:
  which pixels have to be sent, how they are stored, compared and encoded, and the checksums below.

  \<^bold>\<open>The parts and how they interact.\<close> The server collects what changes on the screen in
  an update keeper (\<open>desktop/UpdateKeeper.cpp\<close>), whose sets of pixels are regions
  (\<open>region/Region.cpp\<close>, a class over \<open>region/x11region.c\<close>). Before an update is sent, the update
  filter (\<open>desktop/UpdateFilter.cpp\<close>) grabs the screen and keeps only the pixels that differ from the
  frame buffer (\<open>rfb/FrameBuffer.cpp\<close>). An encoder (\<open>rfb-sconn\<close>) writes the rectangles of the
  update through a data stream (\<open>io-lib\<close>), and a decoder (\<open>viewer-core\<close>) of the viewer reads them into
  its frame buffer. The checksums of \<open>zlib\<close> and the hash of \<open>usrsctplib\<close> serve the transport.

  \<^bold>\<open>Shared.\<close> \<open>Prelude\<close> has the conversions of C integers and facts about lists; \<open>Rects\<close> the
  rectangles, points and dimensions of \<open>region/Rect.h\<close>.

  \<^bold>\<open>Regions\<close>, \<open>region/x11region.c\<close>. \<open>RegionData\<close> models the structures: a region is a record of
  extents and a data pointer, the null pointer, the two static blocks and an allocated block being the
  constructors of \<open>rdata\<close>; short fields are kept in range by the conversion where the code stores.
  A store \<open>nat \<Rightarrow> region\<close> gives objects an address, since destination and source of an operation
  may be the same. Allocation is an argument \<open>ok\<close>, which says for a size whether \<open>malloc\<close> succeeds;
  an index outside a block, and a function that would follow a bad pointer, are \<open>None\<close> or FALSE as the text there says.
  \<open>RegionOp\<close> is the generic operator, with the overlap procedure as an argument like the C function pointer;
  \<open>RegionUnion\<close>, \<open>RegionIntersect\<close> and \<open>RegionSubtract\<close> its three clients; \<open>RegionQuery\<close>,
  \<open>RegionTranslate\<close>, \<open>RegionAppend\<close>, \<open>RegionSort\<close>, \<open>RegionValidate\<close>, \<open>RegionMake\<close> and \<open>RegionSpans\<close> the rest
  of the file. \<open>RegionBands\<close> and \<open>BandAlgebra\<close> are the specification: canonical lists of banded
  rectangles, unique for a set of pixels, and the sweep over two of them in a locale that states what an
  overlap procedure has to give; \<open>RegionInv\<close> has the invariant, and \<open>RegionOpCorrect\<close>
  shows that the C function refines the sweep. The properties are about the set of pixels of a region.
  Its loops recurse on the remaining rectangles, so they end by construction; the sort, which picks its
  pivots, ends because the parts get shorter.

  \<^bold>\<open>Updates\<close>, \<open>desktop\<close>. \<open>RegionClass\<close> has the class \<open>Region\<close> on top of the C functions. \<open>UpdateKeeper\<close>
  models the container and the keeper, one definition per method; a method holds the locks of its object and is
  one atomic step. \<open>UpdateTracking\<close> says what the keeper promises (the picture of the client, brought up to date
  by the container, agrees with the screen) and \<open>UpdateSession\<close> has the sequences of steps as
  an inductive relation. \<open>UpdateFilter\<close> is the filter, with the grabbing of the screen as an argument;
  \<open>FilterRows\<close>, \<open>FilterRects\<close>, \<open>FilterBlocks\<close> and \<open>FilterCorrect\<close> follow its loops from one line up to the
  whole container. \<open>UpdateSamples\<close> and \<open>RegionSamples\<close> hold concrete inputs.

  \<^bold>\<open>Frame buffers\<close>, \<open>rfb\<close>. \<open>FrameBuffers\<close> models a buffer as a block of bytes with its dimension and pixel
  format; pointers into it are offsets, and a \<open>memcpy\<close>, \<open>memmove\<close> or \<open>memcmp\<close> that would leave the block is
  \<open>None\<close>. \<open>BufferRows\<close> and \<open>BufferPixels\<close> read it back as pixels; \<open>BufferOps\<close> and \<open>BufferFill\<close> say what every operation
  does to them, \<open>BufferSamples\<close> has examples.

  \<^bold>\<open>Streams and encodings.\<close> \<open>DataStreams\<close> models the data streams over any stream of bytes. What they rely
  on is stated by the locales \<open>output_stream\<close> and \<open>input_stream\<close>, which the byte array streams of \<open>io-lib\<close>
  interpret; a round trip is proved once over the interfaces and rests on the interpretation. Encoder and decoder of an
  encoding stand in one theory. \<open>RreCodec\<close> has the rise-and-run-length encoding; \<open>RreScan\<close> and \<open>RreCorrect\<close>
  prove that its sides fit, on the words of \<open>PixelWords\<close>. \<open>RawCodec\<close> has the rectangles sent as they are, the copied rectangles and
  the viewer's two frame buffers with its notifier, and \<open>RawCorrect\<close> their round trip. \<open>HextileCodec\<close> has the tiles:
  \<open>HextileScan\<close> is about the analysis of one tile, \<open>HextileCorrect\<close> about the bytes of a tile, and \<open>HextileTrip\<close> about a
  rectangle, where encoder and decoder keep in step what they remember of the last colours (locale \<open>stream_pair\<close>).
  \<open>Palette\<close> is the hash table with counts of \<open>rfb-sconn/TightPalette.cpp\<close>,
  nodes and entries being arrays and pointers indices; \<open>PaletteCorrect\<close> shows that it is a finite map.
  \<open>EncodingSamples\<close> has concrete inputs.

  \<^bold>\<open>Passwords and connections.\<close> \<open>DesCipher\<close> is \<open>util/DesCrypt.cpp\<close> with its tables, and \<open>DesCorrect\<close> shows that
  decryption undoes encryption, round by round. \<open>VncPass\<close> has the stored passwords and responses (\<open>util/VncPassCrypt.cpp\<close>,
  \<open>viewer-core/VncAuthentication.cpp\<close>). \<open>Conversation\<close> models code that reads from one stream, writes to another and
  may throw: an exception is a value that travels with the state, handlers included. Its predicate \<open>talks\<close> says
  what such code reads and writes and how it ends, with one rule per construct. \<open>Capabilities\<close> has the lists of the server
  (\<open>rfb-sconn/CapContainer.cpp\<close>) and the container of the viewer (\<open>viewer-core/CapsContainer.cpp\<close>) with its invariant,
  \<open>DecoderStore\<close> the decoders of the viewer and the list of encodings it asks for. \<open>ServerHandshake\<close> is the whole of
  \<open>rfb-sconn/RfbInitializer.cpp\<close>, \<open>ViewerHandshake\<close> the methods of \<open>viewer-core/RemoteViewerCore.cpp\<close> from \<open>handshake\<close>
  to \<open>clientAndServerInit\<close>; what they ask of the configuration, listeners and Windows is in the records
  \<open>server_env\<close> and \<open>viewer_env\<close>. \<open>HandshakeCorrect\<close> and \<open>ConnectionCorrect\<close> bring the two together:
  authentication is safe against any client, and both sides get through the opening of a connection with each other.
  \<open>ConnectionSamples\<close> is a concrete pair.

  \<^bold>\<open>Checksums.\<close> \<open>Adler32\<close> and \<open>Crc32\<close> model \<open>zlib/adler32.c\<close> and \<open>zlib/crc32.c\<close> against their mathematical
  definitions (two sums, the remainder of a polynomial over bits), \<open>SctpSha1\<close> the file
  \<open>usrsctplib/netinet/sctp_sha1.c\<close> against the standard's definition.

  \<^bold>\<open>Integers.\<close> Coordinates are \<open>int\<close>; where the code stores a short or an unsigned, the conversion is written out.
  Bytes, pixels, checksums and the fields of messages are words of their width. \<open>size_t\<close> counts of bytes in memory are
  \<open>nat\<close>. \<open>unsigned long\<close> has 32 bits, as on the Windows targets.

  \<^bold>\<open>Loops\<close> recurse on a count, on the remaining data or under a measure. Four depend on something outside, a stream or the links
  of a hash chain, and would not end for some of it (\<open>writeFully\<close>, \<open>readFully\<close>, \<open>find_node\<close>, \<open>raw_parts\<close>): they are partial
  functions whose value is \<open>None\<close> then, and the theorems about them state that they return.

  \<^bold>\<open>Not modelled.\<close> The vendored libraries (\<open>libjpeg\<close>, the compressor of \<open>zlib\<close>, the protocol of \<open>usrsctplib\<close>,
  \<open>pjlib\<close>, \<open>revel\<close>), which the program only calls; the code whose substance is the Windows API: sockets,
  threads, services, dialogs, registry, hooks, screen drivers and file transfer (\<open>network\<close>, \<open>thread\<close>,
  \<open>win-system\<close>, \<open>gui\<close>, \<open>tvnviewer\<close>, \<open>tvncontrol-app\<close>, \<open>tvnserver-app\<close>, \<open>desktop-ipc\<close>, the \<open>ft-\<close>
  directories); the compressed encodings (Tight, ZRLE, JPEG), whose output goes through those libraries.
\<close>

unbundle bit_operations_syntax

section \<open>Region algebra\<close>

text \<open>
  C1. Union: when allocation succeeds, \<open>miUnion\<close> on two well-formed regions returns TRUE,
  changes no region but the destination (which may be either source), and leaves there a
  well-formed region with exactly the pixels of both.
\<close>

theorem miUnion_correct:
  assumes "alloc_ok ok" "region_ok (h reg1)" "region_ok (h srcReg)"
  shows "\<exists>r. miUnion ok destReg reg1 srcReg h = (True, h(destReg := r)) \<and> region_ok r \<and>
    (\<forall>x y. pixels r x y \<longleftrightarrow> pixels (h reg1) x y \<or> pixels (h srcReg) x y)"
  using assms by (rule miUnion_ok)

theorem miUnion_correct_witness:
  "\<exists>r. miUnion always 0 0 1 sample_store = (True, sample_store(0 := r)) \<and> region_ok r \<and>
    (\<forall>x y. pixels r x y \<longleftrightarrow> pixels (sample_store 0) x y \<or> pixels (sample_store 1) x y)"
  by (rule miUnion_correct) (rule always_ok sample_store_ok)+

text \<open>
  C2. Intersection: \<open>miIntersect\<close> on two well-formed regions returns TRUE and leaves in the
  destination, which may be either source, a well-formed region with the common pixels.
\<close>

theorem miIntersect_correct:
  assumes "alloc_ok ok" "region_ok (h reg1)" "region_ok (h srcReg)"
  shows "\<exists>r. miIntersect ok destReg reg1 srcReg h = (True, h(destReg := r)) \<and> region_ok r \<and>
    (\<forall>x y. pixels r x y \<longleftrightarrow> pixels (h reg1) x y \<and> pixels (h srcReg) x y)"
  using miIntersect_ok [of ok h reg1 srcReg destReg, OF assms] by metis

theorem miIntersect_correct_witness:
  "\<exists>r. miIntersect always 2 0 1 sample_store = (True, sample_store(2 := r)) \<and> region_ok r \<and>
    (\<forall>x y. pixels r x y \<longleftrightarrow> pixels (sample_store 0) x y \<and> pixels (sample_store 1) x y)"
  by (rule miIntersect_correct) (rule always_ok sample_store_ok)+

text \<open>
  C3. Subtraction: \<open>miSubtract\<close> on two well-formed regions returns TRUE and leaves in the
  destination, which may be either source, a well-formed region with the pixels of the
  minuend that are not in the subtrahend.
\<close>

theorem miSubtract_correct:
  assumes "alloc_ok ok" "region_ok (h regM)" "region_ok (h regS)"
  shows "\<exists>r. miSubtract ok regD regM regS h = (True, h(regD := r)) \<and> region_ok r \<and>
    (\<forall>x y. pixels r x y \<longleftrightarrow> pixels (h regM) x y \<and> \<not> pixels (h regS) x y)"
  using assms by (rule miSubtract_ok)

theorem miSubtract_correct_witness:
  "\<exists>r. miSubtract always 1 0 1 sample_store = (True, sample_store(1 := r)) \<and> region_ok r \<and>
    (\<forall>x y. pixels r x y \<longleftrightarrow> pixels (sample_store 0) x y \<and> \<not> pixels (sample_store 1) x y)"
  by (rule miSubtract_correct) (rule always_ok sample_store_ok)+

text \<open>
  Inversion: \<open>miInverse\<close> returns TRUE and leaves in the destination, which may be the
  region to invert, the pixels of the box that are not in the region.
\<close>

theorem miInverse_correct:
  assumes "alloc_ok ok" "region_ok (h regToInvert)" "bx1 invRect < bx2 invRect" "by1 invRect < by2 invRect"
  shows "\<exists>r. miInverse ok destReg regToInvert invRect h = (True, h(destReg := r)) \<and> region_ok r \<and>
    (\<forall>x y. pixels r x y \<longleftrightarrow> INBOX invRect x y \<and> \<not> pixels (h regToInvert) x y)"
  using assms by (rule miInverse_ok)

theorem miInverse_correct_witness:
  "\<exists>r. miInverse always 0 0 (mkbox 0 0 12 12) sample_store = (True, sample_store(0 := r)) \<and> region_ok r \<and>
    (\<forall>x y. pixels r x y \<longleftrightarrow> INBOX (mkbox 0 0 12 12) x y \<and> \<not> pixels (sample_store 0) x y)"
  by (rule miInverse_correct) (simp_all add: always_ok sample_store_ok)

text \<open>
  C4. The canonical form is unique and \<open>miRegionsEqual\<close> decides equality of pixel sets: two
  well-formed regions, the first not empty, compare equal exactly when they have the same
  pixels.
\<close>

theorem miRegionsEqual_correct:
  assumes "region_ok r1" "region_ok r2" "miRegionNotEmpty r1"
  shows "miRegionsEqual r1 r2 \<longleftrightarrow> (\<forall>x y. pixels r1 x y = pixels r2 x y)"
  using miRegionsEqual_ok [OF assms(1,2)] region_ok_empty_iff [OF assms(1)] assms(3)
  by (auto simp: miRegionNotEmpty_def REGION_NIL_iff)

theorem miRegionsEqual_correct_witness:
  "miRegionsEqual sample_L sample_box \<longleftrightarrow> (\<forall>x y. pixels sample_L x y = pixels sample_box x y)"
  by (rule miRegionsEqual_correct [OF sample_L_ok sample_box_ok])
    (simp add: miRegionNotEmpty_def REGION_NIL_def sample_L_def)

text \<open>
  C5. \<open>miRectIn\<close> classifies a box against a well-formed region: OUT, IN and PART are
  returned exactly when no pixel, every pixel, or some but not every pixel of the box is in
  the region.
\<close>

theorem miRectIn_correct:
  assumes "region_ok r" "bx1 p < bx2 p" "by1 p < by2 p"
  shows "miRectIn r p =
    (if \<forall>x y. INBOX p x y \<longrightarrow> pixels r x y then rgnIN
     else if \<forall>x y. INBOX p x y \<longrightarrow> \<not> pixels r x y then rgnOUT else rgnPART)"
proof -
  have "INBOX p (bx1 p) (by1 p)" using assms(2,3) by (simp add: INBOX_def)
  then show ?thesis
    using miRectIn_ok [OF assms(1), of p] assms(2,3)
    by (cases "miRectIn r p") (auto simp: rect_in_spec_def box_valid_def)
qed

theorem miRectIn_correct_witness:
  "miRectIn sample_L (mkbox 1 6 4 9) =
    (if \<forall>x y. INBOX (mkbox 1 6 4 9) x y \<longrightarrow> pixels sample_L x y then rgnIN
     else if \<forall>x y. INBOX (mkbox 1 6 4 9) x y \<longrightarrow> \<not> pixels sample_L x y then rgnOUT else rgnPART)"
  by (rule miRectIn_correct [OF sample_L_ok]) simp_all

text \<open>
  C6. \<open>miPointInRegion\<close> finds a pixel exactly when it is in the region, and the box it
  returns is a rectangle of the region that contains the pixel.
\<close>

theorem miPointInRegion_correct:
  assumes "region_ok r"
  shows "(case miPointInRegion r x y of
            None \<Rightarrow> \<not> pixels r x y
          | Some b \<Rightarrow> pixels r x y \<and> b \<in> set (REGION_RECTS r) \<and> INBOX b x y)"
  using miPointInRegion_ok [OF assms, of x y]
  by (auto split: option.splits simp: pixels_def in_rects_set)

theorem miPointInRegion_correct_witness:
  "case miPointInRegion sample_L 7 6 of
     None \<Rightarrow> \<not> pixels sample_L 7 6
   | Some b \<Rightarrow> pixels sample_L 7 6 \<and> b \<in> set (REGION_RECTS sample_L) \<and> INBOX b 7 6"
  by (rule miPointInRegion_correct [OF sample_L_ok])

text \<open>
  Translation: when the moved extents stay between \<open>MINSHORT\<close> and \<open>MAXSHORT\<close>,
  \<open>miTranslateRegion\<close> keeps the region well formed and moves every pixel by the
  displacement.
\<close>

theorem miTranslateRegion_correct:
  assumes "region_ok r"
    and "MINSHORT \<le> bx1 (extents r) + dx" "bx2 (extents r) + dx \<le> MAXSHORT"
    and "MINSHORT \<le> by1 (extents r) + dy" "by2 (extents r) + dy \<le> MAXSHORT"
  shows "region_ok (miTranslateRegion r dx dy) \<and>
    (\<forall>x y. pixels (miTranslateRegion r dx dy) x y \<longleftrightarrow> pixels r (x - dx) (y - dy))"
  using miTranslateRegion_inside [OF assms(1), of dx dy] assms(2-5)
  by (simp add: all_inside_iff pixels_def shift_in_rects)

theorem miTranslateRegion_correct_witness:
  "region_ok (miTranslateRegion sample_L (-30) 5) \<and>
    (\<forall>x y. pixels (miTranslateRegion sample_L (-30) 5) x y \<longleftrightarrow> pixels sample_L (x - (-30)) (y - 5))"
  by (rule miTranslateRegion_correct [OF sample_L_ok])
    (simp_all add: sample_L_def MINSHORT_def MAXSHORT_def)

text \<open>
  C7. Clipping: for any displacement the rectangles of the translated region contain exactly
  the moved pixels that lie in the representable range.
\<close>

theorem miTranslateRegion_clips:
  assumes "region_ok r" "short_box (extents r)"
  shows "pixels (miTranslateRegion r dx dy) x y \<longleftrightarrow> pixels r (x - dx) (y - dy) \<and> INBOX range_box x y"
  using assms by (rule miTranslateRegion_pixels)

theorem miTranslateRegion_clips_witness:
  "pixels (miTranslateRegion sample_L 32760 0) 32764 3 \<longleftrightarrow>
     pixels sample_L (32764 - 32760) (3 - 0) \<and> INBOX range_box 32764 3"
  by (rule miTranslateRegion_clips [OF sample_L_ok])
    (simp add: sample_L_def short_box_def is_short_def)




text \<open>
  Copying a well-formed region succeeds, whatever the destination held, and gives a
  well-formed region with the same rectangles and extents; no other region changes.
\<close>

theorem miRegionCopy_correct:
  assumes "alloc_ok ok" "region_ok (h src)"
  shows "\<exists>r. copy_region ok dst src h = (True, h(dst := r)) \<and> region_ok r \<and>
    REGION_RECTS r = REGION_RECTS (h src) \<and> extents r = extents (h src)"
  using copy_region_ok [of ok h src dst, OF assms] by metis

theorem miRegionCopy_correct_witness:
  "\<exists>r. copy_region always 1 0 sample_store = (True, sample_store(1 := r)) \<and> region_ok r \<and>
    REGION_RECTS r = REGION_RECTS (sample_store 0) \<and> extents r = extents (sample_store 0)"
  by (rule miRegionCopy_correct) (rule always_ok sample_store_ok)+

section \<open>Checksums\<close>

text \<open>
  C10. Adler-32: the loops of \<open>adler32\<close>, unrolled and with the modulo operation deferred
  for \<open>NMAX\<close> bytes, compute the two byte-wise sums modulo 65521 from any valid checksum; no
  32-bit sum overflows in between.
\<close>

theorem adler32_correct:
  assumes "fst (decode adler) < BASE" "snd (decode adler) < BASE"
  shows "adler32 adler (Some bs) =
    encode (foldl (\<lambda>(a, t) b. ((a + unat b) mod BASE, (t + (a + unat b) mod BASE) mod BASE)) (decode adler) bs)"
  using adler32_encode [of adler bs] assms
  by (simp add: small_def adler_spec_def adler_step_fun)

theorem adler32_correct_witness:
  "adler32 1 (Some [87, 105, 107, 105]) =
    encode (foldl (\<lambda>(a, t) b. ((a + unat b) mod BASE, (t + (a + unat b) mod BASE) mod BASE)) (decode 1) ([87, 105, 107, 105] :: byte list))"
  by (rule adler32_correct) (simp_all add: decode_def BASE_def)

text \<open>
  Adler-32 of a stream: feeding a buffer in two calls, split anywhere, gives the
  checksum of the whole.
\<close>

theorem adler32_streaming:
  assumes "fst (decode adler) < BASE" "snd (decode adler) < BASE"
  shows "adler32 (adler32 adler (Some xs)) (Some ys) = adler32 adler (Some (xs @ ys))"
  using adler32_encode [of adler] adler32_encode [of "adler32 adler (Some xs)"] assms
    small_spec [of "decode adler" xs] small_decode_encode [of "adler_spec (decode adler) xs"]
  by (simp add: small_def adler_spec_append)

theorem adler32_streaming_witness:
  "adler32 (adler32 1 (Some [87, 105])) (Some [107, 105]) = adler32 1 (Some ([87, 105] @ [107, 105]))"
  by (rule adler32_streaming) (simp_all add: decode_def BASE_def)

text \<open>
  C11. \<open>adler32_combine\<close> of the checksums of two buffers, the second started afresh, is the
  checksum of their concatenation.
\<close>

theorem adler32_combine_correct:
  "adler32_combine (adler32 1 (Some xs)) (adler32 1 (Some ys)) (int (length ys)) = adler32 1 (Some (xs @ ys))"
proof -
  have one: "decode 1 = (1, 0)" "small (1, 0)" by (simp_all add: decode_def small_def BASE_def)
  then have "small (adler_spec (1, 0) xs)" by (simp add: small_spec)
  with one show ?thesis
    using adler32_encode [of 1] adler32_combine_encode [of "adler_spec (1, 0) xs" ys]
    by (simp add: adler_spec_append)
qed

text \<open>
  C12. CRC-32: the table driven loops of \<open>crc32\<close>, byte-wise or by words on a little or a big
  endian machine, from whatever alignment of the buffer, all compute the bit-serial shift
  register with the polynomial of the table generator.
\<close>

theorem crc32_correct:
  "crc32 mc addr crc (Some buf) =
     NOT (foldl (\<lambda>c b. (crc_bit ^^ 8) (c XOR ucast b)) (NOT crc) buf)"
  by (simp add: crc32_spec crc_spec_def crc_byte_fun)

text \<open>
  CRC-32 of a stream: feeding a buffer in two calls, split anywhere, on whatever
  machines and at whatever addresses, gives the checksum of the whole.
\<close>

theorem crc32_streaming:
  "crc32 mc2 addr2 (crc32 mc1 addr1 crc (Some xs)) (Some ys) = crc32 mc addr crc (Some (xs @ ys))"
  by (simp add: crc32_spec crc_spec_def)

text \<open>
  C13. \<open>crc32_combine\<close>: the powers of the GF(2) matrix advance the first checksum over the
  second buffer, so the result is the checksum of the concatenation.
\<close>

theorem crc32_combine_correct:
  "crc32_combine (crc32 mc1 addr1 crc (Some xs)) (crc32 mc2 addr2 0 (Some ys)) (int (length ys)) =
     crc32 mc addr crc (Some (xs @ ys))"
  by (simp add: crc32_spec crc32_combine_spec)

text \<open>
  The eight tables of \<open>make_crc_table\<close>: row \<open>k\<close> holds the shift register after
  \<open>k + 1\<close> bytes, rows 4 to 7 the same values with their bytes reversed.
\<close>

theorem crc_table_correct:
  "crc_table k n = (if k < 4 then (crc_bit ^^ (8 * (k + 1))) (of_nat n)
     else ZSWAP32 ((crc_bit ^^ (8 * (k - 3))) (of_nat n)))"
proof -
  have "8 * (k - 4 + 1) = 8 * (k - 3)" if "\<not> k < 4" using that by simp
  then show ?thesis by (simp only: crc_table_def table_little_eq crc_bits_funpow split: if_split) simp
qed

section \<open>SHA-1\<close>

text \<open>
  C14. The digest of the SCTP stack is SHA-1: whatever the pieces in which a message of less
  than half a gigabyte is fed to \<open>sctp_sha1_update\<close>, \<open>sctp_sha1_final\<close> returns the digest
  of the padded message by the standard's recursive message schedule and rounds.
\<close>

theorem sctp_sha1_correct:
  assumes "length (sha_block ctx) = 64" "length (concat chunks) < 2 ^ 29"
  shows "fst (sctp_sha1_final (foldl sctp_sha1_update (sctp_sha1_init ctx) chunks)) = sha1_spec (concat chunks)"
  using sctp_sha1_digest [OF assms(1), of chunks] code_pad_eq [of "concat chunks"] assms(2)
  by (simp add: sha1_spec_def)

definition sample_context :: sha1_context where
  "sample_context = \<lparr>sA = 1, sB = 2, sC = 3, sD = 4, sE = 5, H0 = 6, H1 = 7, H2 = 8, H3 = 9, H4 = 10,
     sha_words = replicate 80 11, TEMP = 12, sha_block = replicate 64 13, how_many_in_block = 14, running_total = 15\<rparr>"

theorem sctp_sha1_correct_witness:
  "fst (sctp_sha1_final (foldl sctp_sha1_update (sctp_sha1_init sample_context) [[97, 98], [], [99]])) =
     sha1_spec (concat [[97, 98], [], [99]])"
  by (rule sctp_sha1_correct) (simp_all add: sample_context_def)

text \<open>
  Streaming: two updates with the halves of a buffer, split anywhere, leave exactly the
  context of one update with the whole buffer, in every field.
\<close>

theorem sctp_sha1_update_streaming:
  assumes "how_many_in_block ctx < 64" "length (sha_block ctx) = 64" "length (sha_words ctx) = 80"
  shows "sctp_sha1_update (sctp_sha1_update ctx xs) ys = sctp_sha1_update ctx (xs @ ys)"
  using assms by (rule sha1_update_append)

theorem sctp_sha1_update_streaming_witness:
  "sctp_sha1_update (sctp_sha1_update sample_context (replicate 55 1)) [2, 3] =
     sctp_sha1_update sample_context (replicate 55 1 @ [2, 3])"
  by (rule sctp_sha1_update_streaming) (simp_all add: sample_context_def)

text \<open>
  The size in bits is kept in 32 bits: half a gigabyte more on the byte counter gives
  the same digest, where the standard encodes the size in 64 bits.
\<close>

theorem sctp_sha1_size_wraps:
  "sctp_sha1_final (ctx\<lparr>running_total := running_total ctx + 0x20000000\<rparr>) = sctp_sha1_final ctx"
  by (rule final_wraps)

section \<open>Building regions from rectangles\<close>

text \<open>
  C15. \<open>QuickSortRects\<close> permutes the rectangles into ascending order of their top, then left
  edges.
\<close>

theorem QuickSortRects_correct:
  assumes "rs \<noteq> []"
  shows "sorted_wrt (\<lambda>a b. \<not> rect_less b a) (QuickSortRects rs) \<and> mset (QuickSortRects rs) = mset rs"
  using QuickSortRects_sorts [OF assms] by (simp add: sorted_map rects.lt_key not_less)

theorem QuickSortRects_correct_witness:
  "sorted_wrt (\<lambda>a b. \<not> rect_less b a) (QuickSortRects [mkbox 4 4 5 5, mkbox 1 4 2 5, mkbox 0 0 1 1]) \<and>
    mset (QuickSortRects [mkbox 4 4 5 5, mkbox 1 4 2 5, mkbox 0 0 1 1]) = mset [mkbox 4 4 5 5, mkbox 1 4 2 5, mkbox 0 0 1 1]"
  by (rule QuickSortRects_correct) simp

text \<open>
  Appending keeps every rectangle: when allocation succeeds \<open>miRegionAppend\<close> leaves in
  the destination its rectangles and those of the source.
\<close>

theorem miRegionAppend_collects:
  assumes "alloc_ok ok" "\<not> REGION_NAR rgn" "region_ok dst \<or> unvalidated dst"
  shows "\<exists>r. miRegionAppend ok dst rgn = (True, r) \<and>
    mset (REGION_RECTS r) = mset (REGION_RECTS dst) + mset (REGION_RECTS rgn)"
  using miRegionAppend_rects [OF assms(1,2)] assms(3) by (auto simp: unvalidated_def dest: region_ok_block)

theorem miRegionAppend_collects_witness:
  "\<exists>r. miRegionAppend always sample_L sample_box = (True, r) \<and>
    mset (REGION_RECTS r) = mset (REGION_RECTS sample_L) + mset (REGION_RECTS sample_box)"
  by (rule miRegionAppend_collects) (simp_all add: always_ok sample_L_ok sample_box_ok)

text \<open>
  C16. Appending a region that lies below or above the destination with a gap keeps the
  banded form: the result is well formed without a call of \<open>miRegionValidate\<close>.
\<close>

theorem miRegionAppend_banded:
  assumes "alloc_ok ok" "region_ok dst" "miRegionNotEmpty dst" "region_ok rgn" "miRegionNotEmpty rgn"
    "by2 (extents dst) < by1 (extents rgn) \<or> by2 (extents rgn) < by1 (extents dst)"
  shows "\<exists>r. miRegionAppend ok dst rgn = (True, r) \<and> region_ok r \<and>
    (\<forall>x y. pixels r x y \<longleftrightarrow> pixels dst x y \<or> pixels rgn x y)"
  using miRegionAppend_gap [OF assms(1,2) _ assms(4) _ assms(6)] assms(3,5)
  by (fastforce simp: miRegionNotEmpty_def REGION_NIL_iff pixels_def split: if_splits)

theorem miRegionAppend_banded_witness:
  "\<exists>r. miRegionAppend always \<lparr>extents = mkbox 3 20 8 25, rgdata = NoData\<rparr> sample_L = (True, r) \<and> region_ok r \<and>
    (\<forall>x y. pixels r x y \<longleftrightarrow> pixels \<lparr>extents = mkbox 3 20 8 25, rgdata = NoData\<rparr> x y \<or> pixels sample_L x y)"
  by (rule miRegionAppend_banded [OF _ _ _ sample_L_ok])
    (simp_all add: always_ok region_ok_NoData miRegionNotEmpty_def REGION_NIL_def sample_L_def)


text \<open>
  C18. Validation: from any non-empty list of proper rectangles, in any order and with any
  overlap, \<open>miRegionValidate\<close> computes the well-formed region of exactly their pixels.
\<close>

theorem miRegionValidate_correct:
  assumes "alloc_ok ok" "alloc_ok okRI" "unvalidated badreg"
  shows "\<exists>r ov. miRegionValidate ok okRI badreg = (True, r, ov) \<and> region_ok r \<and>
    (\<forall>x y. pixels r x y \<longleftrightarrow> in_rects (data_rects (rgdata badreg)) x y)"
proof -
  have "pixels badreg x y = in_rects (data_rects (rgdata badreg)) x y" for x y
    using assms(3) by (auto simp: unvalidated_def pixels_def REGION_RECTS_def)
  then show ?thesis using miRegionValidate_ok [OF assms] by simp
qed

theorem miRegionValidate_correct_witness:
  "\<exists>r ov. miRegionValidate always always
      \<lparr>extents = mkbox 0 0 0 0, rgdata = RegData 3 [mkbox 4 4 9 9, mkbox 0 0 5 5, mkbox 2 0 7 3]\<rparr> = (True, r, ov) \<and> region_ok r \<and>
    (\<forall>x y. pixels r x y \<longleftrightarrow> in_rects (data_rects (rgdata
      \<lparr>extents = mkbox 0 0 0 0, rgdata = RegData 3 [mkbox 4 4 9 9, mkbox 0 0 5 5, mkbox 2 0 7 3]\<rparr>)) x y)"
  by (rule miRegionValidate_correct) (simp_all add: always_ok unvalidated_def)

text \<open>
  \<open>miRectsToRegion\<close> of unsorted X rectangles is the well-formed region of the pixels of
  the rectangles, clamped to the range of \<open>short\<close>.
\<close>

theorem miRectsToRegion_correct:
  assumes "alloc_ok ok" "alloc_ok okRI" "\<forall>p \<in> set ps. xrect_ok p" "ctype \<noteq> CT_YXBANDED"
  shows "region_ok (miRectsToRegion ok True okRI ps ctype) \<and>
    (\<forall>x y. pixels (miRectsToRegion ok True okRI ps ctype) x y \<longleftrightarrow>
      (\<exists>p \<in> set ps. rx p \<le> x \<and> x < min (rx p + rwidth p) MAXSHORT \<and> ry p \<le> y \<and> y < min (ry p + rheight p) MAXSHORT))"
proof -
  have "INBOX (rect_box p) x y \<longleftrightarrow> rx p \<le> x \<and> x < min (rx p + rwidth p) MAXSHORT \<and> ry p \<le> y \<and> y < min (ry p + rheight p) MAXSHORT" for p x y
    by (auto simp: rect_box_def INBOX_def Let_def)
  then show ?thesis using miRectsToRegion_ok [OF assms] by simp
qed

theorem miRectsToRegion_correct_witness:
  "region_ok (miRectsToRegion always True always [\<lparr>rx = 5, ry = 5, rwidth = 40, rheight = 40\<rparr>, \<lparr>rx = 0, ry = 0, rwidth = 10, rheight = 0\<rparr>, \<lparr>rx = 32760, ry = 7, rwidth = 100, rheight = 2\<rparr>] 0) \<and>
    (\<forall>x y. pixels (miRectsToRegion always True always [\<lparr>rx = 5, ry = 5, rwidth = 40, rheight = 40\<rparr>, \<lparr>rx = 0, ry = 0, rwidth = 10, rheight = 0\<rparr>, \<lparr>rx = 32760, ry = 7, rwidth = 100, rheight = 2\<rparr>] 0) x y \<longleftrightarrow>
      (\<exists>p \<in> set [\<lparr>rx = 5, ry = 5, rwidth = 40, rheight = 40\<rparr>, \<lparr>rx = 0, ry = 0, rwidth = 10, rheight = 0\<rparr>, \<lparr>rx = 32760, ry = 7, rwidth = 100, rheight = 2\<rparr>].
        rx p \<le> x \<and> x < min (rx p + rwidth p) MAXSHORT \<and> ry p \<le> y \<and> y < min (ry p + rheight p) MAXSHORT))"
  by (rule miRectsToRegion_correct) (simp_all add: always_ok xrect_ok_def CT_YXBANDED_def MAXSHORT_def)

text \<open>
  With \<open>CT_YXBANDED\<close> and only one non-empty rectangle among several, the region keeps a
  heap block with one rectangle, which the code's own validity check rejects.
\<close>

theorem miRectsToRegion_single_block:
  "\<not> miValidRegion (miRectsToRegion always True always
     [\<lparr>rx = 5, ry = 5, rwidth = 40, rheight = 40\<rparr>, \<lparr>rx = 0, ry = 50, rwidth = 10, rheight = 0\<rparr>] CT_YXBANDED)"
  by (simp add: miRectsToRegion_def miRegionCreate_def REGION_NAR_def always_def rect_box_def Let_def MAXSHORT_def
      miSetExtents_def miValidRegion_def REGION_RECTS_def)

section \<open>Clipping scanlines\<close>

text \<open>
  C19. The spans \<open>miClipSpans\<close> returns cover exactly the pixels of the given spans that lie in
  the region, in whatever order the spans come.
\<close>

theorem miClipSpans_correct:
  assumes "region_ok r" "fSorted \<longrightarrow> sorted (map sy ss)"
  shows "(\<exists>s \<in> set (miClipSpans r ss fSorted). sy s = y \<and> sx s \<le> x \<and> x < sx s + sw s) \<longleftrightarrow>
    (\<exists>s \<in> set ss. sy s = y \<and> sx s \<le> x \<and> x < sx s + sw s) \<and> pixels r x y"
  using miClipSpans_ok [OF assms(1), of fSorted ss x y] assms(2) by (simp add: covers_def)

theorem miClipSpans_correct_witness:
  "(\<exists>s \<in> set (miClipSpans sample_L [\<lparr>sx = 2, sy = 7, sw = 30\<rparr>, \<lparr>sx = -1, sy = 3, sw = 9\<rparr>] False). sy s = 3 \<and> sx s \<le> 4 \<and> 4 < sx s + sw s) \<longleftrightarrow>
    (\<exists>s \<in> set [\<lparr>sx = 2, sy = 7, sw = 30\<rparr>, \<lparr>sx = -1, sy = 3, sw = 9\<rparr>]. sy s = 3 \<and> sx s \<le> 4 \<and> 4 < sx s + sw s) \<and> pixels sample_L 4 3"
  by (rule miClipSpans_correct [OF sample_L_ok]) simp

text \<open>
  The room a caller must provide: \<open>miClipSpans\<close> never returns more than
  \<open>miFindMaxBand\<close> spans for each span given.
\<close>

theorem miClipSpans_room:
  "length (miClipSpans r ss fSorted) \<le> miFindMaxBand r * length ss"
  by (rule miClipSpans_length)

section \<open>Screen updates\<close>





text \<open>
  C22. \<open>addCopyRect\<close> keeps the bookkeeping right across a screen-to-screen copy, when part of
  its source is visible and no changed pixel is both overwritten and copied elsewhere.
\<close>

theorem addCopyRect_correct:
  assumes "alloc_ok ok" "keeper_ok k" "short_rect copyRect" "tracks k F S"
    and "executes_copy (borderRect k) copyRect src S S'"
    and "copy_visible (borderRect k) copyRect src" "damage_kept k copyRect src"
  shows "keeper_ok (addCopyRect ok copyRect src k) \<and> tracks (addCopyRect ok copyRect src k) F S'"
  using assms by (rule addCopyRect_tracks)

theorem addCopyRect_correct_witness:
  "keeper_ok (addCopyRect always (setRect 2 2 8 8) \<lparr>px = 0, py = 3\<rparr> (UpdateKeeper_new always (setRect 0 0 20 20))) \<and>
   tracks (addCopyRect always (setRect 2 2 8 8) \<lparr>px = 0, py = 3\<rparr> (UpdateKeeper_new always (setRect 0 0 20 20)))
     (\<lambda>x y. x * y) (\<lambda>x y. if isPointInRect (setRect 2 2 8 8) x y then (x - 2) * (y + 1) else x * y)"
proof (rule addCopyRect_correct [OF always_ok])
  have b: "border_ok (setRect 0 0 20 20)" by (simp add: border_ok_def MINSHORT_def MAXSHORT_def)
  note k = new_keeper [OF b, of always]
  show "keeper_ok (UpdateKeeper_new always (setRect 0 0 20 20))" by (rule k(1))
  show "tracks (UpdateKeeper_new always (setRect 0 0 20 20)) (\<lambda>x y. x * y) (\<lambda>x y. x * y :: int)"
    by (simp add: tracks_iff copied_picture_def k(4))
  show "short_rect (setRect 2 2 8 8)" by (simp add: short_rect_def is_short_def)
  show "executes_copy (borderRect (UpdateKeeper_new always (setRect 0 0 20 20))) (setRect 2 2 8 8) \<lparr>px = 0, py = 3\<rparr>
     (\<lambda>x y. x * y) (\<lambda>x y. if isPointInRect (setRect 2 2 8 8) x y then (x - 2) * (y + 1) else x * y :: int)"
    by (simp add: executes_copy_def copy_distance_def)
  show "copy_visible (borderRect (UpdateKeeper_new always (setRect 0 0 20 20))) (setRect 2 2 8 8) \<lparr>px = 0, py = 3\<rparr>"
    unfolding k(2) copy_visible_def copy_distance_def
    by (simp add: in_rect) (intro disjI2 exI [of _ 4] conjI exI [of _ 5], simp_all)
  show "damage_kept (UpdateKeeper_new always (setRect 0 0 20 20)) (setRect 2 2 8 8) \<lparr>px = 0, py = 3\<rparr>"
    by (simp add: damage_kept_def copy_distance_def k(3))
qed

text \<open>
  C23. Without the last condition an update is lost: the damage is removed from the changed
  region before its copy is looked up there. Here the changed square from 10 to 20 is
  overwritten by a copy that moves it by 5; the client never learns of the moved part.
\<close>

theorem addCopyRect_loses_damage:
  "\<exists>k S S'. keeper_ok k \<and> tracks k (\<lambda>x y. False) S \<and>
     executes_copy (borderRect k) (setRect 5 5 25 25) \<lparr>px = 0, py = 0\<rparr> S S' \<and>
     copy_visible (borderRect k) (setRect 5 5 25 25) \<lparr>px = 0, py = 0\<rparr> \<and>
     \<not> tracks (addCopyRect always (setRect 5 5 25 25) \<lparr>px = 0, py = 0\<rparr> k) (\<lambda>x y. False) S'"
proof -
  define b c p where "b = setRect 0 0 100 100" and "c = setRect 5 5 25 25" and "p = \<lparr>px = 0, py = (0 :: int)\<rparr>"
  note d = b_def c_def p_def
  define n where "n = UpdateKeeper_new always b"
  define k where "k = addChangedRect always (setRect 10 10 20 20) n"
  define S where "S = isPointInRect (setRect 10 10 20 20)"
  define S' where "S' = (\<lambda>x y. if isPointInRect c x y then S (x - 5) (y - 5) else S x y)"
  have "border_ok b" by (simp add: b_def border_ok_def MINSHORT_def MAXSHORT_def)
  note n = new_keeper [OF this, of always, folded n_def]
  have s: "short_rect (setRect 10 10 20 20)" by (simp add: short_rect_def is_short_def)
  have k: "keeper_ok k" "pixels (changedRegion (updates k)) = S"
    using addChangedRect_ok [OF always_ok n(1) s, folded k_def] by (auto simp: S_def n(2,3) b_def in_rect intro!: ext)
  have bk: "borderRect k = b" "copiedRegion (updates k) = copiedRegion (updates n)" using n(2) by (simp_all add: k_def)
  have first: "Region_isEmpty (copiedRegion (updates k))" using n(5) bk(2) by simp
  have t: "tracks k (\<lambda>x y. False) S" by (simp add: tracks_iff copied_picture_def k(2) n(4) bk(2))
  have c: "clip_copy (borderRect k) c p = (c, setRect 0 0 20 20)"
    by (simp add: bk d clip_copy_def setLocation_def correct_edges_def intersection_def isValid_def Let_def setRect_def)
  have e: "\<not> rect_isEmpty c" "short_rect c" by (simp_all add: c_def rect_isEmpty_iff short_rect_def is_short_def)
  note f = addCopyRect_fresh [OF always_ok k(1) e(2,1) c e(1) first]
  have g: "Region_getBounds (copiedRegion (updates (addCopyRect always c p k))) = c"
    by (rule getBounds_rect [OF keeper_okD(1) [OF f(1)] f(4) e(1)])
  have "\<not> pixels (changedRegion (updates (addCopyRect always c p k))) 17 17" "isPointInRect b 17 17"
    unfolding f(5) by (simp_all add: d in_rect)
  moreover have "\<not> copied_picture (updates (addCopyRect always c p k)) (\<lambda>x y. False) 17 17" "S' 17 17"
    by (simp_all add: copied_picture_def S'_def S_def d in_rect)
  ultimately have "\<not> tracks (addCopyRect always c p k) (\<lambda>x y. False) S'"
    unfolding tracks_iff f(2) bk by metis
  moreover have "executes_copy (borderRect k) c p S S'"
    by (simp add: executes_copy_def copy_distance_def S'_def) (simp add: d)
  moreover have "copy_visible (borderRect k) c p"
    unfolding bk copy_visible_def copy_distance_def d
    by (simp add: in_rect) (intro disjI2 exI [of _ 17] conjI, simp_all)
  ultimately show ?thesis using k(1) t unfolding c_def p_def by blast
qed

text \<open>
  C24. Nor does a copy from outside the border leave a trace: the method returns before it
  adds the part without a visible source to the changed region.
\<close>

theorem addCopyRect_loses_source:
  "\<exists>k S S'. keeper_ok k \<and> tracks k (\<lambda>x y. False) S \<and>
     executes_copy (borderRect k) (setRect 0 0 10 10) \<lparr>px = -50, py = 0\<rparr> S S' \<and>
     \<not> tracks (addCopyRect always (setRect 0 0 10 10) \<lparr>px = -50, py = 0\<rparr> k) (\<lambda>x y. False) S'"
proof -
  define b c p where "b = setRect 0 0 100 100" and "c = setRect 0 0 10 10" and "p = \<lparr>px = -50, py = (0 :: int)\<rparr>"
  note d = b_def c_def p_def
  define k where "k = UpdateKeeper_new always b"
  have "border_ok b" by (simp add: b_def border_ok_def MINSHORT_def MAXSHORT_def)
  note k = new_keeper [OF this, of always, folded k_def]
  have "addCopyRect always c p k = k"
    by (simp add: addCopyRect_def k(2) d clip_copy_def setLocation_def correct_edges_def intersection_def isValid_def Let_def
        setRect_def rect_clear_def rect_isEmpty_def getWidth_def getHeight_def)
  moreover have "\<not> tracks k (\<lambda>x y. False) (isPointInRect c)"
  proof -
    have "isPointInRect b 5 5" "isPointInRect c 5 5" by (simp_all add: d in_rect)
    then show ?thesis unfolding tracks_iff k copied_picture_def by metis
  qed
  moreover have "executes_copy (borderRect k) c p (\<lambda>x y. False) (isPointInRect c)"
    by (auto simp: executes_copy_def copy_distance_def k(2) d in_rect)
  moreover have "tracks k (\<lambda>x y. False) (\<lambda>x y. False)" by (simp add: tracks_iff copied_picture_def)
  ultimately have "keeper_ok k \<and> tracks k (\<lambda>x y. False) (\<lambda>x y. False) \<and>
      executes_copy (borderRect k) c p (\<lambda>x y. False) (isPointInRect c) \<and>
      \<not> tracks (addCopyRect always c p k) (\<lambda>x y. False) (isPointInRect c)"
    using k(1) by simp
  then show ?thesis unfolding c_def p_def by blast
qed



section \<open>The frame buffer\<close>

text \<open>
  C26. \<open>move\<close> copies inside one block as if every pixel were read before any is written,
  for overlapping rectangles too; it writes only pixels of the destination whose source lies in the
  frame, and neither its \<open>memcpy\<close> nor its \<open>memmove\<close> leaves the block or is given ranges it may not have.
\<close>

theorem move_correct:
  assumes "fb_ok fb"
  shows "\<exists>b. move_fb d srcX srcY fb = Some (fb\<lparr>buffer := b\<rparr>) \<and> length b = length (buffer fb) \<and>
    (\<forall>x y. inside fb x y \<longrightarrow> pixel (fb\<lparr>buffer := b\<rparr>) x y =
       (if isPointInRect d x y \<and> inside fb (x + (srcX - rleft d)) (y + (srcY - rtop d))
        then pixel fb (x + (srcX - rleft d)) (y + (srcY - rtop d)) else pixel fb x y))"
  using move_fb_ok [OF assms] .

theorem move_correct_witness:
  "\<exists>b. move_fb (setRect 1 1 4 4) 0 0 sample_shades = Some (sample_shades\<lparr>buffer := b\<rparr>) \<and>
     pixel (sample_shades\<lparr>buffer := b\<rparr>) 3 3 = [10]"
proof -
  have i: "inside sample_shades 3 3" "inside sample_shades 2 2" by (simp_all add: inside_def sample_shades_def sample_fb_def)
  have s: "isPointInRect (setRect 1 1 4 4) 3 3" "3 + (0 - rleft (setRect 1 1 4 4)) = (2 :: int)" "3 + (0 - rtop (setRect 1 1 4 4)) = (2 :: int)"
    by (simp_all add: in_rect)
  from move_correct [OF sample_fb_ok(2), of "setRect 1 1 4 4" 0 0]
  obtain b where "move_fb (setRect 1 1 4 4) 0 0 sample_shades = Some (sample_shades\<lparr>buffer := b\<rparr>)"
      "pixel (sample_shades\<lparr>buffer := b\<rparr>) 3 3 = pixel sample_shades 2 2" using i by (metis s)
  with sample_shades_pixel [OF i(2)] show ?thesis by auto
qed

text \<open>
  C27. \<open>fillRect\<close> has no test for an empty clipped rectangle: one that begins at the bottom
  edge of the frame has its first line written behind the end of the block.
\<close>

theorem fillRect_overruns:
  assumes "fb_ok fb" "rtop d = height (dim fb)" "height (dim fb) \<le> rbottom d"
    and "max 0 (rleft d) < min (width (dim fb)) (rright d)"
  shows "fillRect d color fb = None"
  using assms by (rule fillRect_below)

theorem fillRect_overruns_witness: "fillRect (setRect 0 4 2 6) 7 (sample_fb 0) = None"
  by (rule fillRect_overruns [OF sample_fb_ok(1)]) (simp_all add: sample_fb_def)

text \<open>
  C28. The filter on a container that brings the frame buffer up to the screen \<open>S\<close>: afterwards the
  frame buffer shows the screen, the changed region has shrunk to pixels that were to be
  checked, and the container still brings the old picture up to the screen.
\<close>

theorem filter_correct:
  assumes "alloc_ok ok" "same_shape screen fb" "screen_ok fb" "container_in fb uc" "copy_in fb uc" "grabs grab screen S"
    and "\<And>x y. inside fb x y \<Longrightarrow> updated_picture uc S (pixel fb) x y = S x y"
  shows "\<exists>uc' fb' screen'. filter_updates ok grab uc fb screen = Some (uc', fb', screen') \<and>
    container_in fb uc' \<and> same_shape fb' screen' \<and>
    (\<forall>x y. pixels (changedRegion uc') x y \<longrightarrow> to_check uc x y) \<and>
    (\<forall>x y. inside fb x y \<longrightarrow> pixel fb' x y = S x y \<and> updated_picture uc' S (pixel fb) x y = S x y)"
  using filter_delivers [OF assms] .

theorem filter_correct_witness:
  "\<exists>uc' fb' screen'. filter_updates always sample_grab whole_frame (sample_fb 0) (sample_fb 0) = Some (uc', fb', screen') \<and>
     pixel fb' 2 3 = [1]"
proof -
  have u: "updated_picture whole_frame (\<lambda>x y. [1]) (pixel (sample_fb 0)) x y = [1]" if "inside (sample_fb 0) x y" for x y
    using that by (simp add: updated_picture_def whole_frame_pixels sample_inside)
  have i: "inside (sample_fb 0) 2 3" by (simp add: sample_inside in_rect)
  from filter_correct [OF always_ok sample_shape sample_fb_ok(3) whole_frame_ok sample_grabs u] i show ?thesis by blast
qed

section \<open>Encodings\<close>

text \<open>
  C29. RRE: whatever \<open>rreEncode\<close> writes for a rectangle of a frame buffer into an empty byte array stream,
  followed by anything, is read by the decoder into a client of the same shape as exactly the
  visible bits of the pixels of the rectangle; no other pixel changes, and what follows the
  message is left in the stream.
\<close>

theorem rre_roundtrip:
  assumes "fb_ok fb" "rect_within fb r" and "fb_ok client" "dim client = dim fb" "fmt client = fmt fb"
    and "getWidth r < 65536" "getHeight r < 65536"
    and "out_ready s" "toByteArray s = []"
  shows "\<exists>s' client' t. rreEncode (ByteArrayOutputStream_write mem) (nat (pixel_size fb)) r fb s = Some s' \<and>
    RreDecoder_decode ByteArrayInputStream_read junk r client (ByteArrayInputStream_new (toByteArray s' @ rest)) = Some (client', t) \<and>
    in_pending t = rest \<and>
    (\<forall>x y. inside client x y \<longrightarrow> pixel client' x y = (if isPointInRect r x y then visible fb x y else pixel client x y))"
  using assms by (rule rre_roundtrip_ok)

theorem rre_roundtrip_witness:
  "\<exists>s' client' t. rreEncode (ByteArrayOutputStream_write []) 1 (setRect 1 1 3 3) sample_shades (ByteArrayOutputStream_new [] 0) = Some s' \<and>
    RreDecoder_decode ByteArrayInputStream_read 0 (setRect 1 1 3 3) (sample_fb 0) (ByteArrayInputStream_new (toByteArray s' @ [])) = Some (client', t) \<and>
    pixel client' 2 1 = [6]"
proof -
  have v: "visible sample_shades 2 1 = [6]"
    by code_simp
  have i: "inside (sample_fb 0) 2 1" "isPointInRect (setRect 1 1 3 3) 2 1"
    by (simp_all add: sample_inside in_rect)
  have "rect_within sample_shades (setRect 1 1 3 3)" "dim (sample_fb 0) = dim sample_shades" "fmt (sample_fb 0) = fmt sample_shades"
    "getWidth (setRect 1 1 3 3) < 65536" "getHeight (setRect 1 1 3 3) < 65536" "nat (pixel_size sample_shades) = 1"
    by (simp_all add: rect_within_def sample_shades_def sample_fb_def pixel_size_def gray_def getWidth_def getHeight_def)
  with rre_roundtrip [OF sample_fb_ok(2) _ sample_fb_ok(1) _ _ _ _ ByteArrayOutputStream_new_ok, where r = "setRect 1 1 3 3"] i v
  show ?thesis by metis
qed

text \<open>
  C30. \<open>TightPalette::insert\<close> implements an update of a finite map from colours to counts: a
  colour that is present has its count raised, a new one is appended, and the entries stay sorted and
  the hash chains right; a new colour that meets a full palette gives 0 and empties the count.
\<close>

theorem palette_insert_correct:
  assumes "palette_ok p" "0 \<le> n"
  shows "\<exists>r p'. TightPalette_insert rgb n p = Some (r, p') \<and> maxColors p' = maxColors p \<and>
    (case map_of (colors_of p) rgb of
       Some k \<Rightarrow> r = numColors p \<and> palette_ok p' \<and> numColors p' = r \<and> map_of (colors_of p') = (map_of (colors_of p))(rgb \<mapsto> k + n)
     | None \<Rightarrow>
         if int (numColors p) = maxColors p then r = 0 \<and> numColors p' = 0
         else r = numColors p + 1 \<and> palette_ok p' \<and> numColors p' = r \<and> map_of (colors_of p') = (map_of (colors_of p))(rgb \<mapsto> n))"
  using assms by (rule TightPalette_insert_ok)

theorem palette_insert_correct_witness:
  "\<exists>p'. TightPalette_insert 7 3 sample_palette = Some (1, p') \<and> map_of (colors_of p') 7 = Some 3"
proof -
  have "maxColors sample_palette = 254" by (simp add: sample_palette_def TightPalette_new_def TightPalette_setMaxColors_def TightPalette_reset_def)
  with palette_insert_correct [OF sample_palette_ok(1), of 3 7] show ?thesis
    by (auto simp: sample_palette_ok)
qed

text \<open>
  C31. Hextile: what \<open>hextileFunction\<close> writes for a rectangle, tile by tile and whatever memory it
  runs in, lets the viewer process the rectangle: the pixels of the rectangle are those of the server in both of its frame buffers,
  all others stay, the notifier is told of the rectangle once, and what follows the message stays in the stream.
\<close>

theorem hextile_roundtrip:
  assumes F: "fb_ok F" "rect_within F r" and junk: "\<And>k. length (junk k) = k"
    and mem: "length (pentry (t_pal (v_tile mem))) = 256" "length (pnodes (t_pal (v_tile mem))) = 256"
    and v: "view_ok F v" "rect_within (second v) r" and out: "out_ready s" "toByteArray s = []"
  shows "\<exists>s' v' t. hextileFunction (ByteArrayOutputStream_write heap) junk mem (nat (pixel_size F)) r F s = Some s' \<and>
    DecoderOfRectangle_process (HexTileDecoder_decode ByteArrayInputStream_read) r v
      (ByteArrayInputStream_new (toByteArray s' @ rest)) = Some (v', t) \<and>
    in_pending t = rest \<and> view_drawn F (isPointInRect r) v v' \<and> notified v' = notified v @ [r]"
  using assms by (rule hextile_roundtrip_ok)

theorem hextile_roundtrip_witness:
  "\<exists>s' v' t. hextileFunction (ByteArrayOutputStream_write []) (\<lambda>k. replicate k 0) sample_vars 1 (setRect 1 1 3 3) sample_shades
      (ByteArrayOutputStream_new [] 0) = Some s' \<and>
    DecoderOfRectangle_process (HexTileDecoder_decode ByteArrayInputStream_read) (setRect 1 1 3 3) sample_view
      (ByteArrayInputStream_new (toByteArray s' @ [9])) = Some (v', t) \<and> pixel (shown v') 2 1 = [6]"
  using hextile_roundtrip [where rest = "[9]" and heap = "[]" and junk = "\<lambda>k. replicate k 0" and s = "ByteArrayOutputStream_new [] 0", OF sample_fb_ok(2) sample_middle(1) length_replicate sample_vars_ok
      sample_view_ok sample_middle(2) ByteArrayOutputStream_new_ok, unfolded sample_middle(6)]
  by (elim exE conjE) (intro exI conjI, assumption, assumption, rule sample_drawn)

text \<open>
  C32. Raw: the lines that the server writes for a rectangle are read by the viewer in strips; the
  pixels of the rectangle are those of the server in both frame buffers and all others stay. The strips of which the notifier is
  told are not empty and lie below one another from the top of the rectangle to its bottom.
\<close>

theorem raw_roundtrip:
  assumes F: "F = convert r serverFb" "fb_ok F" "rect_within F r" and v: "view_ok F v" "rect_within (second v) r"
    and out: "out_ready s" "toByteArray s = []"
  shows "\<exists>s' v' t. Encoder_sendRectangle (ByteArrayOutputStream_write mem) convert r serverFb s = Some s' \<and>
    RawDecoder_process ByteArrayInputStream_read r v (ByteArrayInputStream_new (toByteArray s' @ rest)) = Some (v', t) \<and>
    in_pending t = rest \<and> view_drawn F (isPointInRect r) v v' \<and>
    (\<exists>qs. notified v' = notified v @ qs \<and> stacked r (rtop r) qs (rbottom r))"
  using assms by (rule raw_roundtrip_ok)

theorem raw_roundtrip_witness:
  "\<exists>s' v' t. Encoder_sendRectangle (ByteArrayOutputStream_write []) (\<lambda>r fb. fb) (setRect 1 1 3 3) sample_shades
      (ByteArrayOutputStream_new [] 0) = Some s' \<and>
    RawDecoder_process ByteArrayInputStream_read (setRect 1 1 3 3) sample_view
      (ByteArrayInputStream_new (toByteArray s' @ [9])) = Some (v', t) \<and> pixel (shown v') 2 1 = [6]"
  using raw_roundtrip [where rest = "[9]" and mem = "[]" and convert = "\<lambda>r fb. fb" and s = "ByteArrayOutputStream_new [] 0", OF _ sample_fb_ok(2) sample_middle(1)
      sample_view_ok sample_middle(2) ByteArrayOutputStream_new_ok, OF refl]
  by (elim exE conjE) (intro exI conjI, assumption, assumption, rule sample_drawn)

section \<open>Passwords and connections\<close>

text \<open>
  C33. DES: data of whole blocks that is encrypted, to another place or in place, and decrypted from there
  comes back, whatever the array of keys held before; both methods leave their object without the key.
\<close>

theorem des_roundtrip:
  assumes "length kn = 32" "length kn' = 32" and "load src (8 * int n) b = Some bs"
    and "in_block dst (8 * int n) b" "in_block dst' (8 * int n) b"
    and "src = dst \<or> apart (8 * int n) src dst" "dst = dst' \<or> apart (8 * int n) dst dst'"
  shows "\<exists>b1 b2. DesCrypt_encrypt kn dst src (8 * n) key b = Some (b1, clearKey) \<and>
    DesCrypt_decrypt kn' dst' dst (8 * n) key b1 = Some (b2, clearKey) \<and> load dst' (8 * int n) b2 = Some bs"
  using assms by (rule des_roundtrip_ok)

theorem des_roundtrip_witness:
  "\<exists>b1 b2. DesCrypt_encrypt (replicate 32 0) 8 0 8 sample_password (replicate 16 7) = Some (b1, clearKey) \<and>
    DesCrypt_decrypt (replicate 32 1) 8 8 8 sample_password b1 = Some (b2, clearKey) \<and> load 8 8 b2 = Some (replicate 8 7)"
  using des_roundtrip [where n = 1 and kn = "replicate 32 0" and kn' = "replicate 32 1" and src = 0 and dst = 8 and dst' = 8
      and b = "replicate 16 7" and bs = "replicate 8 7" and key = sample_password]
  by (simp add: load_def in_block_def apart_def)

text \<open>
  C34. A password that is stored with \<open>getEncryptedPass\<close> is given back by \<open>getPlainPass\<close> and by \<open>updatePlain\<close>,
  although the first two take the size of a pointer, four or eight, for that of the password.
\<close>

theorem password_roundtrip:
  assumes "length pw = 8" "length enc = 8" "length arr = 8" "length kn = 32" "length kn' = 32" "0 < psize" "psize \<le> 8"
  shows "\<exists>c. getEncryptedPass psize kn enc pw = Some c \<and> getPlainPass psize kn' arr c = Some pw \<and> updatePlain kn' c arr = Some pw"
  using assms by (rule stored_and_read)

theorem password_roundtrip_witness:
  "\<exists>c. getEncryptedPass 4 (replicate 32 0) (replicate 8 0) sample_password = Some c \<and>
    getPlainPass 4 (replicate 32 0) (replicate 8 0) c = Some sample_password \<and>
    updatePlain (replicate 32 0) c (replicate 8 0) = Some sample_password"
  by (rule password_roundtrip) (simp_all add: sample_password_def)



text \<open>
  C36. Whatever bytes a client sends, also in the wrong order or for an older version: if a server that asks for a password lets it in, then the
  client has sent sixteen bytes that are the encryption of the challenge under one of the configured passwords, and the view-only flag is
  the one of that password.
\<close>

theorem let_in_with_response:
  assumes "authPhase ByteArrayInputStream_read wr env (RfbInitializer_new, ByteArrayInputStream_new C, w) = Some (Inr (), ob, t, w')"
    and "server_ok env" "required env"
  shows "\<exists>pre response post. C = pre @ response @ post \<and> length response = 16 \<and> judgement env response = Inr (m_viewOnlyAuth ob)"
  using assms by (rule let_in_safely)

theorem let_in_with_response_witness:
  "\<exists>C pre response post (ob :: initializer). C = pre @ response @ post \<and> length response = 16 \<and> judgement (sample_server True) response = Inr (m_viewOnlyAuth ob)"
proof -
  obtain C ob t w' where run: "authPhase ByteArrayInputStream_read (ByteArrayOutputStream_write []) (sample_server True)
      (RfbInitializer_new, ByteArrayInputStream_new C, ByteArrayOutputStream_new [] 0) = Some (Inr (), ob, t, w')"
    using sample_let_in by blast
  from let_in_with_response [OF run sample_server_ok(1,3)] show ?thesis by (elim exE conjE) (intro exI conjI)
qed

text \<open>
  C37. A refused viewer learns the reason: the server writes the result and the text of its exception
  before it throws it again, and the viewer throws one with the same text; both have then read all that the other one wrote.
\<close>

theorem refusal_told:
  assumes "server_ok senv" "admitted senv" "required senv" and "viewer_ok venv" "knows_passwords v"
    and "judgement senv (answer venv (challenge_bytes senv)) = Inl (AuthExn msg)"
    and "viewer_of_utf8 venv (to_ansi senv msg) = Some reason" "to_ansi senv msg \<noteq> []" "length (to_ansi senv msg) < 2 ^ 32"
  shows "\<exists>C S ob v'. replies (byte_server heap senv as bs cs d pf) RfbInitializer_new C (Inl (AuthExn msg)) ob S \<and>
    replies (byte_viewer heap' venv) v S (Inl (AuthExn (''Authentication reason: '' @ reason))) v' C"
  using assms by (rule refusal_ok)

theorem refusal_told_witness:
  "\<exists>C S ob v'. replies (byte_server [] (sample_server False) [] [] [] sample_dim sample_pf) RfbInitializer_new C
      (Inl (AuthExn ''Server is not configured properly'')) ob S \<and>
    replies (byte_viewer [] sample_client) (sample_core sample_view) S
      (Inl (AuthExn (''Authentication reason: '' @ map (\<lambda>b. char_of (unat b)) (chars ''Server is not configured properly'')))) v' C"
  by (rule refusal_told [OF sample_server_ok sample_client_ok sample_judgement(2)]) (simp_all add: sample_client_def sample_server_def chars_def)

text \<open>
  C38. The list that the viewer sends as its encodings has no code twice; it starts with the preferred
  encoding if there is a decoder for it; then come the other decoders, without the one for copies when that is forbidden, in descending order of
  priority and code; an empty list is replaced by the raw encoding.
\<close>

theorem getDecoderIds_correct:
  assumes "store_ok ds"
  shows "\<exists>ps. set ps = offered ds \<and> distinct (map snd ps) \<and> sorted_wrt (\<lambda>a b. b < a) ps \<and>
    (let ids = (if getDecoder (m_preferredEncoding ds) ds \<noteq> None then [m_preferredEncoding ds] else []) @ map snd ps
     in distinct ids \<and> getDecoderIds ds = (if ids = [] then [RAW] else ids))"
  using assms by (rule getDecoderIds_ok)

theorem getDecoderIds_correct_witness:
  "getDecoderIds (init_decoders DecoderStore_new) = [7, 1, 16, 5, 2, 0, -223, -224, -232, -239] \<and>
   (\<exists>ps. set ps = offered (init_decoders DecoderStore_new) \<and> sorted_wrt (\<lambda>a b. b < a) ps)"
proof
  show "getDecoderIds (init_decoders DecoderStore_new) = [7, 1, 16, 5, 2, 0, -223, -224, -232, -239]" by code_simp
  show "\<exists>ps. set ps = offered (init_decoders DecoderStore_new) \<and> sorted_wrt (\<lambda>a b. b < a) ps"
    using getDecoderIds_correct [OF init_decoders_ok [OF DecoderStore_new_ok]] by blast
qed

text \<open>
  C39. The container of capabilities is well formed however it was built: an enabled capability has
  information under its own code, and its code is one of those that are given out by order.
\<close>

theorem capabilities_consistent:
  assumes "caps_reachable cc" "isEnabled code cc"
  shows "(\<exists>c. getInfo code cc = Some c \<and> cap_code c = code) \<and> (\<exists>i < numEnabled cc. getByOrder i cc = code)"
  using assms by (intro enabled_listed reachable_ok)

theorem capabilities_consistent_witness:
  "\<exists>c. getInfo 5 (snd (caps_enable hextile_cap (caps_add hextile_cap [] CapsContainer_new))) = Some c \<and> cap_code c = 5"
proof -
  have "caps_reachable (snd (caps_enable hextile_cap (caps_add hextile_cap [] CapsContainer_new)))"
    by (intro caps_reachable.intros)
  moreover have "isEnabled 5 (snd (caps_enable hextile_cap (caps_add hextile_cap [] CapsContainer_new)))"
    using caps_enable_known(2) [of "caps_add hextile_cap [] CapsContainer_new" hextile_cap]
    by (simp add: caps_add_ok caps_new_ok) (simp add: caps_add_def CapsContainer_new_def hextile_cap_def)
  ultimately show ?thesis using capabilities_consistent by blast
qed



end
